(* ===== verification/Prelude.thy ===== *)
theory Prelude
  imports "HOL-Library.Word" "HOL-Library.Signed_Division"
begin

text \<open>
  The vocabulary every component shares: the widths of the C integers, the result of a C
  function that may end the process (a failed \<^verbatim>\<open>assert\<close>, \<^verbatim>\<open>Assert\<close> or
  \<^verbatim>\<open>panic\<close>, or a dereference outside an object), the sequencing of such functions, and
  the little-endian reading and writing of byte sequences with its round trips.
\<close>

unbundle bit_operations_syntax

section \<open>Collections of facts\<close>

named_theorems step_simps \<open>unfolding of the operations of a component\<close>
named_theorems frame_simps \<open>what an operation leaves unchanged\<close>
named_theorems inv_intros \<open>which operations keep an invariant\<close>

section \<open>C integers\<close>

type_synonym u8 = "8 word"
type_synonym u16 = "16 word"
type_synonym u32 = "32 word"
type_synonym u64 = "64 word"

lemma unat_lt2p: "unat (x :: 'a::len word) < 2 ^ LENGTH('a)"
  by (rule unsigned_less)

lemma unat_ltE: "unat (x :: u8) < 256" "unat (y :: u32) < 4294967296" "unat (z :: u64) < 18446744073709551616"
  using unat_lt2p [of x] unat_lt2p [of y] unat_lt2p [of z] by simp_all

lemma unat_minus_1: "x \<noteq> 0 \<Longrightarrow> unat (x - 1 :: 'a::len word) = unat x - 1"
  by (subst unat_sub) (simp_all add: word_le_nat_alt Suc_le_eq unat_gt_0)

lemma unat_plus_1: "unat x + 1 < 2 ^ LENGTH('a) \<Longrightarrow> unat (x + 1 :: 'a::len word) = unat x + 1"
  by (simp add: unat_word_ariths)

text \<open>Rounding down to a power of two.\<close>

lemma and_not_mask_shift: "(y :: 'a::len word) AND NOT (mask k) = push_bit k (drop_bit k y)"
  by (rule bit_word_eqI) (auto simp: bit_and_iff bit_not_iff bit_mask_iff bit_push_bit_iff bit_drop_bit_eq)

lemma unat_and_not_mask: "unat ((y :: 'a::len word) AND NOT (mask k)) = unat y div 2 ^ k * 2 ^ k"
proof -
  have "unat y div 2 ^ k * 2 ^ k \<le> unat y" by simp
  then have "unat y div 2 ^ k * 2 ^ k < 2 ^ LENGTH('a)" using unat_lt2p [of y] by linarith
  then show ?thesis
    unfolding and_not_mask_shift unsigned_push_bit_eq unsigned_drop_bit_eq
    by (simp only: take_bit_nat_eq_self unat_lt2p push_bit_eq_mult drop_bit_eq_div)
qed

text \<open>The division of C rounds towards zero.\<close>

lemma sdiv_int_eq: "(x :: int) sdiv y = sgn x * sgn y * (\<bar>x\<bar> div \<bar>y\<bar>)"
  by (simp add: signed_divide_int_def mult.commute mult.left_commute)

lemma smod_int_eq: "(x :: int) smod y = x - (x sdiv y) * y"
proof -
  have "x = sgn x * \<bar>x\<bar>" by (simp add: sgn_mult_abs)
  also have "\<bar>x\<bar> = \<bar>x\<bar> div \<bar>y\<bar> * \<bar>y\<bar> + \<bar>x\<bar> mod \<bar>y\<bar>" by (rule div_mult_mod_eq [symmetric])
  also have "sgn x * \<dots> = sgn x * (\<bar>x\<bar> div \<bar>y\<bar>) * \<bar>y\<bar> + x smod y"
    by (simp only: distrib_left mult.assoc signed_modulo_int_def)
  also have "sgn x * (\<bar>x\<bar> div \<bar>y\<bar>) * \<bar>y\<bar> = (x sdiv y) * y"
    by (simp add: abs_sgn sdiv_int_eq algebra_simps)
  finally show ?thesis by simp
qed

section \<open>Functions that may end the process\<close>

text \<open>
  \<open>Assert_fail\<close> is a failed assertion or a panic (the process prints and stops),
  \<open>Bad_access\<close> an access outside the bounds of a C object (undefined behaviour).
\<close>

datatype abort = Assert_fail string | Bad_access string

type_synonym 'a res = "abort + 'a"

definition bindR :: "'a res \<Rightarrow> ('a \<Rightarrow> 'b res) \<Rightarrow> 'b res" where
  "bindR m k = (case m of Inl e \<Rightarrow> Inl e | Inr x \<Rightarrow> k x)"

definition assertR :: "bool \<Rightarrow> string \<Rightarrow> 'a res \<Rightarrow> 'a res" where
  "assertR b msg k = (if b then k else Inl (Assert_fail msg))"

definition is_ok :: "'a res \<Rightarrow> bool" where
  "is_ok m = (case m of Inl _ \<Rightarrow> False | Inr _ \<Rightarrow> True)"

text \<open>The same for functions with a loop that may not end: \<open>None\<close> is not returning.\<close>

definition bindO :: "'a res option \<Rightarrow> ('a \<Rightarrow> 'b res option) \<Rightarrow> 'b res option" where
  "bindO m f = (case m of None \<Rightarrow> None | Some (Inl e) \<Rightarrow> Some (Inl e) | Some (Inr x) \<Rightarrow> f x)"

lemma bindR_simps [simp]:
  "bindR (Inl e) k = Inl e"
  "bindR (Inr x) k = k x"
  by (simp_all add: bindR_def)

lemma bindR_eq_Inr: "bindR m k = Inr y \<longleftrightarrow> (\<exists>x. m = Inr x \<and> k x = Inr y)"
  by (cases m) auto

lemma bindR_eq_Inl: "bindR m k = Inl e \<longleftrightarrow> m = Inl e \<or> (\<exists>x. m = Inr x \<and> k x = Inl e)"
  by (cases m) auto

lemma bindR_Inr_right [simp]: "bindR m Inr = m"
  by (cases m) simp_all

lemma bindR_assoc: "bindR (bindR m k) l = bindR m (\<lambda>x. bindR (k x) l)"
  by (cases m) simp_all

lemma assertR_eq_Inr [simp]: "assertR b msg k = Inr y \<longleftrightarrow> b \<and> k = Inr y"
  by (simp add: assertR_def)

lemma assertR_True [simp]: "assertR True msg k = k"
  by (simp add: assertR_def)

lemma assertR_False [simp]: "assertR False msg k = Inl (Assert_fail msg)"
  by (simp add: assertR_def)

lemma is_ok_simps [simp]: "is_ok (Inl e) = False" "is_ok (Inr x) = True"
  by (simp_all add: is_ok_def)

lemma is_ok_iff: "is_ok m \<longleftrightarrow> (\<exists>x. m = Inr x)"
  by (cases m) auto

text \<open>\<open>safe\<close>: the function makes no access outside an object (it may still fail an assertion).\<close>

definition safe :: "'a res \<Rightarrow> bool" where
  "safe m = (case m of Inl (Bad_access _) \<Rightarrow> False | _ \<Rightarrow> True)"

lemma safe_simps [simp]: "safe (Inr x)" "safe (Inl (Assert_fail e))" "\<not> safe (Inl (Bad_access e))"
  by (simp_all add: safe_def)

lemma safe_iff: "safe m \<longleftrightarrow> (\<forall>e. m \<noteq> Inl (Bad_access e))"
  by (auto simp: safe_def split: sum.splits abort.splits)

lemma safe_ok: "is_ok m \<Longrightarrow> safe m"
  by (cases m) simp_all

lemma safe_assertR [simp]: "safe (assertR b msg k) \<longleftrightarrow> (b \<longrightarrow> safe k)"
  by (simp add: assertR_def)

lemma safe_bindR: "safe m \<Longrightarrow> (\<And>x. m = Inr x \<Longrightarrow> safe (k x)) \<Longrightarrow> safe (bindR m k)"
  by (cases m) (auto simp: safe_def)

lemmas res_splits = sum.splits option.splits if_splits prod.splits

section \<open>Little-endian bytes\<close>

text \<open>
  A multi-byte object of the (little-endian) host and guest is its bytes, least significant
  first.
\<close>

fun le_join :: "u8 list \<Rightarrow> 'a::len word" where
  "le_join [] = 0"
| "le_join (b # bs) = ucast b OR push_bit 8 (le_join bs)"

fun le_split :: "nat \<Rightarrow> 'a::len word \<Rightarrow> u8 list" where
  "le_split 0 w = []"
| "le_split (Suc n) w = ucast w # le_split n (drop_bit 8 w)"

lemma length_le_split [simp]: "length (le_split n w) = n"
  by (induction n arbitrary: w) simp_all

lemma bit_le_join:
  "bit (le_join bs :: 'a::len word) i \<longleftrightarrow>
     i < LENGTH('a) \<and> i div 8 < length bs \<and> bit (bs ! (i div 8)) (i mod 8)"
proof (induction bs arbitrary: i)
  case Nil
  then show ?case by simp
next
  case (Cons b bs)
  show ?case
  proof (cases "i < 8")
    case True
    then show ?thesis by (auto simp: bit_simps)
  next
    case False
    then obtain j where j: "i = j + 8" by (metis add.commute le_Suc_ex not_less)
    have "\<not> bit b (j + 8)" using bit_imp_le_length [of b "j + 8"] by auto
    moreover have "(j + 8) div 8 = Suc (j div 8)" "(j + 8) mod 8 = j mod 8" by simp_all
    ultimately show ?thesis using Cons.IH [of j]
      by (auto simp: j bit_simps simp del: div_add_self2)
  qed
qed

lemma nth_le_split: "i < n \<Longrightarrow> le_split n w ! i = ucast (drop_bit (8 * i) w)"
  by (induction n arbitrary: w i) (auto simp: nth_Cons drop_bit_drop_bit add.commute split: nat.splits)

lemma le_join_split: "le_join (le_split n w) = take_bit (8 * n) (w :: 'a::len word)"
proof (rule bit_word_eqI)
  fix i assume "i < LENGTH('a)"
  moreover have "8 * (i div 8) + i mod 8 = i" by simp
  moreover have "i div 8 < n \<longleftrightarrow> i < 8 * n" by auto
  ultimately show "bit (le_join (le_split n w) :: 'a word) i = bit (take_bit (8 * n) w) i"
    by (auto simp: bit_le_join nth_le_split bit_simps)
qed

lemma le_split_join:
  assumes "8 * length bs \<le> LENGTH('a::len)"
  shows "le_split (length bs) (le_join bs :: 'a word) = bs"
proof (rule nth_equalityI)
  show "length (le_split (length bs) (le_join bs :: 'a word)) = length bs" by simp
next
  fix i assume "i < length (le_split (length bs) (le_join bs :: 'a word))"
  then have i: "i < length bs" by simp
  show "le_split (length bs) (le_join bs :: 'a word) ! i = bs ! i"
  proof (rule bit_word_eqI)
    fix j assume j: "j < LENGTH(8)"
    have "8 * i + j < LENGTH('a)" using assms i j by simp
    moreover have "(8 * i + j) div 8 = i" "(8 * i + j) mod 8 = j" using j by simp_all
    ultimately show "bit (le_split (length bs) (le_join bs :: 'a word) ! i) j = bit (bs ! i) j"
      using i j by (simp add: nth_le_split bit_simps bit_le_join)
  qed
qed

end
