(* ===== verification/Macros.thy ===== *)
theory Macros
  imports Prelude
begin

text \<open>
  The bit-field macros of \<^verbatim>\<open>nemu/include/macro.h\<close> and the instruction pattern matcher of
  \<^verbatim>\<open>nemu/include/cpu/decode.h\<close>. The matcher compiles a pattern string to a key, a mask and a
  shift; \<open>instpat_spec\<close> is what a pattern means bit by bit, and \<open>instpat_matches_spec\<close>
  shows that the compiled test decides it.
\<close>

section \<open>Bit fields\<close>

definition BITMASK :: "nat \<Rightarrow> u64" where
  "BITMASK bits = push_bit bits 1 - 1"

definition BITS :: "u32 \<Rightarrow> nat \<Rightarrow> nat \<Rightarrow> u64" where
  "BITS x hi lo = ucast (drop_bit lo x) AND BITMASK (hi - lo + 1)"

text \<open>\<^verbatim>\<open>struct { int64_t n : len; }\<close>: the value is truncated to \<open>len\<close> bits and read back signed.\<close>

definition SEXT :: "u64 \<Rightarrow> nat \<Rightarrow> u64" where
  "SEXT x len = signed_take_bit (len - 1) x"

lemma BITMASK_mask: "BITMASK n = mask n"
  by (simp add: BITMASK_def mask_eq_exp_minus_1 push_bit_eq_mult)

lemma bit_BITS [simp]:
  "bit (BITS x hi lo) i \<longleftrightarrow> i < 64 \<and> i < hi - lo + 1 \<and> bit x (lo + i)"
  using bit_imp_le_length [of x "lo + i"] by (auto simp: BITS_def BITMASK_mask bit_simps)

lemma unat_BITS_less: "unat (BITS x hi lo) < 2 ^ (hi - lo + 1)"
proof -
  have "BITS x hi lo = take_bit (hi - lo + 1) (ucast (drop_bit lo x))"
    by (rule bit_word_eqI) (auto simp: BITS_def BITMASK_mask bit_simps)
  then have "unat (BITS x hi lo) = take_bit (hi - lo + 1) (unat (ucast (drop_bit lo x) :: u64))"
    by (simp add: unsigned_take_bit_eq)
  then show ?thesis
    using take_bit_nat_less_exp [of "hi - lo + 1" "unat (ucast (drop_bit lo x) :: u64)"] by (simp only:)
qed

lemma bit_SEXT [simp]: "bit (SEXT x len) i \<longleftrightarrow> i < 64 \<and> bit x (min i (len - 1))"
  by (auto simp: SEXT_def bit_simps min_def)

lemma bit_ucast_SEXT [simp]:
  "bit (ucast (SEXT x len) :: u32) i \<longleftrightarrow> i < 32 \<and> bit x (min i (len - 1))"
  by (auto simp: bit_simps)

section \<open>Pattern strings\<close>

definition pattern_char :: "char \<Rightarrow> u64 \<times> u64 \<times> nat \<Rightarrow> (u64 \<times> u64 \<times> nat) res" where
  "pattern_char c st = (case st of (key, msk, shift) \<Rightarrow>
     if c \<noteq> CHR '' '' then
       assertR (c = CHR ''0'' \<or> c = CHR ''1'' \<or> c = CHR ''?'') ''invalid character in pattern string''
         (Inr (push_bit 1 key OR (if c = CHR ''1'' then 1 else 0),
               push_bit 1 msk OR (if c = CHR ''?'' then 0 else 1),
               (if c = CHR ''?'' then shift + 1 else 0)))
     else Inr st)"

fun pattern_loop :: "string \<Rightarrow> u64 \<times> u64 \<times> nat \<Rightarrow> (u64 \<times> u64 \<times> nat) res" where
  "pattern_loop [] st = Inr st"
| "pattern_loop (c # cs) st = bindR (pattern_char c st) (pattern_loop cs)"

text \<open>The macro runs over at most 64 characters and panics when the string is not used up.\<close>

definition pattern_decode :: "string \<Rightarrow> (u64 \<times> u64 \<times> nat) res" where
  "pattern_decode str = bindR (pattern_loop (take 64 str) (0, 0, 0)) (\<lambda>(key, msk, shift).
     assertR (length str < 64) ''pattern too long''
       (Inr (drop_bit shift key, drop_bit shift msk, shift)))"

definition instpat_matches :: "u32 \<Rightarrow> u64 \<times> u64 \<times> nat \<Rightarrow> bool" where
  "instpat_matches inst kms = (case kms of (key, msk, shift) \<Rightarrow>
     (drop_bit shift (ucast inst) AND msk) = key)"

text \<open>
  What a pattern means: without its spaces, the last character is bit 0, \<^verbatim>\<open>0\<close> and \<^verbatim>\<open>1\<close> fix
  the bit and \<^verbatim>\<open>?\<close> leaves it open.
\<close>

definition pattern_valid :: "string \<Rightarrow> bool" where
  "pattern_valid str \<longleftrightarrow> set str \<subseteq> {CHR '' '', CHR ''0'', CHR ''1'', CHR ''?''} \<and> length str < 64"

definition pattern_bits :: "string \<Rightarrow> string" where
  "pattern_bits str = rev (filter (\<lambda>c. c \<noteq> CHR '' '') str)"

definition instpat_spec :: "string \<Rightarrow> u32 \<Rightarrow> bool" where
  "instpat_spec str inst \<longleftrightarrow>
     (\<forall>i < length (pattern_bits str).
        (pattern_bits str ! i = CHR ''1'' \<longrightarrow> bit inst i) \<and>
        (pattern_bits str ! i = CHR ''0'' \<longrightarrow> \<not> bit inst i))"

text \<open>The loop invariant: what the three accumulators say about the characters read so far.\<close>

definition pattern_acc :: "string \<Rightarrow> u64 \<times> u64 \<times> nat \<Rightarrow> bool" where
  "pattern_acc r st \<longleftrightarrow> (case st of (key, msk, shift) \<Rightarrow>
     (\<forall>i < 64. bit key i \<longleftrightarrow> i < length r \<and> r ! i = CHR ''1'') \<and>
     (\<forall>i < 64. bit msk i \<longleftrightarrow> i < length r \<and> r ! i \<noteq> CHR ''?'') \<and>
     shift = length (takeWhile (\<lambda>c. c = CHR ''?'') r))"

lemma pattern_char_ok:
  assumes "pattern_acc r st" and "c \<in> {CHR '' '', CHR ''0'', CHR ''1'', CHR ''?''}"
    and "length r < 64"
  shows "\<exists>st'. pattern_char c st = Inr st' \<and>
           pattern_acc (if c = CHR '' '' then r else c # r) st'"
proof -
  obtain key msk shift where st: "st = (key, msk, shift)" by (cases st)
  have bits: "bit (w * 2 OR (if b then 1 else 0 :: u64)) i \<longleftrightarrow>
      i < 64 \<and> (case i of 0 \<Rightarrow> b | Suc j \<Rightarrow> bit w j)" for w b i
  proof -
    have "bit (w * 2) i \<longleftrightarrow> bit (push_bit 1 w) i" by simp
    also have "\<dots> \<longleftrightarrow> i < 64 \<and> 1 \<le> i \<and> bit w (i - 1)"
      by (simp only: bit_push_bit_iff possible_bit_word) auto
    finally show ?thesis by (cases i) (auto simp: bit_or_iff)
  qed
  show ?thesis
  proof (cases "c = CHR '' ''")
    case True
    then show ?thesis using assms(1) by (simp add: pattern_char_def st)
  next
    case False
    have neg: "(if c = CHR ''?'' then 0 else 1 :: u64) = (if c \<noteq> CHR ''?'' then 1 else 0)" by simp
    from assms False show ?thesis
      by (auto simp: pattern_char_def pattern_acc_def st neg bits nth_Cons split: nat.splits)
  qed
qed

lemma pattern_loop_ok:
  assumes "pattern_acc r st"
    and "set cs \<subseteq> {CHR '' '', CHR ''0'', CHR ''1'', CHR ''?''}"
    and "length r + length cs \<le> 64"
  shows "\<exists>st'. pattern_loop cs st = Inr st' \<and> pattern_acc (pattern_bits cs @ r) st'"
  using assms
proof (induction cs arbitrary: r st)
  case Nil
  then show ?case by (simp add: pattern_bits_def)
next
  case (Cons c cs)
  let ?r = "if c = CHR '' '' then r else c # r"
  from Cons.prems obtain st1 where st1: "pattern_char c st = Inr st1" "pattern_acc ?r st1"
    using pattern_char_ok [of r st c] by auto
  moreover have "length ?r + length cs \<le> 64" using Cons.prems(3) by auto
  ultimately obtain st' where "pattern_loop cs st1 = Inr st'" "pattern_acc (pattern_bits cs @ ?r) st'"
    using Cons.IH [of ?r st1] Cons.prems(2) by auto
  then show ?case using st1(1) by (auto simp: pattern_bits_def)
qed

lemma takeWhile_length_le_nth:
  "i < length (takeWhile P xs) \<Longrightarrow> i < length xs \<and> P (xs ! i)"
  by (metis length_takeWhile_le less_le_trans nth_mem set_takeWhileD takeWhile_nth)

lemma instpat_acc_matches:
  assumes acc: "pattern_acc r (key, msk, shift)"
    and "set r \<subseteq> {CHR ''0'', CHR ''1'', CHR ''?''}" and "length r \<le> 64"
  shows "instpat_matches inst (drop_bit shift key, drop_bit shift msk, shift) \<longleftrightarrow>
    (\<forall>i < length r. (r ! i = CHR ''1'' \<longrightarrow> bit inst i) \<and> (r ! i = CHR ''0'' \<longrightarrow> \<not> bit inst i))"
    (is "?M \<longleftrightarrow> ?S")
proof -
  have shift: "shift = length (takeWhile (\<lambda>c. c = CHR ''?'') r)"
    using acc by (simp add: pattern_acc_def)
  have "?M \<longleftrightarrow> (\<forall>i. bit (drop_bit shift (ucast inst) AND drop_bit shift msk) i =
      bit (drop_bit shift key) i)"
    by (auto simp: instpat_matches_def simp del: bit_and_iff intro: bit_eqI)
  also have "\<dots> \<longleftrightarrow> (\<forall>i. (bit inst (shift + i) \<and> bit msk (shift + i)) = bit key (shift + i))"
  proof -
    have "n < 64 \<and> bit inst n \<longleftrightarrow> bit inst n" for n using bit_imp_le_length [of inst n] by auto
    then show ?thesis by (simp add: bit_simps flip: conj_assoc)
  qed
  also have "\<dots> \<longleftrightarrow> (\<forall>i \<ge> shift. (bit inst i \<and> bit msk i) = bit key i)"
    by (metis le_add1 le_Suc_ex)
  also have "\<dots> \<longleftrightarrow> (\<forall>i \<ge> shift. i < length r \<longrightarrow>
      (bit inst i \<and> r ! i \<noteq> CHR ''?'') = (r ! i = CHR ''1''))"
  proof -
    have "bit msk i \<longleftrightarrow> i < length r \<and> r ! i \<noteq> CHR ''?''" "bit key i \<longleftrightarrow> i < length r \<and> r ! i = CHR ''1''"
      for i using acc assms(3) bit_imp_le_length [of msk i] bit_imp_le_length [of key i]
      by (cases "i < 64"; auto simp: pattern_acc_def)+
    then show ?thesis by auto
  qed
  also have "\<dots> \<longleftrightarrow> ?S"
  proof
    assume L: "\<forall>i \<ge> shift. i < length r \<longrightarrow> (bit inst i \<and> r ! i \<noteq> CHR ''?'') = (r ! i = CHR ''1'')"
    show ?S
    proof (intro allI impI)
      fix i assume i: "i < length r"
      show "(r ! i = CHR ''1'' \<longrightarrow> bit inst i) \<and> (r ! i = CHR ''0'' \<longrightarrow> \<not> bit inst i)"
      proof (cases "i < shift")
        case True
        then have "r ! i = CHR ''?''"
          using takeWhile_length_le_nth [of i "\<lambda>c. c = CHR ''?''" r] by (simp add: shift)
        then show ?thesis by simp
      next
        case False
        then have "(bit inst i \<and> r ! i \<noteq> CHR ''?'') = (r ! i = CHR ''1'')" using L i by simp
        then show ?thesis by auto
      qed
    qed
  next
    assume S: ?S
    show "\<forall>i \<ge> shift. i < length r \<longrightarrow> (bit inst i \<and> r ! i \<noteq> CHR ''?'') = (r ! i = CHR ''1'')"
    proof (intro allI impI)
      fix i assume i: "i < length r"
      then have "r ! i \<in> {CHR ''0'', CHR ''1'', CHR ''?''}" using assms(2) nth_mem by blast
      then show "(bit inst i \<and> r ! i \<noteq> CHR ''?'') = (r ! i = CHR ''1'')" using S i by auto
    qed
  qed
  finally show ?thesis .
qed

lemma pattern_decode_matches_spec:
  assumes "pattern_valid str"
  shows "\<exists>kms. pattern_decode str = Inr kms \<and> (\<forall>inst. instpat_matches inst kms \<longleftrightarrow> instpat_spec str inst)"
proof -
  have init: "pattern_acc [] (0, 0, 0)" by (simp add: pattern_acc_def)
  obtain st' where loop: "pattern_loop str (0, 0, 0) = Inr st'" "pattern_acc (pattern_bits str) st'"
    using pattern_loop_ok [OF init, of str] assms by (auto simp: pattern_valid_def)
  obtain key msk shift where st: "st' = (key, msk, shift)" by (cases st')
  let ?kms = "(drop_bit shift key, drop_bit shift msk, shift)"
  have dec: "pattern_decode str = Inr ?kms"
    using loop assms by (simp add: pattern_decode_def pattern_valid_def st)
  have chars: "set (pattern_bits str) \<subseteq> {CHR ''0'', CHR ''1'', CHR ''?''}"
    using assms by (auto simp: pattern_bits_def pattern_valid_def)
  have len: "length (pattern_bits str) \<le> 64"
  proof -
    have "length (pattern_bits str) \<le> length str" by (simp add: pattern_bits_def)
    then show ?thesis using assms by (simp add: pattern_valid_def)
  qed
  have "instpat_matches inst ?kms \<longleftrightarrow> instpat_spec str inst" for inst
    using instpat_acc_matches [OF loop(2) [unfolded st] chars len, of inst]
    by (simp add: instpat_spec_def)
  then show ?thesis using dec by blast
qed

end
