(* ===== verification/Nemu_State.thy ===== *)
theory Nemu_State
  imports Macros
begin

text \<open>
  The data of NEMU: the build configuration (the generated \<^verbatim>\<open>autoconf.h\<close>, a parameter of every
  operation), the structs of its headers, and the global variables of its source files gathered in
  one record \<open>nemu\<close>. The model is the 32-bit RISC-V guest (\<^verbatim>\<open>CONFIG_ISA_riscv\<close>,
  \<^verbatim>\<open>CONFIG_RV64\<close> undefined) on a native or shared-object host target
  (\<^verbatim>\<open>CONFIG_TARGET_AM\<close>, \<^verbatim>\<open>CONFIG_HAS_PORT_IO\<close> and \<^verbatim>\<open>CONFIG_HAS_SDCARD\<close>
  undefined).
\<close>

section \<open>Build configuration\<close>

record config =
  CONFIG_MBASE :: u32
  CONFIG_MSIZE :: u32
  CONFIG_PC_RESET_OFFSET :: u32
  CONFIG_MEM_SCHEME_NPC :: bool
  CONFIG_MEM_RANDOM :: bool
  CONFIG_RVE :: bool
  CONFIG_RT_CHECK :: bool
  CONFIG_TARGET_SHARE :: bool
  CONFIG_DIFFTEST :: bool
  CONFIG_DEVICE :: bool
  CONFIG_HAS_SERIAL :: bool
  CONFIG_SERIAL_MMIO :: u32
  CONFIG_HAS_TIMER :: bool
  CONFIG_RTC_MMIO :: u32
  CONFIG_HAS_KEYBOARD :: bool
  CONFIG_I8042_DATA_MMIO :: u32
  CONFIG_HAS_VGA :: bool
  CONFIG_VGA_CTL_MMIO :: u32
  CONFIG_FB_ADDR :: u32
  CONFIG_VGA_SIZE_800x600 :: bool
  CONFIG_VGA_SHOW_SCREEN :: bool
  CONFIG_HAS_AUDIO :: bool
  CONFIG_AUDIO_CTL_MMIO :: u32
  CONFIG_SB_ADDR :: u32
  CONFIG_SB_SIZE :: u32

section \<open>Host objects and pointers\<close>

text \<open>
  A host pointer is \<^verbatim>\<open>NULL\<close> or an object and a byte offset into it; the objects are the three
  guest memory arrays of \<^verbatim>\<open>memory/paddr.c\<close> and the \<^verbatim>\<open>malloc\<close>ed device space of
  \<^verbatim>\<open>device/io/map.c\<close>. The host heap gives the bytes of every object.
\<close>

datatype hobj = Pmem | Mrom | Sram | Io_space

type_synonym hptr = "(hobj \<times> int) option"
type_synonym heap = "hobj \<Rightarrow> nat \<Rightarrow> u8"

definition IO_SPACE_MAX :: nat where
  "IO_SPACE_MAX = 32 * 1024 * 1024"

fun hsize :: "config \<Rightarrow> hobj \<Rightarrow> nat" where
  "hsize c Pmem = unat (CONFIG_MSIZE c)"
| "hsize c Mrom = 0x1000"
| "hsize c Sram = 0x2000"
| "hsize c Io_space = IO_SPACE_MAX"

definition ptr_add :: "hptr \<Rightarrow> int \<Rightarrow> hptr" where
  "ptr_add p k = map_option (\<lambda>(b, off). (b, off + k)) p"

section \<open>Structs\<close>

record CPU_state =
  gpr :: "u32 list"
  pc :: u32
  mstatus :: u32
  mtvec :: u32
  mepc :: u32
  mcause :: u32

record Decode =
  d_pc :: u32
  snpc :: u32
  dnpc :: u32
  d_exception :: bool
  d_exception_cause :: u32
  d_inst :: u32

record MemRegion =
  mr_name :: string
  mr_base :: u32
  mr_size :: u32
  mr_host :: hptr
  mr_loadable :: bool
  mr_writable :: bool

datatype io_callback =
    Serial_io_handler
  | Rtc_io_handler
  | Npc_uart_io_handler
  | Npc_clint_io_handler
  | I8042_data_io_handler
  | Audio_io_handler

record IOMap =
  io_name :: string
  io_low :: u32
  io_high :: u32
  io_space :: hptr
  io_callback :: "io_callback option"

record MMIOReplayRecord =
  rp_valid :: bool
  rp_is_write :: bool
  rp_addr :: u32
  rp_len :: u8
  rp_wmask :: u8
  rp_wdata :: u32
  rp_rdata :: u32

datatype nemu_run = NEMU_RUNNING | NEMU_STOP | NEMU_END | NEMU_ABORT | NEMU_QUIT | NEMU_LIMIT

fun run_code :: "nemu_run \<Rightarrow> u32" where
  "run_code NEMU_RUNNING = 0"
| "run_code NEMU_STOP = 1"
| "run_code NEMU_END = 2"
| "run_code NEMU_ABORT = 3"
| "run_code NEMU_QUIT = 4"
| "run_code NEMU_LIMIT = 5"

record NEMUState =
  run_state :: nemu_run
  halt_pc :: u32
  halt_ret :: u32

record CommitEvent =
  ev_retire :: u64
  ev_cycle :: u64
  ev_pc :: u32
  ev_inst :: u32
  ev_next_pc :: u32
  ev_has_wb :: u8
  ev_rd :: u8
  ev_rd_value :: u32
  ev_exception :: u8
  ev_cause :: u32
  ev_mem_valid :: u8
  ev_mem_is_write :: u8
  ev_mem_size :: u8
  ev_mem_addr :: u32
  ev_mem_wdata :: u32
  ev_mem_rdata :: u32

text \<open>
  What the process writes to its output streams, as far as another program reads it: a character of
  the guest's serial line, and the machine-readable lines of the monitor.
\<close>

datatype outev =
    Putc u8
  | Replay_fail string
  | Last_begin nat
  | Last_event CommitEvent
  | Last_end
  | Break_hit u32 u64
  | Result string nemu_run u32 u32 u64 u64
  | Break_msg string u32
  | Break_list nat
  | Break_line u32
  | Pc_line u32
  | Reg_line nat u32
  | Mem_line u32 u32
  | State_line u32 nemu_run u32 u32
  | Message string

section \<open>Global variables\<close>

record nemu =
  heap :: heap
  mem_regions :: "MemRegion list"
  p_space :: hptr
  maps :: "IOMap list"
  serial_base :: hptr
  rtc_port_base :: hptr
  npc_uart_base :: hptr
  npc_clint_base :: hptr
  i8042_data_port_base :: hptr
  vgactl_port_base :: hptr
  vmem :: hptr
  audio_base :: hptr
  sbuf :: hptr
  mmio_replay :: MMIOReplayRecord
  mmio_replay_mismatch :: bool
  keymap :: "u32 list"
  key_queue :: "u32 list"
  key_f :: nat
  key_r :: nat
  alarm_handlers :: nat
  last_update :: u64
  is_skip_ref :: bool
  skip_dut_nr_inst :: int
  cpu :: CPU_state
  nemu_state :: NEMUState
  nemu_inst_limit :: u64
  g_nr_guest_inst :: u64
  commit_ring :: "CommitEvent list"
  commit_ring_next :: nat
  commit_ring_count :: nat
  breakpoints :: "u32 list"
  outs :: "outev list"

definition emit :: "outev \<Rightarrow> nemu \<Rightarrow> nemu" where
  "emit o' s = s\<lparr>outs := outs s @ [o']\<rparr>"

text \<open>\<^verbatim>\<open>difftest_skip_ref\<close> is an empty inline function unless \<^verbatim>\<open>CONFIG_DIFFTEST\<close> is set.\<close>

definition difftest_skip_ref :: "config \<Rightarrow> nemu \<Rightarrow> nemu" where
  "difftest_skip_ref c s =
     (if CONFIG_DIFFTEST c then s\<lparr>is_skip_ref := True, skip_dut_nr_inst := 0\<rparr> else s)"

definition zero_event :: CommitEvent where
  "zero_event = \<lparr>ev_retire = 0, ev_cycle = 0, ev_pc = 0, ev_inst = 0, ev_next_pc = 0, ev_has_wb = 0,
     ev_rd = 0, ev_rd_value = 0, ev_exception = 0, ev_cause = 0, ev_mem_valid = 0,
     ev_mem_is_write = 0, ev_mem_size = 0, ev_mem_addr = 0, ev_mem_wdata = 0, ev_mem_rdata = 0\<rparr>"

definition NR_GPR :: "config \<Rightarrow> nat" where
  "NR_GPR c = (if CONFIG_RVE c then 16 else 32)"

text \<open>
  The state before \<^verbatim>\<open>main\<close>: static storage is zero, \<^verbatim>\<open>nemu_state\<close> starts stopped. The
  region table is that of \<^verbatim>\<open>memory/paddr.c\<close>, with no host array yet for region 0.
\<close>

definition PMEM_REGION_SIZE :: "config \<Rightarrow> u32" where
  "PMEM_REGION_SIZE c = (if CONFIG_MEM_SCHEME_NPC c then 0x01000000 else CONFIG_MSIZE c)"

definition initial_regions :: "config \<Rightarrow> MemRegion list" where
  "initial_regions c =
    [\<lparr>mr_name = (if CONFIG_MEM_SCHEME_NPC c then ''npc-pmem'' else ''pmem''),
       mr_base = CONFIG_MBASE c, mr_size = PMEM_REGION_SIZE c, mr_host = None,
       mr_loadable = True, mr_writable = True\<rparr>,
     \<lparr>mr_name = ''mrom'', mr_base = 0x20000000, mr_size = 0x1000, mr_host = Some (Mrom, 0),
       mr_loadable = True, mr_writable = False\<rparr>,
     \<lparr>mr_name = ''sram'', mr_base = 0x0f000000, mr_size = 0x2000, mr_host = Some (Sram, 0),
       mr_loadable = True, mr_writable = True\<rparr>]"

definition initial_nemu :: "config \<Rightarrow> nemu" where
  "initial_nemu c = \<lparr>heap = (\<lambda>_ _. 0), mem_regions = initial_regions c, p_space = None, maps = [],
     serial_base = None, rtc_port_base = None, npc_uart_base = None, npc_clint_base = None,
     i8042_data_port_base = None, vgactl_port_base = None, vmem = None, audio_base = None, sbuf = None,
     mmio_replay = \<lparr>rp_valid = False, rp_is_write = False, rp_addr = 0, rp_len = 0, rp_wmask = 0,
       rp_wdata = 0, rp_rdata = 0\<rparr>,
     mmio_replay_mismatch = False, keymap = replicate 256 0, key_queue = replicate 1024 0,
     key_f = 0, key_r = 0, alarm_handlers = 0, last_update = 0, is_skip_ref = False,
     skip_dut_nr_inst = 0,
     cpu = \<lparr>gpr = replicate (NR_GPR c) 0, pc = 0, mstatus = 0, mtvec = 0, mepc = 0, mcause = 0\<rparr>,
     nemu_state = \<lparr>run_state = NEMU_STOP, halt_pc = 0, halt_ret = 0\<rparr>,
     nemu_inst_limit = 0, g_nr_guest_inst = 0, commit_ring = replicate 64 zero_event,
     commit_ring_next = 0, commit_ring_count = 0, breakpoints = [], outs = []\<rparr>"

end
