(* ===== verification/Host_Memory.thy ===== *)
theory Host_Memory
  imports Nemu_State
begin

text \<open>
  Bytes of host objects (\<open>load_bytes\<close>, \<open>store_bytes\<close>: what a dereference, \<^verbatim>\<open>memcpy\<close> or
  \<^verbatim>\<open>memset\<close> does, or \<open>Bad_access\<close> outside the object) and the sized accesses
  \<open>host_read\<close> and \<open>host_write\<close> of \<^verbatim>\<open>nemu/include/memory/host.h\<close>.
\<close>

definition in_object :: "config \<Rightarrow> hptr \<Rightarrow> nat \<Rightarrow> bool" where
  "in_object c p n = (case p of None \<Rightarrow> False
     | Some (b, off) \<Rightarrow> 0 \<le> off \<and> off + int n \<le> int (hsize c b))"

definition load_bytes :: "config \<Rightarrow> heap \<Rightarrow> hptr \<Rightarrow> nat \<Rightarrow> u8 list res" where
  "load_bytes c h p n = (case p of None \<Rightarrow> Inl (Bad_access ''NULL'')
     | Some (b, off) \<Rightarrow>
         if in_object c p n then Inr (map (\<lambda>i. h b (nat off + i)) [0..<n])
         else Inl (Bad_access ''out of object''))"

definition store_at :: "heap \<Rightarrow> hobj \<Rightarrow> nat \<Rightarrow> u8 list \<Rightarrow> heap" where
  "store_at h b o' bs =
     h(b := (\<lambda>j. if o' \<le> j \<and> j < o' + length bs then bs ! (j - o') else h b j))"

definition store_bytes :: "config \<Rightarrow> heap \<Rightarrow> hptr \<Rightarrow> u8 list \<Rightarrow> heap res" where
  "store_bytes c h p bs = (case p of None \<Rightarrow> Inl (Bad_access ''NULL'')
     | Some (b, off) \<Rightarrow>
         if in_object c p (length bs) then Inr (store_at h b (nat off) bs)
         else Inl (Bad_access ''out of object''))"

definition host_read :: "config \<Rightarrow> heap \<Rightarrow> hptr \<Rightarrow> int \<Rightarrow> u32 res" where
  "host_read c h p len =
     (if len \<in> {1, 2, 4} then bindR (load_bytes c h p (nat len)) (\<lambda>bs. Inr (le_join bs))
      else if CONFIG_RT_CHECK c then Inl (Assert_fail ''host_read'')
      else Inr 0)"

definition host_write :: "config \<Rightarrow> heap \<Rightarrow> hptr \<Rightarrow> int \<Rightarrow> u32 \<Rightarrow> heap res" where
  "host_write c h p len data =
     (if len \<in> {1, 2, 4} then store_bytes c h p (le_split (nat len) data)
      else if CONFIG_RT_CHECK c then Inl (Assert_fail ''host_write'')
      else Inr h)"

section \<open>Laws of host memory\<close>

definition ptr_disjoint :: "hptr \<Rightarrow> nat \<Rightarrow> hptr \<Rightarrow> nat \<Rightarrow> bool" where
  "ptr_disjoint p n q m = (case (p, q) of
     (Some (b, off), Some (b', off')) \<Rightarrow> b \<noteq> b' \<or> off + int n \<le> off' \<or> off' + int m \<le> off
   | _ \<Rightarrow> True)"

text \<open>
  The interface of a byte store that may refuse an access: the bytes stored are the bytes loaded,
  and other bytes stay.
\<close>

locale byte_store =
  fixes ld :: "'s \<Rightarrow> 'p \<Rightarrow> nat \<Rightarrow> u8 list res"
    and st :: "'s \<Rightarrow> 'p \<Rightarrow> u8 list \<Rightarrow> 's res"
    and disj :: "'p \<Rightarrow> nat \<Rightarrow> 'p \<Rightarrow> nat \<Rightarrow> bool"
  assumes ld_length: "ld s p n = Inr bs \<Longrightarrow> length bs = n"
    and st_ok: "is_ok (ld s p (length bs)) \<Longrightarrow> is_ok (st s p bs)"
    and ld_st_same: "st s p bs = Inr s' \<Longrightarrow> ld s' p (length bs) = Inr bs"
    and ld_st_other: "st s p bs = Inr s' \<Longrightarrow> disj p (length bs) q n \<Longrightarrow> ld s' q n = ld s q n"
    and ld_frame: "st s p bs = Inr s' \<Longrightarrow> is_ok (ld s' q n) = is_ok (ld s q n)"
begin

text \<open>Words stored and loaded through the bytes.\<close>

lemma word_roundtrip:
  assumes "st s p (le_split n w) = Inr s'"
  shows "bindR (ld s' p n) (\<lambda>bs. Inr (le_join bs)) = Inr (take_bit (8 * n) (w :: 'w::len word))"
  using ld_st_same [OF assms] by (simp add: le_join_split)

lemma word_store_ok:
  assumes "is_ok (ld s p n)"
  shows "\<exists>s'. st s p (le_split n w) = Inr s'"
  using st_ok [of s p "le_split n w"] assms by (auto simp: is_ok_iff)

lemma word_frame:
  assumes "st s p (le_split n w) = Inr s'" and "disj p n q m"
  shows "bindR (ld s' q m) f = bindR (ld s q m) f"
  using ld_st_other [OF assms(1)] assms(2) by simp

end

lemma load_bytes_ok: "is_ok (load_bytes c h p n) \<longleftrightarrow> in_object c p n"
  by (auto simp: load_bytes_def in_object_def split: option.splits)

lemma store_bytes_ok: "is_ok (store_bytes c h p bs) \<longleftrightarrow> in_object c p (length bs)"
  by (auto simp: store_bytes_def in_object_def split: option.splits)

lemma load_store_same:
  assumes "store_bytes c h p bs = Inr h'"
  shows "load_bytes c h' p (length bs) = Inr bs"
  using assms
  by (auto simp: store_bytes_def load_bytes_def store_at_def intro!: nth_equalityI split: option.splits if_splits)

lemma load_store_other:
  assumes "store_bytes c h p bs = Inr h'" and "ptr_disjoint p (length bs) q n"
  shows "load_bytes c h' q n = load_bytes c h q n"
proof (cases q)
  case None
  then show ?thesis by (simp add: load_bytes_def)
next
  case (Some bq)
  obtain b off where p: "p = Some (b, off)" and "0 \<le> off" and h': "h' = store_at h b (nat off) bs"
    using assms(1) by (auto simp: store_bytes_def in_object_def split: option.splits if_splits)
  then obtain k where k: "off = int k" using nonneg_int_cases by blast
  obtain b' off' where q: "q = Some (b', off')" using Some by (cases bq) auto
  show ?thesis
  proof (cases "0 \<le> off'")
    case True
    then obtain k' where "off' = int k'" using nonneg_int_cases by blast
    then show ?thesis using assms(2)
      by (auto simp: load_bytes_def in_object_def store_at_def ptr_disjoint_def p q k h')
  next
    case False
    then show ?thesis by (simp add: load_bytes_def in_object_def q)
  qed
qed

interpretation hm: byte_store "load_bytes c" "store_bytes c" ptr_disjoint
  by unfold_locales
    (auto simp: load_bytes_ok store_bytes_ok load_store_same load_store_other,
     auto simp: load_bytes_def split: option.splits if_splits)

lemma host_write_ok:
  assumes "len \<in> {1, 2, 4}"
  shows "is_ok (host_write c h p len data) \<longleftrightarrow> in_object c p (nat len)"
  using assms by (auto simp: host_write_def store_bytes_ok)

lemma host_read_ok:
  assumes "len \<in> {1, 2, 4}"
  shows "is_ok (host_read c h p len) \<longleftrightarrow> in_object c p (nat len)"
proof -
  have "is_ok (bindR (load_bytes c h p (nat len)) (\<lambda>bs. Inr (le_join bs :: u32)))
      \<longleftrightarrow> is_ok (load_bytes c h p (nat len))"
    by (cases "load_bytes c h p (nat len)") auto
  then show ?thesis using assms by (simp add: host_read_def load_bytes_ok)
qed

lemma host_read_write_same:
  assumes "host_write c h p len data = Inr h'" and "len \<in> {1, 2, 4}"
  shows "host_read c h' p len = Inr (take_bit (8 * nat len) data)"
  using hm.word_roundtrip [of c h p "nat len" data h'] assms
  by (simp add: host_read_def host_write_def)

lemma host_read_write_other:
  assumes "host_write c h p len data = Inr h'" and "len \<in> {1, 2, 4}"
    and "ptr_disjoint p (nat len) q (nat len')"
  shows "host_read c h' q len' = host_read c h q len'"
proof -
  have "bindR (load_bytes c h' q (nat len')) f = bindR (load_bytes c h q (nat len')) f" for f :: "u8 list \<Rightarrow> u32 res"
    using hm.word_frame [of c h p "nat len" data h' q "nat len'"] assms by (simp add: host_write_def)
  then show ?thesis unfolding host_read_def by (simp only:)
qed

lemma host_write_bytes_elsewhere:
  assumes "host_write c h p len data = Inr h'" and "\<forall>off. p \<noteq> Some (b, off)"
  shows "h' b = h b"
  using assms
  by (cases p) (auto simp: host_write_def store_bytes_def store_at_def split: if_splits)

end
