(* ===== verification/Paddr.thy ===== *)
theory Paddr
  imports Host_Memory
begin

text \<open>
  Guest physical memory, \<^verbatim>\<open>nemu/src/memory/paddr.c\<close> without its device branch: the region
  table, the translation of guest addresses to host pointers, block copies and the sized accesses
  \<open>pmem_read\<close> and \<open>pmem_write\<close>. The laws shown are that every access the region check lets
  through stays inside its host array, and the read-over-write laws of a guest RAM.
\<close>

section \<open>Operations\<close>

definition size_t_of :: "int \<Rightarrow> nat" where
  "size_t_of len = nat (len mod 2 ^ 64)"

definition range_in_region :: "MemRegion \<Rightarrow> u32 \<Rightarrow> nat \<Rightarrow> bool" where
  "range_in_region region addr len =
     (let offset = addr - mr_base region
      in offset < mr_size region \<and> len \<le> unat (mr_size region - offset))"

fun find_mem_region_loop :: "MemRegion list \<Rightarrow> u32 \<Rightarrow> nat \<Rightarrow> MemRegion option" where
  "find_mem_region_loop [] addr len = None"
| "find_mem_region_loop (r # rs) addr len =
     (if range_in_region r addr len then Some r else find_mem_region_loop rs addr len)"

definition find_mem_region :: "nemu \<Rightarrow> u32 \<Rightarrow> nat \<Rightarrow> MemRegion option" where
  "find_mem_region s addr len = find_mem_region_loop (mem_regions s) addr len"

definition region_guest_to_host :: "MemRegion \<Rightarrow> u32 \<Rightarrow> hptr" where
  "region_guest_to_host region addr = ptr_add (mr_host region) (uint addr - uint (mr_base region))"

definition paddr_is_backed :: "nemu \<Rightarrow> u32 \<Rightarrow> nat \<Rightarrow> bool" where
  "paddr_is_backed s addr len = (find_mem_region s addr len \<noteq> None)"

definition paddr_is_loadable :: "nemu \<Rightarrow> u32 \<Rightarrow> nat \<Rightarrow> bool" where
  "paddr_is_loadable s addr len =
     (case find_mem_region s addr len of None \<Rightarrow> False | Some region \<Rightarrow> mr_loadable region)"

definition in_pmem :: "nemu \<Rightarrow> u32 \<Rightarrow> bool" where
  "in_pmem s addr = paddr_is_backed s addr 1"

definition guest_to_host :: "nemu \<Rightarrow> u32 \<Rightarrow> hptr res" where
  "guest_to_host s paddr = (case find_mem_region s paddr 1 of
     None \<Rightarrow> Inl (Assert_fail ''address is not backed by physical memory'')
   | Some region \<Rightarrow> Inr (region_guest_to_host region paddr))"

fun host_to_guest_loop :: "MemRegion list \<Rightarrow> hobj \<times> int \<Rightarrow> u32 res" where
  "host_to_guest_loop [] p = Inl (Assert_fail ''host address is not backed by physical memory'')"
| "host_to_guest_loop (r # rs) p =
     (case mr_host r of
        Some (b, off) \<Rightarrow>
          if b = fst p \<and> off \<le> snd p \<and> snd p < off + uint (mr_size r)
          then Inr (mr_base r + word_of_int (snd p - off))
          else host_to_guest_loop rs p
      | None \<Rightarrow> host_to_guest_loop rs p)"

definition host_to_guest :: "nemu \<Rightarrow> hobj \<times> int \<Rightarrow> u32 res" where
  "host_to_guest s haddr = host_to_guest_loop (mem_regions s) haddr"

definition paddr_memcpy_to_guest :: "config \<Rightarrow> u32 \<Rightarrow> u8 list \<Rightarrow> bool \<Rightarrow> nemu \<Rightarrow> nemu res" where
  "paddr_memcpy_to_guest c addr buf require_loadable s =
     (case find_mem_region s addr (length buf) of
        None \<Rightarrow> Inl (Assert_fail ''load range is not backed by physical memory'')
      | Some region \<Rightarrow>
          assertR (\<not> require_loadable \<or> mr_loadable region) ''load range targets non-loadable memory''
            (bindR (store_bytes c (heap s) (region_guest_to_host region addr) buf)
               (\<lambda>h. Inr (s\<lparr>heap := h\<rparr>))))"

definition paddr_memcpy_from_guest :: "config \<Rightarrow> nemu \<Rightarrow> u32 \<Rightarrow> nat \<Rightarrow> u8 list res" where
  "paddr_memcpy_from_guest c s addr len =
     (case find_mem_region s addr len of
        None \<Rightarrow> Inl (Assert_fail ''copy range is not backed by physical memory'')
      | Some region \<Rightarrow> load_bytes c (heap s) (region_guest_to_host region addr) len)"

definition pmem_read :: "config \<Rightarrow> nemu \<Rightarrow> u32 \<Rightarrow> int \<Rightarrow> u32 res" where
  "pmem_read c s addr len =
     (case find_mem_region s addr (size_t_of len) of
        None \<Rightarrow> Inl (Assert_fail ''address is not backed by physical memory'')
      | Some region \<Rightarrow> host_read c (heap s) (region_guest_to_host region addr) len)"

definition pmem_write :: "config \<Rightarrow> u32 \<Rightarrow> int \<Rightarrow> u32 \<Rightarrow> nemu \<Rightarrow> nemu res" where
  "pmem_write c addr len data s =
     (case find_mem_region s addr (size_t_of len) of
        None \<Rightarrow> Inl (Assert_fail ''address is not backed by physical memory'')
      | Some region \<Rightarrow>
          assertR (mr_writable region) ''write to non-writable memory region''
            (bindR (host_write c (heap s) (region_guest_to_host region addr) len data)
               (\<lambda>h. Inr (s\<lparr>heap := h\<rparr>))))"

text \<open>\<open>r\<close> is the value of the C library's \<^verbatim>\<open>rand()\<close>, as \<^verbatim>\<open>memset\<close> truncates it.\<close>

definition init_mem :: "config \<Rightarrow> u8 \<Rightarrow> nemu \<Rightarrow> nemu" where
  "init_mem c r s =
     (let s1 = s\<lparr>mem_regions := (mem_regions s)[0 := (mem_regions s ! 0)\<lparr>mr_host := Some (Pmem, 0)\<rparr>]\<rparr>
      in if CONFIG_MEM_RANDOM c
         then s1\<lparr>heap := (heap s1)(Pmem := (\<lambda>j. if j < unat (CONFIG_MSIZE c) then r else heap s1 Pmem j))\<rparr>
         else s1)"

section \<open>Well-formed memory\<close>

text \<open>
  The configurations the region table is meant for: pmem does not wrap around the address space,
  its array is as large as the region, and it overlaps neither the boot ROM nor the SRAM.
\<close>

definition mem_regions_ready :: "config \<Rightarrow> MemRegion list" where
  "mem_regions_ready c = (initial_regions c)[0 := (initial_regions c ! 0)\<lparr>mr_host := Some (Pmem, 0)\<rparr>]"

definition wf_mem_config :: "config \<Rightarrow> bool" where
  "wf_mem_config c \<longleftrightarrow>
     unat (CONFIG_MBASE c) + unat (PMEM_REGION_SIZE c) \<le> 2 ^ 32 \<and>
     PMEM_REGION_SIZE c \<le> CONFIG_MSIZE c \<and> PMEM_REGION_SIZE c \<noteq> 0 \<and>
     (unat (CONFIG_MBASE c) + unat (PMEM_REGION_SIZE c) \<le> 0x20000000 \<or>
        0x20001000 \<le> unat (CONFIG_MBASE c)) \<and>
     (unat (CONFIG_MBASE c) + unat (PMEM_REGION_SIZE c) \<le> 0x0f000000 \<or>
        0x0f002000 \<le> unat (CONFIG_MBASE c))"

definition mem_ready :: "config \<Rightarrow> nemu \<Rightarrow> bool" where
  "mem_ready c s \<longleftrightarrow> wf_mem_config c \<and> mem_regions s = mem_regions_ready c"

lemma init_mem_ready:
  assumes "wf_mem_config c" and "mem_regions s = initial_regions c"
  shows "mem_ready c (init_mem c r s)"
  using assms by (simp add: mem_ready_def init_mem_def mem_regions_ready_def Let_def)

lemma mem_ready_heap [simp]: "mem_ready c (s\<lparr>heap := h\<rparr>) = mem_ready c s"
  by (simp add: mem_ready_def)

lemma mem_regions_ready_eq:
  "mem_regions_ready c =
    [\<lparr>mr_name = (if CONFIG_MEM_SCHEME_NPC c then ''npc-pmem'' else ''pmem''),
       mr_base = CONFIG_MBASE c, mr_size = PMEM_REGION_SIZE c, mr_host = Some (Pmem, 0),
       mr_loadable = True, mr_writable = True\<rparr>,
     \<lparr>mr_name = ''mrom'', mr_base = 0x20000000, mr_size = 0x1000, mr_host = Some (Mrom, 0),
       mr_loadable = True, mr_writable = False\<rparr>,
     \<lparr>mr_name = ''sram'', mr_base = 0x0f000000, mr_size = 0x2000, mr_host = Some (Sram, 0),
       mr_loadable = True, mr_writable = True\<rparr>]"
  by (simp add: mem_regions_ready_def initial_regions_def)

text \<open>For a region that does not wrap, the check on the wrapped offset is the interval check.\<close>

lemma range_in_region_iff:
  assumes "unat (mr_base r) + unat (mr_size r) \<le> 2 ^ 32"
  shows "range_in_region r a n \<longleftrightarrow>
    unat (mr_base r) \<le> unat a \<and> unat a < unat (mr_base r) + unat (mr_size r) \<and>
    unat a + n \<le> unat (mr_base r) + unat (mr_size r)"
proof -
  let ?o = "a - mr_base r"
  have lt: "?o < mr_size r \<longleftrightarrow> unat ?o < unat (mr_size r)" by (simp add: word_less_nat_alt)
  have sub: "?o < mr_size r \<Longrightarrow> unat (mr_size r - ?o) = unat (mr_size r) - unat ?o"
    by (simp add: unat_sub order_less_imp_le)
  show ?thesis
  proof (cases "unat (mr_base r) \<le> unat a")
    case True
    then have "unat ?o = unat a - unat (mr_base r)" by (simp add: unat_sub word_le_nat_alt)
    then show ?thesis using True lt sub by (auto simp: range_in_region_def Let_def)
  next
    case False
    then have "unat ?o = 2 ^ 32 + unat a - unat (mr_base r)"
      by (simp add: unat_sub_if' word_le_nat_alt)
    then show ?thesis using False assms lt by (auto simp: range_in_region_def Let_def)
  qed
qed

lemma find_mem_region_loop_Some:
  "find_mem_region_loop rs a n = Some r \<Longrightarrow> r \<in> set rs \<and> range_in_region r a n"
  by (induction rs) (auto split: if_splits)

lemma find_mem_region_loop_None:
  "find_mem_region_loop rs a n = None \<longleftrightarrow> (\<forall>r \<in> set rs. \<not> range_in_region r a n)"
  by (induction rs) auto

text \<open>What the code relies on for a region of the table: it fits the address space and its array.\<close>

lemma ready_regions:
  assumes "mem_ready c s" and "r \<in> set (mem_regions s)"
  obtains b where "mr_host r = Some (b, 0)"
    and "unat (mr_size r) \<le> hsize c b"
    and "unat (mr_base r) + unat (mr_size r) \<le> 2 ^ 32"
  using assms
  by (auto simp: mem_ready_def mem_regions_ready_eq wf_mem_config_def word_le_nat_alt)

lemma ready_regions_distinct:
  assumes "mem_ready c s" and "r \<in> set (mem_regions s)" and "r' \<in> set (mem_regions s)"
    and "mr_host r = Some (b, off)" and "mr_host r' = Some (b, off')"
  shows "r = r'"
  using assms by (auto simp: mem_ready_def mem_regions_ready_eq)

text \<open>Regions do not overlap: a byte lies in at most one of them.\<close>

lemma ready_regions_disjoint:
  assumes "mem_ready c s" and "r \<in> set (mem_regions s)" and "r' \<in> set (mem_regions s)"
    and "range_in_region r a 1" and "range_in_region r' a 1"
  shows "r = r'"
proof -
  have wf: "wf_mem_config c" "mem_regions s = mem_regions_ready c"
    using assms(1) by (auto simp: mem_ready_def)
  have iv: "unat (mr_base x) \<le> unat a \<and> unat a < unat (mr_base x) + unat (mr_size x)"
    if "x \<in> set (mem_regions s)" "range_in_region x a 1" for x
    using ready_regions [OF assms(1) that(1)] range_in_region_iff [of x a 1] that(2) by metis
  from iv [OF assms(2,4)] iv [OF assms(3,5)] assms(2,3) wf(1) show ?thesis
    unfolding wf(2) mem_regions_ready_eq wf_mem_config_def list.set
    by (elim insertE emptyE conjE) (simp; linarith)+
qed

lemma unat_le_uint: "unat (x :: u32) + n \<le> unat y + m \<longleftrightarrow> uint x + int n \<le> uint y + int m"
  by (metis of_nat_add of_nat_le_iff of_nat_unat)

lemma find_mem_region_object:
  assumes "mem_ready c s" and "find_mem_region s a n = Some r"
  shows "\<exists>b. mr_host r = Some (b, 0) \<and>
    region_guest_to_host r a = Some (b, uint a - uint (mr_base r)) \<and>
    in_object c (region_guest_to_host r a) n"
proof -
  have r: "r \<in> set (mem_regions s)" "range_in_region r a n"
    using find_mem_region_loop_Some assms(2) by (auto simp: find_mem_region_def)
  obtain b where b: "mr_host r = Some (b, 0)" "unat (mr_size r) \<le> hsize c b"
      "unat (mr_base r) + unat (mr_size r) \<le> 2 ^ 32"
    using ready_regions [OF assms(1) r(1)] .
  have "unat (mr_base r) \<le> unat a" "unat a + n \<le> unat (mr_base r) + unat (mr_size r)"
    using range_in_region_iff [OF b(3)] r(2) by auto
  then have "uint (mr_base r) \<le> uint a" "uint a + int n \<le> uint (mr_base r) + int (hsize c b)"
    using unat_le_uint [of "mr_base r" 0 a 0] unat_le_uint [of a n "mr_base r" "hsize c b"] b(2)
    by simp_all
  then show ?thesis by (simp add: region_guest_to_host_def ptr_add_def b(1) in_object_def)
qed

text \<open>The boot ROM is the only region that is not writable.\<close>

definition in_mrom :: "u32 \<Rightarrow> bool" where "in_mrom a \<longleftrightarrow> 0x20000000 \<le> a \<and> a < 0x20001000"

lemma find_mem_region_writable:
  assumes "mem_ready c s" and "find_mem_region s a n = Some r"
  shows "mr_writable r \<longleftrightarrow> \<not> in_mrom a"
proof -
  have r: "r \<in> set (mem_regions s)" "range_in_region r a n"
    using find_mem_region_loop_Some assms(2) by (auto simp: find_mem_region_def)
  have wf: "wf_mem_config c" "mem_regions s = mem_regions_ready c" using assms(1) by (auto simp: mem_ready_def)
  have "unat (mr_base r) \<le> unat a \<and> unat a < unat (mr_base r) + unat (mr_size r)"
    using ready_regions [OF assms(1) r(1)] range_in_region_iff [of r a n] r(2) by metis
  with r(1) wf(1) show ?thesis
    unfolding wf(2) mem_regions_ready_eq wf_mem_config_def list.set in_mrom_def word_le_nat_alt word_less_nat_alt
    by (elim insertE emptyE conjE) (simp; linarith)+
qed

lemma size_t_of_small: "0 \<le> len \<Longrightarrow> len < 2 ^ 64 \<Longrightarrow> size_t_of len = nat len"
  by (simp add: size_t_of_def)

lemma size_t_of_access [simp]: "len \<in> {1, 2, 4} \<Longrightarrow> size_t_of len = nat len"
  by (auto simp: size_t_of_def)

section \<open>The guest RAM contract\<close>

definition addr_disjoint :: "u32 \<Rightarrow> int \<Rightarrow> u32 \<Rightarrow> int \<Rightarrow> bool" where
  "addr_disjoint a len a' len' \<longleftrightarrow>
     unat a + nat len \<le> unat a' \<or> unat a' + nat len' \<le> unat a"

text \<open>
  What the rest of NEMU relies on: reads of mapped memory succeed, a read returns what was last
  written there, and a write changes nothing else.
\<close>

locale guest_ram =
  fixes inv :: "'s \<Rightarrow> bool"
    and rd :: "'s \<Rightarrow> u32 \<Rightarrow> int \<Rightarrow> u32 res"
    and wr :: "u32 \<Rightarrow> int \<Rightarrow> u32 \<Rightarrow> 's \<Rightarrow> 's res"
    and ram :: "'s \<Rightarrow> u32 \<Rightarrow> int \<Rightarrow> bool"
  assumes rd_ok: "inv s \<Longrightarrow> len \<in> {1, 2, 4} \<Longrightarrow> ram s a len \<Longrightarrow> is_ok (rd s a len)"
    and wr_inv: "inv s \<Longrightarrow> wr a len v s = Inr s' \<Longrightarrow> inv s'"
    and wr_ram: "inv s \<Longrightarrow> wr a len v s = Inr s' \<Longrightarrow> ram s' a' len' = ram s a' len'"
    and rd_wr_same: "inv s \<Longrightarrow> len \<in> {1, 2, 4} \<Longrightarrow> wr a len v s = Inr s' \<Longrightarrow>
      rd s' a len = Inr (take_bit (8 * nat len) v)"
    and rd_wr_other: "inv s \<Longrightarrow> len \<in> {1, 2, 4} \<Longrightarrow> len' \<in> {1, 2, 4} \<Longrightarrow>
      wr a len v s = Inr s' \<Longrightarrow> addr_disjoint a len a' len' \<Longrightarrow> rd s' a' len' = rd s a' len'"
begin

primrec run_writes :: "(u32 \<times> int \<times> u32) list \<Rightarrow> 's \<Rightarrow> 's res" where
  "run_writes [] s = Inr s"
| "run_writes (w # ws) s = (case w of (a, len, v) \<Rightarrow> bindR (wr a len v s) (run_writes ws))"

definition all_disjoint_from :: "u32 \<Rightarrow> int \<Rightarrow> (u32 \<times> int \<times> u32) list \<Rightarrow> bool" where
  "all_disjoint_from a len ws =
     (\<forall>(a', len', v') \<in> set ws. len' \<in> {1, 2, 4} \<and> addr_disjoint a' len' a len)"

lemma read_after_disjoint_writes:
  assumes "inv s" and "run_writes ws s = Inr s'" and "len \<in> {1, 2, 4}"
    and "all_disjoint_from a len ws"
  shows "rd s' a len = rd s a len"
  using assms
proof (induction ws arbitrary: s)
  case Nil
  then show ?case by simp
next
  case (Cons w ws)
  obtain a1 l1 v1 where w: "w = (a1, l1, v1)" by (cases w)
  obtain s1 where s1: "wr a1 l1 v1 s = Inr s1" "run_writes ws s1 = Inr s'"
    using Cons.prems(2) by (auto simp: w bindR_eq_Inr)
  have d: "l1 \<in> {1, 2, 4}" "addr_disjoint a1 l1 a len" "all_disjoint_from a len ws"
    using Cons.prems(4) by (auto simp: all_disjoint_from_def w)
  have "rd s' a len = rd s1 a len"
    using Cons.IH wr_inv Cons.prems(1,3) s1 d(3) by blast
  also have "\<dots> = rd s a len"
    using rd_wr_other Cons.prems(1,3) d(1,2) s1(1) by blast
  finally show ?case .
qed

lemma read_written:
  assumes "inv s" and "wr a len v s = Inr s1" and "run_writes ws s1 = Inr s'"
    and "len \<in> {1, 2, 4}" and "all_disjoint_from a len ws"
  shows "rd s' a len = Inr (take_bit (8 * nat len) v)"
  using read_after_disjoint_writes [OF wr_inv [OF assms(1,2)] assms(3,4,5)]
    rd_wr_same [OF assms(1,4,2)] by simp

end

lemma pmem_write_heap:
  assumes "pmem_write c a len v s = Inr s'"
  shows "\<exists>r h. find_mem_region s a (size_t_of len) = Some r \<and> mr_writable r \<and>
     host_write c (heap s) (region_guest_to_host r a) len v = Inr h \<and> s' = s\<lparr>heap := h\<rparr>"
  using assms by (auto simp: pmem_write_def bindR_eq_Inr split: option.splits)

lemma pmem_write_regions [frame_simps]:
  "pmem_write c a len v s = Inr s' \<Longrightarrow> mem_regions s' = mem_regions s"
  using pmem_write_heap by fastforce

lemma find_mem_region_heap [simp]: "find_mem_region (s\<lparr>heap := h\<rparr>) a n = find_mem_region s a n"
  by (simp add: find_mem_region_def)

lemma pmem_read_ok:
  assumes "mem_ready c s" and "len \<in> {1, 2, 4}" and "paddr_is_backed s a (size_t_of len)"
  shows "is_ok (pmem_read c s a len)"
proof -
  obtain r where r: "find_mem_region s a (nat len) = Some r"
    using assms(2,3) by (auto simp: paddr_is_backed_def)
  then show ?thesis
    using find_mem_region_object [OF assms(1) r] host_read_ok [OF assms(2)] assms(2)
    by (auto simp: pmem_read_def)
qed

lemma pmem_read_write_same:
  assumes "len \<in> {1, 2, 4}" and "pmem_write c a len v s = Inr s'"
  shows "pmem_read c s' a len = Inr (take_bit (8 * nat len) v)"
  using pmem_write_heap [OF assms(2)] host_read_write_same [OF _ assms(1)]
  by (auto simp: pmem_read_def)

lemma region_ptr_disjoint:
  assumes "mem_ready c s" and "find_mem_region s a n = Some r" and "find_mem_region s a' n' = Some r'"
    and "unat a + n \<le> unat a' \<or> unat a' + n' \<le> unat a"
  shows "ptr_disjoint (region_guest_to_host r a) n (region_guest_to_host r' a') n'"
proof -
  obtain b where b: "mr_host r = Some (b, 0)"
      "region_guest_to_host r a = Some (b, uint a - uint (mr_base r))"
    using find_mem_region_object [OF assms(1,2)] by blast
  obtain b' where b': "mr_host r' = Some (b', 0)"
      "region_guest_to_host r' a' = Some (b', uint a' - uint (mr_base r'))"
    using find_mem_region_object [OF assms(1,3)] by blast
  show ?thesis
  proof (cases "b = b'")
    case True
    then have "r = r'"
      using ready_regions_distinct [OF assms(1) _ _ b(1)] b'(1) find_mem_region_loop_Some assms(2,3)
      by (auto simp: find_mem_region_def)
    moreover have "uint a + int n \<le> uint a' \<or> uint a' + int n' \<le> uint a"
      using assms(4) unat_le_uint [of a n a' 0] unat_le_uint [of a' n' a 0] by simp
    ultimately show ?thesis using b b' by (auto simp: ptr_disjoint_def)
  next
    case False
    then show ?thesis using b b' by (simp add: ptr_disjoint_def)
  qed
qed

lemma pmem_read_write_other:
  assumes "mem_ready c s" and "len \<in> {1, 2, 4}" and "len' \<in> {1, 2, 4}"
    and "pmem_write c a len v s = Inr s'" and "addr_disjoint a len a' len'"
  shows "pmem_read c s' a' len' = pmem_read c s a' len'"
proof -
  obtain r h where r: "find_mem_region s a (nat len) = Some r"
      and h: "host_write c (heap s) (region_guest_to_host r a) len v = Inr h" and s': "s' = s\<lparr>heap := h\<rparr>"
    using pmem_write_heap [OF assms(4)] assms(2) by auto
  show ?thesis
  proof (cases "find_mem_region s a' (nat len')")
    case None
    then show ?thesis using assms(3) by (simp add: pmem_read_def s')
  next
    case (Some r')
    have "ptr_disjoint (region_guest_to_host r a) (nat len) (region_guest_to_host r' a') (nat len')"
      using region_ptr_disjoint [OF assms(1) r Some] assms(5) by (simp add: addr_disjoint_def)
    then have "host_read c h (region_guest_to_host r' a') len' = host_read c (heap s) (region_guest_to_host r' a') len'"
      by (rule host_read_write_other [OF h assms(2)])
    then show ?thesis using assms(3) Some by (simp add: pmem_read_def s')
  qed
qed

interpretation pm: guest_ram "mem_ready c" "pmem_read c" "pmem_write c"
  "\<lambda>s a len. paddr_is_backed s a (size_t_of len)"
proof unfold_locales
  fix a len v s s'
  assume "mem_ready c s" "pmem_write c a len v s = Inr s'"
  then show "mem_ready c s'" by (auto simp: mem_ready_def frame_simps)
next
  fix a len v s s' a' len'
  assume "mem_ready c s" "pmem_write c a len v s = Inr s'"
  then show "paddr_is_backed s' a' (size_t_of len') = paddr_is_backed s a' (size_t_of len')"
    by (simp add: paddr_is_backed_def find_mem_region_def frame_simps)
qed (simp_all only: pmem_read_ok pmem_read_write_same pmem_read_write_other)

end
