(* ===== verification/Devices.thy ===== *)
theory Devices
  imports Paddr
begin

text \<open>
  The device callbacks: the NPC UART and CLINT of \<^verbatim>\<open>nemu/src/device/npc-dev.c\<close> with the MMIO
  replay used when NEMU is the reference of a differential test, the native serial port
  (\<^verbatim>\<open>serial.c\<close>), timer (\<^verbatim>\<open>timer.c\<close>), keyboard (\<^verbatim>\<open>keyboard.c\<close>) and the polling
  of host events (\<^verbatim>\<open>device.c\<close>). A callback sees the offset, length and direction of an
  access and works on the bytes of its device space.
\<close>

section \<open>Bytes of device registers\<close>

definition NPC_UART_BASE :: u32 where "NPC_UART_BASE = 0x10000000"
definition NPC_UART_SIZE :: u32 where "NPC_UART_SIZE = 0x20"
definition NPC_CLINT_BASE :: u32 where "NPC_CLINT_BASE = 0x02000000"
definition NPC_CLINT_SIZE :: u32 where "NPC_CLINT_SIZE = 0x00010000"
definition NPC_CLINT_MSIP :: u32 where "NPC_CLINT_MSIP = 0x0000"
definition NPC_CLINT_MTIMECMP :: u32 where "NPC_CLINT_MTIMECMP = 0x4000"
definition NPC_CLINT_MTIME :: u32 where "NPC_CLINT_MTIME = 0xbff8"

lemmas npc_layout = NPC_UART_BASE_def NPC_UART_SIZE_def NPC_CLINT_BASE_def NPC_CLINT_SIZE_def
  NPC_CLINT_MSIP_def NPC_CLINT_MTIMECMP_def NPC_CLINT_MTIME_def

text \<open>
  The two byte loops. A shift of a \<^verbatim>\<open>uint32_t\<close> by 32 or more (more than four bytes) is
  undefined.
\<close>

fun load_le_loop :: "u8 list \<Rightarrow> nat \<Rightarrow> u32 \<Rightarrow> u32" where
  "load_le_loop [] i data = data"
| "load_le_loop (b # bs) i data = load_le_loop bs (Suc i) (data OR push_bit (i * 8) (ucast b))"

definition load_le :: "config \<Rightarrow> heap \<Rightarrow> hptr \<Rightarrow> int \<Rightarrow> u32 res" where
  "load_le c h p len =
     (if len > 4 then Inl (Bad_access ''shift'')
      else bindR (load_bytes c h p (nat len)) (\<lambda>bs. Inr (load_le_loop bs 0 0)))"

definition store_le :: "config \<Rightarrow> hptr \<Rightarrow> int \<Rightarrow> u32 \<Rightarrow> heap \<Rightarrow> heap res" where
  "store_le c p len data h =
     (if len > 4 then Inl (Bad_access ''shift'')
      else store_bytes c h p (map (\<lambda>i. ucast (drop_bit (i * 8) data)) [0..<nat len]))"

definition set_heap :: "nemu \<Rightarrow> heap res \<Rightarrow> nemu res" where
  "set_heap s m = bindR m (\<lambda>h. Inr (s\<lparr>heap := h\<rparr>))"

definition zero_bytes :: "config \<Rightarrow> hptr \<Rightarrow> int \<Rightarrow> heap \<Rightarrow> heap res" where
  "zero_bytes c p len h = store_bytes c h p (replicate (nat len) 0)"

section \<open>MMIO replay\<close>

definition replay_matches :: "config \<Rightarrow> u32 \<Rightarrow> int \<Rightarrow> bool \<Rightarrow> u32 \<Rightarrow> nemu \<Rightarrow> bool \<times> nemu" where
  "replay_matches c addr len is_write data s =
     (if \<not> CONFIG_TARGET_SHARE c then (False, s)
      else let r = mmio_replay s in
        if \<not> rp_valid r then
          (False, emit (Replay_fail ''unexpected_ref_mmio'') (s\<lparr>mmio_replay_mismatch := True\<rparr>))
        else if rp_addr r \<noteq> addr \<or> uint (rp_len r) \<noteq> len \<or> rp_is_write r \<noteq> is_write then
          (False, emit (Replay_fail ''mmio_replay_mismatch'')
             (s\<lparr>mmio_replay_mismatch := True, mmio_replay := r\<lparr>rp_valid := False\<rparr>\<rparr>))
        else if is_write \<and> rp_wdata r \<noteq> data then
          (False, emit (Replay_fail ''mmio_replay_wdata'')
             (s\<lparr>mmio_replay_mismatch := True, mmio_replay := r\<lparr>rp_valid := False\<rparr>\<rparr>))
        else (True, s))"

definition consume_replay :: "config \<Rightarrow> nemu \<Rightarrow> nemu" where
  "consume_replay c s =
     (if CONFIG_TARGET_SHARE c then s\<lparr>mmio_replay := (mmio_replay s)\<lparr>rp_valid := False\<rparr>\<rparr> else s)"

definition npc_mmio_replay_set :: "config \<Rightarrow> MMIOReplayRecord \<Rightarrow> nemu \<Rightarrow> nemu res" where
  "npc_mmio_replay_set c rec s =
     (if CONFIG_TARGET_SHARE c
      then assertR (\<not> rp_valid (mmio_replay s)) ''!mmio_replay.valid''
             (Inr (s\<lparr>mmio_replay := rec, mmio_replay_mismatch := False\<rparr>))
      else Inr s)"

definition npc_mmio_replay_ok :: "config \<Rightarrow> nemu \<Rightarrow> bool \<times> nemu" where
  "npc_mmio_replay_ok c s =
     (if CONFIG_TARGET_SHARE c then
        if mmio_replay_mismatch s then (False, s)
        else if rp_valid (mmio_replay s) then
          (False, emit (Replay_fail ''missing_ref_mmio'')
             (s\<lparr>mmio_replay := (mmio_replay s)\<lparr>rp_valid := False\<rparr>\<rparr>))
        else (True, s)
      else (True, s))"

section \<open>NPC UART\<close>

definition npc_uart_io_handler :: "config \<Rightarrow> u32 \<Rightarrow> int \<Rightarrow> bool \<Rightarrow> nemu \<Rightarrow> nemu res" where
  "npc_uart_io_handler c offset len is_write s =
     assertR (offset < NPC_UART_SIZE \<and> offset + of_int len \<le> NPC_UART_SIZE) ''uart offset''
     (let addr = NPC_UART_BASE + offset; p = ptr_add (npc_uart_base s) (uint offset) in
      if is_write then
        bindR (load_le c (heap s) p len) (\<lambda>data.
          case replay_matches c addr len True data s of (ok, s1) \<Rightarrow>
            if ok then Inr (consume_replay c s1)
            else if \<not> CONFIG_TARGET_SHARE c \<and> offset = 0 \<and> len = 1
                 then Inr (emit (Putc (ucast data)) s1)
                 else Inr s1)
      else
        case replay_matches c addr len False 0 s of (ok, s1) \<Rightarrow>
          if ok then bindR (set_heap s1 (store_le c p len (rp_rdata (mmio_replay s1)) (heap s1)))
                       (\<lambda>s2. Inr (consume_replay c s2))
          else set_heap s1 (zero_bytes c p len (heap s1)))"

section \<open>NPC CLINT\<close>

definition clint_reg_access :: "u32 \<Rightarrow> int \<Rightarrow> bool" where
  "clint_reg_access offset len =
     (let end' = offset + of_int len in
      (offset < NPC_CLINT_MSIP + 4 \<and> end' > NPC_CLINT_MSIP) \<or>
      (offset < NPC_CLINT_MTIMECMP + 8 \<and> end' > NPC_CLINT_MTIMECMP) \<or>
      (offset < NPC_CLINT_MTIME + 8 \<and> end' > NPC_CLINT_MTIME))"

definition update_mtime :: "config \<Rightarrow> nemu \<Rightarrow> nemu res" where
  "update_mtime c s =
     (let ticks = g_nr_guest_inst s in
      bindR (set_heap s (store_le c (ptr_add (npc_clint_base s) (uint NPC_CLINT_MTIME)) 4
               (ucast ticks) (heap s)))
        (\<lambda>s1. set_heap s1 (store_le c (ptr_add (npc_clint_base s1) (uint NPC_CLINT_MTIME + 4)) 4
               (ucast (drop_bit 32 ticks)) (heap s1))))"

definition npc_clint_io_handler :: "config \<Rightarrow> u32 \<Rightarrow> int \<Rightarrow> bool \<Rightarrow> nemu \<Rightarrow> nemu res" where
  "npc_clint_io_handler c offset len is_write s =
     assertR (1 \<le> len \<and> len \<le> 8) ''clint len''
     (let addr = NPC_CLINT_BASE + offset; p = ptr_add (npc_clint_base s) (uint offset) in
      if \<not> clint_reg_access offset len then
        (if \<not> is_write then set_heap s (zero_bytes c p len (heap s)) else Inr s)
      else if is_write then
        bindR (load_le c (heap s) p len) (\<lambda>data.
          case replay_matches c addr len True data s of (ok, s1) \<Rightarrow>
            if ok then Inr (consume_replay c s1) else Inr s1)
      else
        case replay_matches c addr len False 0 s of (ok, s1) \<Rightarrow>
          if ok then bindR (set_heap s1 (store_le c p len (rp_rdata (mmio_replay s1)) (heap s1)))
                       (\<lambda>s2. Inr (consume_replay c s2))
          else update_mtime c s1)"

section \<open>Native serial port and timer\<close>

definition serial_putc :: "u8 \<Rightarrow> nemu \<Rightarrow> nemu" where
  "serial_putc ch s = emit (Putc ch) s"

definition serial_io_handler :: "config \<Rightarrow> u32 \<Rightarrow> int \<Rightarrow> bool \<Rightarrow> nemu \<Rightarrow> nemu res" where
  "serial_io_handler c offset len is_write s =
     assertR (len = 1) ''serial len''
     (if offset = 0 then
        (if is_write
         then bindR (load_bytes c (heap s) (serial_base s) 1) (\<lambda>bs. Inr (serial_putc (hd bs) s))
         else Inl (Assert_fail ''do not support read''))
      else Inl (Assert_fail ''do not support offset''))"

definition rtc_io_handler :: "config \<Rightarrow> u32 \<Rightarrow> int \<Rightarrow> bool \<Rightarrow> nemu \<Rightarrow> nemu res" where
  "rtc_io_handler c offset len is_write s =
     assertR (offset = 0 \<or> offset = 4) ''rtc offset''
     (if \<not> is_write then
        let us = g_nr_guest_inst s div 100 in
        bindR (set_heap s (store_bytes c (heap s) (rtc_port_base s) (le_split 4 (ucast us :: u32))))
          (\<lambda>s1. set_heap s1 (store_bytes c (heap s1) (ptr_add (rtc_port_base s1) 4)
                   (le_split 4 (ucast (drop_bit 32 us) :: u32))))
      else Inr s)"

section \<open>Keyboard\<close>

definition KEY_QUEUE_LEN :: nat where "KEY_QUEUE_LEN = 1024"
definition KEYDOWN_MASK :: u32 where "KEYDOWN_MASK = 0x8000"
definition NEMU_KEY_NONE :: u32 where "NEMU_KEY_NONE = 0"

definition key_enqueue :: "u32 \<Rightarrow> nemu \<Rightarrow> nemu res" where
  "key_enqueue am_scancode s =
     (let s1 = s\<lparr>key_queue := (key_queue s)[key_r s := am_scancode],
                 key_r := (key_r s + 1) mod KEY_QUEUE_LEN\<rparr>
      in assertR (key_r s1 \<noteq> key_f s1) ''key queue overflow!'' (Inr s1))"

definition key_dequeue :: "nemu \<Rightarrow> u32 \<times> nemu" where
  "key_dequeue s =
     (if key_f s \<noteq> key_r s
      then (key_queue s ! key_f s, s\<lparr>key_f := (key_f s + 1) mod KEY_QUEUE_LEN\<rparr>)
      else (NEMU_KEY_NONE, s))"

definition send_key :: "u8 \<Rightarrow> bool \<Rightarrow> nemu \<Rightarrow> nemu res" where
  "send_key scancode is_keydown s =
     (if run_state (nemu_state s) = NEMU_RUNNING \<and> keymap s ! unat scancode \<noteq> NEMU_KEY_NONE
      then key_enqueue (keymap s ! unat scancode OR (if is_keydown then KEYDOWN_MASK else 0)) s
      else Inr s)"

definition i8042_data_io_handler :: "config \<Rightarrow> u32 \<Rightarrow> int \<Rightarrow> bool \<Rightarrow> nemu \<Rightarrow> nemu res" where
  "i8042_data_io_handler c offset len is_write s =
     assertR (\<not> is_write) ''!is_write'' (assertR (offset = 0) ''offset == 0''
     (case key_dequeue s of (key, s1) \<Rightarrow>
        set_heap s1 (store_bytes c (heap s1) (i8042_data_port_base s1) (le_split 4 key))))"

definition audio_io_handler :: "config \<Rightarrow> u32 \<Rightarrow> int \<Rightarrow> bool \<Rightarrow> nemu \<Rightarrow> nemu res" where
  "audio_io_handler c offset len is_write s = Inr s"

section \<open>Dispatch and host events\<close>

fun run_callback :: "config \<Rightarrow> io_callback \<Rightarrow> u32 \<Rightarrow> int \<Rightarrow> bool \<Rightarrow> nemu \<Rightarrow> nemu res" where
  "run_callback c Serial_io_handler = serial_io_handler c"
| "run_callback c Rtc_io_handler = rtc_io_handler c"
| "run_callback c Npc_uart_io_handler = npc_uart_io_handler c"
| "run_callback c Npc_clint_io_handler = npc_clint_io_handler c"
| "run_callback c I8042_data_io_handler = i8042_data_io_handler c"
| "run_callback c Audio_io_handler = audio_io_handler c"

definition invoke_callback :: "config \<Rightarrow> io_callback option \<Rightarrow> u32 \<Rightarrow> int \<Rightarrow> bool \<Rightarrow> nemu \<Rightarrow> nemu res" where
  "invoke_callback c cb offset len is_write s =
     (case cb of None \<Rightarrow> Inr s | Some f \<Rightarrow> run_callback c f offset len is_write s)"

text \<open>
  What SDL reports when polled (a parameter of the model): the window was closed, a key went down
  or up, or something else.
\<close>

datatype sdl_event = SDL_QUIT | SDL_KEY u8 bool | SDL_OTHER

fun poll_events :: "config \<Rightarrow> sdl_event list \<Rightarrow> nemu \<Rightarrow> nemu res" where
  "poll_events c [] s = Inr s"
| "poll_events c (SDL_QUIT # es) s =
     poll_events c es (s\<lparr>nemu_state := (nemu_state s)\<lparr>run_state := NEMU_QUIT\<rparr>\<rparr>)"
| "poll_events c (SDL_KEY k down # es) s =
     (if CONFIG_HAS_KEYBOARD c then bindR (send_key k down s) (poll_events c es)
      else poll_events c es s)"
| "poll_events c (SDL_OTHER # es) s = poll_events c es s"

definition device_update :: "config \<Rightarrow> u64 \<Rightarrow> sdl_event list \<Rightarrow> nemu \<Rightarrow> nemu res" where
  "device_update c now events s =
     (if now - last_update s < 1000000 div 60 then Inr s
      else let s1 = s\<lparr>last_update := now\<rparr> in
        if CONFIG_HAS_VGA c \<or> CONFIG_HAS_KEYBOARD c then poll_events c events s1 else Inr s1)"

section \<open>Little-endian loops are little-endian words\<close>

lemma load_le_loop_join:
  "i + length bs \<le> 4 \<Longrightarrow> load_le_loop bs i data = data OR push_bit (8 * i) (le_join bs)"
proof (induction bs arbitrary: i data)
  case Nil
  then show ?case by simp
next
  case (Cons b bs)
  have "push_bit (8 * i) (push_bit 8 (le_join bs :: u32)) = push_bit (8 * Suc i) (le_join bs)"
    by (simp add: add.commute)
  with Cons show ?case
    by (simp add: or.assoc push_bit_or mult.commute del: push_bit_push_bit mult_Suc_right)
qed

lemma load_le_eq: "len \<le> 4 \<Longrightarrow> load_le c h p len = bindR (load_bytes c h p (nat len)) (\<lambda>bs. Inr (le_join bs))"
proof -
  assume len: "len \<le> 4"
  have "load_le_loop bs 0 0 = le_join bs" if "load_bytes c h p (nat len) = Inr bs" for bs
    using load_le_loop_join [of 0 bs 0] hm.ld_length [OF that] len by simp
  then show ?thesis using len by (cases "load_bytes c h p (nat len)") (simp_all add: load_le_def)
qed

lemma store_le_eq: "len \<le> 4 \<Longrightarrow> store_le c p len data h = store_bytes c h p (le_split (nat len) data)"
proof -
  have "map (\<lambda>i. ucast (drop_bit (i * 8) data)) [0..<n] = le_split n data" for n
    by (rule nth_equalityI) (simp_all add: nth_le_split mult.commute)
  then show "len \<le> 4 \<Longrightarrow> store_le c p len data h = store_bytes c h p (le_split (nat len) data)"
    by (simp add: store_le_def)
qed

end
