(* ===== verification/Ring.thy ===== *)
theory Ring
  imports Prelude
begin

text \<open>
  Circular arrays: \<open>ring_take xs f n\<close> is the \<open>n\<close> elements from index \<open>f\<close> on, wrapping
  around, and the laws of writing one element behind them and of dropping the first. The keyboard
  queue and the commit trace are such arrays. \<open>bounded_fifo\<close> is the contract of a queue of
  limited capacity, \<open>bounded_history\<close> that of a trace that keeps the latest elements only.
\<close>

definition ring_take :: "'a list \<Rightarrow> nat \<Rightarrow> nat \<Rightarrow> 'a list" where
  "ring_take xs f n = map (\<lambda>i. xs ! ((f + i) mod length xs)) [0..<n]"

lemma length_ring_take [simp]: "length (ring_take xs f n) = n"
  by (simp add: ring_take_def)

lemma ring_take_0 [simp]: "ring_take xs f 0 = []"
  by (simp add: ring_take_def)

lemma nth_ring_take [simp]: "i < n \<Longrightarrow> ring_take xs f n ! i = xs ! ((f + i) mod length xs)"
  by (simp add: ring_take_def)

lemma ring_index_inj:
  assumes "i < N" and "j < N" and "(f + i) mod N = (f + j) mod (N::nat)"
  shows "i = j"
proof -
  have le: "x = y" if "x \<le> y" "y < N" "(f + x) mod N = (f + y) mod N" for x y
  proof -
    have "N dvd y - x" using that mod_eq_dvd_iff_nat [of "f + x" "f + y" N] by simp
    moreover have "y - x < N" using that(2) by simp
    ultimately show ?thesis using that(1) by (metis dvd_imp_le le_antisym diff_is_0_eq not_le zero_less_iff_neq_zero)
  qed
  show ?thesis using le [of i j] le [of j i] assms by (cases "i \<le> j") auto
qed

lemma ring_take_update_outside:
  assumes "n \<le> k" and "k < length xs"
  shows "ring_take (xs[(f + k) mod length xs := v]) f n = ring_take xs f n"
proof (rule nth_equalityI)
  fix i assume "i < length (ring_take (xs[(f + k) mod length xs := v]) f n)"
  then have i: "i < n" by simp
  have "(f + i) mod length xs \<noteq> (f + k) mod length xs"
    using ring_index_inj [of i "length xs" k f] assms i by auto
  then show "ring_take (xs[(f + k) mod length xs := v]) f n ! i = ring_take xs f n ! i"
    using i by simp
qed simp

lemma ring_take_Suc: "ring_take xs f (Suc n) = ring_take xs f n @ [xs ! ((f + n) mod length xs)]"
  by (simp add: ring_take_def)

lemma ring_take_push:
  assumes "n < length xs"
  shows "ring_take (xs[(f + n) mod length xs := v]) f (Suc n) = ring_take xs f n @ [v]"
proof -
  have "(f + n) mod length xs < length xs" using assms by (intro mod_less_divisor) linarith
  then show ?thesis using assms ring_take_update_outside [of n n xs f v] by (simp add: ring_take_Suc)
qed

lemma ring_take_tl:
  "ring_take xs (Suc f mod length xs) n = tl (ring_take xs f (Suc n))"
  by (rule nth_equalityI) (simp_all add: nth_tl mod_Suc_eq mod_add_left_eq flip: add_Suc)

lemma ring_take_hd: "0 < n \<Longrightarrow> hd (ring_take xs f n) = xs ! (f mod length xs)"
  by (cases n) (simp_all add: hd_conv_nth flip: length_greater_0_conv)

lemma ring_take_overwrite:
  assumes "0 < length xs" and "n \<le> length xs" and "0 < n"
  shows "ring_take (xs[(f + n) mod length xs := v]) (Suc f mod length xs) n =
    tl (ring_take xs f n) @ [v]"
proof (rule nth_equalityI)
  show "length (ring_take (xs[(f + n) mod length xs := v]) (Suc f mod length xs) n) =
      length (tl (ring_take xs f n) @ [v])"
    using assms by simp
next
  fix i assume "i < length (ring_take (xs[(f + n) mod length xs := v]) (Suc f mod length xs) n)"
  then have i: "i < n" by simp
  let ?N = "length xs"
  have idx: "(Suc f mod ?N + i) mod ?N = (f + Suc i) mod ?N"
    by (simp add: mod_add_left_eq)
  show "ring_take (xs[(f + n) mod ?N := v]) (Suc f mod ?N) n ! i = (tl (ring_take xs f n) @ [v]) ! i"
  proof (cases "Suc i = n")
    case True
    then show ?thesis using assms by (auto simp: idx nth_append)
  next
    case False
    then have lt: "Suc i < n" using i by simp
    have "(f + Suc i) mod ?N \<noteq> (f + n) mod ?N"
    proof (cases "n = ?N")
      case True
      then have "(f + n) mod ?N = (f + 0) mod ?N" by simp
      moreover have "Suc i < ?N" "0 < ?N" using lt assms by simp_all
      ultimately show ?thesis using ring_index_inj [of "Suc i" ?N 0 f] by auto
    next
      case False
      then show ?thesis using ring_index_inj [of "Suc i" ?N n f] lt assms by auto
    qed
    moreover have "i < n - 1" using lt by simp
    ultimately show ?thesis using lt i by (simp add: idx nth_append nth_tl)
  qed
qed

section \<open>Bounded queues\<close>

locale bounded_fifo =
  fixes inv :: "'s \<Rightarrow> bool"
    and items :: "'s \<Rightarrow> 'a list"
    and cap :: nat
    and enq :: "'a \<Rightarrow> 's \<Rightarrow> 's res"
    and deq :: "'s \<Rightarrow> 'a \<times> 's"
  assumes inv_enq: "inv s \<Longrightarrow> enq x s = Inr s' \<Longrightarrow> inv s'"
    and inv_deq: "inv s \<Longrightarrow> inv (snd (deq s))"
    and enq_ok: "inv s \<Longrightarrow> is_ok (enq x s) \<longleftrightarrow> length (items s) < cap"
    and items_enq: "inv s \<Longrightarrow> enq x s = Inr s' \<Longrightarrow> items s' = items s @ [x]"
    and fst_deq: "inv s \<Longrightarrow> items s \<noteq> [] \<Longrightarrow> fst (deq s) = hd (items s)"
    and items_deq: "inv s \<Longrightarrow> items (snd (deq s)) = tl (items s)"
begin

primrec enq_all :: "'a list \<Rightarrow> 's \<Rightarrow> 's res" where
  "enq_all [] s = Inr s"
| "enq_all (x # xs) s = bindR (enq x s) (enq_all xs)"

primrec deq_n :: "nat \<Rightarrow> 's \<Rightarrow> 'a list \<times> 's" where
  "deq_n 0 s = ([], s)"
| "deq_n (Suc n) s = (case deq s of (x, s1) \<Rightarrow> case deq_n n s1 of (xs, s2) \<Rightarrow> (x # xs, s2))"

lemma enq_all_items:
  assumes "inv s" and "length (items s) + length xs \<le> cap"
  shows "\<exists>s'. enq_all xs s = Inr s' \<and> inv s' \<and> items s' = items s @ xs"
  using assms
proof (induction xs arbitrary: s)
  case Nil
  then show ?case by simp
next
  case (Cons x xs)
  then obtain s1 where s1: "enq x s = Inr s1" using enq_ok [of s x] by (auto simp: is_ok_iff)
  then have "inv s1" "items s1 = items s @ [x]" using Cons.prems inv_enq items_enq by auto
  then show ?case using Cons.IH [of s1] Cons.prems s1 by auto
qed

lemma deq_n_items:
  assumes "inv s" and "n \<le> length (items s)"
  shows "fst (deq_n n s) = take n (items s) \<and> inv (snd (deq_n n s)) \<and>
    items (snd (deq_n n s)) = drop n (items s)"
  using assms
proof (induction n arbitrary: s)
  case 0
  then show ?case by simp
next
  case (Suc n)
  obtain x s1 where d: "deq s = (x, s1)" by (cases "deq s")
  have "items s \<noteq> []" using Suc.prems(2) by auto
  then have "inv s1" "items s1 = tl (items s)" "x = hd (items s)"
    using Suc.prems inv_deq [of s] items_deq [of s] fst_deq [of s] d by auto
  moreover obtain y ys where "items s = y # ys" using Suc.prems(2) by (cases "items s") auto
  ultimately show ?case using Suc.IH [of s1] Suc.prems(2) d
    by (cases "deq_n n s1") auto
qed

text \<open>First in, first out: what is queued into an empty queue comes out in the same order.\<close>

lemma fifo_order:
  assumes "inv s" and "items s = []" and "length xs \<le> cap"
  shows "\<exists>s'. enq_all xs s = Inr s' \<and> fst (deq_n (length xs) s') = xs"
  using enq_all_items [OF assms(1), of xs] deq_n_items [of _ "length xs"] assms by fastforce

end

section \<open>Bounded histories\<close>

locale bounded_history =
  fixes inv :: "'s \<Rightarrow> bool"
    and hist :: "'s \<Rightarrow> 'a list"
    and cap :: nat
    and push :: "'a \<Rightarrow> 's \<Rightarrow> 's"
  assumes inv_push: "inv s \<Longrightarrow> inv (push x s)"
    and hist_push: "inv s \<Longrightarrow> hist (push x s) = (if length (hist s) < cap then hist s else tl (hist s)) @ [x]"
    and hist_cap: "inv s \<Longrightarrow> length (hist s) \<le> cap"
    and cap_pos: "0 < cap"
begin

primrec push_all :: "'a list \<Rightarrow> 's \<Rightarrow> 's" where
  "push_all [] s = s"
| "push_all (x # xs) s = push_all xs (push x s)"

definition last_n :: "nat \<Rightarrow> 'a list \<Rightarrow> 'a list" where
  "last_n n xs = drop (length xs - n) xs"

lemma last_n_append: "last_n n (last_n n xs @ ys) = last_n n (xs @ ys)"
proof (cases "length xs \<le> n")
  case True
  then show ?thesis by (simp add: last_n_def)
next
  case False
  then obtain d where "length xs = n + d" by (metis le_Suc_ex nat_le_linear)
  then show ?thesis by (simp add: last_n_def add.commute)
qed

lemma inv_push_all: "inv s \<Longrightarrow> inv (push_all xs s)"
  by (induction xs arbitrary: s) (simp_all add: inv_push)

lemma hist_push_last:
  assumes "inv s"
  shows "hist (push x s) = last_n cap (hist s @ [x])"
proof (cases "length (hist s) < cap")
  case True
  then show ?thesis using hist_push [OF assms] by (simp add: last_n_def)
next
  case False
  then have "length (hist s) = cap" using hist_cap [OF assms] by simp
  then show ?thesis using hist_push [OF assms] cap_pos by (simp add: last_n_def drop_Suc)
qed

text \<open>After any sequence of pushes the history is the latest \<open>cap\<close> elements, oldest first.\<close>

lemma hist_push_all:
  assumes "inv s"
  shows "hist (push_all xs s) = last_n cap (hist s @ xs)"
  using assms
proof (induction xs arbitrary: s)
  case Nil
  then show ?case using hist_cap by (simp add: last_n_def)
next
  case (Cons x xs)
  have "hist (push_all xs (push x s)) = last_n cap (last_n cap (hist s @ [x]) @ xs)"
    using Cons.IH [OF inv_push [OF Cons.prems]] hist_push_last [OF Cons.prems] by simp
  also have "\<dots> = last_n cap ((hist s @ [x]) @ xs)"
    by (rule last_n_append)
  finally show ?case by simp
qed

end

end
