(* ===== verification/Key_Queue.thy ===== *)
theory Key_Queue
  imports Devices Ring
begin

text \<open>
  The keyboard queue of \<^verbatim>\<open>nemu/src/device/keyboard.c\<close> is a bounded queue of 1023 key codes: one
  slot of the array stays free, since equal indices mean empty.
\<close>

definition key_inv :: "nemu \<Rightarrow> bool" where
  "key_inv s \<longleftrightarrow> length (key_queue s) = KEY_QUEUE_LEN \<and> key_f s < KEY_QUEUE_LEN \<and> key_r s < KEY_QUEUE_LEN"

definition key_count :: "nemu \<Rightarrow> nat" where
  "key_count s = (key_r s + KEY_QUEUE_LEN - key_f s) mod KEY_QUEUE_LEN"

definition key_items :: "nemu \<Rightarrow> u32 list" where
  "key_items s = ring_take (key_queue s) (key_f s) (key_count s)"

lemma key_count_less: "key_count s < KEY_QUEUE_LEN"
  by (simp add: key_count_def KEY_QUEUE_LEN_def)

lemma key_r_count:
  assumes "key_inv s"
  shows "key_r s = (key_f s + key_count s) mod KEY_QUEUE_LEN"
  using assms by (simp add: key_inv_def key_count_def mod_add_right_eq)

lemma key_count_step:
  assumes "f < (N::nat)" and "r < N"
  shows "((r + 1) mod N = f) \<longleftrightarrow> (r + N - f) mod N + 1 = N"
    and "(r + 1) mod N \<noteq> f \<Longrightarrow> ((r + 1) mod N + N - f) mod N = (r + N - f) mod N + 1"
    and "f \<noteq> r \<Longrightarrow> (r + N - (f + 1) mod N) mod N + 1 = (r + N - f) mod N"
proof -
  have m: "(r + N - f) mod N = (if f \<le> r then r - f else r + N - f)"
    using assms by (auto simp: mod_if)
  have n: "(r + 1) mod N = (if r + 1 = N then 0 else r + 1)" "(f + 1) mod N = (if f + 1 = N then 0 else f + 1)"
    using assms by auto
  show "((r + 1) mod N = f) \<longleftrightarrow> (r + N - f) mod N + 1 = N"
    unfolding m n using assms by (auto split: if_splits)
  show "(r + 1) mod N \<noteq> f \<Longrightarrow> ((r + 1) mod N + N - f) mod N = (r + N - f) mod N + 1"
    unfolding m n using assms by (auto simp: mod_if split: if_splits)
  show "f \<noteq> r \<Longrightarrow> (r + N - (f + 1) mod N) mod N + 1 = (r + N - f) mod N"
    unfolding m n using assms by (auto simp: mod_if split: if_splits)
qed

lemma key_enqueue_spec:
  assumes "key_inv s" and "key_enqueue x s = Inr s'"
  shows "key_inv s' \<and> key_items s' = key_items s @ [x]"
proof -
  have s': "s' = s\<lparr>key_queue := (key_queue s)[key_r s := x], key_r := (key_r s + 1) mod KEY_QUEUE_LEN\<rparr>"
    and ne: "(key_r s + 1) mod KEY_QUEUE_LEN \<noteq> key_f s"
    using assms(2) by (auto simp: key_enqueue_def Let_def)
  have inv: "key_inv s'" using assms(1) by (simp add: s' key_inv_def KEY_QUEUE_LEN_def)
  have cnt: "key_count s' = Suc (key_count s)"
    using key_count_step(2) [of "key_f s" KEY_QUEUE_LEN "key_r s"] assms(1) ne
    by (simp add: key_inv_def key_count_def s')
  have "key_f s' = key_f s"
    "key_queue s' = (key_queue s)[(key_f s + key_count s) mod length (key_queue s) := x]"
    using assms(1) key_r_count [OF assms(1)] by (simp_all add: s' key_inv_def)
  then have "key_items s' = ring_take ((key_queue s)[(key_f s + key_count s) mod length (key_queue s) := x])
      (key_f s) (Suc (key_count s))"
    by (simp add: key_items_def cnt)
  also have "\<dots> = key_items s @ [x]"
    using ring_take_push [of "key_count s" "key_queue s"] key_count_less [of s] assms(1)
    by (simp add: key_items_def key_inv_def)
  finally show ?thesis using inv by simp
qed

lemma key_dequeue_spec:
  assumes "key_inv s"
  shows "key_inv (snd (key_dequeue s)) \<and> key_items (snd (key_dequeue s)) = tl (key_items s) \<and>
    (key_items s \<noteq> [] \<longrightarrow> fst (key_dequeue s) = hd (key_items s))"
proof (cases "key_f s = key_r s")
  case True
  then show ?thesis using assms by (simp add: key_dequeue_def key_items_def key_count_def)
next
  case False
  define t where "t = snd (key_dequeue s)"
  have t: "key_f t = Suc (key_f s) mod KEY_QUEUE_LEN" "key_queue t = key_queue s" "key_r t = key_r s"
    "fst (key_dequeue s) = key_queue s ! key_f s"
    using False by (simp_all add: t_def key_dequeue_def)
  have len: "length (key_queue s) = KEY_QUEUE_LEN" "key_f s < KEY_QUEUE_LEN" "key_r s < KEY_QUEUE_LEN"
    using assms by (simp_all add: key_inv_def)
  have cnt: "key_count s = Suc (key_count t)"
    using key_count_step(3) [OF len(2,3)] False by (simp add: key_count_def t)
  have "key_items t = tl (key_items s)"
    using ring_take_tl [of "key_queue s" "key_f s" "key_count t"]
    by (simp only: key_items_def cnt t len)
  moreover have "hd (key_items s) = key_queue s ! key_f s"
    using ring_take_hd [of "key_count s" "key_queue s" "key_f s"] cnt len by (simp add: key_items_def)
  moreover have "key_inv t" using len by (simp add: t key_inv_def)
  ultimately show ?thesis unfolding t_def [symmetric] using t(4) by simp
qed

interpretation kq: bounded_fifo key_inv key_items "KEY_QUEUE_LEN - 1" key_enqueue key_dequeue
proof unfold_locales
  fix s x
  assume inv: "key_inv s"
  have "is_ok (key_enqueue x s) \<longleftrightarrow> (key_r s + 1) mod KEY_QUEUE_LEN \<noteq> key_f s"
    by (simp add: key_enqueue_def Let_def assertR_def)
  also have "\<dots> \<longleftrightarrow> key_count s + 1 \<noteq> KEY_QUEUE_LEN"
    using key_count_step(1) [of "key_f s" KEY_QUEUE_LEN "key_r s"] inv
    by (simp add: key_inv_def key_count_def)
  also have "\<dots> \<longleftrightarrow> length (key_items s) < KEY_QUEUE_LEN - 1"
    using key_count_less [of s] by (auto simp: key_items_def)
  finally show "is_ok (key_enqueue x s) \<longleftrightarrow> length (key_items s) < KEY_QUEUE_LEN - 1" .
qed (simp_all add: key_enqueue_spec key_dequeue_spec)

end
