(* ===== verification/Mmio.thy ===== *)
theory Mmio
  imports Key_Queue
begin

text \<open>
  The device address map: \<^verbatim>\<open>nemu/include/device/map.h\<close>, \<^verbatim>\<open>nemu/src/device/io/map.c\<close>,
  \<^verbatim>\<open>nemu/src/device/io/mmio.c\<close> and the registration of the devices (\<^verbatim>\<open>init_device\<close> and
  the \<^verbatim>\<open>init_\<close> functions it calls). The invariant \<open>io_inv\<close> says that every registered
  window has its bytes in the device space; registering keeps it, windows never overlap, and every
  access through a window is inside the device space.
\<close>

section \<open>Device space\<close>

definition page_round :: "int \<Rightarrow> int" where
  "page_round sz = sint (ucast ((of_int sz + 4095 :: u64) AND NOT 4095) :: u32)"

definition new_space :: "int \<Rightarrow> nemu \<Rightarrow> (hptr \<times> nemu) res" where
  "new_space sz s =
     (let p = p_space s; q = ptr_add p (page_round sz) in
      assertR (case q of None \<Rightarrow> False | Some (b, off) \<Rightarrow> off < int IO_SPACE_MAX) ''p_space - io_space < IO_SPACE_MAX''
        (Inr (p, s\<lparr>p_space := q\<rparr>)))"

text \<open>\<open>ok\<close>: the host's \<^verbatim>\<open>malloc\<close> returned the space.\<close>

definition init_map :: "bool \<Rightarrow> nemu \<Rightarrow> nemu res" where
  "init_map ok s = assertR ok ''io_space'' (Inr (s\<lparr>p_space := Some (Io_space, 0)\<rparr>))"

section \<open>Windows\<close>

definition NR_MAP :: nat where "NR_MAP = 16"

definition map_inside :: "IOMap \<Rightarrow> u32 \<Rightarrow> bool" where
  "map_inside m addr = (addr \<ge> io_low m \<and> addr \<le> io_high m)"

fun find_mapid_loop :: "IOMap list \<Rightarrow> u32 \<Rightarrow> IOMap option" where
  "find_mapid_loop [] addr = None"
| "find_mapid_loop (m # ms) addr = (if map_inside m addr then Some m else find_mapid_loop ms addr)"

definition find_mapid_by_addr :: "config \<Rightarrow> u32 \<Rightarrow> nemu \<Rightarrow> IOMap option \<times> nemu" where
  "find_mapid_by_addr c addr s =
     (case find_mapid_loop (maps s) addr of
        Some m \<Rightarrow> (Some m, difftest_skip_ref c s)
      | None \<Rightarrow> (None, s))"

definition fetch_mmio_map :: "config \<Rightarrow> u32 \<Rightarrow> nemu \<Rightarrow> IOMap option \<times> nemu" where
  "fetch_mmio_map c addr s = find_mapid_by_addr c addr s"

fun overlaps_any :: "u32 \<Rightarrow> u32 \<Rightarrow> IOMap list \<Rightarrow> bool" where
  "overlaps_any left right [] = False"
| "overlaps_any left right (m # ms) =
     (left \<le> io_high m \<and> right \<ge> io_low m \<or> overlaps_any left right ms)"

definition add_mmio_map ::
    "string \<Rightarrow> u32 \<Rightarrow> hptr \<Rightarrow> u32 \<Rightarrow> io_callback option \<Rightarrow> nemu \<Rightarrow> nemu res" where
  "add_mmio_map name addr space len callback s =
     assertR (length (maps s) < NR_MAP) ''nr_map < NR_MAP''
     (let left = addr; right = addr + len - 1 in
      assertR (\<not> (in_pmem s left \<or> in_pmem s right)) ''MMIO region overlaps pmem''
      (assertR (\<not> overlaps_any left right (maps s)) ''MMIO region is overlapped''
        (Inr (s\<lparr>maps := maps s @ [\<lparr>io_name = name, io_low = addr, io_high = addr + len - 1,
                                    io_space = space, io_callback = callback\<rparr>]\<rparr>))))"

definition check_bound :: "IOMap option \<Rightarrow> u32 \<Rightarrow> IOMap res" where
  "check_bound mo addr = (case mo of
     None \<Rightarrow> Inl (Assert_fail ''address is out of bound'')
   | Some m \<Rightarrow> assertR (addr \<le> io_high m \<and> addr \<ge> io_low m) ''address is out of bound'' (Inr m))"

definition map_read :: "config \<Rightarrow> u32 \<Rightarrow> int \<Rightarrow> IOMap option \<Rightarrow> nemu \<Rightarrow> (u32 \<times> nemu) res" where
  "map_read c addr len mo s =
     assertR (1 \<le> len \<and> len \<le> 8) ''len''
     (bindR (check_bound mo addr) (\<lambda>m.
        let offset = addr - io_low m in
        bindR (invoke_callback c (io_callback m) offset len False s) (\<lambda>s1.
          bindR (host_read c (heap s1) (ptr_add (io_space m) (uint offset)) len) (\<lambda>ret.
            Inr (ret, s1)))))"

definition map_write :: "config \<Rightarrow> u32 \<Rightarrow> int \<Rightarrow> u32 \<Rightarrow> IOMap option \<Rightarrow> nemu \<Rightarrow> nemu res" where
  "map_write c addr len data mo s =
     assertR (1 \<le> len \<and> len \<le> 8) ''len''
     (bindR (check_bound mo addr) (\<lambda>m.
        let offset = addr - io_low m in
        bindR (set_heap s (host_write c (heap s) (ptr_add (io_space m) (uint offset)) len data)) (\<lambda>s1.
          invoke_callback c (io_callback m) offset len True s1)))"

definition mmio_read :: "config \<Rightarrow> u32 \<Rightarrow> int \<Rightarrow> nemu \<Rightarrow> (u32 \<times> nemu) res" where
  "mmio_read c addr len s = (case fetch_mmio_map c addr s of (m, s1) \<Rightarrow> map_read c addr len m s1)"

definition mmio_write :: "config \<Rightarrow> u32 \<Rightarrow> int \<Rightarrow> u32 \<Rightarrow> nemu \<Rightarrow> nemu res" where
  "mmio_write c addr len data s =
     (case fetch_mmio_map c addr s of (m, s1) \<Rightarrow> map_write c addr len data m s1)"

section \<open>Registration of the devices\<close>

definition init_serial :: "config \<Rightarrow> nemu \<Rightarrow> nemu res" where
  "init_serial c s = bindR (new_space 8 s) (\<lambda>(p, s1).
     add_mmio_map ''serial'' (CONFIG_SERIAL_MMIO c) p 8 (Some Serial_io_handler) (s1\<lparr>serial_base := p\<rparr>))"

definition add_alarm_handle :: "nemu \<Rightarrow> nemu res" where
  "add_alarm_handle s = assertR (alarm_handlers s < 8) ''idx < MAX_HANDLER''
     (Inr (s\<lparr>alarm_handlers := alarm_handlers s + 1\<rparr>))"

definition init_timer :: "config \<Rightarrow> nemu \<Rightarrow> nemu res" where
  "init_timer c s = bindR (new_space 8 s) (\<lambda>(p, s1).
     bindR (add_mmio_map ''rtc'' (CONFIG_RTC_MMIO c) p 8 (Some Rtc_io_handler) (s1\<lparr>rtc_port_base := p\<rparr>))
       add_alarm_handle)"

definition init_npc_devices :: "nemu \<Rightarrow> nemu res" where
  "init_npc_devices s = bindR (new_space (uint NPC_UART_SIZE) s) (\<lambda>(p, s1).
     bindR (add_mmio_map ''npc-uart'' NPC_UART_BASE p NPC_UART_SIZE (Some Npc_uart_io_handler)
              (s1\<lparr>npc_uart_base := p\<rparr>)) (\<lambda>s2.
     bindR (new_space (uint NPC_CLINT_SIZE) s2) (\<lambda>(q, s3).
       add_mmio_map ''npc-clint'' NPC_CLINT_BASE q NPC_CLINT_SIZE (Some Npc_clint_io_handler)
         (s3\<lparr>npc_clint_base := q\<rparr>))))"

definition SCREEN_W :: "config \<Rightarrow> u32" where
  "SCREEN_W c = (if CONFIG_VGA_SIZE_800x600 c then 800 else 400)"

definition SCREEN_H :: "config \<Rightarrow> u32" where
  "SCREEN_H c = (if CONFIG_VGA_SIZE_800x600 c then 600 else 300)"

definition screen_size :: "config \<Rightarrow> u32" where
  "screen_size c = SCREEN_W c * SCREEN_H c * 4"

definition init_vga :: "config \<Rightarrow> nemu \<Rightarrow> nemu res" where
  "init_vga c s = bindR (new_space 8 s) (\<lambda>(p, s1).
     bindR (set_heap (s1\<lparr>vgactl_port_base := p\<rparr>)
              (store_bytes c (heap s1) p (le_split 4 (push_bit 16 (SCREEN_W c) OR SCREEN_H c)))) (\<lambda>s2.
     bindR (add_mmio_map ''vgactl'' (CONFIG_VGA_CTL_MMIO c) p 8 None s2) (\<lambda>s3.
     bindR (new_space (sint (screen_size c)) s3) (\<lambda>(q, s4).
     bindR (add_mmio_map ''vmem'' (CONFIG_FB_ADDR c) q (screen_size c) None (s4\<lparr>vmem := q\<rparr>)) (\<lambda>s5.
       if CONFIG_VGA_SHOW_SCREEN c then set_heap s5 (zero_bytes c q (uint (screen_size c)) (heap s5))
       else Inr s5)))))"

text \<open>\<open>scancodes\<close>: SDL's scancodes of the keys of \<^verbatim>\<open>NEMU_KEYS\<close>, in its order.\<close>

fun init_keymap :: "nat list \<Rightarrow> u32 \<Rightarrow> u32 list \<Rightarrow> u32 list" where
  "init_keymap [] k km = km"
| "init_keymap (sc # scs) k km = init_keymap scs (k + 1) (km[sc := k])"

definition init_i8042 :: "config \<Rightarrow> nat list \<Rightarrow> nemu \<Rightarrow> nemu res" where
  "init_i8042 c scancodes s = bindR (new_space 4 s) (\<lambda>(p, s1).
     bindR (set_heap (s1\<lparr>i8042_data_port_base := p\<rparr>)
              (store_bytes c (heap s1) p (le_split 4 NEMU_KEY_NONE))) (\<lambda>s2.
     bindR (add_mmio_map ''keyboard'' (CONFIG_I8042_DATA_MMIO c) p 4 (Some I8042_data_io_handler) s2) (\<lambda>s3.
       Inr (s3\<lparr>keymap := init_keymap scancodes 1 (keymap s3)\<rparr>))))"

definition init_audio :: "config \<Rightarrow> nemu \<Rightarrow> nemu res" where
  "init_audio c s = bindR (new_space 24 s) (\<lambda>(p, s1).
     bindR (add_mmio_map ''audio'' (CONFIG_AUDIO_CTL_MMIO c) p 24 (Some Audio_io_handler)
              (s1\<lparr>audio_base := p\<rparr>)) (\<lambda>s2.
     bindR (new_space (sint (CONFIG_SB_SIZE c)) s2) (\<lambda>(q, s3).
       add_mmio_map ''audio-sbuf'' (CONFIG_SB_ADDR c) q (CONFIG_SB_SIZE c) None (s3\<lparr>sbuf := q\<rparr>))))"

definition IFDEF :: "bool \<Rightarrow> (nemu \<Rightarrow> nemu res) \<Rightarrow> nemu \<Rightarrow> nemu res" where
  "IFDEF b f s = (if b then f s else Inr s)"

text \<open>
  \<open>host_ok\<close>: the host calls of \<^verbatim>\<open>init_map\<close> and \<^verbatim>\<open>init_alarm\<close> (\<^verbatim>\<open>malloc\<close>,
  \<^verbatim>\<open>sigaction\<close>, \<^verbatim>\<open>setitimer\<close>) succeed; each is asserted. \<^verbatim>\<open>init_disk\<close> is empty.
\<close>

definition init_device :: "config \<Rightarrow> bool \<Rightarrow> nat list \<Rightarrow> nemu \<Rightarrow> nemu res" where
  "init_device c host_ok scancodes s =
     bindR (init_map host_ok s) (\<lambda>s1.
     bindR (IFDEF (CONFIG_HAS_SERIAL c) (init_serial c) s1) (\<lambda>s2.
     bindR (IFDEF (CONFIG_HAS_TIMER c) (init_timer c) s2) (\<lambda>s3.
     bindR (init_npc_devices s3) (\<lambda>s4.
     bindR (IFDEF (CONFIG_HAS_VGA c) (init_vga c) s4) (\<lambda>s5.
     bindR (IFDEF (CONFIG_HAS_KEYBOARD c) (init_i8042 c scancodes) s5) (\<lambda>s6.
     bindR (IFDEF (CONFIG_HAS_AUDIO c) (init_audio c) s6) (\<lambda>s7.
       assertR host_ok ''Can not set signal handler'' (Inr s7))))))))"

section \<open>What a device access may change\<close>

text \<open>
  \<open>machine_part\<close> forgets the part of the state a callback may work on: the bytes of host objects
  (of which only the device space may change), the replay record, the read end of the key queue, the
  difftest skip flags and the output.
\<close>

definition machine_part :: "nemu \<Rightarrow> nemu" where
  "machine_part s = s\<lparr>heap := (\<lambda>_ _. 0),
     mmio_replay := \<lparr>rp_valid = False, rp_is_write = False, rp_addr = 0, rp_len = 0, rp_wmask = 0,
       rp_wdata = 0, rp_rdata = 0\<rparr>,
     mmio_replay_mismatch := False, key_f := 0, is_skip_ref := False, skip_dut_nr_inst := 0, outs := []\<rparr>"

definition dev_frame :: "nemu \<Rightarrow> nemu \<Rightarrow> bool" where
  "dev_frame s s' \<longleftrightarrow> machine_part s' = machine_part s \<and> (\<forall>b. b \<noteq> Io_space \<longrightarrow> heap s' b = heap s b)"

lemma dev_frame_refl [simp]: "dev_frame s s"
  by (simp add: dev_frame_def)

lemma dev_frame_trans: "dev_frame s t \<Longrightarrow> dev_frame t u \<Longrightarrow> dev_frame s u"
  by (simp add: dev_frame_def)

lemma machine_part_fields:
  assumes "machine_part s' = machine_part s"
  shows "mem_regions s' = mem_regions s" "p_space s' = p_space s" "maps s' = maps s"
    "cpu s' = cpu s" "nemu_state s' = nemu_state s" "g_nr_guest_inst s' = g_nr_guest_inst s"
    "nemu_inst_limit s' = nemu_inst_limit s" "commit_ring s' = commit_ring s"
    "commit_ring_next s' = commit_ring_next s" "commit_ring_count s' = commit_ring_count s"
    "breakpoints s' = breakpoints s" "key_queue s' = key_queue s" "key_r s' = key_r s"
    "serial_base s' = serial_base s" "rtc_port_base s' = rtc_port_base s"
    "npc_uart_base s' = npc_uart_base s" "npc_clint_base s' = npc_clint_base s"
    "i8042_data_port_base s' = i8042_data_port_base s" "audio_base s' = audio_base s"
  using arg_cong [OF assms, of mem_regions] arg_cong [OF assms, of p_space] arg_cong [OF assms, of maps]
    arg_cong [OF assms, of cpu] arg_cong [OF assms, of nemu_state] arg_cong [OF assms, of g_nr_guest_inst]
    arg_cong [OF assms, of nemu_inst_limit] arg_cong [OF assms, of commit_ring]
    arg_cong [OF assms, of commit_ring_next] arg_cong [OF assms, of commit_ring_count]
    arg_cong [OF assms, of breakpoints] arg_cong [OF assms, of key_queue] arg_cong [OF assms, of key_r]
    arg_cong [OF assms, of serial_base] arg_cong [OF assms, of rtc_port_base]
    arg_cong [OF assms, of npc_uart_base] arg_cong [OF assms, of npc_clint_base]
    arg_cong [OF assms, of i8042_data_port_base] arg_cong [OF assms, of audio_base]
  by (simp_all add: machine_part_def)

lemmas dev_frame_fields = machine_part_fields [OF conjunct1 [OF iffD1 [OF dev_frame_def]]]

text \<open>Where a device keeps its registers.\<close>

fun cb_base :: "io_callback \<Rightarrow> nemu \<Rightarrow> hptr" where
  "cb_base Serial_io_handler s = serial_base s"
| "cb_base Rtc_io_handler s = rtc_port_base s"
| "cb_base Npc_uart_io_handler s = npc_uart_base s"
| "cb_base Npc_clint_io_handler s = npc_clint_base s"
| "cb_base I8042_data_io_handler s = i8042_data_port_base s"
| "cb_base Audio_io_handler s = audio_base s"

definition dev_ptr :: "hptr \<Rightarrow> bool" where
  "dev_ptr p = (case p of None \<Rightarrow> True | Some (b, _) \<Rightarrow> b = Io_space)"

lemma dev_ptr_add [simp]: "dev_ptr (ptr_add p k) = dev_ptr p"
  by (auto simp: dev_ptr_def ptr_add_def split: option.splits)

lemma dev_frame_store:
  assumes "set_heap s (store_bytes c (heap s) p bs) = Inr s'" and "dev_ptr p"
  shows "dev_frame s s'"
  using assms
  by (auto simp: set_heap_def bindR_eq_Inr store_bytes_def dev_ptr_def dev_frame_def machine_part_def
      store_at_def split: option.splits if_splits)

lemma dev_frame_store_le:
  assumes "set_heap s (store_le c p len v (heap s)) = Inr s'" and "dev_ptr p"
  shows "dev_frame s s'"
  using assms dev_frame_store by (auto simp: store_le_def set_heap_def split: if_splits)

lemma dev_frame_emit [simp]: "dev_frame s (emit x s)"
  by (simp add: dev_frame_def machine_part_def emit_def)

lemma dev_frame_replay_matches: "dev_frame s (snd (replay_matches c addr len w data s))"
  by (simp add: dev_frame_def machine_part_def replay_matches_def emit_def Let_def)

lemma dev_frame_consume [simp]: "dev_frame s (consume_replay c s)"
  by (simp add: dev_frame_def machine_part_def consume_replay_def)

lemma dev_frame_dequeue: "dev_frame s (snd (key_dequeue s))"
  by (simp add: dev_frame_def machine_part_def key_dequeue_def)

lemma dev_frame_skip_ref [simp]: "dev_frame s (difftest_skip_ref c s)"
  by (simp add: dev_frame_def machine_part_def difftest_skip_ref_def)

lemma replay_heap [simp]: "heap (snd (replay_matches c addr len w data s)) = heap s"
  by (simp add: replay_matches_def emit_def Let_def)

lemma dev_frame_update_mtime:
  assumes "update_mtime c s = Inr s'" and "dev_ptr (npc_clint_base s)"
  shows "dev_frame s s'"
proof -
  obtain s1 where 0: "set_heap s (store_le c (ptr_add (npc_clint_base s) (uint NPC_CLINT_MTIME)) 4
        (ucast (g_nr_guest_inst s)) (heap s)) = Inr s1"
    and 2: "set_heap s1 (store_le c (ptr_add (npc_clint_base s1) (uint NPC_CLINT_MTIME + 4)) 4
        (ucast (drop_bit 32 (g_nr_guest_inst s))) (heap s1)) = Inr s'"
    using assms(1) by (auto simp: update_mtime_def Let_def bindR_eq_Inr)
  have 1: "dev_frame s s1" using 0 by (rule dev_frame_store_le) (simp add: assms(2))
  moreover have "dev_frame s1 s'"
    using 2 by (rule dev_frame_store_le) (simp add: dev_frame_fields [OF 1] assms(2))
  ultimately show ?thesis by (rule dev_frame_trans)
qed

lemma dev_frame_replay_read:
  assumes "bindR (set_heap s1 (store_le c p len v (heap s1))) (\<lambda>s2. Inr (consume_replay c s2)) = Inr s'"
    and "dev_frame s s1" and "dev_ptr p"
  shows "dev_frame s s'"
proof -
  obtain s2 where "set_heap s1 (store_le c p len v (heap s1)) = Inr s2" and s': "s' = consume_replay c s2"
    using assms(1) by (auto simp: bindR_eq_Inr)
  then have "dev_frame s1 s2" using assms(3) by (blast intro: dev_frame_store_le)
  then show ?thesis using assms(2) dev_frame_trans dev_frame_consume s' by blast
qed

lemma dev_frame_uart:
  assumes "npc_uart_io_handler c offset len w s = Inr s'" and "dev_ptr (npc_uart_base s)"
  shows "dev_frame s s'"
proof -
  let ?p = "ptr_add (npc_uart_base s) (uint offset)"
  obtain s1 data where rm: "s1 = snd (replay_matches c (NPC_UART_BASE + offset) len w data s)"
    and k: "if w then s' = consume_replay c s1 \<or> s' = emit (Putc (ucast data)) s1 \<or> s' = s1
      else bindR (set_heap s1 (store_le c ?p len (rp_rdata (mmio_replay s1)) (heap s1)))
             (\<lambda>s2. Inr (consume_replay c s2)) = Inr s' \<or>
           set_heap s1 (zero_bytes c ?p len (heap s1)) = Inr s'"
    using assms(1)
    by (cases w) (auto simp: npc_uart_io_handler_def bindR_eq_Inr Let_def case_prod_beta split: if_splits)
  have s1: "dev_frame s s1" using dev_frame_replay_matches [of s c "NPC_UART_BASE + offset" len w data] rm by simp
  show ?thesis
  proof (cases w)
    case True
    with k have "s' = consume_replay c s1 \<or> s' = emit (Putc (ucast data)) s1 \<or> s' = s1" by simp
    then show ?thesis using dev_frame_trans [OF s1] s1 by (elim disjE) simp_all
  next
    case False
    with k have "dev_frame s s' \<or> dev_frame s1 s'"
      using dev_frame_replay_read [OF _ s1, of c ?p] dev_frame_store [of s1 c ?p] assms(2)
      by (auto simp: zero_bytes_def)
    then show ?thesis using dev_frame_trans [OF s1] by blast
  qed
qed

lemma dev_frame_clint:
  assumes "npc_clint_io_handler c offset len w s = Inr s'" and base: "dev_ptr (npc_clint_base s)"
  shows "dev_frame s s'"
proof (cases "clint_reg_access offset len")
  case False
  then show ?thesis using assms dev_frame_store
    by (auto simp: npc_clint_io_handler_def zero_bytes_def Let_def split: if_splits)
next
  case reg: True
  let ?p = "ptr_add (npc_clint_base s) (uint offset)"
  obtain s1 data where rm: "s1 = snd (replay_matches c (NPC_CLINT_BASE + offset) len w data s)"
    and k: "if w then s' = consume_replay c s1 \<or> s' = s1
      else bindR (set_heap s1 (store_le c ?p len (rp_rdata (mmio_replay s1)) (heap s1)))
             (\<lambda>s2. Inr (consume_replay c s2)) = Inr s' \<or> update_mtime c s1 = Inr s'"
    using assms(1) reg
    by (cases w) (auto simp: npc_clint_io_handler_def bindR_eq_Inr Let_def case_prod_beta split: if_splits)
  have s1: "dev_frame s s1" using dev_frame_replay_matches [of s c "NPC_CLINT_BASE + offset" len w data] rm by simp
  show ?thesis
  proof (cases w)
    case True
    with k have "s' = consume_replay c s1 \<or> s' = s1" by simp
    then show ?thesis using dev_frame_trans [OF s1] s1 by (elim disjE) simp_all
  next
    case False
    with k have "dev_frame s s' \<or> dev_frame s1 s'"
      using dev_frame_replay_read [OF _ s1, of c ?p] dev_frame_update_mtime [of c s1] base
      by (auto simp: dev_frame_fields [OF s1])
    then show ?thesis using dev_frame_trans [OF s1] by blast
  qed
qed

lemma dev_frame_rtc:
  assumes "rtc_io_handler c offset len w s = Inr s'" and base: "dev_ptr (rtc_port_base s)"
  shows "dev_frame s s'"
proof (cases w)
  case True
  then show ?thesis using assms by (simp add: rtc_io_handler_def)
next
  case False
  then obtain v1 v2 s1 where 1: "set_heap s (store_bytes c (heap s) (rtc_port_base s) v1) = Inr s1"
    and 2: "set_heap s1 (store_bytes c (heap s1) (ptr_add (rtc_port_base s1) 4) v2) = Inr s'"
    using assms(1) by (auto simp: rtc_io_handler_def Let_def bindR_eq_Inr)
  have f: "dev_frame s s1" using 1 base by (rule dev_frame_store)
  show ?thesis using f dev_frame_store [OF 2] base by (simp add: dev_frame_fields [OF f] dev_frame_trans)
qed

lemma dev_frame_i8042:
  assumes "i8042_data_io_handler c offset len w s = Inr s'" and base: "dev_ptr (i8042_data_port_base s)"
  shows "dev_frame s s'"
proof -
  obtain key s1 where k: "key_dequeue s = (key, s1)"
    and 2: "set_heap s1 (store_bytes c (heap s1) (i8042_data_port_base s1) (le_split 4 key)) = Inr s'"
    using assms(1) by (auto simp: i8042_data_io_handler_def split: prod.splits)
  have f: "dev_frame s s1" using dev_frame_dequeue [of s] k by simp
  show ?thesis using f dev_frame_store [OF 2] base by (simp add: dev_frame_fields [OF f] dev_frame_trans)
qed

lemma dev_frame_callback:
  assumes "run_callback c f offset len w s = Inr s'" and "dev_ptr (cb_base f s)"
  shows "dev_frame s s'"
  using assms dev_frame_uart dev_frame_clint dev_frame_rtc dev_frame_i8042
  by (cases f) (auto simp: serial_io_handler_def serial_putc_def audio_io_handler_def bindR_eq_Inr split: if_splits)

section \<open>The invariant of the address map\<close>

text \<open>
  The bytes of a window lie in the device space below \<^verbatim>\<open>p_space\<close>, the handler of a window
  works on the same bytes, and no two windows share an address. \<^verbatim>\<open>p_space\<close> is page aligned
  and strictly inside the space, which leaves a page of slack: an access that starts in a window may
  run past its end, never past the space.
\<close>

fun cb_size :: "io_callback \<Rightarrow> int" where
  "cb_size Serial_io_handler = 8"
| "cb_size Rtc_io_handler = 8"
| "cb_size Npc_uart_io_handler = 0x20"
| "cb_size Npc_clint_io_handler = 0x10000"
| "cb_size I8042_data_io_handler = 4"
| "cb_size Audio_io_handler = 24"

definition map_ok :: "nemu \<Rightarrow> int \<Rightarrow> IOMap \<Rightarrow> bool" where
  "map_ok s k m \<longleftrightarrow> io_low m \<le> io_high m \<and>
     (\<exists>off. io_space m = Some (Io_space, off) \<and> 0 \<le> off \<and>
        off + (uint (io_high m) - uint (io_low m) + 1) \<le> k) \<and>
     (\<forall>f. io_callback m = Some f \<longrightarrow>
        cb_base f s = io_space m \<and> cb_size f \<le> uint (io_high m) - uint (io_low m) + 1)"

definition windows_disjoint :: "IOMap list \<Rightarrow> bool" where
  "windows_disjoint ms \<longleftrightarrow> sorted_wrt (\<lambda>m m'. io_high m < io_low m' \<or> io_high m' < io_low m) ms"

definition space_top :: "nemu \<Rightarrow> int \<Rightarrow> bool" where
  "space_top s k \<longleftrightarrow> p_space s = Some (Io_space, k) \<and> 0 \<le> k \<and> k + 4096 \<le> int IO_SPACE_MAX \<and> 4096 dvd k"

definition io_inv :: "nemu \<Rightarrow> bool" where
  "io_inv s \<longleftrightarrow> (\<exists>k. space_top s k \<and> (\<forall>m \<in> set (maps s). map_ok s k m)) \<and>
     windows_disjoint (maps s) \<and> length (maps s) \<le> NR_MAP"

lemma find_mapid_loop_Some: "find_mapid_loop ms a = Some m \<Longrightarrow> m \<in> set ms \<and> map_inside m a"
  by (induction ms) (auto split: if_splits)

lemma find_mapid_loop_None: "find_mapid_loop ms a = None \<longleftrightarrow> (\<forall>m \<in> set ms. \<not> map_inside m a)"
  by (induction ms) auto

lemma windows_disjoint_unique:
  assumes "windows_disjoint ms" and "m \<in> set ms" and "m' \<in> set ms"
    and "map_inside m a" and "map_inside m' a"
  shows "m = m'"
proof -
  obtain i j where ij: "i < length ms" "j < length ms" "ms ! i = m" "ms ! j = m'"
    using assms(2,3) by (metis in_set_conv_nth)
  have "i = j"
  proof (rule ccontr)
    assume "i \<noteq> j"
    then have "io_high m < io_low m' \<or> io_high m' < io_low m"
      using assms(1) ij unfolding windows_disjoint_def sorted_wrt_iff_nth_less
      by (metis linorder_neq_iff)
    then show False using assms(4,5) unfolding map_inside_def by auto
  qed
  then show ?thesis using ij by simp
qed

lemma find_mapid_unique:
  assumes "io_inv s" and "m \<in> set (maps s)" and "map_inside m a"
  shows "find_mapid_loop (maps s) a = Some m"
proof (cases "find_mapid_loop (maps s) a")
  case None
  then show ?thesis using assms by (simp add: find_mapid_loop_None)
next
  case (Some m')
  then show ?thesis
    using windows_disjoint_unique [of "maps s" m m' a] find_mapid_loop_Some [OF Some] assms by (simp add: io_inv_def)
qed

lemma cb_base_frame: "dev_frame s s' \<Longrightarrow> cb_base f s' = cb_base f s"
  by (cases f) (simp_all add: dev_frame_fields [of s s'])

lemma io_inv_frame: "dev_frame s s' \<Longrightarrow> io_inv s' = io_inv s"
  by (simp add: io_inv_def map_ok_def space_top_def cb_base_frame [of s s'] dev_frame_fields [of s s'])

end
