(* ===== verification/Io_Safety.thy ===== *)
theory Io_Safety
  imports Mmio
begin

text \<open>
  Safety of the device address map: under \<open>io_inv\<close> no access through a window leaves the device
  space, accesses change device state only, and the registration of the devices establishes the
  invariant.
\<close>

section \<open>Accesses stay in the device space\<close>

lemma safe_store [simp]: "safe (store_bytes c h p bs) \<longleftrightarrow> in_object c p (length bs)"
  by (auto simp: store_bytes_def in_object_def split: option.splits)

lemma safe_load [simp]: "safe (load_bytes c h p n) \<longleftrightarrow> in_object c p n"
  by (auto simp: load_bytes_def in_object_def split: option.splits)

lemma safe_set_heap [simp]: "safe (set_heap s m) \<longleftrightarrow> safe m"
  by (cases m) (auto simp: set_heap_def safe_def)

lemma safe_store_le [simp]: "len \<le> 4 \<Longrightarrow> safe (store_le c p len v h) \<longleftrightarrow> in_object c p (nat len)"
  by (simp add: store_le_eq)

lemma safe_bindR_Inr: "safe (bindR m (\<lambda>x. Inr (f x))) \<longleftrightarrow> safe m"
  by (cases m) (auto simp: safe_def)

lemma safe_load_le [simp]: "len \<le> 4 \<Longrightarrow> safe (load_le c h p len) \<longleftrightarrow> in_object c p (nat len)"
  by (simp add: load_le_eq safe_bindR_Inr)

lemma safe_host_read: "len \<in> {1, 2, 4} \<Longrightarrow> safe (host_read c h p len) \<longleftrightarrow> in_object c p (nat len)"
  by (auto simp: host_read_def safe_bindR_Inr)

lemma safe_host_write: "len \<in> {1, 2, 4} \<Longrightarrow> safe (host_write c h p len v) \<longleftrightarrow> in_object c p (nat len)"
  by (auto simp: host_write_def)

lemma in_object_ptr_add:
  assumes "io_space m = Some (Io_space, off)" and "0 \<le> off" and "0 \<le> d" and "off + d + int n \<le> int IO_SPACE_MAX"
  shows "in_object c (ptr_add (io_space m) d) n"
  using assms by (simp add: in_object_def ptr_add_def)

lemma map_access_in_object:
  assumes "map_ok s k m" and "space_top s k" and "addr \<ge> io_low m" and "addr \<le> io_high m" and "n \<le> 4096"
  shows "in_object c (ptr_add (io_space m) (uint (addr - io_low m))) n"
proof -
  obtain off where off: "io_space m = Some (Io_space, off)" "0 \<le> off"
    "off + (uint (io_high m) - uint (io_low m) + 1) \<le> k"
    using assms(1) by (auto simp: map_ok_def)
  have "uint (addr - io_low m) = uint addr - uint (io_low m)"
    using assms(3) by (simp add: uint_minus_simple_alt [symmetric] word_le_def uint_minus_simple_iff)
  moreover have "uint addr \<le> uint (io_high m)" using assms(4) by (simp add: word_le_def)
  ultimately show ?thesis
    using off assms(2,3,5) by (intro in_object_ptr_add) (auto simp: space_top_def word_le_def)
qed

lemma reg_in_object:
  assumes "map_ok s k m" and "space_top s k" and "io_callback m = Some f"
    and "0 \<le> d" and "d + int n \<le> cb_size f"
  shows "in_object c (ptr_add (cb_base f s) d) n"
proof -
  obtain off where off: "io_space m = Some (Io_space, off)" "0 \<le> off"
    "off + (uint (io_high m) - uint (io_low m) + 1) \<le> k"
    using assms(1) by (auto simp: map_ok_def)
  have "cb_base f s = io_space m" "cb_size f \<le> uint (io_high m) - uint (io_low m) + 1"
    using assms(1,3) by (auto simp: map_ok_def)
  then show ?thesis using off assms(2,4,5)
    by (simp add: space_top_def in_object_def ptr_add_def)
qed

lemma ptr_add_0 [simp]: "ptr_add p 0 = p"
  by (cases p) (auto simp: ptr_add_def)

lemma ptr_add_add [simp]: "ptr_add (ptr_add p a) b = ptr_add p (a + b)"
  by (cases p) (auto simp: ptr_add_def add.assoc)

lemma safe_callback:
  assumes "map_ok s k m" and "space_top s k" and "io_callback m = Some f"
    and "addr \<ge> io_low m" and "addr \<le> io_high m" and len: "len \<in> {1, 2, 4}"
  shows "safe (run_callback c f (addr - io_low m) len w s)"
proof -
  let ?o = "addr - io_low m"
  have base: "cb_base f s = io_space m" using assms(1,3) by (auto simp: map_ok_def)
  have acc: "in_object c (ptr_add (cb_base f s) (uint ?o)) (nat len)"
    using map_access_in_object [OF assms(1,2,4,5), of "nat len"] len base by auto
  have len4: "len \<le> 4" using len by auto
  have reg: "in_object c (ptr_add (cb_base f s) d) n" if "0 \<le> d" "d + int n \<le> cb_size f" for d n
    using reg_in_object [OF assms(1-3) that] .
  show ?thesis
  proof (cases f)
    case Serial_io_handler
    then show ?thesis using reg [of 0 1]
      by (auto simp: serial_io_handler_def safe_bindR_Inr)
  next
    case Rtc_io_handler
    then show ?thesis using reg [of 0 4] reg [of 4 4]
      by (auto simp: rtc_io_handler_def Let_def set_heap_def bindR_eq_Inr intro!: safe_bindR)
  next
    case Npc_uart_io_handler
    have [simp]: "npc_uart_base (snd (replay_matches c a l w' d s)) = npc_uart_base s" for a l w' d
      using dev_frame_fields(16) [OF dev_frame_replay_matches] .
    show ?thesis using Npc_uart_io_handler acc len4
      by (auto simp: npc_uart_io_handler_def Let_def case_prod_beta zero_bytes_def safe_bindR_Inr
          intro!: safe_bindR)
  next
    case Npc_clint_io_handler
    have b: "npc_clint_base (snd (replay_matches c a l w' d s)) = npc_clint_base s" for a l w' d
      using dev_frame_fields(17) [OF dev_frame_replay_matches] .
    have "safe (update_mtime c s1)" if "npc_clint_base s1 = npc_clint_base s" for s1
      using Npc_clint_io_handler that reg [of "uint NPC_CLINT_MTIME" 4] reg [of "uint NPC_CLINT_MTIME + 4" 4]
      by (auto simp: update_mtime_def Let_def npc_layout set_heap_def bindR_eq_Inr intro!: safe_bindR)
    then show ?thesis using Npc_clint_io_handler acc len4
      by (auto simp: npc_clint_io_handler_def Let_def case_prod_beta zero_bytes_def safe_bindR_Inr b
          intro!: safe_bindR)
  next
    case I8042_data_io_handler
    have b: "i8042_data_port_base (snd (key_dequeue s)) = i8042_data_port_base s"
      using dev_frame_fields(18) [OF dev_frame_dequeue] .
    show ?thesis using I8042_data_io_handler reg [of 0 4]
      by (auto simp: i8042_data_io_handler_def case_prod_beta b)
  next
    case Audio_io_handler
    then show ?thesis by (simp add: audio_io_handler_def)
  qed
qed

lemma fetch_mmio_map_spec:
  "fetch_mmio_map c a s = (m, s1) \<Longrightarrow>
     m = find_mapid_loop (maps s) a \<and> dev_frame s s1 \<and> heap s1 = heap s"
  by (auto simp: fetch_mmio_map_def find_mapid_by_addr_def difftest_skip_ref_def dev_frame_def machine_part_def
      split: option.splits if_splits)

lemma check_bound_Inr:
  "check_bound mo a = Inr m \<longleftrightarrow> mo = Some m \<and> io_low m \<le> a \<and> a \<le> io_high m"
  by (auto simp: check_bound_def split: option.splits)

lemma safe_check_bound [simp]: "safe (check_bound mo a)"
  by (auto simp: check_bound_def split: option.splits)

lemma map_okE:
  assumes "io_inv s" and "m \<in> set (maps s)"
  obtains k where "space_top s k" and "map_ok s k m"
  using assms unfolding io_inv_def by blast

lemma map_ok_dev_ptr: "map_ok s k m \<Longrightarrow> dev_ptr (io_space m)"
  by (auto simp: map_ok_def dev_ptr_def)

lemma map_ok_cb_ptr: "map_ok s k m \<Longrightarrow> io_callback m = Some f \<Longrightarrow> dev_ptr (cb_base f s)"
  by (auto simp: map_ok_def dev_ptr_def)

lemma map_ok_frame: "dev_frame s s' \<Longrightarrow> map_ok s' k m = map_ok s k m"
  by (simp add: map_ok_def cb_base_frame [of s s'])

lemma space_top_frame: "dev_frame s s' \<Longrightarrow> space_top s' k = space_top s k"
  by (simp add: space_top_def dev_frame_fields [of s s'])

lemma safe_invoke:
  assumes "map_ok s k m" and "space_top s k" and "addr \<ge> io_low m" and "addr \<le> io_high m"
    and "len \<in> {1, 2, 4}"
  shows "safe (invoke_callback c (io_callback m) (addr - io_low m) len w s)"
  using safe_callback [OF assms(1,2) _ assms(3-5)]
  by (cases "io_callback m") (auto simp: invoke_callback_def)

lemma invoke_frame:
  assumes "invoke_callback c (io_callback m) off len w s = Inr s'" and "map_ok s k m"
  shows "dev_frame s s'"
  using assms dev_frame_callback map_ok_cb_ptr [OF assms(2)]
  by (auto simp: invoke_callback_def split: option.splits)

lemma host_write_frame:
  assumes "set_heap s (host_write c (heap s) p len v) = Inr s'" and "dev_ptr p"
  shows "dev_frame s s'"
  using assms dev_frame_store [of s c p]
  by (auto simp: host_write_def set_heap_def split: if_splits)

lemma map_read_frame:
  assumes "map_ok s k m" and "map_read c a len (Some m) s = Inr (v, s')"
  shows "dev_frame s s'"
  using assms invoke_frame [of c m _ len False s] by (auto simp: map_read_def Let_def bindR_eq_Inr check_bound_Inr)

lemma map_write_frame:
  assumes "map_ok s k m" and "map_write c a len v (Some m) s = Inr s'"
  shows "dev_frame s s'"
proof -
  obtain s1 where w: "set_heap s (host_write c (heap s) (ptr_add (io_space m) (uint (a - io_low m))) len v) = Inr s1"
    and i: "invoke_callback c (io_callback m) (a - io_low m) len True s1 = Inr s'"
    using assms(2) by (auto simp: map_write_def Let_def bindR_eq_Inr check_bound_Inr)
  have "dev_frame s s1" using host_write_frame [OF w] map_ok_dev_ptr [OF assms(1)] by simp
  moreover from this have "dev_frame s1 s'" using invoke_frame [OF i] assms(1) by (simp add: map_ok_frame)
  ultimately show ?thesis by (rule dev_frame_trans)
qed

lemma fetched_map_ok:
  assumes "io_inv s" and "fetch_mmio_map c a s = (Some m, s1)"
  obtains k where "space_top s1 k" and "map_ok s1 k m" and "dev_frame s s1" and "map_inside m a"
proof -
  have f: "find_mapid_loop (maps s) a = Some m" "dev_frame s s1"
    using fetch_mmio_map_spec [OF assms(2)] by simp_all
  then have "m \<in> set (maps s)" "map_inside m a" using find_mapid_loop_Some [of "maps s" a m] by auto
  then show thesis using that map_okE [OF assms(1)] f(2) map_ok_frame space_top_frame by metis
qed

theorem mmio_read_frame:
  assumes "io_inv s" and "mmio_read c a len s = Inr (v, s')"
  shows "dev_frame s s'"
proof -
  obtain mo s1 where f: "fetch_mmio_map c a s = (mo, s1)" by fastforce
  then obtain m where m: "mo = Some m" using assms(2)
    by (cases mo) (auto simp: mmio_read_def map_read_def check_bound_def)
  obtain k where "map_ok s1 k m" "dev_frame s s1" using fetched_map_ok [OF assms(1)] f m by metis
  then show ?thesis using assms(2) f m map_read_frame dev_frame_trans by (fastforce simp: mmio_read_def)
qed

theorem mmio_write_frame:
  assumes "io_inv s" and "mmio_write c a len v s = Inr s'"
  shows "dev_frame s s'"
proof -
  obtain mo s1 where f: "fetch_mmio_map c a s = (mo, s1)" by fastforce
  then obtain m where m: "mo = Some m" using assms(2)
    by (cases mo) (auto simp: mmio_write_def map_write_def check_bound_def)
  obtain k where "map_ok s1 k m" "dev_frame s s1" using fetched_map_ok [OF assms(1)] f m by metis
  then show ?thesis using assms(2) f m map_write_frame dev_frame_trans by (fastforce simp: mmio_write_def)
qed

lemma safe_map_read:
  assumes "map_ok s k m" and "space_top s k" and len: "len \<in> {1, 2, 4}"
  shows "safe (map_read c a len (Some m) s)"
proof (cases "io_low m \<le> a \<and> a \<le> io_high m")
  case True
  then have "safe (invoke_callback c (io_callback m) (a - io_low m) len False s)"
    using safe_invoke [OF assms(1,2)] len by blast
  moreover have "in_object c (ptr_add (io_space m) (uint (a - io_low m))) (nat len)"
    using map_access_in_object [OF assms(1,2)] True len by auto
  ultimately show ?thesis using True
    by (auto simp: map_read_def check_bound_def Let_def safe_bindR_Inr safe_host_read [OF len] intro!: safe_bindR)
next
  case False
  then show ?thesis by (auto simp: map_read_def check_bound_def assertR_def)
qed

lemma safe_map_write:
  assumes "map_ok s k m" and "space_top s k" and len: "len \<in> {1, 2, 4}"
  shows "safe (map_write c a len v (Some m) s)"
proof (cases "io_low m \<le> a \<and> a \<le> io_high m")
  case True
  let ?p = "ptr_add (io_space m) (uint (a - io_low m))"
  have "in_object c ?p (nat len)"
    using map_access_in_object [OF assms(1,2)] True len by auto
  moreover have "safe (invoke_callback c (io_callback m) (a - io_low m) len True s1)"
    if "set_heap s (host_write c (heap s) ?p len v) = Inr s1" for s1
  proof -
    have "dev_frame s s1" using host_write_frame [OF that] map_ok_dev_ptr [OF assms(1)] by simp
    then show ?thesis using safe_invoke [of s1 k m] assms True by (simp add: map_ok_frame space_top_frame)
  qed
  ultimately show ?thesis using True
    by (auto simp: map_write_def check_bound_def Let_def safe_host_write [OF len] intro!: safe_bindR)
next
  case False
  then show ?thesis by (auto simp: map_write_def check_bound_def assertR_def)
qed

theorem mmio_safe:
  assumes "io_inv s" and "len \<in> {1, 2, 4}"
  shows "safe (mmio_read c a len s) \<and> safe (mmio_write c a len v s)"
proof -
  obtain mo s1 where f: "fetch_mmio_map c a s = (mo, s1)" by fastforce
  show ?thesis
  proof (cases mo)
    case None
    then show ?thesis using f by (auto simp: mmio_read_def mmio_write_def map_read_def map_write_def check_bound_def)
  next
    case (Some m)
    then obtain k where "space_top s1 k" "map_ok s1 k m" using fetched_map_ok [OF assms(1)] f by metis
    then show ?thesis using Some f safe_map_read safe_map_write assms(2)
      by (simp add: mmio_read_def mmio_write_def)
  qed
qed

section \<open>Registration establishes the invariant\<close>

lemma int_and_not_mask: "(k :: int) AND NOT (mask n) = k div 2 ^ n * 2 ^ n"
proof -
  have "k AND NOT (mask n) = push_bit n (drop_bit n k)" by (rule bit_eqI) (auto simp: bit_simps)
  then show ?thesis by (simp add: push_bit_eq_mult drop_bit_eq_div)
qed

lemma ucast_word_of_int: "ucast (word_of_int k :: u64) = (word_of_int k :: u32)"
  by (rule bit_word_eqI) (simp add: bit_simps)

lemma sint_word_of_int: "0 \<le> k \<Longrightarrow> k < 2 ^ 31 \<Longrightarrow> sint (word_of_int k :: u32) = k"
  by (simp add: signed_of_int signed_take_bit_int_eq_self)

text \<open>\<^verbatim>\<open>new_space\<close> rounds a size up to whole pages.\<close>

lemma page_round_eq:
  assumes "0 \<le> sz" and "sz \<le> 0x70000000"
  shows "page_round sz = (sz + 4095) div 4096 * 4096"
proof -
  let ?r = "(sz + 4095) div 4096 * 4096"
  have "(of_int sz + 4095 :: u64) AND NOT 4095 = of_int ((sz + 4095) AND NOT (mask 12))"
    by (simp add: of_int_and_eq of_int_not_eq of_int_mask_eq mask_eq_exp_minus_1)
  also have "\<dots> = of_int ?r" using int_and_not_mask [of "sz + 4095" 12] by simp
  finally have "page_round sz = sint (ucast (of_int ?r :: u64) :: u32)" by (simp add: page_round_def)
  also have "ucast (of_int ?r :: u64) = (of_int ?r :: u32)" by (rule ucast_word_of_int)
  also have "sint (of_int ?r :: u32) = ?r"
    using assms by (intro sint_word_of_int) simp_all
  finally show ?thesis .
qed

lemma page_round_bounds:
  assumes "0 \<le> sz" and "sz \<le> 0x70000000"
  shows "sz \<le> page_round sz" and "4096 dvd page_round sz"
  using page_round_eq [OF assms] by simp_all

lemma new_space_spec:
  assumes "space_top s k" and "0 \<le> sz" and "sz \<le> 0x70000000" and "new_space sz s = Inr (p, s1)"
  obtains k' where "p = Some (Io_space, k)" and "s1 = s\<lparr>p_space := Some (Io_space, k')\<rparr>"
    and "space_top s1 k'" and "k + sz \<le> k'"
proof -
  let ?k = "k + page_round sz"
  have p: "p = Some (Io_space, k)" "s1 = s\<lparr>p_space := Some (Io_space, ?k)\<rparr>" "?k < int IO_SPACE_MAX"
    using assms(1,4) by (auto simp: new_space_def space_top_def Let_def ptr_add_def)
  have "4096 dvd ?k" using assms(1) page_round_bounds(2) [OF assms(2,3)] by (auto simp: space_top_def)
  moreover from this p(3) have "?k + 4096 \<le> int IO_SPACE_MAX" by (auto simp: IO_SPACE_MAX_def elim!: dvdE)
  moreover have "sz \<le> page_round sz" by (rule page_round_bounds(1) [OF assms(2,3)])
  ultimately show thesis using that [of ?k] p(1,2) assms(1,2) by (simp add: space_top_def)
qed

fun set_base :: "io_callback \<Rightarrow> hptr \<Rightarrow> nemu \<Rightarrow> nemu" where
  "set_base Serial_io_handler p s = s\<lparr>serial_base := p\<rparr>"
| "set_base Rtc_io_handler p s = s\<lparr>rtc_port_base := p\<rparr>"
| "set_base Npc_uart_io_handler p s = s\<lparr>npc_uart_base := p\<rparr>"
| "set_base Npc_clint_io_handler p s = s\<lparr>npc_clint_base := p\<rparr>"
| "set_base I8042_data_io_handler p s = s\<lparr>i8042_data_port_base := p\<rparr>"
| "set_base Audio_io_handler p s = s\<lparr>audio_base := p\<rparr>"

lemma set_base_fields [simp]:
  "maps (set_base f p s) = maps s" "p_space (set_base f p s) = p_space s"
  "mem_regions (set_base f p s) = mem_regions s" "cb_base f (set_base f p s) = p"
  by (cases f; simp)+

lemma cb_base_other: "g \<noteq> f \<Longrightarrow> cb_base g (set_base f p s) = cb_base g s"
  by (cases f; cases g; simp)

definition handlers :: "nemu \<Rightarrow> io_callback set" where
  "handlers s = {f. Some f \<in> set (map io_callback (maps s))}"

lemma add_mmio_map_maps:
  "add_mmio_map name a p len cb s = Inr s' \<Longrightarrow>
     s' = s\<lparr>maps := maps s @ [\<lparr>io_name = name, io_low = a, io_high = a + len - 1, io_space = p,
                               io_callback = cb\<rparr>]\<rparr> \<and>
     length (maps s) < NR_MAP \<and> \<not> overlaps_any a (a + len - 1) (maps s)"
  by (auto simp: add_mmio_map_def Let_def)

lemma overlaps_any_iff:
  "overlaps_any l r ms \<longleftrightarrow> (\<exists>m \<in> set ms. l \<le> io_high m \<and> io_low m \<le> r)"
  by (induction ms) auto

lemma map_ok_mono:
  assumes "map_ok s k m" and "k \<le> k'" and "\<And>f. io_callback m = Some f \<Longrightarrow> cb_base f s' = cb_base f s"
  shows "map_ok s' k' m"
proof -
  obtain off where "io_space m = Some (Io_space, off)" "0 \<le> off"
    "off + (uint (io_high m) - uint (io_low m) + 1) \<le> k'"
    using assms(1,2) by (auto simp: map_ok_def)
  then show ?thesis using assms(1,3) by (simp add: map_ok_def)
qed

lemma window_length:
  assumes "a \<le> a + len - 1" and "len \<noteq> (0 :: u32)"
  shows "uint (a + len - 1) - uint a + 1 = uint len"
proof -
  have "a + (len - 1) = a + len - 1" by simp
  with assms(1) have "uint (a + (len - 1)) = uint a + uint (len - 1)"
    by (metis uint_plus_simple)
  moreover have "uint len \<noteq> 0" using assms(2) by (simp add: unsigned_eq_0_iff)
  then have "1 \<le> uint len" using uint_ge_0 [of len] by linarith
  then have "uint (len - 1) = uint len - 1" by (simp add: uint_sub_if')
  ultimately show ?thesis by (simp add: add_diff_eq)
qed

text \<open>One registration: a window with its bytes fresh from \<^verbatim>\<open>new_space\<close>.\<close>

lemma register_window:
  assumes inv: "io_inv s" and new: "new_space (uint len) s = Inr (p, s1)"
    and bases: "maps s2 = maps s1" "p_space s2 = p_space s1"
      "\<And>g. g \<in> handlers s \<Longrightarrow> cb_base g s2 = cb_base g s"
    and add: "add_mmio_map name a p len cb s2 = Inr s'"
    and cb: "\<And>f. cb = Some f \<Longrightarrow> cb_base f s2 = p \<and> cb_size f \<le> uint len"
    and len: "len \<noteq> 0" "uint len \<le> 0x70000000" "a \<le> a + len - 1"
  shows "io_inv s' \<and> handlers s' = handlers s \<union> set_option cb"
proof -
  obtain k where top: "space_top s k" and ok: "\<forall>m \<in> set (maps s). map_ok s k m"
    and dis: "windows_disjoint (maps s)" using inv by (auto simp: io_inv_def)
  obtain k' where p: "p = Some (Io_space, k)" and s1: "s1 = s\<lparr>p_space := Some (Io_space, k')\<rparr>"
    and top1: "space_top s1 k'" and kk: "k + uint len \<le> k'"
    using new_space_spec [OF top _ len(2) new] by auto
  let ?m = "\<lparr>io_name = name, io_low = a, io_high = a + len - 1, io_space = p, io_callback = cb\<rparr>"
  have s': "s' = s2\<lparr>maps := maps s @ [?m]\<rparr>" and room: "length (maps s) < NR_MAP"
    and no: "\<not> overlaps_any a (a + len - 1) (maps s)"
    using add_mmio_map_maps [OF add] bases s1 by auto
  have cbs: "cb_base f s' = cb_base f s2" for f by (cases f) (simp_all add: s')
  have "map_ok s' k' m" if "m \<in> set (maps s)" for m
  proof (rule map_ok_mono)
    show "map_ok s k m" using ok that by simp
    show "k \<le> k'" using kk uint_ge_0 [of len] by linarith
    show "cb_base f s' = cb_base f s" if "io_callback m = Some f" for f
      using bases(3) [of f] cbs that \<open>m \<in> set (maps s)\<close> by (force simp: handlers_def)
  qed
  moreover have "map_ok s' k' ?m"
    using top cb len kk window_length [OF len(3,1)] by (auto simp: map_ok_def p cbs space_top_def)
  moreover have "space_top s' k'" using top1 bases by (simp add: space_top_def s')
  moreover have "windows_disjoint (maps s')"
    using dis no by (auto simp: windows_disjoint_def s' sorted_wrt_append overlaps_any_iff not_le)
  moreover have "maps s' = maps s @ [?m]" by (simp add: s')
  moreover from this have "handlers s' = handlers s \<union> set_option cb"
    by (auto simp: handlers_def split: option.splits)
  ultimately show ?thesis using room by (auto simp: io_inv_def)
qed

text \<open>
  The addresses of the configured devices, and the size of the audio buffer, are such that no window
  wraps around the 32-bit address space.
\<close>

definition wf_dev_config :: "config \<Rightarrow> bool" where
  "wf_dev_config c \<longleftrightarrow>
     (CONFIG_HAS_SERIAL c \<longrightarrow> CONFIG_SERIAL_MMIO c \<le> CONFIG_SERIAL_MMIO c + 8 - 1) \<and>
     (CONFIG_HAS_TIMER c \<longrightarrow> CONFIG_RTC_MMIO c \<le> CONFIG_RTC_MMIO c + 8 - 1) \<and>
     (CONFIG_HAS_VGA c \<longrightarrow> CONFIG_VGA_CTL_MMIO c \<le> CONFIG_VGA_CTL_MMIO c + 8 - 1 \<and>
        CONFIG_FB_ADDR c \<le> CONFIG_FB_ADDR c + screen_size c - 1) \<and>
     (CONFIG_HAS_KEYBOARD c \<longrightarrow> CONFIG_I8042_DATA_MMIO c \<le> CONFIG_I8042_DATA_MMIO c + 4 - 1) \<and>
     (CONFIG_HAS_AUDIO c \<longrightarrow> CONFIG_AUDIO_CTL_MMIO c \<le> CONFIG_AUDIO_CTL_MMIO c + 24 - 1 \<and>
        CONFIG_SB_ADDR c \<le> CONFIG_SB_ADDR c + CONFIG_SB_SIZE c - 1 \<and>
        CONFIG_SB_SIZE c \<noteq> 0 \<and> uint (CONFIG_SB_SIZE c) \<le> 0x70000000)"

lemma register_device:
  assumes "io_inv s" and "f \<notin> handlers s" and "new_space (uint len) s = Inr (p, s1)"
    and "add_mmio_map name a p len (Some f) (set_base f p s1) = Inr s'"
    and "cb_size f \<le> uint len" "len \<noteq> 0" "uint len \<le> 0x70000000" "a \<le> a + len - 1"
  shows "io_inv s' \<and> handlers s' = insert f (handlers s)"
proof -
  have s1: "cb_base g s1 = cb_base g s" for g
    using assms(3) by (cases g) (auto simp: new_space_def Let_def)
  have "io_inv s' \<and> handlers s' = handlers s \<union> set_option (Some f)"
  proof (rule register_window [OF assms(1,3) _ _ _ assms(4)])
    show "cb_base g (set_base f p s1) = cb_base g s" if "g \<in> handlers s" for g
      using that assms(2) s1 cb_base_other by metis
  qed (use assms(5-8) in auto)
  then show ?thesis by simp
qed

lemma init_serial_inv:
  assumes "io_inv s" and "Serial_io_handler \<notin> handlers s" and "init_serial c s = Inr s'"
    and "CONFIG_SERIAL_MMIO c \<le> CONFIG_SERIAL_MMIO c + 8 - 1"
  shows "io_inv s' \<and> handlers s' = insert Serial_io_handler (handlers s)"
  using assms register_device [of s Serial_io_handler 8]
  by (auto simp: init_serial_def bindR_eq_Inr split: prod.splits)

lemma io_inv_irrelevant [simp]:
  "io_inv (s\<lparr>alarm_handlers := n\<rparr>) = io_inv s" "io_inv (s\<lparr>keymap := km\<rparr>) = io_inv s"
  "handlers (s\<lparr>alarm_handlers := n\<rparr>) = handlers s" "handlers (s\<lparr>keymap := km\<rparr>) = handlers s"
proof -
  have "cb_base f (s\<lparr>alarm_handlers := n\<rparr>) = cb_base f s" "cb_base f (s\<lparr>keymap := km\<rparr>) = cb_base f s" for f
    by (cases f; simp)+
  then show "io_inv (s\<lparr>alarm_handlers := n\<rparr>) = io_inv s" "io_inv (s\<lparr>keymap := km\<rparr>) = io_inv s"
    by (simp_all add: io_inv_def map_ok_def space_top_def)
qed (simp_all add: handlers_def)

lemma init_timer_inv:
  assumes "io_inv s" and "Rtc_io_handler \<notin> handlers s" and "init_timer c s = Inr s'"
    and "CONFIG_RTC_MMIO c \<le> CONFIG_RTC_MMIO c + 8 - 1"
  shows "io_inv s' \<and> handlers s' = insert Rtc_io_handler (handlers s)"
  using assms register_device [of s Rtc_io_handler 8]
  by (auto simp: init_timer_def add_alarm_handle_def bindR_eq_Inr split: prod.splits)

lemma init_npc_devices_inv:
  assumes "io_inv s" and "handlers s \<inter> {Npc_uart_io_handler, Npc_clint_io_handler} = {}"
    and "init_npc_devices s = Inr s'"
  shows "io_inv s' \<and> handlers s' = {Npc_uart_io_handler, Npc_clint_io_handler} \<union> handlers s"
proof -
  obtain p s1 s2 q s3 where "new_space (uint NPC_UART_SIZE) s = Inr (p, s1)"
    "add_mmio_map ''npc-uart'' NPC_UART_BASE p NPC_UART_SIZE (Some Npc_uart_io_handler)
       (set_base Npc_uart_io_handler p s1) = Inr s2"
    "new_space (uint NPC_CLINT_SIZE) s2 = Inr (q, s3)"
    "add_mmio_map ''npc-clint'' NPC_CLINT_BASE q NPC_CLINT_SIZE (Some Npc_clint_io_handler)
       (set_base Npc_clint_io_handler q s3) = Inr s'"
    using assms(3) by (auto simp: init_npc_devices_def bindR_eq_Inr)
  note r = this
  have "io_inv s2 \<and> handlers s2 = insert Npc_uart_io_handler (handlers s)"
    by (rule register_device [OF assms(1) _ r(1,2)]) (use assms(2) in \<open>auto simp: npc_layout\<close>)
  then have 2: "io_inv s2" "handlers s2 = insert Npc_uart_io_handler (handlers s)" by auto
  have "io_inv s' \<and> handlers s' = insert Npc_clint_io_handler (handlers s2)"
    by (rule register_device [OF 2(1) _ r(3,4)]) (use assms(2) 2(2) in \<open>auto simp: npc_layout\<close>)
  then show ?thesis using 2 by auto
qed

lemma register_plain:
  assumes "io_inv s" and "new_space (uint len) s = Inr (p, s1)"
    and "maps s2 = maps s1" "p_space s2 = p_space s1" "\<And>g. cb_base g s2 = cb_base g s1"
    and "add_mmio_map name a p len None s2 = Inr s'"
    and "len \<noteq> 0" "uint len \<le> 0x70000000" "a \<le> a + len - 1"
  shows "io_inv s' \<and> handlers s' = handlers s"
proof -
  have s1: "cb_base g s1 = cb_base g s" for g
    using assms(2) by (cases g) (auto simp: new_space_def Let_def)
  have "io_inv s' \<and> handlers s' = handlers s \<union> set_option None"
    by (rule register_window [OF assms(1,2,3,4) _ assms(6) _ assms(7-9)]) (simp_all add: assms(5) s1)
  then show ?thesis by simp
qed

lemma set_heap_fields:
  assumes "set_heap s m = Inr s'"
  shows "maps s' = maps s" "p_space s' = p_space s" "cb_base g s' = cb_base g s" "mem_regions s' = mem_regions s"
    "handlers s' = handlers s" "io_inv s' = io_inv s"
proof -
  obtain h where h: "s' = s\<lparr>heap := h\<rparr>" using assms by (auto simp: set_heap_def bindR_eq_Inr)
  have cb: "cb_base f s' = cb_base f s" for f by (cases f) (simp_all add: h)
  show "maps s' = maps s" "p_space s' = p_space s" "cb_base g s' = cb_base g s" "mem_regions s' = mem_regions s"
    "handlers s' = handlers s" by (simp_all add: h cb [unfolded h] handlers_def)
  show "io_inv s' = io_inv s" using cb by (simp add: io_inv_def map_ok_def space_top_def h)
qed

lemma screen_size_cases: "screen_size c = 1920000 \<or> screen_size c = 480000"
  by (simp add: screen_size_def SCREEN_W_def SCREEN_H_def)

lemma sint_eq_uint_small: "uint (x :: u32) \<le> 0x70000000 \<Longrightarrow> sint x = uint x"
  using sint_word_of_int [of "uint x"] by simp

lemma init_vga_inv:
  assumes "io_inv s" and "init_vga c s = Inr s'"
    and "CONFIG_VGA_CTL_MMIO c \<le> CONFIG_VGA_CTL_MMIO c + 8 - 1"
    and "CONFIG_FB_ADDR c \<le> CONFIG_FB_ADDR c + screen_size c - 1"
  shows "io_inv s' \<and> handlers s' = handlers s"
proof -
  have sz: "uint (screen_size c) \<le> 0x70000000" "screen_size c \<noteq> 0" using screen_size_cases [of c] by auto
  obtain p s1 s2 s3 q s4 s5 where 1: "new_space (uint (8 :: u32)) s = Inr (p, s1)"
    and 2: "set_heap (s1\<lparr>vgactl_port_base := p\<rparr>)
        (store_bytes c (heap s1) p (le_split 4 (push_bit 16 (SCREEN_W c) OR SCREEN_H c))) = Inr s2"
    and 3: "add_mmio_map ''vgactl'' (CONFIG_VGA_CTL_MMIO c) p 8 None s2 = Inr s3"
    and 4: "new_space (uint (screen_size c)) s3 = Inr (q, s4)"
    and 5: "add_mmio_map ''vmem'' (CONFIG_FB_ADDR c) q (screen_size c) None (s4\<lparr>vmem := q\<rparr>) = Inr s5"
    and 6: "s' = s5 \<or> set_heap s5 (zero_bytes c q (uint (screen_size c)) (heap s5)) = Inr s'"
    using assms(2) sz(1)
    by (auto simp: init_vga_def bindR_eq_Inr sint_eq_uint_small split: if_splits)
  have cb: "cb_base g (s1\<lparr>vgactl_port_base := p\<rparr>) = cb_base g s1"
    "cb_base g (s4\<lparr>vmem := q\<rparr>) = cb_base g s4" for g by (cases g; simp)+
  have "io_inv s3 \<and> handlers s3 = handlers s"
    by (rule register_plain [OF assms(1) 1 _ _ _ 3]) (simp_all add: set_heap_fields [OF 2] cb assms(3) [simplified])
  moreover from this have "io_inv s5 \<and> handlers s5 = handlers s3"
    by (intro register_plain [OF _ 4 _ _ _ 5]) (simp_all add: sz cb assms(4))
  ultimately show ?thesis using 6 set_heap_fields(5,6) [of s5 _ s'] by auto
qed

lemma init_i8042_inv:
  assumes "io_inv s" and "I8042_data_io_handler \<notin> handlers s" and "init_i8042 c scs s = Inr s'"
    and "CONFIG_I8042_DATA_MMIO c \<le> CONFIG_I8042_DATA_MMIO c + 4 - 1"
  shows "io_inv s' \<and> handlers s' = insert I8042_data_io_handler (handlers s)"
proof -
  obtain p s1 s2 s3 where 1: "new_space (uint (4 :: u32)) s = Inr (p, s1)"
    and 2: "set_heap (set_base I8042_data_io_handler p s1)
        (store_bytes c (heap s1) p (le_split 4 NEMU_KEY_NONE)) = Inr s2"
    and 3: "add_mmio_map ''keyboard'' (CONFIG_I8042_DATA_MMIO c) p 4 (Some I8042_data_io_handler) s2 = Inr s3"
    and 4: "s' = s3\<lparr>keymap := init_keymap scs 1 (keymap s3)\<rparr>"
    using assms(3) by (auto simp: init_i8042_def bindR_eq_Inr)
  have s1: "cb_base g s1 = cb_base g s" for g
    using 1 by (cases g) (auto simp: new_space_def Let_def)
  have "io_inv s3 \<and> handlers s3 = handlers s \<union> set_option (Some I8042_data_io_handler)"
  proof (rule register_window [OF assms(1) 1 _ _ _ 3])
    show "cb_base g s2 = cb_base g s" if "g \<in> handlers s" for g
      using that assms(2) s1 cb_base_other set_heap_fields(3) [OF 2] by metis
    show "cb_base f s2 = p \<and> cb_size f \<le> uint (4 :: u32)" if "Some I8042_data_io_handler = Some f" for f
      using that set_heap_fields(3) [OF 2] by (auto simp del: set_base.simps)
  qed (use assms(4) set_heap_fields [OF 2] in auto)
  then show ?thesis using 4 by auto
qed

lemma init_audio_inv:
  assumes "io_inv s" and "Audio_io_handler \<notin> handlers s" and "init_audio c s = Inr s'"
    and "CONFIG_AUDIO_CTL_MMIO c \<le> CONFIG_AUDIO_CTL_MMIO c + 24 - 1"
    and "CONFIG_SB_ADDR c \<le> CONFIG_SB_ADDR c + CONFIG_SB_SIZE c - 1"
    and sz: "CONFIG_SB_SIZE c \<noteq> 0" "uint (CONFIG_SB_SIZE c) \<le> 0x70000000"
  shows "io_inv s' \<and> handlers s' = insert Audio_io_handler (handlers s)"
proof -
  obtain p s1 s2 q s3 where 1: "new_space (uint (24 :: u32)) s = Inr (p, s1)"
    and 2: "add_mmio_map ''audio'' (CONFIG_AUDIO_CTL_MMIO c) p 24 (Some Audio_io_handler)
        (set_base Audio_io_handler p s1) = Inr s2"
    and 3: "new_space (uint (CONFIG_SB_SIZE c)) s2 = Inr (q, s3)"
    and 4: "add_mmio_map ''audio-sbuf'' (CONFIG_SB_ADDR c) q (CONFIG_SB_SIZE c) None (s3\<lparr>sbuf := q\<rparr>) = Inr s'"
    using assms(3) sz by (auto simp: init_audio_def bindR_eq_Inr sint_eq_uint_small)
  have "io_inv s2 \<and> handlers s2 = insert Audio_io_handler (handlers s)"
    by (rule register_device [OF assms(1,2) 1 2]) (use assms(4) in auto)
  moreover have "cb_base g (s3\<lparr>sbuf := q\<rparr>) = cb_base g s3" for g by (cases g; simp)
  ultimately show ?thesis using register_plain [OF _ 3 _ _ _ 4 sz assms(5)] by simp
qed

lemma init_map_inv:
  assumes "init_map ok s = Inr s'" and "maps s = []"
  shows "io_inv s' \<and> handlers s' = {}"
  using assms by (auto simp: init_map_def io_inv_def space_top_def windows_disjoint_def handlers_def IO_SPACE_MAX_def)

theorem init_device_inv:
  assumes "wf_dev_config c" and "maps s = []" and "init_device c host_ok scs s = Inr s'"
  shows "io_inv s' \<and> {Npc_uart_io_handler, Npc_clint_io_handler} \<subseteq> handlers s'"
proof -
  let ?A = "\<lambda>X t. io_inv t \<and> handlers t \<subseteq> X"
  let ?N = "{Npc_uart_io_handler, Npc_clint_io_handler}"
  let ?B = "\<lambda>X t. io_inv t \<and> ?N \<subseteq> handlers t \<and> handlers t \<subseteq> X"
  obtain s1 s2 s3 s4 s5 s6 where "init_map host_ok s = Inr s1"
    and 2: "IFDEF (CONFIG_HAS_SERIAL c) (init_serial c) s1 = Inr s2"
    and 3: "IFDEF (CONFIG_HAS_TIMER c) (init_timer c) s2 = Inr s3"
    and 4: "init_npc_devices s3 = Inr s4"
    and 5: "IFDEF (CONFIG_HAS_VGA c) (init_vga c) s4 = Inr s5"
    and 6: "IFDEF (CONFIG_HAS_KEYBOARD c) (init_i8042 c scs) s5 = Inr s6"
    and 7: "IFDEF (CONFIG_HAS_AUDIO c) (init_audio c) s6 = Inr s'"
    using assms(3) by (auto simp: init_device_def bindR_eq_Inr)
  then have "?A {} s1" using init_map_inv [of host_ok s s1] assms(2) by simp
  then have "?A {Serial_io_handler} s2" using 2 init_serial_inv [of s1 c s2] assms(1)
    by (auto simp: IFDEF_def wf_dev_config_def split: if_splits)
  then have "?A {Serial_io_handler, Rtc_io_handler} s3" using 3 init_timer_inv [of s2 c s3] assms(1)
    by (auto simp: IFDEF_def wf_dev_config_def split: if_splits)
  then have "?B (?N \<union> {Serial_io_handler, Rtc_io_handler}) s4" using 4 init_npc_devices_inv [of s3 s4] by auto
  then have "?B (?N \<union> {Serial_io_handler, Rtc_io_handler}) s5" using 5 init_vga_inv [of s4 c s5] assms(1)
    by (auto simp: IFDEF_def wf_dev_config_def split: if_splits)
  then have "?B (?N \<union> {Serial_io_handler, Rtc_io_handler, I8042_data_io_handler}) s6"
    using 6 init_i8042_inv [of s5 c scs s6] assms(1)
    by (auto simp: IFDEF_def wf_dev_config_def split: if_splits)
  then show ?thesis using 7 init_audio_inv [of s6 c s'] assms(1)
    by (auto simp: IFDEF_def wf_dev_config_def split: if_splits)
qed

section \<open>The NPC devices as the guest sees them\<close>

definition npc_windows :: "nemu \<Rightarrow> bool" where
  "npc_windows s \<longleftrightarrow>
     (\<exists>m \<in> set (maps s). io_callback m = Some Npc_uart_io_handler \<and>
        io_low m = NPC_UART_BASE \<and> io_high m = NPC_UART_BASE + NPC_UART_SIZE - 1) \<and>
     (\<exists>m \<in> set (maps s). io_callback m = Some Npc_clint_io_handler \<and>
        io_low m = NPC_CLINT_BASE \<and> io_high m = NPC_CLINT_BASE + NPC_CLINT_SIZE - 1)"

lemma npc_windows_mono: "npc_windows s \<Longrightarrow> set (maps s) \<subseteq> set (maps s') \<Longrightarrow> npc_windows s'"
  unfolding npc_windows_def by blast

lemma init_maps_grow:
  "init_vga c s = Inr s' \<Longrightarrow> set (maps s) \<subseteq> set (maps s')"
  "init_i8042 c scs s = Inr s' \<Longrightarrow> set (maps s) \<subseteq> set (maps s')"
  "init_audio c s = Inr s' \<Longrightarrow> set (maps s) \<subseteq> set (maps s')"
  by (auto simp: init_vga_def init_i8042_def init_audio_def new_space_def add_mmio_map_def
      set_heap_def bindR_eq_Inr Let_def split: if_splits)

lemma init_npc_devices_windows: "init_npc_devices s = Inr s' \<Longrightarrow> npc_windows s'"
  by (auto simp: init_npc_devices_def npc_windows_def new_space_def add_mmio_map_def bindR_eq_Inr Let_def)

theorem init_device_windows:
  assumes "init_device c host_ok scs s = Inr s'"
  shows "npc_windows s'"
proof -
  obtain s3 s4 s5 s6 where "init_npc_devices s3 = Inr s4"
    and 5: "IFDEF (CONFIG_HAS_VGA c) (init_vga c) s4 = Inr s5"
    and 6: "IFDEF (CONFIG_HAS_KEYBOARD c) (init_i8042 c scs) s5 = Inr s6"
    and 7: "IFDEF (CONFIG_HAS_AUDIO c) (init_audio c) s6 = Inr s'"
    using assms by (auto simp: init_device_def bindR_eq_Inr)
  then have "npc_windows s4" by (simp add: init_npc_devices_windows)
  then have "npc_windows s5" using 5 init_maps_grow npc_windows_mono by (auto simp: IFDEF_def split: if_splits)
  then have "npc_windows s6" using 6 init_maps_grow npc_windows_mono by (auto simp: IFDEF_def split: if_splits)
  then show ?thesis using 7 init_maps_grow npc_windows_mono by (auto simp: IFDEF_def split: if_splits)
qed

text \<open>
  The handler of the UART transmits the byte just stored; the handler of the CLINT refreshes
  \<^verbatim>\<open>mtime\<close> before a read, so nothing the guest wrote there is ever read back.
\<close>

lemma replay_native [simp]: "\<not> CONFIG_TARGET_SHARE c \<Longrightarrow> replay_matches c a len w d s = (False, s)"
  by (simp add: replay_matches_def)

lemma set_heap_Inr: "set_heap s m = Inr s' \<longleftrightarrow> (\<exists>h. m = Inr h \<and> s' = s\<lparr>heap := h\<rparr>)"
  by (auto simp: set_heap_def bindR_eq_Inr)

lemma fetched_window:
  assumes "io_inv s" and "m \<in> set (maps s)" and "map_inside m a"
  obtains s1 where "fetch_mmio_map c a s = (Some m, s1)" and "dev_frame s s1" and "heap s1 = heap s"
    and "outs s1 = outs s"
  using find_mapid_unique [OF assms] that
  by (auto simp: fetch_mmio_map_def find_mapid_by_addr_def difftest_skip_ref_def dev_frame_def machine_part_def)

lemma store_bytes_fits: "in_object c p (length bs) \<Longrightarrow> \<exists>h'. store_bytes c h p bs = Inr h'"
  using store_bytes_ok [of c h p bs] by (auto simp: is_ok_iff)

theorem uart_transmits:
  assumes inv: "io_inv s" and win: "npc_windows s" and native: "\<not> CONFIG_TARGET_SHARE c"
  shows "\<exists>s'. mmio_write c NPC_UART_BASE 1 v s = Inr s' \<and> outs s' = outs s @ [Putc (ucast v)]"
proof -
  obtain m where m: "m \<in> set (maps s)" "io_callback m = Some Npc_uart_io_handler"
    "io_low m = NPC_UART_BASE" "io_high m = NPC_UART_BASE + NPC_UART_SIZE - 1"
    using win by (auto simp: npc_windows_def)
  have ins: "map_inside m NPC_UART_BASE" using m by (simp add: map_inside_def npc_layout)
  obtain s1 where f: "fetch_mmio_map c NPC_UART_BASE s = (Some m, s1)" "dev_frame s s1" "outs s1 = outs s"
    using fetched_window [OF inv m(1) ins] by metis
  obtain k where k: "space_top s1 k" "map_ok s1 k m" using fetched_map_ok [OF inv f(1)] by metis
  have base: "npc_uart_base s1 = io_space m" using k(2) m(2) by (auto simp: map_ok_def)
  have "in_object c (io_space m) 1"
    using map_access_in_object [OF k(2,1), of NPC_UART_BASE 1 c] ins m by (simp add: map_inside_def)
  then obtain h where h: "store_bytes c (heap s1) (io_space m) (le_split 1 v) = Inr h"
    using store_bytes_fits [of c "io_space m" "le_split 1 v"] by auto
  have l: "load_bytes c h (io_space m) 1 = Inr (le_split 1 v)" using hm.ld_st_same [OF h] by simp
  then have "load_le c h (io_space m) 1 = Inr (take_bit 8 v)"
    using le_join_split [of 1 v] by (simp add: load_le_eq del: le_split.simps le_join.simps)
  then have "mmio_write c NPC_UART_BASE 1 v s = Inr (emit (Putc (ucast (take_bit 8 v))) (s1\<lparr>heap := h\<rparr>))"
    using f(1) h m base native ins
    by (simp add: mmio_write_def map_write_def check_bound_def map_inside_def host_write_def set_heap_def
        invoke_callback_def npc_uart_io_handler_def npc_layout)
  moreover have "ucast (take_bit 8 v) = (ucast v :: u8)" by (rule bit_word_eqI) (simp add: bit_simps)
  ultimately show ?thesis using f(3) by (simp add: emit_def)
qed

lemma store_le_4: "store_le c p 4 v h = host_write c h p 4 v"
  by (simp add: store_le_eq host_write_def)

lemma update_mtime_reads:
  assumes lo: "in_object c (ptr_add (npc_clint_base s) (uint NPC_CLINT_MTIME)) 4"
    and hi: "in_object c (ptr_add (npc_clint_base s) (uint NPC_CLINT_MTIME + 4)) 4"
  obtains s' where "update_mtime c s = Inr s'"
    and "host_read c (heap s') (ptr_add (npc_clint_base s) (uint NPC_CLINT_MTIME)) 4 = Inr (ucast (g_nr_guest_inst s))"
    and "host_read c (heap s') (ptr_add (npc_clint_base s) (uint NPC_CLINT_MTIME + 4)) 4 =
      Inr (ucast (drop_bit 32 (g_nr_guest_inst s)))"
proof -
  let ?l = "ptr_add (npc_clint_base s) (uint NPC_CLINT_MTIME)"
  let ?h = "ptr_add (npc_clint_base s) (uint NPC_CLINT_MTIME + 4)"
  let ?vl = "ucast (g_nr_guest_inst s) :: u32" and ?vh = "ucast (drop_bit 32 (g_nr_guest_inst s)) :: u32"
  have sw: "is_ok (host_write c h ?l 4 ?vl)" "is_ok (host_write c h ?h 4 ?vh)" for h
    using lo hi by (simp_all add: host_write_ok)
  obtain h1 where h1: "host_write c (heap s) ?l 4 ?vl = Inr h1" using sw(1) [of "heap s"] by (auto simp: is_ok_iff)
  obtain h2 where h2: "host_write c h1 ?h 4 ?vh = Inr h2" using sw(2) [of h1] by (auto simp: is_ok_iff)
  have "update_mtime c s = Inr (s\<lparr>heap := h2\<rparr>)"
    unfolding update_mtime_def Let_def store_le_4 set_heap_def h1 bindR_simps
    by (simp add: h2)
  moreover have "ptr_disjoint ?h 4 ?l 4"
    by (simp add: ptr_disjoint_def ptr_add_def npc_layout split: option.splits)
  then have "host_read c h2 ?l 4 = Inr ?vl"
    using host_read_write_other [OF h2, of ?l 4] host_read_write_same [OF h1] by (simp add: take_bit_word_eq_self)
  moreover have "host_read c h2 ?h 4 = Inr ?vh"
    using host_read_write_same [OF h2] by (simp add: take_bit_word_eq_self)
  ultimately show thesis using that [of "s\<lparr>heap := h2\<rparr>"] by simp
qed

theorem mtime_reads_instruction_count:
  assumes inv: "io_inv s" and win: "npc_windows s" and native: "\<not> CONFIG_TARGET_SHARE c"
  shows "\<exists>s'. mmio_read c (NPC_CLINT_BASE + NPC_CLINT_MTIME) 4 s = Inr (ucast (g_nr_guest_inst s), s')"
    and "\<exists>s'. mmio_read c (NPC_CLINT_BASE + NPC_CLINT_MTIME + 4) 4 s =
      Inr (ucast (drop_bit 32 (g_nr_guest_inst s)), s')"
proof -
  obtain m where m: "m \<in> set (maps s)" "io_callback m = Some Npc_clint_io_handler"
    "io_low m = NPC_CLINT_BASE" "io_high m = NPC_CLINT_BASE + NPC_CLINT_SIZE - 1"
    using win by (auto simp: npc_windows_def)
  have ins: "map_inside m (NPC_CLINT_BASE + NPC_CLINT_MTIME)" "map_inside m (NPC_CLINT_BASE + NPC_CLINT_MTIME + 4)"
    using m by (simp_all add: map_inside_def npc_layout)
  have read: "\<exists>s'. mmio_read c a 4 s = Inr (if a = NPC_CLINT_BASE + NPC_CLINT_MTIME
      then ucast (g_nr_guest_inst s) else ucast (drop_bit 32 (g_nr_guest_inst s)), s')"
    if a: "a \<in> {NPC_CLINT_BASE + NPC_CLINT_MTIME, NPC_CLINT_BASE + NPC_CLINT_MTIME + 4}" for a
  proof -
    have "map_inside m a" using ins a by auto
    then obtain s1 where f: "fetch_mmio_map c a s = (Some m, s1)" "dev_frame s s1"
      using fetched_window [OF inv m(1)] by metis
    obtain k where k: "space_top s1 k" "map_ok s1 k m" using fetched_map_ok [OF inv f(1)] by metis
    have base: "npc_clint_base s1 = io_space m" using k(2) m(2) by (auto simp: map_ok_def)
    have reg: "in_object c (ptr_add (npc_clint_base s1) d) 4" if "0 \<le> d" "d + 4 \<le> 0x10000" for d
      using reg_in_object [OF k(2,1) m(2), of d 4] that by simp
    obtain s2 where "update_mtime c s1 = Inr s2"
      "host_read c (heap s2) (ptr_add (npc_clint_base s1) (uint NPC_CLINT_MTIME)) 4 = Inr (ucast (g_nr_guest_inst s1))"
      "host_read c (heap s2) (ptr_add (npc_clint_base s1) (uint NPC_CLINT_MTIME + 4)) 4 =
        Inr (ucast (drop_bit 32 (g_nr_guest_inst s1)))"
      by (rule update_mtime_reads [OF reg reg]) (simp_all add: npc_layout)
    note u = this
    have g: "g_nr_guest_inst s1 = g_nr_guest_inst s" by (rule dev_frame_fields(6) [OF f(2)])
    have "clint_reg_access (a - NPC_CLINT_BASE) 4" using a by (auto simp: clint_reg_access_def npc_layout)
    then have "npc_clint_io_handler c (a - NPC_CLINT_BASE) 4 False s1 = Inr s2"
      using native u(1) by (simp add: npc_clint_io_handler_def)
    then have rd: "mmio_read c a 4 s = bindR (host_read c (heap s2) (ptr_add (npc_clint_base s1)
        (uint (a - NPC_CLINT_BASE))) 4) (\<lambda>ret. Inr (ret, s2))"
      using f(1) m(2,3) base \<open>map_inside m a\<close>
      by (simp add: mmio_read_def map_read_def check_bound_def invoke_callback_def map_inside_def)
    show ?thesis
    proof (cases "a = NPC_CLINT_BASE + NPC_CLINT_MTIME")
      case True
      then show ?thesis using rd u(2) by (simp add: g)
    next
      case False
      then have "a - NPC_CLINT_BASE = NPC_CLINT_MTIME + 4" using a by auto
      then have "uint (a - NPC_CLINT_BASE) = uint NPC_CLINT_MTIME + 4" by (simp add: npc_layout)
      then show ?thesis using rd u(3) False by (simp add: g)
    qed
  qed
  show "\<exists>s'. mmio_read c (NPC_CLINT_BASE + NPC_CLINT_MTIME) 4 s = Inr (ucast (g_nr_guest_inst s), s')"
    using read [of "NPC_CLINT_BASE + NPC_CLINT_MTIME"] by simp
  show "\<exists>s'. mmio_read c (NPC_CLINT_BASE + NPC_CLINT_MTIME + 4) 4 s =
      Inr (ucast (drop_bit 32 (g_nr_guest_inst s)), s')"
    using read [of "NPC_CLINT_BASE + NPC_CLINT_MTIME + 4"] by (simp add: npc_layout)
qed

end
