(* ===== verification/Bus.thy ===== *)
theory Bus
  imports Io_Safety
begin

text \<open>
  The guest's bus: \<open>paddr_read\<close> and \<open>paddr_write\<close> of \<^verbatim>\<open>nemu/src/memory/paddr.c\<close> route an
  access to memory or to a device window, and \<^verbatim>\<open>nemu/src/memory/vaddr.c\<close> decides which guest
  addresses may be accessed at all. The laws: on a machine that was set up, an access makes no stray
  host access, leaves the CPU and the set-up alone, and a checked load succeeds.
\<close>

section \<open>Physical addresses\<close>

definition out_of_bound :: "u32 \<Rightarrow> 'a res" where
  "out_of_bound addr = Inl (Assert_fail ''address is out of bound of physical memory'')"

definition paddr_read :: "config \<Rightarrow> u32 \<Rightarrow> int \<Rightarrow> nemu \<Rightarrow> (u32 \<times> nemu) res" where
  "paddr_read c addr len s =
     (if paddr_is_backed s addr (size_t_of len) then bindR (pmem_read c s addr len) (\<lambda>v. Inr (v, s))
      else if CONFIG_DEVICE c then mmio_read c addr len s
      else out_of_bound addr)"

definition paddr_write :: "config \<Rightarrow> u32 \<Rightarrow> int \<Rightarrow> u32 \<Rightarrow> nemu \<Rightarrow> nemu res" where
  "paddr_write c addr len data s =
     (if paddr_is_backed s addr (size_t_of len) then pmem_write c addr len data s
      else if CONFIG_DEVICE c then mmio_write c addr len data s
      else out_of_bound addr)"

section \<open>Virtual addresses\<close>

text \<open>The sums are of \<^verbatim>\<open>uint32_t\<close> and wrap.\<close>

definition native_device_access_ok :: "config \<Rightarrow> u32 \<Rightarrow> int \<Rightarrow> bool" where
  "native_device_access_ok c addr len =
     ((CONFIG_HAS_SERIAL c \<and> addr \<ge> CONFIG_SERIAL_MMIO c \<and> addr + of_int len \<le> CONFIG_SERIAL_MMIO c + 8) \<or>
      (CONFIG_HAS_TIMER c \<and> addr \<ge> CONFIG_RTC_MMIO c \<and> addr + of_int len \<le> CONFIG_RTC_MMIO c + 8))"

definition vaddr_access_ok :: "config \<Rightarrow> nemu \<Rightarrow> u32 \<Rightarrow> int \<Rightarrow> bool" where
  "vaddr_access_ok c s addr len =
     (paddr_is_backed s addr (size_t_of len) \<or>
      native_device_access_ok c addr len \<or>
      (addr \<ge> 0x10000000 \<and> addr + of_int len \<le> 0x10000020) \<or>
      (addr \<ge> 0x02000000 \<and> addr + of_int len \<le> 0x02010000))"

definition vaddr_ifetch :: "config \<Rightarrow> u32 \<Rightarrow> int \<Rightarrow> nemu \<Rightarrow> (u32 \<times> nemu) res" where
  "vaddr_ifetch c addr len s = paddr_read c addr len s"

definition vaddr_read :: "config \<Rightarrow> u32 \<Rightarrow> int \<Rightarrow> nemu \<Rightarrow> (u32 \<times> nemu) res" where
  "vaddr_read c addr len s = paddr_read c addr len s"

definition vaddr_write :: "config \<Rightarrow> u32 \<Rightarrow> int \<Rightarrow> u32 \<Rightarrow> nemu \<Rightarrow> nemu res" where
  "vaddr_write c addr len data s = paddr_write c addr len data s"

lemmas vaddr_defs = vaddr_ifetch_def vaddr_read_def vaddr_write_def

section \<open>A machine that was set up\<close>

definition machine_ready :: "config \<Rightarrow> nemu \<Rightarrow> bool" where
  "machine_ready c s \<longleftrightarrow> mem_ready c s \<and> (CONFIG_DEVICE c \<longrightarrow> io_inv s \<and> npc_windows s)"

text \<open>What a bus access may change: host bytes and device state.\<close>

definition bus_frame :: "nemu \<Rightarrow> nemu \<Rightarrow> bool" where
  "bus_frame s s' \<longleftrightarrow> machine_part s' = machine_part s"

lemma bus_frame_refl [simp]: "bus_frame s s"
  by (simp add: bus_frame_def)

lemma bus_frame_trans: "bus_frame s t \<Longrightarrow> bus_frame t u \<Longrightarrow> bus_frame s u"
  by (simp add: bus_frame_def)

lemma dev_bus_frame: "dev_frame s s' \<Longrightarrow> bus_frame s s'"
  by (simp add: dev_frame_def bus_frame_def)

lemma heap_bus_frame [simp]: "bus_frame s (s\<lparr>heap := h\<rparr>)"
  by (simp add: bus_frame_def machine_part_def)

lemmas bus_frame_fields = machine_part_fields [OF iffD1 [OF bus_frame_def]]

lemma cb_base_bus: "bus_frame s s' \<Longrightarrow> cb_base f s' = cb_base f s"
  by (cases f) (simp_all add: bus_frame_fields [of s s'])

lemma machine_ready_frame: "bus_frame s s' \<Longrightarrow> machine_ready c s' = machine_ready c s"
  by (simp add: machine_ready_def mem_ready_def io_inv_def npc_windows_def map_ok_def space_top_def
      cb_base_bus [of s s'] bus_frame_fields [of s s'])

lemma paddr_read_frame:
  assumes "machine_ready c s" and "paddr_read c a len s = Inr (v, s')"
  shows "bus_frame s s'"
  using assms mmio_read_frame [of s c a len v s'] dev_bus_frame
  by (auto simp: paddr_read_def machine_ready_def out_of_bound_def bindR_eq_Inr split: if_splits)

lemma paddr_write_frame:
  assumes "machine_ready c s" and "paddr_write c a len v s = Inr s'"
  shows "bus_frame s s'"
  using assms mmio_write_frame [of s c a len v s'] dev_bus_frame pmem_write_heap [of c a len v s s']
  by (auto simp: paddr_write_def machine_ready_def out_of_bound_def split: if_splits)

lemma safe_pmem_read:
  assumes "mem_ready c s" and "len \<in> {1, 2, 4}"
  shows "safe (pmem_read c s a len)"
proof (cases "paddr_is_backed s a (size_t_of len)")
  case True
  then show ?thesis using pmem_read_ok assms safe_ok by blast
next
  case False
  then show ?thesis by (simp add: pmem_read_def paddr_is_backed_def)
qed

lemma safe_pmem_write:
  assumes "mem_ready c s" and len: "len \<in> {1, 2, 4}"
  shows "safe (pmem_write c a len v s)"
proof (cases "find_mem_region s a (size_t_of len)")
  case None
  then show ?thesis by (simp add: pmem_write_def)
next
  case (Some r)
  have "in_object c (region_guest_to_host r a) (nat len)"
    using find_mem_region_object [OF assms(1) Some] len by (auto simp: in_object_def)
  then show ?thesis using Some len by (auto simp: pmem_write_def safe_bindR_Inr safe_host_write)
qed

theorem bus_safe:
  assumes "machine_ready c s" and "len \<in> {1, 2, 4}"
  shows "safe (paddr_read c a len s)" and "safe (paddr_write c a len v s)"
  using assms mmio_safe [of s len c a v] safe_pmem_read [of c s len a] safe_pmem_write [of c s len a v]
  by (auto simp: paddr_read_def paddr_write_def out_of_bound_def machine_ready_def safe_bindR_Inr)

section \<open>Checked accesses succeed\<close>

lemma is_ok_bindR: "is_ok m \<Longrightarrow> (\<And>x. m = Inr x \<Longrightarrow> is_ok (k x)) \<Longrightarrow> is_ok (bindR m k)"
  by (cases m) simp_all

lemma is_ok_bindR_Inr [simp]: "is_ok (bindR m (\<lambda>x. Inr (f x))) \<longleftrightarrow> is_ok m"
  by (cases m) simp_all

lemma is_ok_set_heap [simp]: "is_ok (set_heap s m) \<longleftrightarrow> is_ok m"
  by (cases m) (simp_all add: set_heap_def)

lemma is_ok_le [simp]:
  "len \<le> 4 \<Longrightarrow> is_ok (load_le c h p len) \<longleftrightarrow> in_object c p (nat len)"
  "len \<le> 4 \<Longrightarrow> is_ok (store_le c p len v h) \<longleftrightarrow> in_object c p (nat len)"
  by (simp_all add: load_le_eq store_le_eq load_bytes_ok store_bytes_ok)

lemma uart_handler_ok:
  assumes "offset < NPC_UART_SIZE" and "offset + of_int len \<le> NPC_UART_SIZE" and "len \<in> {1, 2, 4}"
    and "in_object c (ptr_add (npc_uart_base s) (uint offset)) (nat len)"
  shows "is_ok (npc_uart_io_handler c offset len w s)"
  using assms
  by (auto simp: npc_uart_io_handler_def Let_def case_prod_beta zero_bytes_def store_bytes_ok
      intro!: is_ok_bindR)

lemma clint_handler_ok:
  assumes len: "len \<in> {1, 2, 4}"
    and "in_object c (ptr_add (npc_clint_base s) (uint offset)) (nat len)"
    and lo: "in_object c (ptr_add (npc_clint_base s) (uint NPC_CLINT_MTIME)) 4"
    and hi: "in_object c (ptr_add (npc_clint_base s) (uint NPC_CLINT_MTIME + 4)) 4"
  shows "is_ok (npc_clint_io_handler c offset len w s)"
proof -
  have b: "npc_clint_base (snd (replay_matches c a l w' d s)) = npc_clint_base s" for a l w' d
    using dev_frame_fields(17) [OF dev_frame_replay_matches] .
  have "is_ok (update_mtime c (snd (replay_matches c a l w' d s)))" for a l w' d
    by (rule update_mtime_reads [of c "snd (replay_matches c a l w' d s)"]) (simp_all add: b lo hi)
  then show ?thesis using assms(1,2)
    by (auto simp: npc_clint_io_handler_def Let_def case_prod_beta zero_bytes_def store_bytes_ok
        intro!: is_ok_bindR)
qed

lemma mmio_window_ok:
  assumes inv: "io_inv s" and m: "m \<in> set (maps s)" "map_inside m a" and len: "len \<in> {1, 2, 4}"
    and cb: "\<And>s1 w. dev_frame s s1 \<Longrightarrow> is_ok (invoke_callback c (io_callback m) (a - io_low m) len w s1)"
  shows "is_ok (mmio_read c a len s) \<and> is_ok (mmio_write c a len v s)"
proof -
  obtain s1 where f: "fetch_mmio_map c a s = (Some m, s1)" "dev_frame s s1"
    using fetched_window [OF inv m] by metis
  obtain k where k: "space_top s1 k" "map_ok s1 k m" using fetched_map_ok [OF inv f(1)] by metis
  have b: "io_low m \<le> a" "a \<le> io_high m" using m(2) by (auto simp: map_inside_def)
  have acc: "in_object c (ptr_add (io_space m) (uint (a - io_low m))) (nat len)"
    using map_access_in_object [OF k(2,1) b] len by auto
  have "is_ok (map_read c a len (Some m) s1)"
    using cb [OF f(2), of False] acc b len
    by (auto simp: map_read_def check_bound_def Let_def host_read_ok intro!: is_ok_bindR)
  moreover have "is_ok (map_write c a len v (Some m) s1)"
  proof -
    have "is_ok (invoke_callback c (io_callback m) (a - io_low m) len True s2)"
      if "set_heap s1 (host_write c (heap s1) (ptr_add (io_space m) (uint (a - io_low m))) len v) = Inr s2" for s2
      using cb dev_frame_trans [OF f(2)] host_write_frame [OF that] map_ok_dev_ptr [OF k(2)] by simp
    then show ?thesis using acc b len
      by (auto simp: map_write_def check_bound_def Let_def host_write_ok intro!: is_ok_bindR)
  qed
  ultimately show ?thesis using f(1) by (simp add: mmio_read_def mmio_write_def)
qed

text \<open>The two device ranges of \<open>vaddr_access_ok\<close> are the two NPC windows.\<close>

lemma offset_bound:
  assumes "base \<le> (a :: u32)" and "a + of_int len \<le> base + sz" and "len \<in> {1, 2, 4}"
    and "uint a + len < 2 ^ 32" and "uint base + uint sz < 2 ^ 32"
  shows "uint (a - base) + len \<le> uint sz"
proof -
  have "uint (a + of_int len) = uint a + len"
    using assms(3,4) by (auto simp: uint_plus_if_size word_size)
  moreover have "uint (base + sz) = uint base + uint sz" using assms(5) by (simp add: uint_plus_if_size word_size)
  moreover have "uint (a - base) = uint a - uint base" using assms(1) by (simp add: uint_sub_if' word_le_def)
  ultimately show ?thesis using assms(2) by (simp add: word_le_def)
qed

lemma uart_access_ok:
  assumes "io_inv s" and "npc_windows s" and len: "len \<in> {1, 2, 4}" and "uint a + len < 2 ^ 32"
    and "NPC_UART_BASE \<le> a" and "a + of_int len \<le> NPC_UART_BASE + NPC_UART_SIZE"
  shows "is_ok (mmio_read c a len s) \<and> is_ok (mmio_write c a len v s)"
proof -
  obtain m where m: "m \<in> set (maps s)" "io_callback m = Some Npc_uart_io_handler"
    "io_low m = NPC_UART_BASE" "io_high m = NPC_UART_BASE + NPC_UART_SIZE - 1"
    using assms(2) by (auto simp: npc_windows_def)
  have ob: "uint (a - NPC_UART_BASE) + len \<le> 0x20"
    using offset_bound [OF assms(5,6,3,4)] by (simp add: npc_layout)
  moreover have "uint (a - NPC_UART_BASE) = uint a - uint NPC_UART_BASE"
    using assms(5) by (simp add: uint_sub_if' word_le_def)
  ultimately have ins: "map_inside m a" using assms(5) m(3,4) len by (auto simp: map_inside_def word_le_def npc_layout)
  have off: "a - NPC_UART_BASE < NPC_UART_SIZE" "a - NPC_UART_BASE + of_int len \<le> NPC_UART_SIZE"
    using ob len by (auto simp: word_less_def word_le_def npc_layout uint_plus_if_size word_size)
  show ?thesis
  proof (rule mmio_window_ok [OF assms(1) m(1) ins len])
    fix s1 w assume f: "dev_frame s s1"
    obtain k where k: "space_top s1 k" "map_ok s1 k m"
      using map_okE [OF assms(1) m(1)] map_ok_frame [OF f] space_top_frame [OF f] by metis
    have "in_object c (ptr_add (npc_uart_base s1) (uint (a - NPC_UART_BASE))) (nat len)"
      using reg_in_object [OF k(2,1) m(2), of "uint (a - NPC_UART_BASE)" "nat len" c] ob len by auto
    then show "is_ok (invoke_callback c (io_callback m) (a - io_low m) len w s1)"
      using uart_handler_ok [OF off len, of c s1 w] by (simp add: invoke_callback_def m)
  qed
qed

lemma clint_access_ok:
  assumes "io_inv s" and "npc_windows s" and len: "len \<in> {1, 2, 4}" and "uint a + len < 2 ^ 32"
    and "NPC_CLINT_BASE \<le> a" and "a + of_int len \<le> NPC_CLINT_BASE + NPC_CLINT_SIZE"
  shows "is_ok (mmio_read c a len s) \<and> is_ok (mmio_write c a len v s)"
proof -
  obtain m where m: "m \<in> set (maps s)" "io_callback m = Some Npc_clint_io_handler"
    "io_low m = NPC_CLINT_BASE" "io_high m = NPC_CLINT_BASE + NPC_CLINT_SIZE - 1"
    using assms(2) by (auto simp: npc_windows_def)
  have ob: "uint (a - NPC_CLINT_BASE) + len \<le> 0x10000"
    using offset_bound [OF assms(5,6,3,4)] by (simp add: npc_layout)
  moreover have "uint (a - NPC_CLINT_BASE) = uint a - uint NPC_CLINT_BASE"
    using assms(5) by (simp add: uint_sub_if' word_le_def)
  ultimately have ins: "map_inside m a" using assms(5) m(3,4) len by (auto simp: map_inside_def word_le_def npc_layout)
  show ?thesis
  proof (rule mmio_window_ok [OF assms(1) m(1) ins len])
    fix s1 w assume f: "dev_frame s s1"
    obtain k where k: "space_top s1 k" "map_ok s1 k m"
      using map_okE [OF assms(1) m(1)] map_ok_frame [OF f] space_top_frame [OF f] by metis
    have r: "in_object c (ptr_add (npc_clint_base s1) d) n" if "0 \<le> d" "d + int n \<le> 0x10000" for d n
      using reg_in_object [OF k(2,1) m(2), of d n c] that by simp
    show "is_ok (invoke_callback c (io_callback m) (a - io_low m) len w s1)"
      using clint_handler_ok [OF len r r r, of "a - NPC_CLINT_BASE" w] ob len
      by (auto simp: invoke_callback_def m npc_layout)
  qed
qed

theorem checked_access_ok:
  assumes "machine_ready c s" and "CONFIG_DEVICE c" and "\<not> CONFIG_HAS_SERIAL c" and "\<not> CONFIG_HAS_TIMER c"
    and len: "len \<in> {1, 2, 4}" and "uint a + len < 2 ^ 32" and ok: "vaddr_access_ok c s a len"
  shows "is_ok (vaddr_read c a len s)"
    and "paddr_is_backed s a (size_t_of len) \<or> is_ok (vaddr_write c a len v s)"
proof -
  have inv: "mem_ready c s" "io_inv s" "npc_windows s" using assms(1,2) by (simp_all add: machine_ready_def)
  have dev: "is_ok (mmio_read c a len s) \<and> is_ok (mmio_write c a len v s)"
    if "\<not> paddr_is_backed s a (size_t_of len)"
    using ok that assms(3,4) uart_access_ok [OF inv(2,3) len assms(6)] clint_access_ok [OF inv(2,3) len assms(6)]
    by (auto simp: vaddr_access_ok_def native_device_access_ok_def npc_layout)
  then show "is_ok (vaddr_read c a len s)"
    using pmem_read_ok [OF inv(1) len, of a] assms(2)
    by (cases "paddr_is_backed s a (size_t_of len)") (simp_all add: vaddr_defs paddr_read_def)
  show "paddr_is_backed s a (size_t_of len) \<or> is_ok (vaddr_write c a len v s)"
    using dev assms(2) by (auto simp: vaddr_defs paddr_write_def)
qed

lemma pmem_write_ok:
  assumes "mem_ready c s" and len: "len \<in> {1, 2, 4}" and "find_mem_region s a (size_t_of len) = Some r" and "mr_writable r"
  shows "is_ok (pmem_write c a len v s)"
proof -
  have "in_object c (region_guest_to_host r a) (nat len)"
    using find_mem_region_object [OF assms(1,3)] len by (auto simp: in_object_def)
  then show ?thesis using assms(3,4) len by (auto simp: pmem_write_def host_write_ok)
qed

text \<open>A checked write succeeds except at the boot ROM, which the check allows and \<^verbatim>\<open>pmem_write\<close> refuses.\<close>

theorem checked_write:
  assumes ready: "machine_ready c s" and "CONFIG_DEVICE c" and "\<not> CONFIG_HAS_SERIAL c" and "\<not> CONFIG_HAS_TIMER c"
    and len: "len \<in> {1, 2, 4}" and "uint a + len < 2 ^ 32" and ok: "vaddr_access_ok c s a len"
  shows "if in_mrom a then vaddr_write c a len v s = Inl (Assert_fail ''write to non-writable memory region'')
    else is_ok (vaddr_write c a len v s)"
proof (cases "find_mem_region s a (size_t_of len)")
  case None
  then have nb: "\<not> paddr_is_backed s a (size_t_of len)" by (simp add: paddr_is_backed_def)
  have "a \<ge> 0x10000000 \<and> a + of_int len \<le> 0x10000020 \<or> a \<ge> 0x02000000 \<and> a + of_int len \<le> 0x02010000"
    using ok nb assms(3,4) by (auto simp: vaddr_access_ok_def native_device_access_ok_def)
  moreover have "uint (a + of_int len) = uint a + len" using len assms(6) by (auto simp: uint_word_ariths)
  ultimately have "\<not> in_mrom a" using len by (auto simp: in_mrom_def word_le_def word_less_def)
  then show ?thesis using checked_access_ok(2) [OF assms, of v] nb by simp
next
  case (Some r)
  have m: "mem_ready c s" using ready by (simp add: machine_ready_def)
  have w: "vaddr_write c a len v s = pmem_write c a len v s" using Some by (simp add: vaddr_defs paddr_write_def paddr_is_backed_def)
  show ?thesis
    using find_mem_region_writable [OF m Some] pmem_write_ok [OF m len Some, of v] Some unfolding w by (simp add: pmem_write_def)
qed

text \<open>
  The end of a range is computed in 32 bits: a word at the very top of the address space passes the
  check, and the access then finds no window.
\<close>

lemma access_wraps:
  assumes "find_mapid_loop (maps s) 0xfffffffc = None" and "\<not> paddr_is_backed s 0xfffffffc 4" and "CONFIG_DEVICE c"
  shows "vaddr_access_ok c s 0xfffffffc 4"
    and "vaddr_read c 0xfffffffc 4 s = Inl (Assert_fail ''address is out of bound'')"
proof -
  have sz: "size_t_of 4 = 4" by (simp add: size_t_of_def)
  show "vaddr_access_ok c s 0xfffffffc 4" by (simp add: vaddr_access_ok_def)
  show "vaddr_read c 0xfffffffc 4 s = Inl (Assert_fail ''address is out of bound'')"
    using assms by (simp add: vaddr_defs paddr_read_def sz mmio_read_def fetch_mmio_map_def find_mapid_by_addr_def
        map_read_def check_bound_def)
qed

end
