(* ===== verification/Riscv32.thy ===== *)
theory Riscv32
  imports Bus
begin

text \<open>
  The RV32IM interpreter: \<^verbatim>\<open>nemu/src/isa/riscv32/inst.c\<close>, \<^verbatim>\<open>system/intr.c\<close>,
  \<^verbatim>\<open>init.c\<close>, the register access of \<^verbatim>\<open>local-include/reg.h\<close> and
  \<^verbatim>\<open>nemu/src/engine/interpreter/hostcall.c\<close>. The instruction table is kept as the source has
  it, pattern strings in order of matching.
\<close>

section \<open>Registers\<close>

definition check_reg_idx :: "config \<Rightarrow> nat \<Rightarrow> nat res" where
  "check_reg_idx c idx =
     (if CONFIG_RT_CHECK c then assertR (idx < NR_GPR c) ''reg idx'' (Inr idx)
      else if idx < NR_GPR c then Inr idx else Inl (Bad_access ''cpu.gpr''))"

definition R_get :: "config \<Rightarrow> nat \<Rightarrow> nemu \<Rightarrow> u32 res" where
  "R_get c i s = bindR (check_reg_idx c i) (\<lambda>j. Inr (gpr (cpu s) ! j))"

definition R_set :: "config \<Rightarrow> nat \<Rightarrow> u32 \<Rightarrow> nemu \<Rightarrow> nemu res" where
  "R_set c i v s = bindR (check_reg_idx c i) (\<lambda>j.
     Inr (s\<lparr>cpu := (cpu s)\<lparr>gpr := (gpr (cpu s))[j := v]\<rparr>\<rparr>))"

section \<open>Host calls\<close>

definition inst_fetch :: "config \<Rightarrow> u32 \<Rightarrow> int \<Rightarrow> nemu \<Rightarrow> (u32 \<times> u32 \<times> nemu) res" where
  "inst_fetch c thispc len s = bindR (vaddr_ifetch c thispc len s) (\<lambda>(inst, s1). Inr (inst, thispc + of_int len, s1))"

definition set_nemu_state :: "config \<Rightarrow> nemu_run \<Rightarrow> u32 \<Rightarrow> u32 \<Rightarrow> nemu \<Rightarrow> nemu" where
  "set_nemu_state c state thispc ret s =
     (difftest_skip_ref c s)\<lparr>nemu_state := \<lparr>run_state = state, halt_pc = thispc, halt_ret = ret\<rparr>\<rparr>"

definition invalid_inst :: "config \<Rightarrow> u32 \<Rightarrow> nemu \<Rightarrow> nemu res" where
  "invalid_inst c thispc s =
     bindR (inst_fetch c thispc 4 s) (\<lambda>(temp0, pc1, s1).
     bindR (inst_fetch c pc1 4 s1) (\<lambda>(temp1, pc2, s2).
       Inr (set_nemu_state c NEMU_ABORT thispc (-1) (emit (Message ''invalid opcode'') s2))))"

section \<open>Control and status registers\<close>

definition csr_read :: "config \<Rightarrow> u32 \<Rightarrow> nemu \<Rightarrow> (u32 \<times> nemu) res" where
  "csr_read c addr s =
     (if addr = 0xf11 then Inr (0, s)
      else if addr = 0xf12 then Inr (0, s)
      else if addr = 0x300 then Inr (0x00001800, s)
      else if addr = 0x305 then Inr (mtvec (cpu s), s)
      else if addr = 0x341 then Inr (mepc (cpu s), s)
      else if addr = 0x342 then Inr (mcause (cpu s), s)
      else bindR (invalid_inst c (pc (cpu s)) s) (\<lambda>s1. Inr (0, s1)))"

definition csr_write :: "config \<Rightarrow> u32 \<Rightarrow> u32 \<Rightarrow> nemu \<Rightarrow> nemu res" where
  "csr_write c addr val s =
     (if addr = 0x300 then Inr (s\<lparr>cpu := (cpu s)\<lparr>mstatus := 0x00001800\<rparr>\<rparr>)
      else if addr = 0x305 then Inr (s\<lparr>cpu := (cpu s)\<lparr>mtvec := val AND NOT 0x3\<rparr>\<rparr>)
      else if addr = 0x341 then Inr (s\<lparr>cpu := (cpu s)\<lparr>mepc := val AND NOT 0x3\<rparr>\<rparr>)
      else if addr = 0x342 then Inr (s\<lparr>cpu := (cpu s)\<lparr>mcause := val\<rparr>\<rparr>)
      else invalid_inst c (pc (cpu s)) s)"

definition isa_raise_intr :: "u32 \<Rightarrow> u32 \<Rightarrow> nemu \<Rightarrow> u32 \<times> nemu" where
  "isa_raise_intr NO epc s =
     (let s1 = s\<lparr>cpu := (cpu s)\<lparr>mepc := epc, mcause := NO\<rparr>\<rparr> in (mtvec (cpu s1), s1))"

definition INTR_EMPTY :: u32 where "INTR_EMPTY = -1"

definition isa_query_intr :: u32 where "isa_query_intr = INTR_EMPTY"

definition raise_sync_exception :: "Decode \<Rightarrow> u32 \<Rightarrow> nemu \<Rightarrow> Decode \<times> nemu" where
  "raise_sync_exception d cause s =
     (case isa_raise_intr cause (d_pc d) s of (target, s1) \<Rightarrow>
        (d\<lparr>d_exception := True, d_exception_cause := cause, dnpc := target\<rparr>, s1))"

section \<open>Operands\<close>

datatype inst_type = TYPE_I | TYPE_U | TYPE_S | TYPE_J | TYPE_B | TYPE_R | TYPE_N

definition immI :: "u32 \<Rightarrow> u32" where
  "immI i = ucast (SEXT (BITS i 31 20) 12)"

definition immU :: "u32 \<Rightarrow> u32" where
  "immU i = ucast (push_bit 12 (SEXT (BITS i 31 12) 20))"

definition immS :: "u32 \<Rightarrow> u32" where
  "immS i = ucast (push_bit 5 (SEXT (BITS i 31 25) 7) OR BITS i 11 7)"

definition immJ :: "u32 \<Rightarrow> u32" where
  "immJ i = ucast (SEXT (push_bit 20 (BITS i 31 31) OR push_bit 12 (BITS i 19 12) OR
     push_bit 11 (BITS i 20 20) OR push_bit 1 (BITS i 30 21)) 21)"

definition immB :: "u32 \<Rightarrow> u32" where
  "immB i = ucast (SEXT (push_bit 12 (BITS i 31 31) OR push_bit 11 (BITS i 7 7) OR
     push_bit 5 (BITS i 30 25) OR push_bit 1 (BITS i 11 8)) 13)"

text \<open>The result is \<open>(rd, src1, src2, imm)\<close>; what a type does not set keeps its initial 0.\<close>

definition decode_operand :: "config \<Rightarrow> inst_type \<Rightarrow> Decode \<Rightarrow> nemu \<Rightarrow> (nat \<times> u32 \<times> u32 \<times> u32) res" where
  "decode_operand c type d s =
     (let i = d_inst d;
          rs1 = unat (BITS i 19 15);
          rs2 = unat (BITS i 24 20);
          rd = unat (BITS i 11 7) in
      case type of
        TYPE_I \<Rightarrow> bindR (R_get c rs1 s) (\<lambda>src1. Inr (rd, src1, 0, immI i))
      | TYPE_U \<Rightarrow> Inr (rd, 0, 0, immU i)
      | TYPE_S \<Rightarrow> bindR (R_get c rs1 s) (\<lambda>src1. bindR (R_get c rs2 s) (\<lambda>src2. Inr (rd, src1, src2, immS i)))
      | TYPE_J \<Rightarrow> Inr (rd, 0, 0, immJ i)
      | TYPE_B \<Rightarrow> bindR (R_get c rs1 s) (\<lambda>src1. bindR (R_get c rs2 s) (\<lambda>src2. Inr (rd, src1, src2, immB i)))
      | TYPE_R \<Rightarrow> bindR (R_get c rs1 s) (\<lambda>src1. bindR (R_get c rs2 s) (\<lambda>src2. Inr (rd, src1, src2, 0)))
      | TYPE_N \<Rightarrow> Inr (rd, 0, 0, 0))"

section \<open>The instruction table\<close>

datatype (plugins only: code size) inst_name =
    I_lui | I_auipc | I_addi | I_slti | I_sltiu | I_xori | I_ori | I_andi
  | I_slli | I_srli | I_srai | I_lb | I_lh | I_lw | I_lbu | I_lhu
  | I_sb | I_sh | I_sw | I_add | I_sub | I_mul | I_mulh | I_mulhsu
  | I_mulhu | I_div | I_divu | I_rem | I_remu | I_sll | I_srl | I_sra
  | I_slt | I_sltu | I_xor | I_or | I_and | I_beq | I_bne | I_blt
  | I_bge | I_bltu | I_bgeu | I_jal | I_jalr | I_csrrw | I_csrrs | I_csrrc
  | I_csrrwi | I_csrrsi | I_csrrci | I_ecall | I_mret | I_ebreak | I_inv

definition instpat_table :: "(string \<times> inst_name \<times> inst_type) list" where
  "instpat_table =
    [(''??????? ????? ????? ??? ????? 01101 11'', I_lui, TYPE_U),
     (''??????? ????? ????? ??? ????? 00101 11'', I_auipc, TYPE_U),
     (''??????? ????? ????? 000 ????? 00100 11'', I_addi, TYPE_I),
     (''??????? ????? ????? 010 ????? 00100 11'', I_slti, TYPE_I),
     (''??????? ????? ????? 011 ????? 00100 11'', I_sltiu, TYPE_I),
     (''??????? ????? ????? 100 ????? 00100 11'', I_xori, TYPE_I),
     (''??????? ????? ????? 110 ????? 00100 11'', I_ori, TYPE_I),
     (''??????? ????? ????? 111 ????? 00100 11'', I_andi, TYPE_I),
     (''0000000 ????? ????? 001 ????? 00100 11'', I_slli, TYPE_I),
     (''0000000 ????? ????? 101 ????? 00100 11'', I_srli, TYPE_I),
     (''0100000 ????? ????? 101 ????? 00100 11'', I_srai, TYPE_I),
     (''??????? ????? ????? 000 ????? 00000 11'', I_lb, TYPE_I),
     (''??????? ????? ????? 001 ????? 00000 11'', I_lh, TYPE_I),
     (''??????? ????? ????? 010 ????? 00000 11'', I_lw, TYPE_I),
     (''??????? ????? ????? 100 ????? 00000 11'', I_lbu, TYPE_I),
     (''??????? ????? ????? 101 ????? 00000 11'', I_lhu, TYPE_I),
     (''??????? ????? ????? 000 ????? 01000 11'', I_sb, TYPE_S),
     (''??????? ????? ????? 001 ????? 01000 11'', I_sh, TYPE_S),
     (''??????? ????? ????? 010 ????? 01000 11'', I_sw, TYPE_S),
     (''0000000 ????? ????? 000 ????? 01100 11'', I_add, TYPE_R),
     (''0100000 ????? ????? 000 ????? 01100 11'', I_sub, TYPE_R),
     (''0000001 ????? ????? 000 ????? 01100 11'', I_mul, TYPE_R),
     (''0000001 ????? ????? 001 ????? 01100 11'', I_mulh, TYPE_R),
     (''0000001 ????? ????? 010 ????? 01100 11'', I_mulhsu, TYPE_R),
     (''0000001 ????? ????? 011 ????? 01100 11'', I_mulhu, TYPE_R),
     (''0000001 ????? ????? 100 ????? 01100 11'', I_div, TYPE_R),
     (''0000001 ????? ????? 101 ????? 01100 11'', I_divu, TYPE_R),
     (''0000001 ????? ????? 110 ????? 01100 11'', I_rem, TYPE_R),
     (''0000001 ????? ????? 111 ????? 01100 11'', I_remu, TYPE_R),
     (''0000000 ????? ????? 001 ????? 01100 11'', I_sll, TYPE_R),
     (''0000000 ????? ????? 101 ????? 01100 11'', I_srl, TYPE_R),
     (''0100000 ????? ????? 101 ????? 01100 11'', I_sra, TYPE_R),
     (''0000000 ????? ????? 010 ????? 01100 11'', I_slt, TYPE_R),
     (''0000000 ????? ????? 011 ????? 01100 11'', I_sltu, TYPE_R),
     (''0000000 ????? ????? 100 ????? 01100 11'', I_xor, TYPE_R),
     (''0000000 ????? ????? 110 ????? 01100 11'', I_or, TYPE_R),
     (''0000000 ????? ????? 111 ????? 01100 11'', I_and, TYPE_R),
     (''??????? ????? ????? 000 ????? 11000 11'', I_beq, TYPE_B),
     (''??????? ????? ????? 001 ????? 11000 11'', I_bne, TYPE_B),
     (''??????? ????? ????? 100 ????? 11000 11'', I_blt, TYPE_B),
     (''??????? ????? ????? 101 ????? 11000 11'', I_bge, TYPE_B),
     (''??????? ????? ????? 110 ????? 11000 11'', I_bltu, TYPE_B),
     (''??????? ????? ????? 111 ????? 11000 11'', I_bgeu, TYPE_B),
     (''??????? ????? ????? ????? ????? 11011 11'', I_jal, TYPE_J),
     (''??????? ????? ????? 000 ????? 11001 11'', I_jalr, TYPE_I),
     (''??????? ????? ????? 001 ????? 11100 11'', I_csrrw, TYPE_I),
     (''??????? ????? ????? 010 ????? 11100 11'', I_csrrs, TYPE_I),
     (''??????? ????? ????? 011 ????? 11100 11'', I_csrrc, TYPE_I),
     (''??????? ????? ????? 101 ????? 11100 11'', I_csrrwi, TYPE_I),
     (''??????? ????? ????? 110 ????? 11100 11'', I_csrrsi, TYPE_I),
     (''??????? ????? ????? 111 ????? 11100 11'', I_csrrci, TYPE_I),
     (''0000000 00000 00000 000 00000 11100 11'', I_ecall, TYPE_N),
     (''0011000 00010 00000 000 00000 11100 11'', I_mret, TYPE_N),
     (''0000000 00001 00000 000 00000 11100 11'', I_ebreak, TYPE_N),
     (''??????? ????? ????? ??? ????? ????? ??'', I_inv, TYPE_N)]"

text \<open>The first pattern that matches; the last one, \<^verbatim>\<open>inv\<close>, matches every word.\<close>

fun decode_match :: "(string \<times> inst_name \<times> inst_type) list \<Rightarrow> u32 \<Rightarrow> (inst_name \<times> inst_type) option res" where
  "decode_match [] inst = Inr None"
| "decode_match ((str, name, type) # tbl) inst =
     bindR (pattern_decode str) (\<lambda>kms.
       if instpat_matches inst kms then Inr (Some (name, type)) else decode_match tbl inst)"

section \<open>Execution\<close>

text \<open>C's signed division truncates towards zero; the two exceptional cases are excluded before it.\<close>

definition c_div :: "u32 \<Rightarrow> u32 \<Rightarrow> u32" where
  "c_div a b = word_of_int (sgn (sint a) * sgn (sint b) * (\<bar>sint a\<bar> div \<bar>sint b\<bar>))"

definition c_mod :: "u32 \<Rightarrow> u32 \<Rightarrow> u32" where
  "c_mod a b = word_of_int (sgn (sint a) * (\<bar>sint a\<bar> mod \<bar>sint b\<bar>))"

definition shamt :: "u32 \<Rightarrow> nat" where
  "shamt x = unat (BITS x 4 0)"

definition bool_word :: "bool \<Rightarrow> u32" where
  "bool_word b = (if b then 1 else 0)"

text \<open>The value an arithmetic instruction writes to \<^verbatim>\<open>R(rd)\<close>.\<close>

definition mulh_val :: "u32 \<Rightarrow> u32 \<Rightarrow> u32" where
  "mulh_val a b = ucast (signed_drop_bit 32 (scast a * scast b :: u64))"

definition mulhsu_val :: "u32 \<Rightarrow> u32 \<Rightarrow> u32" where
  "mulhsu_val a b = ucast (drop_bit 32 (scast a * ucast b :: u64))"

definition mulhu_val :: "u32 \<Rightarrow> u32 \<Rightarrow> u32" where
  "mulhu_val a b = ucast (drop_bit 32 (ucast a * ucast b :: u64))"

definition div_val :: "u32 \<Rightarrow> u32 \<Rightarrow> u32" where
  "div_val a b = (if b = 0 then -1 else if a = 0x80000000 \<and> b = -1 then a else c_div a b)"

definition divu_val :: "u32 \<Rightarrow> u32 \<Rightarrow> u32" where
  "divu_val a b = (if b = 0 then -1 else a div b)"

definition rem_val :: "u32 \<Rightarrow> u32 \<Rightarrow> u32" where
  "rem_val a b = (if b = 0 then a else if a = 0x80000000 \<and> b = -1 then 0 else c_mod a b)"

definition remu_val :: "u32 \<Rightarrow> u32 \<Rightarrow> u32" where
  "remu_val a b = (if b = 0 then a else a mod b)"

definition set_rd :: "config \<Rightarrow> nat \<Rightarrow> u32 \<Rightarrow> Decode \<Rightarrow> nemu \<Rightarrow> (Decode \<times> nemu) res" where
  "set_rd c rd v d s = bindR (R_set c rd v s) (\<lambda>s1. Inr (d, s1))"

definition exec_load :: "config \<Rightarrow> int \<Rightarrow> (u32 \<Rightarrow> u32) \<Rightarrow> nat \<Rightarrow> u32 \<Rightarrow> Decode \<Rightarrow> nemu \<Rightarrow> (Decode \<times> nemu) res" where
  "exec_load c len ext rd addr d s =
     (if vaddr_access_ok c s addr len
      then bindR (vaddr_read c addr len s) (\<lambda>(v, s1). set_rd c rd (ext v) d s1)
      else Inr (raise_sync_exception d 5 s))"

definition exec_store :: "config \<Rightarrow> int \<Rightarrow> u32 \<Rightarrow> u32 \<Rightarrow> Decode \<Rightarrow> nemu \<Rightarrow> (Decode \<times> nemu) res" where
  "exec_store c len addr data d s =
     (if vaddr_access_ok c s addr len
      then bindR (vaddr_write c addr len data s) (\<lambda>s1. Inr (d, s1))
      else Inr (raise_sync_exception d 7 s))"

definition branch :: "bool \<Rightarrow> u32 \<Rightarrow> Decode \<Rightarrow> nemu \<Rightarrow> (Decode \<times> nemu) res" where
  "branch taken imm d s = Inr (if taken then d\<lparr>dnpc := d_pc d + imm\<rparr> else d, s)"

text \<open>\<open>wr\<close> says whether the CSR is written, \<open>f t\<close> what is written over the old value \<open>t\<close>.\<close>

definition exec_csr :: "config \<Rightarrow> bool \<Rightarrow> (u32 \<Rightarrow> u32) \<Rightarrow> nat \<Rightarrow> Decode \<Rightarrow> nemu \<Rightarrow> (Decode \<times> nemu) res" where
  "exec_csr c wr f rd d s =
     (let csr = ucast (BITS (d_inst d) 31 20) in
      bindR (csr_read c csr s) (\<lambda>(t, s1).
      bindR (if wr then csr_write c csr (f t) s1 else Inr s1) (\<lambda>s2.
        set_rd c rd t d s2)))"

definition zimm :: "Decode \<Rightarrow> u64" where
  "zimm d = BITS (d_inst d) 19 15"

primrec exec_inst :: "config \<Rightarrow> inst_name \<Rightarrow> nat \<Rightarrow> u32 \<Rightarrow> u32 \<Rightarrow> u32 \<Rightarrow> Decode \<Rightarrow> nemu \<Rightarrow> (Decode \<times> nemu) res" where
  "exec_inst c I_lui rd src1 src2 imm d s = set_rd c rd imm d s"
| "exec_inst c I_auipc rd src1 src2 imm d s = set_rd c rd (d_pc d + imm) d s"
| "exec_inst c I_addi rd src1 src2 imm d s = set_rd c rd (src1 + imm) d s"
| "exec_inst c I_slti rd src1 src2 imm d s = set_rd c rd (bool_word (src1 <s imm)) d s"
| "exec_inst c I_sltiu rd src1 src2 imm d s = set_rd c rd (bool_word (src1 < imm)) d s"
| "exec_inst c I_xori rd src1 src2 imm d s = set_rd c rd (src1 XOR imm) d s"
| "exec_inst c I_ori rd src1 src2 imm d s = set_rd c rd (src1 OR imm) d s"
| "exec_inst c I_andi rd src1 src2 imm d s = set_rd c rd (src1 AND imm) d s"
| "exec_inst c I_slli rd src1 src2 imm d s = set_rd c rd (push_bit (shamt imm) src1) d s"
| "exec_inst c I_srli rd src1 src2 imm d s = set_rd c rd (drop_bit (shamt imm) src1) d s"
| "exec_inst c I_srai rd src1 src2 imm d s = set_rd c rd (signed_drop_bit (shamt imm) src1) d s"
| "exec_inst c I_lb rd src1 src2 imm d s = exec_load c 1 (\<lambda>v. ucast (SEXT (ucast v) 8)) rd (src1 + imm) d s"
| "exec_inst c I_lh rd src1 src2 imm d s = exec_load c 2 (\<lambda>v. ucast (SEXT (ucast v) 16)) rd (src1 + imm) d s"
| "exec_inst c I_lw rd src1 src2 imm d s = exec_load c 4 (\<lambda>v. v) rd (src1 + imm) d s"
| "exec_inst c I_lbu rd src1 src2 imm d s = exec_load c 1 (\<lambda>v. v) rd (src1 + imm) d s"
| "exec_inst c I_lhu rd src1 src2 imm d s = exec_load c 2 (\<lambda>v. v) rd (src1 + imm) d s"
| "exec_inst c I_sb rd src1 src2 imm d s = exec_store c 1 (src1 + imm) src2 d s"
| "exec_inst c I_sh rd src1 src2 imm d s = exec_store c 2 (src1 + imm) src2 d s"
| "exec_inst c I_sw rd src1 src2 imm d s = exec_store c 4 (src1 + imm) src2 d s"
| "exec_inst c I_add rd src1 src2 imm d s = set_rd c rd (src1 + src2) d s"
| "exec_inst c I_sub rd src1 src2 imm d s = set_rd c rd (src1 - src2) d s"
| "exec_inst c I_mul rd src1 src2 imm d s = set_rd c rd (src1 * src2) d s"
| "exec_inst c I_mulh rd src1 src2 imm d s = set_rd c rd (mulh_val src1 src2) d s"
| "exec_inst c I_mulhsu rd src1 src2 imm d s = set_rd c rd (mulhsu_val src1 src2) d s"
| "exec_inst c I_mulhu rd src1 src2 imm d s = set_rd c rd (mulhu_val src1 src2) d s"
| "exec_inst c I_div rd src1 src2 imm d s = set_rd c rd (div_val src1 src2) d s"
| "exec_inst c I_divu rd src1 src2 imm d s = set_rd c rd (divu_val src1 src2) d s"
| "exec_inst c I_rem rd src1 src2 imm d s = set_rd c rd (rem_val src1 src2) d s"
| "exec_inst c I_remu rd src1 src2 imm d s = set_rd c rd (remu_val src1 src2) d s"
| "exec_inst c I_sll rd src1 src2 imm d s = set_rd c rd (push_bit (shamt src2) src1) d s"
| "exec_inst c I_srl rd src1 src2 imm d s = set_rd c rd (drop_bit (shamt src2) src1) d s"
| "exec_inst c I_sra rd src1 src2 imm d s = set_rd c rd (signed_drop_bit (shamt src2) src1) d s"
| "exec_inst c I_slt rd src1 src2 imm d s = set_rd c rd (bool_word (src1 <s src2)) d s"
| "exec_inst c I_sltu rd src1 src2 imm d s = set_rd c rd (bool_word (src1 < src2)) d s"
| "exec_inst c I_xor rd src1 src2 imm d s = set_rd c rd (src1 XOR src2) d s"
| "exec_inst c I_or rd src1 src2 imm d s = set_rd c rd (src1 OR src2) d s"
| "exec_inst c I_and rd src1 src2 imm d s = set_rd c rd (src1 AND src2) d s"
| "exec_inst c I_beq rd src1 src2 imm d s = branch (src1 = src2) imm d s"
| "exec_inst c I_bne rd src1 src2 imm d s = branch (src1 \<noteq> src2) imm d s"
| "exec_inst c I_blt rd src1 src2 imm d s = branch (src1 <s src2) imm d s"
| "exec_inst c I_bge rd src1 src2 imm d s = branch (src2 \<le>s src1) imm d s"
| "exec_inst c I_bltu rd src1 src2 imm d s = branch (src1 < src2) imm d s"
| "exec_inst c I_bgeu rd src1 src2 imm d s = branch (src1 \<ge> src2) imm d s"
| "exec_inst c I_jal rd src1 src2 imm d s = set_rd c rd (snpc d) (d\<lparr>dnpc := d_pc d + imm\<rparr>) s"
| "exec_inst c I_jalr rd src1 src2 imm d s = set_rd c rd (snpc d) (d\<lparr>dnpc := (src1 + imm) AND NOT 1\<rparr>) s"
| "exec_inst c I_csrrw rd src1 src2 imm d s = exec_csr c True (\<lambda>t. src1) rd d s"
| "exec_inst c I_csrrs rd src1 src2 imm d s = exec_csr c (zimm d \<noteq> 0) (\<lambda>t. t OR src1) rd d s"
| "exec_inst c I_csrrc rd src1 src2 imm d s = exec_csr c (zimm d \<noteq> 0) (\<lambda>t. t AND NOT src1) rd d s"
| "exec_inst c I_csrrwi rd src1 src2 imm d s = exec_csr c True (\<lambda>t. ucast (zimm d)) rd d s"
| "exec_inst c I_csrrsi rd src1 src2 imm d s =
     exec_csr c (zimm d \<noteq> 0) (\<lambda>t. ucast (ucast t OR zimm d)) rd d s"
| "exec_inst c I_csrrci rd src1 src2 imm d s =
     exec_csr c (zimm d \<noteq> 0) (\<lambda>t. ucast (ucast t AND NOT (zimm d))) rd d s"
| "exec_inst c I_ecall rd src1 src2 imm d s =
     (case isa_raise_intr 11 (d_pc d) s of (target, s1) \<Rightarrow> Inr (d\<lparr>dnpc := target\<rparr>, s1))"
| "exec_inst c I_mret rd src1 src2 imm d s = Inr (d\<lparr>dnpc := mepc (cpu s)\<rparr>, s)"
| "exec_inst c I_ebreak rd src1 src2 imm d s =
     bindR (R_get c 10 s) (\<lambda>a0. Inr (d, set_nemu_state c NEMU_END (d_pc d) a0 s))"
| "exec_inst c I_inv rd src1 src2 imm d s = bindR (invalid_inst c (d_pc d) s) (\<lambda>s1. Inr (d, s1))"

definition decode_exec :: "config \<Rightarrow> Decode \<Rightarrow> nemu \<Rightarrow> (Decode \<times> nemu) res" where
  "decode_exec c d s =
     (let d0 = d\<lparr>dnpc := snpc d\<rparr> in
      bindR (decode_match instpat_table (d_inst d0)) (\<lambda>mo.
      bindR (case mo of None \<Rightarrow> Inr (d0, s)
             | Some (name, type) \<Rightarrow> bindR (decode_operand c type d0 s) (\<lambda>(rd, src1, src2, imm).
                 exec_inst c name rd src1 src2 imm d0 s)) (\<lambda>(d1, s1).
      bindR (R_set c 0 0 s1) (\<lambda>s2. Inr (d1, s2)))))"

definition isa_exec_once :: "config \<Rightarrow> Decode \<Rightarrow> nemu \<Rightarrow> (Decode \<times> nemu) res" where
  "isa_exec_once c d s =
     (if \<not> vaddr_access_ok c s (snpc d) 4 then
        (let d1 = d\<lparr>d_inst := 0, snpc := snpc d + 4, dnpc := snpc d + 4\<rparr>
         in Inr (raise_sync_exception d1 1 s))
      else bindR (inst_fetch c (snpc d) 4 s) (\<lambda>(inst, snpc', s1).
             decode_exec c (d\<lparr>d_inst := inst, snpc := snpc'\<rparr>) s1))"

section \<open>Initialisation\<close>

definition img :: "u32 list" where
  "img = [0x00000297, 0x00028823, 0x0102c503, 0x00100073, 0xdeadbeef]"

definition RESET_VECTOR :: "config \<Rightarrow> u32" where
  "RESET_VECTOR c = CONFIG_MBASE c + CONFIG_PC_RESET_OFFSET c"

definition restart :: "config \<Rightarrow> nemu \<Rightarrow> nemu" where
  "restart c s = s\<lparr>cpu := (cpu s)\<lparr>pc := RESET_VECTOR c, gpr := (gpr (cpu s))[0 := 0],
     mstatus := 0x00001800, mtvec := 0, mepc := 0, mcause := 0\<rparr>\<rparr>"

definition init_isa :: "config \<Rightarrow> nemu \<Rightarrow> nemu res" where
  "init_isa c s =
     bindR (paddr_memcpy_to_guest c (RESET_VECTOR c) (concat (map (le_split 4) img)) True s)
       (\<lambda>s1. Inr (restart c s1))"

end
