(* ===== verification/Riscv_Fields.thy ===== *)
theory Riscv_Fields
  imports Riscv32
begin

text \<open>
  The pattern strings of the instruction table, read as conditions on the opcode and function
  fields of an instruction word.
\<close>

section \<open>What a pattern says about the fields\<close>

definition rv_op :: "u32 \<Rightarrow> u32" where "rv_op w = take_bit 7 w"
definition rv_f3 :: "u32 \<Rightarrow> u32" where "rv_f3 w = take_bit 3 (drop_bit 12 w)"
definition rv_f7 :: "u32 \<Rightarrow> u32" where "rv_f7 w = drop_bit 25 w"

definition pat_width :: "string \<Rightarrow> nat" where
  "pat_width cs = length (filter (\<lambda>c. c \<noteq> CHR '' '') cs)"

lemma pat_width_simps [simp]:
  "pat_width [] = 0"
  "pat_width (c # cs) = (if c = CHR '' '' then pat_width cs else pat_width cs + 1)"
  by (simp_all add: pat_width_def)

lemma instpat_spec_Nil: "instpat_spec [] w"
  by (simp add: instpat_spec_def pattern_bits_def)

lemma instpat_spec_Cons:
  "instpat_spec (c # cs) w \<longleftrightarrow> instpat_spec cs w \<and>
     (c = CHR ''1'' \<longrightarrow> bit w (pat_width cs)) \<and> (c = CHR ''0'' \<longrightarrow> \<not> bit w (pat_width cs))"
proof (cases "c = CHR '' ''")
  case True
  then show ?thesis by (simp add: instpat_spec_def pattern_bits_def)
next
  case False
  then have "pattern_bits (c # cs) = pattern_bits cs @ [c]" by (simp add: pattern_bits_def)
  moreover have "length (pattern_bits cs) = pat_width cs" by (simp add: pattern_bits_def pat_width_def)
  ultimately show ?thesis
    by (auto simp: instpat_spec_def nth_append less_Suc_eq all_conj_distrib)
qed

lemma take_bit_eq_iff_bits: "take_bit n (w :: u32) = v \<longleftrightarrow> (\<forall>i < n. bit w i = bit v i) \<and> take_bit n v = v"
proof
  assume a: "(\<forall>i < n. bit w i = bit v i) \<and> take_bit n v = v"
  have "take_bit n w = take_bit n v"
  proof (rule bit_word_eqI)
    show "bit (take_bit n w) i = bit (take_bit n v) i" for i
      unfolding bit_take_bit_iff using a by blast
  qed
  then show "take_bit n w = v" using a by simp
next
  assume v: "take_bit n w = v"
  have "bit (take_bit n w) i = bit w i" if "i < n" for i using that by (simp add: bit_take_bit_iff)
  then show "(\<forall>i < n. bit w i = bit v i) \<and> take_bit n v = v" using v by auto
qed

lemma all_less_7: "(\<forall>i < (7::nat). P i) \<longleftrightarrow> P 0 \<and> P 1 \<and> P 2 \<and> P 3 \<and> P 4 \<and> P 5 \<and> P 6"
  by (simp add: numeral_eq_Suc All_less_Suc conj_commute conj_left_commute)

lemma all_less_3: "(\<forall>i < (3::nat). P i) \<longleftrightarrow> P 0 \<and> P 1 \<and> P 2"
  by (simp add: numeral_eq_Suc All_less_Suc conj_commute conj_left_commute)

lemma all_less_32: "(\<forall>i < (32::nat). P i) \<longleftrightarrow> P 0 \<and> P 1 \<and> P 2 \<and> P 3 \<and> P 4 \<and> P 5 \<and> P 6 \<and> P 7 \<and>
  P 8 \<and> P 9 \<and> P 10 \<and> P 11 \<and> P 12 \<and> P 13 \<and> P 14 \<and> P 15 \<and> P 16 \<and> P 17 \<and> P 18 \<and> P 19 \<and> P 20 \<and> P 21 \<and>
  P 22 \<and> P 23 \<and> P 24 \<and> P 25 \<and> P 26 \<and> P 27 \<and> P 28 \<and> P 29 \<and> P 30 \<and> P 31"
  by (simp add: numeral_eq_Suc All_less_Suc conj_commute conj_left_commute)

lemma rv_op_bits: "rv_op w = v \<longleftrightarrow> (bit w 0 = bit v 0 \<and> bit w 1 = bit v 1 \<and> bit w 2 = bit v 2 \<and>
    bit w 3 = bit v 3 \<and> bit w 4 = bit v 4 \<and> bit w 5 = bit v 5 \<and> bit w 6 = bit v 6) \<and> take_bit 7 v = v"
  unfolding rv_op_def by (subst take_bit_eq_iff_bits) (simp only: all_less_7)

lemma rv_f3_bits: "rv_f3 w = v \<longleftrightarrow> (bit w 12 = bit v 0 \<and> bit w 13 = bit v 1 \<and> bit w 14 = bit v 2) \<and>
    take_bit 3 v = v"
  unfolding rv_f3_def by (subst take_bit_eq_iff_bits) (simp add: all_less_3 bit_drop_bit_eq)

lemma drop_25_eq: "drop_bit 25 (w :: u32) = take_bit 7 (drop_bit 25 w)"
proof (rule bit_word_eqI)
  fix i assume "i < LENGTH(32)"
  have "\<not> bit w (25 + i)" if "7 \<le> i" using bit_imp_le_length [of w "25 + i"] that by auto
  then show "bit (drop_bit 25 w) i = bit (take_bit 7 (drop_bit 25 w)) i"
    by (cases "i < 7") (simp_all add: bit_drop_bit_eq bit_take_bit_iff)
qed

lemma rv_f7_bits: "rv_f7 w = v \<longleftrightarrow> (bit w 25 = bit v 0 \<and> bit w 26 = bit v 1 \<and> bit w 27 = bit v 2 \<and>
    bit w 28 = bit v 3 \<and> bit w 29 = bit v 4 \<and> bit w 30 = bit v 5 \<and> bit w 31 = bit v 6) \<and> take_bit 7 v = v"
  unfolding rv_f7_def by (subst drop_25_eq, subst take_bit_eq_iff_bits) (simp add: all_less_7 bit_drop_bit_eq)

lemma word_eq_bits: "(w :: u32) = v \<longleftrightarrow> (\<forall>i < 32. bit w i = bit v i)"
  by (auto intro: bit_word_eqI)

lemmas pattern_fields = numeral_2_eq_2 [symmetric] instpat_spec_Cons instpat_spec_Nil rv_op_bits rv_f3_bits rv_f7_bits

lemma instpat_fields_1:
  "instpat_spec ''??????? ????? ????? ??? ????? 01101 11'' w \<longleftrightarrow> rv_op w = 0x37"
  "instpat_spec ''??????? ????? ????? ??? ????? 00101 11'' w \<longleftrightarrow> rv_op w = 0x17"
  "instpat_spec ''??????? ????? ????? 000 ????? 00100 11'' w \<longleftrightarrow> rv_op w = 0x13 \<and> rv_f3 w = 0"
  "instpat_spec ''??????? ????? ????? 010 ????? 00100 11'' w \<longleftrightarrow> rv_op w = 0x13 \<and> rv_f3 w = 2"
  "instpat_spec ''??????? ????? ????? 011 ????? 00100 11'' w \<longleftrightarrow> rv_op w = 0x13 \<and> rv_f3 w = 3"
  "instpat_spec ''??????? ????? ????? 100 ????? 00100 11'' w \<longleftrightarrow> rv_op w = 0x13 \<and> rv_f3 w = 4"
  "instpat_spec ''??????? ????? ????? 110 ????? 00100 11'' w \<longleftrightarrow> rv_op w = 0x13 \<and> rv_f3 w = 6"
  "instpat_spec ''??????? ????? ????? 111 ????? 00100 11'' w \<longleftrightarrow> rv_op w = 0x13 \<and> rv_f3 w = 7"
  "instpat_spec ''0000000 ????? ????? 001 ????? 00100 11'' w \<longleftrightarrow> rv_op w = 0x13 \<and> rv_f3 w = 1 \<and> rv_f7 w = 0x0"
  "instpat_spec ''0000000 ????? ????? 101 ????? 00100 11'' w \<longleftrightarrow> rv_op w = 0x13 \<and> rv_f3 w = 5 \<and> rv_f7 w = 0x0"
  "instpat_spec ''0100000 ????? ????? 101 ????? 00100 11'' w \<longleftrightarrow> rv_op w = 0x13 \<and> rv_f3 w = 5 \<and> rv_f7 w = 0x20"
  by (simp_all add: pattern_fields) (auto)?

lemma instpat_fields_2:
  "instpat_spec ''??????? ????? ????? 000 ????? 00000 11'' w \<longleftrightarrow> rv_op w = 0x3 \<and> rv_f3 w = 0"
  "instpat_spec ''??????? ????? ????? 001 ????? 00000 11'' w \<longleftrightarrow> rv_op w = 0x3 \<and> rv_f3 w = 1"
  "instpat_spec ''??????? ????? ????? 010 ????? 00000 11'' w \<longleftrightarrow> rv_op w = 0x3 \<and> rv_f3 w = 2"
  "instpat_spec ''??????? ????? ????? 100 ????? 00000 11'' w \<longleftrightarrow> rv_op w = 0x3 \<and> rv_f3 w = 4"
  "instpat_spec ''??????? ????? ????? 101 ????? 00000 11'' w \<longleftrightarrow> rv_op w = 0x3 \<and> rv_f3 w = 5"
  "instpat_spec ''??????? ????? ????? 000 ????? 01000 11'' w \<longleftrightarrow> rv_op w = 0x23 \<and> rv_f3 w = 0"
  "instpat_spec ''??????? ????? ????? 001 ????? 01000 11'' w \<longleftrightarrow> rv_op w = 0x23 \<and> rv_f3 w = 1"
  "instpat_spec ''??????? ????? ????? 010 ????? 01000 11'' w \<longleftrightarrow> rv_op w = 0x23 \<and> rv_f3 w = 2"
  "instpat_spec ''0000000 ????? ????? 000 ????? 01100 11'' w \<longleftrightarrow> rv_op w = 0x33 \<and> rv_f3 w = 0 \<and> rv_f7 w = 0x0"
  "instpat_spec ''0100000 ????? ????? 000 ????? 01100 11'' w \<longleftrightarrow> rv_op w = 0x33 \<and> rv_f3 w = 0 \<and> rv_f7 w = 0x20"
  "instpat_spec ''0000001 ????? ????? 000 ????? 01100 11'' w \<longleftrightarrow> rv_op w = 0x33 \<and> rv_f3 w = 0 \<and> rv_f7 w = 0x1"
  by (simp_all add: pattern_fields) (auto)?

lemma instpat_fields_3:
  "instpat_spec ''0000001 ????? ????? 001 ????? 01100 11'' w \<longleftrightarrow> rv_op w = 0x33 \<and> rv_f3 w = 1 \<and> rv_f7 w = 0x1"
  "instpat_spec ''0000001 ????? ????? 010 ????? 01100 11'' w \<longleftrightarrow> rv_op w = 0x33 \<and> rv_f3 w = 2 \<and> rv_f7 w = 0x1"
  "instpat_spec ''0000001 ????? ????? 011 ????? 01100 11'' w \<longleftrightarrow> rv_op w = 0x33 \<and> rv_f3 w = 3 \<and> rv_f7 w = 0x1"
  "instpat_spec ''0000001 ????? ????? 100 ????? 01100 11'' w \<longleftrightarrow> rv_op w = 0x33 \<and> rv_f3 w = 4 \<and> rv_f7 w = 0x1"
  "instpat_spec ''0000001 ????? ????? 101 ????? 01100 11'' w \<longleftrightarrow> rv_op w = 0x33 \<and> rv_f3 w = 5 \<and> rv_f7 w = 0x1"
  "instpat_spec ''0000001 ????? ????? 110 ????? 01100 11'' w \<longleftrightarrow> rv_op w = 0x33 \<and> rv_f3 w = 6 \<and> rv_f7 w = 0x1"
  "instpat_spec ''0000001 ????? ????? 111 ????? 01100 11'' w \<longleftrightarrow> rv_op w = 0x33 \<and> rv_f3 w = 7 \<and> rv_f7 w = 0x1"
  "instpat_spec ''0000000 ????? ????? 001 ????? 01100 11'' w \<longleftrightarrow> rv_op w = 0x33 \<and> rv_f3 w = 1 \<and> rv_f7 w = 0x0"
  "instpat_spec ''0000000 ????? ????? 101 ????? 01100 11'' w \<longleftrightarrow> rv_op w = 0x33 \<and> rv_f3 w = 5 \<and> rv_f7 w = 0x0"
  "instpat_spec ''0100000 ????? ????? 101 ????? 01100 11'' w \<longleftrightarrow> rv_op w = 0x33 \<and> rv_f3 w = 5 \<and> rv_f7 w = 0x20"
  "instpat_spec ''0000000 ????? ????? 010 ????? 01100 11'' w \<longleftrightarrow> rv_op w = 0x33 \<and> rv_f3 w = 2 \<and> rv_f7 w = 0x0"
  by (simp_all add: pattern_fields) (auto)?

lemma instpat_fields_4:
  "instpat_spec ''0000000 ????? ????? 011 ????? 01100 11'' w \<longleftrightarrow> rv_op w = 0x33 \<and> rv_f3 w = 3 \<and> rv_f7 w = 0x0"
  "instpat_spec ''0000000 ????? ????? 100 ????? 01100 11'' w \<longleftrightarrow> rv_op w = 0x33 \<and> rv_f3 w = 4 \<and> rv_f7 w = 0x0"
  "instpat_spec ''0000000 ????? ????? 110 ????? 01100 11'' w \<longleftrightarrow> rv_op w = 0x33 \<and> rv_f3 w = 6 \<and> rv_f7 w = 0x0"
  "instpat_spec ''0000000 ????? ????? 111 ????? 01100 11'' w \<longleftrightarrow> rv_op w = 0x33 \<and> rv_f3 w = 7 \<and> rv_f7 w = 0x0"
  "instpat_spec ''??????? ????? ????? 000 ????? 11000 11'' w \<longleftrightarrow> rv_op w = 0x63 \<and> rv_f3 w = 0"
  "instpat_spec ''??????? ????? ????? 001 ????? 11000 11'' w \<longleftrightarrow> rv_op w = 0x63 \<and> rv_f3 w = 1"
  "instpat_spec ''??????? ????? ????? 100 ????? 11000 11'' w \<longleftrightarrow> rv_op w = 0x63 \<and> rv_f3 w = 4"
  "instpat_spec ''??????? ????? ????? 101 ????? 11000 11'' w \<longleftrightarrow> rv_op w = 0x63 \<and> rv_f3 w = 5"
  "instpat_spec ''??????? ????? ????? 110 ????? 11000 11'' w \<longleftrightarrow> rv_op w = 0x63 \<and> rv_f3 w = 6"
  "instpat_spec ''??????? ????? ????? 111 ????? 11000 11'' w \<longleftrightarrow> rv_op w = 0x63 \<and> rv_f3 w = 7"
  "instpat_spec ''??????? ????? ????? ????? ????? 11011 11'' w \<longleftrightarrow> rv_op w = 0x6f"
  by (simp_all add: pattern_fields) (auto)?

lemma instpat_fields_5:
  "instpat_spec ''??????? ????? ????? 000 ????? 11001 11'' w \<longleftrightarrow> rv_op w = 0x67 \<and> rv_f3 w = 0"
  "instpat_spec ''??????? ????? ????? 001 ????? 11100 11'' w \<longleftrightarrow> rv_op w = 0x73 \<and> rv_f3 w = 1"
  "instpat_spec ''??????? ????? ????? 010 ????? 11100 11'' w \<longleftrightarrow> rv_op w = 0x73 \<and> rv_f3 w = 2"
  "instpat_spec ''??????? ????? ????? 011 ????? 11100 11'' w \<longleftrightarrow> rv_op w = 0x73 \<and> rv_f3 w = 3"
  "instpat_spec ''??????? ????? ????? 101 ????? 11100 11'' w \<longleftrightarrow> rv_op w = 0x73 \<and> rv_f3 w = 5"
  "instpat_spec ''??????? ????? ????? 110 ????? 11100 11'' w \<longleftrightarrow> rv_op w = 0x73 \<and> rv_f3 w = 6"
  "instpat_spec ''??????? ????? ????? 111 ????? 11100 11'' w \<longleftrightarrow> rv_op w = 0x73 \<and> rv_f3 w = 7"
  "instpat_spec ''??????? ????? ????? ??? ????? ????? ??'' w \<longleftrightarrow> True"
  by (simp_all add: pattern_fields) (auto)?

lemmas instpat_fields = instpat_fields_1 instpat_fields_2 instpat_fields_3 instpat_fields_4 instpat_fields_5

lemma instpat_words:
  "instpat_spec ''0000000 00000 00000 000 00000 11100 11'' w \<longleftrightarrow> w = 0x00000073"
  "instpat_spec ''0011000 00010 00000 000 00000 11100 11'' w \<longleftrightarrow> w = 0x30200073"
  "instpat_spec ''0000000 00001 00000 000 00000 11100 11'' w \<longleftrightarrow> w = 0x00100073"
  by (subst word_eq_bits, (auto simp: pattern_fields all_less_32) [1])+

end
