(* ===== verification/Riscv_Decode.thy ===== *)
theory Riscv_Decode
  imports Riscv_Fields
begin

text \<open>
  The instruction table against the RISC-V manual: \<open>rv_manual\<close> decodes RV32IM with Zicsr, Zifencei and the
  machine-mode instructions by opcode and function fields. The ordered pattern search of \<open>decode_exec\<close>
  computes \<open>rv_decode\<close>, which is the manual's decoder except that the table has no pattern for FENCE, FENCE.I and
  WFI: they are invalid instructions. The immediates of the five formats are the inverse of the encodings.
\<close>

section \<open>The decoder of the manual\<close>

text \<open>The instructions of the manual: those that have a pattern in the table, and three that have none.\<close>

datatype rv_inst = Rv inst_name | Rv_fence | Rv_fence_i | Rv_wfi | Rv_illegal

definition rv_manual :: "u32 \<Rightarrow> rv_inst" where
  "rv_manual w =
     (let op = rv_op w; f3 = rv_f3 w; f7 = rv_f7 w in
      if op = 0x37 then Rv I_lui
      else if op = 0x17 then Rv I_auipc
      else if op = 0x6f then Rv I_jal
      else if op = 0x67 then (if f3 = 0 then Rv I_jalr else Rv_illegal)
      else if op = 0x63 then
        (if f3 = 0 then Rv I_beq else if f3 = 1 then Rv I_bne else if f3 = 4 then Rv I_blt
         else if f3 = 5 then Rv I_bge else if f3 = 6 then Rv I_bltu else if f3 = 7 then Rv I_bgeu else Rv_illegal)
      else if op = 0x03 then
        (if f3 = 0 then Rv I_lb else if f3 = 1 then Rv I_lh else if f3 = 2 then Rv I_lw
         else if f3 = 4 then Rv I_lbu else if f3 = 5 then Rv I_lhu else Rv_illegal)
      else if op = 0x23 then
        (if f3 = 0 then Rv I_sb else if f3 = 1 then Rv I_sh else if f3 = 2 then Rv I_sw else Rv_illegal)
      else if op = 0x13 then
        (if f3 = 0 then Rv I_addi else if f3 = 2 then Rv I_slti else if f3 = 3 then Rv I_sltiu
         else if f3 = 4 then Rv I_xori else if f3 = 6 then Rv I_ori else if f3 = 7 then Rv I_andi
         else if f3 = 1 then (if f7 = 0 then Rv I_slli else Rv_illegal)
         else if f7 = 0 then Rv I_srli else if f7 = 0x20 then Rv I_srai else Rv_illegal)
      else if op = 0x33 then
        (if f7 = 0 then
           (if f3 = 0 then Rv I_add else if f3 = 1 then Rv I_sll else if f3 = 2 then Rv I_slt
            else if f3 = 3 then Rv I_sltu else if f3 = 4 then Rv I_xor else if f3 = 5 then Rv I_srl
            else if f3 = 6 then Rv I_or else Rv I_and)
         else if f7 = 1 then
           (if f3 = 0 then Rv I_mul else if f3 = 1 then Rv I_mulh else if f3 = 2 then Rv I_mulhsu
            else if f3 = 3 then Rv I_mulhu else if f3 = 4 then Rv I_div else if f3 = 5 then Rv I_divu
            else if f3 = 6 then Rv I_rem else Rv I_remu)
         else if f7 = 0x20 then (if f3 = 0 then Rv I_sub else if f3 = 5 then Rv I_sra else Rv_illegal)
         else Rv_illegal)
      else if op = 0x0f then (if f3 = 0 then Rv_fence else if f3 = 1 then Rv_fence_i else Rv_illegal)
      else if op = 0x73 then
        (if f3 = 1 then Rv I_csrrw else if f3 = 2 then Rv I_csrrs else if f3 = 3 then Rv I_csrrc
         else if f3 = 5 then Rv I_csrrwi else if f3 = 6 then Rv I_csrrsi else if f3 = 7 then Rv I_csrrci
         else if w = 0x00000073 then Rv I_ecall else if w = 0x30200073 then Rv I_mret
         else if w = 0x00100073 then Rv I_ebreak
         else if w = 0x10500073 then Rv_wfi else Rv_illegal)
      else Rv_illegal)"

primrec implemented :: "rv_inst \<Rightarrow> inst_name" where
  "implemented (Rv n) = n"
| "implemented Rv_fence = I_inv"
| "implemented Rv_fence_i = I_inv"
| "implemented Rv_wfi = I_inv"
| "implemented Rv_illegal = I_inv"

definition rv_decode :: "u32 \<Rightarrow> inst_name" where
  "rv_decode w = implemented (rv_manual w)"

definition rv_format :: "inst_name \<Rightarrow> inst_type" where
  "rv_format n =
     (if n \<in> {I_lui, I_auipc} then TYPE_U
      else if n = I_jal then TYPE_J
      else if n \<in> {I_beq, I_bne, I_blt, I_bge, I_bltu, I_bgeu} then TYPE_B
      else if n \<in> {I_sb, I_sh, I_sw} then TYPE_S
      else if n \<in> {I_add, I_sub, I_mul, I_mulh, I_mulhsu, I_mulhu, I_div, I_divu, I_rem, I_remu,
                     I_sll, I_srl, I_sra, I_slt, I_sltu, I_xor, I_or, I_and} then TYPE_R
      else if n \<in> {I_ecall, I_mret, I_ebreak, I_inv} then TYPE_N
      else TYPE_I)"

lemma decode_match_find:
  assumes "\<forall>(str, _) \<in> set tbl. pattern_valid str"
  shows "decode_match tbl w = Inr (map_option snd (find (\<lambda>(str, _). instpat_spec str w) tbl))"
  using assms
proof (induction tbl)
  case Nil
  then show ?case by simp
next
  case (Cons e tbl)
  obtain str n t where e: "e = (str, n, t)" by (cases e)
  obtain kms where "pattern_decode str = Inr kms" "instpat_matches w kms \<longleftrightarrow> instpat_spec str w"
    using pattern_decode_matches_spec [of str] Cons.prems by (auto simp: e)
  then show ?case using Cons by (simp add: e)
qed

lemma instpat_table_valid: "\<forall>(str, _) \<in> set instpat_table. pattern_valid str"
  by (simp add: instpat_table_def pattern_valid_def)

lemma rv_f3_cases: "rv_f3 w \<in> {0, 1, 2, 3, 4, 5, 6, 7}"
proof -
  have "unat (rv_f3 w) < 8"
    using take_bit_nat_less_exp [of 3 "unat (drop_bit 12 w)"] by (simp add: rv_f3_def unsigned_take_bit_eq)
  then have "unat (rv_f3 w) \<in> {0, 1, 2, 3, 4, 5, 6, 7}" by auto
  then have "word_of_nat (unat (rv_f3 w)) \<in> {0, 1, 2, 3, 4, 5, 6, 7 :: u32}"
    by (elim insertE emptyE) (simp_all only: of_nat_numeral of_nat_0 of_nat_1, simp_all)
  then show ?thesis by simp
qed

lemma find_if: "map_option snd (find P (x # xs)) = (if P x then Some (snd x) else map_option snd (find P xs))"
  by simp

lemma op_cases:
  obtains "rv_op w = 0x37" | "rv_op w = 0x17" | "rv_op w = 0x6f" | "rv_op w = 0x67" | "rv_op w = 0x63"
    | "rv_op w = 0x03" | "rv_op w = 0x23" | "rv_op w = 0x13" | "rv_op w = 0x33" | "rv_op w = 0x73"
    | "rv_op w \<noteq> 0x37" "rv_op w \<noteq> 0x17" "rv_op w \<noteq> 0x6f" "rv_op w \<noteq> 0x67" "rv_op w \<noteq> 0x63"
      "rv_op w \<noteq> 0x03" "rv_op w \<noteq> 0x23" "rv_op w \<noteq> 0x13" "rv_op w \<noteq> 0x33" "rv_op w \<noteq> 0x73"
  by blast

lemma f3_cases:
  obtains "rv_f3 w = 0" | "rv_f3 w = 1" | "rv_f3 w = 2" | "rv_f3 w = 3" | "rv_f3 w = 4" | "rv_f3 w = 5"
    | "rv_f3 w = 6" | "rv_f3 w = 7"
  using rv_f3_cases [of w] by blast

lemmas table_search = instpat_table_def find_if prod.case snd_conv instpat_fields instpat_words if_True
   rv_decode_def rv_manual_def Let_def if_distrib [of implemented] implemented.simps if_cancel

lemma decode_word:
  assumes "w \<notin> {0x73, 0x30200073, 0x00100073}"
  shows "map_option snd (find (\<lambda>(str, _). instpat_spec str w) instpat_table) =
    Some (rv_decode w, rv_format (rv_decode w))"
  unfolding table_search
  by (rule op_cases [of w]; rule f3_cases [of w]; use assms in \<open>simp add: rv_format_def\<close>)

lemma decode_system_words:
  "w \<in> {0x73, 0x30200073, 0x00100073} \<Longrightarrow>
     map_option snd (find (\<lambda>(str, _). instpat_spec str w) instpat_table) =
       Some (rv_decode w, rv_format (rv_decode w))"
  unfolding table_search by (elim insertE emptyE; simp add: rv_op_def rv_f3_def rv_format_def)

lemma decode_match_rv_decode:
  "decode_match instpat_table w = Inr (Some (rv_decode w, rv_format (rv_decode w)))"
  using decode_word [of w] decode_system_words [of w]
  unfolding decode_match_find [OF instpat_table_valid] by blast

lemma rv_manual_not_inv: "rv_manual w \<noteq> Rv I_inv"
  unfolding rv_manual_def Let_def if_distrib [of "\<lambda>x. x = Rv I_inv"] by (simp cong del: if_weak_cong split del: if_split)

lemma decode_match_rv_manual:
  "decode_match instpat_table w = Inr (Some (case rv_manual w of Rv n \<Rightarrow> (n, rv_format n) | _ \<Rightarrow> (I_inv, TYPE_N)))"
  by (simp add: decode_match_rv_decode rv_decode_def rv_format_def split: rv_inst.split)

section \<open>Immediates\<close>

text \<open>The encodings of the branch, jump and store offsets, the other fields left 0.\<close>

definition encI :: "u32 \<Rightarrow> u32" where
  "encI k = push_bit 20 k"

definition encU :: "u32 \<Rightarrow> u32" where
  "encU k = push_bit 12 (drop_bit 12 k)"

definition encS :: "u32 \<Rightarrow> u32" where
  "encS k = push_bit 25 (drop_bit 5 k) OR push_bit 7 (take_bit 5 k)"

definition encB :: "u32 \<Rightarrow> u32" where
  "encB k = push_bit 31 (drop_bit 12 k) OR push_bit 25 (take_bit 6 (drop_bit 5 k)) OR
     push_bit 8 (take_bit 4 (drop_bit 1 k)) OR push_bit 7 (take_bit 1 (drop_bit 11 k))"

definition encJ :: "u32 \<Rightarrow> u32" where
  "encJ k = push_bit 31 (drop_bit 20 k) OR push_bit 21 (take_bit 10 (drop_bit 1 k)) OR
     push_bit 20 (take_bit 1 (drop_bit 11 k)) OR push_bit 12 (take_bit 8 (drop_bit 12 k))"

text \<open>\<open>fits n k\<close>: the offset \<open>k\<close> is a signed number of \<open>n\<close> bits.\<close>

definition fits :: "nat \<Rightarrow> u32 \<Rightarrow> bool" where
  "fits n k \<longleftrightarrow> signed_take_bit (n - 1) k = k"

lemma fits_bit: "fits n k \<Longrightarrow> n - 1 \<le> i \<Longrightarrow> i < 32 \<Longrightarrow> bit k i = bit k (n - 1)"
proof -
  assume a: "fits n k" "n - 1 \<le> i" "i < 32"
  have "bit (signed_take_bit (n - 1) k) i = bit k (n - 1)"
    using a(2,3) by (simp add: bit_signed_take_bit_iff min_def)
  then show ?thesis using a(1) by (simp add: fits_def)
qed

lemma bit_immI: "i < 32 \<Longrightarrow> bit (immI w) i = bit w (20 + min i 11)"
  by (auto simp: immI_def min_def)

lemma bit_immU: "i < 32 \<Longrightarrow> bit (immU w) i \<longleftrightarrow> 12 \<le> i \<and> bit w i"
  by (auto simp: immU_def bit_simps min_def)

lemma bit_immS: "i < 32 \<Longrightarrow> bit (immS w) i = (if i < 5 then bit w (7 + i) else bit w (25 + min (i - 5) 6))"
  by (auto simp: immS_def bit_simps min_def)

lemma bit_immB: "i < 32 \<Longrightarrow> bit (immB w) i =
    (if i = 0 then False else if i < 5 then bit w (i + 7) else if i < 11 then bit w (i + 20)
     else if i = 11 then bit w 7 else bit w 31)"
  by (auto simp: immB_def bit_simps min_def bit_double_iff mult.commute [of _ 2] add.commute)

lemma bit_immJ: "i < 32 \<Longrightarrow> bit (immJ w) i =
    (if i = 0 then False else if i < 11 then bit w (i + 20) else if i = 11 then bit w 20
     else if i < 20 then bit w i else bit w 31)"
  by (auto simp: immJ_def bit_simps min_def bit_double_iff mult.commute [of _ 2] add.commute)

text \<open>The other fields \<open>r\<close> of the word may be anything outside the bits of the immediate.\<close>

lemma immI_encI:
  assumes "fits 12 k" and "drop_bit 20 r = 0"
  shows "immI (encI k OR r) = k"
proof (rule bit_word_eqI)
  fix i assume i: "i < LENGTH(32)"
  have r: "\<not> bit r (20 + j)" for j using arg_cong [OF assms(2), of "\<lambda>x. bit x j"] by (simp add: bit_simps)
  show "bit (immI (encI k OR r)) i = bit k i"
    using i r [of "min i 11"] fits_bit [OF assms(1), of i]
    by (auto simp: bit_immI encI_def bit_simps min_def)
qed

lemma immU_encU:
  assumes "take_bit 12 k = 0" and "drop_bit 12 r = 0"
  shows "immU (encU k OR r) = k"
proof (rule bit_word_eqI)
  fix i assume i: "i < LENGTH(32)"
  have r: "\<not> bit r (12 + j)" for j using arg_cong [OF assms(2), of "\<lambda>x. bit x j"] by (simp add: bit_simps)
  have k: "i < 12 \<Longrightarrow> \<not> bit k i" using arg_cong [OF assms(1), of "\<lambda>x. bit x i"] by (simp add: bit_simps)
  show "bit (immU (encU k OR r)) i = bit k i"
    using i r [of "i - 12"] k by (cases "i < 12") (simp_all add: bit_immU encU_def bit_simps)
qed

lemma and_zero_bit: "(r :: u32) AND m = 0 \<Longrightarrow> bit m i \<Longrightarrow> \<not> bit r i"
  using bit_and_iff [of r m i] by simp

lemma bit_ranges:
  "bit (0xfe000f80 :: u32) i \<longleftrightarrow> 7 \<le> i \<and> i < 12 \<or> 25 \<le> i \<and> i < 32"
  "bit (0xfffff000 :: u32) i \<longleftrightarrow> 12 \<le> i \<and> i < 32"
proof -
  have B: "(0xfe000f80 :: u32) = push_bit 7 (mask 5) OR push_bit 25 (mask 7)" by (simp add: mask_eq_exp_minus_1)
  show "bit (0xfe000f80 :: u32) i \<longleftrightarrow> 7 \<le> i \<and> i < 12 \<or> 25 \<le> i \<and> i < 32"
    unfolding B by (auto simp: bit_simps)
  have J: "(0xfffff000 :: u32) = push_bit 12 (mask 20)" by (simp add: mask_eq_exp_minus_1)
  show "bit (0xfffff000 :: u32) i \<longleftrightarrow> 12 \<le> i \<and> i < 32" unfolding J by (auto simp: bit_simps)
qed

lemma immS_encS:
  assumes "fits 12 k" and "r AND 0xfe000f80 = 0"
  shows "immS (encS k OR r) = k"
proof (rule bit_word_eqI)
  fix i assume i: "i < LENGTH(32)"
  have r: "\<not> bit r j" if "7 \<le> j \<and> j < 12 \<or> 25 \<le> j \<and> j < 32" for j
    using and_zero_bit [OF assms(2), of j] that unfolding bit_ranges by blast
  have f: "11 \<le> i \<Longrightarrow> bit k i = bit k 11" using fits_bit [OF assms(1), of i] i by simp
  show "bit (immS (encS k OR r)) i = bit k i"
    using i r [of "7 + i"] r [of "25 + min (i - 5) 6"] f
    by (auto simp: bit_immS encS_def bit_simps min_def)
qed

lemma immB_encB:
  assumes "fits 13 k" and "\<not> bit k 0" and "r AND 0xfe000f80 = 0"
  shows "immB (encB k OR r) = k"
proof (rule bit_word_eqI)
  fix i assume i: "i < LENGTH(32)"
  have r: "\<not> bit r j" if "7 \<le> j \<and> j < 12 \<or> 25 \<le> j \<and> j < 32" for j
    using and_zero_bit [OF assms(3), of j] that unfolding bit_ranges by blast
  have f: "12 \<le> i \<Longrightarrow> bit k i = bit k 12" using fits_bit [OF assms(1), of i] i by simp
  show "bit (immB (encB k OR r)) i = bit k i"
    using i r [of "i + 7"] r [of "i + 20"] r [of 31] r [of 7] f assms(2)
    by (auto simp: bit_immB encB_def bit_simps bit_iff_odd_drop_bit [symmetric])
qed

lemma immJ_encJ:
  assumes "fits 21 k" and "\<not> bit k 0" and "r AND 0xfffff000 = 0"
  shows "immJ (encJ k OR r) = k"
proof (rule bit_word_eqI)
  fix i assume i: "i < LENGTH(32)"
  have r: "\<not> bit r j" if "12 \<le> j" "j < 32" for j
    using and_zero_bit [OF assms(3), of j] that unfolding bit_ranges by blast
  have f: "20 \<le> i \<Longrightarrow> bit k i = bit k 20" using fits_bit [OF assms(1), of i] i by simp
  show "bit (immJ (encJ k OR r)) i = bit k i"
    using i r [of i] r [of "i + 20"] r [of 31] r [of 20] f assms(2)
    by (auto simp: bit_immJ encJ_def bit_simps bit_iff_odd_drop_bit [symmetric])
qed

end
