(* ===== verification/Riscv_Exec.thy ===== *)
theory Riscv_Exec
  imports Riscv_Decode
begin

text \<open>
  What executing an instruction does: the arithmetic of the M extension against the integers, the
  part of the machine an instruction leaves alone, the invariants of the register file, and the
  effect of traps.
\<close>

section \<open>Arithmetic\<close>

text \<open>Signed division as the manual defines it, the overflow case included.\<close>

lemma c_div_sdiv: "c_div a b = word_of_int (sint a sdiv sint b)"
  by (simp add: c_div_def sdiv_int_eq)

lemma c_mod_smod: "c_mod a b = word_of_int (sint a smod sint b)"
  by (simp add: c_mod_def signed_modulo_int_def)

lemma div_val_spec: "div_val a b = (if b = 0 then -1 else word_of_int (sint a sdiv sint b))"
proof -
  have "word_of_int (sint (0x80000000 :: u32) sdiv sint (-1 :: u32)) = (0x80000000 :: u32)"
    by (simp add: sdiv_int_eq)
  then show ?thesis by (simp add: div_val_def c_div_sdiv)
qed

lemma rem_val_spec: "rem_val a b = (if b = 0 then a else word_of_int (sint a smod sint b))"
proof -
  have "word_of_int (sint (0x80000000 :: u32) smod sint (-1 :: u32)) = (0 :: u32)"
    by (simp add: sdiv_int_eq smod_int_eq)
  then show ?thesis by (simp add: rem_val_def c_mod_smod)
qed

lemma div_rem_identity: "div_val a b * b + rem_val a b = a"
proof (cases "b = 0")
  case True
  then show ?thesis by (simp add: rem_val_def)
next
  case False
  have "div_val a b * b + rem_val a b =
      word_of_int ((sint a sdiv sint b) * sint b + sint a smod sint b)"
    using False by (simp add: div_val_spec rem_val_spec)
  also have "\<dots> = a" by (simp add: smod_int_eq)
  finally show ?thesis .
qed

lemma divu_remu_identity: "divu_val a b * b + remu_val a b = a"
  by (simp add: divu_val_def remu_val_def word_mod_div_equality)

text \<open>The high half of a 64-bit product, for the three combinations of signs.\<close>

lemma div_drop_32: "(k :: int) div 2 ^ 32 = drop_bit 32 k"
  by (simp add: drop_bit_eq_div)

lemma high_half: "ucast (drop_bit 32 (word_of_int k :: u64)) = (word_of_int (k div 2 ^ 32) :: u32)"
  unfolding div_drop_32 by (rule bit_word_eqI) (simp add: bit_simps)

lemma high_half_signed: "ucast (signed_drop_bit 32 (word_of_int k :: u64)) = (word_of_int (k div 2 ^ 32) :: u32)"
  unfolding div_drop_32 by (rule bit_word_eqI) (simp add: bit_simps)

lemma scast_64: "(scast (a :: u32) :: u64) = word_of_int (sint a)"
  by simp

lemma ucast_64: "(ucast (a :: u32) :: u64) = word_of_int (uint a)"
  by simp

lemma mulh_spec: "mulh_val a b = word_of_int ((sint a * sint b) div 2 ^ 32)"
  unfolding mulh_val_def scast_64 by (simp only: wi_hom_mult high_half_signed)

lemma mulhsu_spec: "mulhsu_val a b = word_of_int ((sint a * uint b) div 2 ^ 32)"
  unfolding mulhsu_val_def scast_64 ucast_64 by (simp only: wi_hom_mult high_half)

lemma mulhu_spec: "mulhu_val a b = word_of_int ((uint a * uint b) div 2 ^ 32)"
  unfolding mulhu_val_def ucast_64 by (simp only: wi_hom_mult high_half)

text \<open>Sign extension of a loaded byte or halfword.\<close>

lemma sext_load: "0 < n \<Longrightarrow> n \<le> 32 \<Longrightarrow> ucast (SEXT (ucast (v :: u32)) n) = signed_take_bit (n - 1) v"
  by (rule bit_word_eqI) (auto simp: bit_simps min_def)

section \<open>What an instruction leaves alone\<close>

text \<open>
  \<open>isa_frame\<close>: apart from host bytes and device state, an instruction works on the CPU and the run
  state only, and the register file keeps its size.
\<close>

definition isa_part :: "nemu \<Rightarrow> nemu" where
  "isa_part s = (machine_part s)\<lparr>cpu := \<lparr>gpr = [], pc = 0, mstatus = 0, mtvec = 0, mepc = 0, mcause = 0\<rparr>,
     nemu_state := \<lparr>run_state = NEMU_STOP, halt_pc = 0, halt_ret = 0\<rparr>\<rparr>"

definition isa_frame :: "nemu \<Rightarrow> nemu \<Rightarrow> bool" where
  "isa_frame s s' \<longleftrightarrow> isa_part s' = isa_part s \<and> length (gpr (cpu s')) = length (gpr (cpu s)) \<and>
     pc (cpu s') = pc (cpu s)"

lemma isa_frame_refl [simp]: "isa_frame s s"
  by (simp add: isa_frame_def)

lemma isa_frame_trans [trans]: "isa_frame s t \<Longrightarrow> isa_frame t u \<Longrightarrow> isa_frame s u"
  by (simp add: isa_frame_def)

lemma bus_isa_frame: "bus_frame s s' \<Longrightarrow> isa_frame s s'"
  by (simp add: isa_frame_def isa_part_def bus_frame_def machine_part_fields [of s' s])

lemma isa_part_fields:
  assumes "isa_part s' = isa_part s"
  shows "mem_regions s' = mem_regions s" "p_space s' = p_space s" "maps s' = maps s"
    "g_nr_guest_inst s' = g_nr_guest_inst s" "nemu_inst_limit s' = nemu_inst_limit s"
    "commit_ring s' = commit_ring s" "commit_ring_next s' = commit_ring_next s"
    "commit_ring_count s' = commit_ring_count s" "breakpoints s' = breakpoints s"
    "key_queue s' = key_queue s" "key_r s' = key_r s" "cb_base f s' = cb_base f s"
proof -
  note f = arg_cong [OF assms]
  show "mem_regions s' = mem_regions s" using f [of mem_regions] by (simp add: isa_part_def machine_part_def)
  show "p_space s' = p_space s" using f [of p_space] by (simp add: isa_part_def machine_part_def)
  show "maps s' = maps s" using f [of maps] by (simp add: isa_part_def machine_part_def)
  show "g_nr_guest_inst s' = g_nr_guest_inst s" using f [of g_nr_guest_inst] by (simp add: isa_part_def machine_part_def)
  show "nemu_inst_limit s' = nemu_inst_limit s" using f [of nemu_inst_limit] by (simp add: isa_part_def machine_part_def)
  show "commit_ring s' = commit_ring s" using f [of commit_ring] by (simp add: isa_part_def machine_part_def)
  show "commit_ring_next s' = commit_ring_next s" using f [of commit_ring_next] by (simp add: isa_part_def machine_part_def)
  show "commit_ring_count s' = commit_ring_count s" using f [of commit_ring_count] by (simp add: isa_part_def machine_part_def)
  show "breakpoints s' = breakpoints s" using f [of breakpoints] by (simp add: isa_part_def machine_part_def)
  show "key_queue s' = key_queue s" using f [of key_queue] by (simp add: isa_part_def machine_part_def)
  show "key_r s' = key_r s" using f [of key_r] by (simp add: isa_part_def machine_part_def)
  show "cb_base f s' = cb_base f s" using f [of "cb_base f"] by (cases f) (simp_all add: isa_part_def machine_part_def)
qed

lemmas isa_frame_fields = isa_part_fields [OF conjunct1 [OF iffD1 [OF isa_frame_def]]]

lemma machine_ready_isa: "isa_frame s s' \<Longrightarrow> machine_ready c s' = machine_ready c s"
  by (simp add: machine_ready_def mem_ready_def io_inv_def npc_windows_def map_ok_def space_top_def
      isa_frame_fields [of s s'])

lemma isa_frame_cpu [simp]:
  "isa_frame s (s\<lparr>cpu := k\<rparr>) \<longleftrightarrow> length (gpr k) = length (gpr (cpu s)) \<and> pc k = pc (cpu s)"
  by (simp add: isa_frame_def isa_part_def machine_part_def)

lemma isa_frame_state [simp]: "isa_frame s (set_nemu_state c st p r s)"
  by (simp add: isa_frame_def isa_part_def machine_part_def set_nemu_state_def difftest_skip_ref_def)

lemma isa_frame_emit [simp]: "isa_frame s (emit x s)"
  by (simp add: isa_frame_def isa_part_def machine_part_def emit_def)

lemma isa_frame_intr [simp]: "isa_frame s (snd (isa_raise_intr no epc s))"
  by (simp add: isa_raise_intr_def Let_def)

lemma isa_frame_sync [simp]: "isa_frame s (snd (raise_sync_exception d cause s))"
  using isa_frame_intr by (simp add: raise_sync_exception_def case_prod_beta)

lemma isa_frame_syncD: "raise_sync_exception d cause s = (d', s') \<Longrightarrow> isa_frame s s'"
  by (metis isa_frame_sync snd_conv)

lemma isa_frame_R_set: "R_set c i v s = Inr s' \<Longrightarrow> isa_frame s s'"
  by (auto simp: R_set_def bindR_eq_Inr)

lemma isa_frame_read:
  "machine_ready c s \<Longrightarrow> vaddr_read c a len s = Inr (v, s') \<Longrightarrow> isa_frame s s'"
  "machine_ready c s \<Longrightarrow> vaddr_ifetch c a len s = Inr (v, s') \<Longrightarrow> isa_frame s s'"
  by (auto simp: vaddr_defs intro!: bus_isa_frame dest: paddr_read_frame)

lemma isa_frame_write: "machine_ready c s \<Longrightarrow> vaddr_write c a len v s = Inr s' \<Longrightarrow> isa_frame s s'"
  by (auto simp: vaddr_defs intro!: bus_isa_frame dest: paddr_write_frame)

lemma isa_frame_fetch: "machine_ready c s \<Longrightarrow> inst_fetch c a len s = Inr (v, a', s') \<Longrightarrow> isa_frame s s'"
  using isa_frame_read(2) by (auto simp: inst_fetch_def bindR_eq_Inr)

lemma isa_frame_invalid:
  assumes "machine_ready c s" and "invalid_inst c p s = Inr s'"
  shows "isa_frame s s'"
proof -
  obtain t0 p1 s1 t1 p2 s2 where 1: "inst_fetch c p 4 s = Inr (t0, p1, s1)"
    and 2: "inst_fetch c p1 4 s1 = Inr (t1, p2, s2)"
    and s': "s' = set_nemu_state c NEMU_ABORT p (-1) (emit (Message ''invalid opcode'') s2)"
    using assms(2) by (auto simp: invalid_inst_def bindR_eq_Inr)
  have f1: "isa_frame s s1" using isa_frame_fetch [OF assms(1) 1] .
  then have "isa_frame s1 s2" using isa_frame_fetch [OF _ 2] assms(1) machine_ready_isa [OF f1] by simp
  with f1 have "isa_frame s s2" by (rule isa_frame_trans)
  also have "isa_frame s2 (emit (Message ''invalid opcode'') s2)" by simp
  also have "isa_frame \<dots> s'" unfolding s' by (rule isa_frame_state)
  finally show ?thesis .
qed

lemma isa_frame_set_rd: "set_rd c rd v d s = Inr (d', s') \<Longrightarrow> isa_frame s s' \<and> d' = d"
  using isa_frame_R_set by (auto simp: set_rd_def bindR_eq_Inr)

lemma isa_frame_load:
  assumes "machine_ready c s" and "exec_load c len ext rd addr d s = Inr (d', s')"
  shows "isa_frame s s'"
proof (cases "vaddr_access_ok c s addr len")
  case True
  then obtain v s1 where "vaddr_read c addr len s = Inr (v, s1)" "set_rd c rd (ext v) d s1 = Inr (d', s')"
    using assms(2) by (auto simp: exec_load_def bindR_eq_Inr)
  then show ?thesis using isa_frame_read(1) [OF assms(1)] isa_frame_set_rd isa_frame_trans by blast
next
  case False
  then show ?thesis using assms(2) isa_frame_sync [of s d 5] by (simp add: exec_load_def)
qed

lemma isa_frame_store:
  assumes "machine_ready c s" and "exec_store c len addr v d s = Inr (d', s')"
  shows "isa_frame s s'"
  using assms isa_frame_write [OF assms(1)] isa_frame_syncD [of d 7 s]
  by (auto simp: exec_store_def bindR_eq_Inr split: if_splits)

lemma isa_frame_csr_read:
  "machine_ready c s \<Longrightarrow> csr_read c a s = Inr (t, s') \<Longrightarrow> isa_frame s s'"
  using isa_frame_invalid by (auto simp: csr_read_def bindR_eq_Inr split: if_splits)

lemma isa_frame_csr_write:
  "machine_ready c s \<Longrightarrow> csr_write c a v s = Inr s' \<Longrightarrow> isa_frame s s'"
  using isa_frame_invalid by (auto simp: csr_write_def split: if_splits)

lemma isa_frame_csr:
  assumes "machine_ready c s" and "exec_csr c wr f rd d s = Inr (d', s')"
  shows "isa_frame s s'"
proof -
  obtain t s1 s2 where 1: "csr_read c (ucast (BITS (d_inst d) 31 20)) s = Inr (t, s1)"
    and 2: "s2 = s1 \<or> csr_write c (ucast (BITS (d_inst d) 31 20)) (f t) s1 = Inr s2"
    and 3: "set_rd c rd t d s2 = Inr (d', s')"
    using assms(2) by (auto simp: exec_csr_def Let_def bindR_eq_Inr split: if_splits)
  have f1: "isa_frame s s1" using isa_frame_csr_read [OF assms(1) 1] .
  then have "machine_ready c s1" using assms(1) machine_ready_isa by blast
  then have "isa_frame s1 s2" using 2 isa_frame_csr_write by auto
  then show ?thesis using f1 3 isa_frame_set_rd isa_frame_trans by blast
qed

lemma isa_frame_inst:
  assumes "machine_ready c s" and "exec_inst c n rd src1 src2 imm d s = Inr (d', s')"
  shows "isa_frame s s'"
  using assms isa_frame_set_rd [of c rd _ _ s d' s'] isa_frame_load [OF assms(1)] isa_frame_store [OF assms(1)]
    isa_frame_csr [OF assms(1)] isa_frame_invalid [OF assms(1)] isa_frame_intr [of s 11 "d_pc d"]
  by (cases n) (auto simp: branch_def bindR_eq_Inr case_prod_beta)

definition regs_ok :: "config \<Rightarrow> nemu \<Rightarrow> bool" where
  "regs_ok c s \<longleftrightarrow> length (gpr (cpu s)) = NR_GPR c \<and> gpr (cpu s) ! 0 = 0"

lemma R_set_zero:
  assumes "R_set c 0 0 s = Inr s'" and "length (gpr (cpu s)) = NR_GPR c"
  shows "regs_ok c s'"
  using assms by (auto simp: R_set_def bindR_eq_Inr check_reg_idx_def regs_ok_def NR_GPR_def split: if_splits)

lemma decode_exec_cases:
  "decode_exec c d s =
     bindR (bindR (decode_operand c (rv_format (rv_decode (d_inst d))) (d\<lparr>dnpc := snpc d\<rparr>) s)
       (\<lambda>(rd, src1, src2, imm). exec_inst c (rv_decode (d_inst d)) rd src1 src2 imm (d\<lparr>dnpc := snpc d\<rparr>) s))
       (\<lambda>(d1, s1). bindR (R_set c 0 0 s1) (\<lambda>s2. Inr (d1, s2)))"
  by (simp add: decode_exec_def decode_match_rv_decode Let_def)

lemma decode_exec_frame:
  assumes "machine_ready c s" and "decode_exec c d s = Inr (d', s')"
  shows "isa_frame s s' \<and> (length (gpr (cpu s)) = NR_GPR c \<longrightarrow> regs_ok c s')"
proof -
  obtain rd a b imm d1 s1 where "exec_inst c (rv_decode (d_inst d)) rd a b imm (d\<lparr>dnpc := snpc d\<rparr>) s = Inr (d1, s1)"
    and 2: "R_set c 0 0 s1 = Inr s'"
    using assms(2) by (auto simp: decode_exec_cases bindR_eq_Inr)
  then have f: "isa_frame s s1" using isa_frame_inst [OF assms(1)] by blast
  then show ?thesis using isa_frame_R_set [OF 2] isa_frame_trans R_set_zero [OF 2] by (auto simp: isa_frame_def)
qed

lemma isa_exec_once_frame:
  assumes "machine_ready c s" and "isa_exec_once c d s = Inr (d', s')" and "regs_ok c s"
  shows "isa_frame s s' \<and> regs_ok c s'"
proof (cases "vaddr_access_ok c s (snpc d) 4")
  case True
  then obtain w p s1 where 1: "inst_fetch c (snpc d) 4 s = Inr (w, p, s1)"
    and 2: "decode_exec c (d\<lparr>d_inst := w, snpc := p\<rparr>) s1 = Inr (d', s')"
    using assms(2) by (auto simp: isa_exec_once_def bindR_eq_Inr)
  have f: "isa_frame s s1" using isa_frame_fetch [OF assms(1) 1] .
  have "machine_ready c s1" using assms(1) machine_ready_isa [OF f] by simp
  moreover have "length (gpr (cpu s1)) = NR_GPR c" using f assms(3) by (simp add: isa_frame_def regs_ok_def)
  ultimately show ?thesis using decode_exec_frame [OF _ 2] f isa_frame_trans [of s s1 s'] by simp
next
  case False
  then show ?thesis using assms(2,3) isa_frame_sync [of s _ 1]
    by (auto simp: isa_exec_once_def Let_def raise_sync_exception_def isa_raise_intr_def regs_ok_def)
qed

section \<open>No stray access\<close>

text \<open>
  A register index has five bits, so it is in range unless the build has 16 registers; such a build is
  meant to be checked at run time.
\<close>

definition regs_checked :: "config \<Rightarrow> bool" where
  "regs_checked c \<longleftrightarrow> CONFIG_RT_CHECK c \<or> \<not> CONFIG_RVE c"

lemma safe_reg_idx: "regs_checked c \<Longrightarrow> i < 32 \<Longrightarrow> safe (check_reg_idx c i)"
  by (auto simp: check_reg_idx_def regs_checked_def NR_GPR_def)

text \<open>
  Without this, a source register above \<^verbatim>\<open>x15\<close> is read outside the array \<^verbatim>\<open>cpu.gpr\<close>.
\<close>

theorem unchecked_register_is_stray:
  assumes "\<not> regs_checked c" and "rv_format (rv_decode w) \<in> {TYPE_I, TYPE_S, TYPE_B, TYPE_R}" and "16 \<le> unat (BITS w 19 15)"
  shows "decode_exec c (d\<lparr>d_inst := w\<rparr>) s = Inl (Bad_access ''cpu.gpr'')"
proof -
  have "R_get c (unat (BITS w 19 15)) s = Inl (Bad_access ''cpu.gpr'')"
    using assms(1,3) by (simp add: R_get_def check_reg_idx_def regs_checked_def NR_GPR_def)
  then show ?thesis using assms(2) by (auto simp: decode_exec_cases decode_operand_def Let_def)
qed

lemma safe_R_get: "regs_checked c \<Longrightarrow> i < 32 \<Longrightarrow> safe (R_get c i s)"
  by (simp add: R_get_def safe_bindR_Inr safe_reg_idx)

lemma safe_R_set: "regs_checked c \<Longrightarrow> i < 32 \<Longrightarrow> safe (R_set c i v s)"
  by (simp add: R_set_def safe_bindR_Inr safe_reg_idx)

lemma safe_set_rd: "regs_checked c \<Longrightarrow> rd < 32 \<Longrightarrow> safe (set_rd c rd v d s)"
  by (simp add: set_rd_def safe_bindR_Inr safe_R_set)

lemma safe_vaddr:
  assumes "machine_ready c s" and "len \<in> {1, 2, 4}"
  shows "safe (vaddr_read c a len s)" "safe (vaddr_write c a len v s)" "safe (vaddr_ifetch c a len s)"
  using bus_safe [OF assms] by (simp_all add: vaddr_defs)

lemma safe_fetch: "machine_ready c s \<Longrightarrow> safe (inst_fetch c a 4 s)"
  using safe_vaddr(3) [of c s 4] by (auto simp: inst_fetch_def intro!: safe_bindR)

lemma safe_invalid:
  assumes "machine_ready c s"
  shows "safe (invalid_inst c p s)"
proof -
  have "safe (inst_fetch c p1 4 s1)" if "inst_fetch c p 4 s = Inr (t, p1, s1)" for t p1 s1
    using safe_fetch isa_frame_fetch [OF assms that] machine_ready_isa assms by blast
  then show ?thesis using safe_fetch [OF assms]
    by (auto simp: invalid_inst_def case_prod_beta intro!: safe_bindR)
qed

lemma safe_exec_load:
  assumes "regs_checked c" and "rd < 32" and "machine_ready c s" and "len \<in> {1, 2, 4}"
  shows "safe (exec_load c len ext rd addr d s)"
  using safe_vaddr(1) [OF assms(3,4)] safe_set_rd [OF assms(1,2)]
  by (auto simp: exec_load_def case_prod_beta intro!: safe_bindR)

lemma safe_exec_store:
  assumes "machine_ready c s" and "len \<in> {1, 2, 4}"
  shows "safe (exec_store c len addr v d s)"
  using safe_vaddr(2) [OF assms] by (auto simp: exec_store_def safe_bindR_Inr)

lemma safe_csr_read: "machine_ready c s \<Longrightarrow> safe (csr_read c a s)"
  by (simp add: csr_read_def safe_bindR_Inr safe_invalid)

lemma safe_csr_write: "machine_ready c s \<Longrightarrow> safe (csr_write c a v s)"
  by (simp add: csr_write_def safe_invalid)

lemma safe_csr:
  assumes "regs_checked c" and "rd < 32" and "machine_ready c s"
  shows "safe (exec_csr c wr f rd d s)"
proof -
  have "safe (if wr then csr_write c a (f t) s1 else Inr s1)" if "csr_read c a s = Inr (t, s1)" for a t s1
    using safe_csr_write machine_ready_isa [OF isa_frame_csr_read [OF assms(3) that]] assms(3) by simp
  then show ?thesis using safe_csr_read [OF assms(3)] safe_set_rd [OF assms(1,2)]
    by (auto simp: exec_csr_def Let_def case_prod_beta intro!: safe_bindR)
qed

lemma safe_inst:
  assumes "regs_checked c" and "rd < 32" and "machine_ready c s"
  shows "safe (exec_inst c n rd src1 src2 imm d s)"
  using safe_set_rd [OF assms(1,2)] safe_exec_load [OF assms] safe_exec_store [OF assms(3)] safe_csr [OF assms]
    safe_invalid [OF assms(3)] safe_R_get [OF assms(1), of 10]
  by (cases n) (simp_all add: branch_def case_prod_beta safe_bindR_Inr)

lemma BITS_5_less: "unat (BITS w (lo + 4) lo) < 32"
  using unat_BITS_less [of w "lo + 4" lo] by simp

lemma reg_field_less: "unat (BITS w 19 15) < 32" "unat (BITS w 24 20) < 32" "unat (BITS w 11 7) < 32"
  using BITS_5_less [of w 15] BITS_5_less [of w 20] BITS_5_less [of w 7] by simp_all

lemma safe_operand: "regs_checked c \<Longrightarrow> safe (decode_operand c t d s)"
  using reg_field_less [of "d_inst d"]
  by (cases t) (auto simp: decode_operand_def Let_def safe_bindR_Inr safe_R_get intro!: safe_bindR)

lemma decode_operand_rd: "decode_operand c t d s = Inr (rd, a, b, imm) \<Longrightarrow> rd = unat (BITS (d_inst d) 11 7)"
  by (cases t) (auto simp: decode_operand_def Let_def bindR_eq_Inr)

lemma decode_exec_safe:
  assumes "regs_checked c" and "machine_ready c s"
  shows "safe (decode_exec c d s)"
proof -
  let ?n = "rv_decode (d_inst d)" and ?d = "d\<lparr>dnpc := snpc d\<rparr>"
  have "safe (exec_inst c ?n rd a b imm ?d s)"
    if "decode_operand c (rv_format ?n) ?d s = Inr (rd, a, b, imm)" for rd a b imm
    using safe_inst [OF assms(1) _ assms(2)] decode_operand_rd [OF that] reg_field_less(3) [of "d_inst d"] by simp
  then show ?thesis using safe_operand [OF assms(1)] safe_R_set [OF assms(1), of 0]
    by (auto simp: decode_exec_cases case_prod_beta safe_bindR_Inr intro!: safe_bindR)
qed

lemma isa_exec_once_safe:
  assumes "regs_checked c" and "machine_ready c s"
  shows "safe (isa_exec_once c d s)"
proof -
  have "safe (decode_exec c (d\<lparr>d_inst := w, snpc := p\<rparr>) s1)" if "inst_fetch c (snpc d) 4 s = Inr (w, p, s1)" for w p s1
    using decode_exec_safe [OF assms(1)] machine_ready_isa [OF isa_frame_fetch [OF assms(2) that]] assms(2) by simp
  then show ?thesis using safe_fetch [OF assms(2)]
    by (auto simp: isa_exec_once_def Let_def case_prod_beta intro!: safe_bindR)
qed

end
