(* ===== verification/Commit_Ring.thy ===== *)
theory Commit_Ring
  imports Riscv_Exec
begin

text \<open>
  The history of retired instructions, \<^verbatim>\<open>nemu/src/utils/state.c\<close>, and the comparison of two
  commit events, \<^verbatim>\<open>nemu/include/debug/commit_event.h\<close>. The ring is a bounded history: it
  always holds the latest 64 events, oldest first.
\<close>

definition COMMIT_EVENT_RING_SIZE :: nat where "COMMIT_EVENT_RING_SIZE = 64"

definition commit_event_record :: "CommitEvent \<Rightarrow> nemu \<Rightarrow> nemu" where
  "commit_event_record ev s =
     (let s1 = s\<lparr>commit_ring := (commit_ring s)[commit_ring_next s := ev],
                 commit_ring_next := (commit_ring_next s + 1) mod COMMIT_EVENT_RING_SIZE\<rparr> in
      if commit_ring_count s1 < COMMIT_EVENT_RING_SIZE
      then s1\<lparr>commit_ring_count := commit_ring_count s1 + 1\<rparr> else s1)"

text \<open>The body of the two loops that walk the ring.\<close>

fun ring_walk :: "CommitEvent list \<Rightarrow> nat \<Rightarrow> nat \<Rightarrow> nat \<Rightarrow> CommitEvent list" where
  "ring_walk ring first i 0 = []"
| "ring_walk ring first i (Suc k) =
     ring ! ((first + i) mod COMMIT_EVENT_RING_SIZE) # ring_walk ring first (Suc i) k"

fun emit_all :: "outev list \<Rightarrow> nemu \<Rightarrow> nemu" where
  "emit_all [] s = s"
| "emit_all (x # xs) s = emit_all xs (emit x s)"

definition commit_event_dump_last :: "nat \<Rightarrow> nemu \<Rightarrow> nemu" where
  "commit_event_dump_last n0 s =
     (if commit_ring_count s = 0 then s
      else let n = (if n0 = 0 \<or> n0 > commit_ring_count s then commit_ring_count s else n0);
               first = (commit_ring_next s + COMMIT_EVENT_RING_SIZE - n) mod COMMIT_EVENT_RING_SIZE in
        emit Last_end (emit_all (map Last_event (ring_walk (commit_ring s) first 0 n)) (emit (Last_begin n) s)))"

definition commit_event_get_last :: "nemu \<Rightarrow> CommitEvent option" where
  "commit_event_get_last s =
     (if commit_ring_count s = 0 then None
      else let idx = (commit_ring_next s + COMMIT_EVENT_RING_SIZE - 1) mod COMMIT_EVENT_RING_SIZE
           in Some (commit_ring s ! idx))"

text \<open>The events written to the caller's buffer; their number is the result.\<close>

definition commit_event_copy_last :: "nat \<Rightarrow> nemu \<Rightarrow> CommitEvent list" where
  "commit_event_copy_last max_n s =
     (let n = (if commit_ring_count s < max_n then commit_ring_count s else max_n);
          first = (commit_ring_next s + COMMIT_EVENT_RING_SIZE - n) mod COMMIT_EVENT_RING_SIZE
      in ring_walk (commit_ring s) first 0 n)"

definition is_exit_status_bad :: "nemu \<Rightarrow> bool" where
  "is_exit_status_bad s =
     (\<not> (run_state (nemu_state s) = NEMU_END \<and> halt_ret (nemu_state s) = 0 \<or>
         run_state (nemu_state s) = NEMU_QUIT))"

section \<open>Comparison of events\<close>

datatype CommitDiffKind =
    COMMIT_DIFF_NONE | COMMIT_DIFF_PC | COMMIT_DIFF_INST | COMMIT_DIFF_NEXT_PC
  | COMMIT_DIFF_EXCEPTION | COMMIT_DIFF_CAUSE | COMMIT_DIFF_WB_VALID | COMMIT_DIFF_WB_REG
  | COMMIT_DIFF_WB_VALUE

record CommitDiff =
  df_kind :: CommitDiffKind
  df_field :: string
  df_ref_value :: u32
  df_dut_value :: u32

definition SET_DIFF :: "CommitDiffKind \<Rightarrow> string \<Rightarrow> u32 \<Rightarrow> u32 \<Rightarrow> bool \<times> CommitDiff" where
  "SET_DIFF k name rv dv = (False, \<lparr>df_kind = k, df_field = name, df_ref_value = rv, df_dut_value = dv\<rparr>)"

definition commit_event_compare :: "CommitEvent \<Rightarrow> CommitEvent \<Rightarrow> bool \<times> CommitDiff" where
  "commit_event_compare ref dut =
     (if ev_pc ref \<noteq> ev_pc dut then SET_DIFF COMMIT_DIFF_PC ''pc'' (ev_pc ref) (ev_pc dut)
      else if ev_inst ref \<noteq> ev_inst dut then SET_DIFF COMMIT_DIFF_INST ''inst'' (ev_inst ref) (ev_inst dut)
      else if ev_next_pc ref \<noteq> ev_next_pc dut
        then SET_DIFF COMMIT_DIFF_NEXT_PC ''next_pc'' (ev_next_pc ref) (ev_next_pc dut)
      else if ev_exception ref \<noteq> ev_exception dut
        then SET_DIFF COMMIT_DIFF_EXCEPTION ''exception'' (ucast (ev_exception ref)) (ucast (ev_exception dut))
      else if ev_exception ref \<noteq> 0 \<and> ev_cause ref \<noteq> ev_cause dut
        then SET_DIFF COMMIT_DIFF_CAUSE ''cause'' (ev_cause ref) (ev_cause dut)
      else if ev_has_wb ref \<noteq> ev_has_wb dut
        then SET_DIFF COMMIT_DIFF_WB_VALID ''has_wb'' (ucast (ev_has_wb ref)) (ucast (ev_has_wb dut))
      else if ev_has_wb ref \<noteq> 0 \<and> ev_rd ref \<noteq> ev_rd dut
        then SET_DIFF COMMIT_DIFF_WB_REG ''rd'' (ucast (ev_rd ref)) (ucast (ev_rd dut))
      else if ev_has_wb ref \<noteq> 0 \<and> ev_rd_value ref \<noteq> ev_rd_value dut
        then SET_DIFF COMMIT_DIFF_WB_VALUE ''rd_value'' (ev_rd_value ref) (ev_rd_value dut)
      else (True, \<lparr>df_kind = COMMIT_DIFF_NONE, df_field = [], df_ref_value = 0, df_dut_value = 0\<rparr>))"

text \<open>What two events have to agree on.\<close>

definition event_view :: "CommitEvent \<Rightarrow> u32 \<times> u32 \<times> u32 \<times> u8 \<times> u32 option \<times> u8 \<times> (u8 \<times> u32) option" where
  "event_view e = (ev_pc e, ev_inst e, ev_next_pc e, ev_exception e,
     if ev_exception e \<noteq> 0 then Some (ev_cause e) else None, ev_has_wb e,
     if ev_has_wb e \<noteq> 0 then Some (ev_rd e, ev_rd_value e) else None)"

lemma commit_event_compare_iff: "fst (commit_event_compare ref dut) \<longleftrightarrow> event_view ref = event_view dut"
  by (auto simp: commit_event_compare_def SET_DIFF_def event_view_def)

lemma commit_event_compare_kind:
  "df_kind (snd (commit_event_compare ref dut)) = COMMIT_DIFF_NONE \<longleftrightarrow> fst (commit_event_compare ref dut)"
  by (simp add: commit_event_compare_def SET_DIFF_def)

section \<open>The ring is a history\<close>

definition ring_inv :: "nemu \<Rightarrow> bool" where
  "ring_inv s \<longleftrightarrow> length (commit_ring s) = COMMIT_EVENT_RING_SIZE \<and>
     commit_ring_next s < COMMIT_EVENT_RING_SIZE \<and> commit_ring_count s \<le> COMMIT_EVENT_RING_SIZE"

definition ring_first :: "nemu \<Rightarrow> nat" where
  "ring_first s = (commit_ring_next s + COMMIT_EVENT_RING_SIZE - commit_ring_count s) mod COMMIT_EVENT_RING_SIZE"

definition ring_events :: "nemu \<Rightarrow> CommitEvent list" where
  "ring_events s = ring_take (commit_ring s) (ring_first s) (commit_ring_count s)"

lemma length_ring_events [simp]: "length (ring_events s) = commit_ring_count s"
  by (simp add: ring_events_def)

lemma ring_next_first:
  assumes "ring_inv s"
  shows "commit_ring_next s = (ring_first s + commit_ring_count s) mod COMMIT_EVENT_RING_SIZE"
  using assms by (simp add: ring_inv_def ring_first_def mod_add_left_eq)

lemma ring_record_room:
  assumes "ring_inv s" and "commit_ring_count s < COMMIT_EVENT_RING_SIZE"
  shows "ring_events (commit_event_record ev s) = ring_events s @ [ev]"
proof -
  let ?N = COMMIT_EVENT_RING_SIZE
  have len: "length (commit_ring s) = ?N" using assms(1) by (simp add: ring_inv_def)
  have "ring_first (commit_event_record ev s) =
      ((commit_ring_next s + 1) mod ?N + ?N - (commit_ring_count s + 1)) mod ?N"
    using assms(2) by (simp add: ring_first_def commit_event_record_def)
  also have "\<dots> = ring_first s"
  proof -
    have "(commit_ring_next s + 1) mod ?N + ?N - (commit_ring_count s + 1) =
        (commit_ring_next s + 1) mod ?N + (?N - (commit_ring_count s + 1))" using assms(2) by simp
    then have "((commit_ring_next s + 1) mod ?N + ?N - (commit_ring_count s + 1)) mod ?N =
        (commit_ring_next s + 1 + (?N - (commit_ring_count s + 1))) mod ?N" by (simp add: mod_add_left_eq)
    also have "commit_ring_next s + 1 + (?N - (commit_ring_count s + 1)) = commit_ring_next s + ?N - commit_ring_count s"
      using assms(2) by simp
    finally show ?thesis by (simp add: ring_first_def)
  qed
  finally have f: "ring_first (commit_event_record ev s) = ring_first s" .
  have "ring_events (commit_event_record ev s) =
      ring_take ((commit_ring s)[commit_ring_next s := ev]) (ring_first s) (Suc (commit_ring_count s))"
    unfolding ring_events_def f using assms(2) by (simp add: commit_event_record_def)
  also have "\<dots> = ring_take (commit_ring s) (ring_first s) (commit_ring_count s) @ [ev]"
    using ring_take_push [of "commit_ring_count s" "commit_ring s" "ring_first s" ev]
      assms(2) len ring_next_first [OF assms(1)] by simp
  finally show ?thesis by (simp add: ring_events_def)
qed

lemma ring_record_full:
  assumes "ring_inv s" and "commit_ring_count s = COMMIT_EVENT_RING_SIZE"
  shows "ring_events (commit_event_record ev s) = tl (ring_events s) @ [ev]"
proof -
  let ?N = COMMIT_EVENT_RING_SIZE
  have len: "length (commit_ring s) = ?N" and nx: "commit_ring_next s < ?N" using assms(1) by (auto simp: ring_inv_def)
  have f: "ring_first s = commit_ring_next s"
    using nx assms(2) by (simp add: ring_first_def)
  have f': "ring_first (commit_event_record ev s) = Suc (commit_ring_next s) mod ?N"
    using assms(2) by (simp add: ring_first_def commit_event_record_def)
  have "ring_take ((commit_ring s)[(commit_ring_next s + ?N) mod length (commit_ring s) := ev])
      (Suc (commit_ring_next s) mod length (commit_ring s)) ?N =
      tl (ring_take (commit_ring s) (commit_ring_next s) ?N) @ [ev]"
    by (rule ring_take_overwrite) (use len nx in auto)
  then show ?thesis using len nx assms(2)
    by (simp add: ring_events_def f f') (simp add: commit_event_record_def)
qed

lemma ring_inv_record: "ring_inv s \<Longrightarrow> ring_inv (commit_event_record ev s)"
  by (simp add: ring_inv_def commit_event_record_def COMMIT_EVENT_RING_SIZE_def Let_def)

interpretation cr: bounded_history ring_inv ring_events COMMIT_EVENT_RING_SIZE commit_event_record
proof unfold_locales
  fix s x assume inv: "ring_inv s"
  show "ring_inv (commit_event_record x s)" using inv by (rule ring_inv_record)
  show "ring_events (commit_event_record x s) =
      (if length (ring_events s) < COMMIT_EVENT_RING_SIZE then ring_events s else tl (ring_events s)) @ [x]"
    using ring_record_room [OF inv] ring_record_full [OF inv] inv by (auto simp: ring_inv_def)
  show "length (ring_events s) \<le> COMMIT_EVENT_RING_SIZE" using inv by (simp add: ring_inv_def)
next
  show "0 < COMMIT_EVENT_RING_SIZE" by (simp add: COMMIT_EVENT_RING_SIZE_def)
qed

text \<open>The loops read the history.\<close>

lemma ring_walk_take:
  "length ring = COMMIT_EVENT_RING_SIZE \<Longrightarrow> ring_walk ring first i k = ring_take ring (first + i) k"
proof (induction k arbitrary: i)
  case 0
  then show ?case by simp
next
  case (Suc k)
  show ?case
  proof (rule nth_equalityI)
    fix j assume "j < length (ring_walk ring first i (Suc k))"
    then show "ring_walk ring first i (Suc k) ! j = ring_take ring (first + i) (Suc k) ! j"
      using Suc by (cases j) simp_all
  qed (use Suc in simp)
qed

lemma copy_last_events:
  assumes "ring_inv s"
  shows "commit_event_copy_last n s = drop (commit_ring_count s - n) (ring_events s)"
proof -
  let ?N = COMMIT_EVENT_RING_SIZE and ?m = "min (commit_ring_count s) n"
  have len: "length (commit_ring s) = ?N" and c: "commit_ring_count s \<le> ?N" using assms by (auto simp: ring_inv_def)
  have "commit_event_copy_last n s = ring_take (commit_ring s) ((commit_ring_next s + ?N - ?m) mod ?N) ?m"
    using len by (simp add: commit_event_copy_last_def Let_def ring_walk_take min_def)
  also have "\<dots> = drop (commit_ring_count s - n) (ring_events s)"
  proof (rule nth_equalityI)
    fix j assume "j < length (ring_take (commit_ring s) ((commit_ring_next s + ?N - ?m) mod ?N) ?m)"
    then have j: "j < ?m" by simp
    let ?d = "commit_ring_count s - n"
    have e: "commit_ring_next s + ?N - ?m = commit_ring_next s + ?N - commit_ring_count s + ?d" using c by simp
    have "((commit_ring_next s + ?N - ?m) mod ?N + j) mod ?N = (ring_first s + (?d + j)) mod ?N"
      by (simp only: ring_first_def mod_add_left_eq e add.assoc)
    moreover have "?d + j < commit_ring_count s" using j by linarith
    ultimately show "ring_take (commit_ring s) ((commit_ring_next s + ?N - ?m) mod ?N) ?m ! j =
        drop ?d (ring_events s) ! j"
      using j len by (simp add: ring_events_def)
  qed simp
  finally show ?thesis .
qed

lemma get_last_event:
  assumes "ring_inv s"
  shows "commit_event_get_last s = (if ring_events s = [] then None else Some (last (ring_events s)))"
proof (cases "commit_ring_count s = 0")
  case True
  then show ?thesis by (simp add: commit_event_get_last_def ring_events_def)
next
  case False
  let ?N = COMMIT_EVENT_RING_SIZE
  have len: "length (commit_ring s) = ?N" and c: "commit_ring_count s \<le> ?N" using assms by (auto simp: ring_inv_def)
  have ne: "ring_events s \<noteq> []" using False by (simp flip: length_greater_0_conv)
  have "(ring_first s + (commit_ring_count s - 1)) mod ?N =
      (commit_ring_next s + ?N - commit_ring_count s + (commit_ring_count s - 1)) mod ?N"
    by (simp add: ring_first_def mod_add_left_eq)
  also have "commit_ring_next s + ?N - commit_ring_count s + (commit_ring_count s - 1) = commit_ring_next s + ?N - 1"
    using False c by simp
  finally have "last (ring_events s) = commit_ring s ! ((commit_ring_next s + ?N - 1) mod ?N)"
    using False len by (simp add: last_conv_nth [OF ne]) (simp add: ring_events_def)
  then show ?thesis using False ne by (simp add: commit_event_get_last_def)
qed

end
