(* ===== verification/C_Lib.thy ===== *)
theory C_Lib
  imports Prelude
begin

text \<open>
  The functions of the C library that NEMU's monitor calls on strings: \<^verbatim>\<open>strtoull\<close> and
  \<^verbatim>\<open>strtol\<close> with base 0, and \<^verbatim>\<open>strtok\<close>. A C string is the list of its characters
  before the terminating NUL.
\<close>

section \<open>Numbers\<close>

definition c_isspace :: "char \<Rightarrow> bool" where
  "c_isspace ch \<longleftrightarrow> (of_char ch :: nat) \<in> {9, 10, 11, 12, 13, 32}"

definition digit_value :: "char \<Rightarrow> nat option" where
  "digit_value ch =
     (let n = of_char ch :: nat in
      if 48 \<le> n \<and> n \<le> 57 then Some (n - 48)
      else if 97 \<le> n \<and> n \<le> 122 then Some (n - 87)
      else if 65 \<le> n \<and> n \<le> 90 then Some (n - 55)
      else None)"

definition digit_in :: "nat \<Rightarrow> char \<Rightarrow> nat option" where
  "digit_in base ch = (case digit_value ch of None \<Rightarrow> None | Some d \<Rightarrow> if d < base then Some d else None)"

text \<open>The digits at the front of a string, and their value.\<close>

fun take_digits :: "nat \<Rightarrow> string \<Rightarrow> nat list" where
  "take_digits base [] = []"
| "take_digits base (ch # cs) = (case digit_in base ch of None \<Rightarrow> [] | Some d \<Rightarrow> d # take_digits base cs)"

fun digits_value :: "nat \<Rightarrow> nat list \<Rightarrow> nat \<Rightarrow> nat" where
  "digits_value base [] acc = acc"
| "digits_value base (d # ds) acc = digits_value base ds (acc * base + d)"

text \<open>Sign, and base prefix as base 0 asks for: \<^verbatim>\<open>0x\<close> is 16, a leading \<^verbatim>\<open>0\<close> is 8, otherwise 10.\<close>

definition split_sign :: "string \<Rightarrow> bool \<times> string" where
  "split_sign s = (case dropWhile c_isspace s of
     [] \<Rightarrow> (False, [])
   | ch # cs \<Rightarrow> if ch = CHR ''-'' then (True, cs) else if ch = CHR ''+'' then (False, cs) else (False, ch # cs))"

definition auto_base :: "string \<Rightarrow> nat \<times> string" where
  "auto_base s = (case s of
     CHR ''0'' # x # h # cs \<Rightarrow>
       if x \<in> {CHR ''x'', CHR ''X''} \<and> digit_in 16 h \<noteq> None then (16, h # cs) else (8, s)
   | CHR ''0'' # cs \<Rightarrow> (8, s)
   | _ \<Rightarrow> (10, s))"

definition magnitude :: "string \<Rightarrow> bool \<times> nat" where
  "magnitude s = (case split_sign s of (neg, s1) \<Rightarrow> case auto_base s1 of (base, s2) \<Rightarrow>
     (neg, digits_value base (take_digits base s2) 0))"

definition strtoull :: "string \<Rightarrow> u64" where
  "strtoull s = (case magnitude s of (neg, v) \<Rightarrow>
     if v \<ge> 2 ^ 64 then -1 else if neg then - of_nat v else of_nat v)"

definition strtol :: "string \<Rightarrow> int" where
  "strtol s = (case magnitude s of (neg, v) \<Rightarrow>
     if neg then max (- int v) (- (2 ^ 63)) else min (int v) (2 ^ 63 - 1))"

section \<open>Tokens\<close>

text \<open>
  One call of \<^verbatim>\<open>strtok\<close> on the string it was left at: the token, and where the next call continues.
\<close>

definition strtok :: "string \<Rightarrow> string \<Rightarrow> (string \<times> string) option" where
  "strtok delim s = (case dropWhile (\<lambda>ch. ch \<in> set delim) s of
     [] \<Rightarrow> None
   | t \<Rightarrow> Some (takeWhile (\<lambda>ch. ch \<notin> set delim) t, drop 1 (dropWhile (\<lambda>ch. ch \<notin> set delim) t)))"

lemma strtok_shorter:
  assumes "strtok delim s = Some (tok, rest)"
  shows "length rest < length s"
proof (cases "dropWhile (\<lambda>ch. ch \<in> set delim) s")
  case Nil
  then show ?thesis using assms by (simp only: strtok_def list.case option.distinct)
next
  case (Cons x xs)
  have "x \<notin> set delim" using Cons by (metis hd_dropWhile list.sel(1) list.distinct(1))
  then have "rest = drop 1 (dropWhile (\<lambda>ch. ch \<notin> set delim) xs)"
    using assms Cons by (simp add: strtok_def)
  then have "length rest \<le> length xs" using length_dropWhile_le [of "\<lambda>ch. ch \<notin> set delim" xs] by simp
  moreover have "length (x # xs) \<le> length s" unfolding Cons [symmetric] by (rule length_dropWhile_le)
  ultimately show ?thesis by simp
qed

text \<open>All tokens, as a loop over \<^verbatim>\<open>strtok_r\<close> sees them.\<close>

function strtok_all :: "string \<Rightarrow> string \<Rightarrow> string list" where
  "strtok_all delim s = (case strtok delim s of None \<Rightarrow> [] | Some (tok, rest) \<Rightarrow> tok # strtok_all delim rest)"
  by pat_completeness auto
termination by (relation "measure (\<lambda>(delim, s). length s)") (auto dest: strtok_shorter)

declare strtok_all.simps [simp del]

lemma strtok_token:
  assumes "strtok delim s = Some (tok, rest)"
  shows "tok \<noteq> [] \<and> set tok \<inter> set delim = {}"
proof -
  obtain x xs where t: "dropWhile (\<lambda>ch. ch \<in> set delim) s = x # xs"
    and tok: "tok = takeWhile (\<lambda>ch. ch \<notin> set delim) (x # xs)"
    using assms by (auto simp: strtok_def split: list.splits)
  have "x \<notin> set delim" using t by (metis hd_dropWhile list.sel(1) list.distinct(1))
  then show ?thesis by (auto simp: tok dest: set_takeWhileD)
qed

lemma strtok_all_tokens: "tok \<in> set (strtok_all delim s) \<Longrightarrow> tok \<noteq> [] \<and> set tok \<inter> set delim = {}"
proof (induction delim s rule: strtok_all.induct)
  case (1 delim s)
  show ?case
  proof (cases "strtok delim s")
    case None
    then show ?thesis using "1.prems" strtok_all.simps [of delim s] by simp
  next
    case (Some tr)
    obtain t r where tr: "tr = (t, r)" by (cases tr)
    then have "tok = t \<or> tok \<in> set (strtok_all delim r)"
      using "1.prems" strtok_all.simps [of delim s] Some by simp
    then show ?thesis using "1.IH" [OF Some, of t r] strtok_token [of delim s t r] Some tr by blast
  qed
qed

end
