(* ===== verification/Breakpoints.thy ===== *)
theory Breakpoints
  imports Commit_Ring C_Lib
begin

text \<open>
  The breakpoint table of the monitor (\<^verbatim>\<open>nemu/src/monitor/sdb/sdb.c\<close>): an array filled from the
  front, searched linearly, from which an entry is deleted by moving the last one into its place. It
  implements a set of at most 16 addresses.
\<close>

definition NR_BREAKPOINTS :: nat where "NR_BREAKPOINTS = 16"

text \<open>An argument is \<^verbatim>\<open>NULL\<close> or a string.\<close>

type_synonym arg = "string option"

definition no_arg :: "arg \<Rightarrow> bool" where
  "no_arg args = (case args of None \<Rightarrow> True | Some s \<Rightarrow> s = [])"

definition parse_count :: "arg \<Rightarrow> u64 \<Rightarrow> u64" where
  "parse_count args default_value = (if no_arg args then default_value else strtoull (the args))"

fun bp_search :: "u32 list \<Rightarrow> u32 \<Rightarrow> bool" where
  "bp_search [] a = False"
| "bp_search (b # bs) a = (if b = a then True else bp_search bs a)"

definition sdb_breakpoint_hit :: "config \<Rightarrow> u32 \<Rightarrow> nemu \<Rightarrow> bool" where
  "sdb_breakpoint_hit c a s = (if CONFIG_TARGET_SHARE c then False else bp_search (breakpoints s) a)"

definition cmd_break :: "arg \<Rightarrow> nemu \<Rightarrow> nemu" where
  "cmd_break args s =
     (if no_arg args then emit (Message ''Usage: break <addr>'') s
      else if length (breakpoints s) \<ge> NR_BREAKPOINTS then emit (Break_msg ''full'' 0) s
      else let addr = ucast (strtoull (the args)) in
        if bp_search (breakpoints s) addr then emit (Break_msg ''exists'' addr) s
        else emit (Break_msg ''set'' addr) (s\<lparr>breakpoints := breakpoints s @ [addr]\<rparr>))"

text \<open>The loop of \<^verbatim>\<open>cmd_delete_break\<close>: the index of the first match.\<close>

fun bp_index :: "u32 list \<Rightarrow> u32 \<Rightarrow> nat \<Rightarrow> nat option" where
  "bp_index [] a i = None"
| "bp_index (b # bs) a i = (if b = a then Some i else bp_index bs a (Suc i))"

definition bp_delete_at :: "u32 list \<Rightarrow> nat \<Rightarrow> u32 list" where
  "bp_delete_at bs i = butlast (bs[i := bs ! (length bs - 1)])"

definition cmd_delete_break :: "arg \<Rightarrow> nemu \<Rightarrow> nemu" where
  "cmd_delete_break args s =
     (if no_arg args then emit (Message ''Usage: delete-break <addr>'') s
      else let addr = ucast (strtoull (the args)) in
        case bp_index (breakpoints s) addr 0 of
          Some i \<Rightarrow> emit (Break_msg ''deleted'' addr) (s\<lparr>breakpoints := bp_delete_at (breakpoints s) i\<rparr>)
        | None \<Rightarrow> emit (Break_msg ''missing'' addr) s)"

definition cmd_clear_breaks :: "nemu \<Rightarrow> nemu" where
  "cmd_clear_breaks s = emit (Message ''NEMU_BREAK status=cleared'') (s\<lparr>breakpoints := []\<rparr>)"

definition cmd_list_breaks :: "nemu \<Rightarrow> nemu" where
  "cmd_list_breaks s = emit_all (map Break_line (breakpoints s)) (emit (Break_list (length (breakpoints s))) s)"

section \<open>The table is a set\<close>

definition bp_inv :: "nemu \<Rightarrow> bool" where
  "bp_inv s \<longleftrightarrow> distinct (breakpoints s) \<and> length (breakpoints s) \<le> NR_BREAKPOINTS"

lemma bp_search_iff: "bp_search bs a \<longleftrightarrow> a \<in> set bs"
  by (induction bs) auto

lemma bp_index_None: "bp_index bs a i = None \<longleftrightarrow> a \<notin> set bs"
  by (induction bs arbitrary: i) auto

lemma bp_index_Some: "bp_index bs a i = Some j \<Longrightarrow> i \<le> j \<and> j - i < length bs \<and> bs ! (j - i) = a"
proof (induction bs arbitrary: i)
  case (Cons b bs)
  show ?case
  proof (cases "b = a")
    case False
    then show ?thesis using Cons.IH [of "Suc i"] Cons.prems by (auto simp: nth_Cons split: nat.splits)
      (metis Suc_diff_Suc Suc_le_lessD nat.inject)
  qed (use Cons.prems in auto)
qed simp

lemma bp_delete_at_set:
  assumes "distinct bs" and "i < length bs"
  shows "distinct (bp_delete_at bs i) \<and> set (bp_delete_at bs i) = set bs - {bs ! i} \<and>
    length (bp_delete_at bs i) = length bs - 1"
proof -
  obtain ys x where bs: "bs = ys @ [x]" using assms(2) by (cases bs rule: rev_cases) auto
  show ?thesis
  proof (cases "i < length ys")
    case True
    have e: "bp_delete_at bs i = ys[i := x]" using True by (simp add: bp_delete_at_def bs nth_append list_update_append)
    have "distinct (ys[i := x])" using assms(1) by (auto simp: bs intro: distinct_list_update)
    moreover have "set (ys[i := x]) = insert x (set ys - {ys ! i})"
      using assms(1) True by (simp add: bs set_update_distinct)
    ultimately show ?thesis using True assms(1) unfolding e by (auto simp: bs nth_append)
  next
    case False
    then have i: "i = length ys" using assms(2) by (simp add: bs)
    have "bp_delete_at bs i = ys" by (simp add: bp_delete_at_def bs i)
    then show ?thesis using assms(1) by (simp add: bs i)
  qed
qed

lemma emit_all_breakpoints [simp]: "breakpoints (emit_all xs s) = breakpoints s"
  by (induction xs arbitrary: s) (simp_all add: emit_def)

lemma breakpoints_emit [simp]: "breakpoints (emit x s) = breakpoints s"
  by (simp add: emit_def)

text \<open>Setting a breakpoint adds its address, unless the table is full.\<close>

lemma cmd_break_set:
  assumes "bp_inv s" and "a \<noteq> []"
  shows "bp_inv (cmd_break (Some a) s) \<and> set (breakpoints (cmd_break (Some a) s)) =
    (if length (breakpoints s) < NR_BREAKPOINTS then insert (ucast (strtoull a)) (set (breakpoints s))
     else set (breakpoints s))"
  using assms by (auto simp: cmd_break_def no_arg_def bp_inv_def bp_search_iff Let_def)

lemma cmd_delete_break_set:
  assumes "bp_inv s" and "a \<noteq> []"
  shows "bp_inv (cmd_delete_break (Some a) s) \<and>
    set (breakpoints (cmd_delete_break (Some a) s)) = set (breakpoints s) - {ucast (strtoull a)}"
proof (cases "bp_index (breakpoints s) (ucast (strtoull a)) 0")
  case None
  then have "ucast (strtoull a) \<notin> set (breakpoints s)" by (simp add: bp_index_None)
  moreover have "breakpoints (cmd_delete_break (Some a) s) = breakpoints s"
    using None assms by (simp add: cmd_delete_break_def no_arg_def)
  ultimately show ?thesis using assms by (simp add: bp_inv_def)
next
  case (Some i)
  then have "i < length (breakpoints s)" "breakpoints s ! i = ucast (strtoull a)"
    using bp_index_Some [OF Some] by auto
  moreover have "breakpoints (cmd_delete_break (Some a) s) = bp_delete_at (breakpoints s) i"
    using Some assms by (simp add: cmd_delete_break_def no_arg_def)
  ultimately show ?thesis using bp_delete_at_set [of "breakpoints s" i] assms(1)
    by (simp add: bp_inv_def) linarith
qed

end
