(* ===== verification/Cpu_Exec.thy ===== *)
theory Cpu_Exec
  imports Breakpoints
begin

text \<open>
  The main loop, \<^verbatim>\<open>nemu/src/cpu/cpu-exec.c\<close>, with the checking half of differential testing
  (\<^verbatim>\<open>nemu/src/cpu/difftest/dut.c\<close>). Two parties outside the sources are parameters: the host,
  which gives the time and the SDL events seen by \<^verbatim>\<open>device_update\<close> after the \<open>k\<close>-th retired
  instruction, and the reference simulator loaded as a shared object.
\<close>

section \<open>Parameters\<close>

record host =
  host_time :: "u64 \<Rightarrow> u64"
  host_events :: "u64 \<Rightarrow> sdl_event list"

record 'r ref_sim =
  ref_exec :: "'r \<Rightarrow> 'r"
  ref_regs :: "'r \<Rightarrow> CPU_state"
  ref_set_regs :: "CPU_state \<Rightarrow> 'r \<Rightarrow> 'r"

section \<open>Differential testing\<close>

fun ref_exec_n :: "'r ref_sim \<Rightarrow> nat \<Rightarrow> 'r \<Rightarrow> 'r" where
  "ref_exec_n R 0 r = r"
| "ref_exec_n R (Suc n) r = ref_exec_n R n (ref_exec R r)"

definition difftest_skip_dut :: "'r ref_sim \<Rightarrow> int \<Rightarrow> int \<Rightarrow> nemu \<times> 'r \<Rightarrow> nemu \<times> 'r" where
  "difftest_skip_dut R nr_ref nr_dut sr =
     ((fst sr)\<lparr>skip_dut_nr_inst := skip_dut_nr_inst (fst sr) + nr_dut\<rparr>, ref_exec_n R (nat nr_ref) (snd sr))"

definition isa_difftest_checkregs :: "CPU_state \<Rightarrow> u32 \<Rightarrow> bool" where
  "isa_difftest_checkregs ref_r a = False"

definition checkregs :: "CPU_state \<Rightarrow> u32 \<Rightarrow> nemu \<Rightarrow> nemu" where
  "checkregs ref a s =
     (if \<not> isa_difftest_checkregs ref a
      then s\<lparr>nemu_state := (nemu_state s)\<lparr>run_state := NEMU_ABORT, halt_pc := a\<rparr>\<rparr> else s)"

definition difftest_step :: "'r ref_sim \<Rightarrow> u32 \<Rightarrow> u32 \<Rightarrow> nemu \<times> 'r \<Rightarrow> (nemu \<times> 'r) res" where
  "difftest_step R a npc sr = (case sr of (s, r) \<Rightarrow>
     if skip_dut_nr_inst s > 0 then
       (if pc (ref_regs R r) = npc then Inr (checkregs (ref_regs R r) npc (s\<lparr>skip_dut_nr_inst := 0\<rparr>), r)
        else let s1 = s\<lparr>skip_dut_nr_inst := skip_dut_nr_inst s - 1\<rparr> in
          assertR (skip_dut_nr_inst s1 \<noteq> 0) ''can not catch up with ref.pc'' (Inr (s1, r)))
     else if is_skip_ref s then Inr (s\<lparr>is_skip_ref := False\<rparr>, ref_set_regs R (cpu s) r)
     else let r1 = ref_exec R r in Inr (checkregs (ref_regs R r1) a s, r1))"

section \<open>One instruction\<close>

definition make_commit_event :: "Decode \<Rightarrow> u32 \<Rightarrow> nemu \<Rightarrow> CommitEvent" where
  "make_commit_event d npc s =
     (let ev = zero_event\<lparr>ev_retire := g_nr_guest_inst s, ev_cycle := g_nr_guest_inst s, ev_pc := d_pc d,
                          ev_inst := d_inst d, ev_next_pc := npc\<rparr>;
          opcode = ev_inst ev AND 0x7f;
          rd = drop_bit 7 (ev_inst ev) AND 0x1f;
          has_wb0 = (opcode \<in> {0x37, 0x17, 0x6f, 0x67, 0x03, 0x13, 0x33, 0x73} \<and> rd \<noteq> 0);
          has_wb = (if opcode = 0x73 \<and> (drop_bit 12 (ev_inst ev) AND 0x7) = 0 then False else has_wb0);
          ev1 = ev\<lparr>ev_has_wb := (if has_wb then 1 else 0), ev_rd := ucast rd\<rparr>;
          ev2 = (if has_wb \<and> unat rd < length (gpr (cpu s)) then ev1\<lparr>ev_rd_value := gpr (cpu s) ! unat rd\<rparr> else ev1) in
      if d_exception d then
        ev2\<lparr>ev_exception := 1, ev_cause := d_exception_cause d, ev_has_wb := 0, ev_rd := 0, ev_rd_value := 0\<rparr>
      else if run_state (nemu_state s) = NEMU_ABORT then
        ev2\<lparr>ev_exception := 1, ev_cause := run_code (run_state (nemu_state s))\<rparr>
      else ev2)"

definition difftest_after_commit :: "config \<Rightarrow> 'r ref_sim \<Rightarrow> Decode \<Rightarrow> u32 \<Rightarrow> nemu \<times> 'r \<Rightarrow> (nemu \<times> 'r) res" where
  "difftest_after_commit c R d npc sr = (if CONFIG_DIFFTEST c then difftest_step R (d_pc d) npc sr else Inr sr)"

text \<open>The fields \<^verbatim>\<open>exec_once\<close> does not set are set by \<^verbatim>\<open>isa_exec_once\<close> before it reads them.\<close>

definition exec_once :: "config \<Rightarrow> u32 \<Rightarrow> nemu \<Rightarrow> (Decode \<times> nemu) res" where
  "exec_once c a s =
     bindR (isa_exec_once c \<lparr>d_pc = a, snpc = a, dnpc = 0, d_exception = False, d_exception_cause = 0, d_inst = 0\<rparr> s)
       (\<lambda>(d, s1). Inr (d, s1\<lparr>cpu := (cpu s1)\<lparr>pc := dnpc d\<rparr>\<rparr>))"

text \<open>An iteration of the loop of \<^verbatim>\<open>execute\<close>: the new state, and whether the loop goes on.\<close>

definition at_limit :: "nemu \<Rightarrow> bool" where
  "at_limit s \<longleftrightarrow> nemu_inst_limit s \<noteq> 0 \<and> g_nr_guest_inst s \<ge> nemu_inst_limit s"

definition retire :: "config \<Rightarrow> 'r ref_sim \<Rightarrow> nemu \<times> 'r \<Rightarrow> (nemu \<times> 'r) res" where
  "retire c R sr = (case sr of (s, r) \<Rightarrow>
     bindR (exec_once c (pc (cpu s)) s) (\<lambda>(d, s1).
       let s2 = s1\<lparr>g_nr_guest_inst := g_nr_guest_inst s1 + 1\<rparr>;
           s3 = commit_event_record (make_commit_event d (pc (cpu s2)) s2) s2 in
       difftest_after_commit c R d (pc (cpu s3)) (s3, r)))"

definition after_retire :: "config \<Rightarrow> host \<Rightarrow> nemu \<times> 'r \<Rightarrow> (bool \<times> nemu \<times> 'r) res" where
  "after_retire c h sr =
     (let s = fst sr; r = snd sr in
      if run_state (nemu_state s) \<noteq> NEMU_RUNNING then Inr (False, s, r)
      else if sdb_breakpoint_hit c (pc (cpu s)) s then
        Inr (False, emit (Break_hit (pc (cpu s)) (g_nr_guest_inst s))
               (s\<lparr>nemu_state := (nemu_state s)\<lparr>run_state := NEMU_STOP, halt_pc := pc (cpu s)\<rparr>\<rparr>), r)
      else if CONFIG_DEVICE c then
        bindR (device_update c (host_time h (g_nr_guest_inst s)) (host_events h (g_nr_guest_inst s)) s)
          (\<lambda>s1. Inr (True, s1, r))
      else Inr (True, s, r))"

definition loop_step :: "config \<Rightarrow> 'r ref_sim \<Rightarrow> host \<Rightarrow> nemu \<times> 'r \<Rightarrow> (bool \<times> nemu \<times> 'r) res" where
  "loop_step c R h sr =
     (let s = fst sr in
      if at_limit s then
        Inr (False, s\<lparr>nemu_state := \<lparr>run_state = NEMU_LIMIT, halt_pc = pc (cpu s), halt_ret = 1\<rparr>\<rparr>, snd sr)
      else bindR (retire c R sr) (after_retire c h))"

fun execute :: "config \<Rightarrow> 'r ref_sim \<Rightarrow> host \<Rightarrow> nat \<Rightarrow> nemu \<times> 'r \<Rightarrow> (nemu \<times> 'r) res" where
  "execute c R h 0 sr = Inr sr"
| "execute c R h (Suc n) sr = bindR (loop_step c R h sr) (\<lambda>(go, sr1). if go then execute c R h n sr1 else Inr sr1)"

section \<open>Running\<close>

definition nemu_result :: "nemu \<Rightarrow> string" where
  "nemu_result s = (case run_state (nemu_state s) of
     NEMU_END \<Rightarrow> if halt_ret (nemu_state s) = 0 then ''good'' else ''bad''
   | NEMU_ABORT \<Rightarrow> ''abort''
   | NEMU_QUIT \<Rightarrow> ''quit''
   | NEMU_LIMIT \<Rightarrow> ''limit''
   | NEMU_STOP \<Rightarrow> ''stop''
   | NEMU_RUNNING \<Rightarrow> ''running'')"

definition report_result :: "nemu \<Rightarrow> nemu" where
  "report_result s = emit (Result (nemu_result s) (run_state (nemu_state s)) (halt_pc (nemu_state s))
     (halt_ret (nemu_state s)) (g_nr_guest_inst s) (nemu_inst_limit s)) s"

text \<open>The report after the loop; \<^verbatim>\<open>Log\<close> and \<^verbatim>\<open>statistic\<close> write to the log only.\<close>

definition finish_run :: "nemu \<Rightarrow> nemu" where
  "finish_run s = (case run_state (nemu_state s) of
     NEMU_RUNNING \<Rightarrow> s\<lparr>nemu_state := (nemu_state s)\<lparr>run_state := NEMU_STOP\<rparr>\<rparr>
   | NEMU_END \<Rightarrow> report_result (if halt_ret (nemu_state s) \<noteq> 0 then commit_event_dump_last 0 s else s)
   | NEMU_ABORT \<Rightarrow> report_result (commit_event_dump_last 0 s)
   | NEMU_LIMIT \<Rightarrow> report_result (commit_event_dump_last 0 s)
   | NEMU_QUIT \<Rightarrow> report_result s
   | NEMU_STOP \<Rightarrow> report_result s)"

definition cpu_exec :: "config \<Rightarrow> 'r ref_sim \<Rightarrow> host \<Rightarrow> u64 \<Rightarrow> nemu \<times> 'r \<Rightarrow> (nemu \<times> 'r) res" where
  "cpu_exec c R h n sr = (case sr of (s, r) \<Rightarrow>
     if run_state (nemu_state s) \<in> {NEMU_END, NEMU_ABORT, NEMU_QUIT} then
       Inr (emit (Message ''Program execution has ended. To restart the program, exit NEMU and run again.'') s, r)
     else
       bindR (execute c R h (unat n) (s\<lparr>nemu_state := (nemu_state s)\<lparr>run_state := NEMU_RUNNING\<rparr>\<rparr>, r))
         (\<lambda>(s1, r1). Inr (finish_run s1, r1)))"

end
