(* ===== verification/Cpu_Props.thy ===== *)
theory Cpu_Props
  imports Cpu_Exec
begin

text \<open>
  Properties of the main loop: the invariant of the whole simulator, the instruction limit, the
  history of retired instructions, and running in pieces.
\<close>

section \<open>The invariant\<close>

definition nemu_inv :: "config \<Rightarrow> nemu \<Rightarrow> bool" where
  "nemu_inv c s \<longleftrightarrow> machine_ready c s \<and> regs_ok c s \<and> ring_inv s \<and> bp_inv s"

text \<open>What the invariant depends on.\<close>

definition inv_view :: "nemu \<Rightarrow> nemu" where
  "inv_view s = (isa_part s)\<lparr>cpu := cpu s, last_update := 0, g_nr_guest_inst := 0, key_queue := [], key_r := 0\<rparr>"

lemma inv_view_fields:
  assumes "inv_view s' = inv_view s"
  shows "mem_regions s' = mem_regions s" "p_space s' = p_space s" "maps s' = maps s" "cpu s' = cpu s"
    "nemu_inst_limit s' = nemu_inst_limit s" "commit_ring s' = commit_ring s"
    "commit_ring_next s' = commit_ring_next s" "commit_ring_count s' = commit_ring_count s"
    "breakpoints s' = breakpoints s" "cb_base f s' = cb_base f s"
proof -
  note f = arg_cong [OF assms]
  show "mem_regions s' = mem_regions s" using f [of mem_regions] by (simp add: inv_view_def isa_part_def machine_part_def)
  show "p_space s' = p_space s" using f [of p_space] by (simp add: inv_view_def isa_part_def machine_part_def)
  show "maps s' = maps s" using f [of maps] by (simp add: inv_view_def isa_part_def machine_part_def)
  show "cpu s' = cpu s" using f [of cpu] by (simp add: inv_view_def)
  show "nemu_inst_limit s' = nemu_inst_limit s" using f [of nemu_inst_limit] by (simp add: inv_view_def isa_part_def machine_part_def)
  show "commit_ring s' = commit_ring s" using f [of commit_ring] by (simp add: inv_view_def isa_part_def machine_part_def)
  show "commit_ring_next s' = commit_ring_next s" using f [of commit_ring_next] by (simp add: inv_view_def isa_part_def machine_part_def)
  show "commit_ring_count s' = commit_ring_count s" using f [of commit_ring_count] by (simp add: inv_view_def isa_part_def machine_part_def)
  show "breakpoints s' = breakpoints s" using f [of breakpoints] by (simp add: inv_view_def isa_part_def machine_part_def)
  show "cb_base f s' = cb_base f s" using f [of "cb_base f"] by (cases f) (simp_all add: inv_view_def isa_part_def machine_part_def)
qed

lemma nemu_inv_view: "inv_view s' = inv_view s \<Longrightarrow> nemu_inv c s' = nemu_inv c s"
  by (simp add: nemu_inv_def machine_ready_def mem_ready_def io_inv_def npc_windows_def map_ok_def space_top_def
      regs_ok_def ring_inv_def bp_inv_def inv_view_fields [of s' s])

lemmas view_defs = inv_view_def isa_part_def machine_part_def

lemma inv_view_state [simp]: "inv_view (s\<lparr>nemu_state := n\<rparr>) = inv_view s"
  by (simp add: view_defs)

lemma inv_view_emit [simp]: "inv_view (emit x s) = inv_view s"
  by (simp add: view_defs emit_def)

lemma inv_view_emit_all [simp]: "inv_view (emit_all xs s) = inv_view s"
  by (induction xs arbitrary: s) simp_all

lemma inv_view_dump [simp]: "inv_view (commit_event_dump_last n s) = inv_view s"
  by (simp add: commit_event_dump_last_def Let_def)

lemma inv_view_finish [simp]: "inv_view (finish_run s) = inv_view s"
  by (simp add: finish_run_def report_result_def split: nemu_run.splits)

lemma inv_view_enqueue: "key_enqueue x s = Inr s' \<Longrightarrow> inv_view s' = inv_view s"
  by (auto simp: key_enqueue_def view_defs)

lemma inv_view_poll: "poll_events c es s = Inr s' \<Longrightarrow> inv_view s' = inv_view s"
  by (induction c es s arbitrary: s' rule: poll_events.induct)
    (auto simp: bindR_eq_Inr send_key_def inv_view_enqueue split: if_splits)

lemma inv_view_device_update: "device_update c now es s = Inr s' \<Longrightarrow> inv_view s' = inv_view s"
proof -
  have "inv_view (s\<lparr>last_update := now\<rparr>) = inv_view s" by (simp add: view_defs)
  then show "device_update c now es s = Inr s' \<Longrightarrow> inv_view s' = inv_view s"
    by (auto simp: device_update_def Let_def dest!: inv_view_poll split: if_splits)
qed

lemma inv_view_difftest: "difftest_step R a npc (s, r) = Inr (s', r') \<Longrightarrow> inv_view s' = inv_view s"
  by (auto simp: difftest_step_def checkregs_def isa_difftest_checkregs_def Let_def view_defs split: if_splits)

lemma inv_view_after_commit: "difftest_after_commit c R d npc (s, r) = Inr (s', r') \<Longrightarrow> inv_view s' = inv_view s"
  using inv_view_difftest by (auto simp: difftest_after_commit_def split: if_splits)

lemma device_update_count: "device_update c now es s = Inr s' \<Longrightarrow> g_nr_guest_inst s' = g_nr_guest_inst s"
proof -
  have p: "g_nr_guest_inst s' = g_nr_guest_inst s" if "poll_events c es s = Inr s'" for c es s s'
    using that by (induction c es s arbitrary: s' rule: poll_events.induct)
      (auto simp: bindR_eq_Inr send_key_def key_enqueue_def Let_def split: if_splits)
  show "device_update c now es s = Inr s' \<Longrightarrow> g_nr_guest_inst s' = g_nr_guest_inst s"
    by (auto simp: device_update_def Let_def dest!: p split: if_splits)
qed

lemma difftest_count: "difftest_after_commit c R d npc (s, r) = Inr (s', r') \<Longrightarrow> g_nr_guest_inst s' = g_nr_guest_inst s"
  by (auto simp: difftest_after_commit_def difftest_step_def checkregs_def isa_difftest_checkregs_def Let_def split: if_splits)

section \<open>One iteration\<close>

text \<open>The decode record keeps the address and the word of the instruction.\<close>

definition same_inst :: "Decode \<Rightarrow> Decode \<Rightarrow> bool" where
  "same_inst d d' \<longleftrightarrow> d_pc d' = d_pc d \<and> d_inst d' = d_inst d"

lemma same_inst_simps [simp]:
  "same_inst d d" "same_inst d (d\<lparr>dnpc := x\<rparr>)" "same_inst (d\<lparr>dnpc := x\<rparr>) d' = same_inst d d'"
  by (auto simp: same_inst_def)

lemma same_inst_sync: "raise_sync_exception d k s = (d', s') \<Longrightarrow> same_inst d d'"
  by (auto simp: raise_sync_exception_def isa_raise_intr_def Let_def same_inst_def)

lemma same_inst_set_rd: "set_rd c rd v d s = Inr (d', s') \<Longrightarrow> d' = d"
  by (auto simp: set_rd_def bindR_eq_Inr)

lemma same_inst_exec:
  assumes "exec_inst c n rd a b imm d s = Inr (d', s')"
  shows "same_inst d d'"
proof -
  have "same_inst d d'" if "exec_load c len ext rd addr d s = Inr (d', s')" for len ext addr
    using that same_inst_sync [of d 5 s d' s']
    by (auto simp: exec_load_def bindR_eq_Inr dest!: same_inst_set_rd split: if_splits)
  moreover have "same_inst d d'" if "exec_store c len addr v d s = Inr (d', s')" for len addr v
    using that same_inst_sync [of d 7 s d' s'] by (auto simp: exec_store_def bindR_eq_Inr split: if_splits)
  moreover have "same_inst d d'" if "exec_csr c wr f rd d s = Inr (d', s')" for wr f
    using that by (auto simp: exec_csr_def Let_def bindR_eq_Inr dest!: same_inst_set_rd)
  ultimately show ?thesis using assms
    by (cases n) (auto simp: branch_def bindR_eq_Inr case_prod_beta dest!: same_inst_set_rd split: if_splits)
qed

lemma isa_exec_once_pc: "isa_exec_once c d s = Inr (d', s') \<Longrightarrow> d_pc d' = d_pc d"
  using same_inst_sync [of "d\<lparr>d_inst := 0, snpc := snpc d + 4, dnpc := snpc d + 4\<rparr>" 1 s d' s']
  by (auto simp: isa_exec_once_def decode_exec_cases bindR_eq_Inr Let_def same_inst_def
      dest!: same_inst_exec split: if_splits)

lemma exec_once_pc: "exec_once c a s = Inr (d, s') \<Longrightarrow> d_pc d = a"
  by (auto simp: exec_once_def bindR_eq_Inr dest!: isa_exec_once_pc)

text \<open>
  Retiring an instruction keeps the invariant, counts it, and records an event with its address and
  number.
\<close>

lemma exec_once_inv:
  assumes "nemu_inv c s" and "exec_once c a s = Inr (d, s')"
  shows "nemu_inv c s' \<and> g_nr_guest_inst s' = g_nr_guest_inst s \<and> nemu_inst_limit s' = nemu_inst_limit s \<and>
    ring_events s' = ring_events s"
proof -
  obtain s1 where "isa_exec_once c \<lparr>d_pc = a, snpc = a, dnpc = 0, d_exception = False, d_exception_cause = 0,
      d_inst = 0\<rparr> s = Inr (d, s1)" and s': "s' = s1\<lparr>cpu := (cpu s1)\<lparr>pc := dnpc d\<rparr>\<rparr>"
    using assms(2) by (auto simp: exec_once_def bindR_eq_Inr)
  then have f: "isa_frame s s1" and "regs_ok c s1"
    using isa_exec_once_frame assms(1) by (auto simp: nemu_inv_def)
  moreover have "machine_ready c s'"
  proof -
    have "machine_ready c s1" using machine_ready_isa [OF f] assms(1) by (simp add: nemu_inv_def)
    moreover have "cb_base g s' = cb_base g s1" for g by (cases g) (simp_all add: s')
    ultimately show ?thesis
      by (simp add: machine_ready_def mem_ready_def io_inv_def npc_windows_def map_ok_def space_top_def s')
  qed
  ultimately show ?thesis using assms(1)
    by (simp add: nemu_inv_def regs_ok_def ring_inv_def bp_inv_def ring_events_def ring_first_def s' isa_frame_fields [OF f])
qed

lemma record_fields [simp]:
  "g_nr_guest_inst (commit_event_record ev s) = g_nr_guest_inst s"
  "nemu_inst_limit (commit_event_record ev s) = nemu_inst_limit s"
  "mem_regions (commit_event_record ev s) = mem_regions s" "maps (commit_event_record ev s) = maps s"
  "p_space (commit_event_record ev s) = p_space s" "cpu (commit_event_record ev s) = cpu s"
  "breakpoints (commit_event_record ev s) = breakpoints s" "cb_base f (commit_event_record ev s) = cb_base f s"
  by (simp_all add: commit_event_record_def Let_def) (cases f; simp)

lemma nemu_inv_record: "nemu_inv c s \<Longrightarrow> nemu_inv c (commit_event_record ev s)"
  by (simp add: nemu_inv_def machine_ready_def mem_ready_def io_inv_def npc_windows_def map_ok_def space_top_def
      regs_ok_def bp_inv_def ring_inv_record)

lemma nemu_inv_count: "nemu_inv c (s\<lparr>g_nr_guest_inst := n\<rparr>) = nemu_inv c s"
  by (rule nemu_inv_view) (simp add: view_defs)

lemma ring_events_view: "inv_view s' = inv_view s \<Longrightarrow> ring_events s' = ring_events s"
  by (simp add: ring_events_def ring_first_def inv_view_fields [of s' s])

lemma retire_inv:
  assumes "nemu_inv c s" and "retire c R (s, r) = Inr (s', r')"
  shows "nemu_inv c s' \<and> g_nr_guest_inst s' = g_nr_guest_inst s + 1 \<and> nemu_inst_limit s' = nemu_inst_limit s \<and>
    (\<exists>ev. ring_events s' = cr.last_n COMMIT_EVENT_RING_SIZE (ring_events s @ [ev]) \<and>
       ev_retire ev = g_nr_guest_inst s + 1 \<and> ev_pc ev = pc (cpu s) \<and> ev_next_pc ev = pc (cpu s'))"
proof -
  obtain d s1 where 1: "exec_once c (pc (cpu s)) s = Inr (d, s1)"
    and 2: "difftest_after_commit c R d (pc (cpu s1)) (commit_event_record
        (make_commit_event d (pc (cpu s1)) (s1\<lparr>g_nr_guest_inst := g_nr_guest_inst s1 + 1\<rparr>))
        (s1\<lparr>g_nr_guest_inst := g_nr_guest_inst s1 + 1\<rparr>), r) = Inr (s', r')"
    using assms(2) by (auto simp: retire_def bindR_eq_Inr Let_def)
  let ?s2 = "s1\<lparr>g_nr_guest_inst := g_nr_guest_inst s1 + 1\<rparr>"
  let ?ev = "make_commit_event d (pc (cpu s1)) ?s2"
  let ?s3 = "commit_event_record ?ev ?s2"
  have e: "nemu_inv c s1" "g_nr_guest_inst s1 = g_nr_guest_inst s" "nemu_inst_limit s1 = nemu_inst_limit s"
    "ring_events s1 = ring_events s" using exec_once_inv [OF assms(1) 1] by auto
  have v: "inv_view s' = inv_view ?s3" using inv_view_after_commit [OF 2] .
  have i2: "nemu_inv c ?s2" using e(1) by (simp add: nemu_inv_count)
  have "nemu_inv c s'" using nemu_inv_record [OF i2] nemu_inv_view [OF v] by simp
  moreover have "g_nr_guest_inst s' = g_nr_guest_inst s + 1" using difftest_count [OF 2] e by simp
  moreover have "nemu_inst_limit s' = nemu_inst_limit s" using inv_view_fields(5) [OF v] e by simp
  moreover have "ring_events s' = cr.last_n COMMIT_EVENT_RING_SIZE (ring_events s @ [?ev])"
  proof -
    have "ring_events ?s2 = ring_events s1" by (simp add: ring_events_def ring_first_def)
    then show ?thesis using ring_events_view [OF v] cr.hist_push_last [of ?s2 ?ev] i2 e(4) by (simp add: nemu_inv_def)
  qed
  moreover have "ev_retire ?ev = g_nr_guest_inst s + 1" "ev_pc ?ev = pc (cpu s)" "ev_next_pc ?ev = pc (cpu s')"
    using e inv_view_fields(4) [OF v] exec_once_pc [OF 1] by (simp_all add: make_commit_event_def Let_def zero_event_def)
  ultimately show ?thesis by (intro conjI exI [of _ ?ev]) auto
qed

section \<open>The loop\<close>

text \<open>One pass through the loop retires one instruction or stops at the limit.\<close>

lemma after_retire_view:
  assumes "after_retire c h (s, r) = Inr (go, s', r')"
  shows "inv_view s' = inv_view s \<and> g_nr_guest_inst s' = g_nr_guest_inst s \<and>
    (\<not> go \<longrightarrow> run_state (nemu_state s') \<noteq> NEMU_RUNNING)"
proof -
  let ?b = "emit (Break_hit (pc (cpu s)) (g_nr_guest_inst s))
      (s\<lparr>nemu_state := (nemu_state s)\<lparr>run_state := NEMU_STOP, halt_pc := pc (cpu s)\<rparr>\<rparr>)"
  consider (stopped) "s' = s" "\<not> go" "run_state (nemu_state s) \<noteq> NEMU_RUNNING"
    | (hit) "s' = ?b" "\<not> go"
    | (dev) "go" "device_update c (host_time h (g_nr_guest_inst s)) (host_events h (g_nr_guest_inst s)) s = Inr s'"
    | (go) "s' = s" "go"
    using assms by (simp add: after_retire_def Let_def bindR_eq_Inr split: if_split_asm)
  then show ?thesis
  proof cases
    case hit
    have "g_nr_guest_inst ?b = g_nr_guest_inst s" "run_state (nemu_state ?b) = NEMU_STOP" by (simp_all add: emit_def)
    then show ?thesis using hit by simp
  next
    case dev
    then show ?thesis using inv_view_device_update device_update_count by blast
  qed simp_all
qed

lemma loop_step_cases:
  assumes "loop_step c R h (s, r) = Inr (go, s', r')"
  obtains (limit) "at_limit s" "\<not> go" "r' = r"
      "s' = s\<lparr>nemu_state := \<lparr>run_state = NEMU_LIMIT, halt_pc = pc (cpu s), halt_ret = 1\<rparr>\<rparr>"
    | (retired) s1 r1 where "\<not> at_limit s" "retire c R (s, r) = Inr (s1, r1)"
      "after_retire c h (s1, r1) = Inr (go, s', r')"
  using assms by (cases "at_limit s") (auto simp: loop_step_def bindR_eq_Inr)

lemma loop_step_inv:
  assumes "nemu_inv c s" and "loop_step c R h (s, r) = Inr (go, s', r')"
  shows "nemu_inv c s' \<and> nemu_inst_limit s' = nemu_inst_limit s \<and>
    g_nr_guest_inst s' = (if at_limit s then g_nr_guest_inst s else g_nr_guest_inst s + 1) \<and>
    (\<not> go \<longrightarrow> run_state (nemu_state s') \<noteq> NEMU_RUNNING)"
  using assms(2)
proof (cases rule: loop_step_cases)
  case limit
  then show ?thesis using assms(1) nemu_inv_view [of s' s] by simp
next
  case (retired s1 r1)
  have i: "nemu_inv c s1" "g_nr_guest_inst s1 = g_nr_guest_inst s + 1" "nemu_inst_limit s1 = nemu_inst_limit s"
    using retire_inv [OF assms(1) retired(2)] by auto
  have a: "inv_view s' = inv_view s1" "g_nr_guest_inst s' = g_nr_guest_inst s1"
    "\<not> go \<longrightarrow> run_state (nemu_state s') \<noteq> NEMU_RUNNING"
    using after_retire_view [OF retired(3)] by auto
  show ?thesis using i a(2,3) retired(1) nemu_inv_view [OF a(1)] inv_view_fields(5) [OF a(1)] by simp
qed

lemma execute_inv:
  assumes "nemu_inv c s" and "execute c R h n (s, r) = Inr (s', r')"
  shows "nemu_inv c s' \<and> nemu_inst_limit s' = nemu_inst_limit s"
  using assms
proof (induction n arbitrary: s r)
  case (Suc n)
  obtain go s1 r1 where 1: "loop_step c R h (s, r) = Inr (go, s1, r1)"
    and 2: "(if go then execute c R h n (s1, r1) else Inr (s1, r1)) = Inr (s', r')"
    using Suc.prems(2) by (auto simp: bindR_eq_Inr)
  then show ?case using loop_step_inv [OF Suc.prems(1) 1] Suc.IH [of s1 r1] by (auto split: if_splits)
qed simp

text \<open>The limit is never exceeded, and a run of \<open>n\<close> retires at most \<open>n\<close> instructions.\<close>

definition under_limit :: "nemu \<Rightarrow> bool" where
  "under_limit s \<longleftrightarrow> nemu_inst_limit s \<noteq> 0 \<longrightarrow> g_nr_guest_inst s \<le> nemu_inst_limit s"

lemma u64_succ_le: "(a :: u64) < b \<Longrightarrow> a + 1 \<le> b"
  by (rule inc_le)

lemma loop_step_limit:
  assumes "nemu_inv c s" and "under_limit s" and "loop_step c R h (s, r) = Inr (go, s', r')"
  shows "under_limit s'"
  using loop_step_inv [OF assms(1,3)] assms(2) u64_succ_le [of "g_nr_guest_inst s" "nemu_inst_limit s"]
  by (auto simp: under_limit_def at_limit_def not_le split: if_splits)

lemma execute_limit:
  assumes "nemu_inv c s" and "under_limit s" and "execute c R h n (s, r) = Inr (s', r')"
  shows "under_limit s'"
  using assms
proof (induction n arbitrary: s r)
  case (Suc n)
  obtain go s1 r1 where 1: "loop_step c R h (s, r) = Inr (go, s1, r1)"
    and 2: "(if go then execute c R h n (s1, r1) else Inr (s1, r1)) = Inr (s', r')"
    using Suc.prems(3) by (auto simp: bindR_eq_Inr)
  then show ?case using loop_step_inv [OF Suc.prems(1) 1] loop_step_limit [OF Suc.prems(1,2) 1] Suc.IH [of s1 r1]
    by (auto split: if_splits)
qed simp

lemma execute_count:
  assumes "nemu_inv c s" and "execute c R h n (s, r) = Inr (s', r')"
  shows "\<exists>k \<le> n. g_nr_guest_inst s' = g_nr_guest_inst s + of_nat k"
  using assms
proof (induction n arbitrary: s r)
  case (Suc n)
  obtain go s1 r1 where 1: "loop_step c R h (s, r) = Inr (go, s1, r1)"
    and 2: "(if go then execute c R h n (s1, r1) else Inr (s1, r1)) = Inr (s', r')"
    using Suc.prems(2) by (auto simp: bindR_eq_Inr)
  have i: "nemu_inv c s1" "\<exists>j \<le> 1. g_nr_guest_inst s1 = g_nr_guest_inst s + of_nat j"
    using loop_step_inv [OF Suc.prems(1) 1] by (auto intro: exI [of _ 0] exI [of _ 1])
  then obtain j where j: "j \<le> 1" "g_nr_guest_inst s1 = g_nr_guest_inst s + of_nat j" by blast
  show ?case
  proof (cases go)
    case True
    then obtain k where "k \<le> n" "g_nr_guest_inst s' = g_nr_guest_inst s1 + of_nat k"
      using Suc.IH [OF i(1)] 2 by auto
    then show ?thesis using j by (intro exI [of _ "j + k"]) (simp add: add.assoc)
  next
    case False
    then show ?thesis using j 2 by (intro exI [of _ j]) simp
  qed
qed auto

text \<open>A run that is still going on after \<open>m\<close> instructions can be continued: running is additive.\<close>

lemma loop_step_stops:
  assumes "loop_step c R h (s, r) = Inr (False, s', r')"
  shows "run_state (nemu_state s') \<noteq> NEMU_RUNNING"
  using assms
proof (cases rule: loop_step_cases)
  case (retired s1 r1)
  then show ?thesis using after_retire_view [OF retired(3)] by simp
qed simp

lemma execute_add:
  assumes "execute c R h m (s, r) = Inr (s', r')" and "run_state (nemu_state s') = NEMU_RUNNING"
  shows "execute c R h (m + n) (s, r) = execute c R h n (s', r')"
  using assms
proof (induction m arbitrary: s r)
  case (Suc m)
  obtain go s1 r1 where 1: "loop_step c R h (s, r) = Inr (go, s1, r1)"
    and 2: "(if go then execute c R h m (s1, r1) else Inr (s1, r1)) = Inr (s', r')"
    using Suc.prems(1) by (auto simp: bindR_eq_Inr)
  have go using 1 2 loop_step_stops [of c R h s r s1 r1] Suc.prems(2) by (cases go) auto
  then show ?case using 1 2 Suc.IH [of s1 r1] Suc.prems(2) by simp
qed simp

section \<open>Runs\<close>

lemma finish_run_state [simp]:
  "run_state (nemu_state (finish_run s)) =
     (if run_state (nemu_state s) = NEMU_RUNNING then NEMU_STOP else run_state (nemu_state s))"
proof -
  have d: "nemu_state (commit_event_dump_last n s) = nemu_state s" for n
  proof -
    have "nemu_state (emit_all xs t) = nemu_state t" for xs t
      by (induction xs arbitrary: t) (simp_all add: emit_def)
    then show ?thesis by (simp add: commit_event_dump_last_def emit_def Let_def)
  qed
  show ?thesis by (simp add: finish_run_def report_result_def emit_def d split: nemu_run.splits)
qed

lemma finish_run_count [simp]: "g_nr_guest_inst (finish_run s) = g_nr_guest_inst s"
proof -
  have "g_nr_guest_inst (commit_event_dump_last n s) = g_nr_guest_inst s" for n
  proof -
    have "g_nr_guest_inst (emit_all xs t) = g_nr_guest_inst t" for xs t
      by (induction xs arbitrary: t) (simp_all add: emit_def)
    then show ?thesis by (simp add: commit_event_dump_last_def emit_def Let_def)
  qed
  then show ?thesis by (simp add: finish_run_def report_result_def emit_def split: nemu_run.splits)
qed

lemma cpu_exec_cases:
  assumes "cpu_exec c R h n (s, r) = Inr (s', r')"
  obtains (ended) "run_state (nemu_state s) \<in> {NEMU_END, NEMU_ABORT, NEMU_QUIT}" "r' = r"
      "s' = emit (Message ''Program execution has ended. To restart the program, exit NEMU and run again.'') s"
    | (run) s1 where "run_state (nemu_state s) \<notin> {NEMU_END, NEMU_ABORT, NEMU_QUIT}"
      "execute c R h (unat n) (s\<lparr>nemu_state := (nemu_state s)\<lparr>run_state := NEMU_RUNNING\<rparr>\<rparr>, r) = Inr (s1, r')"
      "s' = finish_run s1"
  using assms by (auto simp: cpu_exec_def bindR_eq_Inr split: if_splits)

lemma cpu_exec_inv:
  assumes "nemu_inv c s" and "cpu_exec c R h n (s, r) = Inr (s', r')"
  shows "nemu_inv c s'"
  using assms(2)
proof (cases rule: cpu_exec_cases)
  case ended
  then show ?thesis using assms(1) nemu_inv_view [of s' s] by simp
next
  case (run s1)
  let ?s0 = "s\<lparr>nemu_state := (nemu_state s)\<lparr>run_state := NEMU_RUNNING\<rparr>\<rparr>"
  have "nemu_inv c ?s0" using assms(1) nemu_inv_view [of ?s0 s] by simp
  then have "nemu_inv c s1" using execute_inv [OF _ run(2)] by simp
  then show ?thesis using run(3) nemu_inv_view [of s' s1] by simp
qed

lemma cpu_exec_limit:
  assumes "nemu_inv c s" and "under_limit s" and "cpu_exec c R h n (s, r) = Inr (s', r')"
  shows "under_limit s'"
  using assms(3)
proof (cases rule: cpu_exec_cases)
  case ended
  then show ?thesis using assms(2) by (simp add: under_limit_def emit_def)
next
  case (run s1)
  let ?s0 = "s\<lparr>nemu_state := (nemu_state s)\<lparr>run_state := NEMU_RUNNING\<rparr>\<rparr>"
  have "nemu_inv c ?s0" using assms(1) nemu_inv_view [of ?s0 s] by simp
  moreover have "under_limit ?s0" using assms(2) by (simp add: under_limit_def)
  ultimately have "under_limit s1" using execute_limit [OF _ _ run(2)] by simp
  moreover have "nemu_inst_limit s' = nemu_inst_limit s1"
    using run(3) inv_view_fields(5) [of s' s1] by simp
  ultimately show ?thesis using run(3) by (simp add: under_limit_def)
qed

lemma cpu_exec_not_running:
  assumes "cpu_exec c R h n (s, r) = Inr (s', r')"
  shows "run_state (nemu_state s') \<noteq> NEMU_RUNNING"
  using assms by (cases rule: cpu_exec_cases) (auto simp: emit_def)

section \<open>Runs make no stray access\<close>

lemma safe_poll: "safe (poll_events c es s)"
proof (induction c es s rule: poll_events.induct)
  case (3 c k down es s)
  then show ?case by (auto simp: send_key_def key_enqueue_def Let_def intro!: safe_bindR)
qed simp_all

lemma safe_after_retire: "safe (after_retire c h sr)"
  using safe_poll by (auto simp: after_retire_def Let_def device_update_def safe_bindR_Inr)

lemma safe_difftest: "safe (difftest_after_commit c R d npc sr)"
  by (cases sr) (simp add: difftest_after_commit_def difftest_step_def Let_def)

lemma safe_loop_step:
  assumes "regs_checked c" and "nemu_inv c s"
  shows "safe (loop_step c R h (s, r))"
proof -
  have "safe (exec_once c a s)" for a
    using isa_exec_once_safe [OF assms(1), of s] assms(2)
    by (auto simp: exec_once_def nemu_inv_def intro!: safe_bindR)
  then have "safe (retire c R (s, r))"
    by (auto simp: retire_def case_prod_beta Let_def safe_difftest intro!: safe_bindR)
  then show ?thesis by (auto simp: loop_step_def Let_def safe_after_retire intro!: safe_bindR)
qed

lemma safe_execute:
  assumes "regs_checked c" and "nemu_inv c s"
  shows "safe (execute c R h n (s, r))"
  using assms(2)
proof (induction n arbitrary: s r)
  case (Suc n)
  have "safe (if go then execute c R h n (s1, r1) else Inr (s1, r1))"
    if "loop_step c R h (s, r) = Inr (go, s1, r1)" for go s1 r1
    using loop_step_inv [OF Suc.prems that] Suc.IH by auto
  then show ?case using safe_loop_step [OF assms(1) Suc.prems, of R h r]
    by (auto simp: case_prod_beta intro!: safe_bindR)
qed simp

lemma safe_cpu_exec:
  assumes "regs_checked c" and "nemu_inv c s"
  shows "safe (cpu_exec c R h n (s, r))"
proof -
  let ?s0 = "s\<lparr>nemu_state := (nemu_state s)\<lparr>run_state := NEMU_RUNNING\<rparr>\<rparr>"
  have "nemu_inv c ?s0" using assms(2) nemu_inv_view [of ?s0 s] by simp
  then show ?thesis using safe_execute [OF assms(1)] by (auto simp: cpu_exec_def intro!: safe_bindR)
qed

section \<open>Traps\<close>

text \<open>An instruction fetch that is not allowed enters the trap handler and does nothing else.\<close>

lemma exec_once_fetch_fault:
  assumes "\<not> vaddr_access_ok c s a 4"
  shows "\<exists>d. exec_once c a s =
    Inr (d, s\<lparr>cpu := (cpu s)\<lparr>pc := mtvec (cpu s), mepc := a, mcause := 1\<rparr>\<rparr>) \<and> d_exception d \<and> d_exception_cause d = 1"
  using assms
  by (simp add: exec_once_def isa_exec_once_def Let_def raise_sync_exception_def isa_raise_intr_def)

text \<open>So does a load or store, from its address, with its own cause.\<close>

lemma exec_access_fault:
  assumes "\<not> vaddr_access_ok c s addr len"
  shows "exec_load c len ext rd addr d s =
      Inr (d\<lparr>d_exception := True, d_exception_cause := 5, dnpc := mtvec (cpu s)\<rparr>,
           s\<lparr>cpu := (cpu s)\<lparr>mepc := d_pc d, mcause := 5\<rparr>\<rparr>)"
    and "exec_store c len addr v d s =
      Inr (d\<lparr>d_exception := True, d_exception_cause := 7, dnpc := mtvec (cpu s)\<rparr>,
           s\<lparr>cpu := (cpu s)\<lparr>mepc := d_pc d, mcause := 7\<rparr>\<rparr>)"
  using assms by (simp_all add: exec_load_def exec_store_def raise_sync_exception_def isa_raise_intr_def)

end
