(* ===== verification/Sdb.thy ===== *)
theory Sdb
  imports Cpu_Props
begin

text \<open>
  The simple debugger (\<^verbatim>\<open>nemu/src/monitor/sdb/sdb.c\<close>): the commands, how a line is split and
  dispatched, scripts and the main loop. A handler returns its \<^verbatim>\<open>int\<close> result and the new state;
  a negative result ends the session. The lines \<^verbatim>\<open>readline\<close> gives and the contents of the script
  file are parameters.
\<close>

section \<open>Commands\<close>

type_synonym 'r run = "(int \<times> nemu \<times> 'r) res"

definition on_nemu :: "(nemu \<Rightarrow> nemu) \<Rightarrow> nemu \<times> 'r \<Rightarrow> 'r run" where
  "on_nemu f sr = Inr (0, f (fst sr), snd sr)"

definition cmd_c :: "config \<Rightarrow> 'r ref_sim \<Rightarrow> host \<Rightarrow> nemu \<times> 'r \<Rightarrow> 'r run" where
  "cmd_c c R h sr = bindR (cpu_exec c R h (-1) sr) (\<lambda>sr1. Inr (0, sr1))"

definition cmd_run :: "config \<Rightarrow> 'r ref_sim \<Rightarrow> host \<Rightarrow> arg \<Rightarrow> nemu \<times> 'r \<Rightarrow> 'r run" where
  "cmd_run c R h args sr = bindR (cpu_exec c R h (parse_count args (-1)) sr) (\<lambda>sr1. Inr (0, sr1))"

definition cmd_step :: "config \<Rightarrow> 'r ref_sim \<Rightarrow> host \<Rightarrow> arg \<Rightarrow> nemu \<times> 'r \<Rightarrow> 'r run" where
  "cmd_step c R h args sr = bindR (cpu_exec c R h (parse_count args 1) sr) (\<lambda>sr1. Inr (0, sr1))"

definition cmd_q :: "nemu \<times> 'r \<Rightarrow> 'r run" where
  "cmd_q sr = Inr (-1, (fst sr)\<lparr>nemu_state := (nemu_state (fst sr))\<lparr>run_state := NEMU_QUIT\<rparr>\<rparr>, snd sr)"

definition cmd_last :: "arg \<Rightarrow> nemu \<times> 'r \<Rightarrow> 'r run" where
  "cmd_last args = on_nemu (commit_event_dump_last (unat (parse_count args 0)))"

definition reg_lines :: "nemu \<Rightarrow> outev list" where
  "reg_lines s = map (\<lambda>i. Reg_line i (gpr (cpu s) ! i)) [0..<length (gpr (cpu s))]"

text \<open>
  The loop of \<^verbatim>\<open>print mem\<close>. The counter is a \<^verbatim>\<open>size_t\<close>; the addresses wrap at 32 bits, so a
  size that could make it wrap covers an unmapped address and has ended NEMU before.
\<close>

function print_mem :: "config \<Rightarrow> u32 \<Rightarrow> nat \<Rightarrow> nat \<Rightarrow> nemu \<Rightarrow> nemu res" where
  "print_mem c addr sz off s =
     (if off < sz then
        let len = (if sz - off \<ge> 4 then 4 else int (sz - off)); cur = addr + of_nat off in
        bindR (paddr_read c cur len s) (\<lambda>(v, s1). print_mem c addr sz (off + 4) (emit (Mem_line cur v) s1))
      else Inr s)"
  by pat_completeness auto
termination by (relation "measure (\<lambda>(c, addr, sz, off, s). sz - off)") auto

declare print_mem.simps [simp del]

definition cmd_print :: "config \<Rightarrow> arg \<Rightarrow> nemu \<times> 'r \<Rightarrow> 'r run" where
  "cmd_print c args sr =
     (let s = fst sr; done = (\<lambda>f. on_nemu f sr) in
      case args of None \<Rightarrow> done (emit (Message ''Usage: print pc|reg [i]|mem <addr> <size>''))
      | Some a \<Rightarrow> (case strtok '' '' a of None \<Rightarrow> done id
        | Some (kind, rest) \<Rightarrow>
            if kind = ''pc'' then done (emit (Pc_line (pc (cpu s))))
            else if kind = ''reg'' then
              (case strtok '' '' rest of
                 None \<Rightarrow> done (emit_all (reg_lines s))
               | Some (idx_s, _) \<Rightarrow>
                   let idx = sint (of_int (strtol idx_s) :: u32) in
                   if idx \<ge> 0 \<and> idx < int (length (gpr (cpu s)))
                   then done (emit (Reg_line (nat idx) (gpr (cpu s) ! nat idx)))
                   else done (emit (Message ''invalid register index'')))
            else if kind = ''mem'' then
              (case strtok '' '' rest of
                 None \<Rightarrow> done (emit (Message ''Usage: print mem <addr> <size>''))
               | Some (addr_s, rest2) \<Rightarrow> (case strtok '' '' rest2 of
                   None \<Rightarrow> done (emit (Message ''Usage: print mem <addr> <size>''))
                 | Some (size_s, _) \<Rightarrow>
                     bindR (print_mem c (ucast (strtoull addr_s)) (unat (strtoull size_s)) 0 s)
                       (\<lambda>s1. Inr (0, s1, snd sr))))
            else done (emit (Message ''Unknown print target''))))"

definition cmd_dump :: "arg \<Rightarrow> nemu \<times> 'r \<Rightarrow> 'r run" where
  "cmd_dump args sr =
     (let s = fst sr; kind = (case args of None \<Rightarrow> None | Some a \<Rightarrow> strtok '' '' a) in
      if kind = None \<or> fst (the kind) = ''state'' then
        on_nemu (\<lambda>s. emit_all (State_line (pc (cpu s)) (run_state (nemu_state s)) (halt_pc (nemu_state s))
          (halt_ret (nemu_state s)) # reg_lines s) s) sr
      else on_nemu (emit (Message ''Usage: dump state'')) sr)"

section \<open>Dispatch\<close>

datatype cmd_name =
    C_help | C_c | C_run | C_step | C_print | C_dump | C_last | C_break | C_delete_break
  | C_clear_breaks | C_list_breaks | C_q

definition cmd_table :: "(string \<times> string \<times> cmd_name) list" where
  "cmd_table =
    [(''help'', ''Display information about all supported commands'', C_help),
     (''c'', ''Continue the execution of the program'', C_c),
     (''run'', ''Run [n] retired instructions'', C_run),
     (''step'', ''Step [n] retired instructions'', C_step),
     (''si'', ''Alias of step [n]'', C_step),
     (''print'', ''Print pc, reg, or memory'', C_print),
     (''dump'', ''Dump state'', C_dump),
     (''last'', ''Print last [n] CommitEvents'', C_last),
     (''break'', ''Set a PC breakpoint'', C_break),
     (''delete-break'', ''Delete a PC breakpoint'', C_delete_break),
     (''clear-breaks'', ''Delete all PC breakpoints'', C_clear_breaks),
     (''list-breaks'', ''List PC breakpoints'', C_list_breaks),
     (''q'', ''Exit NEMU'', C_q),
     (''quit'', ''Exit NEMU'', C_q),
     (''exit'', ''Exit NEMU'', C_q)]"

definition help_line :: "string \<times> string \<times> cmd_name \<Rightarrow> outev" where
  "help_line e = Message (fst e @ '' - '' @ fst (snd e))"

definition cmd_help :: "arg \<Rightarrow> nemu \<times> 'r \<Rightarrow> 'r run" where
  "cmd_help args sr =
     (case (case args of None \<Rightarrow> None | Some a \<Rightarrow> strtok '' '' a) of
        None \<Rightarrow> on_nemu (emit_all (map help_line cmd_table)) sr
      | Some (name, _) \<Rightarrow> (case find (\<lambda>e. fst e = name) cmd_table of
          Some e \<Rightarrow> on_nemu (emit (help_line e)) sr
        | None \<Rightarrow> on_nemu (emit (Message (''Unknown command '' @ name))) sr))"

primrec run_cmd :: "config \<Rightarrow> 'r ref_sim \<Rightarrow> host \<Rightarrow> cmd_name \<Rightarrow> arg \<Rightarrow> nemu \<times> 'r \<Rightarrow> 'r run" where
  "run_cmd c R h C_help args sr = cmd_help args sr"
| "run_cmd c R h C_c args sr = cmd_c c R h sr"
| "run_cmd c R h C_run args sr = cmd_run c R h args sr"
| "run_cmd c R h C_step args sr = cmd_step c R h args sr"
| "run_cmd c R h C_print args sr = cmd_print c args sr"
| "run_cmd c R h C_dump args sr = cmd_dump args sr"
| "run_cmd c R h C_last args sr = cmd_last args sr"
| "run_cmd c R h C_break args sr = on_nemu (cmd_break args) sr"
| "run_cmd c R h C_delete_break args sr = on_nemu (cmd_delete_break args) sr"
| "run_cmd c R h C_clear_breaks args sr = on_nemu cmd_clear_breaks sr"
| "run_cmd c R h C_list_breaks args sr = on_nemu cmd_list_breaks sr"
| "run_cmd c R h C_q args sr = cmd_q sr"

definition sdb_blank :: "char \<Rightarrow> bool" where
  "sdb_blank ch \<longleftrightarrow> ch \<in> {CHR '' '', CHR 0x09, CHR 0x0A}"

definition sdb_trim :: "string \<Rightarrow> string" where
  "sdb_trim str = rev (dropWhile sdb_blank (rev (dropWhile sdb_blank str)))"

definition sdb_exec_one :: "config \<Rightarrow> 'r ref_sim \<Rightarrow> host \<Rightarrow> string \<Rightarrow> nemu \<times> 'r \<Rightarrow> 'r run" where
  "sdb_exec_one c R h line sr =
     (let str = sdb_trim line in
      if str = [] then Inr (0, sr)
      else case strtok '' '' str of None \<Rightarrow> Inr (0, sr)
        | Some (cmd, _) \<Rightarrow>
            let args = (if length cmd + 1 \<ge> length str then None else Some (drop (length cmd + 1) str)) in
            case find (\<lambda>e. fst e = cmd) cmd_table of
              Some e \<Rightarrow> run_cmd c R h (snd (snd e)) args sr
            | None \<Rightarrow> on_nemu (emit (Message (''Unknown command '' @ cmd))) sr)"

text \<open>Both loops over lines: the script's and the interactive one.\<close>

fun sdb_exec_lines :: "config \<Rightarrow> 'r ref_sim \<Rightarrow> host \<Rightarrow> string list \<Rightarrow> nemu \<times> 'r \<Rightarrow> 'r run" where
  "sdb_exec_lines c R h [] sr = Inr (0, sr)"
| "sdb_exec_lines c R h (l # ls) sr =
     bindR (sdb_exec_one c R h l sr) (\<lambda>(ret, sr1).
       if ret < 0 then Inr (-1, sr1) else sdb_exec_lines c R h ls sr1)"

definition sdb_exec_script :: "config \<Rightarrow> 'r ref_sim \<Rightarrow> host \<Rightarrow> string \<Rightarrow> nemu \<times> 'r \<Rightarrow> 'r run" where
  "sdb_exec_script c R h text sr = sdb_exec_lines c R h (strtok_all [CHR '';'', CHR 0x0A] text) sr"

record sdb_config =
  is_batch_mode :: bool
  script_text :: "string option"
  script_file :: "string option"

text \<open>
  \<open>file_of\<close> gives the contents of a readable file, \<open>lines\<close> what the user types.
\<close>

definition sdb_mainloop ::
    "config \<Rightarrow> 'r ref_sim \<Rightarrow> host \<Rightarrow> sdb_config \<Rightarrow> (string \<Rightarrow> string option) \<Rightarrow> string list \<Rightarrow> nemu \<times> 'r \<Rightarrow> (nemu \<times> 'r) res" where
  "sdb_mainloop c R h m file_of lines sr =
     bindR (case script_text m of
        Some t \<Rightarrow> sdb_exec_script c R h t sr
      | None \<Rightarrow> (case script_file m of
          Some path \<Rightarrow> (case file_of path of
              None \<Rightarrow> Inl (Assert_fail ''Can not open script file'')
            | Some t \<Rightarrow> sdb_exec_script c R h t sr)
        | None \<Rightarrow> if is_batch_mode m then cmd_c c R h sr else sdb_exec_lines c R h lines sr))
      (\<lambda>(ret, sr1). Inr sr1)"

section \<open>Sessions keep the invariant\<close>

text \<open>
  Every command keeps the invariant of the simulator: whatever the user types, the next instruction
  starts from a well-formed machine.
\<close>

lemma nemu_inv_bp:
  assumes "nemu_inv c s" and "s' = s\<lparr>breakpoints := bs\<rparr>" and "bp_inv s'"
  shows "nemu_inv c s'"
proof -
  have "cb_base f s' = cb_base f s" for f by (cases f) (simp_all add: assms(2))
  then show ?thesis using assms(1,3)
    by (simp add: nemu_inv_def machine_ready_def mem_ready_def io_inv_def npc_windows_def map_ok_def space_top_def
        regs_ok_def ring_inv_def assms(2))
qed

lemma nemu_inv_emit [simp]: "nemu_inv c (emit x s) = nemu_inv c s"
  by (rule nemu_inv_view) simp

lemma nemu_inv_emit_all [simp]: "nemu_inv c (emit_all xs s) = nemu_inv c s"
  by (rule nemu_inv_view) simp

lemma nemu_inv_breaks:
  assumes "nemu_inv c s"
  shows "nemu_inv c (cmd_break args s)" "nemu_inv c (cmd_delete_break args s)"
    "nemu_inv c (cmd_clear_breaks s)" "nemu_inv c (cmd_list_breaks s)"
proof -
  have inv: "bp_inv s" using assms by (simp add: nemu_inv_def)
  have upd: "nemu_inv c (s\<lparr>breakpoints := bs\<rparr>)" if "distinct bs" "length bs \<le> NR_BREAKPOINTS" for bs
    using nemu_inv_bp [OF assms refl] that by (simp add: bp_inv_def)
  show "nemu_inv c (cmd_break args s)"
    using assms inv by (auto simp: cmd_break_def Let_def bp_search_iff bp_inv_def intro!: upd)
  show "nemu_inv c (cmd_delete_break args s)"
  proof (cases "no_arg args \<or> bp_index (breakpoints s) (ucast (strtoull (the args))) 0 = None")
    case True
    then show ?thesis using assms by (auto simp: cmd_delete_break_def Let_def)
  next
    case False
    then obtain i where i: "bp_index (breakpoints s) (ucast (strtoull (the args))) 0 = Some i" by blast
    then have "i < length (breakpoints s)" using bp_index_Some [OF i] by simp
    then have "distinct (bp_delete_at (breakpoints s) i)" "length (bp_delete_at (breakpoints s) i) < length (breakpoints s)"
      using bp_delete_at_set [of "breakpoints s" i] inv by (simp_all add: bp_inv_def)
    then have "nemu_inv c (s\<lparr>breakpoints := bp_delete_at (breakpoints s) i\<rparr>)"
      using inv by (intro upd) (simp_all add: bp_inv_def)
    then show ?thesis using False i by (simp add: cmd_delete_break_def)
  qed
  show "nemu_inv c (cmd_clear_breaks s)" "nemu_inv c (cmd_list_breaks s)"
    using assms by (auto simp: cmd_clear_breaks_def cmd_list_breaks_def intro!: upd)
qed

lemma print_mem_inv:
  assumes "nemu_inv c s" and "print_mem c addr sz off s = Inr s'"
  shows "nemu_inv c s'"
  using assms
proof (induction c addr sz off s rule: print_mem.induct)
  case (1 c addr sz off s)
  show ?case
  proof (cases "off < sz")
    case False
    then show ?thesis using "1.prems" by (simp add: print_mem.simps)
  next
    case True
    let ?len = "if sz - off \<ge> 4 then 4 else int (sz - off)" and ?cur = "addr + of_nat off"
    obtain v s1 where rd: "paddr_read c ?cur ?len s = Inr (v, s1)"
      and go: "print_mem c addr sz (off + 4) (emit (Mem_line ?cur v) s1) = Inr s'"
      using "1.prems"(2) True by (subst (asm) print_mem.simps) (auto simp: Let_def bindR_eq_Inr)
    have f: "bus_frame s s1" using paddr_read_frame rd "1.prems"(1) by (auto simp: nemu_inv_def)
    have "nemu_inv c s1"
      using "1.prems"(1) machine_ready_frame [OF f, of c]
      by (simp add: nemu_inv_def regs_ok_def ring_inv_def bp_inv_def bus_frame_fields [OF f])
    then show ?thesis using "1.IH" [OF True refl refl, of v s1] go by simp
  qed
qed

lemma run_cmd_inv:
  assumes "nemu_inv c s" and "run_cmd c R h n args (s, r) = Inr (ret, s', r')"
  shows "nemu_inv c s'"
proof -
  have dump: "nemu_inv c (commit_event_dump_last k s)" for k
    using assms(1) nemu_inv_view [OF inv_view_dump] by blast
  have quit: "nemu_inv c (s\<lparr>nemu_state := k\<rparr>)" for k using assms(1) nemu_inv_view [OF inv_view_state] by blast
  have prt: "nemu_inv c s'" if "cmd_print c args (s, r) = Inr (ret, s', r')"
    using that assms(1) print_mem_inv [OF assms(1)]
    by (auto simp: cmd_print_def on_nemu_def Let_def bindR_eq_Inr split: option.splits if_splits)
  have hlp: "nemu_inv c s'" if "cmd_help args (s, r) = Inr (ret, s', r')"
    using that assms(1) by (auto simp: cmd_help_def on_nemu_def split: option.splits)
  show ?thesis
    using assms(2) assms(1) cpu_exec_inv [OF assms(1)] nemu_inv_breaks [OF assms(1)] dump quit prt hlp
    by (cases n) (auto simp: cmd_c_def cmd_run_def cmd_step_def cmd_q_def cmd_last_def cmd_dump_def on_nemu_def
        bindR_eq_Inr Let_def split: if_splits)
qed

lemma sdb_exec_one_inv:
  assumes "nemu_inv c s" and "sdb_exec_one c R h l (s, r) = Inr (ret, s', r')"
  shows "nemu_inv c s'"
  using assms run_cmd_inv [OF assms(1)]
  by (auto simp: sdb_exec_one_def on_nemu_def Let_def split: if_splits option.splits)

lemma sdb_exec_lines_inv:
  assumes "nemu_inv c s" and "sdb_exec_lines c R h ls (s, r) = Inr (ret, s', r')"
  shows "nemu_inv c s'"
  using assms
proof (induction ls arbitrary: s r)
  case (Cons l ls)
  obtain ret1 s1 r1 where 1: "sdb_exec_one c R h l (s, r) = Inr (ret1, s1, r1)"
    and 2: "(if ret1 < 0 then Inr (-1, s1, r1) else sdb_exec_lines c R h ls (s1, r1)) = Inr (ret, s', r')"
    using Cons.prems(2) by (auto simp: bindR_eq_Inr)
  show ?case using sdb_exec_one_inv [OF Cons.prems(1) 1] 2 Cons.IH [of s1 r1] by (auto split: if_splits)
qed simp

lemma sdb_mainloop_inv:
  assumes "nemu_inv c s" and "sdb_mainloop c R h m file_of lines (s, r) = Inr (s', r')"
  shows "nemu_inv c s'"
proof -
  have batch: "nemu_inv c s'" if "cmd_c c R h (s, r) = Inr (ret, s', r')" for ret
    using that cpu_exec_inv [OF assms(1)] by (auto simp: cmd_c_def bindR_eq_Inr)
  show ?thesis using assms(2) batch sdb_exec_lines_inv [OF assms(1)]
    by (auto simp: sdb_mainloop_def sdb_exec_script_def bindR_eq_Inr split: option.splits if_splits)
qed

end
