(* ===== verification/Monitor.thy ===== *)
theory Monitor
  imports Sdb
begin

text \<open>
  Setting the simulator up (\<^verbatim>\<open>nemu/src/monitor/monitor.c\<close>, \<^verbatim>\<open>nemu/src/nemu-main.c\<close>) and the
  functions a reference simulator exports (\<^verbatim>\<open>nemu/src/cpu/difftest/ref.c\<close>). The options parsed
  from the command line, the image file and what the host calls return are parameters.
\<close>

record options =
  opt_sdb :: sdb_config
  opt_limit :: u64
  opt_img :: "u8 list option"

text \<open>
  The image: \<^verbatim>\<open>fread(buf, size, 1, fp)\<close> returns 1 exactly when the file has at least one byte
  (and is readable), which is asserted.
\<close>

definition load_img :: "config \<Rightarrow> u8 list option \<Rightarrow> nemu \<Rightarrow> (nat \<times> nemu) res" where
  "load_img c img_file s = (case img_file of
     None \<Rightarrow> Inr (4096, s)
   | Some buf \<Rightarrow> assertR (buf \<noteq> []) ''ret == 1''
       (bindR (paddr_memcpy_to_guest c (RESET_VECTOR c) buf True s) (\<lambda>s1. Inr (length buf, s1))))"

text \<open>
  \<open>rnd\<close>: the value of \<^verbatim>\<open>rand()\<close>; \<open>host_ok\<close>, \<open>scancodes\<close>: as for \<open>init_device\<close>.
\<close>

definition init_monitor :: "config \<Rightarrow> options \<Rightarrow> u8 \<Rightarrow> bool \<Rightarrow> nat list \<Rightarrow> nemu \<Rightarrow> (nat \<times> nemu) res" where
  "init_monitor c opts rnd host_ok scancodes s =
     (let s1 = init_mem c rnd (s\<lparr>nemu_inst_limit := opt_limit opts\<rparr>) in
      bindR (if CONFIG_DEVICE c then init_device c host_ok scancodes s1 else Inr s1) (\<lambda>s2.
      bindR (init_isa c s2) (\<lambda>s3.
        load_img c (opt_img opts) s3)))"

definition nemu_main ::
    "config \<Rightarrow> 'r ref_sim \<Rightarrow> host \<Rightarrow> options \<Rightarrow> u8 \<Rightarrow> bool \<Rightarrow> nat list \<Rightarrow> (string \<Rightarrow> string option) \<Rightarrow> string list \<Rightarrow>
     'r \<Rightarrow> (bool \<times> nemu \<times> 'r) res" where
  "nemu_main c R h opts rnd host_ok scancodes file_of lines r =
     bindR (init_monitor c opts rnd host_ok scancodes (initial_nemu c)) (\<lambda>(img_size, s).
     bindR (sdb_mainloop c R h (opt_sdb opts) file_of lines (s, r)) (\<lambda>(s1, r1).
       Inr (is_exit_status_bad s1, s1, r1)))"

section \<open>The reference side of differential testing\<close>

definition difftest_set_mmio_replay :: "config \<Rightarrow> MMIOReplayRecord \<Rightarrow> nemu \<Rightarrow> nemu res" where
  "difftest_set_mmio_replay c rec s = npc_mmio_replay_set c rec s"

definition difftest_mmio_replay_ok :: "config \<Rightarrow> nemu \<Rightarrow> bool \<times> nemu" where
  "difftest_mmio_replay_ok c s = npc_mmio_replay_ok c s"

definition difftest_memcpy_to_ref :: "config \<Rightarrow> u32 \<Rightarrow> u8 list \<Rightarrow> nemu \<Rightarrow> nemu res" where
  "difftest_memcpy_to_ref c addr buf s = paddr_memcpy_to_guest c addr buf True s"

definition difftest_memcpy_to_dut :: "config \<Rightarrow> nemu \<Rightarrow> u32 \<Rightarrow> nat \<Rightarrow> u8 list res" where
  "difftest_memcpy_to_dut c s addr n = paddr_memcpy_from_guest c s addr n"

definition difftest_regcpy_to_ref :: "CPU_state \<Rightarrow> nemu \<Rightarrow> nemu" where
  "difftest_regcpy_to_ref dut s = s\<lparr>cpu := dut\<rparr>"

definition difftest_regcpy_to_dut :: "nemu \<Rightarrow> CPU_state" where
  "difftest_regcpy_to_dut s = cpu s"

definition difftest_exec :: "config \<Rightarrow> 'r ref_sim \<Rightarrow> host \<Rightarrow> u64 \<Rightarrow> nemu \<times> 'r \<Rightarrow> (nemu \<times> 'r) res" where
  "difftest_exec c R h n sr = cpu_exec c R h n sr"

definition difftest_step_event :: "config \<Rightarrow> 'r ref_sim \<Rightarrow> host \<Rightarrow> nemu \<times> 'r \<Rightarrow> (CommitEvent \<times> nemu \<times> 'r) res" where
  "difftest_step_event c R h sr =
     bindR (cpu_exec c R h 1 sr) (\<lambda>(s1, r1). case commit_event_get_last s1 of
        None \<Rightarrow> Inl (Assert_fail ''ok'')
      | Some ev \<Rightarrow> Inr (ev, s1, r1))"

definition difftest_get_last_events :: "nat \<Rightarrow> nemu \<Rightarrow> CommitEvent list" where
  "difftest_get_last_events max_n s = commit_event_copy_last max_n s"

definition difftest_raise_intr :: "u32 \<Rightarrow> nemu \<Rightarrow> nemu res" where
  "difftest_raise_intr NO s = Inl (Assert_fail ''0'')"

definition difftest_init :: "config \<Rightarrow> u8 \<Rightarrow> bool \<Rightarrow> nat list \<Rightarrow> nemu \<Rightarrow> nemu res" where
  "difftest_init c rnd host_ok scancodes s =
     (let s1 = init_mem c rnd s in
      bindR (if CONFIG_DEVICE c then init_device c host_ok scancodes s1 else Inr s1) (init_isa c))"

section \<open>A fresh simulator satisfies the invariant\<close>

lemma init_device_frame:
  assumes "init_device c ok scs s = Inr s'"
  shows "mem_regions s' = mem_regions s \<and> cpu s' = cpu s \<and> ring_inv s' = ring_inv s \<and> bp_inv s' = bp_inv s"
proof -
  have ns: "mem_regions t' = mem_regions t \<and> cpu t' = cpu t \<and> commit_ring t' = commit_ring t \<and>
      commit_ring_next t' = commit_ring_next t \<and> commit_ring_count t' = commit_ring_count t \<and>
      breakpoints t' = breakpoints t" if "new_space sz t = Inr (p, t')" for sz t p t'
    using that by (auto simp: new_space_def Let_def)
  have am: "mem_regions t' = mem_regions t \<and> cpu t' = cpu t \<and> commit_ring t' = commit_ring t \<and>
      commit_ring_next t' = commit_ring_next t \<and> commit_ring_count t' = commit_ring_count t \<and>
      breakpoints t' = breakpoints t" if "add_mmio_map nm a p len cb t = Inr t'" for nm a p len cb t t'
    using that by (auto simp: add_mmio_map_def Let_def)
  let ?E = "\<lambda>t t'. mem_regions t' = mem_regions t \<and> cpu t' = cpu t \<and> commit_ring t' = commit_ring t \<and>
      commit_ring_next t' = commit_ring_next t \<and> commit_ring_count t' = commit_ring_count t \<and>
      breakpoints t' = breakpoints (t :: nemu)"
  obtain s1 s2 s3 s4 s5 s6 where 1: "init_map ok s = Inr s1"
    and 2: "IFDEF (CONFIG_HAS_SERIAL c) (init_serial c) s1 = Inr s2"
    and 3: "IFDEF (CONFIG_HAS_TIMER c) (init_timer c) s2 = Inr s3"
    and 4: "init_npc_devices s3 = Inr s4"
    and 5: "IFDEF (CONFIG_HAS_VGA c) (init_vga c) s4 = Inr s5"
    and 6: "IFDEF (CONFIG_HAS_KEYBOARD c) (init_i8042 c scs) s5 = Inr s6"
    and 7: "IFDEF (CONFIG_HAS_AUDIO c) (init_audio c) s6 = Inr s'"
    using assms by (auto simp: init_device_def bindR_eq_Inr)
  have e1: "?E s s1" using 1 by (auto simp: init_map_def)
  have e2: "?E s1 s2" using 2 by (auto simp: IFDEF_def init_serial_def bindR_eq_Inr dest!: ns am split: if_splits)
  have e3: "?E s2 s3" using 3
    by (auto simp: IFDEF_def init_timer_def add_alarm_handle_def bindR_eq_Inr dest!: ns am split: if_splits)
  have e4: "?E s3 s4" using 4 by (auto simp: init_npc_devices_def bindR_eq_Inr dest!: ns am)
  have e5: "?E s4 s5" using 5
    by (auto simp: IFDEF_def init_vga_def set_heap_def bindR_eq_Inr dest!: ns am split: if_splits)
  have e6: "?E s5 s6" using 6
    by (auto simp: IFDEF_def init_i8042_def set_heap_def bindR_eq_Inr dest!: ns am split: if_splits)
  have e7: "?E s6 s'" using 7
    by (auto simp: IFDEF_def init_audio_def bindR_eq_Inr dest!: ns am split: if_splits)
  show ?thesis using e1 e2 e3 e4 e5 e6 e7 by (simp add: ring_inv_def bp_inv_def)
qed

lemma init_isa_inv:
  assumes "mem_ready c s" and "CONFIG_DEVICE c \<longrightarrow> io_inv s \<and> npc_windows s"
    and "length (gpr (cpu s)) = NR_GPR c" and "ring_inv s" and "bp_inv s" and "init_isa c s = Inr s'"
  shows "nemu_inv c s'"
proof -
  obtain s1 h where s': "s' = restart c s1" and s1: "s1 = s\<lparr>heap := h\<rparr>"
    using assms(6) by (auto simp: init_isa_def paddr_memcpy_to_guest_def bindR_eq_Inr split: option.splits)
  have cb: "cb_base f s' = cb_base f s" for f by (cases f) (simp_all add: s' s1 restart_def)
  have "io_inv s' = io_inv s" using cb by (simp add: io_inv_def map_ok_def space_top_def s' s1 restart_def)
  moreover have "npc_windows s' = npc_windows s" by (simp add: npc_windows_def s' s1 restart_def)
  moreover have "regs_ok c s'" using assms(3) by (simp add: regs_ok_def s' s1 restart_def NR_GPR_def split: if_splits)
  ultimately show ?thesis using assms(1,2,4,5)
    by (simp add: nemu_inv_def machine_ready_def mem_ready_def ring_inv_def bp_inv_def s' s1 restart_def)
qed

lemma load_img_inv:
  assumes "nemu_inv c s" and "load_img c f s = Inr (n, s')"
  shows "nemu_inv c s'"
proof -
  have "\<exists>h. s' = s\<lparr>heap := h\<rparr>"
    using assms(2) by (cases s)
      (auto simp: load_img_def paddr_memcpy_to_guest_def bindR_eq_Inr split: option.splits)
  then have "inv_view s' = inv_view s" by (auto simp: view_defs)
  then show ?thesis using nemu_inv_view assms(1) by blast
qed

lemma initial_ring_bp: "ring_inv (initial_nemu c)" "bp_inv (initial_nemu c)"
  by (simp_all add: ring_inv_def bp_inv_def initial_nemu_def COMMIT_EVENT_RING_SIZE_def)

lemma init_mem_fields:
  "maps (init_mem c r s) = maps s" "cpu (init_mem c r s) = cpu s" "ring_inv (init_mem c r s) = ring_inv s"
  "bp_inv (init_mem c r s) = bp_inv s"
  by (simp_all add: init_mem_def Let_def ring_inv_def bp_inv_def)

lemma initial_fields:
  "mem_regions (initial_nemu c) = initial_regions c" "maps (initial_nemu c) = []"
  "length (gpr (cpu (initial_nemu c))) = NR_GPR c"
  by (simp_all add: initial_nemu_def)

lemma init_monitor_inv:
  assumes "wf_mem_config c" and "wf_dev_config c"
    and "init_monitor c opts rnd ok scs (initial_nemu c) = Inr (n, s)"
  shows "nemu_inv c s"
proof -
  let ?s0 = "(initial_nemu c)\<lparr>nemu_inst_limit := opt_limit opts\<rparr>"
  let ?s1 = "init_mem c rnd ?s0"
  obtain s2 s3 where 2: "(if CONFIG_DEVICE c then init_device c ok scs ?s1 else Inr ?s1) = Inr s2"
    and 3: "init_isa c s2 = Inr s3" and 4: "load_img c (opt_img opts) s3 = Inr (n, s)"
    using assms(3) by (auto simp: init_monitor_def Let_def bindR_eq_Inr)
  have "ring_inv ?s0" "bp_inv ?s0" using initial_ring_bp [of c] by (simp_all add: ring_inv_def bp_inv_def)
  then have s1: "mem_ready c ?s1" "maps ?s1 = []" "cpu ?s1 = cpu (initial_nemu c)" "ring_inv ?s1" "bp_inv ?s1"
    using init_mem_ready [OF assms(1), of ?s0 rnd] by (simp_all add: init_mem_fields initial_fields)
  have "mem_ready c s2 \<and> cpu s2 = cpu ?s1 \<and> ring_inv s2 \<and> bp_inv s2"
    using 2 s1 init_device_frame [of c ok scs ?s1 s2] by (auto simp: mem_ready_def split: if_splits)
  moreover have "CONFIG_DEVICE c \<longrightarrow> io_inv s2 \<and> npc_windows s2"
    using 2 s1 init_device_inv [OF assms(2), of ?s1 ok scs s2] init_device_windows [of c ok scs ?s1 s2] by auto
  moreover have "length (gpr (cpu ?s1)) = NR_GPR c" using s1(3) by (simp add: initial_fields)
  ultimately have "nemu_inv c s3" using init_isa_inv [OF _ _ _ _ _ 3] by simp
  then show ?thesis using load_img_inv 4 by blast
qed

end
