(* ===== verification/Npc_Config.thy ===== *)
theory Npc_Config
  imports Monitor
begin

text \<open>
  A concrete build: the Kconfig defaults for memory, the NPC memory map and only the NPC devices. The
  witnesses of the properties are evaluated on it.
\<close>

definition npc_config :: config where
  "npc_config = \<lparr>CONFIG_MBASE = 0x80000000, CONFIG_MSIZE = 0x8000000, CONFIG_PC_RESET_OFFSET = 0,
     CONFIG_MEM_SCHEME_NPC = True, CONFIG_MEM_RANDOM = False, CONFIG_RVE = False, CONFIG_RT_CHECK = True,
     CONFIG_TARGET_SHARE = False, CONFIG_DIFFTEST = False, CONFIG_DEVICE = True,
     CONFIG_HAS_SERIAL = False, CONFIG_SERIAL_MMIO = 0xa00003f8, CONFIG_HAS_TIMER = False,
     CONFIG_RTC_MMIO = 0xa0000048, CONFIG_HAS_KEYBOARD = False, CONFIG_I8042_DATA_MMIO = 0xa0000060,
     CONFIG_HAS_VGA = False, CONFIG_VGA_CTL_MMIO = 0xa0000100, CONFIG_FB_ADDR = 0xa1000000,
     CONFIG_VGA_SIZE_800x600 = False, CONFIG_VGA_SHOW_SCREEN = False, CONFIG_HAS_AUDIO = False,
     CONFIG_AUDIO_CTL_MMIO = 0xa0000200, CONFIG_SB_ADDR = 0xa1200000, CONFIG_SB_SIZE = 0x10000\<rparr>"

lemma npc_config_wf: "wf_mem_config npc_config" "wf_dev_config npc_config"
  by (simp_all add: wf_mem_config_def wf_dev_config_def npc_config_def PMEM_REGION_SIZE_def)

lemma npc_config_checked: "regs_checked npc_config"
  by (simp add: regs_checked_def npc_config_def)

definition no_ref :: "unit ref_sim" where
  "no_ref = \<lparr>ref_exec = id, ref_regs = (\<lambda>_. \<lparr>gpr = [], pc = 0, mstatus = 0, mtvec = 0, mepc = 0, mcause = 0\<rparr>),
     ref_set_regs = (\<lambda>_. id)\<rparr>"

definition quiet_host :: host where
  "quiet_host = \<lparr>host_time = (\<lambda>_. 0), host_events = (\<lambda>_. [])\<rparr>"

definition default_options :: options where
  "default_options = \<lparr>opt_sdb = \<lparr>is_batch_mode = True, script_text = None, script_file = None\<rparr>,
     opt_limit = 0, opt_img = None\<rparr>"

text \<open>The device map after \<^verbatim>\<open>init_npc_devices\<close>.\<close>

definition npc_maps :: "IOMap list" where
  "npc_maps =
    [\<lparr>io_name = ''npc-uart'', io_low = 0x10000000, io_high = 0x1000001f, io_space = Some (Io_space, 0),
       io_callback = Some Npc_uart_io_handler\<rparr>,
     \<lparr>io_name = ''npc-clint'', io_low = 0x02000000, io_high = 0x0200ffff, io_space = Some (Io_space, 0x1000),
       io_callback = Some Npc_clint_io_handler\<rparr>]"

definition npc_mem_only :: nemu where
  "npc_mem_only = (initial_nemu npc_config)\<lparr>mem_regions := mem_regions_ready npc_config\<rparr>"

lemma page_round_npc: "page_round 0x20 = 0x1000" "page_round 0x10000 = 0x10000"
  by (simp_all add: page_round_eq)

lemma backed_npc [simp]:
  assumes "mem_regions s = mem_regions_ready npc_config"
  shows "paddr_is_backed s 0x10000000 (Suc 0) = False" "paddr_is_backed s 0x1000001f (Suc 0) = False"
    "paddr_is_backed s 0x02000000 (Suc 0) = False" "paddr_is_backed s 0x0200ffff (Suc 0) = False"
  using assms
  by (simp_all add: paddr_is_backed_def find_mem_region_def mem_regions_ready_eq npc_config_def
      PMEM_REGION_SIZE_def range_in_region_def)

lemma init_device_npc:
  assumes "mem_regions s = mem_regions_ready npc_config" and "maps s = []"
  shows "init_device npc_config True [] s =
    Inr (s\<lparr>p_space := Some (Io_space, 0x11000), npc_uart_base := Some (Io_space, 0),
           npc_clint_base := Some (Io_space, 0x1000), maps := npc_maps\<rparr>)"
  using assms
  by (simp add: init_device_def init_map_def IFDEF_def npc_config_def init_npc_devices_def new_space_def
      page_round_npc npc_layout ptr_add_def IO_SPACE_MAX_def add_mmio_map_def NR_MAP_def in_pmem_def
      npc_maps_def)

abbreviation npc_pmem :: MemRegion where
  "npc_pmem \<equiv> \<lparr>mr_name = ''npc-pmem'', mr_base = 0x80000000, mr_size = 0x01000000,
     mr_host = Some (Pmem, 0), mr_loadable = True, mr_writable = True\<rparr>"

section \<open>The built-in image\<close>

definition img_bytes :: "u8 list" where
  "img_bytes = concat (map (le_split 4) img)"

lemma le_split_4: "le_split 4 (w :: u32) = [ucast w, ucast (drop_bit 8 w), ucast (drop_bit 16 w), ucast (drop_bit 24 w)]"
  by (simp add: numeral_eq_Suc)

lemma img_bytes_eq: "img_bytes = [0x97, 0x02, 0, 0, 0x23, 0x88, 0x02, 0, 0x03, 0xc5, 0x02, 0x01, 0x73, 0, 0x10, 0, 0xef, 0xbe, 0xad, 0xde]"
  by (simp add: img_bytes_def img_def le_split_4)

definition npc_fresh :: nemu where
  "npc_fresh = restart npc_config (npc_mem_only\<lparr>p_space := Some (Io_space, 0x11000), npc_uart_base := Some (Io_space, 0),
           npc_clint_base := Some (Io_space, 0x1000), maps := npc_maps,
           heap := store_at (\<lambda>_ _. 0) Pmem 0 img_bytes\<rparr>)"

lemma mem_npc: "mem_regions_ready npc_config =
  [npc_pmem,
  \<lparr>mr_name = ''mrom'', mr_base = 0x20000000, mr_size = 0x1000, mr_host = Some (Mrom, 0),
       mr_loadable = True, mr_writable = False\<rparr>,
     \<lparr>mr_name = ''sram'', mr_base = 0x0f000000, mr_size = 0x2000, mr_host = Some (Sram, 0),
       mr_loadable = True, mr_writable = True\<rparr>]"
  by (simp add: mem_regions_ready_eq npc_config_def PMEM_REGION_SIZE_def)

lemma init_npc_fresh: "init_monitor npc_config default_options rnd True [] (initial_nemu npc_config) = Inr (4096, npc_fresh)"
proof -
  have m: "init_mem npc_config rnd (initial_nemu npc_config) = npc_mem_only"
    by (simp add: init_mem_def npc_config_def npc_mem_only_def mem_regions_ready_def initial_nemu_def)
  have l: "(initial_nemu npc_config)\<lparr>nemu_inst_limit := 0\<rparr> = initial_nemu npc_config"
    by (simp add: initial_nemu_def)
  have f: "mem_regions npc_mem_only = mem_regions_ready npc_config" "maps npc_mem_only = []"
    by (simp_all add: npc_mem_only_def initial_nemu_def)
  have h: "heap npc_mem_only = (\<lambda>_ _. 0)" by (simp add: npc_mem_only_def initial_nemu_def)
  have c: "CONFIG_DEVICE npc_config" "RESET_VECTOR npc_config = 0x80000000" by (simp_all add: npc_config_def RESET_VECTOR_def)
  have r: "region_guest_to_host npc_pmem 0x80000000
     = Some (Pmem, 0)" by (simp add: region_guest_to_host_def ptr_add_def)
  show ?thesis
    unfolding init_monitor_def default_options_def
    by (simp add: l m init_device_npc [OF f] c init_isa_def paddr_memcpy_to_guest_def find_mem_region_def f mem_npc
        range_in_region_def r store_bytes_def in_object_def load_img_def h npc_fresh_def flip: img_bytes_def)
      (simp add: img_bytes_eq npc_config_def)
qed

definition word_at :: "nemu \<Rightarrow> nat \<Rightarrow> u32" where
  "word_at s k = le_join [heap s Pmem k, heap s Pmem (k + 1), heap s Pmem (k + 2), heap s Pmem (k + 3)]"

lemma npc_region:
  assumes "mem_regions s = mem_regions_ready npc_config" and "k + n \<le> 0x1000000" and "0 < n"
  shows "find_mem_region s (0x80000000 + of_nat k) n = Some npc_pmem"
    and "region_guest_to_host npc_pmem (0x80000000 + of_nat k) = Some (Pmem, int k)"
proof -
  have u: "unat (of_nat k :: u32) = k" using assms(2,3) by (simp add: unsigned_of_nat take_bit_nat_eq_self)
  have "(of_nat k :: u32) < 0x1000000" using assms(2,3) u by (simp add: word_less_nat_alt)
  moreover have "n \<le> unat (0x1000000 - of_nat k :: u32)"
    using assms(2,3) u by (subst unat_sub) (simp_all add: word_le_nat_alt)
  ultimately show "find_mem_region s (0x80000000 + of_nat k) n = Some npc_pmem"
    by (simp add: find_mem_region_def assms(1) mem_npc range_in_region_def)
  have "uint (of_nat k :: u32) = int k" by (metis u of_nat_unat)
  then have "uint (0x80000000 + of_nat k :: u32) = 0x80000000 + int k"
    using assms(2,3) by (subst uint_plus_if_size) (simp add: word_size)
  then show "region_guest_to_host npc_pmem (0x80000000 + of_nat k) = Some (Pmem, int k)"
    by (simp add: region_guest_to_host_def ptr_add_def)
qed

lemma upt_4: "[0..<4] = [0, 1, 2, 3 :: nat]" by (simp add: upt_rec)

lemma npc_fetch:
  assumes "mem_regions s = mem_regions_ready npc_config" and "k + 4 \<le> 0x1000000"
  shows "inst_fetch npc_config (0x80000000 + of_nat k) 4 s = Inr (word_at s k, 0x80000000 + of_nat k + 4, s)"
    "vaddr_access_ok npc_config s (0x80000000 + of_nat k) 4"
proof -
  have hs: "int k + 4 \<le> int (hsize npc_config Pmem)" using assms(2) by (simp add: npc_config_def)
  show "inst_fetch npc_config (0x80000000 + of_nat k) 4 s = Inr (word_at s k, 0x80000000 + of_nat k + 4, s)"
    using npc_region [OF assms(1), of k 4] assms(2) hs
    by (simp add: inst_fetch_def vaddr_defs paddr_read_def paddr_is_backed_def pmem_read_def host_read_def
        load_bytes_def in_object_def upt_4 word_at_def del: le_join.simps)
  show "vaddr_access_ok npc_config s (0x80000000 + of_nat k) 4"
    using npc_region [OF assms(1), of k 4] assms(2) by (simp add: vaddr_access_ok_def paddr_is_backed_def)
qed

lemmas step_eval = exec_once_def isa_exec_once_def decode_exec_cases rv_decode_def rv_manual_def implemented.simps rv_op_def rv_f3_def rv_f7_def
  rv_format_def decode_operand_def R_get_def R_set_def check_reg_idx_def set_rd_def NR_GPR_def BITS_def BITMASK_def
  immU_def immI_def immS_def SEXT_def Let_def

definition npc_at :: "nemu \<Rightarrow> u32 \<Rightarrow> u32 list \<Rightarrow> heap \<Rightarrow> u64 \<Rightarrow> bool" where
  "npc_at s p regs h n \<longleftrightarrow> mem_regions s = mem_regions_ready npc_config \<and> pc (cpu s) = p \<and> gpr (cpu s) = regs \<and>
     heap s = h \<and> run_state (nemu_state s) = NEMU_RUNNING \<and> breakpoints s = [] \<and> last_update s = 0 \<and>
     nemu_inst_limit s = 0 \<and> g_nr_guest_inst s = n"

lemma npc_sel:
  "CONFIG_RVE npc_config = False" "CONFIG_RT_CHECK npc_config = True" "CONFIG_TARGET_SHARE npc_config = False"
  "CONFIG_DIFFTEST npc_config = False" "CONFIG_DEVICE npc_config = True" "CONFIG_MSIZE npc_config = 0x8000000"
  "CONFIG_HAS_SERIAL npc_config = False" "CONFIG_HAS_TIMER npc_config = False"
  by (simp_all add: npc_config_def)

lemma npc_after_retire:
  "npc_at t p regs h n \<Longrightarrow> after_retire npc_config quiet_host (t, r) = Inr (True, t, r)"
  by (simp add: after_retire_def npc_at_def sdb_breakpoint_hit_def npc_sel device_update_def quiet_host_def Let_def)

lemma npc_loop_step:
  assumes "npc_at s p regs h n" and "exec_once npc_config p s = Inr (d, s1)"
    and "npc_at s1 p' regs' h' n"
  shows "\<exists>s'. loop_step npc_config no_ref quiet_host (s, r) = Inr (True, s', r) \<and> npc_at s' p' regs' h' (n + 1)"
proof -
  let ?s2 = "s1\<lparr>g_nr_guest_inst := g_nr_guest_inst s1 + 1\<rparr>"
  let ?s' = "commit_event_record (make_commit_event d (pc (cpu s1)) ?s2) ?s2"
  have r: "retire npc_config no_ref (s, r) = Inr (?s', r)"
    using assms(1,2) by (simp add: retire_def npc_at_def difftest_after_commit_def npc_sel Let_def)
  have at: "npc_at ?s' p' regs' h' (n + 1)" using assms(3)
    by (simp add: npc_at_def commit_event_record_def Let_def)
  have "loop_step npc_config no_ref quiet_host (s, r) = Inr (True, ?s', r)"
    using r assms(1) npc_after_retire [OF at] by (simp add: loop_step_def at_limit_def npc_at_def)
  then show ?thesis using at by blast
qed

lemma npc_step1:
  assumes "npc_at s 0x80000000 regs h n" "word_at s 0 = 0x297" "length regs = 32"
  shows "\<exists>d s1. exec_once npc_config 0x80000000 s = Inr (d, s1) \<and> npc_at s1 0x80000004 (regs[5 := 0x80000000, 0 := 0]) h n"
proof -
  have m: "mem_regions s = mem_regions_ready npc_config" using assms(1) by (simp add: npc_at_def)
  show ?thesis
  using npc_fetch [OF m, of 0] assms
  by (simp add: step_eval npc_at_def npc_sel)
qed

lemma npc_byte:
  assumes "mem_regions s = mem_regions_ready npc_config" and "k < 0x1000000"
  shows "vaddr_access_ok npc_config s (0x80000000 + of_nat k) 1"
    and "vaddr_read npc_config (0x80000000 + of_nat k) 1 s = Inr (ucast (heap s Pmem k), s)"
    and "vaddr_write npc_config (0x80000000 + of_nat k) 1 v s = Inr (s\<lparr>heap := store_at (heap s) Pmem k [ucast v]\<rparr>)"
proof -
  have hs: "int k + 1 \<le> int (hsize npc_config Pmem)" using assms(2) by (simp add: npc_sel)
  note r = npc_region [OF assms(1), of k 1] 
  show "vaddr_access_ok npc_config s (0x80000000 + of_nat k) 1"
    using r assms(2) by (simp add: vaddr_access_ok_def paddr_is_backed_def)
  show "vaddr_read npc_config (0x80000000 + of_nat k) 1 s = Inr (ucast (heap s Pmem k), s)"
    using r assms(2) hs by (simp add: vaddr_defs paddr_read_def paddr_is_backed_def pmem_read_def host_read_def load_bytes_def in_object_def)
  show "vaddr_write npc_config (0x80000000 + of_nat k) 1 v s = Inr (s\<lparr>heap := store_at (heap s) Pmem k [ucast v]\<rparr>)"
    using r assms(2) hs by (simp add: vaddr_defs paddr_write_def paddr_is_backed_def pmem_write_def host_write_def store_bytes_def in_object_def)
qed

lemma npc_step2:
  assumes "npc_at s 0x80000004 regs h n" "word_at s 4 = 0x00028823" "length regs = 32" "regs ! 5 = 0x80000000" "regs ! 0 = 0"
  shows "\<exists>d s1. exec_once npc_config 0x80000004 s = Inr (d, s1) \<and> npc_at s1 0x80000008 (regs[0 := 0]) (store_at h Pmem 16 [0]) n"
proof -
  have m: "mem_regions s = mem_regions_ready npc_config" using assms(1) by (simp add: npc_at_def)
  show ?thesis
  using npc_fetch [OF m, of 4] npc_byte [OF m, of 16] assms
  by (simp add: step_eval npc_at_def npc_sel exec_store_def)
qed

lemma npc_step3:
  assumes "npc_at s 0x80000008 regs h n" "word_at s 8 = 0x0102c503" "length regs = 32" "regs ! 5 = 0x80000000" "h Pmem 16 = 0"
  shows "\<exists>d s1. exec_once npc_config 0x80000008 s = Inr (d, s1) \<and> npc_at s1 0x8000000c (regs[10 := 0, 0 := 0]) h n"
proof -
  have m: "mem_regions s = mem_regions_ready npc_config" using assms(1) by (simp add: npc_at_def)
  show ?thesis
  using npc_fetch [OF m, of 8] npc_byte [OF m, of 16] assms
  by (simp add: step_eval npc_at_def npc_sel exec_load_def)
qed

lemma npc_step4:
  assumes "npc_at s 0x8000000c regs h n" "word_at s 12 = 0x00100073" "length regs = 32" "regs ! 10 = 0"
  shows "\<exists>d s1. exec_once npc_config 0x8000000c s = Inr (d, s1) \<and> nemu_state s1 = \<lparr>run_state = NEMU_END, halt_pc = 0x8000000c, halt_ret = 0\<rparr>
     \<and> g_nr_guest_inst s1 = n"
proof -
  have m: "mem_regions s = mem_regions_ready npc_config" using assms(1) by (simp add: npc_at_def)
  show ?thesis
  using npc_fetch [OF m, of 12] assms
  by (simp add: step_eval npc_at_def npc_sel set_nemu_state_def difftest_skip_ref_def)
qed

definition img_heap :: heap where
  "img_heap = store_at (\<lambda>_ _. 0) Pmem 0 img_bytes"

lemma img_words:
  assumes "heap s = img_heap \<or> heap s = store_at img_heap Pmem 16 [0]"
  shows "word_at s 0 = 0x297" "word_at s 4 = 0x00028823" "word_at s 8 = 0x0102c503" "word_at s 12 = 0x00100073"
  using assms by (auto simp: word_at_def img_heap_def img_bytes_eq store_at_def)

lemma npc_fresh_at: "npc_at (npc_fresh\<lparr>nemu_state := (nemu_state npc_fresh)\<lparr>run_state := NEMU_RUNNING\<rparr>\<rparr>) 0x80000000 (replicate 32 0) img_heap 0"
proof -
  have "(replicate 32 (0 :: u32))[0 := 0] = replicate 32 0" by (simp add: list_update_same_conv)
  then show ?thesis
  by (simp add: npc_at_def npc_fresh_def restart_def npc_mem_only_def initial_nemu_def RESET_VECTOR_def npc_sel NR_GPR_def img_heap_def)
     (simp add: npc_config_def)
qed

lemma execute_SucI: "loop_step c R h sr = Inr (True, sr1) \<Longrightarrow> execute c R h (Suc n) sr = execute c R h n sr1"
  by simp

lemma builtin_image_execute:
  assumes "npc_at s 0x80000000 (replicate 32 0) img_heap 0"
  shows "\<exists>s'. execute npc_config no_ref quiet_host (4 + m) (s, r) = Inr (s', r) \<and>
     nemu_state s' = \<lparr>run_state = NEMU_END, halt_pc = 0x8000000c, halt_ret = 0\<rparr> \<and> g_nr_guest_inst s' = 4"
proof -
  let ?r1 = "(replicate 32 0)[5 := 0x80000000, 0 := 0] :: u32 list"
  let ?r2 = "?r1[0 := 0]"
  let ?r3 = "?r2[10 := 0, 0 := 0]"
  let ?h = "store_at img_heap Pmem 16 [0]"
  have hs: "heap s = img_heap" using assms by (simp add: npc_at_def)
  obtain d t where "exec_once npc_config 0x80000000 s = Inr (d, t)" "npc_at t 0x80000004 ?r1 img_heap 0"
    using npc_step1 [OF assms] img_words(1) [of s] hs by auto
  then obtain s1 where 1: "loop_step npc_config no_ref quiet_host (s, r) = Inr (True, s1, r)"
     "npc_at s1 0x80000004 ?r1 img_heap 1" using npc_loop_step [OF assms] by fastforce
  then have hs: "heap s1 = img_heap" by (simp add: npc_at_def)
  obtain d t where "exec_once npc_config 0x80000004 s1 = Inr (d, t)" "npc_at t 0x80000008 ?r2 ?h 1"
    using npc_step2 [OF 1(2)] img_words(2) [of s1] hs by auto
  then obtain s2 where 2: "loop_step npc_config no_ref quiet_host (s1, r) = Inr (True, s2, r)"
     "npc_at s2 0x80000008 ?r2 ?h 2" using npc_loop_step [OF 1(2)] by fastforce
  then have hs: "heap s2 = ?h" by (simp add: npc_at_def)
  have "?h Pmem 16 = 0" by (simp add: store_at_def)
  then obtain d t where "exec_once npc_config 0x80000008 s2 = Inr (d, t)" "npc_at t 0x8000000c ?r3 ?h 2"
    using npc_step3 [OF 2(2)] img_words(3) [of s2] hs by auto
  then obtain s3 where 3: "loop_step npc_config no_ref quiet_host (s2, r) = Inr (True, s3, r)"
     "npc_at s3 0x8000000c ?r3 ?h 3" using npc_loop_step [OF 2(2)] by fastforce
  then have hs: "heap s3 = ?h" and pc3: "pc (cpu s3) = 0x8000000c" "\<not> at_limit s3" "g_nr_guest_inst s3 = 3"
    by (simp_all add: npc_at_def at_limit_def)
  obtain d t where 4: "exec_once npc_config 0x8000000c s3 = Inr (d, t)"
     "nemu_state t = \<lparr>run_state = NEMU_END, halt_pc = 0x8000000c, halt_ret = 0\<rparr>" "g_nr_guest_inst t = 3"
    using npc_step4 [OF 3(2)] img_words(4) [of s3] hs by auto
  let ?t2 = "t\<lparr>g_nr_guest_inst := g_nr_guest_inst t + 1\<rparr>"
  let ?s4 = "commit_event_record (make_commit_event d (pc (cpu t)) ?t2) ?t2"
  have ns: "nemu_state ?s4 = nemu_state t" "g_nr_guest_inst ?s4 = 4" using 4(3) by (simp_all add: commit_event_record_def Let_def)
  have "retire npc_config no_ref (s3, r) = Inr (?s4, r)"
    using 4(1) pc3 by (simp add: retire_def difftest_after_commit_def npc_sel Let_def)
  then have l4: "loop_step npc_config no_ref quiet_host (s3, r) = Inr (False, ?s4, r)"
    using pc3 ns 4(2) by (simp add: loop_step_def after_retire_def Let_def)
  have e: "4 + m = Suc (Suc (Suc (Suc m)))" by simp
  have ex: "execute npc_config no_ref quiet_host (4 + m) (s, r) = Inr (?s4, r)"
    unfolding e execute_SucI [OF 1(1)] execute_SucI [OF 2(1)] execute_SucI [OF 3(1)] using l4 by simp
  show ?thesis by (rule exI [of _ ?s4]) (use ex ns 4(2) in \<open>simp only: simp_thms\<close>)
qed

lemma builtin_cpu_exec:
  "\<exists>s. cpu_exec npc_config no_ref quiet_host (-1) (npc_fresh, ()) = Inr (s, ()) \<and>
     nemu_state s = \<lparr>run_state = NEMU_END, halt_pc = 0x8000000c, halt_ret = 0\<rparr> \<and> g_nr_guest_inst s = 4"
proof -
  have "4 \<le> unat (-1 :: u64)" by (simp add: unsigned_minus_1_eq_mask mask_eq_exp_minus_1)
  then have n: "unat (-1 :: u64) = 4 + (unat (-1 :: u64) - 4)" by linarith
  obtain s where s: "execute npc_config no_ref quiet_host (unat (-1 :: u64))
      (npc_fresh\<lparr>nemu_state := (nemu_state npc_fresh)\<lparr>run_state := NEMU_RUNNING\<rparr>\<rparr>, ()) = Inr (s, ())"
    "nemu_state s = \<lparr>run_state = NEMU_END, halt_pc = 0x8000000c, halt_ret = 0\<rparr>" "g_nr_guest_inst s = 4"
    using builtin_image_execute [OF npc_fresh_at, of "unat (-1 :: u64) - 4" "()"] unfolding n [symmetric] by blast
  have st: "run_state (nemu_state npc_fresh) = NEMU_STOP"
    by (simp add: npc_fresh_def restart_def npc_mem_only_def initial_nemu_def)
  have "cpu_exec npc_config no_ref quiet_host (-1) (npc_fresh, ()) = Inr (finish_run s, ())"
    unfolding cpu_exec_def prod.case s(1) using st by simp
  moreover have "finish_run s = report_result s" using s(2) by (simp add: finish_run_def)
  ultimately show ?thesis using s(2,3) by (simp add: report_result_def emit_def)
qed

lemma builtin_image_run:
  "\<exists>s. nemu_main npc_config no_ref quiet_host default_options rnd True [] file_of lines () = Inr (False, s, ()) \<and>
     run_state (nemu_state s) = NEMU_END \<and> g_nr_guest_inst s = 4"
proof -
  obtain s where "cpu_exec npc_config no_ref quiet_host (-1) (npc_fresh, ()) = Inr (s, ())"
    "nemu_state s = \<lparr>run_state = NEMU_END, halt_pc = 0x8000000c, halt_ret = 0\<rparr>" "g_nr_guest_inst s = 4"
    using builtin_cpu_exec by blast
  then show ?thesis unfolding nemu_main_def init_npc_fresh
    by (simp add: sdb_mainloop_def cmd_c_def default_options_def is_exit_status_bad_def)
qed

lemma npc_fresh_inv: "nemu_inv npc_config npc_fresh"
  using init_monitor_inv [OF npc_config_wf init_npc_fresh] .

lemma npc_fresh_ready: "machine_ready npc_config npc_fresh" "io_inv npc_fresh" "npc_windows npc_fresh"
  "mem_ready npc_config npc_fresh" "regs_ok npc_config npc_fresh" "ring_inv npc_fresh" "bp_inv npc_fresh"
  using npc_fresh_inv by (simp_all add: nemu_inv_def machine_ready_def npc_sel)

lemma npc_fresh_no_access: "\<not> vaddr_access_ok npc_config npc_fresh 0x40 4"
proof -
  have "mem_regions npc_fresh = mem_regions_ready npc_config"
    by (simp add: npc_fresh_def npc_mem_only_def restart_def)
  then show ?thesis
    by (simp add: vaddr_access_ok_def native_device_access_ok_def paddr_is_backed_def find_mem_region_def
        mem_npc range_in_region_def size_t_of_def npc_sel)
qed

end
