(* ===== verification/Klib_Int64.thy ===== *)
theory Klib_Int64
  imports Prelude
begin

text \<open>
  \<^verbatim>\<open>abstract-machine/klib/src/int64.c\<close>: the 64-bit division routines a 32-bit guest links, with the
  leading and trailing zero counts they use. The unions \<^verbatim>\<open>udwords\<close> are read through
  \<open>hi32\<close>, \<open>lo32\<close> and written through \<open>dword\<close>. A 32-bit division by zero, which the routines
  leave to the hardware, is an error value.
\<close>

section \<open>Leading and trailing zeros\<close>

definition flag_bit :: "bool \<Rightarrow> nat \<Rightarrow> nat" where
  "flag_bit b k = (if b then 2 ^ k else 0)"

definition clzsi2 :: "u32 \<Rightarrow> u32" where
  "clzsi2 a =
     (let t = flag_bit (a AND 0xFFFF0000 = 0) 4; x = drop_bit (16 - t) a; r = t;
          t = flag_bit (x AND 0xFF00 = 0) 3; x = drop_bit (8 - t) x; r = r + t;
          t = flag_bit (x AND 0xF0 = 0) 2; x = drop_bit (4 - t) x; r = r + t;
          t = flag_bit (x AND 0xC = 0) 1; x = drop_bit (2 - t) x; r = r + t
      in of_nat r + ((2 - x) AND (if x AND 2 = 0 then -1 else 0)))"

definition ctzsi2 :: "u32 \<Rightarrow> u32" where
  "ctzsi2 a =
     (let t = flag_bit (a AND 0xFFFF = 0) 4; x = drop_bit t a; r = t;
          t = flag_bit (x AND 0xFF = 0) 3; x = drop_bit t x; r = r + t;
          t = flag_bit (x AND 0xF = 0) 2; x = drop_bit t x; r = r + t;
          t = flag_bit (x AND 0x3 = 0) 1; x = drop_bit t x; x = x AND 3; r = r + t
      in of_nat r + ((2 - drop_bit 1 x) AND (if x AND 1 = 0 then -1 else 0)))"

definition hi32 :: "u64 \<Rightarrow> u32" where "hi32 a = ucast (drop_bit 32 a)"
definition lo32 :: "u64 \<Rightarrow> u32" where "lo32 a = ucast a"
definition dword :: "u32 \<Rightarrow> u32 \<Rightarrow> u64" where "dword h l = push_bit 32 (ucast h) OR ucast l"

definition ctzdi2 :: "u64 \<Rightarrow> u32" where
  "ctzdi2 a = (let f = (if lo32 a = 0 then -1 else 0) in
     ctzsi2 ((hi32 a AND f) OR (lo32 a AND NOT f)) + (f AND 32))"

definition clzdi2 :: "u64 \<Rightarrow> u32" where
  "clzdi2 a = (let f = (if hi32 a = 0 then -1 else 0) in
     clzsi2 ((hi32 a AND NOT f) OR (lo32 a AND f)) + (f AND 32))"

section \<open>Unsigned division\<close>

text \<open>The division instruction of the 32-bit machine; \<open>udiv32\<close> fails where C has no value.\<close>

definition udiv32 :: "u32 \<Rightarrow> u32 \<Rightarrow> (u32 \<times> u32) res" where
  "udiv32 a b = (if b = 0 then Inl (Bad_access ''division by zero'') else Inr (a div b, a mod b))"

record divstate =
  dv_r :: u64
  dv_q :: u64
  dv_carry :: u32

text \<open>One round of the shift-subtract loop, on the halves as the source writes it.\<close>

definition udiv_round :: "u64 \<Rightarrow> divstate \<Rightarrow> divstate" where
  "udiv_round d st =
     (let rh = hi32 (dv_r st); rl = lo32 (dv_r st); qh = hi32 (dv_q st); ql = lo32 (dv_q st);
          rh' = push_bit 1 rh OR drop_bit 31 rl;
          rl' = push_bit 1 rl OR drop_bit 31 qh;
          qh' = push_bit 1 qh OR drop_bit 31 ql;
          ql' = push_bit 1 ql OR dv_carry st;
          r = dword rh' rl';
          s = (signed_drop_bit 63 (d - r - 1) :: u64)
      in \<lparr>dv_r = r - (d AND s), dv_q = dword qh' ql', dv_carry = ucast (s AND 1)\<rparr>)"

fun udiv_loop :: "u64 \<Rightarrow> nat \<Rightarrow> divstate \<Rightarrow> divstate" where
  "udiv_loop d 0 st = st"
| "udiv_loop d (Suc k) st = udiv_loop d k (udiv_round d st)"

definition udiv_general :: "u64 \<Rightarrow> nat \<Rightarrow> u64 \<Rightarrow> u64 \<Rightarrow> u64 \<times> u64" where
  "udiv_general d sr q r =
     (let st = udiv_loop d sr \<lparr>dv_r = r, dv_q = q, dv_carry = 0\<rparr>
      in (push_bit 1 (dv_q st) OR ucast (dv_carry st), dv_r st))"

text \<open>
  \<^verbatim>\<open>__udivmoddi4\<close>: the pair of the quotient and what it stores through \<^verbatim>\<open>rem\<close>. The shift
  count \<open>sr\<close> is an unsigned 32-bit difference, as in the source.
\<close>

definition udivmoddi4 :: "u64 \<Rightarrow> u64 \<Rightarrow> (u64 \<times> u64) res" where
  "udivmoddi4 a b =
     (let nh = hi32 a; nl = lo32 a; dh = hi32 b; dl = lo32 b in
      if nh = 0 then
        if dh = 0 then bindR (udiv32 nl dl) (\<lambda>(q, r). Inr (ucast q, ucast r))
        else Inr (0, ucast nl)
      else if dl = 0 then
        if dh = 0 then bindR (udiv32 nh dl) (\<lambda>(q, r). Inr (ucast q, ucast r))
        else if nl = 0 then bindR (udiv32 nh dh) (\<lambda>(q, r). Inr (ucast q, dword r 0))
        else if dh AND (dh - 1) = 0 then
          Inr (ucast (drop_bit (unat (ctzsi2 dh)) nh), dword (nh AND (dh - 1)) nl)
        else
          let sr = clzsi2 dh - clzsi2 nh in
          if sr > 30 then Inr (0, a)
          else let k = unat sr + 1 in
            Inr (udiv_general b k (dword (push_bit (32 - k) nl) 0)
                   (dword (drop_bit k nh) (push_bit (32 - k) nh OR drop_bit k nl)))
      else if dh = 0 then
        if dl AND (dl - 1) = 0 then
          if dl = 1 then Inr (a, ucast (nl AND (dl - 1)))
          else let k = unat (ctzsi2 dl) in
            Inr (dword (drop_bit k nh) (push_bit (32 - k) nh OR drop_bit k nl), ucast (nl AND (dl - 1)))
        else
          let k = unat (1 + 32 + clzsi2 dl - clzsi2 nh) in
          if k = 32 then Inr (udiv_general b k (dword nl 0) (dword 0 nh))
          else if k < 32 then
            Inr (udiv_general b k (dword (push_bit (32 - k) nl) 0)
                   (dword (drop_bit k nh) (push_bit (32 - k) nh OR drop_bit k nl)))
          else
            Inr (udiv_general b k
                   (dword (push_bit (64 - k) nh OR drop_bit (k - 32) nl) (push_bit (64 - k) nl))
                   (dword 0 (drop_bit (k - 32) nh)))
      else
        let sr = clzsi2 dh - clzsi2 nh in
        if sr > 31 then Inr (0, a)
        else let k = unat sr + 1 in
          if k = 32 then Inr (udiv_general b k (dword nl 0) (dword 0 nh))
          else
            Inr (udiv_general b k (dword (push_bit (32 - k) nl) 0)
                   (dword (drop_bit k nh) (push_bit (32 - k) nh OR drop_bit k nl))))"

definition udivdi3 :: "u64 \<Rightarrow> u64 \<Rightarrow> u64 res" where
  "udivdi3 a b = bindR (udivmoddi4 a b) (\<lambda>(q, r). Inr q)"

definition umoddi3 :: "u64 \<Rightarrow> u64 \<Rightarrow> u64 res" where
  "umoddi3 a b = bindR (udivmoddi4 a b) (\<lambda>(q, r). Inr r)"

section \<open>Signed division\<close>

definition sign_mask :: "u64 \<Rightarrow> u64" where
  "sign_mask a = signed_drop_bit 63 a"

definition divdi3 :: "u64 \<Rightarrow> u64 \<Rightarrow> u64 res" where
  "divdi3 a b =
     (let s_a = sign_mask a; s_b = sign_mask b;
          a' = (a XOR s_a) - s_a; b' = (b XOR s_b) - s_b; s = s_a XOR s_b
      in bindR (udivmoddi4 a' b') (\<lambda>(q, r). Inr ((q XOR s) - s)))"

definition divmoddi4 :: "u64 \<Rightarrow> u64 \<Rightarrow> (u64 \<times> u64) res" where
  "divmoddi4 a b = bindR (divdi3 a b) (\<lambda>d. Inr (d, a - d * b))"

definition moddi3 :: "u64 \<Rightarrow> u64 \<Rightarrow> u64 res" where
  "moddi3 a b =
     (let s = sign_mask b; b' = (b XOR s) - s; s = sign_mask a; a' = (a XOR s) - s
      in bindR (udivmoddi4 a' b') (\<lambda>(q, r). Inr ((r XOR s) - s)))"

section \<open>Halves of a double word\<close>

lemma bit_halves [simp]:
  "bit (hi32 a) i \<longleftrightarrow> i < 32 \<and> bit a (i + 32)"
  "bit (lo32 a) i \<longleftrightarrow> i < 32 \<and> bit a i"
  by (auto simp: hi32_def lo32_def bit_simps add.commute)

lemma bit_dword [simp]: "bit (dword h l) i \<longleftrightarrow> (if i < 32 then bit l i else i < 64 \<and> bit h (i - 32))"
  using bit_imp_le_length [of l i] by (auto simp: dword_def bit_simps)

lemma unat_halves: "unat a = unat (hi32 a) * 2 ^ 32 + unat (lo32 a)"
proof -
  have "unat (lo32 a) = unat a mod 2 ^ 32" by (simp add: lo32_def unsigned_ucast_eq take_bit_eq_mod)
  moreover have "unat a < 2 ^ 64" using unat_lt2p [of a] by simp
  then have "unat a div 2 ^ 32 < 2 ^ 32" by (intro less_mult_imp_div_less) simp
  then have "unat (hi32 a) = unat a div 2 ^ 32"
    by (simp add: hi32_def unsigned_ucast_eq drop_bit_eq_div unat_div take_bit_eq_mod)
  ultimately show ?thesis by simp
qed

lemma unat_dword: "unat (dword h l) = unat h * 2 ^ 32 + unat l"
proof -
  have "hi32 (dword h l) = h" "lo32 (dword h l) = l" by (auto intro!: bit_word_eqI)
  then show ?thesis using unat_halves [of "dword h l"] by simp
qed

lemma dword_halves [simp]: "hi32 (dword h l) = h" "lo32 (dword h l) = l" "dword (hi32 a) (lo32 a) = a"
  by (auto intro!: bit_word_eqI split: if_splits)

lemma dword_push: "dword (push_bit 1 (hi32 r) OR drop_bit 31 (lo32 r)) (push_bit 1 (lo32 r) OR x) = push_bit 1 r OR ucast x"
proof (rule bit_word_eqI)
  fix n :: nat assume n: "n < LENGTH(64)"
  consider "n < 32" | "n = 32" | "32 < n" by linarith
  then show "bit (dword (push_bit 1 (hi32 r) OR drop_bit 31 (lo32 r)) (push_bit 1 (lo32 r) OR x)) n =
    bit (push_bit 1 r OR ucast x) n"
    unfolding bit_or_iff bit_dword bit_push_bit_iff bit_drop_bit_eq comp_apply bit_halves bit_unsigned_iff
      possible_bit_word using n by cases (auto dest: bit_imp_le_length)
qed

lemma signed_drop_63: "signed_drop_bit 63 (x :: u64) = (if bit x 63 then -1 else 0)"
proof (rule bit_word_eqI)
  fix n assume "n < LENGTH(64)"
  then show "bit (signed_drop_bit 63 x) n = bit (if bit x 63 then -1 else 0 :: u64) n"
    by (cases "n = 0") (auto simp: bit_signed_drop_bit_iff)
qed

lemma bit_63: "bit (x :: u64) 63 \<longleftrightarrow> 2 ^ 63 \<le> unat x"
proof -
  have "unat x < 2 ^ 64" using unat_lt2p [of x] by simp
  then have "unat x div 2 ^ 63 < 2" by (intro less_mult_imp_div_less) simp
  then have "odd (unat x div 2 ^ 63) \<longleftrightarrow> unat x div 2 ^ 63 \<noteq> 0"
    by (cases "unat x div 2 ^ 63 = 0") (simp_all add: less_2_cases_iff)
  moreover have "bit x 63 \<longleftrightarrow> bit (unat x) 63" by (simp add: bit_unsigned_iff)
  ultimately show ?thesis by (simp add: div_eq_0_iff bit_iff_odd not_less)
qed

lemma unat_diff_1: "unat (d - r - 1 :: u64) = (if r < d then unat d - unat r - 1 else 2 ^ 64 + unat d - unat r - 1)"
proof (cases "r < d")
  case True
  then have "unat (d - r) = unat d - unat r" by (simp add: unat_sub)
  moreover have "1 \<le> d - r" using True by (simp add: word_le_nat_alt word_less_nat_alt unat_sub)
  ultimately show ?thesis using True by (simp add: unat_sub)
next
  case False
  then have e: "d - r - 1 = -1 - (r - d)" "unat (r - d) = unat r - unat d" by (simp_all add: unat_sub)
  have "unat (-1 :: u64) = 2 ^ 64 - 1" by (simp add: unsigned_minus_1_eq_mask mask_eq_exp_minus_1)
  then have "unat (d - r - 1) = 2 ^ 64 - 1 - (unat r - unat d)" unfolding e(1) by (subst unat_sub) (simp_all add: e(2))
  then show ?thesis using False unat_ltE(3) [of r] by (simp add: word_less_nat_alt)
qed

lemma udiv_sign:
  assumes "unat d \<le> 2 ^ 63 \<and> unat r < 2 * unat d \<or> 2 ^ 63 \<le> unat d \<and> 2 ^ 63 \<le> unat r"
  shows "signed_drop_bit 63 (d - r - 1 :: u64) = (if d \<le> r then -1 else 0)"
proof -
  have "2 ^ 63 \<le> unat (d - r - 1) \<longleftrightarrow> d \<le> r"
    unfolding unat_diff_1 word_le_nat_alt word_less_nat_alt using assms unat_ltE(3) [of r] unat_ltE(3) [of d]
    by (cases "unat r < unat d") (simp_all; linarith)+
  then show ?thesis by (simp add: signed_drop_63 bit_63)
qed

text \<open>One round on whole words: shift a bit of the dividend in, subtract the divisor if it fits.\<close>

lemma udiv_round_eq:
  assumes "r1 = push_bit 1 (dv_r st) OR drop_bit 63 (dv_q st)"
    and "unat d \<le> 2 ^ 63 \<and> unat r1 < 2 * unat d \<or> 2 ^ 63 \<le> unat d \<and> 2 ^ 63 \<le> unat r1"
  shows "udiv_round d st = \<lparr>dv_r = (if d \<le> r1 then r1 - d else r1),
    dv_q = push_bit 1 (dv_q st) OR ucast (dv_carry st), dv_carry = (if d \<le> r1 then 1 else 0)\<rparr>"
proof -
  have "ucast (drop_bit 31 (hi32 q)) = drop_bit 63 q" for q :: u64
    by (rule bit_word_eqI) (auto simp: bit_simps dest: bit_imp_le_length)
  then have "dword (push_bit 1 (hi32 (dv_r st)) OR drop_bit 31 (lo32 (dv_r st)))
      (push_bit 1 (lo32 (dv_r st)) OR drop_bit 31 (hi32 (dv_q st))) = r1"
    unfolding dword_push assms(1) by simp
  then show ?thesis unfolding udiv_round_def Let_def by (simp only: udiv_sign [OF assms(2)] dword_push) simp
qed

lemma unat_push_or:
  assumes "unat (y :: u64) < 2"
  shows "unat (push_bit 1 x OR y) = 2 * (unat x mod 2 ^ 63) + unat y"
proof -
  have y: "y = 0 \<or> y = 1" using assms by (auto simp: word_unat_eq_iff less_2_cases_iff)
  then have "\<not> bit (push_bit 1 x AND y) n" for n
    unfolding bit_and_iff bit_push_bit_iff by (auto simp: bit_1_iff)
  then have "push_bit 1 x AND y = 0" by (intro bit_word_eqI) simp
  then have "push_bit 1 x OR y = push_bit 1 x + y" by (metis disjunctive_add_eq_or)
  moreover have p: "unat (push_bit 1 x) = 2 * (unat x mod 2 ^ 63)"
    by (simp add: push_bit_eq_mult unat_word_ariths mult_mod_right mult.commute)
  ultimately show ?thesis using y unat_ltE(3) [of "push_bit 1 x"] assms
    by (auto simp: unat_word_ariths p)
qed

definition div_inv :: "nat \<Rightarrow> nat \<Rightarrow> nat \<Rightarrow> divstate \<Rightarrow> bool" where
  "div_inv N D m st \<longleftrightarrow> unat (dv_r st) = N div 2 ^ m mod D \<and>
     unat (dv_q st) = N mod 2 ^ m * 2 ^ (64 - m) + N div 2 ^ m div D div 2 \<and>
     unat (dv_carry st) = N div 2 ^ m div D mod 2"

lemma next_bit: "(N :: nat) div 2 ^ m = 2 * (N div 2 ^ Suc m) + N div 2 ^ m mod 2"
proof -
  have "N div 2 ^ Suc m = N div 2 ^ m div 2" by (simp only: power_Suc2 div_mult2_eq)
  then show ?thesis by simp
qed

lemma low_bits: "N mod 2 ^ Suc m = (N div 2 ^ m mod 2) * 2 ^ m + N mod (2 ^ m :: nat)"
  by (simp only: power_Suc2 mod_mult2_eq) simp

lemma div_step:
  fixes H D b :: nat
  assumes "0 < D"
  defines "r1 \<equiv> 2 * (H mod D) + b"
  assumes "b < 2"
  shows "(2 * H + b) div D = 2 * (H div D) + (if D \<le> r1 then 1 else 0)"
    and "(2 * H + b) mod D = (if D \<le> r1 then r1 - D else r1)"
proof -
  have e: "2 * H + b = 2 * (H div D) * D + r1"
    unfolding r1_def by (metis add.assoc add_mult_distrib2 mult.assoc div_mult_mod_eq)
  have l: "H mod D < D" using assms(1) by simp
  show "(2 * H + b) div D = 2 * (H div D) + (if D \<le> r1 then 1 else 0)"
  proof (cases "D \<le> r1")
    case True
    moreover have "r1 < 2 * D" using l assms(3) unfolding r1_def by linarith
    ultimately have "r1 div D = 1" by (intro div_nat_eqI) simp_all
    then show ?thesis unfolding e using True assms(1) by simp
  next
    case False then show ?thesis unfolding e using assms(1) by simp
  qed
  show "(2 * H + b) mod D = (if D \<le> r1 then r1 - D else r1)"
  proof (cases "D \<le> r1")
    case True
    moreover have "r1 - D < D" using l assms(3) unfolding r1_def by linarith
    ultimately have "r1 mod D = r1 - D" by (simp add: le_mod_geq)
    then show ?thesis unfolding e using True by simp
  next
    case False then show ?thesis unfolding e by simp
  qed
qed

lemma udiv_round_inv:
  assumes inv: "div_inv N D (Suc m) st" and D: "D = unat d" "0 < D" and N: "N < 2 ^ 64" and m: "Suc m \<le> 63"
    and c: "D \<le> 2 ^ 63 \<or> m = 0 \<and> 2 ^ 63 \<le> N \<and> N < 2 * D"
  shows "div_inv N D m (udiv_round d st)"
proof -
  define H b where "H = N div 2 ^ Suc m" and "b = N div 2 ^ m mod 2"
  have nb: "N div 2 ^ m = 2 * H + b" and b: "b < 2" unfolding H_def b_def by (rule next_bit) simp
  have r: "unat (dv_r st) = H mod D" and ca: "unat (dv_carry st) = H div D mod 2"
    and q: "unat (dv_q st) = N mod 2 ^ Suc m * 2 ^ (63 - m) + H div D div 2"
    using inv by (simp_all add: div_inv_def H_def)
  let ?low = "N mod 2 ^ m * 2 ^ (63 - m) + H div D div 2"
  have p: "(2 :: nat) ^ m * 2 ^ (63 - m) = 2 ^ 63" using m by (simp flip: power_add)
  have q': "unat (dv_q st) = b * 2 ^ 63 + ?low"
    unfolding q low_bits b_def add_mult_distrib mult.assoc p by simp
  have "(2 :: nat) ^ (63 - m) * 2 ^ Suc m = 2 ^ 64" by (subst power_add [symmetric]) (use m in simp)
  then have "H < 2 ^ (63 - m)" unfolding H_def using N by (intro less_mult_imp_div_less) (simp only:)
  then have "H div D div 2 < 2 ^ (63 - m)" by (meson div_le_dividend le_less_trans)
  moreover have "N mod 2 ^ m + 1 \<le> 2 ^ m" by (simp add: Suc_le_eq)
  then have "(N mod 2 ^ m + 1) * 2 ^ (63 - m) \<le> 2 ^ m * 2 ^ (63 - m)" by (rule mult_le_mono1)
  ultimately have low: "?low < 2 ^ 63" unfolding p by simp
  have top: "unat (drop_bit 63 (dv_q st)) = b"
    unfolding drop_bit_eq_div unat_div using q' low by simp
  let ?r1 = "push_bit 1 (dv_r st) OR drop_bit 63 (dv_q st)"
  have "H mod D < 2 ^ 63"
    using \<open>H < 2 ^ (63 - m)\<close> by (meson diff_le_self le_less_trans less_le_trans mod_less_eq_dividend one_le_numeral power_increasing)
  then have r1: "unat ?r1 = 2 * (H mod D) + b" using unat_push_or [of "drop_bit 63 (dv_q st)"] top b r by simp
  have "H mod D < D" using D(2) by simp
  then have "D \<le> 2 ^ 63 \<and> unat ?r1 < 2 * D \<or> 2 ^ 63 \<le> D \<and> 2 ^ 63 \<le> unat ?r1"
  proof (cases "D \<le> 2 ^ 63")
    case True with \<open>H mod D < D\<close> show ?thesis unfolding r1 using b by linarith
  next
    case False
    then have "m = 0" "2 ^ 63 \<le> N" "N < 2 * D" using c by auto
    then have "N = 2 * H + b" "H < D" using nb by auto
    then show ?thesis unfolding r1 using False \<open>2 ^ 63 \<le> N\<close> by simp
  qed
  note eq = udiv_round_eq [OF refl this [unfolded D(1)]]
  have le: "d \<le> ?r1 \<longleftrightarrow> D \<le> 2 * (H mod D) + b" unfolding word_le_nat_alt r1 D(1) ..
  have "unat (ucast (dv_carry st) :: u64) = H div D mod 2"
    by (simp add: unsigned_ucast_eq ca take_bit_eq_mod unsigned_take_bit_eq)
  then have q1: "unat (push_bit 1 (dv_q st) OR ucast (dv_carry st)) = 2 * ?low + H div D mod 2"
    using unat_push_or [of "ucast (dv_carry st)" "dv_q st"] low q' by simp
  have "(2 :: nat) * 2 ^ (63 - m) = 2 ^ (64 - m)" using m by (simp add: Suc_diff_le flip: power_Suc)
  then have q2: "2 * ?low + H div D mod 2 = N mod 2 ^ m * 2 ^ (64 - m) + H div D" by (simp add: algebra_simps)
  have "unat (?r1 - d) = 2 * (H mod D) + b - D" if "D \<le> 2 * (H mod D) + b"
    using that le r1 D(1) by (simp only: unat_sub)
  then show ?thesis
    unfolding div_inv_def eq nb div_step [OF D(2) b] divstate.simps q1 q2
    by (simp only: le if_distrib [of unat] r1 split: if_split) simp
qed

lemma udiv_loop_inv:
  assumes "div_inv N D m st" and "D = unat d" "0 < D" and "N < 2 ^ 64" and "m \<le> 63"
    and "D \<le> 2 ^ 63 \<or> m \<le> 1 \<and> 2 ^ 63 \<le> N \<and> N < 2 * D"
  shows "div_inv N D 0 (udiv_loop d m st)"
  using assms
proof (induction m arbitrary: st)
  case (Suc m)
  have "div_inv N D m (udiv_round d st)" by (rule udiv_round_inv) (use Suc.prems in auto)
  then show ?case using Suc by auto
qed simp

lemma unat_drop_bit: "unat (drop_bit k x) = unat x div 2 ^ k"
  unfolding unsigned_drop_bit_eq by (simp add: drop_bit_eq_div take_bit_nat_eq_self unat_lt2p)

lemma udiv_general_eq:
  fixes a d :: u64
  assumes k: "1 \<le> k" "k \<le> 63" and "d \<noteq> 0" and "unat a div 2 ^ k < unat d"
    and c: "unat d \<le> 2 ^ 63 \<or> k = 1 \<and> 2 ^ 63 \<le> unat a"
  shows "udiv_general d k (push_bit (64 - k) a) (drop_bit k a) = (a div d, a mod d)"
proof -
  let ?N = "unat a" and ?D = "unat d" and ?st = "\<lparr>dv_r = drop_bit k a, dv_q = push_bit (64 - k) a, dv_carry = 0\<rparr>"
  have D: "0 < ?D" using assms(3) by (simp add: unat_gt_0)
  have p: "(2 :: nat) ^ 64 = 2 ^ k * 2 ^ (64 - k)" using k by (simp flip: power_add)
  have "unat (push_bit (64 - k) a) = ?N mod 2 ^ k * 2 ^ (64 - k)"
    unfolding unsigned_push_bit_eq using k by (simp add: take_bit_eq_mod push_bit_eq_mult mult_mod_left flip: p)
  then have "div_inv ?N ?D k ?st" using assms(4) by (simp add: div_inv_def unat_drop_bit)
  moreover have "?N < 2 ^ 64" using unat_ltE(3) [of a] by simp
  moreover have "?N < 2 * ?D" if "k = 1" using assms(4) that by auto
  ultimately have "div_inv ?N ?D 0 (udiv_loop d k ?st)" using udiv_loop_inv [OF _ refl D] k c by auto
  then have r: "unat (dv_r (udiv_loop d k ?st)) = ?N mod ?D" and q: "unat (dv_q (udiv_loop d k ?st)) = ?N div ?D div 2"
    and ca: "unat (dv_carry (udiv_loop d k ?st)) = ?N div ?D mod 2" by (simp_all add: div_inv_def)
  have ca': "unat (ucast (dv_carry (udiv_loop d k ?st)) :: u64) = ?N div ?D mod 2"
    by (simp add: unsigned_ucast_eq ca take_bit_eq_mod unsigned_take_bit_eq)
  have "?N div ?D \<le> ?N" by simp
  then have "?N div ?D < 2 ^ 64" using \<open>?N < 2 ^ 64\<close> by (rule le_less_trans)
  then have "?N div ?D div 2 < 2 ^ 63" by (simp add: div_less_iff_less_mult del: div_mult2_eq)
  then have "unat (push_bit 1 (dv_q (udiv_loop d k ?st)) OR ucast (dv_carry (udiv_loop d k ?st))) = ?N div ?D"
    using unat_push_or [of "ucast (dv_carry (udiv_loop d k ?st))" "dv_q (udiv_loop d k ?st)"] ca' q by simp
  then show ?thesis unfolding udiv_general_def Let_def using r
    by (simp only: word_unat_eq_iff unat_div unat_mod simp_thms prod.inject)
qed

section \<open>Counting zeros\<close>

lemma drop_bit_zero: "drop_bit k (x :: 'a::len word) = 0 \<longleftrightarrow> unat x < 2 ^ k"
  by (simp add: word_unat_eq_iff unat_drop_bit div_eq_0_iff)

lemma and_high_zero:
  assumes "unat (x :: u32) < 2 ^ (2 * h)"
  shows "x AND push_bit h (mask h) = 0 \<longleftrightarrow> unat x < 2 ^ h"
proof -
  have hi: "\<not> bit x (2 * h + i)" for i
  proof -
    have "drop_bit (2 * h) x = 0" using assms by (simp only: drop_bit_zero)
    then have "\<not> bit (drop_bit (2 * h) x) i" by (simp only: bit_0_eq bot_apply bot_bool_def not_False_eq_True)
    then show ?thesis by (simp only: bit_drop_bit_eq comp_apply not_False_eq_True)
  qed
  let ?A = "x AND push_bit h (mask h)"
  have up: "bit (drop_bit h x) i \<longleftrightarrow> bit ?A (h + i)" for i
  proof (cases "i < h")
    case False
    then have "\<not> bit x (h + i)" using hi [of "i - h"] by simp
    then show ?thesis by (simp add: bit_simps)
  qed (auto simp: bit_simps dest: bit_imp_le_length)
  have low: "\<not> bit ?A i" if "i < h" for i using that by (simp add: bit_simps)
  have "?A = 0 \<longleftrightarrow> drop_bit h x = 0"
  proof
    assume "?A = 0"
    then show "drop_bit h x = 0" by (intro bit_word_eqI) (simp only: up bit_0_eq bot_apply)
  next
    assume d: "drop_bit h x = 0"
    show "?A = 0"
    proof (rule bit_word_eqI)
      fix n
      show "bit ?A n = bit 0 n"
        using low [of n] up [of "n - h"] d by (cases "n < h") (simp_all only: bit_0_eq bot_apply bot_bool_def le_add_diff_inverse not_less simp_thms)
    qed
  qed
  then show ?thesis by (simp only: drop_bit_zero)
qed

definition clz_at :: "nat \<Rightarrow> nat \<Rightarrow> u32 \<Rightarrow> u32 \<Rightarrow> bool" where
  "clz_at h r x X \<longleftrightarrow> x = drop_bit (32 - r - h) X \<and> unat x < 2 ^ h \<and> x \<noteq> 0 \<and> r + h \<le> 32"

lemma clz_step:
  assumes "clz_at (2 * h) r x X" and M: "M = push_bit h (mask h)" and t: "t = flag_bit (x AND M = 0) k" and h: "h = 2 ^ k"
  shows "clz_at h (r + t) (drop_bit (h - t) x) X"
proof -
  have x: "x = drop_bit (32 - r - 2 * h) X" "unat x < 2 ^ (2 * h)" "x \<noteq> 0" "r + 2 * h \<le> 32"
    using assms(1) unfolding clz_at_def by blast+
  have z: "t = (if unat x < 2 ^ h then h else 0)" unfolding t M and_high_zero [OF x(2)] by (simp add: flag_bit_def h)
  have "h - t + (32 - r - 2 * h) = 32 - (r + t) - h" using x(4) by (simp add: z)
  then have "drop_bit (h - t) x = drop_bit (32 - (r + t) - h) X"
    unfolding x(1) by (simp only: drop_bit_drop_bit)
  moreover have "unat (drop_bit (h - t) x) < 2 ^ h"
    using x(2) by (simp add: z unat_drop_bit mult_2 power_add less_mult_imp_div_less)
  moreover have "drop_bit (h - t) x \<noteq> 0"
    using x(3) by (cases "unat x < 2 ^ h") (simp add: z, simp add: z drop_bit_zero)
  moreover have "r + t + h \<le> 32" using x(4) by (simp add: z)
  ultimately show ?thesis by (simp add: clz_at_def)
qed

lemma clz_masks:
  "0xFFFF0000 = push_bit 16 (mask 16 :: u32)" "0xFF00 = push_bit 8 (mask 8 :: u32)"
  "0xF0 = push_bit 4 (mask 4 :: u32)" "0xC = push_bit 2 (mask 2 :: u32)"
  by (simp_all add: mask_eq_exp_minus_1 push_bit_eq_mult)

lemma clzsi2_spec:
  assumes "X \<noteq> 0"
  shows "\<exists>c < 32. clzsi2 X = of_nat c \<and> 2 ^ (31 - c) \<le> unat X \<and> unat X < 2 ^ (32 - c)"
proof -
  define t1 where "t1 = flag_bit (X AND 0xFFFF0000 = 0) 4"
  define x1 where "x1 = drop_bit (16 - t1) X"
  define t2 where "t2 = flag_bit (x1 AND 0xFF00 = 0) 3"
  define x2 where "x2 = drop_bit (8 - t2) x1"
  define t3 where "t3 = flag_bit (x2 AND 0xF0 = 0) 2"
  define x3 where "x3 = drop_bit (4 - t3) x2"
  define t4 where "t4 = flag_bit (x3 AND 0xC = 0) 1"
  define x4 where "x4 = drop_bit (2 - t4) x3"
  define r where "r = t1 + t2 + t3 + t4"
  have "clz_at (2 * 16) 0 X X" using assms unat_ltE(2) [of X] by (simp add: clz_at_def)
  from clz_step [OF this clz_masks(1) refl, of 4] have "clz_at (2 * 8) t1 x1 X" unfolding x1_def t1_def by simp
  from clz_step [OF this clz_masks(2) refl, of 3] have "clz_at (2 * 4) (t1 + t2) x2 X" unfolding x2_def t2_def by simp
  from clz_step [OF this clz_masks(3) refl, of 2] have "clz_at (2 * 2) (t1 + t2 + t3) x3 X" unfolding x3_def t3_def by simp
  from clz_step [OF this clz_masks(4) refl, of 1] have f: "clz_at 2 r x4 X" unfolding x4_def t4_def r_def by simp
  define c where "c = r + (if unat x4 < 2 then 1 else 0)"
  have u: "unat x4 = unat X div 2 ^ (30 - r)" and x4: "unat x4 < 4" "unat x4 \<noteq> 0" and r: "r \<le> 30"
    using f by (auto simp: clz_at_def unat_drop_bit drop_bit_zero div_eq_0_iff)
  have "unat x4 \<in> {1, 2, 3}" using x4 by auto
  then have "x4 = 1 \<or> x4 = 2 \<or> x4 = 3" by (auto simp: word_unat_eq_iff)
  then have "of_nat r + ((2 - x4) AND (if x4 AND 2 = 0 then - 1 else 0)) = (of_nat c :: u32)"
    by (auto simp: c_def)
  then have "clzsi2 X = of_nat c"
    unfolding clzsi2_def Let_def t1_def [symmetric] x1_def [symmetric] t2_def [symmetric] x2_def [symmetric]
      t3_def [symmetric] x3_def [symmetric] t4_def [symmetric] x4_def [symmetric] r_def [symmetric] .
  moreover have "2 ^ (31 - c) \<le> unat X \<and> unat X < 2 ^ (32 - c)"
  proof -
    have lo: "unat x4 * 2 ^ (30 - r) \<le> unat X" unfolding u by simp
    have hi: "unat X < (unat x4 + 1) * 2 ^ (30 - r)" unfolding u by (simp add: dividend_less_div_times)
    show ?thesis
    proof (cases "unat x4 < 2")
      case True
      then have "unat x4 = 1" "31 - c = 30 - r" "32 - c = Suc (30 - r)" using x4 r by (auto simp: c_def)
      then show ?thesis using lo hi by simp
    next
      case False
      then have b: "2 \<le> unat x4" "unat x4 + 1 \<le> 4" and c: "31 - c = Suc (30 - r)" "32 - c = Suc (Suc (30 - r))"
        using x4 r by (auto simp: c_def)
      have "2 * 2 ^ (30 - r) \<le> unat X" using mult_le_mono1 [OF b(1)] lo by (rule order_trans)
      moreover have "unat X < 4 * 2 ^ (30 - r)" using hi mult_le_mono1 [OF b(2)] by (rule less_le_trans)
      ultimately show ?thesis unfolding c power_Suc by simp
    qed
  qed
  moreover have "c < 32" using r by (simp add: c_def)
  ultimately show ?thesis by blast
qed


text \<open>Trailing zeros: the bit below is found by the same halving.\<close>

definition ctz_at :: "nat \<Rightarrow> nat \<Rightarrow> u32 \<Rightarrow> u32 \<Rightarrow> bool" where
  "ctz_at h r x X \<longleftrightarrow> x = drop_bit r X \<and> take_bit r X = 0 \<and> take_bit h x \<noteq> 0 \<and> r + h \<le> 32"

lemma ctz_step:
  assumes "ctz_at (2 * h) r x X" and M: "M = mask h" and t: "t = flag_bit (x AND M = 0) k" and h: "h = 2 ^ k"
  shows "ctz_at h (r + t) (drop_bit t x) X"
proof -
  have x: "x = drop_bit r X" "take_bit r X = 0" "take_bit (2 * h) x \<noteq> 0" "r + 2 * h \<le> 32"
    using assms(1) unfolding ctz_at_def by blast+
  have z: "t = (if take_bit h x = 0 then h else 0)" unfolding t M by (simp add: flag_bit_def h take_bit_eq_mask)
  show ?thesis
  proof (cases "take_bit h x = 0")
    case True
    then have th: "t = h" by (simp add: z)
    have "\<not> bit X i" if "i < r + h" for i
    proof (cases "i < r")
      case True
      then have "bit (take_bit r X) i = bit X i" by (simp add: bit_take_bit_iff)
      then show ?thesis using x(2) by simp
    next
      case False
      then have "bit (take_bit h x) (i - r) = bit X i" using that by (auto simp: bit_take_bit_iff x(1) bit_drop_bit_eq)
      then show ?thesis using \<open>take_bit h x = 0\<close> by simp
    qed
    then have "take_bit (r + h) X = 0" by (intro bit_word_eqI) (simp add: bit_take_bit_iff)
    moreover have "take_bit h (drop_bit h x) \<noteq> 0"
    proof
      assume a: "take_bit h (drop_bit h x) = 0"
      have "\<not> bit x i" if "i < 2 * h" for i
      proof (cases "i < h")
        case False
        then have "bit (take_bit h (drop_bit h x)) (i - h) = bit x i" using that by (auto simp: bit_take_bit_iff bit_drop_bit_eq)
        then show ?thesis using a by simp
      next
        case True
        then have "bit (take_bit h x) i = bit x i" by (simp add: bit_take_bit_iff)
        then show ?thesis using \<open>take_bit h x = 0\<close> by simp
      qed
      then have "take_bit (2 * h) x = 0" by (intro bit_word_eqI) (simp add: bit_take_bit_iff)
      then show False using x(3) by simp
    qed
    ultimately show ?thesis using x(4) by (simp add: ctz_at_def th x(1) add.commute)
  next
    case False
    then show ?thesis using x by (simp add: ctz_at_def z)
  qed
qed

lemma ctz_masks: "0xFFFF = (mask 16 :: u32)" "0xFF = (mask 8 :: u32)" "0xF = (mask 4 :: u32)" "3 = (mask 2 :: u32)"
  by (simp_all add: mask_eq_exp_minus_1)

lemma ctzsi2_spec:
  assumes "X \<noteq> 0"
  shows "\<exists>c < 32. ctzsi2 X = of_nat c \<and> bit X c \<and> (\<forall>i < c. \<not> bit X i)"
proof -
  define t1 where "t1 = flag_bit (X AND 0xFFFF = 0) 4"
  define x1 where "x1 = drop_bit t1 X"
  define t2 where "t2 = flag_bit (x1 AND 0xFF = 0) 3"
  define x2 where "x2 = drop_bit t2 x1"
  define t3 where "t3 = flag_bit (x2 AND 0xF = 0) 2"
  define x3 where "x3 = drop_bit t3 x2"
  define t4 where "t4 = flag_bit (x3 AND 0x3 = 0) 1"
  define x4 where "x4 = drop_bit t4 x3"
  define r where "r = t1 + t2 + t3 + t4"
  have "ctz_at (2 * 16) 0 X X" using assms by (simp add: ctz_at_def take_bit_word_eq_self)
  from ctz_step [OF this ctz_masks(1) refl, of 4] have "ctz_at (2 * 8) t1 x1 X" unfolding x1_def t1_def by simp
  from ctz_step [OF this ctz_masks(2) refl, of 3] have "ctz_at (2 * 4) (t1 + t2) x2 X" unfolding x2_def t2_def by simp
  from ctz_step [OF this ctz_masks(3) refl, of 2] have "ctz_at (2 * 2) (t1 + t2 + t3) x3 X" unfolding x3_def t3_def by simp
  from ctz_step [OF this ctz_masks(4) refl, of 1] have f: "ctz_at 2 r x4 X" unfolding x4_def t4_def r_def by simp
  define c where "c = r + (if bit x4 0 then 0 else 1)"
  have x4: "x4 = drop_bit r X" and lo: "take_bit r X = 0" and nz: "take_bit 2 x4 \<noteq> 0" and r: "r \<le> 30"
    using f by (auto simp: ctz_at_def)
  let ?y = "x4 AND 3"
  have y: "?y = take_bit 2 x4" unfolding ctz_masks(4) by (simp add: take_bit_eq_mask)
  then have "unat ?y < 4" using take_bit_nat_less_exp [of 2 "unat x4"] by (simp only: unsigned_take_bit_eq) simp
  moreover have "unat ?y \<noteq> 0" using nz y by (simp add: unat_eq_0)
  ultimately have "unat ?y \<in> {1, 2, 3}" by auto
  then have yc: "?y = 1 \<or> ?y = 2 \<or> ?y = 3" by (auto simp: word_unat_eq_iff)
  have b0: "bit x4 0 \<longleftrightarrow> bit ?y 0" "bit x4 1 \<longleftrightarrow> bit ?y 1" unfolding y by (simp_all add: bit_take_bit_iff)
  have "of_nat r + ((2 - drop_bit 1 y) AND (if y AND 1 = 0 then - 1 else 0)) = (of_nat c :: u32)"
    if "y = 1 \<or> y = 2 \<or> y = 3" "bit x4 0 = bit y 0" for y :: u32
    using that by (auto simp: c_def)
  from this [OF yc b0(1)]
  have "of_nat r + ((2 - drop_bit 1 ?y) AND (if ?y AND 1 = 0 then - 1 else 0)) = (of_nat c :: u32)" .
  then have "ctzsi2 X = of_nat c"
    unfolding ctzsi2_def Let_def t1_def [symmetric] x1_def [symmetric] t2_def [symmetric] x2_def [symmetric]
      t3_def [symmetric] x3_def [symmetric] t4_def [symmetric] x4_def [symmetric] r_def [symmetric] .
  moreover have "bit X c"
    using yc b0 by (auto simp: c_def x4 bit_drop_bit_eq)
  moreover have "\<not> bit X i" if "i < c" for i
  proof (cases "i < r")
    case True
    then have "bit (take_bit r X) i = bit X i" by (simp add: bit_take_bit_iff)
    then show ?thesis using lo by simp
  next
    case False
    then have "i = r" "\<not> bit x4 0" using that by (auto simp: c_def split: if_splits)
    then show ?thesis by (simp add: x4 bit_drop_bit_eq)
  qed
  moreover have "c < 32" using r by (simp add: c_def)
  ultimately show ?thesis by blast
qed


lemma power_of_2_word:
  assumes "x AND (x - 1) = 0" and "bit (x :: u32) c" and "\<And>i. i < c \<Longrightarrow> \<not> bit x i" and c: "c < 32"
  shows "x = 2 ^ c"
proof -
  define y where "y = x AND NOT (2 ^ c)"
  have yb: "bit y i \<longleftrightarrow> bit x i \<and> i \<noteq> c" for i by (auto simp: y_def bit_simps bit_exp_iff dest: bit_imp_le_length)
  have "y AND 2 ^ c = 0" by (rule bit_word_eqI) (simp add: bit_and_iff yb bit_exp_iff)
  then have "y + 2 ^ c = y OR 2 ^ c" by (metis disjunctive_add_eq_or)
  also have "\<dots> = x" by (rule bit_word_eqI) (use assms(2) c in \<open>auto simp: bit_or_iff yb bit_exp_iff\<close>)
  finally have x: "x = y + 2 ^ c" ..
  have "y AND mask c = 0" by (rule bit_word_eqI) (use assms(3) in \<open>auto simp: bit_and_iff yb bit_mask_iff\<close>)
  then have "y + mask c = y OR mask c" by (metis disjunctive_add_eq_or)
  moreover have "x - 1 = y + mask c" unfolding x mask_eq_exp_minus_1 by simp
  ultimately have "x - 1 = y OR mask c" by simp
  then have "y AND x = 0" using assms(1) by (intro bit_word_eqI) (auto simp: bit_eq_iff bit_and_iff bit_or_iff)
  moreover have "y AND x = y" by (rule bit_word_eqI) (auto simp: bit_and_iff yb)
  ultimately show ?thesis using x by simp
qed


section \<open>The division is division\<close>

lemma shifted_halves:
  assumes "k < 32"
  shows "dword (drop_bit k (hi32 a)) (push_bit (32 - k) (hi32 a) OR drop_bit k (lo32 a)) = drop_bit k a"
  by (rule bit_word_eqI) (use assms in \<open>auto simp: bit_simps add.commute split: if_splits dest: bit_imp_le_length\<close>)

lemma shifted_low:
  assumes "1 \<le> k" "k < 32"
  shows "dword (push_bit (32 - k) (lo32 a)) 0 = push_bit (64 - k) a"
  by (rule bit_word_eqI) (use assms in \<open>auto simp: bit_simps split: if_splits dest: bit_imp_le_length\<close>)

lemma shifted_32: "dword (lo32 a) 0 = push_bit 32 a" "dword 0 (hi32 a) = drop_bit 32 a"
  by (rule bit_word_eqI; auto simp: bit_simps add.commute split: if_splits dest: bit_imp_le_length)+

lemma shifted_high:
  assumes k: "32 < k" "k < 64"
  shows "dword (push_bit (64 - k) (hi32 a) OR drop_bit (k - 32) (lo32 a)) (push_bit (64 - k) (lo32 a)) = push_bit (64 - k) a"
    and "dword 0 (drop_bit (k - 32) (hi32 a)) = drop_bit k a"
proof -
  show "dword (push_bit (64 - k) (hi32 a) OR drop_bit (k - 32) (lo32 a)) (push_bit (64 - k) (lo32 a)) = push_bit (64 - k) a"
  proof (rule bit_word_eqI)
    fix n :: nat assume n: "n < LENGTH(64)"
    consider "n < 32" | "32 \<le> n" "64 - k \<le> n - 32" | "32 \<le> n" "n - 32 < 64 - k" by linarith
    then show "bit (dword (push_bit (64 - k) (hi32 a) OR drop_bit (k - 32) (lo32 a)) (push_bit (64 - k) (lo32 a))) n =
        bit (push_bit (64 - k) a) n"
    proof cases
      case 1 then show ?thesis by (auto simp: bit_push_bit_iff)
    next
      case 2
      then have "n - 32 - (64 - k) + 32 = n - (64 - k)" "\<not> k - 32 + (n - 32) < 32" "64 - k \<le> n" using k by auto
      then show ?thesis using 2 n k by (auto simp: bit_push_bit_iff bit_drop_bit_eq bit_or_iff)
    next
      case 3
      then have "k - 32 + (n - 32) = n - (64 - k)" "64 - k \<le> n" "n - (64 - k) < 32" using k by auto
      then show ?thesis using 3 n k by (auto simp: bit_push_bit_iff bit_drop_bit_eq bit_or_iff)
    qed
  qed
  show "dword 0 (drop_bit (k - 32) (hi32 a)) = drop_bit k a"
  proof (rule bit_word_eqI)
    fix n :: nat assume n: "n < LENGTH(64)"
    have "k - 32 + n + 32 = k + n" using k by simp
    then show "bit (dword 0 (drop_bit (k - 32) (hi32 a))) n = bit (drop_bit k a) n"
      using k n by (auto simp: bit_drop_bit_eq dest: bit_imp_le_length)
  qed
qed

text \<open>Both leading-zero counts give the shift: after it the dividend is below the divisor.\<close>

lemma shift_amount:
  assumes "hi32 a = u" "u \<noteq> 0" "clzsi2 u = of_nat cn" "2 ^ (31 - cn) \<le> unat u" "unat u < 2 ^ (32 - cn)" "cn < 32"
  shows "unat a < 2 ^ (64 - cn)" and "2 ^ (63 - cn) \<le> unat a"
proof -
  have p: "(2 :: nat) ^ (64 - cn) = 2 ^ (32 - cn) * 2 ^ 32" "(2 :: nat) ^ (63 - cn) = 2 ^ (31 - cn) * 2 ^ 32"
    by (simp_all only: power_add [symmetric]) (use assms(6) in simp_all)
  have "(unat u + 1) * 2 ^ 32 \<le> 2 ^ (32 - cn) * 2 ^ 32" using assms(5) by (intro mult_le_mono1) simp
  then show "unat a < 2 ^ (64 - cn)"
    using unat_halves [of a] unat_ltE(2) [of "lo32 a"] assms(1) unfolding p by simp
  have "2 ^ (31 - cn) * 2 ^ 32 \<le> unat u * 2 ^ 32" using assms(4) by (rule mult_le_mono1)
  then show "2 ^ (63 - cn) \<le> unat a" using unat_halves [of a] assms(1) unfolding p by simp
qed


lemma unat_of_small: "n < 4294967296 \<Longrightarrow> unat (of_nat n :: u32) = n"
  by (simp add: unsigned_of_nat take_bit_nat_eq_self)

lemma unat_exp_32: "c < 32 \<Longrightarrow> unat (2 ^ c :: u32) = 2 ^ c"
  using unat_of_small [of "2 ^ c"] power_strict_increasing [of c 32 "2 :: nat"] by simp

lemma clz_difference:
  fixes a b :: u64
  defines "sr \<equiv> clzsi2 (hi32 b) - clzsi2 (hi32 a)"
  assumes "hi32 a \<noteq> 0" "hi32 b \<noteq> 0"
  shows "31 < sr \<and> a < b \<or> sr \<le> 31 \<and> unat a div 2 ^ (unat sr + 1) < unat b \<and>
    (unat b \<le> 2 ^ 63 \<or> unat sr + 1 = 1 \<and> 2 ^ 63 \<le> unat a) \<and> (sr = 31 \<longrightarrow> hi32 b = 1)"
proof -
  obtain cu where cu: "cu < 32" "clzsi2 (hi32 a) = of_nat cu" "2 ^ (31 - cu) \<le> unat (hi32 a)" "unat (hi32 a) < 2 ^ (32 - cu)"
    using clzsi2_spec [OF assms(2)] by blast
  obtain cv where cv: "cv < 32" "clzsi2 (hi32 b) = of_nat cv" "2 ^ (31 - cv) \<le> unat (hi32 b)" "unat (hi32 b) < 2 ^ (32 - cv)"
    using clzsi2_spec [OF assms(3)] by blast
  have a: "unat a < 2 ^ (64 - cu)" "2 ^ (63 - cu) \<le> unat a"
    using shift_amount [OF refl assms(2) cu(2,3,4,1)] by auto
  have b: "unat b < 2 ^ (64 - cv)" "2 ^ (63 - cv) \<le> unat b"
    using shift_amount [OF refl assms(3) cv(2,3,4,1)] by auto
  show ?thesis
  proof (cases "cu \<le> cv")
    case True
    then have sr: "sr = of_nat (cv - cu)" by (simp add: sr_def cu(2) cv(2))
    then have k: "unat sr = cv - cu" using cv(1) by (simp add: unat_of_nat)
    have "64 - cu = 63 - cv + (unat sr + 1)" using True cv(1) k by simp
    then have "(2 :: nat) ^ (64 - cu) = 2 ^ (63 - cv) * 2 ^ (unat sr + 1)" by (simp only: power_add)
    then have "unat a div 2 ^ (unat sr + 1) < 2 ^ (63 - cv)" using a(1) by (intro less_mult_imp_div_less) simp
    then have "unat a div 2 ^ (unat sr + 1) < unat b" using b(2) by (rule less_le_trans)
    moreover have "unat b \<le> 2 ^ 63 \<or> unat sr + 1 = 1 \<and> 2 ^ 63 \<le> unat a"
    proof (cases "cv = 0")
      case False
      then have "(2 :: nat) ^ (64 - cv) \<le> 2 ^ 63" by (intro power_increasing) simp_all
      then show ?thesis using b(1) by linarith
    qed (use True a(2) k in simp)
    moreover have "sr \<le> 31" using k cv(1) by (simp add: word_le_nat_alt)
    moreover have "hi32 b = 1" if "sr = 31"
    proof -
      have "unat sr = 31" using that by simp
      then have "cv = 31" using k cv(1) by simp
      then have "unat (hi32 b) = 1" using cv(3,4) by simp
      then show ?thesis by (simp add: word_unat_eq_iff)
    qed
    ultimately show ?thesis by blast
  next
    case False
    then have sr: "sr = -1 - of_nat (cu - cv - 1)" by (simp add: sr_def cu(2) cv(2) of_nat_diff)
    have "unat (-1 :: u32) = 2 ^ 32 - 1" by (simp add: unsigned_minus_1_eq_mask mask_eq_exp_minus_1)
    then have "unat sr = 2 ^ 32 - 1 - (cu - cv - 1)"
      unfolding sr using unat_of_small [of "cu - cv - 1"] cu(1) by (subst unat_sub) simp_all
    then have "31 < sr" using cu(1) by (simp add: word_less_nat_alt)
    moreover have "(2 :: nat) ^ (64 - cu) \<le> 2 ^ (63 - cv)" using False by (intro power_increasing) simp_all
    then have "a < b" unfolding word_less_nat_alt using a(1) b(2) by linarith
    ultimately show ?thesis by blast
  qed
qed


lemma div_mod_wordI: "unat q = unat a div unat b \<Longrightarrow> unat r = unat a mod unat b \<Longrightarrow> (q, r) = (a div b, a mod (b :: u64))"
  by (simp add: word_unat_eq_iff unat_div unat_mod)

lemma div_mod_small: "a < b \<Longrightarrow> (0, a) = (a div b, a mod (b :: u64))"
  by (rule div_mod_wordI) (simp_all add: word_less_nat_alt)

lemma unat_ucast_64 [simp]: "unat (ucast (x :: u32) :: u64) = unat x"
  using unat_ltE(2) [of x] by (simp add: unsigned_ucast_eq take_bit_nat_eq_self)

lemma udiv_general_low:
  assumes "b \<noteq> 0" "1 \<le> k" "k \<le> 32" "unat a div 2 ^ k < unat b" "unat b \<le> 2 ^ 63 \<or> k = 1 \<and> 2 ^ 63 \<le> unat a"
  shows "k = 32 \<Longrightarrow> udiv_general b k (dword (lo32 a) 0) (dword 0 (hi32 a)) = (a div b, a mod b)"
    and "k \<noteq> 32 \<Longrightarrow> udiv_general b k (dword (push_bit (32 - k) (lo32 a)) 0)
           (dword (drop_bit k (hi32 a)) (push_bit (32 - k) (hi32 a) OR drop_bit k (lo32 a))) = (a div b, a mod b)"
  using assms udiv_general_eq [of k b a] shifted_32 [of a] by (simp_all add: shifted_halves shifted_low)

lemma power_of_2_test:
  assumes "d AND (d - 1) = 0" "d \<noteq> 0"
  shows "\<exists>c < 32. ctzsi2 d = of_nat c \<and> unat (ctzsi2 d) = c \<and> d = 2 ^ c \<and> unat d = 2 ^ c \<and> unat (d - 1) = 2 ^ c - 1 \<and> d - 1 = mask c"
proof -
  obtain c where c: "c < 32" "ctzsi2 d = of_nat c" "bit d c" "\<And>i. i < c \<Longrightarrow> \<not> bit d i"
    using ctzsi2_spec [OF assms(2)] by blast
  have d: "d = 2 ^ c" using power_of_2_word [OF assms(1) c(3,4,1)] by blast
  have m: "d - 1 = mask c" unfolding d by (simp add: mask_eq_exp_minus_1)
  have "unat d = 2 ^ c" unfolding d using c(1) by (rule unat_exp_32)
  moreover from this have "unat (d - 1) = 2 ^ c - 1" using assms(2) by (subst unat_sub) (simp_all add: word_le_nat_alt)
  moreover have "unat (ctzsi2 d) = c" using c(1,2) unat_of_small [of c] by simp
  ultimately show ?thesis using c d m by blast
qed


lemmas halves_eq = unat_halves [of a for a]

lemma unat_zero_iff [simp]: "unat (x :: 'a::len word) = 0 \<longleftrightarrow> x = 0"
  by (simp add: word_unat_eq_iff)

lemma hi_zero: "hi32 a = 0 \<Longrightarrow> unat a = unat (lo32 a)" and hi_pos: "hi32 a \<noteq> 0 \<Longrightarrow> 2 ^ 32 \<le> unat a"
proof -
  show "hi32 a = 0 \<Longrightarrow> unat a = unat (lo32 a)" using unat_halves [of a] by simp
  assume "hi32 a \<noteq> 0"
  then have "1 \<le> unat (hi32 a)" by (simp add: Suc_le_eq unat_gt_0)
  then have "1 * 2 ^ 32 \<le> unat (hi32 a) * 2 ^ 32" by (rule mult_le_mono1)
  then show "2 ^ 32 \<le> unat a" using unat_halves [of a] by simp
qed

lemma udiv_high_zero:
  assumes "hi32 a = 0" and "b \<noteq> 0"
  shows "udivmoddi4 a b = Inr (a div b, a mod b)"
proof (cases "hi32 b = 0")
  case True
  then have "lo32 b \<noteq> 0" using assms(2) unat_halves [of b] by (auto simp: word_unat_eq_iff [of b])
  moreover have "(ucast (lo32 a div lo32 b), ucast (lo32 a mod lo32 b)) = (a div b, a mod b)"
    by (rule div_mod_wordI) (simp_all add: hi_zero True assms(1) unat_div unat_mod)
  ultimately show ?thesis using True assms(1) by (simp add: udivmoddi4_def Let_def udiv32_def)
next
  case False
  have "unat a < 2 ^ 32" using hi_zero [OF assms(1)] unat_ltE(2) [of "lo32 a"] by simp
  then have "a < b" using hi_pos [OF False] by (simp add: word_less_nat_alt)
  moreover have "ucast (lo32 a) = a" using hi_zero [OF assms(1)] by (simp add: word_unat_eq_iff)
  ultimately have "(0, ucast (lo32 a)) = (a div b, a mod b)" using div_mod_small by simp
  then show ?thesis using False assms(1) by (simp add: udivmoddi4_def Let_def)
qed

lemma unat_and_mask: "unat (x AND mask c) = unat (x :: u32) mod 2 ^ c"
proof -
  have "unat (take_bit c x) = unat x mod 2 ^ c" 
    by (simp only: unsigned_take_bit_eq) (simp only: take_bit_eq_mod)
  then show ?thesis by (simp only: take_bit_eq_mask)
qed

lemma udiv_low_zero:
  assumes nh: "hi32 a \<noteq> 0" and dl: "lo32 b = 0" and dh: "hi32 b \<noteq> 0"
  shows "udivmoddi4 a b = Inr (a div b, a mod b)"
proof -
  have ua: "unat a = unat (hi32 a) * 2 ^ 32 + unat (lo32 a)" by (rule unat_halves)
  have ub: "unat b = unat (hi32 b) * 2 ^ 32" using unat_halves [of b] dl by simp
  have b0: "b \<noteq> 0" using hi_pos [OF dh] by auto
  consider "lo32 a = 0" | "lo32 a \<noteq> 0" "hi32 b AND (hi32 b - 1) = 0" | "lo32 a \<noteq> 0" "hi32 b AND (hi32 b - 1) \<noteq> 0" by blast
  then show ?thesis
  proof cases
    case 1
    then have "(ucast (hi32 a div hi32 b), dword (hi32 a mod hi32 b) 0) = (a div b, a mod b)"
      by (intro div_mod_wordI) (simp_all add: ua ub unat_dword unat_div unat_mod mult_mod_left)
    then show ?thesis using 1 assms by (simp add: udivmoddi4_def Let_def udiv32_def)
  next
    case 2
    obtain c where c: "c < 32" "unat (ctzsi2 (hi32 b)) = c" "unat (hi32 b) = 2 ^ c" "hi32 b - 1 = mask c"
      using power_of_2_test [OF 2(2) dh] by blast
    have ub2: "unat b = 2 ^ 32 * 2 ^ c" unfolding ub c(3) by simp
    have "(ucast (drop_bit c (hi32 a)), dword (hi32 a AND mask c) (lo32 a)) = (a div b, a mod b)"
    proof (rule div_mod_wordI)
      have "unat a div 2 ^ 32 = unat (hi32 a)" "unat a mod 2 ^ 32 = unat (lo32 a)"
        using unat_ltE(2) [of "lo32 a"] unfolding ua by simp_all
      then show "unat (ucast (drop_bit c (hi32 a)) :: u64) = unat a div unat b"
        and "unat (dword (hi32 a AND mask c) (lo32 a)) = unat a mod unat b"
        unfolding ub2 div_mult2_eq mod_mult2_eq by (simp_all add: unat_drop_bit unat_dword unat_and_mask)
    qed
    then show ?thesis using 2 assms c by (simp add: udivmoddi4_def Let_def)
  next
    case 3
    let ?sr = "clzsi2 (hi32 b) - clzsi2 (hi32 a)"
    have w: "31 < x \<Longrightarrow> 30 < x" "x \<le> 31 \<Longrightarrow> x \<noteq> 31 \<Longrightarrow> x \<le> 30" for x :: u32
      by (simp_all add: word_less_nat_alt word_le_nat_alt word_unat_eq_iff)
    have "hi32 b \<noteq> 1" using 3(2) by auto
    then consider "30 < ?sr" "a < b" | "?sr \<le> 30" "unat a div 2 ^ (unat ?sr + 1) < unat b"
        "unat b \<le> 2 ^ 63 \<or> unat ?sr + 1 = 1 \<and> 2 ^ 63 \<le> unat a"
      using clz_difference [OF nh dh] w by blast
    then show ?thesis
    proof cases
      case 1
      then show ?thesis using 3 assms div_mod_small [of a b] by (simp add: udivmoddi4_def Let_def)
    next
      case 2
      then have "unat ?sr + 1 \<le> 31" by (simp add: word_le_nat_alt)
      note g = udiv_general_low(2) [OF b0 _ _ 2(2,3)]
      show ?thesis unfolding udivmoddi4_def Let_def using 3 assms leD [OF 2(1)] g \<open>unat ?sr + 1 \<le> 31\<close> by simp
    qed
  qed
qed

lemma udiv_both_high:
  assumes nh: "hi32 a \<noteq> 0" and dl: "lo32 b \<noteq> 0" and dh: "hi32 b \<noteq> 0"
  shows "udivmoddi4 a b = Inr (a div b, a mod b)"
proof -
  let ?sr = "clzsi2 (hi32 b) - clzsi2 (hi32 a)" and ?k = "unat (clzsi2 (hi32 b) - clzsi2 (hi32 a)) + 1"
  have b0: "b \<noteq> 0" using hi_pos [OF dh] by auto
  consider "31 < ?sr" "a < b" | "?sr \<le> 31" "unat a div 2 ^ ?k < unat b" "unat b \<le> 2 ^ 63 \<or> ?k = 1 \<and> 2 ^ 63 \<le> unat a"
    using clz_difference [OF nh dh] by blast
  then show ?thesis
  proof cases
    case 1
    then show ?thesis using assms div_mod_small [of a b] by (simp add: udivmoddi4_def Let_def)
  next
    case 2
    then have "?k \<le> 32" by (simp add: word_le_nat_alt)
    note g = udiv_general_low [OF b0 _ this 2(2,3)]
    show ?thesis unfolding udivmoddi4_def Let_def using assms leD [OF 2(1)] g by simp
  qed
qed

lemma udiv_divisor_low:
  assumes nh: "hi32 a \<noteq> 0" and dl: "lo32 b \<noteq> 0" and dh: "hi32 b = 0"
  shows "udivmoddi4 a b = Inr (a div b, a mod b)"
proof (cases "lo32 b AND (lo32 b - 1) = 0")
  case True
  have ub: "unat b = unat (lo32 b)" using dh by (rule hi_zero)
  obtain c where c: "c < 32" "unat (ctzsi2 (lo32 b)) = c" "unat (lo32 b) = 2 ^ c" "lo32 b = 2 ^ c" "lo32 b - 1 = mask c"
    using power_of_2_test [OF True dl] by blast
  have r: "unat (ucast (lo32 a AND mask c) :: u64) = unat a mod unat b"
  proof -
    have "2 ^ c dvd (2 ^ 32 :: nat)" using c(1) by (intro le_imp_power_dvd) simp
    then have "unat a mod 2 ^ c = unat (lo32 a) mod 2 ^ c"
      unfolding unat_halves [of a] by (metis dvd_mult mod_add_left_eq mod_0_imp_dvd dvd_imp_mod_0 add_0)
    then show ?thesis unfolding ub c(3) by (simp add: unat_and_mask)
  qed
  show ?thesis
  proof (cases "c = 0")
    case True
    then have "(a, ucast (lo32 a AND mask c)) = (a div b, a mod b)" using r ub c(3) by (intro div_mod_wordI) simp_all
    then show ?thesis using assms True c \<open>lo32 b AND (lo32 b - 1) = 0\<close> by (simp add: udivmoddi4_def Let_def)
  next
    case False
    have "lo32 b \<noteq> 1" using c(3) False by (auto simp: word_unat_eq_iff)
    moreover have "unat (drop_bit c a) = unat a div unat b" unfolding ub c(3) by (rule unat_drop_bit)
    then have "(drop_bit c a, ucast (lo32 a AND mask c)) = (a div b, a mod b)" using r by (intro div_mod_wordI)
    ultimately show ?thesis using assms c \<open>lo32 b AND (lo32 b - 1) = 0\<close> shifted_halves [OF c(1), of a]
      by (simp add: udivmoddi4_def Let_def)
  qed
next
  case False
  obtain cn where cn: "cn < 32" "clzsi2 (hi32 a) = of_nat cn" "2 ^ (31 - cn) \<le> unat (hi32 a)" "unat (hi32 a) < 2 ^ (32 - cn)"
    using clzsi2_spec [OF nh] by blast
  obtain cd where cd: "cd < 32" "clzsi2 (lo32 b) = of_nat cd" "2 ^ (31 - cd) \<le> unat (lo32 b)" "unat (lo32 b) < 2 ^ (32 - cd)"
    using clzsi2_spec [OF dl] by blast
  have "cd \<noteq> 31"
  proof
    assume "cd = 31"
    then have "lo32 b = 1" using cd(3,4) by (simp add: word_unat_eq_iff)
    then show False using False by simp
  qed
  then have cd31: "cd < 31" using cd(1) by simp
  define k where "k = 33 + cd - cn"
  have "1 + 32 + clzsi2 (lo32 b) - clzsi2 (hi32 a) = of_nat k" 
    unfolding cn(2) cd(2) k_def using cn(1) by (simp add: of_nat_diff)
  moreover have "k < 4294967296" using cd31 by (simp add: k_def)
  ultimately have uk: "unat (1 + 32 + clzsi2 (lo32 b) - clzsi2 (hi32 a)) = k" by (simp only: unat_of_small)
  have k: "1 \<le> k" "k \<le> 63" using cn(1) cd31 by (simp_all add: k_def)
  have ub: "unat b = unat (lo32 b)" using dh by (rule hi_zero)
  have b0: "b \<noteq> 0" using dl by (auto simp: lo32_def)
  have "64 - cn = 31 - cd + k" using cn(1) cd31 by (simp add: k_def)
  then have "(2 :: nat) ^ (64 - cn) = 2 ^ (31 - cd) * 2 ^ k" by (simp only: power_add)
  then have "unat a div 2 ^ k < 2 ^ (31 - cd)"
    using shift_amount(1) [OF refl nh cn(2,3,4,1)] by (intro less_mult_imp_div_less) simp
  then have lt: "unat a div 2 ^ k < unat b" unfolding ub using cd(3) by (rule less_le_trans)
  have c: "unat b \<le> 2 ^ 63 \<or> k = 1 \<and> 2 ^ 63 \<le> unat a" using ub unat_ltE(2) [of "lo32 b"] by simp
  show ?thesis
  proof (cases "k \<le> 32")
    case True
    show ?thesis unfolding udivmoddi4_def Let_def uk using assms False udiv_general_low [OF b0 k(1) True lt c] True by simp
  next
    case hi: False
    then have "32 < k" "k < 64" using k by auto
    then show ?thesis unfolding udivmoddi4_def Let_def uk
      using assms False udiv_general_eq [OF k b0 lt c] shifted_high [of k a] by simp
  qed
qed

theorem udivmoddi4_spec:
  "udivmoddi4 a b = (if b = 0 then Inl (Bad_access ''division by zero'') else Inr (a div b, a mod b))"
proof (cases "b = 0")
  case True
  then have "hi32 b = 0" "lo32 b = 0" by (simp_all add: hi32_def lo32_def)
  then show ?thesis using True by (simp add: udivmoddi4_def Let_def udiv32_def)
next
  case False
  then have "lo32 b = 0 \<Longrightarrow> hi32 b \<noteq> 0" using unat_halves [of b] by (auto simp: word_unat_eq_iff [of b])
  then show ?thesis using False udiv_high_zero udiv_low_zero udiv_both_high udiv_divisor_low by (metis (full_types))
qed

section \<open>Signed division rounds towards zero\<close>

lemma sign_mask_eq: "sign_mask a = (if sint a < 0 then -1 else 0)"
  by (simp add: sign_mask_def signed_drop_63 bit_last_iff [of a, simplified])

lemma negate_by_mask: "((x :: u64) XOR (if b then -1 else 0)) - (if b then -1 else 0) = (if b then - x else x)"
  by (simp add: not_eq_complement)

lemma uint_abs: "uint (if sint a < 0 then - a else a) = \<bar>sint (a :: u64)\<bar>"
proof -
  have "- (2 ^ 63) \<le> sint a" "sint a < 2 ^ 63" using sint_greater_eq [of a] sint_less [of a] by simp_all
  then have "uint (word_of_int \<bar>sint a\<bar> :: u64) = \<bar>sint a\<bar>"
    by (simp add: uint_word_of_int_eq take_bit_int_eq_self)
  moreover have "(if sint a < 0 then - a else a) = word_of_int \<bar>sint a\<bar>" by simp
  ultimately show ?thesis by simp
qed

lemma unsigned_of_abs:
  assumes "b \<noteq> 0"
  shows "udivmoddi4 (if sint a < 0 then - a else a) (if sint b < 0 then - b else b) =
    Inr (word_of_int (\<bar>sint a\<bar> div \<bar>sint b\<bar>), word_of_int (\<bar>sint a\<bar> mod \<bar>sint b\<bar>))"
proof -
  let ?a = "if sint a < 0 then - a else a" and ?b = "if sint b < 0 then - b else b"
  have "?b \<noteq> 0" using assms by simp
  moreover have "?a div ?b = word_of_int (uint ?a div uint ?b)" "?a mod ?b = word_of_int (uint ?a mod uint ?b)"
    by (simp_all only: word_div_def word_mod_def)
  ultimately show ?thesis unfolding udivmoddi4_spec uint_abs by simp
qed

theorem divdi3_spec:
  assumes "b \<noteq> 0"
  shows "divdi3 a b = Inr (word_of_int (sint a sdiv sint b))"
proof -
  have x: "sign_mask a XOR sign_mask b = (if (sint a < 0) \<noteq> (sint b < 0) then -1 else 0)" by (simp add: sign_mask_eq)
  have nz: "sint b \<noteq> 0" using assms by (metis signed_0 signed_word_eqI)
  show ?thesis
    unfolding divdi3_def Let_def x unfolding sign_mask_eq negate_by_mask unsigned_of_abs [OF assms] sdiv_int_eq
    using nz by (cases "sint a = 0") (auto simp: sgn_if)
qed

theorem moddi3_spec:
  assumes "b \<noteq> 0"
  shows "moddi3 a b = Inr (word_of_int (sint a smod sint b))"
  unfolding moddi3_def Let_def sign_mask_eq negate_by_mask unsigned_of_abs [OF assms] signed_modulo_int_def
  by (cases "sint a = 0") (auto simp: sgn_if)

theorem divmoddi4_spec:
  assumes "b \<noteq> 0"
  shows "divmoddi4 a b = Inr (word_of_int (sint a sdiv sint b), word_of_int (sint a smod sint b))"
  unfolding divmoddi4_def divdi3_spec [OF assms] smod_int_eq by simp

end
