(* ===== verification/Klib_String.thy ===== *)
theory Klib_String
  imports Prelude
begin

text \<open>
  \<^verbatim>\<open>abstract-machine/klib/src/string.c\<close> and \<^verbatim>\<open>ctype.c\<close> on the memory of the 32-bit guest: a
  byte for every address. The loops that run until they find a NUL are partial functions (they do
  not return when there is none); the counted loops recurse on the count.
\<close>

type_synonym gmem = "u32 \<Rightarrow> u8"

section \<open>ctype.c\<close>

definition iscntrl :: "int \<Rightarrow> bool" where "iscntrl c \<longleftrightarrow> (c \<ge> 0 \<and> c \<le> 0x1f) \<or> c = 0x7f"
definition isblank :: "int \<Rightarrow> bool" where "isblank c \<longleftrightarrow> c = 9 \<or> c = 32"
definition isspace :: "int \<Rightarrow> bool" where "isspace c \<longleftrightarrow> c = 32 \<or> (c \<ge> 9 \<and> c \<le> 13)"
definition isupper :: "int \<Rightarrow> bool" where "isupper c \<longleftrightarrow> c \<ge> 65 \<and> c \<le> 90"
definition islower :: "int \<Rightarrow> bool" where "islower c \<longleftrightarrow> c \<ge> 97 \<and> c \<le> 122"
definition isalpha :: "int \<Rightarrow> bool" where "isalpha c \<longleftrightarrow> isupper c \<or> islower c"
definition isdigit :: "int \<Rightarrow> bool" where "isdigit c \<longleftrightarrow> c \<ge> 48 \<and> c \<le> 57"
definition isxdigit :: "int \<Rightarrow> bool" where
  "isxdigit c \<longleftrightarrow> isdigit c \<or> (c \<ge> 65 \<and> c \<le> 70) \<or> (c \<ge> 97 \<and> c \<le> 102)"
definition isalnum :: "int \<Rightarrow> bool" where "isalnum c \<longleftrightarrow> isalpha c \<or> isdigit c"
definition ispunct :: "int \<Rightarrow> bool" where
  "ispunct c \<longleftrightarrow> (c \<ge> 33 \<and> c \<le> 47) \<or> (c \<ge> 58 \<and> c \<le> 64) \<or> (c \<ge> 91 \<and> c \<le> 96) \<or> (c \<ge> 123 \<and> c \<le> 126)"
definition isgraph :: "int \<Rightarrow> bool" where "isgraph c \<longleftrightarrow> c \<ge> 33 \<and> c \<le> 126"
definition isprint :: "int \<Rightarrow> bool" where "isprint c \<longleftrightarrow> c \<ge> 32 \<and> c \<le> 126"
definition tolower :: "int \<Rightarrow> int" where "tolower c = (if isupper c then c - 65 + 97 else c)"
definition toupper :: "int \<Rightarrow> int" where "toupper c = (if islower c then c - 97 + 65 else c)"

lemmas ctype_defs = iscntrl_def isblank_def isspace_def isupper_def islower_def isalpha_def isdigit_def
  isxdigit_def isalnum_def ispunct_def isgraph_def isprint_def tolower_def toupper_def

text \<open>The classes of the C locale: every printable character is one of blank, letter, digit, punctuation.\<close>

lemma isprint_partition:
  "isprint c \<longleftrightarrow> c = 32 \<or> isalpha c \<or> isdigit c \<or> ispunct c"
  "isalpha c \<Longrightarrow> \<not> isdigit c" "isalnum c \<Longrightarrow> \<not> ispunct c" "isprint c \<Longrightarrow> \<not> iscntrl c"
  by (auto simp: ctype_defs)

lemma case_roundtrip: "isupper c \<Longrightarrow> toupper (tolower c) = c" "islower c \<Longrightarrow> tolower (toupper c) = c"
  by (auto simp: ctype_defs)

section \<open>string.c\<close>

partial_function (option) strlen_loop :: "gmem \<Rightarrow> u32 \<Rightarrow> u32 option" where
  "strlen_loop m p = (if m p \<noteq> 0 then strlen_loop m (p + 1) else Some p)"

definition strlen :: "gmem \<Rightarrow> u32 \<Rightarrow> u32 option" where
  "strlen m s = map_option (\<lambda>p. p - s) (strlen_loop m s)"

partial_function (option) strcpy_loop :: "gmem \<Rightarrow> u32 \<Rightarrow> u32 \<Rightarrow> gmem option" where
  "strcpy_loop m dst src =
     (let m' = m(dst := m src) in if m src \<noteq> 0 then strcpy_loop m' (dst + 1) (src + 1) else Some m')"

definition strcpy :: "gmem \<Rightarrow> u32 \<Rightarrow> u32 \<Rightarrow> (u32 \<times> gmem) option" where
  "strcpy m dst src = map_option (\<lambda>m'. (dst, m')) (strcpy_loop m dst src)"

fun strncpy_copy :: "nat \<Rightarrow> gmem \<Rightarrow> u32 \<Rightarrow> u32 \<Rightarrow> nat \<times> gmem \<times> u32" where
  "strncpy_copy 0 m dst src = (0, m, dst)"
| "strncpy_copy (Suc n) m dst src =
     (if m src \<noteq> 0 then strncpy_copy n (m(dst := m src)) (dst + 1) (src + 1) else (Suc n, m, dst))"

fun strncpy_pad :: "nat \<Rightarrow> gmem \<Rightarrow> u32 \<Rightarrow> gmem" where
  "strncpy_pad 0 m dst = m"
| "strncpy_pad (Suc n) m dst = strncpy_pad n (m(dst := 0)) (dst + 1)"

definition strncpy :: "gmem \<Rightarrow> u32 \<Rightarrow> u32 \<Rightarrow> u32 \<Rightarrow> u32 \<times> gmem" where
  "strncpy m dst src n = (case strncpy_copy (unat n) m dst src of (k, m', d) \<Rightarrow> (dst, strncpy_pad k m' d))"

definition strcat :: "gmem \<Rightarrow> u32 \<Rightarrow> u32 \<Rightarrow> (u32 \<times> gmem) option" where
  "strcat m dst src =
     Option.bind (strlen m dst) (\<lambda>len. map_option (\<lambda>(_, m'). (dst, m')) (strcpy m (dst + len) src))"

partial_function (option) strcmp_loop :: "gmem \<Rightarrow> u32 \<Rightarrow> u32 \<Rightarrow> int option" where
  "strcmp_loop m p1 p2 =
     (if m p1 \<noteq> 0 \<and> m p1 = m p2 then strcmp_loop m (p1 + 1) (p2 + 1)
      else Some (uint (m p1) - uint (m p2)))"

definition strcmp :: "gmem \<Rightarrow> u32 \<Rightarrow> u32 \<Rightarrow> int option" where
  "strcmp m s1 s2 = strcmp_loop m s1 s2"

fun strncmp_loop :: "nat \<Rightarrow> gmem \<Rightarrow> u32 \<Rightarrow> u32 \<Rightarrow> int" where
  "strncmp_loop 0 m p1 p2 = 0"
| "strncmp_loop (Suc n) m p1 p2 =
     (if m p1 \<noteq> 0 \<and> m p1 = m p2 then strncmp_loop n m (p1 + 1) (p2 + 1)
      else uint (m p1) - uint (m p2))"

definition strncmp :: "gmem \<Rightarrow> u32 \<Rightarrow> u32 \<Rightarrow> u32 \<Rightarrow> int" where
  "strncmp m s1 s2 n = strncmp_loop (unat n) m s1 s2"

fun memset_loop :: "nat \<Rightarrow> gmem \<Rightarrow> u32 \<Rightarrow> u8 \<Rightarrow> gmem" where
  "memset_loop 0 m p c = m"
| "memset_loop (Suc n) m p c = memset_loop n (m(p := c)) (p + 1) c"

definition memset :: "gmem \<Rightarrow> u32 \<Rightarrow> u32 \<Rightarrow> u32 \<Rightarrow> u32 \<times> gmem" where
  "memset m s c n = (s, memset_loop (unat n) m s (ucast c))"

fun copy_up :: "nat \<Rightarrow> gmem \<Rightarrow> u32 \<Rightarrow> u32 \<Rightarrow> gmem" where
  "copy_up 0 m d s = m"
| "copy_up (Suc n) m d s = copy_up n (m(d := m s)) (d + 1) (s + 1)"

fun copy_down :: "nat \<Rightarrow> gmem \<Rightarrow> u32 \<Rightarrow> u32 \<Rightarrow> gmem" where
  "copy_down 0 m d s = m"
| "copy_down (Suc n) m d s = copy_down n (m(d - 1 := m (s - 1))) (d - 1) (s - 1)"

definition memmove :: "gmem \<Rightarrow> u32 \<Rightarrow> u32 \<Rightarrow> u32 \<Rightarrow> u32 \<times> gmem" where
  "memmove m dst src n =
     (if dst = src \<or> n = 0 then (dst, m)
      else if dst < src then (dst, copy_up (unat n) m dst src)
      else (dst, copy_down (unat n) m (dst + n) (src + n)))"

definition memcpy :: "gmem \<Rightarrow> u32 \<Rightarrow> u32 \<Rightarrow> u32 \<Rightarrow> u32 \<times> gmem" where
  "memcpy m out inp n = (out, copy_up (unat n) m out inp)"

fun memcmp_loop :: "nat \<Rightarrow> gmem \<Rightarrow> u32 \<Rightarrow> u32 \<Rightarrow> int" where
  "memcmp_loop 0 m p1 p2 = 0"
| "memcmp_loop (Suc n) m p1 p2 =
     (if m p1 \<noteq> m p2 then uint (m p1) - uint (m p2) else memcmp_loop n m (p1 + 1) (p2 + 1))"

definition memcmp :: "gmem \<Rightarrow> u32 \<Rightarrow> u32 \<Rightarrow> u32 \<Rightarrow> int" where
  "memcmp m s1 s2 n = memcmp_loop (unat n) m s1 s2"

section \<open>Copying\<close>

lemma unat_of_nat_lt: "n < 2 ^ 32 \<Longrightarrow> unat (of_nat n :: u32) = n"
  by (simp add: unsigned_of_nat take_bit_nat_eq_self)

text \<open>\<open>moved m d s n\<close>: the memory in which the \<open>n\<close> bytes at \<open>d\<close> are those \<open>m\<close> has at \<open>s\<close>.\<close>

definition moved :: "gmem \<Rightarrow> u32 \<Rightarrow> u32 \<Rightarrow> nat \<Rightarrow> gmem" where
  "moved m d s n = (\<lambda>a. if unat (a - d) < n then m (s + (a - d)) else m a)"

lemma copy_up_moved:
  assumes "n \<le> 2 ^ 32" and "\<And>i j. i < j \<Longrightarrow> j < n \<Longrightarrow> d + of_nat i \<noteq> s + of_nat j"
  shows "copy_up n m d s = moved m d s n"
  using assms
proof (induction n arbitrary: m d s)
  case 0
  then show ?case by (simp add: moved_def)
next
  case (Suc n)
  have IH: "copy_up n (m(d := m s)) (d + 1) (s + 1) = moved (m(d := m s)) (d + 1) (s + 1) n"
  proof (rule Suc.IH)
    show "n \<le> 2 ^ 32" using Suc.prems(1) by simp
    fix i j assume "i < j" "j < n"
    then show "d + 1 + of_nat i \<noteq> s + 1 + of_nat j" using Suc.prems(2) [of "Suc i" "Suc j"] by simp
  qed
  have "moved (m(d := m s)) (d + 1) (s + 1) n a = moved m d s (Suc n) a" for a
  proof (cases "a = d")
    case True
    have "unat (-1 :: u32) = 2 ^ 32 - 1" by (simp add: unsigned_minus_1_eq_mask mask_eq_exp_minus_1)
    then show ?thesis using True Suc.prems(1) by (simp add: moved_def)
  next
    case False
    then have nz: "a - d \<noteq> 0" by simp
    have u: "unat (a - (d + 1)) = unat (a - d) - 1" using unat_minus_1 [OF nz] by (simp add: algebra_simps)
    have "0 < unat (a - d)" using nz by (simp add: unat_gt_0)
    moreover have "d \<noteq> s + (a - d)" if "unat (a - d) < Suc n"
    proof -
      have "d + of_nat 0 \<noteq> s + of_nat (unat (a - d))" by (rule Suc.prems(2)) (use that calculation in simp_all)
      then show ?thesis by simp
    qed
    moreover have "s + 1 + (a - (d + 1)) = s + (a - d)" by simp
    ultimately show ?thesis using False u unfolding moved_def by auto
  qed
  then show ?case using IH by auto
qed

lemma copy_down_moved:
  assumes "n \<le> 2 ^ 32" and "\<And>i j. i < j \<Longrightarrow> j < n \<Longrightarrow> s + of_nat i \<noteq> d + of_nat j"
  shows "copy_down n m (d + of_nat n) (s + of_nat n) = moved m d s n"
  using assms
proof (induction n arbitrary: m)
  case 0
  then show ?case by (simp add: moved_def)
next
  case (Suc n)
  let ?d = "d + of_nat n" and ?s = "s + of_nat n"
  have "copy_down n (m(?d := m ?s)) ?d ?s = moved (m(?d := m ?s)) d s n"
    by (rule Suc.IH) (use Suc.prems in auto)
  moreover have "moved (m(?d := m ?s)) d s n a = moved m d s (Suc n) a" for a
  proof (cases "a = ?d")
    case True
    then have "unat (a - d) = n" using Suc.prems(1) by (simp add: unat_of_nat_lt)
    then show ?thesis using True by (simp add: moved_def)
  next
    case False
    have "unat (a - d) \<noteq> n"
    proof
      assume "unat (a - d) = n"
      then have "of_nat n = a - d" by auto
      then show False using False by simp
    qed
    moreover have "s + (a - d) \<noteq> ?d" if "unat (a - d) < n"
    proof -
      have "s + of_nat (unat (a - d)) \<noteq> ?d" by (rule Suc.prems(2)) (use that in simp_all)
      then show ?thesis by simp
    qed
    ultimately show ?thesis using False unfolding moved_def by auto
  qed
  ultimately show ?case by (simp add: fun_eq_iff algebra_simps)
qed

lemma add_no_wrap:
  assumes "unat (x :: u32) + n \<le> 2 ^ 32" "i < n"
  shows "unat (x + of_nat i) = unat x + i"
proof -
  have "unat (of_nat i :: u32) = i" using assms unat_ltE(2) [of x] by (intro unat_of_nat_lt) linarith
  then show ?thesis using assms by (simp add: unat_word_ariths)
qed

theorem memmove_moves:
  assumes "unat dst + unat n \<le> 2 ^ 32" "unat src + unat n \<le> 2 ^ 32"
  shows "memmove m dst src n = (dst, moved m dst src (unat n))"
proof -
  have n: "unat n \<le> 2 ^ 32" using unat_ltE(2) [of n] by simp
  consider "dst = src" | "n = 0" | "dst < src" "n \<noteq> 0" | "src < dst" "n \<noteq> 0" by (meson linorder_cases)
  then show ?thesis
  proof cases
    case 3
    have "dst + of_nat i \<noteq> src + of_nat j" if "i < j" "j < unat n" for i j
    proof
      assume "dst + of_nat i = src + of_nat j"
      then have "unat dst + i = unat src + j"
        using add_no_wrap [OF assms(1), of i] add_no_wrap [OF assms(2), of j] that by simp
      then show False using 3(1) that by (simp add: word_less_nat_alt)
    qed
    then show ?thesis using 3 copy_up_moved [OF n] by (auto simp: memmove_def)
  next
    case 4
    have "src + of_nat i \<noteq> dst + of_nat j" if "i < j" "j < unat n" for i j
    proof
      assume "src + of_nat i = dst + of_nat j"
      then have "unat src + i = unat dst + j"
        using add_no_wrap [OF assms(2), of i] add_no_wrap [OF assms(1), of j] that by simp
      then show False using 4(1) that by (simp add: word_less_nat_alt)
    qed
    then show ?thesis using 4 copy_down_moved [OF n, of src dst] by (auto simp: memmove_def)
  qed (simp_all add: memmove_def moved_def fun_eq_iff)
qed

theorem memcpy_moves:
  assumes "\<And>i j. i < unat n \<Longrightarrow> j < unat n \<Longrightarrow> out + of_nat i \<noteq> inp + of_nat j"
  shows "memcpy m out inp n = (out, moved m out inp (unat n))"
  unfolding memcpy_def using unat_ltE(2) [of n] assms by (subst copy_up_moved) auto

lemma memset_fills:
  assumes "n \<le> 2 ^ 32"
  shows "memset_loop n m p c = (\<lambda>a. if unat (a - p) < n then c else m a)"
  using assms
proof (induction n arbitrary: m p)
  case (Suc n)
  have "unat (a - (p + 1)) = unat (a - p) - 1" if "a \<noteq> p" for a
    using unat_minus_1 [of "a - p"] that by (simp add: algebra_simps)
  moreover have "unat (-1 :: u32) = 2 ^ 32 - 1" by (simp add: unsigned_minus_1_eq_mask mask_eq_exp_minus_1)
  moreover have "a \<noteq> p \<Longrightarrow> 0 < unat (a - p)" for a by (simp add: unat_gt_0)
  ultimately show ?case using Suc by (force simp: fun_eq_iff)
qed simp


section \<open>Strings\<close>

fun cstr :: "gmem \<Rightarrow> u32 \<Rightarrow> u8 list \<Rightarrow> bool" where
  "cstr m p [] \<longleftrightarrow> m p = 0"
| "cstr m p (b # bs) \<longleftrightarrow> m p = b \<and> b \<noteq> 0 \<and> cstr m (p + 1) bs"

declare strlen_loop.simps [code] strcpy_loop.simps [code] strcmp_loop.simps [code]

lemma strlen_loop_cstr: "cstr m p bs \<Longrightarrow> strlen_loop m p = Some (p + of_nat (length bs))"
  by (induction bs arbitrary: p) (simp_all add: strlen_loop.simps [of m] algebra_simps)

theorem strlen_cstr: "cstr m p bs \<Longrightarrow> strlen m p = Some (of_nat (length bs))"
  by (simp add: strlen_def strlen_loop_cstr)

lemma uint_inject: "uint x = uint y \<longleftrightarrow> x = y"
  by (simp add: word_uint_eq_iff)

lemma strcmp_loop_cstr:
  assumes "cstr m p xs" "cstr m q ys"
  shows "\<exists>r. strcmp_loop m p q = Some r \<and> (r = 0 \<longleftrightarrow> xs = ys) \<and> (r < 0 \<longleftrightarrow> ord_class.lexordp xs ys)"
  using assms
proof (induction xs arbitrary: p q ys)
  case Nil
  have "0 < uint w" if "w \<noteq> 0" for w :: u8
    using that uint_ge_0 [of w] by (metis order_le_less unsigned_eq_0_iff)
  then show ?case using Nil by (cases ys) (auto simp: strcmp_loop.simps [of m p q] unsigned_eq_0_iff)
next
  case (Cons x xs)
  show ?case
  proof (cases ys)
    case Nil
    then show ?thesis using Cons.prems by (auto simp: strcmp_loop.simps [of m p q] unsigned_eq_0_iff)
  next
    case ys: (Cons y zs)
    then have c: "m p = x" "x \<noteq> 0" "cstr m (p + 1) xs" "m q = y" "cstr m (q + 1) zs" using Cons.prems by auto
    show ?thesis
    proof (cases "x = y")
      case True
      then show ?thesis using Cons.IH [OF c(3,5)] c ys by (simp add: strcmp_loop.simps [of m p q])
    next
      case False
      then have "uint x \<noteq> uint y" by (simp add: uint_inject)
      then show ?thesis using False c ys by (auto simp: strcmp_loop.simps [of m p q] word_less_def)
    qed
  qed
qed

theorem strcmp_orders:
  assumes "cstr m p xs" "cstr m q ys"
  shows "\<exists>r. strcmp m p q = Some r \<and> (r = 0 \<longleftrightarrow> xs = ys) \<and> (r < 0 \<longleftrightarrow> ord_class.lexordp xs ys)"
  using strcmp_loop_cstr [OF assms] by (simp add: strcmp_def)

lemma cstr_nth: "cstr m p bs \<Longrightarrow> i < length bs \<Longrightarrow> m (p + of_nat i) = bs ! i"
proof (induction bs arbitrary: p i)
  case (Cons b bs)
  then show ?case using Cons.IH [of "p + 1" "i - 1"] by (cases i) (auto simp: add.assoc)
qed simp

lemma cstr_end: "cstr m p bs \<Longrightarrow> m (p + of_nat (length bs)) = 0"
proof (induction bs arbitrary: p)
  case (Cons b bs)
  then show ?case using Cons.IH [of "p + 1"] by (simp add: add.assoc)
qed simp

lemma cstr_nonzero: "cstr m p bs \<Longrightarrow> 0 \<notin> set bs"
  by (induction bs arbitrary: p) auto

lemma cstr_copy:
  "cstr m p bs \<Longrightarrow> (\<And>i. i \<le> length bs \<Longrightarrow> m' (d + of_nat i) = m (p + of_nat i)) \<Longrightarrow> cstr m' d bs"
proof (induction bs arbitrary: p d)
  case Nil
  then show ?case using Nil.prems(2) [of 0] by simp
next
  case (Cons b bs)
  have "cstr m' (d + 1) bs"
  proof (rule Cons.IH)
    show "cstr m (p + 1) bs" using Cons.prems(1) by simp
    fix i assume "i \<le> length bs"
    then show "m' (d + 1 + of_nat i) = m (p + 1 + of_nat i)" using Cons.prems(2) [of "Suc i"] by (simp add: algebra_simps)
  qed
  then show ?case using Cons.prems Cons.prems(2) [of 0] by simp
qed

lemma strcpy_loop_moved:
  assumes "cstr m s bs" and "length bs < 2 ^ 32"
    and "\<And>i j. i \<le> length bs \<Longrightarrow> j \<le> length bs \<Longrightarrow> d + of_nat i \<noteq> s + of_nat j"
  shows "strcpy_loop m d s = Some (copy_up (Suc (length bs)) m d s)"
  using assms
proof (induction bs arbitrary: m d s)
  case Nil
  then show ?case by (simp add: strcpy_loop.simps [of m] fun_upd_def)
next
  case (Cons b bs)
  let ?m = "m(d := m s)"
  have "cstr ?m (s + 1) bs"
  proof (rule cstr_copy)
    show "cstr m (s + 1) bs" using Cons.prems(1) by simp
    fix i assume "i \<le> length bs"
    then show "?m (s + 1 + of_nat i) = m (s + 1 + of_nat i)" using Cons.prems(3) [of 0 "Suc i"] by (auto simp: algebra_simps)
  qed
  note c = this
  have d: "d + 1 + of_nat i \<noteq> s + 1 + of_nat j" if "i \<le> length bs" "j \<le> length bs" for i j
    using Cons.prems(3) [of "Suc i" "Suc j"] that by (simp add: algebra_simps)
  have "length bs < 2 ^ 32" using Cons.prems(2) by simp
  from Cons.IH [OF c this d] have "strcpy_loop ?m (d + 1) (s + 1) = Some (copy_up (Suc (length bs)) ?m (d + 1) (s + 1))" .
  then show ?case using Cons.prems(1) by (auto simp: strcpy_loop.simps [of m] Let_def)
qed

theorem strcpy_copies:
  assumes "cstr m s bs" and "length bs < 2 ^ 32"
    and "\<And>i j. i \<le> length bs \<Longrightarrow> j \<le> length bs \<Longrightarrow> d + of_nat i \<noteq> s + of_nat j"
  shows "strcpy m d s = Some (d, moved m d s (length bs + 1))" and "cstr (moved m d s (length bs + 1)) d bs"
proof -
  have "copy_up (Suc (length bs)) m d s = moved m d s (Suc (length bs))"
    by (rule copy_up_moved) (use assms(2,3) in auto)
  then show "strcpy m d s = Some (d, moved m d s (length bs + 1))"
    using strcpy_loop_moved [OF assms] by (simp add: strcpy_def)
  have mv: "moved m d s (length bs + 1) (d + of_nat i) = m (s + of_nat i)" if "i \<le> length bs" for i
    using that assms(2) by (simp add: moved_def unat_of_nat_lt)
  show "cstr (moved m d s (length bs + 1)) d bs" using cstr_copy [OF assms(1) mv] .
qed

lemma memcmp_zero_iff: "memcmp_loop n m p q = 0 \<longleftrightarrow> (\<forall>i < n. m (p + of_nat i) = m (q + of_nat i))"
proof (induction n arbitrary: p q)
  case (Suc n)
  have "(\<forall>i < Suc n. P i) \<longleftrightarrow> P 0 \<and> (\<forall>i < n. P (Suc i))" for P by (auto simp: less_Suc_eq_0_disj)
  then show ?case using Suc [of "p + 1" "q + 1"] by (simp add: add.assoc uint_inject)
qed simp

section \<open>What a caller of the two copy functions may rely on\<close>

locale byte_mover =
  fixes move :: "gmem \<Rightarrow> u32 \<Rightarrow> u32 \<Rightarrow> u32 \<Rightarrow> u32 \<times> gmem"
    and admissible :: "u32 \<Rightarrow> u32 \<Rightarrow> u32 \<Rightarrow> bool"
  assumes moves: "admissible d s n \<Longrightarrow> move m d s n = (d, moved m d s (unat n))"
begin

lemma move_frame: "admissible d s n \<Longrightarrow> unat n \<le> unat (a - d) \<Longrightarrow> snd (move m d s n) a = m a"
  by (simp add: moves moved_def)

lemma move_string:
  assumes "cstr m s bs" and "length bs < unat n" and "admissible d s n"
  shows "cstr (snd (move m d s n)) d bs"
proof (rule cstr_copy [OF assms(1)])
  fix i assume "i \<le> length bs"
  then have "i < unat n" "i < 2 ^ 32" using assms(2) unat_ltE(2) [of n] by simp_all
  then show "snd (move m d s n) (d + of_nat i) = m (s + of_nat i)"
    by (simp add: moves [OF assms(3)] moved_def unat_of_nat_lt)
qed

end

definition no_wrap :: "u32 \<Rightarrow> u32 \<Rightarrow> u32 \<Rightarrow> bool" where
  "no_wrap d s n \<longleftrightarrow> unat d + unat n \<le> 2 ^ 32 \<and> unat s + unat n \<le> 2 ^ 32"

definition no_overlap :: "u32 \<Rightarrow> u32 \<Rightarrow> u32 \<Rightarrow> bool" where
  "no_overlap d s n \<longleftrightarrow> (\<forall>i < unat n. \<forall>j < unat n. d + of_nat i \<noteq> s + of_nat j)"

interpretation mv: byte_mover memmove no_wrap
  by unfold_locales (simp add: no_wrap_def memmove_moves)

interpretation cp: byte_mover memcpy no_overlap
  by unfold_locales (simp add: no_overlap_def memcpy_moves)

end
