(* ===== verification/Klib_Stdlib.thy ===== *)
theory Klib_Stdlib
  imports Klib_String
begin

text \<open>
  \<^verbatim>\<open>abstract-machine/klib/src/stdlib.c\<close>: number parsing, \<^verbatim>\<open>rand\<close> and the bump allocator behind
  \<^verbatim>\<open>malloc\<close>. A string argument is the list of its bytes before the NUL. On the 32-bit guest
  \<^verbatim>\<open>int\<close> and \<^verbatim>\<open>long\<close> have 32 bits; a signed overflow, which C leaves undefined, is an error value.
\<close>

section \<open>Parsing numbers\<close>

definition at_c :: "u8 list \<Rightarrow> nat \<Rightarrow> int" where
  "at_c str i = (if i < length str then uint (str ! i) else 0)"

definition klib_digit_value :: "int \<Rightarrow> int" where
  "klib_digit_value c = (if isdigit c then c - 48 else if isupper c then c - 65 + 10
     else if islower c then c - 97 + 10 else -1)"

lemma at_c_NUL: "at_c str i \<noteq> 0 \<Longrightarrow> i < length str"
  by (simp add: at_c_def split: if_splits)

function skip_space :: "u8 list \<Rightarrow> nat \<Rightarrow> nat" where
  "skip_space str i = (if isspace (at_c str i) then skip_space str (i + 1) else i)"
  by auto
termination
proof (relation "measure (\<lambda>(str, i). length str - i)", simp)
  fix str i assume "isspace (at_c str i)"
  then have "i < length str" by (intro at_c_NUL) (auto simp: isspace_def)
  then show "((str, i + 1), str, i) \<in> measure (\<lambda>(str, i). length str - i)" by simp
qed

text \<open>The base prefix: where the digits start, and the base they have.\<close>

definition detect_base :: "u8 list \<Rightarrow> int \<Rightarrow> nat \<Rightarrow> int \<times> nat" where
  "detect_base str base i =
     (if base = 0 then
        if at_c str i = 48 then
          if at_c str (i + 1) = 120 \<or> at_c str (i + 1) = 88 then (16, i + 2) else (8, i + 1)
        else (10, i)
      else if base = 16 \<and> at_c str i = 48 then
        (base, if at_c str (i + 1) = 120 \<or> at_c str (i + 1) = 88 then i + 2 else i + 1)
      else (base, i))"

definition signed_step :: "nat \<Rightarrow> int \<Rightarrow> int res" where
  "signed_step w x = (if x < 2 ^ (w - 1) then Inr x else Inl (Bad_access ''signed overflow''))"

definition unsigned_step :: "nat \<Rightarrow> int \<Rightarrow> int res" where
  "unsigned_step w x = Inr (x mod 2 ^ w)"

function digits_loop :: "(int \<Rightarrow> int res) \<Rightarrow> u8 list \<Rightarrow> int \<Rightarrow> nat \<Rightarrow> int \<Rightarrow> (int \<times> nat) res" where
  "digits_loop step str base i r =
     (let digit = klib_digit_value (at_c str i) in
      if digit < 0 \<or> digit \<ge> base then Inr (r, i)
      else bindR (step (r * base + digit)) (digits_loop step str base (i + 1)))"
  by auto
termination
proof (relation "measure (\<lambda>(step, str, base, i, r). length str - i)", simp)
  fix step :: "int \<Rightarrow> int res" and str :: "u8 list" and base i r digit and x :: int
  assume "digit = klib_digit_value (at_c str i)" "\<not> (digit < 0 \<or> digit \<ge> base)"
  then have "i < length str" by (intro at_c_NUL) (auto simp: klib_digit_value_def ctype_defs split: if_splits)
  then show "((step, str, base, i + 1, x), step, str, base, i, r) \<in> measure (\<lambda>(step, str, base, i, r). length str - i)"
    by simp
qed

definition bad_base :: "int \<Rightarrow> bool" where
  "bad_base base \<longleftrightarrow> base \<noteq> 0 \<and> (base < 2 \<or> base > 36)"

text \<open>
  The value and the number of characters read (\<^verbatim>\<open>*endptr - str\<close>). \<open>strtol_w\<close> and \<open>strtoul_w\<close> are
  the common text of the two signed and of the two unsigned functions.
\<close>

definition strtol_w :: "nat \<Rightarrow> u8 list \<Rightarrow> int \<Rightarrow> (int \<times> nat) res" where
  "strtol_w w str base =
     (if bad_base base then Inr (0, 0)
      else let i = skip_space str 0;
               negative = (at_c str i = 45);
               i = (if at_c str i = 43 \<or> at_c str i = 45 then i + 1 else i);
               (base', i) = detect_base str base i
           in bindR (digits_loop (signed_step w) str base' i 0)
                (\<lambda>(r, i). Inr (if negative then - r else r, i)))"

definition strtoul_w :: "nat \<Rightarrow> u8 list \<Rightarrow> int \<Rightarrow> (int \<times> nat) res" where
  "strtoul_w w str base =
     (if bad_base base then Inr (0, 0)
      else let i = skip_space str 0;
               i = (if at_c str i = 43 then i + 1 else i);
               (base', i) = detect_base str base i
           in digits_loop (unsigned_step w) str base' i 0)"

definition klib_strtol :: "u8 list \<Rightarrow> int \<Rightarrow> (int \<times> nat) res" where "klib_strtol = strtol_w 32"
definition klib_strtoll :: "u8 list \<Rightarrow> int \<Rightarrow> (int \<times> nat) res" where "klib_strtoll = strtol_w 64"
definition klib_strtoul :: "u8 list \<Rightarrow> int \<Rightarrow> (int \<times> nat) res" where "klib_strtoul = strtoul_w 32"
definition klib_strtoull :: "u8 list \<Rightarrow> int \<Rightarrow> (int \<times> nat) res" where "klib_strtoull = strtoul_w 64"

definition atoi :: "u8 list \<Rightarrow> int res" where "atoi s = bindR (klib_strtol s 10) (\<lambda>(r, _). Inr r)"
definition atol :: "u8 list \<Rightarrow> int res" where "atol s = bindR (klib_strtol s 10) (\<lambda>(r, _). Inr r)"
definition atoll :: "u8 list \<Rightarrow> int res" where "atoll s = bindR (klib_strtoll s 10) (\<lambda>(r, _). Inr r)"

definition abs_c :: "u32 \<Rightarrow> u32 res" where
  "abs_c x = (if sint x < 0 then if x = 0x80000000 then Inl (Bad_access ''signed overflow'') else Inr (- x) else Inr x)"

section \<open>rand\<close>

definition RAND_MAX :: u32 where "RAND_MAX = 32767"

definition rand :: "u32 \<Rightarrow> u32 \<times> u32" where
  "rand random_seed =
     (let seed = (if random_seed = 0 then 0x7a2d5eed else random_seed);
          feedback = 0 XOR (drop_bit 31 seed OR 1);
          feedback = feedback XOR (drop_bit 21 seed OR 1);
          feedback = feedback XOR (drop_bit 1 seed OR 1);
          feedback = feedback XOR (drop_bit 0 seed OR 1);
          seed = drop_bit 1 seed;
          seed = seed OR push_bit 31 feedback
      in (drop_bit 1 seed mod RAND_MAX, seed))"

definition srand :: "u32 \<Rightarrow> u32" where "srand seed = seed"

section \<open>malloc\<close>

definition ROUNDUP :: "u32 \<Rightarrow> u32 \<Rightarrow> u32" where
  "ROUNDUP a sz = (a + sz - 1) AND NOT (sz - 1)"

text \<open>\<open>st\<close> is the static pointer, 0 before the first call; the result is the block (0 is NULL) and the new \<open>st\<close>.\<close>

definition malloc :: "u32 \<Rightarrow> u32 \<Rightarrow> u32 \<Rightarrow> u32 \<Rightarrow> u32 \<times> u32" where
  "malloc heap_start heap_end sz st =
     (let ptr = (if st = 0 then heap_end else st); len = ROUNDUP sz 4 in
      if ptr - len < heap_start then (0, ptr) else (ptr - len, ptr - len))"

section \<open>rand is a shift register without feedback\<close>

lemma rand_seed: "snd (rand s) = drop_bit 1 (if s = 0 then 0x7a2d5eed else s)"
proof -
  define fb :: "u32 \<Rightarrow> u32" where "fb x = ((((0 XOR (drop_bit 31 x OR 1)) XOR (drop_bit 21 x OR 1)) XOR (drop_bit 1 x OR 1)) XOR (drop_bit 0 x OR 1))" for x
  have b: "\<not> bit (fb x) 0" for x unfolding fb_def by (simp add: bit_xor_iff bit_or_iff bit_1_iff)
  have "push_bit 31 (fb x) = 0" for x
  proof (rule bit_word_eqI)
    fix n :: nat assume "n < LENGTH(32)"
    then have "31 \<le> n \<Longrightarrow> n - 31 = 0" by simp
    then show "bit (push_bit 31 (fb x)) n = bit 0 n" using b [of x] by (cases "31 \<le> n") (simp_all add: bit_push_bit_iff)
  qed
  then show ?thesis unfolding rand_def Let_def snd_conv fb_def by (simp only: or.right_neutral)
qed

fun rand_seq :: "nat \<Rightarrow> u32 \<Rightarrow> u32" where
  "rand_seq 0 s = s"
| "rand_seq (Suc n) s = rand_seq n (snd (rand s))"

theorem rand_exhausts:
  assumes "unat s < 2 ^ n" "s \<noteq> 0"
  shows "\<exists>k \<le> n. rand_seq k s = 0"
  using assms
proof (induction n arbitrary: s)
  case 0
  then show ?case by (simp add: unat_gt_0 flip: unat_gt_0)
next
  case (Suc n)
  have s: "snd (rand s) = drop_bit 1 s" using Suc.prems by (simp add: rand_seed)
  show ?case
  proof (cases "drop_bit 1 s = 0")
    case True
    then have "rand_seq (Suc 0) s = 0" using s by simp
    then show ?thesis by (metis Suc_le_mono le0)
  next
    case False
    have "unat (drop_bit 1 s) < 2 ^ n"
      using Suc.prems(1) unfolding unsigned_drop_bit_eq by (simp add: take_bit_nat_eq_self unat_ltE drop_bit_eq_div less_mult_imp_div_less)
    then obtain k where "k \<le> n" "rand_seq k (drop_bit 1 s) = 0" using Suc.IH False by blast
    then have "rand_seq (Suc k) s = 0" using s by simp
    then show ?thesis using \<open>k \<le> n\<close> by blast
  qed
qed

section \<open>malloc\<close>

lemma ROUNDUP_4:
  assumes "unat x + 3 < 2 ^ 32"
  shows "unat (ROUNDUP x 4) = (unat x + 3) div 4 * 4"
proof -
  have e: "x + 4 - 1 = x + 3" "(4 :: u32) - 1 = mask 2" by (simp_all add: mask_eq_exp_minus_1)
  have "unat (x + 3) = unat x + 3" using assms by (simp add: unat_word_ariths)
  then show ?thesis unfolding ROUNDUP_def e unat_and_not_mask by simp
qed


text \<open>
  One call: as long as the request does not reach below address 0, the block lies in the unused part
  of the heap, below everything handed out before.
\<close>

theorem malloc_fresh:
  assumes "malloc hs he n st = (r, st')" and "unat n + 3 \<le> unat (if st = 0 then he else st)" and "r \<noteq> 0"
  shows "hs \<le> r \<and> unat r + unat n \<le> unat (if st = 0 then he else st) \<and> st' = r"
proof -
  let ?p = "if st = 0 then he else st" and ?len = "ROUNDUP n 4"
  have "unat n + 3 < 2 ^ 32" using assms(2) unat_ltE(2) [of ?p] by simp
  then have len: "unat ?len = (unat n + 3) div 4 * 4" by (rule ROUNDUP_4)
  then have le: "unat n \<le> unat ?len" "unat ?len \<le> unat n + 3" by presburger+
  then have "unat (?p - ?len) = unat ?p - unat ?len" using assms(2) by (intro unat_sub) (simp add: word_le_nat_alt)
  then show ?thesis using assms(1,3) le assms(2) unfolding malloc_def Let_def by (auto simp: not_less split: if_splits)
qed

fun malloc_seq :: "u32 \<Rightarrow> u32 \<Rightarrow> u32 list \<Rightarrow> u32 \<Rightarrow> (u32 \<times> u32) list" where
  "malloc_seq hs he [] st = []"
| "malloc_seq hs he (n # ns) st = (case malloc hs he n st of (r, st') \<Rightarrow> (r, n) # malloc_seq hs he ns st')"

definition block :: "u32 \<times> u32 \<Rightarrow> nat set" where
  "block b = (if fst b = 0 then {} else {unat (fst b) ..< unat (fst b) + unat (snd b)})"

lemma malloc_state:
  assumes "malloc hs he n st = (r, st')" and "unat n + 3 \<le> unat hs" and "hs \<le> (if st = 0 then he else st)"
  shows "st' \<noteq> 0 \<and> hs \<le> st' \<and> st' \<le> (if st = 0 then he else st)"
proof -
  let ?p = "if st = 0 then he else st" and ?len = "ROUNDUP n 4"
  have p: "unat hs \<le> unat ?p" using assms(3) by (simp add: word_le_nat_alt)
  have "unat n + 3 < 2 ^ 32" using assms(2) unat_ltE(2) [of hs] by simp
  then have len: "unat ?len = (unat n + 3) div 4 * 4" by (rule ROUNDUP_4)
  then have le: "unat ?len \<le> unat n + 3" by presburger
  then have u: "unat (?p - ?len) = unat ?p - unat ?len" using assms(2) p by (intro unat_sub) (simp add: word_le_nat_alt)
  have "st' = ?p \<or> st' = ?p - ?len \<and> hs \<le> ?p - ?len"
    using assms(1) unfolding malloc_def Let_def by (auto simp: not_less split: if_splits)
  then have "hs \<le> st'" "st' \<le> ?p" using u assms(3) by (auto simp: word_le_nat_alt)
  moreover have "0 < unat hs" using assms(2) by linarith
  ultimately show ?thesis by (auto simp: word_le_nat_alt)
qed

theorem malloc_disjoint:
  assumes "\<And>n. n \<in> set ns \<Longrightarrow> unat n + 3 \<le> unat hs" and "hs \<le> (if st = 0 then he else st)"
  shows "(\<forall>b \<in> set (malloc_seq hs he ns st). block b \<subseteq> {unat hs ..< unat (if st = 0 then he else st)})
    \<and> sorted_wrt (\<lambda>b c. block b \<inter> block c = {}) (malloc_seq hs he ns st)"
  using assms
proof (induction ns arbitrary: st)
  case (Cons n ns)
  let ?p = "if st = 0 then he else st"
  obtain r st' where m: "malloc hs he n st = (r, st')" by (cases "malloc hs he n st")
  have n: "unat n + 3 \<le> unat hs" using Cons.prems(1) by simp
  then have n': "unat n + 3 \<le> unat ?p" using Cons.prems(2) by (simp add: word_le_nat_alt)
  have st': "st' \<noteq> 0" "hs \<le> st'" "unat st' \<le> unat ?p"
    using malloc_state [OF m n Cons.prems(2)] by (simp_all add: word_le_nat_alt)
  have IH: "\<And>b. b \<in> set (malloc_seq hs he ns st') \<Longrightarrow> block b \<subseteq> {unat hs ..< unat st'}"
    "sorted_wrt (\<lambda>b c. block b \<inter> block c = {}) (malloc_seq hs he ns st')"
    using Cons.IH [of st'] Cons.prems(1) st' by simp_all
  have b: "block (r, n) \<subseteq> {unat st' ..< unat ?p}"
    using malloc_fresh [OF m n'] by (cases "r = 0") (auto simp: block_def)
  have "{unat st' ..< unat ?p} \<inter> {unat hs ..< unat st'} = {}" by auto
  then have "block (r, n) \<inter> block c = {}" if "c \<in> set (malloc_seq hs he ns st')" for c
    using IH(1) [OF that] b by blast
  moreover have "{unat st' ..< unat ?p} \<subseteq> {unat hs ..< unat ?p}" "{unat hs ..< unat st'} \<subseteq> {unat hs ..< unat ?p}"
    using st'(2,3) by (simp_all add: word_le_nat_alt)
  then have "block c \<subseteq> {unat hs ..< unat ?p}" if "c \<in> insert (r, n) (set (malloc_seq hs he ns st'))" for c
    using that b IH(1) by blast
  ultimately show ?case using IH(2) by (simp only: m malloc_seq.simps prod.case list.set sorted_wrt.simps) blast
qed simp

text \<open>A request that reaches below address 0 wraps around: the answer is above the heap.\<close>

lemma malloc_wraps: "malloc 0x80100000 0x88000000 0x90000000 0 = (0xf8000000, 0xf8000000)"
  by (simp add: malloc_def ROUNDUP_def Let_def)

end
