(* ===== verification/Klib_Stdio.thy ===== *)
theory Klib_Stdio
  imports Klib_Stdlib
begin

text \<open>
  \<^verbatim>\<open>abstract-machine/klib/src/stdio.c\<close>: the formatted output of the guest library. The variable
  arguments are a list; taking an argument of another kind than the caller passed is an error value.
  \<^verbatim>\<open>int\<close>, \<^verbatim>\<open>long\<close> and pointers are the same 32-bit argument on the guest.
\<close>

datatype va = Va_word u32 | Va_llong u64 | Va_str "u8 list option" | Va_double

record printf_state =
  pf_mem :: gmem
  pf_out :: "u8 list"      \<comment> \<open>what \<^verbatim>\<open>putch\<close> was called with\<close>
  pf_dest :: u32
  pf_putch :: bool
  pf_count :: u32
  pf_max :: u32

definition printf_putch :: "u8 \<Rightarrow> printf_state \<Rightarrow> printf_state" where
  "printf_putch ch st =
     (let st' = (if pf_count st < pf_max st then
                   if pf_putch st then st\<lparr>pf_out := pf_out st @ [ch]\<rparr>
                   else st\<lparr>pf_mem := (pf_mem st)(pf_dest st + pf_count st := ch)\<rparr>
                 else st)
      in st'\<lparr>pf_count := pf_count st + 1\<rparr>)"

fun printf_pad_loop :: "nat \<Rightarrow> u8 \<Rightarrow> printf_state \<Rightarrow> printf_state" where
  "printf_pad_loop 0 ch st = st"
| "printf_pad_loop (Suc n) ch st = printf_pad_loop n ch (printf_putch ch st)"

definition printf_pad :: "u8 \<Rightarrow> u32 \<Rightarrow> printf_state \<Rightarrow> printf_state" where
  "printf_pad ch n st = printf_pad_loop (unat n) ch st"

definition printf_char :: "u8 \<Rightarrow> u32 \<Rightarrow> bool \<Rightarrow> printf_state \<Rightarrow> printf_state" where
  "printf_char ch width left st =
     (let st = (if \<not> left \<and> width > 1 then printf_pad 32 (width - 1) st else st);
          st = printf_putch ch st
      in if left \<and> width > 1 then printf_pad 32 (width - 1) st else st)"

fun printf_all :: "u8 list \<Rightarrow> printf_state \<Rightarrow> printf_state" where
  "printf_all [] st = st"
| "printf_all (ch # cs) st = printf_all cs (printf_putch ch st)"

definition null_text :: "u8 list" where
  "null_text = [40, 110, 117, 108, 108, 41]"

definition printf_string :: "u8 list option \<Rightarrow> u32 \<Rightarrow> bool \<Rightarrow> printf_state \<Rightarrow> printf_state" where
  "printf_string arg width left st =
     (let str = (case arg of None \<Rightarrow> null_text | Some s \<Rightarrow> s);
          len = of_nat (length str);
          st = (if \<not> left \<and> width > len then printf_pad 32 (width - len) st else st);
          st = printf_all str st
      in if left \<and> width > len then printf_pad 32 (width - len) st else st)"

text \<open>
  The digits as the loop stores them, least significant first. The first argument is the room left
  in \<^verbatim>\<open>char buffer[32]\<close>.
\<close>

definition digit_char :: "bool \<Rightarrow> u64 \<Rightarrow> u8" where
  "digit_char upper rem = (if rem < 10 then ucast (rem + 48) else ucast (rem - 10 + (if upper then 65 else 97)))"

fun printf_digits :: "nat \<Rightarrow> u64 \<Rightarrow> u64 \<Rightarrow> bool \<Rightarrow> u8 list res" where
  "printf_digits 0 n base upper = Inl (Bad_access ''digit buffer'')"
| "printf_digits (Suc room) n base upper =
     (if base = 0 then Inl (Bad_access ''division by zero'')
      else let ch = digit_char upper (n mod base); n' = n div base in
        if n' \<noteq> 0 then bindR (printf_digits room n' base upper) (\<lambda>cs. Inr (ch # cs)) else Inr [ch])"

definition printf_unsigned :: "u64 \<Rightarrow> u64 \<Rightarrow> u32 \<Rightarrow> bool \<Rightarrow> u8 \<Rightarrow> bool \<Rightarrow> printf_state \<Rightarrow> printf_state res" where
  "printf_unsigned n base width left padding upper st =
     bindR (printf_digits 32 n base upper) (\<lambda>buffer.
       let digits = of_nat (length buffer);
           st = (if \<not> left \<and> width > digits then printf_pad padding (width - digits) st else st);
           st = printf_all (rev buffer) st
       in Inr (if left \<and> width > digits then printf_pad 32 (width - digits) st else st))"

definition printf_signed :: "u64 \<Rightarrow> u32 \<Rightarrow> bool \<Rightarrow> u8 \<Rightarrow> u8 \<Rightarrow> printf_state \<Rightarrow> printf_state res" where
  "printf_signed n width left padding sign st =
     (let neg = sint n < 0; val = (if neg then - n else n) in
      if neg \<or> sign \<noteq> 0 then
        let pad = (\<not> left \<and> padding = 32 \<and> width > 0);
            st = (if pad then printf_pad 32 (width - 1) st else st);
            width = (if pad then 1 else width);
            st = printf_putch (if neg then 45 else sign) st;
            width = (if width > 0 then width - 1 else width)
        in printf_unsigned val 10 width left padding False st
      else printf_unsigned val 10 width left padding False st)"

section \<open>The format string\<close>

record fmt_opts =
  fo_left :: bool
  fo_sign :: u8
  fo_padding :: u8

fun parse_flags :: "u8 list \<Rightarrow> fmt_opts \<Rightarrow> fmt_opts \<times> u8 list" where
  "parse_flags [] o1 = (o1, [])"
| "parse_flags (c # fmt) o1 =
     (if c = 45 then parse_flags fmt (o1\<lparr>fo_left := True\<rparr>)
      else if c = 43 then parse_flags fmt (o1\<lparr>fo_sign := 43\<rparr>)
      else if c = 32 then parse_flags fmt (o1\<lparr>fo_sign := 32\<rparr>)
      else if c = 48 then parse_flags fmt (o1\<lparr>fo_padding := 48\<rparr>)
      else if c = 35 then parse_flags fmt o1
      else (o1, c # fmt))"

definition is_dec :: "u8 \<Rightarrow> bool" where "is_dec c \<longleftrightarrow> 48 \<le> c \<and> c \<le> 57"

fun parse_width :: "u8 list \<Rightarrow> u32 \<Rightarrow> u32 \<times> u8 list" where
  "parse_width [] w = (w, [])"
| "parse_width (c # fmt) w =
     (if is_dec c then parse_width fmt (w * 10 + ucast c - 48) else (w, c # fmt))"

definition skip_precision :: "u8 list \<Rightarrow> u8 list" where
  "skip_precision fmt = (case fmt of [] \<Rightarrow> [] | c # fmt' \<Rightarrow> if c = 46 then dropWhile is_dec fmt' else fmt)"

fun parse_length :: "u8 list \<Rightarrow> int \<Rightarrow> int \<times> u8 list" where
  "parse_length [] l = (l, [])"
| "parse_length (c # fmt) l =
     (if c = 108 then parse_length fmt (l + 1) else if c = 104 then parse_length fmt (l - 1) else (l, c # fmt))"

fun va_word :: "va list \<Rightarrow> (u32 \<times> va list) res" where
  "va_word (Va_word w # ap) = Inr (w, ap)"
| "va_word _ = Inl (Bad_access ''va_arg'')"

fun va_llong :: "va list \<Rightarrow> (u64 \<times> va list) res" where
  "va_llong (Va_llong w # ap) = Inr (w, ap)"
| "va_llong _ = Inl (Bad_access ''va_arg'')"

fun va_str :: "va list \<Rightarrow> (u8 list option \<times> va list) res" where
  "va_str (Va_str s # ap) = Inr (s, ap)"
| "va_str _ = Inl (Bad_access ''va_arg'')"

fun va_double :: "va list \<Rightarrow> va list res" where
  "va_double (Va_double # ap) = Inr ap"
| "va_double _ = Inl (Bad_access ''va_arg'')"

definition va_unsigned :: "int \<Rightarrow> va list \<Rightarrow> (u64 \<times> va list) res" where
  "va_unsigned level ap = (if level \<ge> 2 then va_llong ap else bindR (va_word ap) (\<lambda>(w, ap). Inr (ucast w, ap)))"

definition va_signed :: "int \<Rightarrow> va list \<Rightarrow> (u64 \<times> va list) res" where
  "va_signed level ap = (if level \<ge> 2 then va_llong ap else bindR (va_word ap) (\<lambda>(w, ap). Inr (scast w, ap)))"

definition printf_conv :: "u8 \<Rightarrow> fmt_opts \<Rightarrow> u32 \<Rightarrow> int \<Rightarrow> va list \<Rightarrow> printf_state \<Rightarrow> (printf_state \<times> va list) res" where
  "printf_conv c o1 width level ap st =
     (let left = fo_left o1; padding = fo_padding o1 in
      if c = 37 then Inr (printf_char 37 width left st, ap)
      else if c = 99 then bindR (va_word ap) (\<lambda>(w, ap). Inr (printf_char (ucast w) width left st, ap))
      else if c = 115 then bindR (va_str ap) (\<lambda>(s, ap). Inr (printf_string s width left st, ap))
      else if c = 100 \<or> c = 105 then
        bindR (va_signed level ap) (\<lambda>(n, ap).
        bindR (printf_signed n width left padding (fo_sign o1) st) (\<lambda>st. Inr (st, ap)))
      else if c = 117 then
        bindR (va_unsigned level ap) (\<lambda>(n, ap).
        bindR (printf_unsigned n 10 width left padding False st) (\<lambda>st. Inr (st, ap)))
      else if c = 112 then
        bindR (va_word ap) (\<lambda>(p, ap).
        bindR (printf_unsigned (ucast p) 16 width left padding False (printf_putch 120 (printf_putch 48 st))) (\<lambda>st. Inr (st, ap)))
      else if c = 120 \<or> c = 88 then
        bindR (va_unsigned level ap) (\<lambda>(n, ap).
        bindR (printf_unsigned n 16 width left padding (c = 88) st) (\<lambda>st. Inr (st, ap)))
      else if c = 111 then
        bindR (va_unsigned level ap) (\<lambda>(n, ap).
        bindR (printf_unsigned n 8 width left padding False st) (\<lambda>st. Inr (st, ap)))
      else if c \<in> {102, 70, 101, 69, 103, 71, 97, 65} then bindR (va_double ap) (\<lambda>ap. Inr (st, ap))
      else Inr (printf_putch c (printf_putch 37 st), ap))"

text \<open>One conversion specification: its options and the format string at the conversion character.\<close>

definition parse_spec :: "u8 list \<Rightarrow> (fmt_opts \<times> u32 \<times> int) \<times> u8 list" where
  "parse_spec fmt =
     (let (o1, fmt) = parse_flags fmt \<lparr>fo_left = False, fo_sign = 0, fo_padding = 32\<rparr>;
          (width, fmt) = parse_width fmt 0;
          fmt = skip_precision fmt;
          (level, fmt) = parse_length fmt 0
      in ((o1, width, level), fmt))"

lemma parse_flags_length: "length (snd (parse_flags fmt o1)) \<le> length fmt"
  by (induction fmt o1 rule: parse_flags.induct) auto

lemma parse_width_length: "length (snd (parse_width fmt w)) \<le> length fmt"
  by (induction fmt w rule: parse_width.induct) auto

lemma parse_length_length: "length (snd (parse_length fmt l)) \<le> length fmt"
  by (induction fmt l rule: parse_length.induct) auto

lemma skip_precision_length: "length (skip_precision fmt) \<le> length fmt"
proof (cases fmt)
  case (Cons c fmt')
  then show ?thesis using length_dropWhile_le [of is_dec fmt'] by (auto simp: skip_precision_def)
qed (simp add: skip_precision_def)

lemma parse_spec_length: "length (snd (parse_spec fmt)) \<le> length fmt"
  unfolding parse_spec_def Let_def split_beta snd_conv
  by (meson le_trans parse_flags_length parse_width_length skip_precision_length parse_length_length)

function printf_backend :: "u8 list \<Rightarrow> va list \<Rightarrow> printf_state \<Rightarrow> printf_state res" where
  "printf_backend fmt ap st =
     (case fmt of [] \<Rightarrow> Inr st
      | c # fmt1 \<Rightarrow>
          if c \<noteq> 37 then printf_backend fmt1 ap (printf_putch c st)
          else (case snd (parse_spec fmt1) of [] \<Rightarrow> Inr st
                | conv # fmt2 \<Rightarrow>
                    (case fst (parse_spec fmt1) of (o1, width, level) \<Rightarrow>
                      bindR (printf_conv conv o1 width level ap st) (\<lambda>(st, ap). printf_backend fmt2 ap st))))"
  by auto
termination
proof (relation "measure (\<lambda>(fmt, ap, st). length fmt)", simp, simp)
  fix fmt ap st c fmt1 conv fmt2 o1 width level and x :: "printf_state \<times> va list" and st' ap' wl
  assume "fmt = c # fmt1" "snd (parse_spec fmt1) = conv # fmt2"
  then have "length fmt2 < length fmt" using parse_spec_length [of fmt1] by simp
  then show "((fmt2, ap', st'), fmt, ap, st) \<in> measure (\<lambda>(fmt, ap, st). length fmt)" by simp
qed

section \<open>The public functions\<close>

definition printf_c :: "u8 list \<Rightarrow> va list \<Rightarrow> gmem \<Rightarrow> (u32 \<times> u8 list) res" where
  "printf_c fmt ap m =
     bindR (printf_backend fmt ap \<lparr>pf_mem = m, pf_out = [], pf_dest = 0, pf_putch = True, pf_count = 0, pf_max = -1\<rparr>)
       (\<lambda>st. Inr (pf_count st, pf_out st))"

definition vsnprintf :: "u32 \<Rightarrow> u32 \<Rightarrow> u8 list \<Rightarrow> va list \<Rightarrow> gmem \<Rightarrow> (u32 \<times> gmem) res" where
  "vsnprintf out n fmt ap m =
     bindR (printf_backend fmt ap \<lparr>pf_mem = m, pf_out = [], pf_dest = out, pf_putch = False, pf_count = 0,
        pf_max = (if n = 0 then 0 else n - 1)\<rparr>)
       (\<lambda>st. Inr (pf_count st,
          if n > 0 then (pf_mem st)(out + (if pf_count st < n then pf_count st else n - 1) := 0) else pf_mem st))"

definition vsprintf :: "u32 \<Rightarrow> u8 list \<Rightarrow> va list \<Rightarrow> gmem \<Rightarrow> (u32 \<times> gmem) res" where
  "vsprintf out fmt ap m = vsnprintf out (-1) fmt ap m"

definition sprintf :: "u32 \<Rightarrow> u8 list \<Rightarrow> va list \<Rightarrow> gmem \<Rightarrow> (u32 \<times> gmem) res" where
  "sprintf out fmt ap m = vsprintf out fmt ap m"

definition snprintf :: "u32 \<Rightarrow> u32 \<Rightarrow> u8 list \<Rightarrow> va list \<Rightarrow> gmem \<Rightarrow> (u32 \<times> gmem) res" where
  "snprintf out n fmt ap m = vsnprintf out n fmt ap m"

declare printf_backend.simps [simp del]

section \<open>What is printed does not depend on where it is printed\<close>

definition writes :: "(printf_state \<Rightarrow> printf_state res) \<Rightarrow> u8 list res \<Rightarrow> bool" where
  "writes f r \<longleftrightarrow> (\<forall>st. f st = bindR r (\<lambda>cs. Inr (printf_all cs st)))"

lemma printf_all_append: "printf_all (as @ bs) st = printf_all bs (printf_all as st)"
  by (induction as arbitrary: st) simp_all

lemma printf_pad_all: "printf_pad ch n st = printf_all (replicate (unat n) ch) st"
proof -
  have "printf_pad_loop k ch st = printf_all (replicate k ch) st" for k
    by (induction k arbitrary: st) simp_all
  then show ?thesis by (simp add: printf_pad_def)
qed

lemma printf_char_all: "\<exists>cs. \<forall>st. printf_char ch width left st = printf_all cs st"
  unfolding printf_char_def Let_def printf_pad_all
  by (intro exI [of _ "(if \<not> left \<and> width > 1 then replicate (unat (width - 1)) 32 else []) @ [ch] @
      (if left \<and> width > 1 then replicate (unat (width - 1)) 32 else [])"]) (simp add: printf_all_append)

lemma printf_string_all: "\<exists>cs. \<forall>st. printf_string s width left st = printf_all cs st"
  unfolding printf_string_def Let_def printf_pad_all
  by (intro exI [of _ "(if \<not> left \<and> width > of_nat (length (case s of None \<Rightarrow> null_text | Some t \<Rightarrow> t)) then
        replicate (unat (width - of_nat (length (case s of None \<Rightarrow> null_text | Some t \<Rightarrow> t)))) 32 else []) @
      (case s of None \<Rightarrow> null_text | Some t \<Rightarrow> t) @
      (if left \<and> width > of_nat (length (case s of None \<Rightarrow> null_text | Some t \<Rightarrow> t)) then
        replicate (unat (width - of_nat (length (case s of None \<Rightarrow> null_text | Some t \<Rightarrow> t)))) 32 else [])"])
    (simp add: printf_all_append)

definition padded :: "u32 \<Rightarrow> bool \<Rightarrow> u8 \<Rightarrow> u8 list \<Rightarrow> u8 list" where
  "padded width left padding cs =
     (let k = of_nat (length cs) in
      (if \<not> left \<and> width > k then replicate (unat (width - k)) padding else []) @ cs @
      (if left \<and> width > k then replicate (unat (width - k)) 32 else []))"

lemma printf_unsigned_writes:
  "writes (printf_unsigned n base width left padding upper)
     (bindR (printf_digits 32 n base upper) (\<lambda>ds. Inr (padded width left padding (rev ds))))"
  unfolding writes_def printf_unsigned_def
  by (cases "printf_digits 32 n base upper") (simp_all add: Let_def padded_def printf_pad_all printf_all_append)

lemma writes_prefix:
  assumes "writes f r" shows "writes (\<lambda>st. f (printf_all cs st)) (bindR r (\<lambda>ds. Inr (cs @ ds)))"
  using assms unfolding writes_def by (cases r) (simp_all add: printf_all_append)

lemma printf_signed_writes: "\<exists>r. writes (printf_signed n width left padding sign) r"
proof -
  define neg where "neg = (sint n < 0)"
  define pad where "pad = (\<not> left \<and> padding = 32 \<and> width > 0)"
  define w where "w = (if pad then 1 else width)"
  define w' where "w' = (if w > 0 then w - 1 else w)"
  show ?thesis
  proof (cases "neg \<or> sign \<noteq> 0")
    case True
    then have "printf_signed n width left padding sign =
      (\<lambda>st. printf_unsigned (if neg then - n else n) 10 w' left padding False
        (printf_all ((if pad then replicate (unat (width - 1)) 32 else []) @ [if neg then 45 else sign]) st))"
      by (auto simp: fun_eq_iff printf_signed_def Let_def neg_def pad_def w_def w'_def printf_pad_all printf_all_append)
    then show ?thesis using writes_prefix [OF printf_unsigned_writes] by metis
  next
    case False
    then have "printf_signed n width left padding sign = printf_unsigned (if neg then - n else n) 10 width left padding False"
      by (simp add: fun_eq_iff printf_signed_def Let_def neg_def)
    then show ?thesis using printf_unsigned_writes by metis
  qed
qed

definition emits :: "(printf_state \<Rightarrow> (printf_state \<times> va list) res) \<Rightarrow> bool" where
  "emits f \<longleftrightarrow> (\<exists>r. \<forall>st. f st = bindR r (\<lambda>(cs, ap'). Inr (printf_all cs st, ap')))"

lemma emits_if: "emits f \<Longrightarrow> emits g \<Longrightarrow> emits (\<lambda>st. if b then f st else g st)"
  by (cases b) simp_all

lemma conv_writesI1:
  assumes "\<And>x. \<exists>r. writes (g x) r"
  shows "emits (\<lambda>st. bindR (va ap) (\<lambda>(x, ap'). bindR (g x st) (\<lambda>st. Inr (st, ap'))))"
proof (cases "va ap")
  case (Inr p)
  obtain r where r: "writes (g (fst p)) r" using assms by blast
  have "\<forall>st. bindR (va ap) (\<lambda>(x, ap'). bindR (g x st) (\<lambda>st. Inr (st, ap'))) =
     bindR (bindR r (\<lambda>cs. Inr (cs, snd p))) (\<lambda>(cs, ap'). Inr (printf_all cs st, ap'))"
    using r Inr by (cases r) (simp_all add: writes_def split_beta)
  then show ?thesis unfolding emits_def by blast
next
  case (Inl e)
  then show ?thesis unfolding emits_def by (intro exI [of _ "Inl e"]) simp
qed

lemma conv_writesI2:
  assumes "\<And>x. \<exists>cs. \<forall>st. g x st = printf_all cs st"
  shows "emits (\<lambda>st. bindR (va ap) (\<lambda>(x, ap'). Inr (g x st, ap')))"
proof -
  have "\<exists>r. writes (\<lambda>st. Inr (g x st)) r" for x
  proof -
    obtain cs where "\<forall>st. g x st = printf_all cs st" using assms by blast
    then have "writes (\<lambda>st. Inr (g x st)) (Inr cs)" by (simp add: writes_def)
    then show ?thesis by blast
  qed
  then show ?thesis using conv_writesI1 [of "\<lambda>x st. Inr (g x st)" va ap] by simp
qed


lemma emits_text: "(\<And>st. f st = printf_all cs st) \<Longrightarrow> emits (\<lambda>st. Inr (f st, ap))"
  unfolding emits_def by (intro exI [of _ "Inr (cs, ap)"]) simp

lemma printf_conv_emits: "emits (printf_conv c o1 width level ap)"
proof -
  have un: "\<exists>r. writes (printf_unsigned n base width left padding upper) r" for n base width left padding upper
    using printf_unsigned_writes by blast
  have p: "\<exists>r. writes (\<lambda>st. printf_unsigned n base width left padding upper (printf_putch 120 (printf_putch 48 st))) r"
    for n base width left padding upper
    using writes_prefix [OF printf_unsigned_writes, of n base width left padding upper "[48, 120]"] by auto
  have "emits (\<lambda>st. Inr (printf_char 37 width (fo_left o1) st, ap))"
    using printf_char_all [of 37 width "fo_left o1"] emits_text by metis
  moreover have "emits (\<lambda>st. Inr (printf_putch c (printf_putch 37 st), ap))"
    by (rule emits_text [of _ "[37, c]"]) simp
  moreover have "emits (\<lambda>st. bindR (va_double ap) (\<lambda>ap. Inr (st, ap)))"
  proof (cases "va_double ap")
    case (Inl e)
    then show ?thesis unfolding emits_def by (intro exI [of _ "Inl e"]) simp
  next
    case (Inr ap')
    then show ?thesis unfolding emits_def by (intro exI [of _ "Inr ([], ap')"]) simp
  qed
  ultimately show ?thesis unfolding printf_conv_def Let_def
    by (intro emits_if conv_writesI1 conv_writesI2 printf_char_all printf_string_all printf_signed_writes un p)
qed

lemma printf_backend_writes: "\<exists>r. writes (printf_backend fmt ap) r"
proof (induction "length fmt" arbitrary: fmt ap rule: less_induct)
  case less
  show ?case
  proof (cases fmt)
    case Nil
    then have "writes (printf_backend fmt ap) (Inr [])" by (simp add: writes_def printf_backend.simps [of "[]"])
    then show ?thesis ..
  next
    case (Cons c fmt1)
    show ?thesis
    proof (cases "c = 37")
      case False
      obtain r where "writes (printf_backend fmt1 ap) r" using less [of fmt1] Cons by auto
      from writes_prefix [OF this, of "[c]"] have "writes (printf_backend fmt ap) (bindR r (\<lambda>ds. Inr ([c] @ ds)))"
        using Cons False by (simp add: writes_def printf_backend.simps [of "c # fmt1"])
      then show ?thesis by blast
    next
      case pc: True
      show ?thesis
      proof (cases "snd (parse_spec fmt1)")
        case Nil
        then have "writes (printf_backend fmt ap) (Inr [])"
          using Cons pc by (simp add: writes_def printf_backend.simps [of "37 # fmt1"])
        then show ?thesis ..
      next
        case spec: (Cons conv fmt2)
        obtain o1 width level where o: "fst (parse_spec fmt1) = (o1, width, level)" by (metis prod_cases3)
        have "length fmt2 < length fmt" using spec Cons parse_spec_length [of fmt1] by simp
        then have IH: "\<exists>r. writes (printf_backend fmt2 ap') r" for ap' by (rule less)
        obtain r where r: "\<forall>st. printf_conv conv o1 width level ap st = bindR r (\<lambda>(cs, ap'). Inr (printf_all cs st, ap'))"
          using printf_conv_emits unfolding emits_def by blast
        have be: "printf_backend fmt ap st = bindR (printf_conv conv o1 width level ap st) (\<lambda>(st, ap). printf_backend fmt2 ap st)" for st
          using Cons pc spec o by (simp add: printf_backend.simps [of "37 # fmt1"])
        show ?thesis
        proof (cases r)
          case (Inl e)
          then have "writes (printf_backend fmt ap) (Inl e)" using r be by (simp add: writes_def)
          then show ?thesis ..
        next
          case (Inr q)
          obtain r2 where "writes (printf_backend fmt2 (snd q)) r2" using IH by blast
          from writes_prefix [OF this, of "fst q"] have "writes (printf_backend fmt ap) (bindR r2 (\<lambda>ds. Inr (fst q @ ds)))"
            using r be Inr by (simp add: writes_def split_beta)
          then show ?thesis by blast
        qed
      qed
    qed
  qed
qed


text \<open>The text a format string and its arguments print, wherever it goes.\<close>

definition prints :: "u8 list \<Rightarrow> va list \<Rightarrow> u8 list \<Rightarrow> bool" where
  "prints fmt ap cs \<longleftrightarrow> writes (printf_backend fmt ap) (Inr cs)"

lemma prints_or_fails: "(\<exists>cs. prints fmt ap cs) \<or> (\<exists>e. \<forall>st. printf_backend fmt ap st = Inl e)"
proof -
  obtain r where "writes (printf_backend fmt ap) r" using printf_backend_writes by blast
  then show ?thesis by (cases r) (auto simp: prints_def writes_def)
qed

lemma u32_Suc: "unat (c :: u32) + 1 < 2 ^ 32 \<Longrightarrow> unat (c + 1) = unat c + 1"
  by (simp add: unat_word_ariths)

lemma unat_m1: "unat (-1 :: u32) = 2 ^ 32 - 1"
  by (simp add: unsigned_minus_1_eq_mask mask_eq_exp_minus_1)

lemma printf_all_console:
  assumes "pf_putch st" "pf_max st = -1" "unat (pf_count st) + length cs < 2 ^ 32"
  shows "printf_all cs st = st\<lparr>pf_out := pf_out st @ cs, pf_count := pf_count st + of_nat (length cs)\<rparr>"
  using assms
proof (induction cs arbitrary: st)
  case (Cons c cs)
  have lt: "pf_count st < pf_max st" using Cons.prems unat_m1 by (simp add: word_less_nat_alt)
  have "unat (pf_count st + 1) = unat (pf_count st) + 1" using Cons.prems(3) by (intro u32_Suc) simp
  then show ?case using Cons.IH [of "printf_putch c st"] Cons.prems lt
    by (simp add: printf_putch_def Let_def add.assoc)
qed simp

definition filled :: "gmem \<Rightarrow> u32 \<Rightarrow> nat \<Rightarrow> u8 list \<Rightarrow> nat \<Rightarrow> gmem" where
  "filled m d k cs mx = (\<lambda>a. let j = unat (a - d) in if k \<le> j \<and> j < k + length cs \<and> j < mx then cs ! (j - k) else m a)"

lemma printf_all_buffer:
  assumes "\<not> pf_putch st" "unat (pf_count st) + length cs < 2 ^ 32"
  shows "printf_all cs st = st\<lparr>pf_mem := filled (pf_mem st) (pf_dest st) (unat (pf_count st)) cs (unat (pf_max st)),
    pf_count := pf_count st + of_nat (length cs)\<rparr>"
  using assms
proof (induction cs arbitrary: st)
  case Nil
  have "filled m d k [] mx = m" for m d k mx by (auto simp: filled_def fun_eq_iff Let_def)
  then show ?case by simp
next
  case (Cons c cs)
  have s: "unat (pf_count st + 1) = unat (pf_count st) + 1" using Cons.prems(2) by (intro u32_Suc) simp
  let ?m = "pf_mem (printf_putch c st)"
  have "filled ?m (pf_dest st) (unat (pf_count st) + 1) cs (unat (pf_max st)) a =
    filled (pf_mem st) (pf_dest st) (unat (pf_count st)) (c # cs) (unat (pf_max st)) a" for a
  proof (cases "unat (a - pf_dest st) = unat (pf_count st)")
    case True
    then have "a = pf_dest st + pf_count st" by (metis diff_add_cancel add.commute word_unat_eq_iff)
    then show ?thesis using True Cons.prems(1) by (simp add: filled_def Let_def printf_putch_def word_less_nat_alt)
  next
    case False
    then have "a \<noteq> pf_dest st + pf_count st" by auto
    then show ?thesis using False Cons.prems(1)
      by (auto simp: filled_def Let_def printf_putch_def nth_Cons' Suc_le_eq le_less)
  qed
  then have "filled ?m (pf_dest st) (unat (pf_count st) + 1) cs (unat (pf_max st)) =
    filled (pf_mem st) (pf_dest st) (unat (pf_count st)) (c # cs) (unat (pf_max st))" by (rule ext)
  moreover have "printf_all cs (printf_putch c st) = (printf_putch c st)\<lparr>
     pf_mem := filled ?m (pf_dest st) (unat (pf_count st) + 1) cs (unat (pf_max st)),
     pf_count := pf_count st + 1 + of_nat (length cs)\<rparr>"
    using Cons.IH [of "printf_putch c st"] Cons.prems s by (simp add: printf_putch_def Let_def)
  ultimately show ?case using Cons.prems(1) by (simp add: printf_putch_def Let_def add.assoc)
qed

theorem printf_prints:
  assumes "prints fmt ap cs" "length cs < 2 ^ 32"
  shows "printf_c fmt ap m = Inr (of_nat (length cs), cs)"
  using assms unfolding printf_c_def prints_def writes_def by (simp add: printf_all_console)

lemma filled_close:
  assumes "unat e = min (length cs) mx"
  shows "((filled m out 0 cs mx)(out + e := 0)) =
    (\<lambda>a. let j = unat (a - out); k = min (length cs) mx in if j < k then cs ! j else if j = k then 0 else m a)"
proof
  fix a
  have "a = out + e \<longleftrightarrow> unat (a - out) = unat e" by (metis add_diff_cancel_left' diff_add_cancel add.commute word_unat_eq_iff)
  then show "((filled m out 0 cs mx)(out + e := 0)) a =
    (let j = unat (a - out); k = min (length cs) mx in if j < k then cs ! j else if j = k then 0 else m a)"
    unfolding assms fun_upd_apply filled_def Let_def by auto
qed

theorem vsnprintf_truncates:
  assumes "prints fmt ap cs" "length cs < 2 ^ 32" "n \<noteq> 0"
  shows "vsnprintf out n fmt ap m = Inr (of_nat (length cs),
    \<lambda>a. let j = unat (a - out); k = min (length cs) (unat n - 1) in
         if j < k then cs ! j else if j = k then 0 else m a)"
proof -
  have n1: "unat (n - 1) = unat n - 1" "0 < unat n" using unat_minus_1 [OF assms(3)] assms(3) by (simp_all add: unat_gt_0)
  have c: "unat (of_nat (length cs) :: u32) = length cs" using assms(2) by (rule unat_of_nat_lt)
  define e where "e = (if (of_nat (length cs) :: u32) < n then of_nat (length cs) else n - 1)"
  have e: "unat e = min (length cs) (unat n - 1)" using n1 c unfolding e_def by (auto simp: word_less_nat_alt)
  have "vsnprintf out n fmt ap m = Inr (of_nat (length cs), (filled m out 0 cs (unat n - 1))(out + e := 0))"
    using assms n1 unfolding vsnprintf_def prints_def writes_def e_def by (simp add: printf_all_buffer word_gt_0)
  then show ?thesis by (simp only: filled_close [OF e])
qed

section \<open>Printed numbers read back\<close>

fun eat :: "(int \<Rightarrow> int res) \<Rightarrow> int \<Rightarrow> u8 list \<Rightarrow> int \<Rightarrow> int res" where
  "eat step base [] r = Inr r"
| "eat step base (c # cs) r = bindR (step (r * base + klib_digit_value (uint c))) (eat step base cs)"

lemma eat_append: "eat step base (as @ bs) r = bindR (eat step base as r) (eat step base bs)"
proof (induction as arbitrary: r)
  case (Cons c as)
  show ?case by (cases "step (r * base + klib_digit_value (uint c))") (simp_all add: Cons)
qed simp

definition digits_in :: "int \<Rightarrow> u8 list \<Rightarrow> bool" where
  "digits_in base cs \<longleftrightarrow> (\<forall>c \<in> set cs. 0 \<le> klib_digit_value (uint c) \<and> klib_digit_value (uint c) < base)"

declare digits_loop.simps [simp del] skip_space.simps [simp del]

lemma digits_loop_eat:
  assumes "digits_in base (drop i str)" "i \<le> length str"
  shows "digits_loop step str base i r = bindR (eat step base (drop i str) r) (\<lambda>r. Inr (r, length str))"
  using assms
proof (induction "length str - i" arbitrary: i r)
  case 0
  then show ?case by (simp add: digits_loop.simps [of step str base i r] at_c_def klib_digit_value_def ctype_defs)
next
  case (Suc k)
  then have i: "i < length str" and d: "drop i str = str ! i # drop (i + 1) str" by (auto simp: Cons_nth_drop_Suc)
  then have v: "0 \<le> klib_digit_value (uint (str ! i))" "klib_digit_value (uint (str ! i)) < base" "digits_in base (drop (i + 1) str)"
    using Suc.prems(1) by (auto simp: digits_in_def)
  have IH: "digits_loop step str base (i + 1) r = bindR (eat step base (drop (i + 1) str) r) (\<lambda>r. Inr (r, length str))" for r
    using Suc v(3) i by (intro Suc.hyps(1)) simp_all
  have "digits_loop step str base i r = bindR (step (r * base + klib_digit_value (uint (str ! i)))) (digits_loop step str base (i + 1))"
    using v(1,2) i by (simp add: digits_loop.simps [of step str base i r] at_c_def)
  also have "\<dots> = bindR (eat step base (drop i str) r) (\<lambda>r. Inr (r, length str))"
    unfolding d by (cases "step (r * base + klib_digit_value (uint (str ! i)))") (simp_all add: IH [simplified])
  finally show ?case .
qed

lemma digit_char_value:
  assumes "r < 16"
  shows "klib_digit_value (uint (digit_char upper r)) = uint r"
proof -
  have "unat r < 16" using assms by (simp add: word_less_nat_alt)
  then have "unat r = 0 \<or> unat r = 1 \<or> unat r = 2 \<or> unat r = 3 \<or> unat r = 4 \<or> unat r = 5 \<or> unat r = 6 \<or> unat r = 7 \<or>
    unat r = 8 \<or> unat r = 9 \<or> unat r = 10 \<or> unat r = 11 \<or> unat r = 12 \<or> unat r = 13 \<or> unat r = 14 \<or> unat r = 15"
    by arith
  then have "r = 0 \<or> r = 1 \<or> r = 2 \<or> r = 3 \<or> r = 4 \<or> r = 5 \<or> r = 6 \<or> r = 7 \<or>
    r = 8 \<or> r = 9 \<or> r = 10 \<or> r = 11 \<or> r = 12 \<or> r = 13 \<or> r = 14 \<or> r = 15"
    by (simp add: word_unat_eq_iff)
  then show ?thesis
    by (elim disjE) (simp_all add: digit_char_def klib_digit_value_def ctype_defs)
qed

lemma printf_digits_ok:
  assumes "2 \<le> unat base" "unat n < unat base ^ room" "0 < room"
  shows "\<exists>ds. printf_digits room n base upper = Inr ds \<and> length ds \<le> room"
  using assms(2,3)
proof (induction room arbitrary: n)
  case (Suc room)
  have b: "base \<noteq> 0" using assms(1) by auto
  show ?case
  proof (cases "n div base = 0")
    case True
    then show ?thesis using b by (simp add: Let_def)
  next
    case False
    have "unat n div unat base < unat base ^ room" using Suc.prems(1) assms(1)
      by (simp add: less_mult_imp_div_less mult.commute)
    then have lt: "unat (n div base) < unat base ^ room" by (simp add: unat_div)
    moreover have "0 < room" using lt False unat_gt_0 [of "n div base"] by (cases room) auto
    ultimately obtain ds where "printf_digits room (n div base) base upper = Inr ds" "length ds \<le> room" using Suc.IH by blast
    then show ?thesis using b False by (simp add: Let_def)
  qed
qed simp

lemma printf_digits_value:
  assumes "printf_digits room n base upper = Inr ds" "base \<le> 16" "uint n < 2 ^ (w - 1)"
  shows "eat (signed_step w) (uint base) (rev ds) 0 = Inr (uint n)" (is ?A)
    and "digits_in (uint base) ds" (is ?B) and "ds \<noteq> []" (is ?C)
proof -
  have "?A \<and> ?B \<and> ?C" using assms(1,3)
  proof (induction room arbitrary: n ds)
    case (Suc room)
    have b: "base \<noteq> 0" using Suc.prems(1) by auto
    then have "n mod base < base" by (simp add: word_mod_less_divisor word_gt_0)
    then have m16: "n mod base < 16" using assms(2) by simp
    have val: "klib_digit_value (uint (digit_char upper (n mod base))) = uint n mod uint base"
      using digit_char_value [OF m16] by (simp add: uint_mod)
    have bp: "0 < uint base" using b by (metis uint_0_eq uint_ge_0 order_le_less uint_inject)
    have rng: "0 \<le> uint n mod uint base" "uint n mod uint base < uint base" using bp by simp_all
    have st: "signed_step w (uint n) = Inr (uint n)" using Suc.prems(2) by (simp add: signed_step_def)
    show ?case
    proof (cases "n div base = 0")
      case True
      then have "uint n div uint base = 0" using uint_div [of n base] by simp
      then have "uint n mod uint base = uint n" by (metis div_mult_mod_eq mult_zero_left add_0)
      moreover have "ds = [digit_char upper (n mod base)]" using Suc.prems(1) b True by (simp add: Let_def)
      ultimately show ?thesis using val rng st by (simp add: digits_in_def)
    next
      case False
      then obtain ds' where ds': "printf_digits room (n div base) base upper = Inr ds'" "ds = digit_char upper (n mod base) # ds'"
        using Suc.prems(1) b by (auto simp: Let_def bindR_eq_Inr)
      have "uint (n div base) \<le> uint n" using zdiv_mono2 [of "uint n" 1 "uint base"] bp by (simp add: uint_div)
      then have "uint (n div base) < 2 ^ (w - 1)" using Suc.prems(2) by simp
      from Suc.IH [OF ds'(1) this] show ?thesis using val rng st ds'(2)
        by (simp add: eat_append uint_div digits_in_def)
    qed
  qed simp
  then show ?A ?B ?C by blast+
qed

lemma atoi_number:
  assumes "digits_in 10 ds" "ds \<noteq> []" "eat (signed_step 32) 10 ds 0 = Inr v"
  shows "atoi ds = Inr v" and "atoi (45 # ds) = Inr (- v)"
proof -
  obtain d es where ds: "ds = d # es" using assms(2) by (cases ds) auto
  have d: "0 \<le> klib_digit_value (uint d)" "klib_digit_value (uint d) < 10" using assms(1) ds by (auto simp: digits_in_def)
  then have nsp: "\<not> isspace (uint d)" "uint d \<noteq> 43" "uint d \<noteq> 45"
    by (auto simp: klib_digit_value_def ctype_defs split: if_splits)
  have "digits_loop (signed_step 32) ds 10 0 0 = Inr (v, length ds)"
    using digits_loop_eat [of 10 0 ds "signed_step 32" 0] assms by simp
  then show "atoi ds = Inr v"
    using nsp ds by (simp add: atoi_def klib_strtol_def strtol_w_def bad_base_def skip_space.simps [of _ 0] at_c_def
      detect_base_def)
  have "digits_loop (signed_step 32) (45 # ds) 10 1 0 = Inr (v, Suc (length ds))"
    using digits_loop_eat [of 10 1 "45 # ds" "signed_step 32" 0] assms by simp
  then show "atoi (45 # ds) = Inr (- v)"
    by (simp add: atoi_def klib_strtol_def strtol_w_def bad_base_def skip_space.simps [of _ 0] at_c_def isspace_def
      detect_base_def)
qed

lemma prints_d:
  "writes (printf_backend [37, 100] [Va_word x])
     (bindR (printf_digits 32 (if sint x < 0 then - scast x else scast x) 10 False)
       (\<lambda>ds. Inr ((if sint x < 0 then [45] else []) @ rev ds)))"
proof -
  have neg: "sint (scast x :: u64) = sint x" by (rule sint_up_scast) (simp add: is_up)
  have "writes (\<lambda>st. printf_unsigned (if sint x < 0 then - scast x else scast x) 10 0 False 32 False
      (printf_all (if sint x < 0 then [45] else []) st))
     (bindR (bindR (printf_digits 32 (if sint x < 0 then - scast x else scast x) 10 False)
       (\<lambda>ds. Inr (padded 0 False 32 (rev ds)))) (\<lambda>cs. Inr ((if sint x < 0 then [45] else []) @ cs)))"
    by (rule writes_prefix [OF printf_unsigned_writes])
  moreover have "printf_backend [37, 100] [Va_word x] st =
     printf_unsigned (if sint x < 0 then - scast x else scast x) 10 0 False 32 False
      (printf_all (if sint x < 0 then [45] else []) st)" for st
    by (simp add: printf_backend.simps parse_spec_def skip_precision_def is_dec_def printf_conv_def va_signed_def
      printf_signed_def neg Let_def bindR_assoc)
  ultimately show ?thesis by (simp add: writes_def padded_def bindR_assoc)
qed

theorem printf_atoi:
  assumes "x \<noteq> 0x80000000"
  shows "\<exists>cs. printf_c [37, 100] [Va_word x] m = Inr (of_nat (length cs), cs) \<and> atoi cs = Inr (sint x)"
proof -
  define n :: u64 where "n = (if sint x < 0 then - scast x else scast x)"
  have "sint x \<noteq> - (2 ^ 31)"
  proof
    assume "sint x = - (2 ^ 31)"
    then have "sint x = sint (0x80000000 :: u32)" by simp
    then show False using assms by (metis scast_id scast_eq)
  qed
  then have r: "\<bar>sint x\<bar> < 2 ^ 31" using sint_ge [of x] sint_lt [of x] by simp
  have "n = word_of_int \<bar>sint x\<bar>" unfolding n_def scast_eq by (simp add: wi_hom_neg [symmetric])
  then have n: "uint n = \<bar>sint x\<bar>" "\<bar>sint x\<bar> < 2 ^ 31" using r by (simp_all add: uint_word_of_int)
  obtain ds where ds: "printf_digits 32 n 10 False = Inr ds" "length ds \<le> 32"
    using printf_digits_ok [of 10 n 32 False] unat_ltE(3) [of n] by auto
  have v: "eat (signed_step 32) 10 (rev ds) 0 = Inr (uint n)" "digits_in 10 (rev ds)" "rev ds \<noteq> []"
    using printf_digits_value [OF ds(1), of 32] n by (simp_all add: digits_in_def)
  let ?cs = "(if sint x < 0 then [45] else []) @ rev ds"
  have "prints [37, 100] [Va_word x] ?cs"
    using prints_d [of x] ds(1) unfolding n_def prints_def by simp
  moreover have "length ?cs < 2 ^ 32" using ds(2) by simp
  ultimately have "printf_c [37, 100] [Va_word x] m = Inr (of_nat (length ?cs), ?cs)" by (rule printf_prints)
  moreover have "atoi ?cs = Inr (sint x)" using atoi_number [OF v(2,3,1)] n(1) by auto
  ultimately show ?thesis by blast
qed

end
