(* ===== verification/Rt_List.thy ===== *)
theory Rt_List
  imports Prelude
begin

text \<open>
  \<^verbatim>\<open>rt-thread-am/include/rtservice.h\<close>: the circular doubly linked lists every kernel object is chained on
  (\<^verbatim>\<open>rt_list_t\<close>). A node is a list head or the \<^verbatim>\<open>tlist\<close> field of an element. The pointer
  operations are shown to implement a family of finite sequences, one per head, which is the form in
  which the kernel theories keep their lists.
\<close>

section \<open>The pointer operations\<close>

datatype ('h, 't) node = Head 'h | Elem 't

record ('h, 't) rt_list =
  next_of :: "('h, 't) node \<Rightarrow> ('h, 't) node"
  prev_of :: "('h, 't) node \<Rightarrow> ('h, 't) node"

definition set_next :: "('h, 't) node \<Rightarrow> ('h, 't) node \<Rightarrow> ('h, 't) rt_list \<Rightarrow> ('h, 't) rt_list" where
  "set_next a b s = s\<lparr>next_of := (next_of s)(a := b)\<rparr>"

definition set_prev :: "('h, 't) node \<Rightarrow> ('h, 't) node \<Rightarrow> ('h, 't) rt_list \<Rightarrow> ('h, 't) rt_list" where
  "set_prev a b s = s\<lparr>prev_of := (prev_of s)(a := b)\<rparr>"

definition rt_list_init :: "('h, 't) node \<Rightarrow> ('h, 't) rt_list \<Rightarrow> ('h, 't) rt_list" where
  "rt_list_init l s = set_next l l (set_prev l l s)"

definition rt_list_insert_after :: "('h, 't) node \<Rightarrow> ('h, 't) node \<Rightarrow> ('h, 't) rt_list \<Rightarrow> ('h, 't) rt_list" where
  "rt_list_insert_after l n s =
     (let s = set_prev (next_of s l) n s;
          s = set_next n (next_of s l) s;
          s = set_next l n s
      in set_prev n l s)"

definition rt_list_insert_before :: "('h, 't) node \<Rightarrow> ('h, 't) node \<Rightarrow> ('h, 't) rt_list \<Rightarrow> ('h, 't) rt_list" where
  "rt_list_insert_before l n s =
     (let s = set_next (prev_of s l) n s;
          s = set_prev n (prev_of s l) s;
          s = set_prev l n s
      in set_next n l s)"

definition rt_list_remove :: "('h, 't) node \<Rightarrow> ('h, 't) rt_list \<Rightarrow> ('h, 't) rt_list" where
  "rt_list_remove n s =
     (let s = set_prev (next_of s n) (prev_of s n) s;
          s = set_next (prev_of s n) (next_of s n) s;
          s = set_prev n n s
      in set_next n n s)"

definition rt_list_isempty :: "('h, 't) node \<Rightarrow> ('h, 't) rt_list \<Rightarrow> bool" where
  "rt_list_isempty l s \<longleftrightarrow> next_of s l = l"

text \<open>\<^verbatim>\<open>rt_list_len\<close> follows the links until it is back at the head; \<open>None\<close> is a walk that never is.\<close>

partial_function (option) rt_list_len_from :: "('h, 't) node \<Rightarrow> ('h, 't) node \<Rightarrow> u32 \<Rightarrow> ('h, 't) rt_list \<Rightarrow> u32 option" where
  "rt_list_len_from l p len s = (if next_of s p \<noteq> l then rt_list_len_from l (next_of s p) (len + 1) s else Some len)"

definition rt_list_len :: "('h, 't) node \<Rightarrow> ('h, 't) rt_list \<Rightarrow> u32 option" where
  "rt_list_len l s = rt_list_len_from l l 0 s"

lemmas list_op_defs = set_next_def set_prev_def rt_list_init_def rt_list_insert_after_def rt_list_insert_before_def
  rt_list_remove_def Let_def

section \<open>Sequences\<close>

fun linked :: "('h, 't) rt_list \<Rightarrow> ('h, 't) node \<Rightarrow> 't list \<Rightarrow> ('h, 't) node \<Rightarrow> bool" where
  "linked s a [] b \<longleftrightarrow> next_of s a = b \<and> prev_of s b = a"
| "linked s a (x # xs) b \<longleftrightarrow> next_of s a = Elem x \<and> prev_of s (Elem x) = a \<and> linked s (Elem x) xs b"

lemma linked_append [simp]: "linked s a (xs @ y # ys) b \<longleftrightarrow> linked s a xs (Elem y) \<and> linked s (Elem y) ys b"
  by (induction xs arbitrary: a) auto

lemma linked_next: "linked s a xs b \<Longrightarrow> next_of s a = (case xs of [] \<Rightarrow> b | x # _ \<Rightarrow> Elem x)"
  by (cases xs) auto

lemma linked_prev: "linked s a xs b \<Longrightarrow> prev_of s b = (if xs = [] then a else Elem (last xs))"
  by (induction xs arbitrary: a) auto

lemma linked_cong:
  assumes "\<And>n. n \<in> insert a (Elem ` set xs) \<Longrightarrow> next_of s' n = next_of s n"
    and "\<And>n. n \<in> insert b (Elem ` set xs) \<Longrightarrow> prev_of s' n = prev_of s n"
  shows "linked s' a xs b \<longleftrightarrow> linked s a xs b"
  using assms by (induction xs arbitrary: a) auto

text \<open>
  The store \<open>s\<close> represents the family \<open>L\<close>: every head carries its sequence, no element is in two
  places, and an element in no sequence points to itself, as \<^verbatim>\<open>rt_list_init\<close> and
  \<^verbatim>\<open>rt_list_remove\<close> leave it.
\<close>

definition placed :: "('h \<Rightarrow> 't list) \<Rightarrow> 't \<Rightarrow> bool" where
  "placed L x \<longleftrightarrow> (\<exists>h. x \<in> set (L h))"

definition lists_ok :: "('h \<Rightarrow> 't list) \<Rightarrow> bool" where
  "lists_ok L \<longleftrightarrow> (\<forall>h. distinct (L h)) \<and> (\<forall>h h' x. x \<in> set (L h) \<longrightarrow> x \<in> set (L h') \<longrightarrow> h = h')"

definition represents :: "('h, 't) rt_list \<Rightarrow> ('h \<Rightarrow> 't list) \<Rightarrow> bool" where
  "represents s L \<longleftrightarrow> lists_ok L \<and> (\<forall>h. linked s (Head h) (L h) (Head h)) \<and>
     (\<forall>x. \<not> placed L x \<longrightarrow> next_of s (Elem x) = Elem x \<and> prev_of s (Elem x) = Elem x)"

text \<open>The operations on the family.\<close>

definition list_insert_after :: "'h \<Rightarrow> 't \<Rightarrow> ('h \<Rightarrow> 't list) \<Rightarrow> 'h \<Rightarrow> 't list" where
  "list_insert_after h x L = L(h := x # L h)"

definition list_insert_before :: "'h \<Rightarrow> 't \<Rightarrow> ('h \<Rightarrow> 't list) \<Rightarrow> 'h \<Rightarrow> 't list" where
  "list_insert_before h x L = L(h := L h @ [x])"

definition list_insert_before_elem :: "'t \<Rightarrow> 't \<Rightarrow> ('h \<Rightarrow> 't list) \<Rightarrow> 'h \<Rightarrow> 't list" where
  "list_insert_before_elem y x L =
     (\<lambda>h. if y \<in> set (L h) then takeWhile (\<lambda>z. z \<noteq> y) (L h) @ x # dropWhile (\<lambda>z. z \<noteq> y) (L h) else L h)"

definition list_remove :: "'t \<Rightarrow> ('h \<Rightarrow> 't list) \<Rightarrow> 'h \<Rightarrow> 't list" where
  "list_remove x L = (\<lambda>h. removeAll x (L h))"

lemmas list_fam_defs = list_insert_after_def list_insert_before_def list_insert_before_elem_def list_remove_def

lemma lists_ok_insert_after: "lists_ok L \<Longrightarrow> \<not> placed L x \<Longrightarrow> lists_ok (list_insert_after h x L)"
  by (auto simp: lists_ok_def placed_def list_fam_defs)

lemma lists_ok_insert_before: "lists_ok L \<Longrightarrow> \<not> placed L x \<Longrightarrow> lists_ok (list_insert_before h x L)"
  by (auto simp: lists_ok_def placed_def list_fam_defs)

lemma lists_ok_remove: "lists_ok L \<Longrightarrow> lists_ok (list_remove x L)"
  by (auto simp: lists_ok_def list_fam_defs distinct_removeAll)

lemma lists_ok_cong: "lists_ok L \<Longrightarrow> (\<And>h. set (L' h) = set (L h)) \<Longrightarrow> (\<And>h. distinct (L' h)) \<Longrightarrow> lists_ok L'"
  by (simp add: lists_ok_def)

lemma not_placed_remove [simp]: "\<not> placed (list_remove x L) x"
  by (auto simp: placed_def list_fam_defs)

lemma placed_remove: "placed (list_remove x L) y \<longleftrightarrow> placed L y \<and> y \<noteq> x"
  by (auto simp: placed_def list_fam_defs)

lemma placed_insert:
  "placed (list_insert_after h x L) y \<longleftrightarrow> placed L y \<or> y = x"
  "placed (list_insert_before h x L) y \<longleftrightarrow> placed L y \<or> y = x"
  by (auto simp: placed_def list_fam_defs)

lemma list_remove_id: "\<not> placed L x \<Longrightarrow> list_remove x L = L"
  by (auto simp: placed_def list_fam_defs fun_eq_iff)

section \<open>The pointer operations implement the family\<close>

text \<open>The store with \<open>x\<close> linked in between the neighbours \<open>u\<close> and \<open>v\<close>.\<close>

definition splice :: "('h, 't) node \<Rightarrow> 't \<Rightarrow> ('h, 't) node \<Rightarrow> ('h, 't) rt_list \<Rightarrow> ('h, 't) rt_list" where
  "splice u x v s = s\<lparr>next_of := (next_of s)(u := Elem x, Elem x := v), prev_of := (prev_of s)(v := Elem x, Elem x := u)\<rparr>"

definition before_gap :: "('h, 't) node \<Rightarrow> 't list \<Rightarrow> ('h, 't) node" where
  "before_gap a xs = (if xs = [] then a else Elem (last xs))"

definition after_gap :: "'t list \<Rightarrow> ('h, 't) node \<Rightarrow> ('h, 't) node" where
  "after_gap ys b = (case ys of [] \<Rightarrow> b | y # _ \<Rightarrow> Elem y)"

lemma gap_nodes:
  "before_gap (Head h) xs \<in> insert (Head h) (Elem ` set xs)"
  "after_gap ys (Head h) \<in> insert (Head h) (Elem ` set ys)"
  by (auto simp: before_gap_def after_gap_def split: list.splits)

lemma linked_gap:
  assumes "linked s a (xs @ ys) b"
  shows "next_of s (before_gap a xs) = after_gap ys b" "prev_of s (after_gap ys b) = before_gap a xs"
proof -
  have "next_of s (before_gap a xs) = after_gap ys b \<and> prev_of s (after_gap ys b) = before_gap a xs"
  proof (cases xs rule: rev_cases)
    case Nil
    then show ?thesis using assms by (cases ys) (auto simp: before_gap_def after_gap_def)
  next
    case (snoc zs z)
    then show ?thesis using assms by (cases ys) (auto simp: before_gap_def after_gap_def)
  qed
  then show "next_of s (before_gap a xs) = after_gap ys b" "prev_of s (after_gap ys b) = before_gap a xs" by blast+
qed

lemma linked_splice:
  assumes l: "linked s (Head h) (xs @ ys) (Head h)" and d: "distinct (xs @ ys)" and x: "x \<notin> set (xs @ ys)"
  shows "linked (splice (before_gap (Head h) xs) x (after_gap ys (Head h)) s) (Head h) (xs @ x # ys) (Head h)"
    (is "linked ?s _ _ _")
proof -
  have "linked ?s (Head h) xs (Elem x)"
  proof (cases xs rule: rev_cases)
    case Nil
    then show ?thesis by (auto simp: splice_def before_gap_def)
  next
    case (snoc zs z)
    have "linked ?s (Head h) zs (Elem z) \<longleftrightarrow> linked s (Head h) zs (Elem z)"
      using d x snoc by (intro linked_cong) (auto simp: splice_def before_gap_def after_gap_def split: list.splits)
    then show ?thesis using snoc l x by (auto simp: splice_def before_gap_def)
  qed
  moreover have "linked ?s (Elem x) ys (Head h)"
  proof (cases ys)
    case Nil
    then show ?thesis by (auto simp: splice_def after_gap_def)
  next
    case (Cons y zs)
    have "xs \<noteq> [] \<Longrightarrow> last xs \<notin> set zs" using d Cons by (cases xs rule: rev_cases) auto
    then have "linked ?s (Elem y) zs (Head h) \<longleftrightarrow> linked s (Elem y) zs (Head h)"
      using d x Cons by (intro linked_cong) (auto simp: splice_def before_gap_def after_gap_def split: if_splits)
    then show ?thesis using Cons l x by (auto simp: splice_def after_gap_def)
  qed
  ultimately show ?thesis by simp
qed

lemma represents_splice:
  assumes r: "represents s L" and x: "\<not> placed L x" and L: "L h = xs @ ys"
  shows "represents (splice (before_gap (Head h) xs) x (after_gap ys (Head h)) s) (L(h := xs @ x # ys))"
    (is "represents ?s ?L")
proof -
  have ok: "lists_ok L" and lk: "\<And>h. linked s (Head h) (L h) (Head h)"
    and fr: "\<And>z. \<not> placed L z \<Longrightarrow> next_of s (Elem z) = Elem z \<and> prev_of s (Elem z) = Elem z"
    using r by (auto simp: represents_def)
  have dh: "distinct (xs @ ys)" "x \<notin> set (xs @ ys)" using ok x by (auto simp: lists_ok_def placed_def simp flip: L)
  have "lists_ok (list_insert_after h x L)" using ok x by (rule lists_ok_insert_after)
  moreover have sets: "set (?L h') = set (list_insert_after h x L h')" for h' using L by (auto simp: list_insert_after_def)
  moreover have "distinct (?L h')" for h' using ok dh by (auto simp: lists_ok_def)
  ultimately have "lists_ok ?L" by (rule lists_ok_cong)
  moreover have "linked ?s (Head h') (?L h') (Head h')" for h'
  proof (cases "h' = h")
    case True
    then show ?thesis using linked_splice [of s h xs ys x] lk [of h] dh L by simp
  next
    case False
    have "linked ?s (Head h') (L h') (Head h') \<longleftrightarrow> linked s (Head h') (L h') (Head h')"
    proof (rule linked_cong)
      have dis: "set (L h) \<inter> set (L h') = {}" "x \<notin> set (L h')" using ok x False by (auto simp: lists_ok_def placed_def)
      fix n :: "('a, 'b) node"
      assume "n \<in> insert (Head h') (Elem ` set (L h'))"
      then have "n \<noteq> before_gap (Head h) xs" "n \<noteq> after_gap ys (Head h)" "n \<noteq> Elem x"
        using gap_nodes(1) [of h xs] gap_nodes(2) [of ys h] dis False L by auto
      then show "next_of ?s n = next_of s n" "prev_of ?s n = prev_of s n" by (auto simp: splice_def)
    qed
    then show ?thesis using lk False by simp
  qed
  moreover have "next_of ?s (Elem z) = Elem z \<and> prev_of ?s (Elem z) = Elem z" if z: "\<not> placed ?L z" for z
  proof -
    have "\<not> placed (list_insert_after h x L) z" using z unfolding placed_def sets .
    then have "z \<noteq> x" "\<not> placed L z" by (simp_all add: placed_insert)
    moreover have "z \<notin> set (L h)" using \<open>\<not> placed L z\<close> by (auto simp: placed_def)
    then have "Elem z \<noteq> before_gap (Head h) xs" "Elem z \<noteq> after_gap ys (Head h)"
      using gap_nodes(1) [of h xs] gap_nodes(2) [of ys h] unfolding L by auto
    ultimately show ?thesis using fr by (auto simp: splice_def)
  qed
  ultimately show ?thesis by (simp add: represents_def)
qed

lemma insert_ops_splice:
  assumes "represents s L" "\<not> placed L x" "L h = xs @ ys"
  shows "rt_list_insert_after (before_gap (Head h) xs) (Elem x) s = splice (before_gap (Head h) xs) x (after_gap ys (Head h)) s"
    and "rt_list_insert_before (after_gap ys (Head h)) (Elem x) s = splice (before_gap (Head h) xs) x (after_gap ys (Head h)) s"
proof -
  have l: "linked s (Head h) (xs @ ys) (Head h)" using assms(1,3) by (metis represents_def)
  have "x \<notin> set (L h)" using assms(2) by (auto simp: placed_def)
  then have "Elem x \<noteq> before_gap (Head h) xs" "Elem x \<noteq> after_gap ys (Head h)"
    using gap_nodes(1) [of h xs] gap_nodes(2) [of ys h] unfolding assms(3) by auto
  then show "rt_list_insert_after (before_gap (Head h) xs) (Elem x) s = splice (before_gap (Head h) xs) x (after_gap ys (Head h)) s"
    and "rt_list_insert_before (after_gap ys (Head h)) (Elem x) s = splice (before_gap (Head h) xs) x (after_gap ys (Head h)) s"
    using linked_gap [OF l] by (auto simp: list_op_defs splice_def fun_eq_iff)
qed

theorem insert_after_refines:
  assumes "represents s L" "\<not> placed L x"
  shows "represents (rt_list_insert_after (Head h) (Elem x) s) (list_insert_after h x L)"
  using represents_splice [of s L x h "[]" "L h"] insert_ops_splice(1) [of s L x h "[]" "L h"] assms
  by (simp add: list_insert_after_def before_gap_def)

theorem insert_before_refines:
  assumes "represents s L" "\<not> placed L x"
  shows "represents (rt_list_insert_before (Head h) (Elem x) s) (list_insert_before h x L)"
  using represents_splice [of s L x h "L h" "[]"] insert_ops_splice(2) [of s L x h "L h" "[]"] assms
  by (simp add: list_insert_before_def after_gap_def)

theorem insert_before_elem_refines:
  assumes "represents s L" "\<not> placed L x" "placed L y"
  shows "represents (rt_list_insert_before (Elem y) (Elem x) s) (list_insert_before_elem y x L)"
proof -
  obtain h where h: "y \<in> set (L h)" using assms(3) by (auto simp: placed_def)
  define xs ys where "xs = takeWhile (\<lambda>z. z \<noteq> y) (L h)" and "ys = dropWhile (\<lambda>z. z \<noteq> y) (L h)"
  have L: "L h = xs @ ys" by (simp add: xs_def ys_def)
  have "ys \<noteq> []" using h by (auto simp: ys_def dropWhile_eq_Nil_conv)
  moreover have "hd ys = y" using hd_dropWhile [of "\<lambda>z. z \<noteq> y" "L h"] \<open>ys \<noteq> []\<close> by (auto simp: ys_def)
  ultimately have "after_gap ys (Head h) = Elem y" by (auto simp: after_gap_def split: list.splits)
  moreover have "list_insert_before_elem y x L = L(h := xs @ x # ys)"
    using h assms(1) by (auto simp: list_insert_before_elem_def xs_def ys_def fun_eq_iff represents_def lists_ok_def)
  ultimately show ?thesis using represents_splice [OF assms(1,2) L] insert_ops_splice(2) [OF assms(1,2) L] by simp
qed

lemma rt_list_remove_eq:
  assumes "next_of s (Elem x) = v" "prev_of s (Elem x) = u" "u \<noteq> Elem x" "v \<noteq> Elem x"
  shows "rt_list_remove (Elem x) s = s\<lparr>next_of := (next_of s)(u := v, Elem x := Elem x), prev_of := (prev_of s)(v := u, Elem x := Elem x)\<rparr>"
  using assms by (auto simp: list_op_defs fun_eq_iff)

lemma linked_cut:
  assumes l: "linked s (Head h) (xs @ x # ys) (Head h)" and d: "distinct (xs @ x # ys)"
  shows "linked (s\<lparr>next_of := (next_of s)(before_gap (Head h) xs := after_gap ys (Head h), Elem x := Elem x),
      prev_of := (prev_of s)(after_gap ys (Head h) := before_gap (Head h) xs, Elem x := Elem x)\<rparr>) (Head h) (xs @ ys) (Head h)"
    (is "linked ?s _ _ _")
proof (cases xs rule: rev_cases)
  case Nil
  show ?thesis
  proof (cases ys)
    case (Cons y zs)
    have "linked ?s (Elem y) zs (Head h) \<longleftrightarrow> linked s (Elem y) zs (Head h)"
      using d Nil Cons by (intro linked_cong) (auto simp: before_gap_def after_gap_def)
    then show ?thesis using l d Nil Cons by (auto simp: before_gap_def after_gap_def)
  qed (use Nil in \<open>auto simp: before_gap_def after_gap_def\<close>)
next
  case (snoc us u)
  have 1: "linked ?s (Head h) us (Elem u) \<longleftrightarrow> linked s (Head h) us (Elem u)"
    using d snoc by (intro linked_cong) (auto simp: before_gap_def after_gap_def split: list.splits)
  show ?thesis
  proof (cases ys)
    case Nil
    then show ?thesis using l d 1 snoc by (auto simp: before_gap_def after_gap_def)
  next
    case (Cons y zs)
    have "linked ?s (Elem y) zs (Head h) \<longleftrightarrow> linked s (Elem y) zs (Head h)"
      using d snoc Cons by (intro linked_cong) (auto simp: before_gap_def after_gap_def)
    then show ?thesis using l d 1 snoc Cons by (auto simp: before_gap_def after_gap_def)
  qed
qed

theorem remove_refines:
  assumes r: "represents s L"
  shows "represents (rt_list_remove (Elem x) s) (list_remove x L)"
proof (cases "placed L x")
  case False
  then have "next_of s (Elem x) = Elem x" "prev_of s (Elem x) = Elem x" using r by (auto simp: represents_def)
  then have "rt_list_remove (Elem x) s = s" by (simp add: list_op_defs fun_upd_idem)
  then show ?thesis using r list_remove_id [OF False] by simp
next
  case True
  then obtain h xs ys where L: "L h = xs @ x # ys" by (auto simp: placed_def dest: split_list)
  have ok: "lists_ok L" and lk: "\<And>h. linked s (Head h) (L h) (Head h)"
    and fr: "\<And>z. \<not> placed L z \<Longrightarrow> next_of s (Elem z) = Elem z \<and> prev_of s (Elem z) = Elem z"
    using r by (auto simp: represents_def)
  have d: "distinct (xs @ x # ys)" using ok by (auto simp: lists_ok_def simp flip: L)
  have l: "linked s (Head h) (xs @ x # ys) (Head h)" using lk [of h] unfolding L .
  let ?u = "before_gap (Head h) xs" and ?v = "after_gap ys (Head h)"
  have n: "next_of s (Elem x) = ?v" using linked_next [of s "Elem x" ys "Head h"] l by (auto simp: after_gap_def)
  have p: "prev_of s (Elem x) = ?u" using linked_prev [of s "Head h" xs "Elem x"] l by (auto simp: before_gap_def)
  have uv: "?u \<noteq> Elem x" "?v \<noteq> Elem x" using gap_nodes(1) [of h xs] gap_nodes(2) [of ys h] d by auto
  let ?s = "s\<lparr>next_of := (next_of s)(?u := ?v, Elem x := Elem x), prev_of := (prev_of s)(?v := ?u, Elem x := Elem x)\<rparr>"
  have s': "rt_list_remove (Elem x) s = ?s" by (rule rt_list_remove_eq [OF n p uv])
  have "linked ?s (Head h') (list_remove x L h') (Head h')" for h'
  proof (cases "h' = h")
    case True
    have "list_remove x L h = xs @ ys" using d by (simp add: list_remove_def L)
    then show ?thesis using linked_cut [OF l d] True by simp
  next
    case False
    have dis: "set (L h) \<inter> set (L h') = {}" using ok False by (auto simp: lists_ok_def)
    then have "list_remove x L h' = L h'" by (auto simp: list_remove_def L)
    moreover have "linked ?s (Head h') (L h') (Head h') \<longleftrightarrow> linked s (Head h') (L h') (Head h')"
    proof (rule linked_cong)
      fix n :: "('a, 'b) node"
      assume "n \<in> insert (Head h') (Elem ` set (L h'))"
      then have "n \<noteq> ?u" "n \<noteq> ?v" "n \<noteq> Elem x"
        using gap_nodes(1) [of h xs] gap_nodes(2) [of ys h] dis False unfolding L by auto
      then show "next_of ?s n = next_of s n" "prev_of ?s n = prev_of s n" by auto
    qed
    ultimately show ?thesis using lk by simp
  qed
  moreover have "next_of ?s (Elem z) = Elem z \<and> prev_of ?s (Elem z) = Elem z" if "\<not> placed (list_remove x L) z" for z
  proof (cases "z = x")
    case False
    then have z: "\<not> placed L z" using that by (simp add: placed_remove)
    then have "z \<notin> set (L h)" by (auto simp: placed_def)
    then have "Elem z \<noteq> ?u" "Elem z \<noteq> ?v" using gap_nodes(1) [of h xs] gap_nodes(2) [of ys h] unfolding L by auto
    then show ?thesis using fr [OF z] False by simp
  qed simp
  ultimately show ?thesis using lists_ok_remove [OF ok] by (simp add: represents_def s')
qed

theorem isempty_refines: "represents s L \<Longrightarrow> rt_list_isempty (Head h) s \<longleftrightarrow> L h = []"
  by (cases "L h") (auto simp: represents_def rt_list_isempty_def dest: spec [of _ h])

lemma first_refines: "represents s L \<Longrightarrow> L h = x # xs \<Longrightarrow> next_of s (Head h) = Elem x"
  by (auto simp: represents_def dest: spec [of _ h])

text \<open>\<^verbatim>\<open>rt_list_len\<close> ends, with the length of the sequence (modulo the width of its counter).\<close>

lemma len_walk: "linked s p xs (Head h) \<Longrightarrow> rt_list_len_from (Head h) p n s = Some (n + of_nat (length xs))"
proof (induction xs arbitrary: p n)
  case (Cons x xs)
  then show ?case by (simp add: rt_list_len_from.simps [of _ p] add.assoc)
qed (simp add: rt_list_len_from.simps)

theorem len_refines: "represents s L \<Longrightarrow> rt_list_len (Head h) s = Some (of_nat (length (L h)))"
  using len_walk [of s "Head h" "L h" h 0] by (simp add: represents_def rt_list_len_def)

theorem init_represents: "represents \<lparr>next_of = id, prev_of = id\<rparr> (\<lambda>h. [])"
  by (simp add: represents_def lists_ok_def)

end
