(* ===== verification/Rt_Kernel.thy ===== *)
theory Rt_Kernel
  imports Rt_List
begin

text \<open>
  The state of the RT-Thread kernel (\<^verbatim>\<open>rt-thread-am/include/rtdef.h\<close> and the static variables of
  \<^verbatim>\<open>rt-thread-am/src\<close>), in the configuration of the \<^verbatim>\<open>abstract-machine\<close> board: one processor, 32
  priorities, no signals. Threads, timers and IPC objects are named by numbers, one name space per
  class, so that a handle always has the class its operation asserts. The linked lists are the
  sequences of \<^verbatim>\<open>Rt_List\<close>; the \<^verbatim>\<open>tlist\<close> of a thread is on at most one of them, and linking a
  node that is already linked, which would corrupt both lists, is an error value.
\<close>

section \<open>Constants\<close>

definition RT_THREAD_PRIORITY_MAX :: nat where "RT_THREAD_PRIORITY_MAX = 32"

definition RT_THREAD_INIT :: u8 where "RT_THREAD_INIT = 0"
definition RT_THREAD_CLOSE :: u8 where "RT_THREAD_CLOSE = 1"
definition RT_THREAD_READY :: u8 where "RT_THREAD_READY = 2"
definition RT_THREAD_RUNNING :: u8 where "RT_THREAD_RUNNING = 3"
definition RT_THREAD_SUSPEND_MASK :: u8 where "RT_THREAD_SUSPEND_MASK = 4"
definition RT_THREAD_SUSPEND_INTERRUPTIBLE :: u8 where "RT_THREAD_SUSPEND_INTERRUPTIBLE = 4"
definition RT_THREAD_SUSPEND :: u8 where "RT_THREAD_SUSPEND = RT_THREAD_SUSPEND_INTERRUPTIBLE"
definition RT_THREAD_SUSPEND_KILLABLE :: u8 where "RT_THREAD_SUSPEND_KILLABLE = 6"
definition RT_THREAD_SUSPEND_UNINTERRUPTIBLE :: u8 where "RT_THREAD_SUSPEND_UNINTERRUPTIBLE = 7"
definition RT_THREAD_STAT_MASK :: u8 where "RT_THREAD_STAT_MASK = 7"
definition RT_THREAD_STAT_YIELD :: u8 where "RT_THREAD_STAT_YIELD = 8"

definition RT_EOK :: int where "RT_EOK = 0"
definition RT_ERROR :: int where "RT_ERROR = 1"
definition RT_ETIMEOUT :: int where "RT_ETIMEOUT = 2"
definition RT_EFULL :: int where "RT_EFULL = 3"
definition RT_EINTR :: int where "RT_EINTR = 9"
definition RT_EINVAL :: int where "RT_EINVAL = 10"

definition RT_TIMER_FLAG_ACTIVATED :: u8 where "RT_TIMER_FLAG_ACTIVATED = 1"
definition RT_TIMER_FLAG_PERIODIC :: u8 where "RT_TIMER_FLAG_PERIODIC = 2"
definition RT_TIMER_FLAG_SOFT_TIMER :: u8 where "RT_TIMER_FLAG_SOFT_TIMER = 4"

definition RT_TICK_MAX :: u32 where "RT_TICK_MAX = 0xffffffff"

datatype suspend_flag = RT_INTERRUPTIBLE | RT_KILLABLE | RT_UNINTERRUPTIBLE
datatype ipc_flag = RT_IPC_FLAG_FIFO | RT_IPC_FLAG_PRIO

lemmas stat_defs = RT_THREAD_INIT_def RT_THREAD_CLOSE_def RT_THREAD_READY_def RT_THREAD_RUNNING_def
  RT_THREAD_SUSPEND_MASK_def RT_THREAD_SUSPEND_INTERRUPTIBLE_def RT_THREAD_SUSPEND_def RT_THREAD_SUSPEND_KILLABLE_def
  RT_THREAD_SUSPEND_UNINTERRUPTIBLE_def RT_THREAD_STAT_MASK_def RT_THREAD_STAT_YIELD_def

lemma stat_neq [simp]:
  "RT_THREAD_INIT \<noteq> RT_THREAD_CLOSE" "RT_THREAD_INIT \<noteq> RT_THREAD_READY" "RT_THREAD_INIT \<noteq> RT_THREAD_RUNNING"
  "RT_THREAD_CLOSE \<noteq> RT_THREAD_INIT" "RT_THREAD_CLOSE \<noteq> RT_THREAD_READY" "RT_THREAD_CLOSE \<noteq> RT_THREAD_RUNNING"
  "RT_THREAD_READY \<noteq> RT_THREAD_INIT" "RT_THREAD_READY \<noteq> RT_THREAD_CLOSE" "RT_THREAD_READY \<noteq> RT_THREAD_RUNNING"
  "RT_THREAD_RUNNING \<noteq> RT_THREAD_INIT" "RT_THREAD_RUNNING \<noteq> RT_THREAD_CLOSE" "RT_THREAD_RUNNING \<noteq> RT_THREAD_READY"
  by (simp_all add: stat_defs)

lemmas err_defs = RT_EOK_def RT_ERROR_def RT_ETIMEOUT_def RT_EFULL_def RT_EINTR_def RT_EINVAL_def

section \<open>Objects\<close>

type_synonym tid = nat

record rt_thread =
  th_stat :: u8
  th_error :: int
  th_current_priority :: u8
  th_init_priority :: u8
  th_number_mask :: u32
  th_pending :: "nat option"      \<comment> \<open>\<^verbatim>\<open>pending_object\<close>, when it is a mutex\<close>
  th_event_set :: u32
  th_event_info :: u8
  th_init_tick :: u32
  th_remaining_tick :: u32

datatype timer_id = Tm_thread tid | Tm_user nat

record rt_timer =
  tm_flag :: u8
  tm_init_tick :: u32
  tm_timeout_tick :: u32

text \<open>The heads of the lists a \<^verbatim>\<open>tlist\<close> is chained on: the ready table, the waiting threads of an IPC
  object (and those waiting to send to it), the threads that have ended.\<close>

datatype ipc_obj = O_sem nat | O_mutex nat | O_event nat | O_mb nat | O_mq nat | O_mp nat

datatype lhead = L_ready nat | L_suspend ipc_obj | L_sender ipc_obj | L_defunct

record rt_sem =
  sem_value :: u16
  sem_flag :: ipc_flag

record rt_mutex =
  mx_priority :: u8
  mx_ceiling_priority :: u8
  mx_hold :: u8
  mx_owner :: "tid option"
  mx_linked :: bool               \<comment> \<open>\<^verbatim>\<open>mutex->taken_list.next != &mutex->taken_list\<close>\<close>

record rt_event =
  ev_set :: u32
  ev_flag :: ipc_flag

record rt_mailbox =
  mb_msg_pool :: "u32 list"
  mb_size :: u16
  mb_entry :: u16
  mb_in_offset :: u16
  mb_out_offset :: u16
  mb_flag :: ipc_flag

text \<open>A message is named by its address; \<open>mq_next\<close> and \<open>mq_body\<close> are the messages of the pool.\<close>

record rt_messagequeue =
  mq_msg_pool :: u32
  mq_msg_size :: u16
  mq_max_msgs :: u16
  mq_entry :: u16
  mq_head :: "u32 option"
  mq_tail :: "u32 option"
  mq_free :: "u32 option"
  mq_next :: "u32 \<Rightarrow> u32 option"
  mq_body :: "u32 \<Rightarrow> u8 list"
  mq_flag :: ipc_flag

record rt_mempool =
  mp_start_address :: u32
  mp_size :: u32
  mp_block_list :: "u32 option"
  mp_block_size :: u32
  mp_block_total_count :: u32
  mp_block_free_count :: u32

text \<open>The first word of a block: the next free block, or the pool it was taken from.\<close>

datatype block_word = B_next "u32 option" | B_owner nat

record ipc_objs =
  o_event :: "nat \<Rightarrow> rt_event"
  o_mb :: "nat \<Rightarrow> rt_mailbox"
  o_mq :: "nat \<Rightarrow> rt_messagequeue"
  o_mp :: "nat \<Rightarrow> rt_mempool"
  o_block :: "u32 \<Rightarrow> block_word"

record kernel =
  k_thread :: "tid \<Rightarrow> rt_thread"
  k_list :: "lhead \<Rightarrow> tid list"
  k_linked :: "tid \<Rightarrow> bool"       \<comment> \<open>\<^verbatim>\<open>thread->tlist.next != &thread->tlist\<close>\<close>
  k_group :: u32                  \<comment> \<open>\<^verbatim>\<open>rt_thread_ready_priority_group\<close>\<close>
  k_lock :: u16                   \<comment> \<open>\<^verbatim>\<open>rt_scheduler_lock_nest\<close>, read as \<^verbatim>\<open>rt_int16_t\<close>\<close>
  k_current :: "tid option"       \<comment> \<open>\<^verbatim>\<open>rt_current_thread\<close>\<close>
  k_current_priority :: u8
  k_irq :: u8                     \<comment> \<open>\<^verbatim>\<open>rt_interrupt_nest\<close>\<close>
  k_tick :: u32
  k_timer :: "timer_id \<Rightarrow> rt_timer"
  k_timers :: "timer_id list"     \<comment> \<open>\<^verbatim>\<open>_timer_list[0]\<close>\<close>
  k_soft_timers :: "timer_id list"
  k_soft_idle :: bool             \<comment> \<open>\<^verbatim>\<open>_soft_timer_status == RT_SOFT_TIMER_IDLE\<close>\<close>
  k_sem :: "nat \<Rightarrow> rt_sem"
  k_mutex :: "nat \<Rightarrow> rt_mutex"
  k_taken :: "tid \<Rightarrow> nat list"    \<comment> \<open>\<^verbatim>\<open>taken_object_list\<close>\<close>
  k_ipc :: ipc_objs
  k_errno :: int                  \<comment> \<open>\<^verbatim>\<open>__rt_errno\<close>, of interrupts and before the first thread\<close>
  k_switch :: "(tid option \<times> tid) list"  \<comment> \<open>the context switches made, latest first\<close>

definition upd_thread :: "tid \<Rightarrow> (rt_thread \<Rightarrow> rt_thread) \<Rightarrow> kernel \<Rightarrow> kernel" where
  "upd_thread t f k = k\<lparr>k_thread := (k_thread k)(t := f (k_thread k t))\<rparr>"

definition set_stat :: "tid \<Rightarrow> u8 \<Rightarrow> kernel \<Rightarrow> kernel" where
  "set_stat t s k = upd_thread t (\<lambda>th. th\<lparr>th_stat := s\<rparr>) k"

definition set_error :: "tid \<Rightarrow> int \<Rightarrow> kernel \<Rightarrow> kernel" where
  "set_error t e k = upd_thread t (\<lambda>th. th\<lparr>th_error := e\<rparr>) k"

definition rt_set_errno :: "int \<Rightarrow> kernel \<Rightarrow> kernel" where
  "rt_set_errno e k =
     (if k_irq k \<noteq> 0 then k\<lparr>k_errno := e\<rparr>
      else case k_current k of None \<Rightarrow> k\<lparr>k_errno := e\<rparr> | Some t \<Rightarrow> set_error t e k)"

definition rt_get_errno :: "kernel \<Rightarrow> int" where
  "rt_get_errno k =
     (if k_irq k \<noteq> 0 then k_errno k
      else case k_current k of None \<Rightarrow> k_errno k | Some t \<Rightarrow> th_error (k_thread k t))"

abbreviation stat_of :: "kernel \<Rightarrow> tid \<Rightarrow> u8" where
  "stat_of k t \<equiv> th_stat (k_thread k t)"

abbreviation prio_of :: "kernel \<Rightarrow> tid \<Rightarrow> u8" where
  "prio_of k t \<equiv> th_current_priority (k_thread k t)"

text \<open>The state proper of a thread, without its flags.\<close>

definition mstat :: "kernel \<Rightarrow> tid \<Rightarrow> u8" where
  "mstat k t = stat_of k t AND RT_THREAD_STAT_MASK"

definition is_suspended :: "kernel \<Rightarrow> tid \<Rightarrow> bool" where
  "is_suspended k t \<longleftrightarrow> stat_of k t AND RT_THREAD_SUSPEND_MASK = RT_THREAD_SUSPEND_MASK"

definition yield_flag :: "kernel \<Rightarrow> tid \<Rightarrow> bool" where
  "yield_flag k t \<longleftrightarrow> stat_of k t AND RT_THREAD_STAT_YIELD \<noteq> 0"

text \<open>\<open>with_stat s old\<close>: the state \<open>s\<close> with the flags of \<open>old\<close>.\<close>

definition with_stat :: "u8 \<Rightarrow> u8 \<Rightarrow> u8" where
  "with_stat s old = s OR (old AND NOT RT_THREAD_STAT_MASK)"

section \<open>The list a thread is on\<close>

definition tlist_insert_after :: "lhead \<Rightarrow> tid \<Rightarrow> kernel \<Rightarrow> kernel res" where
  "tlist_insert_after h t k =
     (if k_linked k t then Inl (Bad_access ''tlist'')
      else Inr (k\<lparr>k_list := list_insert_after h t (k_list k), k_linked := (k_linked k)(t := True)\<rparr>))"

definition tlist_insert_before :: "lhead \<Rightarrow> tid \<Rightarrow> kernel \<Rightarrow> kernel res" where
  "tlist_insert_before h t k =
     (if k_linked k t then Inl (Bad_access ''tlist'')
      else Inr (k\<lparr>k_list := list_insert_before h t (k_list k), k_linked := (k_linked k)(t := True)\<rparr>))"

definition tlist_insert_before_elem :: "tid \<Rightarrow> tid \<Rightarrow> kernel \<Rightarrow> kernel res" where
  "tlist_insert_before_elem y t k =
     (if k_linked k t then Inl (Bad_access ''tlist'')
      else Inr (k\<lparr>k_list := list_insert_before_elem y t (k_list k), k_linked := (k_linked k)(t := True)\<rparr>))"

definition tlist_remove :: "tid \<Rightarrow> kernel \<Rightarrow> kernel" where
  "tlist_remove t k = k\<lparr>k_list := list_remove t (k_list k), k_linked := (k_linked k)(t := False)\<rparr>"

section \<open>Frame rules\<close>

lemma upd_thread_simps [simp]:
  "k_thread (upd_thread t f k) = (k_thread k)(t := f (k_thread k t))"
  "k_list (upd_thread t f k) = k_list k"
  "k_linked (upd_thread t f k) = k_linked k"
  "k_group (upd_thread t f k) = k_group k"
  "k_lock (upd_thread t f k) = k_lock k"
  "k_current (upd_thread t f k) = k_current k"
  "k_current_priority (upd_thread t f k) = k_current_priority k"
  "k_irq (upd_thread t f k) = k_irq k"
  "k_tick (upd_thread t f k) = k_tick k"
  "k_timer (upd_thread t f k) = k_timer k"
  "k_timers (upd_thread t f k) = k_timers k"
  "k_soft_timers (upd_thread t f k) = k_soft_timers k"
  "k_soft_idle (upd_thread t f k) = k_soft_idle k"
  "k_sem (upd_thread t f k) = k_sem k"
  "k_mutex (upd_thread t f k) = k_mutex k"
  "k_taken (upd_thread t f k) = k_taken k"
  "k_ipc (upd_thread t f k) = k_ipc k"
  "k_errno (upd_thread t f k) = k_errno k"
  "k_switch (upd_thread t f k) = k_switch k"
  by (simp_all add: upd_thread_def)

lemma bit_stat_masks:
  "bit RT_THREAD_STAT_MASK i \<longleftrightarrow> i < 3" "bit RT_THREAD_STAT_YIELD i \<longleftrightarrow> i = 3" "bit RT_THREAD_SUSPEND_MASK i \<longleftrightarrow> i = 2"
proof -
  have m: "RT_THREAD_STAT_MASK = mask 3" and y: "RT_THREAD_STAT_YIELD = 2 ^ 3" and s: "RT_THREAD_SUSPEND_MASK = 2 ^ 2"
    by (simp_all add: stat_defs mask_eq_exp_minus_1)
  show "bit RT_THREAD_STAT_MASK i \<longleftrightarrow> i < 3" unfolding m bit_mask_iff by auto
  show "bit RT_THREAD_STAT_YIELD i \<longleftrightarrow> i = 3" unfolding y bit_exp_iff by auto
  show "bit RT_THREAD_SUSPEND_MASK i \<longleftrightarrow> i = 2" unfolding s bit_exp_iff by auto
qed

lemmas bit_stat = bit_and_iff bit_or_iff bit_not_iff bit_stat_masks

lemma low_stat: "s AND RT_THREAD_STAT_MASK = s \<Longrightarrow> bit s i \<Longrightarrow> i < 3"
  by (metis bit_and_iff bit_stat_masks(1))

lemma with_stat_mask: "s AND RT_THREAD_STAT_MASK = s \<Longrightarrow> with_stat s old AND RT_THREAD_STAT_MASK = s"
  by (rule bit_word_eqI) (auto simp: with_stat_def bit_stat dest: low_stat)

lemma with_stat_yield: "s AND RT_THREAD_STAT_MASK = s \<Longrightarrow> with_stat s old AND RT_THREAD_STAT_YIELD = old AND RT_THREAD_STAT_YIELD"
  by (rule bit_word_eqI) (auto simp: with_stat_def bit_stat dest: low_stat)

lemma suspended_mstat: "is_suspended k t \<longleftrightarrow> bit (mstat k t) 2"
proof -
  have "w AND RT_THREAD_SUSPEND_MASK = RT_THREAD_SUSPEND_MASK \<longleftrightarrow> bit w 2" for w
    using bit_word_eqI [of "w AND RT_THREAD_SUSPEND_MASK" RT_THREAD_SUSPEND_MASK]
    by (metis bit_and_iff bit_stat_masks(3))
  then show ?thesis by (simp add: is_suspended_def mstat_def bit_stat)
qed

end
