(* ===== verification/Rt_Sched.thy ===== *)
theory Rt_Sched
  imports Rt_Kernel
begin

text \<open>
  \<^verbatim>\<open>rt-thread-am/src/scheduler_up.c\<close>, the scheduler of a single processor, with \<^verbatim>\<open>__rt_ffs\<close> of
  \<^verbatim>\<open>kservice.c\<close> and the context switch of \<^verbatim>\<open>bsp/abstract-machine/src/context.c\<close>. Its functions run
  with interrupts disabled, so each is one step. \<^verbatim>\<open>rt_schedule\<close> makes another thread current; what
  its caller does afterwards happens when the caller is current again. The stack check of
  \<^verbatim>\<open>rt_schedule\<close>, which only prints, and the hooks are left out.
\<close>

section \<open>Finding the first bit\<close>

definition lowest_bit_bitmap :: "nat list" where
  "lowest_bit_bitmap = [
     0, 0, 1, 0, 2, 0, 1, 0, 3, 0, 1, 0, 2, 0, 1, 0,
     4, 0, 1, 0, 2, 0, 1, 0, 3, 0, 1, 0, 2, 0, 1, 0,
     5, 0, 1, 0, 2, 0, 1, 0, 3, 0, 1, 0, 2, 0, 1, 0,
     4, 0, 1, 0, 2, 0, 1, 0, 3, 0, 1, 0, 2, 0, 1, 0,
     6, 0, 1, 0, 2, 0, 1, 0, 3, 0, 1, 0, 2, 0, 1, 0,
     4, 0, 1, 0, 2, 0, 1, 0, 3, 0, 1, 0, 2, 0, 1, 0,
     5, 0, 1, 0, 2, 0, 1, 0, 3, 0, 1, 0, 2, 0, 1, 0,
     4, 0, 1, 0, 2, 0, 1, 0, 3, 0, 1, 0, 2, 0, 1, 0,
     7, 0, 1, 0, 2, 0, 1, 0, 3, 0, 1, 0, 2, 0, 1, 0,
     4, 0, 1, 0, 2, 0, 1, 0, 3, 0, 1, 0, 2, 0, 1, 0,
     5, 0, 1, 0, 2, 0, 1, 0, 3, 0, 1, 0, 2, 0, 1, 0,
     4, 0, 1, 0, 2, 0, 1, 0, 3, 0, 1, 0, 2, 0, 1, 0,
     6, 0, 1, 0, 2, 0, 1, 0, 3, 0, 1, 0, 2, 0, 1, 0,
     4, 0, 1, 0, 2, 0, 1, 0, 3, 0, 1, 0, 2, 0, 1, 0,
     5, 0, 1, 0, 2, 0, 1, 0, 3, 0, 1, 0, 2, 0, 1, 0,
     4, 0, 1, 0, 2, 0, 1, 0, 3, 0, 1, 0, 2, 0, 1, 0]"

definition rt_ffs :: "u32 \<Rightarrow> nat" where
  "rt_ffs value =
     (if value = 0 then 0
      else if value AND 0xff \<noteq> 0 then lowest_bit_bitmap ! unat (value AND 0xff) + 1
      else if value AND 0xff00 \<noteq> 0 then lowest_bit_bitmap ! unat (drop_bit 8 (value AND 0xff00)) + 9
      else if value AND 0xff0000 \<noteq> 0 then lowest_bit_bitmap ! unat (drop_bit 16 (value AND 0xff0000)) + 17
      else lowest_bit_bitmap ! unat (drop_bit 24 (value AND 0xff000000)) + 25)"

section \<open>The scheduler\<close>

definition rt_hw_context_switch :: "tid \<Rightarrow> tid \<Rightarrow> kernel \<Rightarrow> kernel" where
  "rt_hw_context_switch from to k = k\<lparr>k_switch := (Some from, to) # k_switch k\<rparr>"

definition rt_hw_context_switch_to :: "tid \<Rightarrow> kernel \<Rightarrow> kernel" where
  "rt_hw_context_switch_to to k = k\<lparr>k_switch := (None, to) # k_switch k\<rparr>"

definition rt_hw_context_switch_interrupt :: "tid \<Rightarrow> tid \<Rightarrow> kernel \<Rightarrow> kernel res" where
  "rt_hw_context_switch_interrupt from to k = Inl (Assert_fail ''rt_hw_context_switch_interrupt'')"

definition get_highest_priority_thread :: "kernel \<Rightarrow> (tid \<times> u32) res" where
  "get_highest_priority_thread k =
     (let highest = of_nat (rt_ffs (k_group k)) - 1 in
      if unat highest \<ge> RT_THREAD_PRIORITY_MAX then Inl (Bad_access ''rt_thread_priority_table'')
      else case k_list k (L_ready (unat highest)) of
             [] \<Rightarrow> Inl (Bad_access ''rt_list_entry'')
           | t # _ \<Rightarrow> Inr (t, highest))"

definition rt_system_scheduler_init :: "kernel \<Rightarrow> kernel" where
  "rt_system_scheduler_init k =
     k\<lparr>k_lock := 0, k_list := (\<lambda>h. case h of L_ready p \<Rightarrow> if p < RT_THREAD_PRIORITY_MAX then [] else k_list k h | _ \<Rightarrow> k_list k h),
       k_group := 0\<rparr>"

definition rt_schedule_insert_thread :: "tid \<Rightarrow> kernel \<Rightarrow> kernel res" where
  "rt_schedule_insert_thread t k =
     (if k_current k = Some t then Inr (set_stat t (with_stat RT_THREAD_RUNNING (stat_of k t)) k)
      else
        let k = set_stat t (with_stat RT_THREAD_READY (stat_of k t)) k; p = unat (prio_of k t) in
        if p \<ge> RT_THREAD_PRIORITY_MAX then Inl (Bad_access ''rt_thread_priority_table'')
        else
          bindR ((if yield_flag k t then tlist_insert_before else tlist_insert_after) (L_ready p) t k) (\<lambda>k.
          Inr (k\<lparr>k_group := k_group k OR th_number_mask (k_thread k t)\<rparr>)))"

definition rt_schedule_remove_thread :: "tid \<Rightarrow> kernel \<Rightarrow> kernel res" where
  "rt_schedule_remove_thread t k =
     (let k = tlist_remove t k; p = unat (prio_of k t) in
      if p \<ge> RT_THREAD_PRIORITY_MAX then Inl (Bad_access ''rt_thread_priority_table'')
      else if k_list k (L_ready p) = [] then
        Inr (k\<lparr>k_group := k_group k AND NOT (th_number_mask (k_thread k t))\<rparr>)
      else Inr k)"

definition rt_system_scheduler_start :: "kernel \<Rightarrow> kernel res" where
  "rt_system_scheduler_start k =
     bindR (get_highest_priority_thread k) (\<lambda>(to, _).
     bindR (rt_schedule_remove_thread to (k\<lparr>k_current := Some to\<rparr>)) (\<lambda>k.
     Inr (rt_hw_context_switch_to to (set_stat to RT_THREAD_RUNNING k))))"

definition rt_schedule :: "kernel \<Rightarrow> kernel res" where
  "rt_schedule k =
     (if k_lock k \<noteq> 0 \<or> k_group k = 0 then Inr k
      else bindR (get_highest_priority_thread k) (\<lambda>(highest, hp).
        case k_current k of
          None \<Rightarrow> Inl (Bad_access ''rt_current_thread'')
        | Some cur \<Rightarrow>
            let running = (mstat k cur = RT_THREAD_RUNNING);
                stay = (running \<and> (ucast (prio_of k cur) < hp \<or> ucast (prio_of k cur) = hp \<and> \<not> yield_flag k cur));
                to = (if stay then cur else highest);
                k = (if running then set_stat cur (stat_of k cur AND NOT RT_THREAD_STAT_YIELD) k else k)
            in if to \<noteq> cur then
                 let k = k\<lparr>k_current_priority := ucast hp, k_current := Some to\<rparr> in
                 bindR (if running then rt_schedule_insert_thread cur k else Inr k) (\<lambda>k.
                 bindR (rt_schedule_remove_thread to k) (\<lambda>k.
                 let k = set_stat to (with_stat RT_THREAD_RUNNING (stat_of k to)) k in
                 if k_irq k = 0 then Inr (rt_hw_context_switch cur to k)
                 else rt_hw_context_switch_interrupt cur to k))
               else
                 bindR (rt_schedule_remove_thread cur k) (\<lambda>k.
                 Inr (set_stat cur (with_stat RT_THREAD_RUNNING (stat_of k cur)) k))))"

definition rt_enter_critical :: "kernel \<Rightarrow> kernel" where
  "rt_enter_critical k = k\<lparr>k_lock := k_lock k + 1\<rparr>"

definition rt_exit_critical :: "kernel \<Rightarrow> kernel res" where
  "rt_exit_critical k =
     (let k = k\<lparr>k_lock := k_lock k - 1\<rparr> in
      if sint (k_lock k) \<le> 0 then
        let k = k\<lparr>k_lock := 0\<rparr> in if k_current k \<noteq> None then rt_schedule k else Inr k
      else Inr k)"

definition rt_critical_level :: "kernel \<Rightarrow> u16" where
  "rt_critical_level k = k_lock k"

section \<open>The first bit\<close>

lemma bitmap_entries:
  "list_all (\<lambda>b. let i = lowest_bit_bitmap ! b in i < 8 \<and> bit b i \<and> list_all (\<lambda>j. \<not> bit b j) [0..<i]) [1..<256]"
  by code_simp

lemma bitmap_first:
  assumes "0 < b" "b < (256 :: nat)"
  shows "lowest_bit_bitmap ! b < 8" "bit b (lowest_bit_bitmap ! b)" "j < lowest_bit_bitmap ! b \<Longrightarrow> \<not> bit b j"
proof -
  have "b \<in> set [1..<256]" using assms by simp
  then have "let i = lowest_bit_bitmap ! b in i < 8 \<and> bit b i \<and> list_all (\<lambda>j. \<not> bit b j) [0..<i]"
    using bitmap_entries by (simp only: list_all_iff)
  then show "lowest_bit_bitmap ! b < 8" "bit b (lowest_bit_bitmap ! b)" "j < lowest_bit_bitmap ! b \<Longrightarrow> \<not> bit b j"
    by (auto simp: Let_def list_all_iff)
qed

text \<open>The byte at position \<open>8 * n\<close>.\<close>

lemma ffs_byte:
  fixes v :: u32 and m :: u32
  assumes m: "\<And>i. bit m i \<longleftrightarrow> 8 * n \<le> i \<and> i < 8 * n + 8" and n: "8 * n + 8 \<le> 32" and nz: "v AND m \<noteq> 0"
    and low: "\<And>i. i < 8 * n \<Longrightarrow> \<not> bit v i"
  shows "let k = lowest_bit_bitmap ! unat (drop_bit (8 * n) (v AND m)) + 8 * n in bit v k \<and> (\<forall>j<k. \<not> bit v j) \<and> k < 32"
proof -
  define b where "b = drop_bit (8 * n) (v AND m)"
  have bb: "bit b i \<longleftrightarrow> i < 8 \<and> bit v (8 * n + i)" for i
    using m n by (auto simp: b_def bit_simps)
  have ub: "bit (unat b) i \<longleftrightarrow> bit b i" for i by (simp add: bit_unsigned_iff)
  have "b \<noteq> 0"
  proof
    assume "b = 0"
    have "v AND m = 0"
    proof (rule bit_word_eqI)
      fix i assume "i < LENGTH(32)"
      show "bit (v AND m) i = bit 0 i"
      proof (cases "bit m i")
        case True
        then show ?thesis using m [of i] bb [of "i - 8 * n"] \<open>b = 0\<close> by (auto simp: bit_simps)
      qed (simp add: bit_simps)
    qed
    then show False using nz by simp
  qed
  then have b0: "0 < unat b" by (simp add: unat_gt_0)
  have "take_bit 8 b = b" by (rule bit_word_eqI) (auto simp: bit_simps bb)
  then have "unat b < 256" using unsigned_take_bit_eq [of 8 b, where 'a = nat] take_bit_nat_less_exp [of 8 "unat b"] by simp
  from bitmap_first [OF b0 this] have f: "bit b (lowest_bit_bitmap ! unat b)" "\<And>j. j < lowest_bit_bitmap ! unat b \<Longrightarrow> \<not> bit b j"
    "lowest_bit_bitmap ! unat b < 8" by (auto simp: ub)
  have "\<not> bit v j" if "j < lowest_bit_bitmap ! unat b + 8 * n" for j
  proof (cases "j < 8 * n")
    case False
    then have "\<not> bit b (j - 8 * n)" using f(2) that by auto
    then show ?thesis using False that f(3) bb [of "j - 8 * n"] by auto
  qed (use low in blast)
  moreover have "bit v (lowest_bit_bitmap ! unat b + 8 * n)" using f(1) bb by (auto simp: add.commute)
  ultimately show ?thesis using f(3) n by (auto simp: Let_def b_def)
qed

lemma byte_masks:
  "bit (0xff :: u32) i \<longleftrightarrow> 8 * 0 \<le> i \<and> i < 8 * 0 + 8"
  "bit (0xff00 :: u32) i \<longleftrightarrow> 8 * 1 \<le> i \<and> i < 8 * 1 + 8"
  "bit (0xff0000 :: u32) i \<longleftrightarrow> 8 * 2 \<le> i \<and> i < 8 * 2 + 8"
  "bit (0xff000000 :: u32) i \<longleftrightarrow> 8 * 3 \<le> i \<and> i < 8 * 3 + 8"
proof -
  have e: "(0xff :: u32) = push_bit (8 * 0) (mask 8)" "(0xff00 :: u32) = push_bit (8 * 1) (mask 8)"
    "(0xff0000 :: u32) = push_bit (8 * 2) (mask 8)" "(0xff000000 :: u32) = push_bit (8 * 3) (mask 8)"
    by (simp_all add: mask_eq_exp_minus_1 push_bit_eq_mult)
  have b: "bit (push_bit (8 * n) (mask 8) :: u32) i \<longleftrightarrow> 8 * n \<le> i \<and> i < 8 * n + 8" if "8 * n + 8 \<le> 32" for n
    using that by (auto simp: bit_push_bit_iff bit_mask_iff)
  show "bit (0xff :: u32) i \<longleftrightarrow> 8 * 0 \<le> i \<and> i < 8 * 0 + 8" unfolding e by (rule b) simp
  show "bit (0xff00 :: u32) i \<longleftrightarrow> 8 * 1 \<le> i \<and> i < 8 * 1 + 8" unfolding e by (rule b) simp
  show "bit (0xff0000 :: u32) i \<longleftrightarrow> 8 * 2 \<le> i \<and> i < 8 * 2 + 8" unfolding e by (rule b) simp
  show "bit (0xff000000 :: u32) i \<longleftrightarrow> 8 * 3 \<le> i \<and> i < 8 * 3 + 8" unfolding e by (rule b) simp
qed

lemma clear_byte:
  fixes v :: u32
  assumes "v AND m = 0" "bit m i" shows "\<not> bit v i"
  using arg_cong [OF assms(1), of "\<lambda>x. bit x i"] assms(2) by (simp add: bit_and_iff)

lemma clear_bytes:
  "v AND 0xff = 0 \<Longrightarrow> i < 8 \<Longrightarrow> \<not> bit (v :: u32) i"
  "v AND 0xff00 = 0 \<Longrightarrow> 8 \<le> i \<Longrightarrow> i < 16 \<Longrightarrow> \<not> bit v i"
  "v AND 0xff0000 = 0 \<Longrightarrow> 16 \<le> i \<Longrightarrow> i < 24 \<Longrightarrow> \<not> bit v i"
  "v AND 0xff000000 = 0 \<Longrightarrow> 24 \<le> i \<Longrightarrow> i < 32 \<Longrightarrow> \<not> bit v i"
  by (erule clear_byte, unfold byte_masks, simp)+

theorem rt_ffs_first:
  assumes "v \<noteq> 0"
  shows "0 < rt_ffs v \<and> rt_ffs v \<le> 32 \<and> bit v (rt_ffs v - 1) \<and> (\<forall>j < rt_ffs v - 1. \<not> bit v j)"
proof -
  consider "v AND 0xff \<noteq> 0" | "v AND 0xff = 0" "v AND 0xff00 \<noteq> 0" | "v AND 0xff = 0" "v AND 0xff00 = 0" "v AND 0xff0000 \<noteq> 0"
    | "v AND 0xff = 0" "v AND 0xff00 = 0" "v AND 0xff0000 = 0" by blast
  then show ?thesis
  proof cases
    case 1
    then show ?thesis using ffs_byte [OF byte_masks(1), of v] assms by (auto simp: rt_ffs_def Let_def add.commute)
  next
    case 2
    then have "\<not> bit v i" if "i < 8 * 1" for i using that clear_bytes(1) by simp
    then show ?thesis using 2 ffs_byte [OF byte_masks(2), of v] assms by (auto simp: rt_ffs_def Let_def add.commute)
  next
    case 3
    then have "\<not> bit v i" if "i < 8 * 2" for i using that clear_bytes(1,2) [of v i] by linarith
    then show ?thesis using 3 ffs_byte [OF byte_masks(3), of v] assms by (auto simp: rt_ffs_def Let_def add.commute)
  next
    case 4
    have low: "\<not> bit v i" if "i < 8 * 3" for i using 4 that clear_bytes(1,2,3) [of v i] by linarith
    have "v AND 0xff000000 \<noteq> 0"
    proof
      assume z: "v AND 0xff000000 = 0"
      have "v = 0"
      proof (rule bit_word_eqI)
        fix i assume "i < LENGTH(32)"
        then show "bit v i = bit 0 i" using low [of i] clear_bytes(4) [OF z, of i] by (cases "i < 24") auto
      qed
      then show False using assms by simp
    qed
    then show ?thesis using 4 low ffs_byte [OF byte_masks(4), of v] assms by (auto simp: rt_ffs_def Let_def add.commute)
  qed
qed

section \<open>The invariant of the ready queues\<close>

definition masked :: "kernel \<Rightarrow> tid \<Rightarrow> bool" where
  "masked k t \<longleftrightarrow> th_number_mask (k_thread k t) = 2 ^ unat (prio_of k t)"

text \<open>
  \<open>sched_inv X k\<close>: the threads of \<open>X\<close> are between two lists (in the middle of an operation), every
  other thread is where its state says. In particular a ready thread is on the list of its priority,
  so none is ever lost, and a bit of the bitmap is set exactly for the lists that have a thread.
\<close>

definition bitmap_ok :: "kernel \<Rightarrow> bool" where
  "bitmap_ok k \<longleftrightarrow> (\<forall>p<32. bit (k_group k) p \<longleftrightarrow> k_list k (L_ready p) \<noteq> [])"

definition links_ok :: "tid set \<Rightarrow> kernel \<Rightarrow> bool" where
  "links_ok X k \<longleftrightarrow> lists_ok (k_list k) \<and> (\<forall>t. k_linked k t \<longleftrightarrow> placed (k_list k) t) \<and> (\<forall>t\<in>X. \<not> placed (k_list k) t)"

definition ready_ok :: "tid set \<Rightarrow> kernel \<Rightarrow> bool" where
  "ready_ok X k \<longleftrightarrow> (\<forall>p t. t \<notin> X \<longrightarrow> (t \<in> set (k_list k (L_ready p)) \<longleftrightarrow> mstat k t = RT_THREAD_READY \<and> unat (prio_of k t) = p))"

definition wait_ok :: "kernel \<Rightarrow> bool" where
  "wait_ok k \<longleftrightarrow> (\<forall>q t. t \<in> set (k_list k (L_suspend q)) \<or> t \<in> set (k_list k (L_sender q)) \<longrightarrow> bit (mstat k t) 2) \<and>
     (\<forall>t \<in> set (k_list k L_defunct). mstat k t = RT_THREAD_CLOSE)"

definition running_ok :: "tid set \<Rightarrow> kernel \<Rightarrow> bool" where
  "running_ok X k \<longleftrightarrow> (\<forall>t. t \<notin> X \<longrightarrow> mstat k t = RT_THREAD_RUNNING \<longrightarrow> k_current k = Some t)"

definition prio_ok :: "tid set \<Rightarrow> kernel \<Rightarrow> bool" where
  "prio_ok X k \<longleftrightarrow> (\<forall>t. unat (prio_of k t) < 32) \<and>
     (\<forall>t. t \<in> X \<or> mstat k t \<notin> {RT_THREAD_INIT, RT_THREAD_CLOSE} \<longrightarrow> masked k t)"

definition sched_inv :: "tid set \<Rightarrow> kernel \<Rightarrow> bool" where
  "sched_inv X k \<longleftrightarrow> bitmap_ok k \<and> links_ok X k \<and> ready_ok X k \<and> wait_ok k \<and> running_ok X k \<and> prio_ok X k"

lemmas sched_parts = bitmap_ok_def links_ok_def ready_ok_def wait_ok_def running_ok_def prio_ok_def

lemma sched_invD:
  assumes "sched_inv X k"
  shows "bitmap_ok k" "links_ok X k" "ready_ok X k" "wait_ok k" "running_ok X k" "prio_ok X k"
  using assms by (auto simp: sched_inv_def)

lemma ready_iff:
  "sched_inv X k \<Longrightarrow> t \<notin> X \<Longrightarrow> t \<in> set (k_list k (L_ready p)) \<longleftrightarrow> mstat k t = RT_THREAD_READY \<and> unat (prio_of k t) = p"
  by (simp add: sched_inv_def ready_ok_def)

lemma waiting_bit:
  "sched_inv X k \<Longrightarrow> t \<in> set (k_list k (L_suspend q)) \<Longrightarrow> bit (mstat k t) 2"
  "sched_inv X k \<Longrightarrow> t \<in> set (k_list k (L_sender q)) \<Longrightarrow> bit (mstat k t) 2"
  by (auto simp: sched_inv_def wait_ok_def)

lemma defunct_stat: "sched_inv X k \<Longrightarrow> t \<in> set (k_list k L_defunct) \<Longrightarrow> mstat k t = RT_THREAD_CLOSE"
  by (simp add: sched_inv_def wait_ok_def)

lemma prio_range: "sched_inv X k \<Longrightarrow> unat (prio_of k t) < 32"
  by (simp add: sched_inv_def prio_ok_def)

lemma stat_masked: "sched_inv X k \<Longrightarrow> mstat k t \<notin> {RT_THREAD_INIT, RT_THREAD_CLOSE} \<Longrightarrow> masked k t"
  by (simp add: sched_inv_def prio_ok_def)

lemma linked_iff: "sched_inv X k \<Longrightarrow> k_linked k t \<longleftrightarrow> placed (k_list k) t"
  by (simp add: sched_inv_def links_ok_def)

section \<open>Removing and inserting a thread\<close>

definition drop_thread :: "tid \<Rightarrow> kernel \<Rightarrow> kernel" where
  "drop_thread t k = k\<lparr>k_list := list_remove t (k_list k), k_linked := (k_linked k)(t := False),
     k_group := (if list_remove t (k_list k) (L_ready (unat (prio_of k t))) = []
       then k_group k AND NOT (th_number_mask (k_thread k t)) else k_group k)\<rparr>"

lemma remove_thread_eq:
  assumes "unat (prio_of k t) < 32"
  shows "rt_schedule_remove_thread t k = Inr (drop_thread t k)"
  using assms by (simp add: rt_schedule_remove_thread_def drop_thread_def tlist_remove_def RT_THREAD_PRIORITY_MAX_def Let_def)

lemma drop_thread_simps [simp]:
  "k_thread (drop_thread t k) = k_thread k" "k_current (drop_thread t k) = k_current k" "k_lock (drop_thread t k) = k_lock k"
  "k_irq (drop_thread t k) = k_irq k" "mstat (drop_thread t k) = mstat k" "is_suspended (drop_thread t k) = is_suspended k"
  "masked (drop_thread t k) = masked k" "yield_flag (drop_thread t k) = yield_flag k" "k_timer (drop_thread t k) = k_timer k"
  "k_list (drop_thread t k) = list_remove t (k_list k)" "k_linked (drop_thread t k) = (k_linked k)(t := False)"
  by (simp_all add: drop_thread_def mstat_def is_suspended_def masked_def yield_flag_def fun_eq_iff)

lemma drop_thread_inv:
  assumes inv: "sched_inv X k" and X: "X \<subseteq> {t}" and m: "masked k t"
  shows "sched_inv {t} (drop_thread t k)"
proof -
  note D = sched_invD [OF inv]
  have here: "p = unat (prio_of k t)" if "t \<in> set (k_list k (L_ready p))" for p
    using that D(2,3) X by (cases "t \<in> X") (auto simp: links_ok_def ready_ok_def placed_def)
  have "bitmap_ok (drop_thread t k)"
    unfolding bitmap_ok_def
  proof (intro allI impI)
    fix p :: nat assume p: "p < 32"
    have old: "bit (k_group k) p \<longleftrightarrow> k_list k (L_ready p) \<noteq> []" using D(1) p by (simp add: bitmap_ok_def)
    show "bit (k_group (drop_thread t k)) p \<longleftrightarrow> k_list (drop_thread t k) (L_ready p) \<noteq> []"
    proof (cases "p = unat (prio_of k t)")
      case True
      then show ?thesis using old m p by (auto simp: drop_thread_def masked_def bit_simps list_remove_def)
    next
      case False
      then have "list_remove t (k_list k) (L_ready p) = k_list k (L_ready p)"
        using here [of p] by (cases "t \<in> set (k_list k (L_ready p))") (auto simp: list_remove_def)
      then show ?thesis using old False m p by (auto simp: drop_thread_def masked_def bit_simps)
    qed
  qed
  moreover have "links_ok {t} (drop_thread t k)"
    using D(2) by (auto simp: links_ok_def lists_ok_remove placed_remove)
  moreover have "ready_ok {t} (drop_thread t k)" using D(3) X by (auto simp: ready_ok_def list_remove_def)
  moreover have "wait_ok (drop_thread t k)" using D(4) by (auto simp: wait_ok_def list_remove_def)
  moreover have "running_ok {t} (drop_thread t k)" using D(5) X by (auto simp: running_ok_def)
  moreover have "prio_ok {t} (drop_thread t k)" using D(6) X m by (auto simp: prio_ok_def)
  ultimately show ?thesis by (simp add: sched_inv_def)
qed

lemma set_stat_simps [simp]:
  "k_list (set_stat t s k) = k_list k" "k_linked (set_stat t s k) = k_linked k" "k_group (set_stat t s k) = k_group k"
  "k_current (set_stat t s k) = k_current k" "k_lock (set_stat t s k) = k_lock k" "k_irq (set_stat t s k) = k_irq k"
  "mstat (set_stat t s k) u = (if u = t then s AND RT_THREAD_STAT_MASK else mstat k u)"
  "prio_of (set_stat t s k) u = prio_of k u"
  "stat_of (set_stat t s k) u = (if u = t then s else stat_of k u)"
  "th_number_mask (k_thread (set_stat t s k) u) = th_number_mask (k_thread k u)"
  "masked (set_stat t s k) = masked k"
  by (auto simp: set_stat_def mstat_def masked_def fun_eq_iff)

text \<open>A thread between two lists may take any state that asks for no list.\<close>

lemma park_inv:
  assumes inv: "sched_inv {t} k" and s: "s AND RT_THREAD_STAT_MASK \<noteq> RT_THREAD_READY"
    and r: "s AND RT_THREAD_STAT_MASK = RT_THREAD_RUNNING \<longrightarrow> k_current k = Some t"
  shows "sched_inv {} (set_stat t s k)"
proof -
  note D = sched_invD [OF inv]
  have np: "t \<notin> set (k_list k h)" for h using D(2) by (auto simp: links_ok_def placed_def)
  have "wait_ok (set_stat t s k)"
    using D(4) np by (auto simp: wait_ok_def)
  moreover have "ready_ok {} (set_stat t s k)" using D(3) np s by (auto simp: ready_ok_def)
  ultimately show ?thesis using D r
    by (auto simp: sched_inv_def bitmap_ok_def links_ok_def running_ok_def prio_ok_def)
qed

definition enqueue :: "tid \<Rightarrow> kernel \<Rightarrow> kernel" where
  "enqueue t k = (let k' = set_stat t (with_stat RT_THREAD_READY (stat_of k t)) k in
     k'\<lparr>k_list := (if yield_flag k' t then list_insert_before else list_insert_after) (L_ready (unat (prio_of k t))) t (k_list k),
        k_linked := (k_linked k)(t := True), k_group := k_group k OR th_number_mask (k_thread k t)\<rparr>)"

lemma ready_stat: "with_stat RT_THREAD_READY s AND RT_THREAD_STAT_MASK = RT_THREAD_READY"
  and running_stat: "with_stat RT_THREAD_RUNNING s AND RT_THREAD_STAT_MASK = RT_THREAD_RUNNING"
  by (rule with_stat_mask, simp add: stat_defs)+

lemma insert_thread_eq:
  assumes "k_current k \<noteq> Some t" "unat (prio_of k t) < 32" "\<not> k_linked k t"
  shows "rt_schedule_insert_thread t k = Inr (enqueue t k)"
  using assms by (simp add: rt_schedule_insert_thread_def enqueue_def tlist_insert_after_def tlist_insert_before_def
    RT_THREAD_PRIORITY_MAX_def Let_def)

lemma enqueue_simps [simp]:
  "k_thread (enqueue t k) = (k_thread k)(t := (k_thread k t)\<lparr>th_stat := with_stat RT_THREAD_READY (stat_of k t)\<rparr>)"
  "k_current (enqueue t k) = k_current k" "k_lock (enqueue t k) = k_lock k" "k_irq (enqueue t k) = k_irq k"
  "mstat (enqueue t k) u = (if u = t then RT_THREAD_READY else mstat k u)"
  "masked (enqueue t k) = masked k" "k_timer (enqueue t k) = k_timer k"
  "k_group (enqueue t k) = k_group k OR th_number_mask (k_thread k t)"
  "k_linked (enqueue t k) = (k_linked k)(t := True)"
  by (auto simp: enqueue_def Let_def set_stat_def mstat_def masked_def fun_eq_iff ready_stat)

lemma enqueue_list_set: "set (k_list (enqueue t k) h) = (if h = L_ready (unat (prio_of k t)) then insert t (set (k_list k h)) else set (k_list k h))"
  by (auto simp: enqueue_def Let_def list_fam_defs)

lemma enqueue_inv:
  assumes inv: "sched_inv {t} k"
  shows "sched_inv {} (enqueue t k)"
proof -
  note D = sched_invD [OF inv]
  have np: "t \<notin> set (k_list k h)" for h using D(2) by (auto simp: links_ok_def placed_def)
  have m: "masked k t" and p32: "unat (prio_of k t) < 32" using D(6) by (auto simp: prio_ok_def)
  have pl: "placed (k_list (enqueue t k)) u \<longleftrightarrow> placed (k_list k) u \<or> u = t" for u
    unfolding placed_def enqueue_list_set by (metis insert_iff)
  have ok: "lists_ok (k_list k)" "\<not> placed (k_list k) t" using D(2) by (simp_all add: links_ok_def)
  have "lists_ok (k_list (enqueue t k))"
    unfolding enqueue_def Let_def using lists_ok_insert_before [OF ok] lists_ok_insert_after [OF ok] by simp
  then have "links_ok {} (enqueue t k)" using D(2) pl by (auto simp: links_ok_def)
  moreover have "bitmap_ok (enqueue t k)" unfolding bitmap_ok_def
  proof (intro allI impI)
    fix p :: nat assume "p < 32"
    moreover have "bit (th_number_mask (k_thread k t)) p \<longleftrightarrow> p = unat (prio_of k t)"
      using m p32 by (auto simp: masked_def bit_exp_iff)
    moreover have "k_list (enqueue t k) (L_ready p) \<noteq> [] \<longleftrightarrow> p = unat (prio_of k t) \<or> k_list k (L_ready p) \<noteq> []"
      by (auto simp: enqueue_def Let_def list_fam_defs)
    ultimately show "bit (k_group (enqueue t k)) p \<longleftrightarrow> k_list (enqueue t k) (L_ready p) \<noteq> []"
      using D(1) by (auto simp: bitmap_ok_def bit_or_iff)
  qed
  moreover have "ready_ok {} (enqueue t k)"
    using D(3) np by (auto simp: ready_ok_def enqueue_list_set)
  moreover have "wait_ok (enqueue t k)"
    using D(4) np by (auto simp: wait_ok_def enqueue_list_set)
  moreover have "running_ok {} (enqueue t k)" using D(5) by (auto simp: running_ok_def stat_defs)
  moreover have "prio_ok {} (enqueue t k)" using D(6) by (auto simp: prio_ok_def)
  ultimately show ?thesis by (simp add: sched_inv_def)
qed

lemma sched_inv_cong:
  assumes "k_thread k' = k_thread k" "k_list k' = k_list k" "k_linked k' = k_linked k" "k_group k' = k_group k" "k_current k' = k_current k"
  shows "sched_inv X k' = sched_inv X k"
  using assms by (simp add: sched_inv_def sched_parts mstat_def masked_def)

lemma same_stat_inv:
  assumes "sched_inv X k" "s AND RT_THREAD_STAT_MASK = mstat k t"
  shows "sched_inv X (set_stat t s k)"
proof -
  have "mstat (set_stat t s k) = mstat k" using assms(2) by (auto simp: fun_eq_iff)
  then show ?thesis using assms(1) by (simp add: sched_inv_def sched_parts)
qed

lemma clear_yield_stat: "(s AND NOT RT_THREAD_STAT_YIELD) AND RT_THREAD_STAT_MASK = s AND RT_THREAD_STAT_MASK"
  by (rule bit_word_eqI) (auto simp: bit_stat)

lemma running_free:
  assumes "sched_inv {} k" "mstat k c = RT_THREAD_RUNNING"
  shows "\<not> placed (k_list k) c"
proof
  assume "placed (k_list k) c"
  then obtain h where h: "c \<in> set (k_list k h)" by (auto simp: placed_def)
  have "\<not> bit RT_THREAD_RUNNING 2" "RT_THREAD_RUNNING \<noteq> RT_THREAD_READY" "RT_THREAD_RUNNING \<noteq> RT_THREAD_CLOSE" by (simp_all add: stat_defs)
  then show False using h assms ready_iff [OF assms(1), of c] waiting_bit [OF assms(1), of c] defunct_stat [OF assms(1), of c]
    by (cases h) auto
qed

text \<open>Another thread becomes current, with the old one ready to be put back or out of the way.\<close>

lemma leave_current_inv:
  assumes inv: "sched_inv {} k" and c: "k_current k = Some c" and "k_thread k' = k_thread k" "k_list k' = k_list k"
    "k_linked k' = k_linked k" "k_group k' = k_group k"
  shows "mstat k c = RT_THREAD_RUNNING \<Longrightarrow> sched_inv {c} k'" and "mstat k c \<noteq> RT_THREAD_RUNNING \<Longrightarrow> sched_inv {} k'"
proof -
  note D = sched_invD [OF inv]
  have ms: "mstat k' = mstat k" "masked k' = masked k" using assms(3) by (simp_all add: mstat_def masked_def fun_eq_iff)
  have same: "bitmap_ok k'" "links_ok {} k'" "ready_ok {} k'" "wait_ok k'" "prio_ok {} k'"
    using D(1-4,6) assms(3-) ms by (simp_all add: bitmap_ok_def links_ok_def ready_ok_def wait_ok_def prio_ok_def)
  have only: "mstat k u = RT_THREAD_RUNNING \<Longrightarrow> u = c" for u using D(5) c by (simp add: running_ok_def)
  show "sched_inv {c} k'" if r: "mstat k c = RT_THREAD_RUNNING"
  proof -
    have "masked k' c" using stat_masked [OF inv, of c] r ms by (simp add: stat_defs)
    moreover have "\<not> placed (k_list k') c" using running_free [OF inv r] assms(4) by simp
    moreover have "running_ok {c} k'" using only ms by (auto simp: running_ok_def)
    ultimately show ?thesis using same by (simp add: sched_inv_def links_ok_def ready_ok_def prio_ok_def)
  qed
  show "sched_inv {} k'" if "mstat k c \<noteq> RT_THREAD_RUNNING"
    using same only that ms by (auto simp: sched_inv_def running_ok_def)
qed

lemma u32_prio: "unat (ucast (w :: u8) :: u32) = unat w"
  using unat_ltE(1) [of w] by (simp add: unsigned_ucast_eq take_bit_nat_eq_self)

lemma highest_ready:
  assumes inv: "sched_inv {} k" and g: "k_group k \<noteq> 0"
  shows "\<exists>t hp. get_highest_priority_thread k = Inr (t, hp) \<and> mstat k t = RT_THREAD_READY \<and> unat (prio_of k t) = unat hp \<and>
    unat hp < 32 \<and> (\<forall>u. mstat k u = RT_THREAD_READY \<longrightarrow> unat hp \<le> unat (prio_of k u)) \<and>
    hd (k_list k (L_ready (unat hp))) = t"
proof -
  note D = sched_invD [OF inv]
  define p where "p = rt_ffs (k_group k) - 1"
  have f: "0 < rt_ffs (k_group k)" "p < 32" "bit (k_group k) p" "\<And>j. j < p \<Longrightarrow> \<not> bit (k_group k) j"
    using rt_ffs_first [OF g] by (auto simp: p_def)
  have "of_nat (rt_ffs (k_group k)) - 1 = (of_nat p :: u32)" using f(1) by (simp add: p_def of_nat_diff)
  moreover have "unat (of_nat p :: u32) = p" using f(2) by (simp add: unat_of_nat take_bit_nat_eq_self)
  moreover obtain t ts where L: "k_list k (L_ready p) = t # ts"
    using D(1) f(2,3) by (cases "k_list k (L_ready p)") (auto simp: bitmap_ok_def)
  moreover have "mstat k t = RT_THREAD_READY \<and> unat (prio_of k t) = p" using ready_iff [OF inv, of t p] L by simp
  moreover have "p \<le> unat (prio_of k u)" if "mstat k u = RT_THREAD_READY" for u
  proof -
    have "u \<in> set (k_list k (L_ready (unat (prio_of k u))))" "unat (prio_of k u) < 32"
      using D(3,6) that by (auto simp: ready_ok_def prio_ok_def)
    then have "bit (k_group k) (unat (prio_of k u))" using D(1) by (auto simp: bitmap_ok_def)
    then show ?thesis using f(4) by (meson not_le)
  qed
  ultimately show ?thesis using f(2)
    by (auto simp: get_highest_priority_thread_def RT_THREAD_PRIORITY_MAX_def Let_def)
qed

lemma no_ready:
  assumes "sched_inv {} k" "k_group k = 0"
  shows "mstat k u \<noteq> RT_THREAD_READY"
proof
  assume "mstat k u = RT_THREAD_READY"
  then have "u \<in> set (k_list k (L_ready (unat (prio_of k u))))" using ready_iff [OF assms(1)] by simp
  then show False using sched_invD(1) [OF assms(1)] assms(2) prio_range [OF assms(1), of u] by (auto simp: bitmap_ok_def)
qed

text \<open>What \<^verbatim>\<open>rt_schedule\<close> promises about the thread that is current afterwards.\<close>

definition runs_highest :: "kernel \<Rightarrow> bool" where
  "runs_highest k \<longleftrightarrow> (\<exists>t. k_current k = Some t \<and> mstat k t = RT_THREAD_RUNNING \<and>
     (\<forall>u. mstat k u = RT_THREAD_READY \<longrightarrow> prio_of k t \<le> prio_of k u))"

definition resume_current :: "tid \<Rightarrow> kernel \<Rightarrow> kernel" where
  "resume_current t k = (let k' = drop_thread t k in set_stat t (with_stat RT_THREAD_RUNNING (stat_of k' t)) k')"

lemma resume_current_simps [simp]:
  "k_current (resume_current t k) = k_current k" "k_lock (resume_current t k) = k_lock k" "k_irq (resume_current t k) = k_irq k"
  "mstat (resume_current t k) u = (if u = t then RT_THREAD_RUNNING else mstat k u)"
  "prio_of (resume_current t k) u = prio_of k u"
  "k_list (resume_current t k) = list_remove t (k_list k)"
  by (simp_all add: resume_current_def Let_def running_stat)

lemma resume_current_inv:
  assumes "sched_inv {} k" "k_current k = Some t" "mstat k t \<notin> {RT_THREAD_INIT, RT_THREAD_CLOSE}"
  shows "sched_inv {} (resume_current t k)"
proof -
  have "sched_inv {t} (drop_thread t k)" using assms by (intro drop_thread_inv stat_masked) auto
  then show ?thesis using assms(2) unfolding resume_current_def Let_def
    by (intro park_inv) (simp_all add: running_stat)
qed

definition stop_current :: "tid \<Rightarrow> tid \<Rightarrow> u32 \<Rightarrow> kernel \<Rightarrow> kernel" where
  "stop_current c t hp k =
     (let k1 = k\<lparr>k_current_priority := ucast hp, k_current := Some t\<rparr> in
      if mstat k c = RT_THREAD_RUNNING
      then enqueue c (set_stat c (stat_of k c AND NOT RT_THREAD_STAT_YIELD) k1) else k1)"

lemma stop_current_inv:
  assumes inv: "sched_inv {} k" and c: "k_current k = Some c"
  shows "sched_inv {} (stop_current c t hp k)"
proof -
  let ?k1 = "k\<lparr>k_current_priority := ucast hp, k_current := Some t\<rparr>"
  have 1: "mstat k c = RT_THREAD_RUNNING \<Longrightarrow> sched_inv {c} ?k1" "mstat k c \<noteq> RT_THREAD_RUNNING \<Longrightarrow> sched_inv {} ?k1"
    by (rule leave_current_inv [OF inv c]; simp)+
  show ?thesis
  proof (cases "mstat k c = RT_THREAD_RUNNING")
    case True
    have "sched_inv {c} (set_stat c (stat_of k c AND NOT RT_THREAD_STAT_YIELD) ?k1)"
      using 1(1) [OF True] by (rule same_stat_inv) (simp add: clear_yield_stat mstat_def)
    then show ?thesis using True by (simp add: stop_current_def Let_def enqueue_inv)
  qed (use 1 in \<open>simp add: stop_current_def Let_def\<close>)
qed

lemma stop_current_simps [simp]:
  "k_current (stop_current c t hp k) = Some t" "k_irq (stop_current c t hp k) = k_irq k" "k_lock (stop_current c t hp k) = k_lock k"
  "prio_of (stop_current c t hp k) u = prio_of k u"
  "mstat (stop_current c t hp k) u = (if u = c \<and> mstat k c = RT_THREAD_RUNNING then RT_THREAD_READY else mstat k u)"
  by (auto simp: stop_current_def Let_def set_stat_def mstat_def clear_yield_stat ready_stat)

lemma stop_current_eq:
  assumes inv: "sched_inv {} k" and c: "k_current k = Some c" and t: "t \<noteq> c" and run: "running \<longleftrightarrow> mstat k c = RT_THREAD_RUNNING"
  shows "(if running then rt_schedule_insert_thread c ((if running then set_stat c (stat_of k c AND NOT RT_THREAD_STAT_YIELD) k else k)
      \<lparr>k_current_priority := ucast hp, k_current := Some t\<rparr>)
    else Inr ((if running then set_stat c (stat_of k c AND NOT RT_THREAD_STAT_YIELD) k else k)
      \<lparr>k_current_priority := ucast hp, k_current := Some t\<rparr>)) = Inr (stop_current c t hp k)"
proof (cases running)
  case True
  then have r: "mstat k c = RT_THREAD_RUNNING" using run by simp
  let ?k = "(set_stat c (stat_of k c AND NOT RT_THREAD_STAT_YIELD) k)\<lparr>k_current_priority := ucast hp, k_current := Some t\<rparr>"
  have "?k = set_stat c (stat_of k c AND NOT RT_THREAD_STAT_YIELD) (k\<lparr>k_current_priority := ucast hp, k_current := Some t\<rparr>)"
    by (simp add: set_stat_def upd_thread_def)
  moreover have "rt_schedule_insert_thread c ?k = Inr (enqueue c ?k)"
    using prio_range [OF inv, of c] running_free [OF inv r] linked_iff [OF inv, of c] t by (intro insert_thread_eq) simp_all
  ultimately show ?thesis using True r by (simp add: stop_current_def Let_def)
next
  case False
  then show ?thesis using run by (simp add: stop_current_def Let_def)
qed

lemma rt_schedule_eq:
  assumes inv: "sched_inv {} k" and c: "k_current k = Some c" and "k_lock k = 0" "k_group k \<noteq> 0"
    and h: "get_highest_priority_thread k = Inr (t, hp)"
  shows "rt_schedule k =
    (let running = (mstat k c = RT_THREAD_RUNNING);
         stay = (running \<and> (ucast (prio_of k c) < hp \<or> ucast (prio_of k c) = hp \<and> \<not> yield_flag k c)) in
     if stay \<or> t = c then Inr (resume_current c (if running then set_stat c (stat_of k c AND NOT RT_THREAD_STAT_YIELD) k else k))
     else let k' = resume_current t (stop_current c t hp k) in
       if k_irq k = 0 then Inr (rt_hw_context_switch c t k') else rt_hw_context_switch_interrupt c t k')"
proof -
  define running where "running = (mstat k c = RT_THREAD_RUNNING)"
  define stay where "stay = (running \<and> (ucast (prio_of k c) < hp \<or> ucast (prio_of k c) = hp \<and> \<not> yield_flag k c))"
  let ?k1 = "if running then set_stat c (stat_of k c AND NOT RT_THREAD_STAT_YIELD) k else k"
  have "rt_schedule_remove_thread c ?k1 = Inr (drop_thread c ?k1)"
    using prio_range [OF inv, of c] by (intro remove_thread_eq) simp
  moreover have "rt_schedule_remove_thread t (stop_current c t hp k) = Inr (drop_thread t (stop_current c t hp k))"
    using prio_range [OF inv, of t] by (intro remove_thread_eq) simp
  moreover note stop_current_eq [OF inv c _ running_def, of t hp]
  ultimately show ?thesis unfolding rt_schedule_def
    using assms by (simp add: Let_def resume_current_def flip: running_def stay_def)
qed

lemma switch_simps [simp]:
  "sched_inv X (rt_hw_context_switch a b k) = sched_inv X k" "k_current (rt_hw_context_switch a b k) = k_current k"
  "mstat (rt_hw_context_switch a b k) = mstat k" "k_thread (rt_hw_context_switch a b k) = k_thread k"
  "k_list (rt_hw_context_switch a b k) = k_list k" "k_lock (rt_hw_context_switch a b k) = k_lock k"
  "k_irq (rt_hw_context_switch a b k) = k_irq k" "runs_highest (rt_hw_context_switch a b k) = runs_highest k"
  by (simp_all add: rt_hw_context_switch_def sched_inv_def sched_parts mstat_def masked_def fun_eq_iff runs_highest_def)

theorem rt_schedule_correct:
  assumes inv: "sched_inv {} k" and c: "k_current k = Some c" and irq: "k_irq k = 0"
  shows "\<exists>k'. rt_schedule k = Inr k' \<and> sched_inv {} k' \<and>
    (k_lock k \<noteq> 0 \<longrightarrow> k' = k) \<and>
    (k_lock k = 0 \<and> (mstat k c = RT_THREAD_RUNNING \<or> (\<exists>u. mstat k u = RT_THREAD_READY)) \<longrightarrow> runs_highest k')"
proof (cases "k_lock k \<noteq> 0 \<or> k_group k = 0")
  case True
  then have "rt_schedule k = Inr k" by (auto simp: rt_schedule_def)
  moreover have "runs_highest k" if "k_lock k = 0" "mstat k c = RT_THREAD_RUNNING \<or> (\<exists>u. mstat k u = RT_THREAD_READY)"
    using that True no_ready [OF inv] c by (auto simp: runs_highest_def)
  ultimately show ?thesis using inv by blast
next
  case False
  then have lk: "k_lock k = 0" and g: "k_group k \<noteq> 0" by auto
  obtain t hp where h: "get_highest_priority_thread k = Inr (t, hp)" "mstat k t = RT_THREAD_READY" "unat (prio_of k t) = unat hp"
    "\<And>u. mstat k u = RT_THREAD_READY \<Longrightarrow> unat hp \<le> unat (prio_of k u)" using highest_ready [OF inv g] by blast
  define running where "running = (mstat k c = RT_THREAD_RUNNING)"
  define stay where "stay = (running \<and> (ucast (prio_of k c) < hp \<or> ucast (prio_of k c) = hp \<and> \<not> yield_flag k c))"
  let ?k1 = "if running then set_stat c (stat_of k c AND NOT RT_THREAD_STAT_YIELD) k else k"
  have eq: "rt_schedule k = (if stay \<or> t = c then Inr (resume_current c ?k1)
     else Inr (rt_hw_context_switch c t (resume_current t (stop_current c t hp k))))"
    using rt_schedule_eq [OF inv c lk g h(1)] by (simp only: Let_def running_def stay_def irq if_True simp_thms)
  show ?thesis
  proof (cases "stay \<or> t = c")
    case True
    have m1: "mstat ?k1 = mstat k" by (auto simp: fun_eq_iff clear_yield_stat mstat_def)
    have "sched_inv {} ?k1" using inv same_stat_inv [OF inv] by (auto simp: clear_yield_stat mstat_def)
    then have "sched_inv {} (resume_current c ?k1)"
      using True h(2) c m1 by (intro resume_current_inv) (auto simp: stay_def running_def)
    moreover have "runs_highest (resume_current c ?k1)"
    proof -
      have "unat (prio_of k c) \<le> unat hp"
        using True h(3) unfolding stay_def by (auto simp: word_less_nat_alt u32_prio word_unat_eq_iff)
      then have "prio_of k c \<le> prio_of k u" if "mstat k u = RT_THREAD_READY" for u
        using h(4) [OF that] by (simp add: word_le_nat_alt)
      then show ?thesis using c m1 by (auto simp: runs_highest_def)
    qed
    ultimately show ?thesis using eq True lk by auto
  next
    case False
    have "sched_inv {} (resume_current t (stop_current c t hp k))"
      using stop_current_inv [OF inv c] h(2) False by (intro resume_current_inv) auto
    moreover have "runs_highest (resume_current t (stop_current c t hp k))"
    proof -
      have "\<not> ucast (prio_of k c) < hp" if "running" using that False by (simp add: stay_def)
      then have "running \<Longrightarrow> prio_of k t \<le> prio_of k c" using h(3) by (simp add: word_le_nat_alt word_less_nat_alt u32_prio)
      moreover have "mstat k u = RT_THREAD_READY \<Longrightarrow> prio_of k t \<le> prio_of k u" for u using h(3,4) by (simp add: word_le_nat_alt)
      ultimately show ?thesis by (auto simp: runs_highest_def running_def)
    qed
    ultimately show ?thesis using eq False lk by auto
  qed
qed

end
