(* ===== verification/Rt_Timer.thy ===== *)
theory Rt_Timer
  imports Rt_Sched
begin

text \<open>
  \<^verbatim>\<open>rt-thread-am/src/timer.c\<close>, without the calls into the thread component: the timer list, ordered by
  the tick at which a timer expires, where ticks wrap around. The skip list has one level, so the
  list of timers is one sequence.
\<close>

definition upd_timer :: "timer_id \<Rightarrow> (rt_timer \<Rightarrow> rt_timer) \<Rightarrow> kernel \<Rightarrow> kernel" where
  "upd_timer i f k = k\<lparr>k_timer := (k_timer k)(i := f (k_timer k i))\<rparr>"

definition rt_tick_get :: "kernel \<Rightarrow> u32" where "rt_tick_get k = k_tick k"

definition rt_tick_set :: "u32 \<Rightarrow> kernel \<Rightarrow> kernel" where "rt_tick_set tick k = k\<lparr>k_tick := tick\<rparr>"

definition RT_TICK_PER_SECOND :: u32 where "RT_TICK_PER_SECOND = 100"

text \<open>\<^verbatim>\<open>ms\<close> is an \<^verbatim>\<open>rt_int32_t\<close>; the products are 32-bit signed products that cannot overflow.\<close>

definition rt_tick_from_millisecond :: "u32 \<Rightarrow> u32" where
  "rt_tick_from_millisecond ms =
     (if sint ms < 0 then -1
      else RT_TICK_PER_SECOND * (ms div 1000) + (RT_TICK_PER_SECOND * (ms mod 1000) + 999) div 1000)"

definition timer_init :: "timer_id \<Rightarrow> u32 \<Rightarrow> u8 \<Rightarrow> kernel \<Rightarrow> kernel" where
  "timer_init i time flag k =
     upd_timer i (\<lambda>_. \<lparr>tm_flag = flag AND NOT RT_TIMER_FLAG_ACTIVATED, tm_init_tick = time, tm_timeout_tick = 0\<rparr>) k"

definition rt_timer_init :: "timer_id \<Rightarrow> u32 \<Rightarrow> u8 \<Rightarrow> kernel \<Rightarrow> kernel res" where
  "rt_timer_init i time flag k = assertR (time < RT_TICK_MAX div 2) ''time'' (Inr (timer_init i time flag k))"

definition timer_list_next_timeout :: "timer_id list \<Rightarrow> kernel \<Rightarrow> u32 option" where
  "timer_list_next_timeout l k = (case l of [] \<Rightarrow> None | i # _ \<Rightarrow> Some (tm_timeout_tick (k_timer k i)))"

definition rt_timer_next_timeout_tick :: "kernel \<Rightarrow> u32" where
  "rt_timer_next_timeout_tick k = (case timer_list_next_timeout (k_timers k) k of None \<Rightarrow> RT_TICK_MAX | Some t \<Rightarrow> t)"

definition timer_remove :: "timer_id \<Rightarrow> kernel \<Rightarrow> kernel" where
  "timer_remove i k = k\<lparr>k_timers := removeAll i (k_timers k), k_soft_timers := removeAll i (k_soft_timers k)\<rparr>"

definition deactivate :: "timer_id \<Rightarrow> kernel \<Rightarrow> kernel" where
  "deactivate i k = upd_timer i (\<lambda>t. t\<lparr>tm_flag := tm_flag t AND NOT RT_TIMER_FLAG_ACTIVATED\<rparr>) k"

definition rt_timer_detach :: "timer_id \<Rightarrow> kernel \<Rightarrow> int \<times> kernel" where
  "rt_timer_detach i k = (RT_EOK, deactivate i (timer_remove i k))"

text \<open>The walk of \<^verbatim>\<open>rt_timer_start\<close>: past the timers that expire no later, to the first that expires later.\<close>

fun timer_place :: "(timer_id \<Rightarrow> rt_timer) \<Rightarrow> timer_id \<Rightarrow> timer_id list \<Rightarrow> timer_id list" where
  "timer_place tm i [] = [i]"
| "timer_place tm i (t # ts) =
     (let d = tm_timeout_tick (tm t) - tm_timeout_tick (tm i) in
      if d = 0 then t # timer_place tm i ts
      else if d < RT_TICK_MAX div 2 then i # t # ts
      else t # timer_place tm i ts)"

text \<open>\<^verbatim>\<open>rt_timer_start\<close> up to the wake-up of the timer thread.\<close>

definition timer_enlist :: "timer_id \<Rightarrow> kernel \<Rightarrow> kernel" where
  "timer_enlist i k =
     (let k = deactivate i (timer_remove i k);
          k = upd_timer i (\<lambda>t. t\<lparr>tm_timeout_tick := rt_tick_get k + tm_init_tick t\<rparr>) k;
          k = (if tm_flag (k_timer k i) AND RT_TIMER_FLAG_SOFT_TIMER \<noteq> 0
               then k\<lparr>k_soft_timers := timer_place (k_timer k) i (k_soft_timers k)\<rparr>
               else k\<lparr>k_timers := timer_place (k_timer k) i (k_timers k)\<rparr>)
      in upd_timer i (\<lambda>t. t\<lparr>tm_flag := tm_flag t OR RT_TIMER_FLAG_ACTIVATED\<rparr>) k)"

definition rt_timer_stop :: "timer_id \<Rightarrow> kernel \<Rightarrow> int \<times> kernel" where
  "rt_timer_stop i k =
     (if tm_flag (k_timer k i) AND RT_TIMER_FLAG_ACTIVATED = 0 then (- RT_ERROR, k)
      else (RT_EOK, deactivate i (timer_remove i k)))"

datatype timer_cmd = TC_get_time | TC_set_time u32 | TC_set_oneshot | TC_set_periodic | TC_get_state | TC_get_remain_time

text \<open>The commands that read return their value beside the code.\<close>

definition rt_timer_control :: "timer_id \<Rightarrow> timer_cmd \<Rightarrow> kernel \<Rightarrow> (int \<times> u32 option \<times> kernel) res" where
  "rt_timer_control i cmd k =
     (case cmd of
        TC_get_time \<Rightarrow> Inr (RT_EOK, Some (tm_init_tick (k_timer k i)), k)
      | TC_set_time tick \<Rightarrow> assertR (tick < RT_TICK_MAX div 2) ''arg''
          (Inr (RT_EOK, None, upd_timer i (\<lambda>t. t\<lparr>tm_init_tick := tick\<rparr>) k))
      | TC_set_oneshot \<Rightarrow> Inr (RT_EOK, None, upd_timer i (\<lambda>t. t\<lparr>tm_flag := tm_flag t AND NOT RT_TIMER_FLAG_PERIODIC\<rparr>) k)
      | TC_set_periodic \<Rightarrow> Inr (RT_EOK, None, upd_timer i (\<lambda>t. t\<lparr>tm_flag := tm_flag t OR RT_TIMER_FLAG_PERIODIC\<rparr>) k)
      | TC_get_state \<Rightarrow> Inr (RT_EOK, Some (if tm_flag (k_timer k i) AND RT_TIMER_FLAG_ACTIVATED \<noteq> 0 then 1 else 0), k)
      | TC_get_remain_time \<Rightarrow> Inr (RT_EOK, Some (tm_timeout_tick (k_timer k i)), k))"

section \<open>The list stays in the order of expiry, across the wrap-around of the tick\<close>

text \<open>How long after the tick \<open>b\<close> a timer expires.\<close>

definition expiry :: "u32 \<Rightarrow> (timer_id \<Rightarrow> rt_timer) \<Rightarrow> timer_id \<Rightarrow> nat" where
  "expiry b tm i = unat (tm_timeout_tick (tm i) - b)"

definition half :: nat where "half = 2 ^ 31 - 1"

lemma unat_diff_u32: "unat (x - y :: u32) = (if unat y \<le> unat x then unat x - unat y else unat x + 2 ^ 32 - unat y)"
  by (simp add: unat_sub_if_size word_size)

lemma expiry_later:
  assumes "expiry b tm t < half" "expiry b tm i < half"
  defines "d \<equiv> tm_timeout_tick (tm t) - tm_timeout_tick (tm i)"
  shows "d = 0 \<longleftrightarrow> expiry b tm t = expiry b tm i"
    and "d \<noteq> 0 \<Longrightarrow> d < RT_TICK_MAX div 2 \<longleftrightarrow> expiry b tm i < expiry b tm t"
proof -
  let ?x = "tm_timeout_tick (tm t) - b" and ?y = "tm_timeout_tick (tm i) - b"
  have d: "d = ?x - ?y" by (simp add: d_def)
  have h: "unat (RT_TICK_MAX div 2) = half" by (simp add: RT_TICK_MAX_def half_def unat_div)
  show "d = 0 \<longleftrightarrow> expiry b tm t = expiry b tm i"
    unfolding d expiry_def word_unat_eq_iff [symmetric] by simp
  assume nz: "d \<noteq> 0"
  have "unat d = (if unat ?y \<le> unat ?x then unat ?x - unat ?y else unat ?x + 2 ^ 32 - unat ?y)"
    unfolding d by (rule unat_diff_u32)
  moreover have "unat ?x \<noteq> unat ?y" using nz unfolding d word_unat_eq_iff [symmetric] by simp
  ultimately show "d < RT_TICK_MAX div 2 \<longleftrightarrow> expiry b tm i < expiry b tm t"
    using assms(1,2) by (auto simp: word_less_nat_alt h expiry_def half_def)
qed

lemma timer_place_set [simp]: "set (timer_place tm i l) = insert i (set l)"
  by (induction l) (auto simp: Let_def)

theorem timer_place_sorted:
  assumes "sorted (map (expiry b tm) l)" "\<forall>t \<in> set l. expiry b tm t < half" "expiry b tm i < half"
  shows "sorted (map (expiry b tm) (timer_place tm i l))"
  using assms
proof (induction l)
  case (Cons t ts)
  have e: "tm_timeout_tick (tm t) - tm_timeout_tick (tm i) = 0 \<longleftrightarrow> expiry b tm t = expiry b tm i"
    "tm_timeout_tick (tm t) - tm_timeout_tick (tm i) \<noteq> 0 \<Longrightarrow>
      tm_timeout_tick (tm t) - tm_timeout_tick (tm i) < RT_TICK_MAX div 2 \<longleftrightarrow> expiry b tm i < expiry b tm t"
    using expiry_later [of b tm t i] Cons.prems by auto
  show ?case
  proof (cases "expiry b tm i < expiry b tm t")
    case True
    then have "timer_place tm i (t # ts) = i # t # ts" using e by (auto simp: Let_def)
    then show ?thesis using True Cons.prems by auto
  next
    case False
    then have "timer_place tm i (t # ts) = t # timer_place tm i ts" using e by (auto simp: Let_def)
    then show ?thesis using False Cons by auto
  qed
qed simp

definition timers_ordered :: "u32 \<Rightarrow> kernel \<Rightarrow> bool" where
  "timers_ordered b k \<longleftrightarrow> sorted (map (expiry b (k_timer k)) (k_timers k)) \<and>
     (\<forall>t \<in> set (k_timers k). expiry b (k_timer k) t < half) \<and> distinct (k_timers k)"

lemma timer_place_distinct: "distinct l \<Longrightarrow> i \<notin> set l \<Longrightarrow> distinct (timer_place tm i l)"
  by (induction l) (auto simp: Let_def)

lemma expiry_upd: "t \<noteq> i \<Longrightarrow> expiry b (f(i := x)) t = expiry b f t"
  by (simp add: expiry_def)

lemma map_expiry_upd: "i \<notin> set l \<Longrightarrow> map (expiry b (f(i := x))) l = map (expiry b f) l"
  by (simp add: expiry_def)

lemma sorted_removeAll: "sorted (map f l) \<Longrightarrow> sorted (map f (removeAll x l))"
  by (simp add: removeAll_filter_not_eq sorted_filter)

text \<open>Setting the flags of a timer does not move its expiry.\<close>

lemma expiry_flag: "expiry b (f(i := (f i)\<lparr>tm_flag := g\<rparr>)) = expiry b f"
  by (auto simp: expiry_def fun_eq_iff)

theorem timer_enlist_ordered:
  assumes o: "timers_ordered b k" and t: "unat (k_tick k - b) + unat (tm_init_tick (k_timer k i)) < half"
  shows "timers_ordered b (timer_enlist i k)"
proof -
  define tm where "tm = (k_timer k)(i := (k_timer k i)\<lparr>tm_flag := tm_flag (k_timer k i) AND NOT RT_TIMER_FLAG_ACTIVATED,
    tm_timeout_tick := k_tick k + tm_init_tick (k_timer k i)\<rparr>)"
  define l where "l = removeAll i (k_timers k)"
  have "expiry b tm i = unat ((k_tick k - b) + tm_init_tick (k_timer k i))" by (simp add: expiry_def tm_def algebra_simps)
  also have "\<dots> = unat (k_tick k - b) + unat (tm_init_tick (k_timer k i))"
    using t by (intro unat_add_lem [THEN iffD1]) (simp add: half_def)
  finally have new: "expiry b tm i < half" using t by simp
  have l: "i \<notin> set l" "distinct l" using o by (simp_all add: l_def timers_ordered_def distinct_removeAll)
  have eq: "map (expiry b tm) l = map (expiry b (k_timer k)) l" using l(1) unfolding tm_def by (rule map_expiry_upd)
  have "sorted (map (expiry b (k_timer k)) l)"
    using o unfolding timers_ordered_def l_def by (intro sorted_removeAll) blast
  then have srt: "sorted (map (expiry b tm) l)" by (simp only: eq)
  have lt: "\<forall>t \<in> set l. expiry b tm t < half"
    using o l(1) unfolding tm_def timers_ordered_def by (auto simp: expiry_upd l_def)
  show ?thesis
  proof (cases "tm_flag (tm i) AND RT_TIMER_FLAG_SOFT_TIMER \<noteq> 0")
    case True
    then have "k_timers (timer_enlist i k) = l" "expiry b (k_timer (timer_enlist i k)) = expiry b tm"
      by (simp_all add: timer_enlist_def Let_def upd_timer_def timer_remove_def deactivate_def l_def tm_def rt_tick_get_def expiry_def fun_eq_iff)
    then show ?thesis using srt lt l by (simp add: timers_ordered_def)
  next
    case False
    then have "k_timers (timer_enlist i k) = timer_place tm i l" "expiry b (k_timer (timer_enlist i k)) = expiry b tm"
      by (simp_all add: timer_enlist_def Let_def upd_timer_def timer_remove_def deactivate_def l_def tm_def rt_tick_get_def expiry_def fun_eq_iff)
    then show ?thesis using timer_place_sorted [OF srt lt new] lt new timer_place_distinct [OF l(2,1)]
      by (simp add: timers_ordered_def)
  qed
qed

text \<open>Milliseconds are rounded up to ticks.\<close>

theorem tick_from_millisecond:
  assumes "0 \<le> sint ms"
  shows "unat (rt_tick_from_millisecond ms) = (100 * unat ms + 999) div 1000"
proof -
  let ?n = "unat ms"
  have "sint ms < 2 ^ 31" using sint_lt [of ms] by simp
  then have "uint (word_of_int (sint ms) :: u32) = sint ms" unfolding uint_word_of_int using assms by simp
  then have "uint ms < 2 ^ 31" using \<open>sint ms < 2 ^ 31\<close> by simp
  then have "int ?n < 2 ^ 31" by (simp only: of_nat_unat)
  then have lt: "?n < 2147483648" by (simp del: of_nat_unat)
  have q: "unat (ms div 1000) = ?n div 1000" and r: "unat (ms mod 1000) = ?n mod 1000" by (simp_all add: unat_div unat_mod)
  have m: "unat (100 * (ms div 1000)) = 100 * (?n div 1000)"
    using lt q by (simp add: unat_word_ariths)
  have "?n mod 1000 < 1000" by simp
  then have "unat (100 * (ms mod 1000) + 999) = 100 * (?n mod 1000) + 999"
    using r by (simp add: unat_word_ariths)
  then have d: "unat ((100 * (ms mod 1000) + 999) div 1000) = (100 * (?n mod 1000) + 999) div 1000" by (simp add: unat_div)
  have "unat (rt_tick_from_millisecond ms) = 100 * (?n div 1000) + (100 * (?n mod 1000) + 999) div 1000"
    using assms m d lt by (simp add: rt_tick_from_millisecond_def RT_TICK_PER_SECOND_def unat_word_ariths)
  also have "\<dots> = ((100 * (?n mod 1000) + 999) + (100 * (?n div 1000)) * 1000) div 1000"
    by (subst div_mult_self1) simp_all
  also have "(100 * (?n mod 1000) + 999) + (100 * (?n div 1000)) * 1000 = 100 * (?n mod 1000 + 1000 * (?n div 1000)) + 999"
    by (simp only: algebra_simps)
  also have "?n mod 1000 + 1000 * (?n div 1000) = ?n" by (rule mod_mult_div_eq)
  finally show ?thesis .
qed

end
