(* ===== verification/Rt_Thread.thy ===== *)
theory Rt_Thread
  imports Rt_Timer
begin

text \<open>
  \<^verbatim>\<open>rt-thread-am/src/thread.c\<close>, with the operations of \<^verbatim>\<open>timer.c\<close> that wake the timer thread. A call that
  blocks is two functions: the part up to its \<^verbatim>\<open>rt_schedule\<close>, and the part (\<open>_end\<close>) that runs when its
  thread is current again. The first returns \<open>None\<close> when it has blocked.
\<close>

definition timer_thread :: tid where "timer_thread = 0"

definition suspend_stat :: "suspend_flag \<Rightarrow> u8" where
  "suspend_stat f = (case f of RT_INTERRUPTIBLE \<Rightarrow> RT_THREAD_SUSPEND_INTERRUPTIBLE
     | RT_KILLABLE \<Rightarrow> RT_THREAD_SUSPEND_KILLABLE | RT_UNINTERRUPTIBLE \<Rightarrow> RT_THREAD_SUSPEND_UNINTERRUPTIBLE)"

definition rt_thread_set_suspend_state :: "tid \<Rightarrow> suspend_flag \<Rightarrow> kernel \<Rightarrow> kernel" where
  "rt_thread_set_suspend_state t flag k = set_stat t (with_stat (suspend_stat flag) (stat_of k t)) k"

definition rt_thread_suspend_with_flag :: "tid \<Rightarrow> suspend_flag \<Rightarrow> kernel \<Rightarrow> (int \<times> kernel) res" where
  "rt_thread_suspend_with_flag t flag k =
     assertR (k_current k = Some t) ''thread == rt_thread_self()''
       (if mstat k t \<noteq> RT_THREAD_READY \<and> mstat k t \<noteq> RT_THREAD_RUNNING then Inr (- RT_ERROR, k)
        else bindR (rt_schedule_remove_thread t k) (\<lambda>k.
          let k = rt_thread_set_suspend_state t flag k; k = snd (rt_timer_stop (Tm_thread t) k) in Inr (RT_EOK, k)))"

definition rt_thread_suspend :: "tid \<Rightarrow> kernel \<Rightarrow> (int \<times> kernel) res" where
  "rt_thread_suspend t k = rt_thread_suspend_with_flag t RT_UNINTERRUPTIBLE k"

definition rt_thread_resume :: "tid \<Rightarrow> kernel \<Rightarrow> (int \<times> kernel) res" where
  "rt_thread_resume t k =
     (if \<not> is_suspended k t then Inr (- RT_ERROR, k)
      else let k = tlist_remove t k; k = snd (rt_timer_stop (Tm_thread t) k) in
        bindR (rt_schedule_insert_thread t k) (\<lambda>k. Inr (RT_EOK, k)))"

definition rt_timer_start :: "timer_id \<Rightarrow> kernel \<Rightarrow> (int \<times> kernel) res" where
  "rt_timer_start i k =
     (let k = timer_enlist i k in
      if tm_flag (k_timer k i) AND RT_TIMER_FLAG_SOFT_TIMER \<noteq> 0 \<and> k_soft_idle k \<and> is_suspended k timer_thread then
        bindR (rt_thread_resume timer_thread k) (\<lambda>(_, k). bindR (rt_schedule k) (\<lambda>k. Inr (RT_EOK, k)))
      else Inr (RT_EOK, k))"

definition thread_init :: "tid \<Rightarrow> u8 \<Rightarrow> u32 \<Rightarrow> kernel \<Rightarrow> (int \<times> kernel) res" where
  "thread_init t priority tick k =
     (if k_linked k t then Inl (Bad_access ''tlist'')
      else assertR (unat priority < RT_THREAD_PRIORITY_MAX) ''priority''
        (let k = upd_thread t (\<lambda>_. \<lparr>th_stat = RT_THREAD_INIT, th_error = RT_EOK, th_current_priority = priority,
               th_init_priority = priority, th_number_mask = 0, th_pending = None, th_event_set = 0, th_event_info = 0,
               th_init_tick = tick, th_remaining_tick = tick\<rparr>) k;
             k = k\<lparr>k_taken := (k_taken k)(t := [])\<rparr>
         in bindR (rt_timer_init (Tm_thread t) 0 0 k) (\<lambda>k. Inr (RT_EOK, k))))"

definition set_priority :: "tid \<Rightarrow> u8 \<Rightarrow> kernel \<Rightarrow> kernel" where
  "set_priority t p k = upd_thread t (\<lambda>th. th\<lparr>th_current_priority := p, th_number_mask := push_bit (unat p) 1\<rparr>) k"

definition rt_thread_startup :: "tid \<Rightarrow> kernel \<Rightarrow> (int \<times> kernel) res" where
  "rt_thread_startup t k =
     assertR (mstat k t = RT_THREAD_INIT) ''RT_THREAD_INIT''
       (let k = upd_thread t (\<lambda>th. th\<lparr>th_number_mask := push_bit (unat (th_current_priority th)) 1\<rparr>) k;
            k = set_stat t RT_THREAD_SUSPEND k
        in bindR (rt_thread_resume t k) (\<lambda>(_, k).
           bindR (if k_current k \<noteq> None then rt_schedule k else Inr k) (\<lambda>k. Inr (RT_EOK, k))))"

definition rt_thread_yield :: "kernel \<Rightarrow> (int \<times> kernel) res" where
  "rt_thread_yield k =
     (case k_current k of
        None \<Rightarrow> Inl (Bad_access ''rt_current_thread'')
      | Some t \<Rightarrow>
          let k = upd_thread t (\<lambda>th. th\<lparr>th_remaining_tick := th_init_tick th, th_stat := th_stat th OR RT_THREAD_STAT_YIELD\<rparr>) k
          in bindR (rt_schedule k) (\<lambda>k. Inr (RT_EOK, k)))"

text \<open>\<^verbatim>\<open>RT_DEBUG_SCHEDULER_AVAILABLE\<close>.\<close>

definition scheduler_available :: "kernel \<Rightarrow> bool" where
  "scheduler_available k \<longleftrightarrow> rt_critical_level k = 0 \<and> k_current k \<noteq> None \<and> k_irq k = 0"

text \<open>Arm the timer of the thread and give up the processor: the common middle of the blocking calls.\<close>

definition start_thread_timer :: "tid \<Rightarrow> u32 \<Rightarrow> kernel \<Rightarrow> kernel res" where
  "start_thread_timer t tick k =
     bindR (rt_timer_control (Tm_thread t) (TC_set_time tick) k) (\<lambda>(_, _, k).
     bindR (rt_timer_start (Tm_thread t) k) (\<lambda>(_, k). Inr k))"

definition rt_thread_sleep :: "u32 \<Rightarrow> kernel \<Rightarrow> (int option \<times> kernel) res" where
  "rt_thread_sleep tick k =
     (if tick = 0 then Inr (Some (- RT_EINVAL), k)
      else case k_current k of
        None \<Rightarrow> Inl (Assert_fail ''thread != RT_NULL'')
      | Some t \<Rightarrow>
          assertR (scheduler_available k) ''scheduler is not available''
            (bindR (rt_thread_suspend_with_flag t RT_INTERRUPTIBLE (set_error t RT_EOK k)) (\<lambda>(err, k).
             if err = RT_EOK then
               bindR (start_thread_timer t tick k) (\<lambda>k.
               bindR (rt_schedule (set_error t (- RT_EINTR) k)) (\<lambda>k. Inr (None, k)))
             else Inr (Some err, k))))"

definition rt_thread_sleep_end :: "tid \<Rightarrow> kernel \<Rightarrow> int \<times> kernel" where
  "rt_thread_sleep_end t k =
     (RT_EOK, if th_error (k_thread k t) = - RT_ETIMEOUT then set_error t RT_EOK k else k)"

definition rt_thread_delay :: "u32 \<Rightarrow> kernel \<Rightarrow> (int option \<times> kernel) res" where
  "rt_thread_delay tick k = rt_thread_sleep tick k"

definition rt_thread_mdelay :: "u32 \<Rightarrow> kernel \<Rightarrow> (int option \<times> kernel) res" where
  "rt_thread_mdelay ms k = rt_thread_sleep (rt_tick_from_millisecond ms) k"

text \<open>\<^verbatim>\<open>rt_thread_delay_until\<close>: with the new value of \<^verbatim>\<open>*tick\<close>.\<close>

definition rt_thread_delay_until :: "u32 \<Rightarrow> u32 \<Rightarrow> kernel \<Rightarrow> (int option \<times> u32 \<times> kernel) res" where
  "rt_thread_delay_until tick inc_tick k =
     (case k_current k of
        None \<Rightarrow> Inl (Assert_fail ''thread != RT_NULL'')
      | Some t \<Rightarrow>
          let k = set_error t RT_EOK k; cur_tick = rt_tick_get k in
          if cur_tick - tick < inc_tick then
            let tick = tick + inc_tick; left_tick = tick - cur_tick in
            bindR (rt_thread_suspend_with_flag t RT_UNINTERRUPTIBLE k) (\<lambda>(_, k).
            bindR (start_thread_timer t left_tick k) (\<lambda>k.
            bindR (rt_schedule k) (\<lambda>k. Inr (None, tick, k))))
          else Inr (Some (th_error (k_thread k t)), cur_tick, k))"

definition rt_thread_delay_until_end :: "tid \<Rightarrow> kernel \<Rightarrow> int \<times> kernel" where
  "rt_thread_delay_until_end t k =
     (let k = (if th_error (k_thread k t) = - RT_ETIMEOUT then set_error t RT_EOK k else k)
      in (th_error (k_thread k t), k))"

text \<open>\<^verbatim>\<open>_thread_timeout\<close>, the function of a thread's timer.\<close>

definition thread_timeout :: "tid \<Rightarrow> kernel \<Rightarrow> kernel res" where
  "thread_timeout t k =
     assertR (is_suspended k t) ''RT_THREAD_SUSPEND_MASK''
       (bindR (rt_schedule_insert_thread t (tlist_remove t (set_error t (- RT_ETIMEOUT) k))) rt_schedule)"

definition change_priority :: "tid \<Rightarrow> u8 \<Rightarrow> kernel \<Rightarrow> kernel res" where
  "change_priority t p k =
     (if mstat k t = RT_THREAD_READY then
        bindR (rt_schedule_remove_thread t k) (\<lambda>k. rt_schedule_insert_thread t (set_priority t p k))
      else Inr (set_priority t p k))"

section \<open>What the timer operations leave alone\<close>

definition same_sched :: "kernel \<Rightarrow> kernel \<Rightarrow> bool" where
  "same_sched k' k \<longleftrightarrow> k_thread k' = k_thread k \<and> k_list k' = k_list k \<and> k_linked k' = k_linked k \<and> k_group k' = k_group k \<and>
     k_current k' = k_current k \<and> k_lock k' = k_lock k \<and> k_irq k' = k_irq k \<and> k_sem k' = k_sem k \<and> k_mutex k' = k_mutex k \<and>
     k_taken k' = k_taken k \<and> k_ipc k' = k_ipc k"

lemma same_schedD:
  assumes "same_sched k' k"
  shows "k_thread k' = k_thread k" "k_list k' = k_list k" "k_linked k' = k_linked k" "k_group k' = k_group k" "k_current k' = k_current k"
    "k_lock k' = k_lock k" "k_irq k' = k_irq k" "k_sem k' = k_sem k" "mstat k' = mstat k" "sched_inv X k' = sched_inv X k"
    "is_suspended k' = is_suspended k" "masked k' = masked k" "k_mutex k' = k_mutex k" "k_taken k' = k_taken k" "k_ipc k' = k_ipc k"
  using assms sched_inv_cong [of k' k X] by (simp_all add: same_sched_def mstat_def is_suspended_def masked_def fun_eq_iff)

lemma same_sched_timers:
  "same_sched (deactivate i k) k" "same_sched (timer_remove i k) k" "same_sched (timer_enlist i k) k"
  "same_sched (upd_timer i f k) k" "same_sched (snd (rt_timer_stop i k)) k"
  by (simp_all add: same_sched_def deactivate_def timer_remove_def timer_enlist_def upd_timer_def rt_timer_stop_def Let_def)

lemmas timer_frame [simp] = same_sched_timers [THEN same_schedD(1)] same_sched_timers [THEN same_schedD(2)]
  same_sched_timers [THEN same_schedD(3)] same_sched_timers [THEN same_schedD(4)] same_sched_timers [THEN same_schedD(5)]
  same_sched_timers [THEN same_schedD(6)] same_sched_timers [THEN same_schedD(7)] same_sched_timers [THEN same_schedD(8)]
  same_sched_timers [THEN same_schedD(9)] same_sched_timers [THEN same_schedD(10)] same_sched_timers [THEN same_schedD(11)]
  same_sched_timers [THEN same_schedD(12)] same_sched_timers [THEN same_schedD(13)] same_sched_timers [THEN same_schedD(14)]
  same_sched_timers [THEN same_schedD(15)]

section \<open>The thread operations keep the invariant\<close>

lemma suspend_stat_bits: "suspend_stat f AND RT_THREAD_STAT_MASK = suspend_stat f" "bit (suspend_stat f) 2"
  "suspend_stat f \<noteq> RT_THREAD_READY" "suspend_stat f \<noteq> RT_THREAD_RUNNING" "suspend_stat f \<noteq> RT_THREAD_INIT" "suspend_stat f \<noteq> RT_THREAD_CLOSE"
  by (cases f; simp add: suspend_stat_def stat_defs)+

lemma suspend_stat_mask: "with_stat (suspend_stat f) s AND RT_THREAD_STAT_MASK = suspend_stat f"
  by (rule with_stat_mask) (rule suspend_stat_bits)

lemma sched_inv_cong_stat:
  assumes "mstat k' = mstat k" "\<And>u. prio_of k' u = prio_of k u" "masked k' = masked k" "k_list k' = k_list k"
    "k_linked k' = k_linked k" "k_group k' = k_group k" "k_current k' = k_current k"
  shows "sched_inv X k' = sched_inv X k"
  using assms by (simp add: sched_inv_def sched_parts)

text \<open>Changing anything of a thread but its state and its priority.\<close>

lemma upd_thread_inv:
  assumes "\<And>th. th_stat (f th) AND RT_THREAD_STAT_MASK = th_stat th AND RT_THREAD_STAT_MASK"
    "\<And>th. th_current_priority (f th) = th_current_priority th" "\<And>th. th_number_mask (f th) = th_number_mask th"
  shows "sched_inv X (upd_thread t f k) = sched_inv X k" and "mstat (upd_thread t f k) = mstat k"
    and "prio_of (upd_thread t f k) u = prio_of k u"
proof -
  have m: "mstat (upd_thread t f k) = mstat k" using assms(1) by (auto simp: mstat_def fun_eq_iff)
  have p: "prio_of (upd_thread t f k) u = prio_of k u" for u using assms(2) by simp
  have n: "masked (upd_thread t f k) = masked k" using assms by (auto simp: masked_def fun_eq_iff)
  show "sched_inv X (upd_thread t f k) = sched_inv X k" 
    by (rule sched_inv_cong_stat [OF m p n]) simp_all
  show "mstat (upd_thread t f k) = mstat k" "prio_of (upd_thread t f k) u = prio_of k u" by (fact m p)+
qed

lemma set_error_simps [simp]:
  "sched_inv X (set_error t e k) = sched_inv X k" "mstat (set_error t e k) = mstat k" "prio_of (set_error t e k) u = prio_of k u"
  "k_list (set_error t e k) = k_list k" "k_linked (set_error t e k) = k_linked k" "k_current (set_error t e k) = k_current k"
  "k_lock (set_error t e k) = k_lock k" "k_irq (set_error t e k) = k_irq k" "k_group (set_error t e k) = k_group k"
  "k_sem (set_error t e k) = k_sem k"
  unfolding set_error_def by (subst upd_thread_inv | simp)+

text \<open>The state in which \<^verbatim>\<open>rt_thread_suspend_with_flag\<close> leaves a running thread.\<close>

definition suspended :: "tid \<Rightarrow> suspend_flag \<Rightarrow> kernel \<Rightarrow> kernel" where
  "suspended t f k = snd (rt_timer_stop (Tm_thread t) (set_stat t (with_stat (suspend_stat f) (stat_of k t)) (drop_thread t k)))"

lemma suspended_simps [simp]:
  "mstat (suspended t f k) u = (if u = t then suspend_stat f else mstat k u)"
  "k_linked (suspended t f k) = (k_linked k)(t := False)" "k_list (suspended t f k) = list_remove t (k_list k)"
  "k_current (suspended t f k) = k_current k" "k_lock (suspended t f k) = k_lock k" "k_irq (suspended t f k) = k_irq k"
  "k_sem (suspended t f k) = k_sem k" "prio_of (suspended t f k) u = prio_of k u"
  by (simp_all add: suspended_def suspend_stat_mask set_stat_def drop_thread_def mstat_def)

lemma suspend_eq:
  assumes inv: "sched_inv {} k" and c: "k_current k = Some t" and r: "mstat k t = RT_THREAD_RUNNING"
  shows "rt_thread_suspend_with_flag t f k = Inr (RT_EOK, suspended t f k)"
  using c r remove_thread_eq [OF prio_range [OF inv, of t]]
  by (simp add: rt_thread_suspend_with_flag_def rt_thread_set_suspend_state_def Let_def suspended_def)

lemma suspended_inv:
  assumes inv: "sched_inv {} k" and r: "mstat k t = RT_THREAD_RUNNING"
  shows "sched_inv {} (suspended t f k)"
proof -
  have "sched_inv {t} (drop_thread t k)" using inv r by (intro drop_thread_inv stat_masked) auto
  then have "sched_inv {} (set_stat t (with_stat (suspend_stat f) (stat_of k t)) (drop_thread t k))"
    by (rule park_inv) (simp_all add: suspend_stat_mask suspend_stat_bits)
  then show ?thesis by (simp add: suspended_def)
qed

text \<open>Taking a thread off whatever list it waits on.\<close>

lemma tlist_remove_inv:
  assumes inv: "sched_inv {} k" and s: "bit (mstat k t) 2"
  shows "sched_inv {t} (tlist_remove t k)"
proof -
  have ns: "mstat k t \<notin> {RT_THREAD_READY, RT_THREAD_RUNNING, RT_THREAD_INIT, RT_THREAD_CLOSE}" using s by (auto simp: stat_defs)
  then have "t \<notin> set (k_list k (L_ready p))" for p using ready_iff [OF inv, of t p] by simp
  then have r: "list_remove t (k_list k) (L_ready p) = k_list k (L_ready p)" for p by (simp add: list_remove_def)
  then have "drop_thread t k = (if k_list k (L_ready (unat (prio_of k t))) = []
      then (tlist_remove t k)\<lparr>k_group := k_group k AND NOT (th_number_mask (k_thread k t))\<rparr> else tlist_remove t k)"
    by (simp add: drop_thread_def tlist_remove_def)
  moreover have m: "masked k t" using stat_masked [OF inv] ns by simp
  moreover have "k_group k AND NOT (th_number_mask (k_thread k t)) = k_group k"
    if "k_list k (L_ready (unat (prio_of k t))) = []"
  proof (rule bit_word_eqI)
    fix i assume "i < LENGTH(32)"
    then show "bit (k_group k AND NOT (th_number_mask (k_thread k t))) i = bit (k_group k) i"
      using sched_invD(1) [OF inv] that m by (auto simp: masked_def bitmap_ok_def bit_simps)
  qed
  ultimately have "sched_inv {t} (tlist_remove t k) = sched_inv {t} (drop_thread t k)"
    by (intro sched_inv_cong) (auto simp: tlist_remove_def)
  then show ?thesis using drop_thread_inv [OF inv _ m] by simp
qed

text \<open>The state in which \<^verbatim>\<open>rt_thread_resume\<close> leaves a suspended thread that is not current.\<close>

definition resumed :: "tid \<Rightarrow> kernel \<Rightarrow> kernel" where
  "resumed t k = enqueue t (snd (rt_timer_stop (Tm_thread t) (tlist_remove t k)))"

lemma tlist_remove_simps [simp]:
  "k_thread (tlist_remove t k) = k_thread k" "k_current (tlist_remove t k) = k_current k" "k_lock (tlist_remove t k) = k_lock k"
  "k_irq (tlist_remove t k) = k_irq k" "k_sem (tlist_remove t k) = k_sem k" "mstat (tlist_remove t k) = mstat k"
  "k_list (tlist_remove t k) = list_remove t (k_list k)" "k_linked (tlist_remove t k) = (k_linked k)(t := False)"
  by (simp_all add: tlist_remove_def mstat_def fun_eq_iff)

lemma resume_eq:
  assumes inv: "sched_inv {} k" and c: "k_current k \<noteq> Some t" and s: "bit (mstat k t) 2"
  shows "rt_thread_resume t k = Inr (RT_EOK, resumed t k)"
proof -
  have "rt_schedule_insert_thread t (snd (rt_timer_stop (Tm_thread t) (tlist_remove t k))) = Inr (resumed t k)"
    unfolding resumed_def using c prio_range [OF inv, of t] by (intro insert_thread_eq) simp_all
  then show ?thesis using s by (simp add: rt_thread_resume_def Let_def suspended_mstat)
qed

lemma resumed_inv:
  assumes "sched_inv {} k" "bit (mstat k t) 2"
  shows "sched_inv {} (resumed t k)"
  unfolding resumed_def using tlist_remove_inv [OF assms] by (intro enqueue_inv) simp

lemma resumed_simps [simp]:
  "mstat (resumed t k) u = (if u = t then RT_THREAD_READY else mstat k u)"
  "k_current (resumed t k) = k_current k" "k_lock (resumed t k) = k_lock k" "k_irq (resumed t k) = k_irq k"
  "prio_of (resumed t k) u = prio_of k u" "th_error (k_thread (resumed t k) u) = th_error (k_thread k u)"
  by (simp_all add: resumed_def)

section \<open>Yielding\<close>

lemma yield_stat: "(s OR RT_THREAD_STAT_YIELD) AND RT_THREAD_STAT_MASK = s AND RT_THREAD_STAT_MASK"
  by (rule bit_word_eqI) (auto simp: bit_stat)

lemma yield_flag_set: "(s OR RT_THREAD_STAT_YIELD) AND RT_THREAD_STAT_YIELD \<noteq> 0"
proof -
  have "bit ((s OR RT_THREAD_STAT_YIELD) AND RT_THREAD_STAT_YIELD) 3" by (simp only: bit_stat) simp
  then show ?thesis by auto
qed

lemma yield_flag_cleared: "with_stat RT_THREAD_READY (s AND NOT RT_THREAD_STAT_YIELD) AND RT_THREAD_STAT_YIELD = 0"
proof -
  have "with_stat RT_THREAD_READY (s AND NOT RT_THREAD_STAT_YIELD) AND RT_THREAD_STAT_YIELD = (s AND NOT RT_THREAD_STAT_YIELD) AND RT_THREAD_STAT_YIELD"
    by (rule with_stat_yield) (simp add: stat_defs)
  also have "\<dots> = 0" by (rule bit_word_eqI) (auto simp: bit_stat)
  finally show ?thesis .
qed

text \<open>A thread is running and others of the same, highest, priority wait for the processor.\<close>

definition contended :: "tid \<Rightarrow> tid list \<Rightarrow> kernel \<Rightarrow> bool" where
  "contended c q k \<longleftrightarrow> sched_inv {} k \<and> k_current k = Some c \<and> mstat k c = RT_THREAD_RUNNING \<and> k_lock k = 0 \<and> k_irq k = 0 \<and>
     k_list k (L_ready (unat (prio_of k c))) = q \<and> (\<forall>u. mstat k u = RT_THREAD_READY \<longrightarrow> prio_of k c \<le> prio_of k u)"

theorem yield_swaps:
  assumes co: "contended c (t # ts) k"
  shows "\<exists>k'. rt_thread_yield k = Inr (RT_EOK, k') \<and> contended t (c # ts) k'"
proof -
  let ?f = "\<lambda>th. th\<lparr>th_remaining_tick := th_init_tick th, th_stat := th_stat th OR RT_THREAD_STAT_YIELD\<rparr>"
  define k1 where "k1 = upd_thread c ?f k"
  have inv: "sched_inv {} k" and c: "k_current k = Some c" and r: "mstat k c = RT_THREAD_RUNNING" and lk: "k_lock k = 0" "k_irq k = 0"
    and L: "k_list k (L_ready (unat (prio_of k c))) = t # ts" and top: "\<And>u. mstat k u = RT_THREAD_READY \<Longrightarrow> prio_of k c \<le> prio_of k u"
    using co by (auto simp: contended_def)
  have u: "sched_inv {} k1" "mstat k1 = mstat k" "\<And>u. prio_of k1 u = prio_of k u"
    using upd_thread_inv [of ?f] inv by (simp_all add: k1_def yield_stat)
  have f: "k_list k1 = k_list k" "k_current k1 = Some c" "k_lock k1 = 0" "k_irq k1 = 0" "k_group k1 = k_group k"
    using c lk by (simp_all add: k1_def)
  have t: "mstat k t = RT_THREAD_READY" "prio_of k t = prio_of k c" using ready_iff [OF inv, of t "unat (prio_of k c)"] L by (simp_all add: word_unat_eq_iff)
  have g: "k_group k1 \<noteq> 0" using no_ready [OF u(1), of t] t(1) u(2) by auto
  obtain h hp where h: "get_highest_priority_thread k1 = Inr (h, hp)" "mstat k1 h = RT_THREAD_READY"
    "unat (prio_of k1 h) = unat hp" "unat hp < 32" "\<And>u. mstat k1 u = RT_THREAD_READY \<Longrightarrow> unat hp \<le> unat (prio_of k1 u)"
    "hd (k_list k1 (L_ready (unat hp))) = h" using highest_ready [OF u(1) g] by blast
  have "unat hp = unat (prio_of k c)"
  proof (rule antisym)
    show "unat hp \<le> unat (prio_of k c)" using h(5) [of t] t u by simp
    show "unat (prio_of k c) \<le> unat hp" using top [of h] h(2,3) u by (simp add: word_le_nat_alt)
  qed
  then have hp: "hp = ucast (prio_of k c)" by (simp add: word_unat_eq_iff u32_prio)
  have ht: "h = t" using h(6) L f(1) hp by (simp add: u32_prio)
  have ct: "t \<noteq> c" using r t by auto
  have yf: "yield_flag k1 c" using yield_flag_set by (simp add: yield_flag_def k1_def)
  define k' where "k' = rt_hw_context_switch c t (resume_current t (stop_current c t hp k1))"
  have "rt_schedule k1 = Inr k'"
    using rt_schedule_eq [OF u(1) f(2) f(3) g h(1)] ht ct yf hp u f(4) by (simp add: Let_def k'_def)
  then have "rt_thread_yield k = Inr (RT_EOK, k')" using c by (simp add: rt_thread_yield_def k1_def Let_def)
  moreover have "contended t (c # ts) k'"
  proof -
    have "k_list (stop_current c t hp k1) = list_insert_after (L_ready (unat (prio_of k c))) c (k_list k)"
      using r u f by (simp add: stop_current_def enqueue_def Let_def yield_flag_def yield_flag_cleared)
    moreover have "t \<notin> set ts" using sched_invD(2) [OF inv] L by (auto simp: links_ok_def lists_ok_def dest!: spec [of _ "L_ready (unat (prio_of k c))"])
    ultimately have "k_list k' (L_ready (unat (prio_of k c))) = c # ts"
      using L ct by (simp add: k'_def list_insert_after_def list_remove_def)
    moreover have "sched_inv {} k'" unfolding k'_def switch_simps
      using stop_current_inv [OF u(1) f(2)] t u ct r by (intro resume_current_inv) simp_all
    ultimately show ?thesis using t u r f top
      by (auto simp: contended_def k'_def split: if_splits)
  qed
  ultimately show ?thesis by blast
qed

text \<open>However often the running threads yield, a third thread of the same priority never runs.\<close>

fun yields :: "nat \<Rightarrow> kernel \<Rightarrow> kernel res" where
  "yields 0 k = Inr k"
| "yields (Suc n) k = bindR (rt_thread_yield k) (\<lambda>(_, k). yields n k)"

theorem yield_starves:
  assumes "contended c (t # ts) k"
  shows "\<exists>k'. yields n k = Inr k' \<and> (contended c (t # ts) k' \<or> contended t (c # ts) k') \<and> (\<forall>u \<in> set ts. k_current k' \<noteq> Some u)"
  using assms
proof (induction n arbitrary: c t k)
  case 0
  then have "sched_inv {} k" "k_list k (L_ready (unat (prio_of k c))) = t # ts" "mstat k c = RT_THREAD_RUNNING" "k_current k = Some c"
    by (auto simp: contended_def)
  then have "c \<notin> set ts" using ready_iff [of "{}" k c "unat (prio_of k c)"] by auto
  then show ?case using 0 \<open>k_current k = Some c\<close> by auto
next
  case (Suc n)
  obtain k1 where "rt_thread_yield k = Inr (RT_EOK, k1)" "contended t (c # ts) k1" using yield_swaps [OF Suc.prems] by blast
  then show ?case using Suc.IH [of t c k1] by auto
qed

section \<open>What scheduling leaves alone\<close>

definition sched_frame :: "kernel \<Rightarrow> kernel \<Rightarrow> bool" where
  "sched_frame k' k \<longleftrightarrow> k_timer k' = k_timer k \<and> k_timers k' = k_timers k \<and> k_soft_timers k' = k_soft_timers k \<and>
     k_tick k' = k_tick k \<and> k_lock k' = k_lock k \<and> k_irq k' = k_irq k \<and> k_soft_idle k' = k_soft_idle k \<and>
     k_sem k' = k_sem k \<and> k_mutex k' = k_mutex k \<and> k_taken k' = k_taken k \<and> k_ipc k' = k_ipc k \<and>
     (\<forall>u. (k_thread k' u)\<lparr>th_stat := 0\<rparr> = (k_thread k u)\<lparr>th_stat := 0\<rparr>) \<and>
     (\<forall>q. k_list k' (L_suspend q) = k_list k (L_suspend q) \<and> k_list k' (L_sender q) = k_list k (L_sender q))"

lemma sched_frame_refl [simp]: "sched_frame k k"
  by (simp add: sched_frame_def)

lemma sched_frame_trans: "sched_frame k2 k1 \<Longrightarrow> sched_frame k1 k \<Longrightarrow> sched_frame k2 k"
  by (simp add: sched_frame_def)

lemma sched_frameD:
  assumes "sched_frame k' k"
  shows "k_timer k' = k_timer k" "k_timers k' = k_timers k" "k_tick k' = k_tick k" "k_lock k' = k_lock k" "k_irq k' = k_irq k"
    "k_sem k' = k_sem k" "k_mutex k' = k_mutex k" "th_error (k_thread k' u) = th_error (k_thread k u)" "prio_of k' u = prio_of k u"
    "k_list k' (L_suspend q) = k_list k (L_suspend q)" "k_list k' (L_sender q) = k_list k (L_sender q)" "k_taken k' = k_taken k"
    "k_ipc k' = k_ipc k" "th_pending (k_thread k' u) = th_pending (k_thread k u)"
    "th_init_priority (k_thread k' u) = th_init_priority (k_thread k u)"
    "th_event_set (k_thread k' u) = th_event_set (k_thread k u)" "th_event_info (k_thread k' u) = th_event_info (k_thread k u)"
proof -
  have "(k_thread k' u)\<lparr>th_stat := 0\<rparr> = (k_thread k u)\<lparr>th_stat := 0\<rparr>" using assms by (simp add: sched_frame_def)
  then show "th_error (k_thread k' u) = th_error (k_thread k u)" "prio_of k' u = prio_of k u"
    "th_pending (k_thread k' u) = th_pending (k_thread k u)" "th_init_priority (k_thread k' u) = th_init_priority (k_thread k u)"
    "th_event_set (k_thread k' u) = th_event_set (k_thread k u)" "th_event_info (k_thread k' u) = th_event_info (k_thread k u)"
    by (cases "k_thread k' u"; cases "k_thread k u"; simp)+
qed (use assms in \<open>simp_all add: sched_frame_def\<close>)

lemma sched_frame_set_stat [simp]: "sched_frame (set_stat t s k) k"
  by (simp add: sched_frame_def set_stat_def)

lemma sched_frame_enqueue [simp]: "sched_frame (enqueue t k) k"
  by (simp add: sched_frame_def enqueue_def Let_def set_stat_def list_fam_defs)

lemma sched_frame_current [simp]: "sched_frame (k\<lparr>k_current_priority := p, k_current := c\<rparr>) k"
  by (simp add: sched_frame_def)

lemma sched_frame_switch [simp]: "sched_frame (rt_hw_context_switch a b k) k"
  by (simp add: sched_frame_def rt_hw_context_switch_def)

lemma sched_frame_drop:
  assumes "sched_inv X k" "\<not> bit (mstat k t) 2"
  shows "sched_frame (drop_thread t k) k"
proof -
  have "t \<notin> set (k_list k (L_suspend q))" "t \<notin> set (k_list k (L_sender q))" for q
    using waiting_bit [OF assms(1), of t q] assms(2) by auto
  then show ?thesis by (simp add: sched_frame_def drop_thread_def list_remove_def)
qed

lemma sched_frame_resume_current:
  assumes "sched_inv X k" "\<not> bit (mstat k t) 2"
  shows "sched_frame (resume_current t k) k"
  unfolding resume_current_def Let_def
  by (rule sched_frame_trans [OF sched_frame_set_stat sched_frame_drop [OF assms]])

lemma sched_frame_stop_current: "sched_frame (stop_current c t hp k) k"
  unfolding stop_current_def Let_def
  using sched_frame_trans [OF sched_frame_enqueue sched_frame_trans [OF sched_frame_set_stat sched_frame_current]] by simp

lemma ready_not_waiting: "\<not> bit RT_THREAD_READY 2" "\<not> bit RT_THREAD_RUNNING 2"
  by (simp_all add: stat_defs)

text \<open>The three ways \<^verbatim>\<open>rt_schedule\<close> ends.\<close>

lemma rt_schedule_cases:
  assumes inv: "sched_inv {} k" and c: "k_current k = Some c" and irq: "k_irq k = 0" and s: "rt_schedule k = Inr k'"
  obtains "k' = k"
    | k1 where "k' = resume_current c k1" "sched_inv {} k1" "mstat k1 = mstat k" "sched_frame k1 k"
        "mstat k c \<in> {RT_THREAD_RUNNING, RT_THREAD_READY}" "k_current k1 = Some c"
    | t hp where "k' = rt_hw_context_switch c t (resume_current t (stop_current c t hp k))" "t \<noteq> c" "mstat k t = RT_THREAD_READY"
proof (cases "k_lock k \<noteq> 0 \<or> k_group k = 0")
  case True
  then show thesis using s that(1) by (auto simp: rt_schedule_def)
next
  case False
  then have lk: "k_lock k = 0" and g: "k_group k \<noteq> 0" by auto
  obtain t hp where h: "get_highest_priority_thread k = Inr (t, hp)" "mstat k t = RT_THREAD_READY" using highest_ready [OF inv g] by blast
  let ?k1 = "if mstat k c = RT_THREAD_RUNNING then set_stat c (stat_of k c AND NOT RT_THREAD_STAT_YIELD) k else k"
  have m1: "mstat ?k1 = mstat k" "sched_frame ?k1 k" "k_current ?k1 = Some c"
    using c by (auto simp: fun_eq_iff clear_yield_stat mstat_def)
  have i1: "sched_inv {} ?k1" using inv same_stat_inv [OF inv] by (auto simp: clear_yield_stat mstat_def)
  have "k' = resume_current c ?k1 \<and> mstat k c \<in> {RT_THREAD_RUNNING, RT_THREAD_READY} \<or>
      k' = rt_hw_context_switch c t (resume_current t (stop_current c t hp k)) \<and> t \<noteq> c"
    using rt_schedule_eq [OF inv c lk g h(1)] irq s h(2) by (auto simp: Let_def split: if_splits)
  then show thesis using that(2) [of ?k1] that(3) [of t hp] i1 m1 h(2) by blast
qed

theorem rt_schedule_frame:
  assumes inv: "sched_inv {} k" and c: "k_current k = Some c" and irq: "k_irq k = 0" and s: "rt_schedule k = Inr k'"
  shows "sched_frame k' k"
  using rt_schedule_cases [OF assms]
proof cases
  case (2 k1)
  then have "\<not> bit (mstat k1 c) 2" using ready_not_waiting by auto
  then show ?thesis using 2 sched_frame_resume_current sched_frame_trans by metis
next
  case (3 t hp)
  then have "sched_frame (resume_current t (stop_current c t hp k)) (stop_current c t hp k)"
    using ready_not_waiting by (intro sched_frame_resume_current [OF stop_current_inv [OF inv c]]) simp
  then show ?thesis using 3 sched_frame_trans sched_frame_stop_current sched_frame_switch by metis
qed simp

text \<open>A suspended thread stays suspended, and is not the one that runs.\<close>

lemma rt_schedule_suspended:
  assumes inv: "sched_inv {} k" and c: "k_current k = Some c" and irq: "k_irq k = 0" and s: "rt_schedule k = Inr k'"
    and b: "bit (mstat k u) 2"
  shows "mstat k' u = mstat k u" and "runs_highest k' \<Longrightarrow> k_current k' \<noteq> Some u"
proof -
  have ne: "mstat k u \<noteq> RT_THREAD_READY" "mstat k u \<noteq> RT_THREAD_RUNNING" using b ready_not_waiting by auto
  show m: "mstat k' u = mstat k u"
    using rt_schedule_cases [OF inv c irq s] by cases (use ne in auto)
  show "k_current k' \<noteq> Some u" if "runs_highest k'" using that ne unfolding runs_highest_def m [symmetric] by auto
qed

section \<open>Starting a thread\<close>

lemma init_free:
  assumes "sched_inv {} k" "mstat k t = RT_THREAD_INIT"
  shows "\<not> placed (k_list k) t"
proof
  assume "placed (k_list k) t"
  then obtain h where h: "t \<in> set (k_list k h)" by (auto simp: placed_def)
  have "\<not> bit RT_THREAD_INIT 2" by (simp add: stat_defs)
  then show False using h assms ready_iff [OF assms(1), of t] waiting_bit [OF assms(1), of t] defunct_stat [OF assms(1), of t]
    by (cases h) auto
qed

lemma started_inv:
  assumes inv: "sched_inv {} k" and i: "mstat k t = RT_THREAD_INIT"
  shows "sched_inv {} (set_stat t RT_THREAD_SUSPEND (upd_thread t (\<lambda>th. th\<lparr>th_number_mask := push_bit (unat (th_current_priority th)) 1\<rparr>) k))"
    (is "sched_inv {} (set_stat t _ ?k)")
proof -
  note D = sched_invD [OF inv]
  have ms: "mstat ?k = mstat k" "\<And>u. prio_of ?k u = prio_of k u" by (auto simp: mstat_def fun_eq_iff)
  have mk: "masked ?k u \<longleftrightarrow> u = t \<or> masked k u" for u by (simp add: masked_def push_bit_eq_mult)
  have "bitmap_ok ?k" "wait_ok ?k" using D(1,4) ms(1) by (simp_all add: bitmap_ok_def wait_ok_def)
  moreover have "links_ok {t} ?k" using D(2) init_free [OF inv i] by (simp add: links_ok_def)
  moreover have "ready_ok {t} ?k" using D(3) unfolding ready_ok_def ms by simp
  moreover have "running_ok {t} ?k" using D(5) unfolding running_ok_def ms by simp
  moreover have "prio_ok {t} ?k" using D(6) unfolding prio_ok_def ms mk by simp
  ultimately have "sched_inv {t} ?k" by (simp add: sched_inv_def)
  then show ?thesis by (rule park_inv) (simp_all add: stat_defs)
qed

theorem rt_thread_startup_correct:
  assumes inv: "sched_inv {} k" and i: "mstat k t = RT_THREAD_INIT" and c: "k_current k \<noteq> Some t" and irq: "k_irq k = 0"
  shows "\<exists>k'. rt_thread_startup t k = Inr (RT_EOK, k') \<and> sched_inv {} k' \<and>
    (k_current k = None \<longrightarrow> t \<in> set (k_list k' (L_ready (unat (prio_of k t))))) \<and>
    (k_current k \<noteq> None \<and> k_lock k = 0 \<longrightarrow> runs_highest k')"
proof -
  let ?k = "set_stat t RT_THREAD_SUSPEND (upd_thread t (\<lambda>th. th\<lparr>th_number_mask := push_bit (unat (th_current_priority th)) 1\<rparr>) k)"
  have i1: "sched_inv {} ?k" by (rule started_inv [OF inv i])
  have b: "bit (mstat ?k t) 2" by (simp add: stat_defs)
  let ?r = "resumed t ?k"
  have r: "rt_thread_resume t ?k = Inr (RT_EOK, ?r)" using c by (intro resume_eq [OF i1 _ b]) simp
  have ri: "sched_inv {} ?r" by (rule resumed_inv [OF i1 b])
  have st: "mstat ?r t = RT_THREAD_READY" "k_current ?r = k_current k" "k_irq ?r = 0" "k_lock ?r = k_lock k" using irq by simp_all
  show ?thesis
  proof (cases "k_current k")
    case None
    have "t \<in> set (k_list ?r (L_ready (unat (prio_of k t))))" using ready_iff [OF ri, of t] st(1) by simp
    then show ?thesis using None i r ri st by (simp add: rt_thread_startup_def Let_def)
  next
    case (Some d)
    from rt_schedule_correct [OF ri, of d] Some st obtain k' where "rt_schedule ?r = Inr k'" "sched_inv {} k'" "k_lock k = 0 \<longrightarrow> runs_highest k'"
      by auto
    then show ?thesis using Some i r st by (simp add: rt_thread_startup_def Let_def)
  qed
qed

section \<open>Sleeping and waking\<close>

lemma deactivated_soft: "(f AND NOT RT_TIMER_FLAG_ACTIVATED) AND RT_TIMER_FLAG_SOFT_TIMER = f AND RT_TIMER_FLAG_SOFT_TIMER"
  "(f OR RT_TIMER_FLAG_ACTIVATED) AND RT_TIMER_FLAG_SOFT_TIMER = f AND RT_TIMER_FLAG_SOFT_TIMER"
proof -
  have b: "bit RT_TIMER_FLAG_ACTIVATED i \<longleftrightarrow> i = 0" "bit RT_TIMER_FLAG_SOFT_TIMER i \<longleftrightarrow> i = 2" for i
  proof -
    have a: "RT_TIMER_FLAG_ACTIVATED = 2 ^ 0" and s: "RT_TIMER_FLAG_SOFT_TIMER = 2 ^ 2"
      by (simp_all add: RT_TIMER_FLAG_ACTIVATED_def RT_TIMER_FLAG_SOFT_TIMER_def)
    show "bit RT_TIMER_FLAG_ACTIVATED i \<longleftrightarrow> i = 0" unfolding a bit_exp_iff by auto
    show "bit RT_TIMER_FLAG_SOFT_TIMER i \<longleftrightarrow> i = 2" unfolding s bit_exp_iff by auto
  qed
  show "(f AND NOT RT_TIMER_FLAG_ACTIVATED) AND RT_TIMER_FLAG_SOFT_TIMER = f AND RT_TIMER_FLAG_SOFT_TIMER"
    "(f OR RT_TIMER_FLAG_ACTIVATED) AND RT_TIMER_FLAG_SOFT_TIMER = f AND RT_TIMER_FLAG_SOFT_TIMER"
    by (rule bit_word_eqI; auto simp: bit_and_iff bit_or_iff bit_not_iff b)+
qed

definition hard_timer :: "kernel \<Rightarrow> timer_id \<Rightarrow> bool" where
  "hard_timer k i \<longleftrightarrow> tm_flag (k_timer k i) AND RT_TIMER_FLAG_SOFT_TIMER = 0"

lemma enlist_hard:
  assumes "hard_timer k i"
  shows "hard_timer (timer_enlist i k) i" "i \<in> set (k_timers (timer_enlist i k))"
    "tm_timeout_tick (k_timer (timer_enlist i k) i) = k_tick k + tm_init_tick (k_timer k i)"
  using assms by (simp_all add: hard_timer_def timer_enlist_def Let_def upd_timer_def deactivate_def timer_remove_def deactivated_soft rt_tick_get_def)

text \<open>Arming the timer of a thread.\<close>

definition armed :: "tid \<Rightarrow> u32 \<Rightarrow> kernel \<Rightarrow> kernel" where
  "armed t tick k = timer_enlist (Tm_thread t) (upd_timer (Tm_thread t) (\<lambda>m. m\<lparr>tm_init_tick := tick\<rparr>) k)"

lemma armed_frame [simp]:
  "k_thread (armed t tick k) = k_thread k" "k_list (armed t tick k) = k_list k" "k_linked (armed t tick k) = k_linked k"
  "k_current (armed t tick k) = k_current k" "k_lock (armed t tick k) = k_lock k" "k_irq (armed t tick k) = k_irq k"
  "k_sem (armed t tick k) = k_sem k" "mstat (armed t tick k) = mstat k" "sched_inv X (armed t tick k) = sched_inv X k"
  by (simp_all add: armed_def)

lemma arm_eq:
  assumes "hard_timer k (Tm_thread t)" "tick < RT_TICK_MAX div 2"
  shows "start_thread_timer t tick k = Inr (armed t tick k)"
proof -
  have "hard_timer (armed t tick k) (Tm_thread t)"
    unfolding armed_def using assms(1) by (intro enlist_hard) (simp add: hard_timer_def upd_timer_def)
  then show ?thesis using assms
    by (simp add: start_thread_timer_def rt_timer_control_def rt_timer_start_def armed_def hard_timer_def Let_def)
qed

lemma armed_timer:
  assumes "hard_timer k (Tm_thread t)"
  shows "Tm_thread t \<in> set (k_timers (armed t tick k))" "tm_timeout_tick (k_timer (armed t tick k) (Tm_thread t)) = k_tick k + tick"
proof -
  have h: "hard_timer (upd_timer (Tm_thread t) (\<lambda>m. m\<lparr>tm_init_tick := tick\<rparr>) k) (Tm_thread t)"
    using assms by (simp add: hard_timer_def upd_timer_def)
  show "Tm_thread t \<in> set (k_timers (armed t tick k))" "tm_timeout_tick (k_timer (armed t tick k) (Tm_thread t)) = k_tick k + tick"
    unfolding armed_def using enlist_hard(2,3) [OF h] by (simp_all add: upd_timer_def)
qed

lemma hard_timer_frame [simp]:
  "hard_timer (suspended t f k) i = hard_timer k i" "hard_timer (set_error t e k) i = hard_timer k i"
  by (simp_all add: hard_timer_def suspended_def rt_timer_stop_def deactivate_def timer_remove_def upd_timer_def deactivated_soft
    set_error_def set_stat_def drop_thread_def)

lemma timer_set_error [simp]: "k_timer (set_error t e k) = k_timer k" "k_timers (set_error t e k) = k_timers k"
  by (simp_all add: set_error_def)

lemma tick_frame [simp]: "k_tick (suspended t f k) = k_tick k" "k_tick (set_error t e k) = k_tick k"
  by (simp_all add: suspended_def rt_timer_stop_def deactivate_def timer_remove_def upd_timer_def set_error_def set_stat_def drop_thread_def)

theorem rt_thread_sleep_blocks:
  assumes inv: "sched_inv {} k" and c: "k_current k = Some c" and r: "mstat k c = RT_THREAD_RUNNING" and av: "k_lock k = 0" "k_irq k = 0"
    and h: "hard_timer k (Tm_thread c)" and tick: "0 < tick" "tick < RT_TICK_MAX div 2" and other: "mstat k u = RT_THREAD_READY"
  shows "\<exists>k'. rt_thread_sleep tick k = Inr (None, k') \<and> sched_inv {} k' \<and> runs_highest k' \<and> k_current k' \<noteq> Some c \<and>
    bit (mstat k' c) 2 \<and> Tm_thread c \<in> set (k_timers k') \<and> tm_timeout_tick (k_timer k' (Tm_thread c)) = k_tick k + tick"
proof -
  let ?k0 = "set_error c RT_EOK k"
  let ?k1 = "suspended c RT_INTERRUPTIBLE ?k0"
  let ?k2 = "set_error c (- RT_EINTR) (armed c tick ?k1)"
  have s: "rt_thread_suspend_with_flag c RT_INTERRUPTIBLE ?k0 = Inr (RT_EOK, ?k1)" using inv c r by (intro suspend_eq) simp_all
  have i1: "sched_inv {} ?k1" using inv r by (intro suspended_inv) simp_all
  have a: "start_thread_timer c tick ?k1 = Inr (armed c tick ?k1)" using h tick by (intro arm_eq) simp_all
  have i2: "sched_inv {} ?k2" using i1 by simp
  have uc: "u \<noteq> c" using r other by auto
  have m2: "mstat ?k2 u = RT_THREAD_READY" "mstat ?k2 c = suspend_stat RT_INTERRUPTIBLE" using other uc by simp_all
  obtain k' where k': "rt_schedule ?k2 = Inr k'" "sched_inv {} k'" "runs_highest k'"
    using rt_schedule_correct [OF i2, of c] c av m2(1) by auto
  have fr: "sched_frame k' ?k2" using rt_schedule_frame [OF i2 _ _ k'(1), of c] c av by simp
  have "rt_thread_sleep tick k = Inr (None, k')"
    using c av tick s a k'(1) by (simp add: rt_thread_sleep_def scheduler_available_def rt_critical_level_def)
  moreover have "Tm_thread c \<in> set (k_timers k')" "tm_timeout_tick (k_timer k' (Tm_thread c)) = k_tick k + tick"
    using sched_frameD(1,2) [OF fr] armed_timer [of ?k1 c tick] h by simp_all
  moreover have "bit (mstat k' c) 2" "k_current k' \<noteq> Some c"
    using rt_schedule_suspended [OF i2 _ _ k'(1), of c c] c av k'(3) suspend_stat_bits(2) by simp_all
  ultimately show ?thesis using k' by blast
qed

text \<open>The expiry of the timer makes the thread ready again, with its error set.\<close>

theorem thread_timeout_wakes:
  assumes inv: "sched_inv {} k" and c: "k_current k = Some c" "c \<noteq> t" and s: "bit (mstat k t) 2" and irq: "k_irq k = 0" "k_lock k = 0"
  shows "\<exists>k'. thread_timeout t k = Inr k' \<and> sched_inv {} k' \<and> runs_highest k' \<and> mstat k' t \<in> {RT_THREAD_READY, RT_THREAD_RUNNING} \<and>
    th_error (k_thread k' t) = - RT_ETIMEOUT"
proof -
  let ?k0 = "set_error t (- RT_ETIMEOUT) k"
  let ?k1 = "enqueue t (tlist_remove t ?k0)"
  have i1: "sched_inv {} ?k1" using inv s by (intro enqueue_inv tlist_remove_inv) simp_all
  have e: "rt_schedule_insert_thread t (tlist_remove t ?k0) = Inr ?k1"
    using c prio_range [OF inv, of t] by (intro insert_thread_eq) simp_all
  have cur: "k_current ?k1 = Some c" "k_irq ?k1 = 0" "k_lock ?k1 = 0" "mstat ?k1 t = RT_THREAD_READY" using c irq by simp_all
  obtain k' where k': "rt_schedule ?k1 = Inr k'" "sched_inv {} k'" "runs_highest k'"
    using rt_schedule_correct [OF i1 cur(1,2)] cur by auto
  have "th_error (k_thread k' t) = - RT_ETIMEOUT"
    using sched_frameD(8) [OF rt_schedule_frame [OF i1 cur(1,2) k'(1)], of t] by (simp add: set_error_def)
  moreover have "mstat k' t \<in> {RT_THREAD_READY, RT_THREAD_RUNNING}"
    using rt_schedule_cases [OF i1 cur(1,2) k'(1)] by cases (use cur in auto)
  moreover have "is_suspended k t" using s by (simp add: suspended_mstat)
  ultimately show ?thesis using k' e by (auto simp: thread_timeout_def)
qed

section \<open>Changing a priority\<close>

lemma set_priority_inv:
  assumes "sched_inv X k" "unat p < 32" "t \<in> X \<or> mstat k t \<noteq> RT_THREAD_READY"
  shows "sched_inv X (set_priority t p k)"
proof -
  note D = sched_invD [OF assms(1)]
  have ms: "mstat (set_priority t p k) = mstat k" by (auto simp: set_priority_def mstat_def fun_eq_iff)
  have pr: "prio_of (set_priority t p k) u = (if u = t then p else prio_of k u)" for u by (simp add: set_priority_def)
  have mk: "masked (set_priority t p k) u \<longleftrightarrow> u = t \<or> masked k u" for u by (simp add: set_priority_def masked_def push_bit_eq_mult)
  have fs: "k_list (set_priority t p k) = k_list k" "k_linked (set_priority t p k) = k_linked k" "k_group (set_priority t p k) = k_group k"
    "k_current (set_priority t p k) = k_current k" by (simp_all add: set_priority_def)
  have "ready_ok X (set_priority t p k)" using D(3) assms(3) unfolding ready_ok_def ms pr fs by auto
  moreover have "prio_ok X (set_priority t p k)" using D(6) assms(2) unfolding prio_ok_def ms pr mk by auto
  ultimately show ?thesis using D(1,2,4,5) by (simp add: sched_inv_def bitmap_ok_def links_ok_def wait_ok_def running_ok_def ms fs)
qed

theorem change_priority_correct:
  assumes inv: "sched_inv {} k" and p: "unat p < 32" and c: "mstat k t = RT_THREAD_READY \<longrightarrow> k_current k \<noteq> Some t"
  shows "\<exists>k'. change_priority t p k = Inr k' \<and> sched_inv {} k' \<and> prio_of k' t = p \<and> mstat k' = mstat k \<and>
    (\<forall>u. u \<noteq> t \<longrightarrow> k_thread k' u = k_thread k u)"
proof (cases "mstat k t = RT_THREAD_READY")
  case False
  have "mstat (set_priority t p k) = mstat k" by (auto simp: set_priority_def mstat_def fun_eq_iff)
  then show ?thesis using set_priority_inv [OF inv p, of t] False by (simp add: change_priority_def) (simp add: set_priority_def)
next
  case True
  let ?k1 = "set_priority t p (drop_thread t k)"
  have i1: "sched_inv {t} ?k1"
    using drop_thread_inv [OF inv, of t] stat_masked [OF inv, of t] True p by (intro set_priority_inv) auto
  have e: "rt_schedule_insert_thread t ?k1 = Inr (enqueue t ?k1)"
    using c True p by (intro insert_thread_eq) (simp_all add: set_priority_def)
  have "mstat ?k1 = mstat k" by (auto simp: set_priority_def mstat_def fun_eq_iff)
  then have "mstat (enqueue t ?k1) = mstat k" using True by (auto simp: fun_eq_iff)
  then show ?thesis using True e enqueue_inv [OF i1] remove_thread_eq [OF prio_range [OF inv, of t]]
    by (simp add: change_priority_def) (simp add: set_priority_def)
qed

end
