(* ===== verification/Rt_Ipc.thy ===== *)
theory Rt_Ipc
  imports Rt_Thread
begin

text \<open>
  The head of \<^verbatim>\<open>rt-thread-am/src/ipc.c\<close>: suspending a thread on the list of an IPC object and resuming the
  threads that wait there. \<^verbatim>\<open>_ipc_list_resume_all\<close> loops until the list is empty; \<open>None\<close> is a loop that
  does not end.
\<close>

text \<open>The first thread of the list with a lower priority than \<open>t\<close>.\<close>

definition lower_prio :: "kernel \<Rightarrow> tid \<Rightarrow> tid list \<Rightarrow> tid option" where
  "lower_prio k t l = find (\<lambda>s. prio_of k t < prio_of k s) l"

definition ipc_list_suspend :: "lhead \<Rightarrow> tid \<Rightarrow> ipc_flag \<Rightarrow> suspend_flag \<Rightarrow> kernel \<Rightarrow> (int \<times> kernel) res" where
  "ipc_list_suspend h t flag sf k =
     bindR (if \<not> is_suspended k t then rt_thread_suspend_with_flag t sf k else Inr (RT_EOK, k)) (\<lambda>(ret, k).
     if ret \<noteq> RT_EOK then Inr (ret, k)
     else bindR (case flag of
            RT_IPC_FLAG_FIFO \<Rightarrow> tlist_insert_before h t k
          | RT_IPC_FLAG_PRIO \<Rightarrow> (case lower_prio k t (k_list k h) of
                Some s \<Rightarrow> tlist_insert_before_elem s t k | None \<Rightarrow> tlist_insert_before h t k))
          (\<lambda>k. Inr (RT_EOK, k)))"

definition ipc_list_resume :: "lhead \<Rightarrow> kernel \<Rightarrow> (int \<times> kernel) res" where
  "ipc_list_resume h k =
     (case k_list k h of
        [] \<Rightarrow> Inl (Bad_access ''rt_list_entry'')
      | t # _ \<Rightarrow> bindR (rt_thread_resume t (set_error t RT_EOK k)) (\<lambda>(_, k). Inr (RT_EOK, k)))"

partial_function (option) ipc_list_resume_all :: "lhead \<Rightarrow> kernel \<Rightarrow> kernel res option" where
  "ipc_list_resume_all h k =
     (case k_list k h of
        [] \<Rightarrow> Some (Inr k)
      | t # _ \<Rightarrow> (case rt_thread_resume t (set_error t (- RT_ERROR) k) of
          Inl e \<Rightarrow> Some (Inl e)
        | Inr (_, k) \<Rightarrow> ipc_list_resume_all h k))"

section \<open>Waiting on a list\<close>

definition is_wait_list :: "lhead \<Rightarrow> bool" where
  "is_wait_list h \<longleftrightarrow> (case h of L_suspend _ \<Rightarrow> True | L_sender _ \<Rightarrow> True | _ \<Rightarrow> False)"

text \<open>Where the thread goes in the list.\<close>

definition queued :: "kernel \<Rightarrow> ipc_flag \<Rightarrow> tid \<Rightarrow> tid list \<Rightarrow> tid list" where
  "queued k flag t l = (case flag of RT_IPC_FLAG_FIFO \<Rightarrow> l @ [t]
     | RT_IPC_FLAG_PRIO \<Rightarrow> takeWhile (\<lambda>s. \<not> prio_of k t < prio_of k s) l @ t # dropWhile (\<lambda>s. \<not> prio_of k t < prio_of k s) l)"

lemma queued_set: "set (queued k flag t l) = insert t (set l)"
proof -
  have "set l = set (takeWhile P l) \<union> set (dropWhile P l)" for P by (metis set_append takeWhile_dropWhile_id)
  then show ?thesis by (auto simp: queued_def split: ipc_flag.splits)
qed

lemma find_dropWhile: "find P l = (case dropWhile (\<lambda>x. \<not> P x) l of [] \<Rightarrow> None | x # _ \<Rightarrow> Some x)"
  by (induction l) auto

lemma find_mem: "find P l = Some y \<Longrightarrow> y \<in> set l"
  by (induction l) (auto split: if_splits)

lemma find_holds: "find P l = Some y \<Longrightarrow> P y"
  by (induction l) (auto split: if_splits)

lemma insert_before_first:
  assumes "distinct l" "find P l = Some y"
  shows "takeWhile (\<lambda>z. z \<noteq> y) l @ x # dropWhile (\<lambda>z. z \<noteq> y) l = takeWhile (\<lambda>z. \<not> P z) l @ x # dropWhile (\<lambda>z. \<not> P z) l"
  using assms by (induction l) (auto split: if_splits dest: find_mem find_holds)

definition waiting :: "lhead \<Rightarrow> ipc_flag \<Rightarrow> tid \<Rightarrow> kernel \<Rightarrow> kernel" where
  "waiting h flag t k = k\<lparr>k_list := (k_list k)(h := queued k flag t (k_list k h)), k_linked := (k_linked k)(t := True)\<rparr>"

lemma waiting_simps [simp]:
  "k_thread (waiting h flag t k) = k_thread k" "k_current (waiting h flag t k) = k_current k" "k_lock (waiting h flag t k) = k_lock k"
  "k_irq (waiting h flag t k) = k_irq k" "k_sem (waiting h flag t k) = k_sem k" "k_timer (waiting h flag t k) = k_timer k"
  "k_tick (waiting h flag t k) = k_tick k" "mstat (waiting h flag t k) = mstat k"
  "k_list (waiting h flag t k) = (k_list k)(h := queued k flag t (k_list k h))" "hard_timer (waiting h flag t k) = hard_timer k"
  "k_mutex (waiting h flag t k) = k_mutex k"
  by (simp_all add: waiting_def mstat_def hard_timer_def fun_eq_iff)

lemma queue_eq:
  assumes inv: "sched_inv X k" and l: "\<not> k_linked k t"
  shows "(case flag of
            RT_IPC_FLAG_FIFO \<Rightarrow> tlist_insert_before h t k
          | RT_IPC_FLAG_PRIO \<Rightarrow> (case lower_prio k t (k_list k h) of
                Some s \<Rightarrow> tlist_insert_before_elem s t k | None \<Rightarrow> tlist_insert_before h t k)) = Inr (waiting h flag t k)"
proof (cases flag)
  case RT_IPC_FLAG_FIFO
  then show ?thesis using l by (simp add: tlist_insert_before_def list_insert_before_def waiting_def queued_def)
next
  case RT_IPC_FLAG_PRIO
  let ?P = "\<lambda>s. prio_of k t < prio_of k s"
  show ?thesis
  proof (cases "lower_prio k t (k_list k h)")
    case None
    then have "dropWhile (\<lambda>s. \<not> ?P s) (k_list k h) = []" by (auto simp: lower_prio_def find_dropWhile split: list.splits)
    moreover from this have "takeWhile (\<lambda>s. \<not> ?P s) (k_list k h) = k_list k h" by (metis append_Nil2 takeWhile_dropWhile_id)
    ultimately have "queued k flag t (k_list k h) = k_list k h @ [t]" by (simp only: queued_def RT_IPC_FLAG_PRIO ipc_flag.case)
    then show ?thesis using RT_IPC_FLAG_PRIO None l
      by (simp add: tlist_insert_before_def list_insert_before_def waiting_def)
  next
    case (Some y)
    have ok: "lists_ok (k_list k)" using inv by (simp add: sched_inv_def links_ok_def)
    have y: "y \<in> set (k_list k h)" using Some by (simp add: lower_prio_def find_mem)
    have "list_insert_before_elem y t (k_list k) = (k_list k)(h := queued k flag t (k_list k h))"
    proof
      fix h'
      show "list_insert_before_elem y t (k_list k) h' = ((k_list k)(h := queued k flag t (k_list k h))) h'"
      proof (cases "h' = h")
        case True
        have "distinct (k_list k h)" using ok by (simp add: lists_ok_def)
        then show ?thesis using True y insert_before_first [of "k_list k h" ?P y t] Some RT_IPC_FLAG_PRIO
          by (simp add: list_insert_before_elem_def queued_def lower_prio_def)
      next
        case False
        then have "y \<notin> set (k_list k h')" using ok y by (auto simp: lists_ok_def)
        then show ?thesis using False by (simp add: list_insert_before_elem_def)
      qed
    qed
    then show ?thesis using RT_IPC_FLAG_PRIO Some l by (simp add: tlist_insert_before_elem_def waiting_def)
  qed
qed

lemma queued_distinct: "distinct l \<Longrightarrow> t \<notin> set l \<Longrightarrow> distinct (queued k flag t l)"
proof -
  assume a: "distinct l" "t \<notin> set l"
  have "distinct (takeWhile P l @ t # dropWhile P l)" for P
  proof -
    obtain us vs where l: "us = takeWhile P l" "vs = dropWhile P l" by blast
    then have "l = us @ vs" by simp
    then show ?thesis using a unfolding l [symmetric] by auto
  qed
  then show ?thesis using a by (simp add: queued_def split: ipc_flag.splits)
qed

lemma waiting_inv:
  assumes inv: "sched_inv {} k" and h: "is_wait_list h" and l: "\<not> k_linked k t" and s: "bit (mstat k t) 2"
  shows "sched_inv {} (waiting h flag t k)"
proof -
  note D = sched_invD [OF inv]
  have np: "\<not> placed (k_list k) t" using l linked_iff [OF inv] by simp
  have set_w: "set (k_list (waiting h flag t k) h') = (if h' = h then insert t (set (k_list k h)) else set (k_list k h'))" for h'
    by (simp add: queued_set)
  have hr: "h \<noteq> L_ready p" "h \<noteq> L_defunct" for p using h by (auto simp: is_wait_list_def)
  have pl: "placed (k_list (waiting h flag t k)) u \<longleftrightarrow> placed (k_list k) u \<or> u = t" for u
    unfolding placed_def set_w by (metis insert_iff)
  have "lists_ok (list_insert_after h t (k_list k))" using D(2) np by (intro lists_ok_insert_after) (simp_all add: links_ok_def)
  moreover have "set (k_list (waiting h flag t k) h') = set (list_insert_after h t (k_list k) h')" for h'
    unfolding set_w by (simp add: list_insert_after_def)
  moreover have "distinct (k_list (waiting h flag t k) h')" for h'
    using D(2) np by (auto simp: links_ok_def lists_ok_def placed_def intro!: queued_distinct)
  ultimately have "lists_ok (k_list (waiting h flag t k))" by (rule lists_ok_cong)
  then have "links_ok {} (waiting h flag t k)" using D(2) pl by (auto simp: links_ok_def waiting_def)
  moreover have "bitmap_ok (waiting h flag t k)" using D(1) hr by (auto simp: bitmap_ok_def waiting_def)
  moreover have "ready_ok {} (waiting h flag t k)" using D(3) hr by (auto simp: ready_ok_def)
  moreover have "wait_ok (waiting h flag t k)" using D(4) s hr unfolding wait_ok_def set_w by auto
  moreover have "running_ok {} (waiting h flag t k)" "prio_ok {} (waiting h flag t k)"
    using D(5,6) by (simp_all add: running_ok_def prio_ok_def masked_def)
  ultimately show ?thesis by (simp add: sched_inv_def)
qed

lemma ipc_list_suspend_eq:
  assumes inv: "sched_inv {} k" and c: "k_current k = Some t" and r: "mstat k t = RT_THREAD_RUNNING" and h: "is_wait_list h"
  shows "ipc_list_suspend h t flag sf k = Inr (RT_EOK, waiting h flag t (suspended t sf k))"
    and "sched_inv {} (waiting h flag t (suspended t sf k))"
proof -
  have ns: "\<not> is_suspended k t" using r ready_not_waiting by (simp add: suspended_mstat)
  have i1: "sched_inv {} (suspended t sf k)" by (rule suspended_inv [OF inv r])
  have "\<not> k_linked (suspended t sf k) t" by simp
  then show "ipc_list_suspend h t flag sf k = Inr (RT_EOK, waiting h flag t (suspended t sf k))"
    using queue_eq [OF i1, where t = t and flag = flag and h = h] suspend_eq [OF inv c r] ns by (simp add: ipc_list_suspend_def)
  show "sched_inv {} (waiting h flag t (suspended t sf k))"
    using suspend_stat_bits(2) by (intro waiting_inv [OF i1 h]) simp_all
qed

section \<open>Resuming\<close>

lemma resumed_lists: "\<not> (\<exists>p. h = L_ready p) \<Longrightarrow> k_list (resumed t k) h = removeAll t (k_list k h)"
  by (auto simp: resumed_def enqueue_def Let_def list_fam_defs)

lemma resumed_frame [simp]:
  "k_sem (resumed t k) = k_sem k" "k_mutex (resumed t k) = k_mutex k" "k_ipc (resumed t k) = k_ipc k"
  by (simp_all add: resumed_def enqueue_def Let_def set_stat_def rt_timer_stop_def deactivate_def timer_remove_def upd_timer_def tlist_remove_def)

lemma wait_first:
  assumes "sched_inv {} k" "is_wait_list h" "k_list k h = t # ts"
  shows "bit (mstat k t) 2" "removeAll t (t # ts) = ts" "\<And>h'. h' \<noteq> h \<Longrightarrow> removeAll t (k_list k h') = k_list k h'"
proof -
  have ok: "lists_ok (k_list k)" using assms(1) by (simp add: sched_inv_def links_ok_def)
  show "bit (mstat k t) 2" using assms(2,3) waiting_bit [OF assms(1)] list.set_intros(1) [of t ts]
    by (cases h) (auto simp: is_wait_list_def simp flip: assms(3))
  have "distinct (k_list k h)" using ok by (simp add: lists_ok_def)
  then show "removeAll t (t # ts) = ts" using assms(3) by simp
  show "removeAll t (k_list k h') = k_list k h'" if "h' \<noteq> h" for h'
  proof -
    have "t \<in> set (k_list k h)" using assms(3) by simp
    then have "t \<notin> set (k_list k h')" using ok that unfolding lists_ok_def by metis
    then show ?thesis by simp
  qed
qed

lemma ipc_list_resume_eq:
  assumes inv: "sched_inv {} k" and h: "is_wait_list h" and l: "k_list k h = t # ts" and c: "k_current k \<noteq> Some t"
  shows "rt_thread_resume t (set_error t e k) = Inr (RT_EOK, resumed t (set_error t e k))"
    and "sched_inv {} (resumed t (set_error t e k))" and "k_list (resumed t (set_error t e k)) h = ts"
    and "is_wait_list h' \<Longrightarrow> h' \<noteq> h \<Longrightarrow> k_list (resumed t (set_error t e k)) h' = k_list k h'"
proof -
  note w = wait_first [OF inv h l]
  show "rt_thread_resume t (set_error t e k) = Inr (RT_EOK, resumed t (set_error t e k))"
    using inv c w(1) by (intro resume_eq) simp_all
  show "sched_inv {} (resumed t (set_error t e k))" using inv w(1) by (intro resumed_inv) simp_all
  show "k_list (resumed t (set_error t e k)) h = ts" using h l w(2) by (subst resumed_lists) (auto simp: is_wait_list_def)
  show "k_list (resumed t (set_error t e k)) h' = k_list k h'" if "is_wait_list h'" "h' \<noteq> h"
    using that w(3) by (subst resumed_lists) (auto simp: is_wait_list_def)
qed

lemma set_error_error [simp]: "th_error (k_thread (set_error t e k) u) = (if u = t then e else th_error (k_thread k u))"
  by (simp add: set_error_def)

text \<open>Resuming every waiter ends, and leaves nobody on the list.\<close>

theorem ipc_list_resume_all_ends:
  assumes "sched_inv {} k" "is_wait_list h" "k_current k = Some c" "mstat k c = RT_THREAD_RUNNING"
  shows "\<exists>k'. ipc_list_resume_all h k = Some (Inr k') \<and> sched_inv {} k' \<and> k_list k' h = [] \<and>
    (\<forall>t \<in> set (k_list k h). mstat k' t = RT_THREAD_READY \<and> th_error (k_thread k' t) = - RT_ERROR) \<and>
    (\<forall>h'. is_wait_list h' \<and> h' \<noteq> h \<longrightarrow> k_list k' h' = k_list k h') \<and>
    (\<forall>t. t \<notin> set (k_list k h) \<longrightarrow> mstat k' t = mstat k t \<and> th_error (k_thread k' t) = th_error (k_thread k t)) \<and>
    k_sem k' = k_sem k \<and> k_ipc k' = k_ipc k \<and> k_current k' = k_current k \<and> k_lock k' = k_lock k \<and> k_irq k' = k_irq k"
  using assms
proof (induction "k_list k h" arbitrary: k)
  case Nil
  have "ipc_list_resume_all h k = Some (Inr k)"
    unfolding ipc_list_resume_all.simps [of h k] Nil.hyps [symmetric] by simp
  then show ?case using Nil by simp
next
  case (Cons t ts)
  let ?k1 = "resumed t (set_error t (- RT_ERROR) k)"
  have l: "k_list k h = t # ts" using Cons.hyps(2) by simp
  have b: "bit (mstat k t) 2" by (rule wait_first(1) [OF Cons.prems(1,2) l])
  then have tc: "t \<noteq> c" using Cons.prems(4) ready_not_waiting by auto
  then have cur: "k_current k \<noteq> Some t" using Cons.prems(3) by simp
  note r = ipc_list_resume_eq [OF Cons.prems(1,2) l cur, where e = "- RT_ERROR"]
  have step: "ipc_list_resume_all h k = ipc_list_resume_all h ?k1"
    unfolding ipc_list_resume_all.simps [of h k] l using r(1) by simp
  have nt: "t \<notin> set ts" using Cons.prems(1) l unfolding sched_inv_def links_ok_def lists_ok_def by (metis distinct.simps(2))
  have ki: "k_ipc ?k1 = k_ipc k" by (simp add: set_error_def upd_thread_def)
  obtain k' where k': "ipc_list_resume_all h ?k1 = Some (Inr k')" "sched_inv {} k'" "k_list k' h = []"
    "\<forall>u \<in> set ts. mstat k' u = RT_THREAD_READY \<and> th_error (k_thread k' u) = - RT_ERROR"
    "\<forall>h'. is_wait_list h' \<and> h' \<noteq> h \<longrightarrow> k_list k' h' = k_list ?k1 h'"
    "\<forall>u. u \<notin> set ts \<longrightarrow> mstat k' u = mstat ?k1 u \<and> th_error (k_thread k' u) = th_error (k_thread ?k1 u)"
    "k_sem k' = k_sem k" "k_ipc k' = k_ipc k" "k_current k' = k_current k" "k_lock k' = k_lock k" "k_irq k' = k_irq k"
    using Cons.hyps(1) [of ?k1] r(2,3) Cons.prems tc ki by auto
  show ?case using k' step r(4) l nt by auto
qed

end
