(* ===== verification/Rt_Sem.thy ===== *)
theory Rt_Sem
  imports Rt_Ipc
begin

text \<open>
  The semaphores of \<^verbatim>\<open>rt-thread-am/src/ipc.c\<close>. \<^verbatim>\<open>rt_sem_take\<close> returns \<open>None\<close> when its thread has blocked;
  \<open>rt_sem_take_end\<close> is what it does when the thread runs again. A timeout is an \<^verbatim>\<open>rt_int32_t\<close>.
\<close>

definition sem_waiters :: "nat \<Rightarrow> lhead" where "sem_waiters s = L_suspend (O_sem s)"

definition upd_sem :: "nat \<Rightarrow> (rt_sem \<Rightarrow> rt_sem) \<Rightarrow> kernel \<Rightarrow> kernel" where
  "upd_sem s f k = k\<lparr>k_sem := (k_sem k)(s := f (k_sem k s))\<rparr>"

definition RT_SEM_VALUE_MAX :: u16 where "RT_SEM_VALUE_MAX = 0xffff"

definition rt_sem_init :: "nat \<Rightarrow> u32 \<Rightarrow> ipc_flag \<Rightarrow> kernel \<Rightarrow> (int \<times> kernel) res" where
  "rt_sem_init s value flag k =
     assertR (value < 0x10000) ''value < 0x10000U''
       (if k_list k (sem_waiters s) \<noteq> [] then Inl (Bad_access ''suspend_thread'')
        else Inr (RT_EOK, upd_sem s (\<lambda>_. \<lparr>sem_value = ucast value, sem_flag = flag\<rparr>) k))"

definition rt_sem_detach :: "nat \<Rightarrow> kernel \<Rightarrow> (int \<times> kernel) res option" where
  "rt_sem_detach s k =
     (case ipc_list_resume_all (sem_waiters s) k of
        None \<Rightarrow> None | Some r \<Rightarrow> Some (bindR r (\<lambda>k. Inr (RT_EOK, k))))"

definition rt_sem_delete :: "nat \<Rightarrow> kernel \<Rightarrow> (int \<times> kernel) res option" where
  "rt_sem_delete s k =
     (if k_irq k \<noteq> 0 then Some (Inl (Assert_fail ''shall not be used in ISR''))
      else case ipc_list_resume_all (sem_waiters s) k of
        None \<Rightarrow> None | Some r \<Rightarrow> Some (bindR r (\<lambda>k. Inr (RT_EOK, k))))"

definition rt_sem_take_flag :: "nat \<Rightarrow> u32 \<Rightarrow> suspend_flag \<Rightarrow> kernel \<Rightarrow> (int option \<times> kernel) res" where
  "rt_sem_take_flag s timeout sf k =
     (if sem_value (k_sem k s) > 0 then
        Inr (Some RT_EOK, upd_sem s (\<lambda>m. m\<lparr>sem_value := sem_value m - 1\<rparr>) k)
      else if timeout = 0 then Inr (Some (- RT_ETIMEOUT), k)
      else assertR (scheduler_available k) ''scheduler is not available''
        (case k_current k of
           None \<Rightarrow> Inl (Bad_access ''rt_current_thread'')
         | Some t \<Rightarrow>
             bindR (ipc_list_suspend (sem_waiters s) t (sem_flag (k_sem k s)) sf (set_error t (- RT_EINTR) k)) (\<lambda>(ret, k).
             if ret \<noteq> RT_EOK then Inr (Some ret, k)
             else
               bindR (if sint timeout > 0 then start_thread_timer t timeout k else Inr k) (\<lambda>k.
               bindR (rt_schedule k) (\<lambda>k. Inr (None, k))))))"

definition rt_sem_take_end :: "tid \<Rightarrow> kernel \<Rightarrow> int \<times> kernel" where
  "rt_sem_take_end t k =
     (if th_error (k_thread k t) \<noteq> RT_EOK then (th_error (k_thread k t), k) else (RT_EOK, k))"

definition rt_sem_take :: "nat \<Rightarrow> u32 \<Rightarrow> kernel \<Rightarrow> (int option \<times> kernel) res" where
  "rt_sem_take s time k = rt_sem_take_flag s time RT_UNINTERRUPTIBLE k"

definition rt_sem_take_interruptible :: "nat \<Rightarrow> u32 \<Rightarrow> kernel \<Rightarrow> (int option \<times> kernel) res" where
  "rt_sem_take_interruptible s time k = rt_sem_take_flag s time RT_INTERRUPTIBLE k"

definition rt_sem_take_killable :: "nat \<Rightarrow> u32 \<Rightarrow> kernel \<Rightarrow> (int option \<times> kernel) res" where
  "rt_sem_take_killable s time k = rt_sem_take_flag s time RT_KILLABLE k"

definition rt_sem_trytake :: "nat \<Rightarrow> kernel \<Rightarrow> (int option \<times> kernel) res" where
  "rt_sem_trytake s k = rt_sem_take s 0 k"

definition rt_sem_release :: "nat \<Rightarrow> kernel \<Rightarrow> (int \<times> kernel) res" where
  "rt_sem_release s k =
     (if k_list k (sem_waiters s) \<noteq> [] then
        bindR (ipc_list_resume (sem_waiters s) k) (\<lambda>(_, k).
        bindR (rt_schedule k) (\<lambda>k. Inr (RT_EOK, k)))
      else if sem_value (k_sem k s) < RT_SEM_VALUE_MAX then
        Inr (RT_EOK, upd_sem s (\<lambda>m. m\<lparr>sem_value := sem_value m + 1\<rparr>) k)
      else Inr (- RT_EFULL, k))"

text \<open>\<^verbatim>\<open>rt_sem_control\<close>; the command is whether it is \<^verbatim>\<open>RT_IPC_CMD_RESET\<close>.\<close>

definition rt_sem_control :: "nat \<Rightarrow> bool \<Rightarrow> u32 \<Rightarrow> kernel \<Rightarrow> (int \<times> kernel) res option" where
  "rt_sem_control s reset value k =
     (if reset then
        (case ipc_list_resume_all (sem_waiters s) k of
           None \<Rightarrow> None
         | Some r \<Rightarrow> Some (bindR r (\<lambda>k.
             bindR (rt_schedule (upd_sem s (\<lambda>m. m\<lparr>sem_value := ucast value\<rparr>) k)) (\<lambda>k. Inr (RT_EOK, k)))))
      else Some (Inr (- RT_ERROR, k)))"

section \<open>Nobody waits for a semaphore that has tokens\<close>

definition sem_ok :: "kernel \<Rightarrow> bool" where
  "sem_ok k \<longleftrightarrow> (\<forall>s. 0 < sem_value (k_sem k s) \<longrightarrow> k_list k (sem_waiters s) = [])"

definition kernel_ok :: "kernel \<Rightarrow> bool" where
  "kernel_ok k \<longleftrightarrow> sched_inv {} k \<and> sem_ok k"

lemma upd_sem_simps [simp]:
  "sched_inv X (upd_sem s f k) = sched_inv X k" "k_list (upd_sem s f k) = k_list k" "k_sem (upd_sem s f k) = (k_sem k)(s := f (k_sem k s))"
  "k_current (upd_sem s f k) = k_current k" "k_irq (upd_sem s f k) = k_irq k" "k_lock (upd_sem s f k) = k_lock k" "mstat (upd_sem s f k) = mstat k"
  "k_thread (upd_sem s f k) = k_thread k"
  by (simp_all add: upd_sem_def sched_inv_def sched_parts mstat_def masked_def fun_eq_iff)

lemma sem_waiters_neq [simp]: "sem_waiters s = sem_waiters s' \<longleftrightarrow> s = s'" "is_wait_list (sem_waiters s)"
  by (simp_all add: sem_waiters_def is_wait_list_def)

lemma sem_ok_frame:
  assumes "sched_frame k' k" shows "sem_ok k' = sem_ok k"
  using sched_frameD(6,10) [OF assms] by (simp add: sem_ok_def sem_waiters_def)

text \<open>The thread that calls is running, outside interrupts and critical sections.\<close>

definition thread_context :: "tid \<Rightarrow> kernel \<Rightarrow> bool" where
  "thread_context c k \<longleftrightarrow> k_current k = Some c \<and> mstat k c = RT_THREAD_RUNNING \<and> k_lock k = 0 \<and> k_irq k = 0"

theorem rt_sem_take_token:
  assumes "kernel_ok k" "0 < sem_value (k_sem k s)"
  shows "\<exists>k'. rt_sem_take_flag s timeout sf k = Inr (Some RT_EOK, k') \<and> kernel_ok k' \<and> k_thread k' = k_thread k \<and>
    unat (sem_value (k_sem k' s)) + 1 = unat (sem_value (k_sem k s))"
proof -
  have nz: "sem_value (k_sem k s) \<noteq> 0" using assms(2) by auto
  then have "0 < unat (sem_value (k_sem k s))" by (simp add: unat_gt_0)
  then have "unat (sem_value (k_sem k s) - 1) + 1 = unat (sem_value (k_sem k s))" using unat_minus_1 [OF nz] by simp
  moreover have "sem_ok (upd_sem s (\<lambda>m. m\<lparr>sem_value := sem_value m - 1\<rparr>) k)"
    using assms by (auto simp: sem_ok_def kernel_ok_def)
  ultimately show ?thesis using assms by (simp add: rt_sem_take_flag_def kernel_ok_def)
qed

theorem rt_sem_take_empty:
  assumes "sem_value (k_sem k s) = 0"
  shows "rt_sem_take_flag s 0 sf k = Inr (Some (- RT_ETIMEOUT), k)"
  using assms by (simp add: rt_sem_take_flag_def)

theorem rt_sem_take_blocks:
  assumes ok: "kernel_ok k" and c: "thread_context c k" and v: "sem_value (k_sem k s) = 0" and to: "timeout \<noteq> 0"
    and tick: "0 < sint timeout \<longrightarrow> timeout < RT_TICK_MAX div 2 \<and> hard_timer k (Tm_thread c)" and other: "mstat k u = RT_THREAD_READY"
  shows "\<exists>k'. rt_sem_take_flag s timeout sf k = Inr (None, k') \<and> kernel_ok k' \<and> runs_highest k' \<and> k_current k' \<noteq> Some c \<and>
    k_list k' (sem_waiters s) = queued k (sem_flag (k_sem k s)) c (k_list k (sem_waiters s)) \<and>
    k_sem k' = k_sem k \<and> th_error (k_thread k' c) = - RT_EINTR"
proof -
  have inv: "sched_inv {} k" and sok: "sem_ok k" using ok by (auto simp: kernel_ok_def)
  have cx: "k_current k = Some c" "mstat k c = RT_THREAD_RUNNING" "k_lock k = 0" "k_irq k = 0" using c by (auto simp: thread_context_def)
  let ?k0 = "set_error c (- RT_EINTR) k" and ?f = "sem_flag (k_sem k s)"
  let ?k1 = "waiting (sem_waiters s) ?f c (suspended c sf ?k0)"
  have s1: "ipc_list_suspend (sem_waiters s) c ?f sf ?k0 = Inr (RT_EOK, ?k1)" and i1: "sched_inv {} ?k1"
    using ipc_list_suspend_eq [of ?k0 c "sem_waiters s" ?f sf] inv cx by simp_all
  let ?k2 = "if 0 < sint timeout then armed c timeout ?k1 else ?k1"
  have a: "(if sint timeout > 0 then start_thread_timer c timeout ?k1 else Inr ?k1) = Inr ?k2"
    using tick by (simp add: arm_eq)
  have f2: "sched_inv {} ?k2" "k_list ?k2 = k_list ?k1" "mstat ?k2 = mstat ?k1" "k_current ?k2 = Some c" "k_irq ?k2 = 0" "k_lock ?k2 = 0"
    "k_sem ?k2 = k_sem k" "k_thread ?k2 = k_thread ?k1" using i1 cx by simp_all
  have uc: "u \<noteq> c" using cx other by auto
  then have m2: "mstat ?k2 u = RT_THREAD_READY" "bit (mstat ?k2 c) 2" using other f2(3) suspend_stat_bits(2) by simp_all
  obtain k' where k': "rt_schedule ?k2 = Inr k'" "sched_inv {} k'" "runs_highest k'"
    using rt_schedule_correct [OF f2(1,4,5)] m2(1) f2(6) by auto
  have fr: "sched_frame k' ?k2" by (rule rt_schedule_frame [OF f2(1,4,5) k'(1)])
  have cl: "c \<notin> set (k_list k h)" for h using running_free [OF inv cx(2)] by (simp add: placed_def)
  have q: "queued (suspended c sf ?k0) ?f c l = queued k ?f c l" for l by (simp add: queued_def split: ipc_flag.splits)
  have lst: "k_list ?k2 h = (if h = sem_waiters s then queued k ?f c (k_list k (sem_waiters s)) else k_list k h)" for h
    using cl by (simp add: f2(2) q list_remove_def)
  have "sem_ok ?k2" using sok v unfolding sem_ok_def lst f2(7) by auto
  then have "sem_ok k'" using sem_ok_frame [OF fr] by simp
  moreover have "rt_sem_take_flag s timeout sf k = Inr (None, k')"
    using v to cx s1 a k'(1) by (simp add: rt_sem_take_flag_def scheduler_available_def rt_critical_level_def)
  moreover have "k_list k' (sem_waiters s) = queued k ?f c (k_list k (sem_waiters s))" "k_sem k' = k_sem k"
    using sched_frameD(6,10) [OF fr] f2(7) lst [of "sem_waiters s"] by (simp_all add: sem_waiters_def)
  moreover have "th_error (k_thread k' c) = - RT_EINTR"
    using sched_frameD(8) [OF fr, of c] f2(8) by (simp add: suspended_def set_stat_def)
  moreover have "k_current k' \<noteq> Some c" using rt_schedule_suspended(2) [OF f2(1,4,5) k'(1) m2(2) k'(3)] .
  ultimately show ?thesis using k' by (auto simp: kernel_ok_def)
qed

theorem rt_sem_release_wakes:
  assumes ok: "kernel_ok k" and c: "thread_context c k" and l: "k_list k (sem_waiters s) = t # ts"
  shows "\<exists>k'. rt_sem_release s k = Inr (RT_EOK, k') \<and> kernel_ok k' \<and> runs_highest k' \<and> k_list k' (sem_waiters s) = ts \<and>
    k_sem k' = k_sem k \<and> mstat k' t \<in> {RT_THREAD_READY, RT_THREAD_RUNNING} \<and> rt_sem_take_end t k' = (RT_EOK, k')"
proof -
  have inv: "sched_inv {} k" and sok: "sem_ok k" using ok by (auto simp: kernel_ok_def)
  have cx: "k_current k = Some c" "mstat k c = RT_THREAD_RUNNING" "k_lock k = 0" "k_irq k = 0" using c by (auto simp: thread_context_def)
  have b: "bit (mstat k t) 2" by (rule wait_first(1) [OF inv sem_waiters_neq(2) l])
  have tc: "t \<noteq> c" using b cx(2) ready_not_waiting by auto
  then have ct: "k_current k \<noteq> Some t" using cx by simp
  let ?k1 = "resumed t (set_error t RT_EOK k)"
  note r = ipc_list_resume_eq [OF inv sem_waiters_neq(2) l ct, where e = RT_EOK]
  have cur: "k_current ?k1 = Some c" "k_irq ?k1 = 0" "k_lock ?k1 = 0" "mstat ?k1 t = RT_THREAD_READY" using cx by simp_all
  have o1: "sem_ok ?k1" unfolding sem_ok_def
  proof (intro allI impI)
    fix s' assume v: "0 < sem_value (k_sem ?k1 s')"
    have "k_list k (sem_waiters s') = []" using sok v by (simp add: sem_ok_def)
    moreover from this l have "s' \<noteq> s" by auto
    ultimately show "k_list ?k1 (sem_waiters s') = []" using r(4) [where h' = "sem_waiters s'"] by simp
  qed
  obtain k' where k': "rt_schedule ?k1 = Inr k'" "sched_inv {} k'" "runs_highest k'"
    using rt_schedule_correct [OF r(2) cur(1,2)] cur by auto
  have fr: "sched_frame k' ?k1" by (rule rt_schedule_frame [OF r(2) cur(1,2) k'(1)])
  have "mstat k' t \<in> {RT_THREAD_READY, RT_THREAD_RUNNING}"
    using rt_schedule_cases [OF r(2) cur(1,2) k'(1)] by cases (use cur in auto)
  moreover have "rt_sem_take_end t k' = (RT_EOK, k')" using sched_frameD(8) [OF fr, of t] by (simp add: rt_sem_take_end_def)
  moreover have "rt_sem_release s k = Inr (RT_EOK, k')"
    using l r(1) k'(1) by (simp add: rt_sem_release_def ipc_list_resume_def)
  moreover have "sem_ok k'" using sem_ok_frame [OF fr] o1 by simp
  moreover have "k_list k' (sem_waiters s) = ts" "k_sem k' = k_sem k"
    using sched_frameD(6,10) [OF fr] r(3) by (simp_all add: sem_waiters_def)
  ultimately show ?thesis using k' by (auto simp: kernel_ok_def)
qed

theorem rt_sem_release_counts:
  assumes ok: "kernel_ok k" and l: "k_list k (sem_waiters s) = []"
  shows "\<exists>e k'. rt_sem_release s k = Inr (e, k') \<and> kernel_ok k' \<and> k_thread k' = k_thread k \<and>
    (if unat (sem_value (k_sem k s)) < 65535 then e = RT_EOK \<and> unat (sem_value (k_sem k' s)) = unat (sem_value (k_sem k s)) + 1
     else e = - RT_EFULL \<and> k' = k)"
proof (cases "sem_value (k_sem k s) < RT_SEM_VALUE_MAX")
  case True
  then have "unat (sem_value (k_sem k s)) < 65535" by (simp add: word_less_nat_alt RT_SEM_VALUE_MAX_def)
  moreover from this have "unat (sem_value (k_sem k s) + 1) = unat (sem_value (k_sem k s)) + 1" by (intro unat_plus_1) simp
  ultimately show ?thesis using True ok l
    by (auto simp: rt_sem_release_def kernel_ok_def sem_ok_def)
next
  case False
  then have "\<not> unat (sem_value (k_sem k s)) < 65535" by (simp add: word_less_nat_alt RT_SEM_VALUE_MAX_def)
  then show ?thesis using False ok l by (simp add: rt_sem_release_def)
qed

text \<open>Waiters of a semaphore with the priority flag are in the order of their priorities.\<close>

theorem queued_by_priority:
  assumes "sorted (map (prio_of k) l)"
  shows "sorted (map (prio_of k) (queued k RT_IPC_FLAG_PRIO t l))"
  using assms
proof (induction l)
  case (Cons x l)
  then show ?case
  proof (cases "prio_of k t < prio_of k x")
    case True
    then show ?thesis using Cons.prems by (auto simp: queued_def)
  next
    case False
    have "set (queued k RT_IPC_FLAG_PRIO t l) = insert t (set l)" by (rule queued_set)
    moreover have "queued k RT_IPC_FLAG_PRIO t (x # l) = x # queued k RT_IPC_FLAG_PRIO t l" using False by (simp add: queued_def)
    ultimately show ?thesis using Cons False by auto
  qed
qed (simp add: queued_def)

end
