(* ===== verification/Rt_Mutex.thy ===== *)
theory Rt_Mutex
  imports Rt_Sem
begin

text \<open>
  The mutexes of \<^verbatim>\<open>rt-thread-am/src/ipc.c\<close>: recursive locks with priority inheritance and priority
  ceilings. \<^verbatim>\<open>_thread_update_priority\<close> calls itself along the chain of owners; an outer \<open>None\<close> is a
  recursion that does not end. An operation that blocks returns the inner \<open>None\<close>, and its \<open>_end\<close> is
  what the thread executes when it runs again.
\<close>

section \<open>Mutexes and the threads that hold them\<close>

definition mutex_waiters :: "nat \<Rightarrow> lhead" where "mutex_waiters m = L_suspend (O_mutex m)"

definition upd_mutex :: "nat \<Rightarrow> (rt_mutex \<Rightarrow> rt_mutex) \<Rightarrow> kernel \<Rightarrow> kernel" where
  "upd_mutex m f k = k\<lparr>k_mutex := (k_mutex k)(m := f (k_mutex k m))\<rparr>"

definition set_pending :: "tid \<Rightarrow> nat option \<Rightarrow> kernel \<Rightarrow> kernel" where
  "set_pending t p k = upd_thread t (\<lambda>th. th\<lparr>th_pending := p\<rparr>) k"

definition RT_MUTEX_HOLD_MAX :: u8 where "RT_MUTEX_HOLD_MAX = 0xff"

text \<open>The list of the mutexes a thread holds.\<close>

definition taken_insert :: "tid \<Rightarrow> nat \<Rightarrow> kernel \<Rightarrow> kernel res" where
  "taken_insert t m k =
     (if mx_linked (k_mutex k m) then Inl (Bad_access ''taken_list'')
      else Inr (upd_mutex m (\<lambda>x. x\<lparr>mx_linked := True\<rparr>) (k\<lparr>k_taken := list_insert_after t m (k_taken k)\<rparr>)))"

definition taken_remove :: "nat \<Rightarrow> kernel \<Rightarrow> kernel" where
  "taken_remove m k = upd_mutex m (\<lambda>x. x\<lparr>mx_linked := False\<rparr>) (k\<lparr>k_taken := list_remove m (k_taken k)\<rparr>)"

definition mutex_update_priority :: "nat \<Rightarrow> kernel \<Rightarrow> kernel" where
  "mutex_update_priority m k =
     upd_mutex m (\<lambda>x. x\<lparr>mx_priority := (case k_list k (mutex_waiters m) of [] \<Rightarrow> 0xff | t # _ \<Rightarrow> prio_of k t)\<rparr>) k"

definition thread_get_mutex_priority :: "tid \<Rightarrow> kernel \<Rightarrow> u8" where
  "thread_get_mutex_priority t k =
     foldl (\<lambda>priority m.
         let mutex_prio = mx_priority (k_mutex k m); ceiling = mx_ceiling_priority (k_mutex k m);
             mutex_prio = (if mutex_prio < ceiling then mutex_prio else ceiling)
         in if priority > mutex_prio then mutex_prio else priority)
       (th_init_priority (k_thread k t)) (k_taken k t)"

partial_function (option) thread_update_priority :: "tid \<Rightarrow> u8 \<Rightarrow> suspend_flag \<Rightarrow> kernel \<Rightarrow> kernel res option" where
  "thread_update_priority t priority sf k =
     (case change_priority t priority k of
        Inl e \<Rightarrow> Some (Inl e)
      | Inr k \<Rightarrow>
          if \<not> is_suspended k t then Some (Inr k)
          else case th_pending (k_thread k t) of
            None \<Rightarrow> Some (Inr k)
          | Some m \<Rightarrow>
              (case ipc_list_suspend (mutex_waiters m) t RT_IPC_FLAG_PRIO sf (tlist_remove t k) of
                 Inl e \<Rightarrow> Some (Inl e)
               | Inr (ret, k) \<Rightarrow>
                   if ret \<noteq> RT_EOK then Some (Inr k)
                   else let k = mutex_update_priority m k in
                     case mx_owner (k_mutex k m) of
                       None \<Rightarrow> Some (Inl (Bad_access ''pending_mutex->owner''))
                     | Some owner \<Rightarrow>
                         let mutex_priority = thread_get_mutex_priority owner k in
                         if mutex_priority \<noteq> prio_of k owner then thread_update_priority owner mutex_priority sf k
                         else Some (Inr k)))"

text \<open>The owner's priority after a change of its mutexes.\<close>

definition owner_update_priority :: "tid \<Rightarrow> kernel \<Rightarrow> kernel res option" where
  "owner_update_priority owner k =
     (let priority = thread_get_mutex_priority owner k in
      if priority \<noteq> prio_of k owner then thread_update_priority owner priority RT_UNINTERRUPTIBLE k else Some (Inr k))"

section \<open>Operations\<close>

definition rt_mutex_init :: "nat \<Rightarrow> kernel \<Rightarrow> (int \<times> kernel) res" where
  "rt_mutex_init m k =
     (if k_list k (mutex_waiters m) \<noteq> [] then Inl (Bad_access ''suspend_thread'')
      else if mx_linked (k_mutex k m) then Inl (Bad_access ''taken_list'')
      else Inr (RT_EOK, upd_mutex m (\<lambda>_. \<lparr>mx_priority = 0xff, mx_ceiling_priority = 0xff, mx_hold = 0, mx_owner = None,
             mx_linked = False\<rparr>) k))"

definition rt_mutex_detach :: "nat \<Rightarrow> kernel \<Rightarrow> (int \<times> kernel) res option" where
  "rt_mutex_detach m k =
     bindO (ipc_list_resume_all (mutex_waiters m) k) (\<lambda>k. Some (Inr (RT_EOK, taken_remove m k)))"

definition rt_mutex_delete :: "nat \<Rightarrow> kernel \<Rightarrow> (int \<times> kernel) res option" where
  "rt_mutex_delete m k =
     (if k_irq k \<noteq> 0 then Some (Inl (Assert_fail ''shall not be used in ISR''))
      else bindO (ipc_list_resume_all (mutex_waiters m) k) (\<lambda>k. Some (Inr (RT_EOK, taken_remove m k))))"

definition rt_mutex_drop_thread :: "nat \<Rightarrow> tid \<Rightarrow> kernel \<Rightarrow> kernel res option" where
  "rt_mutex_drop_thread m t k =
     (let k = tlist_remove t k in
      case mx_owner (k_mutex k m) of
        None \<Rightarrow> Some (Inl (Bad_access ''mutex->owner''))
      | Some owner \<Rightarrow>
          let need_update = (prio_of k owner = prio_of k t); k = mutex_update_priority m k in
          if need_update then owner_update_priority owner k else Some (Inr k))"

definition rt_mutex_setprioceiling :: "nat \<Rightarrow> u8 \<Rightarrow> kernel \<Rightarrow> (u8 \<times> kernel) res option" where
  "rt_mutex_setprioceiling m priority k =
     (if unat priority < RT_THREAD_PRIORITY_MAX then
        let ret_priority = mx_ceiling_priority (k_mutex k m);
            k = upd_mutex m (\<lambda>x. x\<lparr>mx_ceiling_priority := priority\<rparr>) k
        in case mx_owner (k_mutex k m) of
             None \<Rightarrow> Some (Inr (ret_priority, k))
           | Some owner \<Rightarrow> bindO (owner_update_priority owner k) (\<lambda>k. Some (Inr (ret_priority, k)))
      else Some (Inr (0xff, rt_set_errno (- RT_EINVAL) k)))"

definition rt_mutex_control :: "kernel \<Rightarrow> int \<times> kernel" where
  "rt_mutex_control k = (- RT_ERROR, k)"

definition rt_mutex_getprioceiling :: "nat \<Rightarrow> kernel \<Rightarrow> u8" where
  "rt_mutex_getprioceiling m k = mx_ceiling_priority (k_mutex k m)"

text \<open>\<^verbatim>\<open>_rt_mutex_take\<close>, first the three ways it goes: the thread has the mutex already, the mutex is free,
  another thread has it.\<close>

definition mutex_retake :: "nat \<Rightarrow> kernel \<Rightarrow> int \<times> kernel" where
  "mutex_retake m k =
     (if mx_hold (k_mutex k m) < RT_MUTEX_HOLD_MAX
      then (RT_EOK, upd_mutex m (\<lambda>x. x\<lparr>mx_hold := mx_hold x + 1\<rparr>) k) else (- RT_EFULL, k))"

definition mutex_acquire :: "nat \<Rightarrow> tid \<Rightarrow> suspend_flag \<Rightarrow> kernel \<Rightarrow> kernel res option" where
  "mutex_acquire m t sf k =
     (let k = upd_mutex m (\<lambda>x. x\<lparr>mx_owner := Some t, mx_priority := 0xff, mx_hold := 1\<rparr>) k;
          ceiling = mx_ceiling_priority (k_mutex k m)
      in bindO (if ceiling \<noteq> 0xff \<and> ceiling < prio_of k t then thread_update_priority t ceiling sf k else Some (Inr k))
           (\<lambda>k. Some (taken_insert t m k)))"

definition mutex_pass_priority :: "nat \<Rightarrow> tid \<Rightarrow> u8 \<Rightarrow> kernel \<Rightarrow> kernel res option" where
  "mutex_pass_priority m owner priority k =
     (if priority < mx_priority (k_mutex k m) then
        let k = upd_mutex m (\<lambda>x. x\<lparr>mx_priority := priority\<rparr>) k in
        if priority < prio_of k owner then thread_update_priority owner priority RT_UNINTERRUPTIBLE k else Some (Inr k)
      else Some (Inr k))"

definition mutex_wait :: "nat \<Rightarrow> tid \<Rightarrow> tid \<Rightarrow> u32 \<Rightarrow> suspend_flag \<Rightarrow> kernel \<Rightarrow> (int option \<times> kernel) res option" where
  "mutex_wait m owner t timeout sf k =
     (let priority = prio_of k t in
      case ipc_list_suspend (mutex_waiters m) t RT_IPC_FLAG_PRIO sf k of
        Inl e \<Rightarrow> Some (Inl e)
      | Inr (ret, k) \<Rightarrow>
          if ret \<noteq> RT_EOK then Some (Inr (Some ret, k))
          else let k = set_pending t (Some m) k in
            bindO (mutex_pass_priority m owner priority k) (\<lambda>k.
            Some (bindR (if sint timeout > 0 then start_thread_timer t timeout k else Inr k) (\<lambda>k.
              bindR (rt_schedule k) (\<lambda>k. Inr (None, k))))))"

definition rt_mutex_take_flag :: "nat \<Rightarrow> u32 \<Rightarrow> suspend_flag \<Rightarrow> kernel \<Rightarrow> (int option \<times> kernel) res option" where
  "rt_mutex_take_flag m timeout sf k =
     (if \<not> scheduler_available k then Some (Inl (Assert_fail ''scheduler is not available''))
      else case k_current k of
        None \<Rightarrow> Some (Inl (Bad_access ''rt_current_thread''))
      | Some t \<Rightarrow>
          let k = set_error t RT_EOK k in
          case mx_owner (k_mutex k m) of
            None \<Rightarrow> bindO (mutex_acquire m t sf k) (\<lambda>k. Some (Inr (Some RT_EOK, k)))
          | Some owner \<Rightarrow>
              if owner = t then (case mutex_retake m k of (ret, k) \<Rightarrow> Some (Inr (Some ret, k)))
              else if timeout = 0 then Some (Inr (Some (- RT_ETIMEOUT), set_error t (- RT_ETIMEOUT) k))
              else mutex_wait m owner t timeout sf k)"

definition rt_mutex_take_end :: "nat \<Rightarrow> tid \<Rightarrow> kernel \<Rightarrow> (int \<times> kernel) res option" where
  "rt_mutex_take_end m t k =
     (if th_error (k_thread k t) = RT_EOK then Some (Inr (RT_EOK, k))
      else case mx_owner (k_mutex k m) of
        None \<Rightarrow> Some (Inl (Bad_access ''mutex->owner''))
      | Some owner \<Rightarrow>
          let need_update = (prio_of k owner = prio_of k t); k = mutex_update_priority m k in
          bindO (if need_update then owner_update_priority owner k else Some (Inr k))
            (\<lambda>k. Some (Inr (th_error (k_thread k t), k))))"

definition rt_mutex_take :: "nat \<Rightarrow> u32 \<Rightarrow> kernel \<Rightarrow> (int option \<times> kernel) res option" where
  "rt_mutex_take m time k = rt_mutex_take_flag m time RT_UNINTERRUPTIBLE k"

definition rt_mutex_take_interruptible :: "nat \<Rightarrow> u32 \<Rightarrow> kernel \<Rightarrow> (int option \<times> kernel) res option" where
  "rt_mutex_take_interruptible m time k = rt_mutex_take_flag m time RT_INTERRUPTIBLE k"

definition rt_mutex_take_killable :: "nat \<Rightarrow> u32 \<Rightarrow> kernel \<Rightarrow> (int option \<times> kernel) res option" where
  "rt_mutex_take_killable m time k = rt_mutex_take_flag m time RT_KILLABLE k"

definition rt_mutex_trytake :: "nat \<Rightarrow> kernel \<Rightarrow> (int option \<times> kernel) res option" where
  "rt_mutex_trytake m k = rt_mutex_take m 0 k"

text \<open>\<^verbatim>\<open>rt_mutex_release\<close>, with the two steps of its last release: the owner gives its inherited priority
  back, and the first waiter gets the mutex.\<close>

definition mutex_disinherit :: "nat \<Rightarrow> tid \<Rightarrow> kernel \<Rightarrow> (bool \<times> kernel) res" where
  "mutex_disinherit m t k =
     (let k = taken_remove m k in
      if mx_ceiling_priority (k_mutex k m) \<noteq> 0xff \<or> prio_of k t = mx_priority (k_mutex k m)
      then bindR (change_priority t (thread_get_mutex_priority t k) k) (\<lambda>k. Inr (True, k))
      else Inr (False, k))"

definition mutex_hand_over :: "nat \<Rightarrow> kernel \<Rightarrow> (bool \<times> kernel) res" where
  "mutex_hand_over m k =
     (case k_list k (mutex_waiters m) of
        [] \<Rightarrow> Inr (False, upd_mutex m (\<lambda>x. x\<lparr>mx_owner := None, mx_priority := 0xff\<rparr>) k)
      | t # _ \<Rightarrow>
          let k = tlist_remove t k; k = upd_mutex m (\<lambda>x. x\<lparr>mx_owner := Some t, mx_hold := 1\<rparr>) k in
          bindR (taken_insert t m k) (\<lambda>k.
          bindR (rt_thread_resume t (set_pending t None k)) (\<lambda>(_, k).
          Inr (True, mutex_update_priority m k))))"

definition rt_mutex_release :: "nat \<Rightarrow> kernel \<Rightarrow> (int \<times> kernel) res" where
  "rt_mutex_release m k =
     (case k_current k of
        None \<Rightarrow> Inl (Assert_fail ''shall not be used before scheduler start'')
      | Some t \<Rightarrow>
          assertR (k_irq k = 0) ''shall not be used in ISR''
            (if mx_owner (k_mutex k m) \<noteq> Some t then Inr (- RT_ERROR, set_error t (- RT_ERROR) k)
             else
               let k = upd_mutex m (\<lambda>x. x\<lparr>mx_hold := mx_hold x - 1\<rparr>) k in
               bindR (if mx_hold (k_mutex k m) = 0 then
                        bindR (mutex_disinherit m t k) (\<lambda>(b, k). bindR (mutex_hand_over m k) (\<lambda>(b', k). Inr (b \<or> b', k)))
                      else Inr (False, k)) (\<lambda>(need_schedule, k).
               bindR (if need_schedule then rt_schedule k else Inr k) (\<lambda>k. Inr (RT_EOK, k)))))"

section \<open>Frame rules\<close>

lemma upd_mutex_simps [simp]:
  "k_thread (upd_mutex m f k) = k_thread k" "k_list (upd_mutex m f k) = k_list k" "k_taken (upd_mutex m f k) = k_taken k"
  "k_mutex (upd_mutex m f k) = (k_mutex k)(m := f (k_mutex k m))" "k_current (upd_mutex m f k) = k_current k"
  "k_irq (upd_mutex m f k) = k_irq k" "k_lock (upd_mutex m f k) = k_lock k" "k_sem (upd_mutex m f k) = k_sem k"
  "k_timer (upd_mutex m f k) = k_timer k" "k_linked (upd_mutex m f k) = k_linked k" "k_group (upd_mutex m f k) = k_group k"
  "mstat (upd_mutex m f k) = mstat k" "is_suspended (upd_mutex m f k) = is_suspended k" "k_ipc (upd_mutex m f k) = k_ipc k"
  "sched_inv X (upd_mutex m f k) = sched_inv X k" "hard_timer (upd_mutex m f k) = hard_timer k"
  by (simp_all add: upd_mutex_def mstat_def is_suspended_def hard_timer_def fun_eq_iff sched_inv_def sched_parts masked_def)

lemma set_pending_simps [simp]:
  "k_list (set_pending t p k) = k_list k" "k_taken (set_pending t p k) = k_taken k" "k_mutex (set_pending t p k) = k_mutex k"
  "k_current (set_pending t p k) = k_current k" "k_irq (set_pending t p k) = k_irq k" "k_lock (set_pending t p k) = k_lock k"
  "k_sem (set_pending t p k) = k_sem k" "k_timer (set_pending t p k) = k_timer k" "k_linked (set_pending t p k) = k_linked k"
  "k_ipc (set_pending t p k) = k_ipc k" "mstat (set_pending t p k) = mstat k" "prio_of (set_pending t p k) u = prio_of k u"
  "th_init_priority (k_thread (set_pending t p k) u) = th_init_priority (k_thread k u)"
  "th_pending (k_thread (set_pending t p k) u) = (if u = t then p else th_pending (k_thread k u))"
  "th_error (k_thread (set_pending t p k) u) = th_error (k_thread k u)"
  "sched_inv X (set_pending t p k) = sched_inv X k" "hard_timer (set_pending t p k) = hard_timer k"
  unfolding set_pending_def hard_timer_def by (subst upd_thread_inv | simp)+

lemma set_error_mutex [simp]:
  "k_mutex (set_error t e k) = k_mutex k" "k_taken (set_error t e k) = k_taken k" "k_ipc (set_error t e k) = k_ipc k"
  "th_pending (k_thread (set_error t e k) u) = th_pending (k_thread k u)"
  "th_init_priority (k_thread (set_error t e k) u) = th_init_priority (k_thread k u)"
  by (simp_all add: set_error_def)

lemma suspended_mutex [simp]:
  "k_mutex (suspended t f k) = k_mutex k" "k_taken (suspended t f k) = k_taken k" "k_ipc (suspended t f k) = k_ipc k"
  "th_pending (k_thread (suspended t f k) u) = th_pending (k_thread k u)"
  "th_init_priority (k_thread (suspended t f k) u) = th_init_priority (k_thread k u)"
  "th_error (k_thread (suspended t f k) u) = th_error (k_thread k u)"
  by (simp_all add: suspended_def set_stat_def drop_thread_def)

lemma waiting_mutex [simp]:
  "k_taken (waiting h flag t k) = k_taken k" "k_ipc (waiting h flag t k) = k_ipc k"
  by (simp_all add: waiting_def)

lemma tlist_remove_mutex [simp]:
  "k_mutex (tlist_remove t k) = k_mutex k" "k_taken (tlist_remove t k) = k_taken k" "k_ipc (tlist_remove t k) = k_ipc k"
  "is_suspended (tlist_remove t k) = is_suspended k"
  by (simp_all add: tlist_remove_def is_suspended_def fun_eq_iff)

lemma set_priority_simps [simp]:
  "k_list (set_priority t p k) = k_list k" "k_taken (set_priority t p k) = k_taken k" "k_mutex (set_priority t p k) = k_mutex k"
  "k_current (set_priority t p k) = k_current k" "k_irq (set_priority t p k) = k_irq k" "k_lock (set_priority t p k) = k_lock k"
  "k_sem (set_priority t p k) = k_sem k" "k_timer (set_priority t p k) = k_timer k" "k_linked (set_priority t p k) = k_linked k"
  "k_ipc (set_priority t p k) = k_ipc k" "mstat (set_priority t p k) = mstat k"
  "prio_of (set_priority t p k) u = (if u = t then p else prio_of k u)"
  "th_init_priority (k_thread (set_priority t p k) u) = th_init_priority (k_thread k u)"
  "th_pending (k_thread (set_priority t p k) u) = th_pending (k_thread k u)"
  "th_error (k_thread (set_priority t p k) u) = th_error (k_thread k u)"
  "is_suspended (set_priority t p k) = is_suspended k" "hard_timer (set_priority t p k) = hard_timer k"
  by (auto simp: set_priority_def mstat_def is_suspended_def hard_timer_def fun_eq_iff)

text \<open>\<^verbatim>\<open>rt_thread_control\<close> moves a ready thread to its new list, and changes only the priority of others.\<close>

lemma change_priority_eq:
  assumes inv: "sched_inv {} k" and p: "unat p < 32" and c: "mstat k t = RT_THREAD_READY \<longrightarrow> k_current k \<noteq> Some t"
  shows "\<exists>k'. change_priority t p k = Inr k' \<and> sched_inv {} k' \<and> mstat k' = mstat k \<and> k_current k' = k_current k \<and>
    sched_frame k' (set_priority t p k)"
proof (cases "mstat k t = RT_THREAD_READY")
  case False
  then show ?thesis using set_priority_inv [OF inv p, of t] by (simp add: change_priority_def)
next
  case True
  let ?k1 = "set_priority t p (drop_thread t k)"
  have i1: "sched_inv {t} ?k1"
    using drop_thread_inv [OF inv, of t] stat_masked [OF inv, of t] True p by (intro set_priority_inv) auto
  have e: "rt_schedule_insert_thread t ?k1 = Inr (enqueue t ?k1)" using c True p by (intro insert_thread_eq) simp_all
  have m: "mstat (enqueue t ?k1) = mstat k" using True by (auto simp: fun_eq_iff)
  have "sched_frame (drop_thread t k) k" using sched_frame_drop [OF inv] True ready_not_waiting by simp
  then have "sched_frame ?k1 (set_priority t p k)" by (simp add: sched_frame_def) (simp add: set_priority_def drop_thread_def)
  then have "sched_frame (enqueue t ?k1) (set_priority t p k)" using sched_frame_trans sched_frame_enqueue by blast
  then show ?thesis using True e m enqueue_inv [OF i1] remove_thread_eq [OF prio_range [OF inv, of t]]
    by (simp add: change_priority_def)
qed


section \<open>Owners, waiters and inherited priorities\<close>

definition owned_ok :: "kernel \<Rightarrow> bool" where
  "owned_ok k \<longleftrightarrow> (\<forall>m t. mx_owner (k_mutex k m) = Some t \<longleftrightarrow> m \<in> set (k_taken k t)) \<and> (\<forall>t. distinct (k_taken k t)) \<and>
     (\<forall>m. mx_linked (k_mutex k m) \<longleftrightarrow> mx_owner (k_mutex k m) \<noteq> None) \<and>
     (\<forall>m. mx_hold (k_mutex k m) = 0 \<longleftrightarrow> mx_owner (k_mutex k m) = None) \<and> (\<forall>t. unat (th_init_priority (k_thread k t)) < 32)"

definition first_priority :: "nat \<Rightarrow> kernel \<Rightarrow> u8" where
  "first_priority m k = (case k_list k (mutex_waiters m) of [] \<Rightarrow> 0xff | t # _ \<Rightarrow> prio_of k t)"

definition waits_ok :: "kernel \<Rightarrow> bool" where
  "waits_ok k \<longleftrightarrow> (\<forall>m t. th_pending (k_thread k t) = Some m \<longleftrightarrow> t \<in> set (k_list k (mutex_waiters m))) \<and>
     (\<forall>m. k_list k (mutex_waiters m) \<noteq> [] \<longrightarrow> mx_owner (k_mutex k m) \<noteq> None) \<and>
     (\<forall>m. sorted (map (prio_of k) (k_list k (mutex_waiters m)))) \<and>
     (\<forall>m. mx_priority (k_mutex k m) = first_priority m k) \<and> finite {t. th_pending (k_thread k t) \<noteq> None}"

definition inherits :: "tid set \<Rightarrow> kernel \<Rightarrow> bool" where
  "inherits X k \<longleftrightarrow> (\<forall>t. t \<notin> X \<longrightarrow> prio_of k t = thread_get_mutex_priority t k)"

text \<open>
  The invariant of the mutexes. Every thread runs at the most urgent of its own priority, the ceilings
  of the mutexes it holds, and the priorities of the threads that wait for one of them.
\<close>

definition mutex_inv :: "kernel \<Rightarrow> bool" where
  "mutex_inv k \<longleftrightarrow> sched_inv {} k \<and> owned_ok k \<and> waits_ok k \<and> inherits {} k"

lemma owned_okD:
  assumes "owned_ok k"
  shows "mx_owner (k_mutex k m) = Some t \<longleftrightarrow> m \<in> set (k_taken k t)" "distinct (k_taken k t)"
    "mx_linked (k_mutex k m) \<longleftrightarrow> mx_owner (k_mutex k m) \<noteq> None" "mx_hold (k_mutex k m) = 0 \<longleftrightarrow> mx_owner (k_mutex k m) = None"
    "unat (th_init_priority (k_thread k t)) < 32"
  using assms by (auto simp: owned_ok_def)

lemma waits_okD:
  assumes "waits_ok k"
  shows "th_pending (k_thread k t) = Some m \<longleftrightarrow> t \<in> set (k_list k (mutex_waiters m))"
    "k_list k (mutex_waiters m) \<noteq> [] \<Longrightarrow> mx_owner (k_mutex k m) \<noteq> None"
    "sorted (map (prio_of k) (k_list k (mutex_waiters m)))"
    "mx_priority (k_mutex k m) = first_priority m k" "finite {t. th_pending (k_thread k t) \<noteq> None}"
  using assms by (auto simp: waits_ok_def)

lemma mutex_waiters_simps [simp]: "mutex_waiters m = mutex_waiters m' \<longleftrightarrow> m = m'" "is_wait_list (mutex_waiters m)"
  "sem_waiters s \<noteq> mutex_waiters m" "mutex_waiters m \<noteq> sem_waiters s" "mutex_waiters m \<noteq> L_ready p"
  by (simp_all add: mutex_waiters_def is_wait_list_def sem_waiters_def)

lemma u8_le_ff [simp]: "(x :: u8) \<le> 0xff"
proof -
  have "(0xff :: u8) = - 1" by simp
  then show ?thesis by (metis word_n1_ge)
qed

lemma le_first_priority:
  assumes "sorted (map (prio_of k) (k_list k (mutex_waiters m)))"
  shows "x \<le> first_priority m k \<longleftrightarrow> (\<forall>w \<in> set (k_list k (mutex_waiters m)). x \<le> prio_of k w)"
  using assms by (cases "k_list k (mutex_waiters m)") (auto simp: first_priority_def)

lemma le_get_mutex_priority:
  "x \<le> thread_get_mutex_priority t k \<longleftrightarrow> x \<le> th_init_priority (k_thread k t) \<and>
     (\<forall>m \<in> set (k_taken k t). x \<le> mx_priority (k_mutex k m) \<and> x \<le> mx_ceiling_priority (k_mutex k m))"
proof -
  have "x \<le> foldl (\<lambda>priority m.
         let mutex_prio = mx_priority (k_mutex k m); ceiling = mx_ceiling_priority (k_mutex k m);
             mutex_prio = (if mutex_prio < ceiling then mutex_prio else ceiling)
         in if priority > mutex_prio then mutex_prio else priority) p l \<longleftrightarrow>
     x \<le> p \<and> (\<forall>m \<in> set l. x \<le> mx_priority (k_mutex k m) \<and> x \<le> mx_ceiling_priority (k_mutex k m))" for p l
    by (induction l arbitrary: p) (auto simp: Let_def)
  then show ?thesis by (simp add: thread_get_mutex_priority_def)
qed

text \<open>What a thread inherits, in terms of the threads that wait.\<close>

lemma le_inherited:
  assumes "waits_ok k"
  shows "x \<le> thread_get_mutex_priority t k \<longleftrightarrow> x \<le> th_init_priority (k_thread k t) \<and>
     (\<forall>m \<in> set (k_taken k t). x \<le> mx_ceiling_priority (k_mutex k m) \<and> (\<forall>w \<in> set (k_list k (mutex_waiters m)). x \<le> prio_of k w))"
  using waits_okD(3,4) [OF assms] le_first_priority [of k] by (auto simp: le_get_mutex_priority)

lemma priority_eqI: "(\<And>x. x \<le> a \<longleftrightarrow> x \<le> b) \<Longrightarrow> (a :: u8) = b"
  by (metis order.antisym order.refl)

lemma mutex_inv_frame:
  assumes f: "sched_frame k' k" and i: "sched_inv {} k'"
  shows "mutex_inv k' \<longleftrightarrow> sched_inv {} k' \<and> owned_ok k \<and> waits_ok k \<and> inherits {} k" "owned_ok k' = owned_ok k" "waits_ok k' = waits_ok k"
    "inherits X k' = inherits X k" "thread_get_mutex_priority t k' = thread_get_mutex_priority t k"
proof -
  note F = sched_frameD [OF f]
  show 1: "owned_ok k' = owned_ok k" by (simp add: owned_ok_def F)
  have "first_priority m k' = first_priority m k" for m by (simp add: first_priority_def mutex_waiters_def F split: list.split)
  then show 2: "waits_ok k' = waits_ok k" by (simp add: waits_ok_def F) (simp add: mutex_waiters_def F)
  show 3: "thread_get_mutex_priority t k' = thread_get_mutex_priority t k" for t by (simp add: thread_get_mutex_priority_def F)
  show 4: "inherits X k' = inherits X k" for X by (simp add: inherits_def F 3)
  show "mutex_inv k' \<longleftrightarrow> sched_inv {} k' \<and> owned_ok k \<and> waits_ok k \<and> inherits {} k" by (simp add: mutex_inv_def 1 2 4)
qed


section \<open>Raising a priority along the chain of owners\<close>

lemma suspended_free:
  assumes inv: "sched_inv {t} k" and b: "bit (mstat k t) 2"
  shows "sched_inv {} k"
proof -
  have "set_stat t (stat_of k t) k = k" by (simp add: set_stat_def upd_thread_def)
  moreover have "stat_of k t AND RT_THREAD_STAT_MASK \<noteq> RT_THREAD_READY" "stat_of k t AND RT_THREAD_STAT_MASK \<noteq> RT_THREAD_RUNNING"
    using b ready_not_waiting unfolding mstat_def by metis+
  ultimately show ?thesis using park_inv [OF inv, of "stat_of k t"] by simp
qed

text \<open>A waiting thread with a new priority, put in its new place among the waiters.\<close>

definition requeued :: "tid \<Rightarrow> u8 \<Rightarrow> nat \<Rightarrow> kernel \<Rightarrow> kernel" where
  "requeued t p m k =
     mutex_update_priority m (waiting (mutex_waiters m) RT_IPC_FLAG_PRIO t (tlist_remove t (set_priority t p k)))"

lemma mutex_update_priority_simps [simp]:
  "k_thread (mutex_update_priority m k) = k_thread k" "k_list (mutex_update_priority m k) = k_list k"
  "k_taken (mutex_update_priority m k) = k_taken k" "k_current (mutex_update_priority m k) = k_current k"
  "k_irq (mutex_update_priority m k) = k_irq k" "k_lock (mutex_update_priority m k) = k_lock k"
  "k_mutex (mutex_update_priority m k) = (k_mutex k)(m := (k_mutex k m)\<lparr>mx_priority := first_priority m k\<rparr>)"
  "mstat (mutex_update_priority m k) = mstat k" "sched_inv X (mutex_update_priority m k) = sched_inv X k"
  "k_ipc (mutex_update_priority m k) = k_ipc k" "k_sem (mutex_update_priority m k) = k_sem k" "k_timer (mutex_update_priority m k) = k_timer k"
  "first_priority m' (mutex_update_priority m k) = first_priority m' k" "hard_timer (mutex_update_priority m k) = hard_timer k"
  by (simp_all add: mutex_update_priority_def first_priority_def split: list.split)

lemma requeued_simps [simp]:
  "k_current (requeued t p m k) = k_current k" "k_irq (requeued t p m k) = k_irq k" "k_lock (requeued t p m k) = k_lock k"
  "mstat (requeued t p m k) = mstat k" "prio_of (requeued t p m k) u = (if u = t then p else prio_of k u)"
  "th_pending (k_thread (requeued t p m k) u) = th_pending (k_thread k u)"
  "th_init_priority (k_thread (requeued t p m k) u) = th_init_priority (k_thread k u)"
  "th_error (k_thread (requeued t p m k) u) = th_error (k_thread k u)" "k_taken (requeued t p m k) = k_taken k"
  "mx_owner (k_mutex (requeued t p m k) m') = mx_owner (k_mutex k m')" "mx_hold (k_mutex (requeued t p m k) m') = mx_hold (k_mutex k m')"
  "mx_ceiling_priority (k_mutex (requeued t p m k) m') = mx_ceiling_priority (k_mutex k m')"
  "mx_linked (k_mutex (requeued t p m k) m') = mx_linked (k_mutex k m')"
  "k_ipc (requeued t p m k) = k_ipc k" "k_sem (requeued t p m k) = k_sem k" "hard_timer (requeued t p m k) = hard_timer k"
  by (simp_all add: requeued_def) (simp add: hard_timer_def fun_eq_iff tlist_remove_def set_priority_def)

lemma requeue_eq:
  assumes inv: "sched_inv {} k" and b: "bit (mstat k t) 2" and p: "unat p < 32"
  shows "\<exists>k2. ipc_list_suspend (mutex_waiters m) t RT_IPC_FLAG_PRIO sf (tlist_remove t (set_priority t p k)) = Inr (RT_EOK, k2) \<and>
    mutex_update_priority m k2 = requeued t p m k" and "sched_inv {} (requeued t p m k)"
proof -
  let ?k1 = "tlist_remove t (set_priority t p k)"
  have i0: "sched_inv {} (set_priority t p k)" using inv p b ready_not_waiting by (intro set_priority_inv) auto
  have i1: "sched_inv {} ?k1" using i0 b tlist_remove_inv [of "set_priority t p k" t] by (intro suspended_free [of t]) simp_all
  have s: "is_suspended ?k1 t" using b by (simp add: suspended_mstat)
  have "ipc_list_suspend (mutex_waiters m) t RT_IPC_FLAG_PRIO sf ?k1 = Inr (RT_EOK, waiting (mutex_waiters m) RT_IPC_FLAG_PRIO t ?k1)"
    using s queue_eq [OF i1, where t = t and flag = RT_IPC_FLAG_PRIO and h = "mutex_waiters m"] by (simp add: ipc_list_suspend_def)
  then show "\<exists>k2. ipc_list_suspend (mutex_waiters m) t RT_IPC_FLAG_PRIO sf ?k1 = Inr (RT_EOK, k2) \<and> mutex_update_priority m k2 = requeued t p m k"
    by (simp add: requeued_def)
  show "sched_inv {} (requeued t p m k)"
    unfolding requeued_def using i1 b waiting_inv [OF i1, of "mutex_waiters m" t RT_IPC_FLAG_PRIO] by simp
qed

lemma requeued_waiters:
  assumes inv: "sched_inv {} k" and t: "t \<in> set (k_list k (mutex_waiters m))"
  shows "set (k_list (requeued t p m k) (mutex_waiters m')) = set (k_list k (mutex_waiters m'))"
    and "m' \<noteq> m \<Longrightarrow> k_list (requeued t p m k) (mutex_waiters m') = k_list k (mutex_waiters m')"
    and "sorted (map (prio_of k) (k_list k (mutex_waiters m))) \<Longrightarrow>
      sorted (map (prio_of (requeued t p m k)) (k_list (requeued t p m k) (mutex_waiters m)))"
proof -
  let ?k1 = "tlist_remove t (set_priority t p k)" and ?l = "k_list k (mutex_waiters m)"
  have ok: "lists_ok (k_list k)" using inv by (simp add: sched_inv_def links_ok_def)
  have l: "k_list (requeued t p m k) h = (if h = mutex_waiters m then queued ?k1 RT_IPC_FLAG_PRIO t (removeAll t ?l) else removeAll t (k_list k h))" for h
    by (simp add: requeued_def list_remove_def)
  have o: "removeAll t (k_list k h) = k_list k h" if "h \<noteq> mutex_waiters m" for h
    using ok t that unfolding lists_ok_def by (metis removeAll_id)
  show "set (k_list (requeued t p m k) (mutex_waiters m')) = set (k_list k (mutex_waiters m'))"
    using t o unfolding l by (auto simp: queued_set)
  show "k_list (requeued t p m k) (mutex_waiters m') = k_list k (mutex_waiters m')" if "m' \<noteq> m" using that o by (simp add: l)
  have pr: "prio_of (requeued t p m k) = prio_of ?k1" by (simp add: fun_eq_iff)
  assume "sorted (map (prio_of k) ?l)"
  then have "sorted (map (prio_of k) (removeAll t ?l))" by (rule sorted_removeAll)
  moreover have "map (prio_of ?k1) (removeAll t ?l) = map (prio_of k) (removeAll t ?l)" by (rule map_cong) simp_all
  ultimately have "sorted (map (prio_of ?k1) (removeAll t ?l))" by metis
  then have "sorted (map (prio_of ?k1) (queued ?k1 RT_IPC_FLAG_PRIO t (removeAll t ?l)))" by (rule queued_by_priority)
  then show "sorted (map (prio_of (requeued t p m k)) (k_list (requeued t p m k) (mutex_waiters m)))"
    unfolding l pr by (simp only: refl if_True)
qed

lemma requeued_ok:
  assumes inv: "sched_inv {} k" and o: "owned_ok k" and w: "waits_ok k" and t: "th_pending (k_thread k t) = Some m"
  shows "owned_ok (requeued t p m k)" "waits_ok (requeued t p m k)"
proof -
  have tm: "t \<in> set (k_list k (mutex_waiters m))" using waits_okD(1) [OF w] t by simp
  note R = requeued_waiters [OF inv tm, where p = p]
  show "owned_ok (requeued t p m k)" using o by (simp add: owned_ok_def)
  have nt: "t \<notin> set (k_list k (mutex_waiters m'))" if "m' \<noteq> m" for m' using waits_okD(1) [OF w, of t m'] t that by simp
  have "sorted (map (prio_of (requeued t p m k)) (k_list (requeued t p m k) (mutex_waiters m')))" for m'
  proof (cases "m' = m")
    case False
    then have "map (prio_of (requeued t p m k)) (k_list k (mutex_waiters m')) = map (prio_of k) (k_list k (mutex_waiters m'))"
      using nt by (intro map_cong) auto
    then show ?thesis using R(2) [OF False] waits_okD(3) [OF w, of m'] by metis
  qed (use R(3) waits_okD(3) [OF w] in simp)
  moreover have "mx_priority (k_mutex (requeued t p m k) m') = first_priority m' (requeued t p m k)" for m'
  proof (cases "m' = m")
    case False
    then have "mx_priority (k_mutex (requeued t p m k) m') = first_priority m' k" using waits_okD(4) [OF w, of m'] by (simp add: requeued_def)
    also have "\<dots> = first_priority m' (requeued t p m k)"
      using nt [OF False] by (auto simp: first_priority_def R(2) [OF False] split: list.split)
    finally show ?thesis .
  qed (simp add: requeued_def)
  moreover have "k_list (requeued t p m k) (mutex_waiters m') = [] \<longleftrightarrow> k_list k (mutex_waiters m') = []" for m'
    using R(1) [of m'] by (metis set_empty)
  ultimately show "waits_ok (requeued t p m k)" using waits_okD(1,2,5) [OF w] R(1) unfolding waits_ok_def by simp
qed


text \<open>What raising priorities leaves alone.\<close>

definition raise_frame :: "kernel \<Rightarrow> kernel \<Rightarrow> bool" where
  "raise_frame k' k \<longleftrightarrow> mstat k' = mstat k \<and> k_current k' = k_current k \<and> k_irq k' = k_irq k \<and> k_lock k' = k_lock k \<and>
     k_taken k' = k_taken k \<and> k_sem k' = k_sem k \<and> k_ipc k' = k_ipc k \<and> hard_timer k' = hard_timer k \<and>
     (\<forall>m. mx_owner (k_mutex k' m) = mx_owner (k_mutex k m) \<and> mx_hold (k_mutex k' m) = mx_hold (k_mutex k m) \<and>
        mx_ceiling_priority (k_mutex k' m) = mx_ceiling_priority (k_mutex k m) \<and>
        set (k_list k' (mutex_waiters m)) = set (k_list k (mutex_waiters m))) \<and>
     (\<forall>u. th_pending (k_thread k' u) = th_pending (k_thread k u) \<and> th_error (k_thread k' u) = th_error (k_thread k u) \<and>
        th_init_priority (k_thread k' u) = th_init_priority (k_thread k u) \<and> prio_of k' u \<le> prio_of k u)"

lemma raise_frame_trans: "raise_frame k2 k1 \<Longrightarrow> raise_frame k1 k \<Longrightarrow> raise_frame k2 k"
  unfolding raise_frame_def by (auto intro: order_trans)

lemma raise_frame_requeued:
  assumes "sched_inv {} k" "t \<in> set (k_list k (mutex_waiters m))" "p \<le> prio_of k t"
  shows "raise_frame (requeued t p m k) k"
  using assms requeued_waiters(1) [OF assms(1,2)] by (simp add: raise_frame_def)

lemma raise_frame_priority:
  assumes f: "sched_frame k' (set_priority t p k)" and m: "mstat k' = mstat k" and c: "k_current k' = k_current k" and p: "p \<le> prio_of k t"
  shows "raise_frame k' k"
  using m c p sched_frameD [OF f] unfolding raise_frame_def by (auto simp: mutex_waiters_def hard_timer_def fun_eq_iff)

lemma set_priority_ok:
  assumes o: "owned_ok k" and w: "waits_ok k" and n: "th_pending (k_thread k t) = None"
  shows "owned_ok (set_priority t p k)" "waits_ok (set_priority t p k)"
    "thread_get_mutex_priority u (set_priority t p k) = thread_get_mutex_priority u k"
proof -
  have nt: "t \<notin> set (k_list k (mutex_waiters m))" for m using waits_okD(1) [OF w, of t m] n by simp
  then have "map (prio_of (set_priority t p k)) (k_list k (mutex_waiters m)) = map (prio_of k) (k_list k (mutex_waiters m))" for m
    by (intro map_cong) auto
  then have s: "sorted (map (prio_of (set_priority t p k)) (k_list k (mutex_waiters m)))" for m using waits_okD(3) [OF w, of m] by metis
  have f: "first_priority m (set_priority t p k) = first_priority m k" for m
    using nt [of m] by (auto simp: first_priority_def split: list.split)
  show "waits_ok (set_priority t p k)" using w s unfolding waits_ok_def f set_priority_simps by blast
  show "owned_ok (set_priority t p k)" using o by (simp add: owned_ok_def)
  show "thread_get_mutex_priority u (set_priority t p k) = thread_get_mutex_priority u k" by (simp add: thread_get_mutex_priority_def)
qed

lemma raised_chain_end:
  assumes o: "owned_ok k" and w: "waits_ok k" and h: "inherits {t} k" and p: "p = thread_get_mutex_priority t k"
    and n: "th_pending (k_thread k t) = None" and f: "sched_frame k1 (set_priority t p k)" and i: "sched_inv {} k1"
  shows "mutex_inv k1"
proof -
  have "inherits {} (set_priority t p k)"
    using h p by (simp add: inherits_def set_priority_ok(3) [OF o w n])
  then show ?thesis using mutex_inv_frame(1) [OF f i] set_priority_ok(1,2) [OF o w n] i by simp
qed

text \<open>One step along the chain: the owner of the mutex now inherits \<open>p\<close>.\<close>

lemma raise_step:
  assumes inv: "sched_inv {} k" and o: "owned_ok k" and w: "waits_ok k" and h: "inherits {t} k"
    and p: "p = thread_get_mutex_priority t k" and pt: "p < prio_of k t" and m: "th_pending (k_thread k t) = Some m"
    and ow: "mx_owner (k_mutex k m) = Some ow"
  shows "inherits {ow} (requeued t p m k)"
    and "thread_get_mutex_priority ow (requeued t p m k) \<noteq> prio_of (requeued t p m k) ow \<Longrightarrow>
      thread_get_mutex_priority ow (requeued t p m k) = p \<and> p < prio_of (requeued t p m k) ow \<and> ow \<noteq> t"
proof -
  let ?k3 = "requeued t p m k"
  have tm: "t \<in> set (k_list k (mutex_waiters m))" using waits_okD(1) [OF w] m by simp
  have mo: "m \<in> set (k_taken k u) \<longleftrightarrow> u = ow" for u using owned_okD(1) [OF o, of m u] ow by auto
  note R = requeued_waiters(1) [OF inv tm, where p = p] and w3 = requeued_ok(2) [OF inv o w m, where p = p]
  have g3: "x \<le> thread_get_mutex_priority u ?k3 \<longleftrightarrow> x \<le> th_init_priority (k_thread k u) \<and> (\<forall>m' \<in> set (k_taken k u).
      x \<le> mx_ceiling_priority (k_mutex k m') \<and> (\<forall>w \<in> set (k_list k (mutex_waiters m')). x \<le> (if w = t then p else prio_of k w)))" for x u
    by (simp add: le_inherited [OF w3] R)
  have only: "t \<in> set (k_list k (mutex_waiters m')) \<longleftrightarrow> m' = m" for m' using waits_okD(1) [OF w, of t m'] m by auto
  have other: "thread_get_mutex_priority u ?k3 = thread_get_mutex_priority u k" if "u \<noteq> ow" for u
  proof (rule priority_eqI)
    fix x
    have "w \<noteq> t" if "m' \<in> set (k_taken k u)" "w \<in> set (k_list k (mutex_waiters m'))" for m' w
      using that \<open>u \<noteq> ow\<close> mo [of u] only [of m'] by auto
    then show "x \<le> thread_get_mutex_priority u ?k3 \<longleftrightarrow> x \<le> thread_get_mutex_priority u k"
      unfolding g3 le_inherited [OF w] by auto
  qed
  show "inherits {ow} ?k3" using h other p by (auto simp: inherits_def)
  let ?g = "thread_get_mutex_priority ow ?k3"
  note G = iffD1 [OF g3 order.refl, of ow]
  have "?g \<le> (if t = t then p else prio_of k t)" using G mo [of ow] tm by blast
  then have gp: "?g \<le> p" by simp
  have "(if w = t then p else prio_of k w) \<le> prio_of k w" for w using pt by auto
  then have gg: "?g \<le> thread_get_mutex_priority ow k" using G unfolding le_inherited [OF w] by (meson order.trans)
  have pg: "?g = thread_get_mutex_priority ow k" if "?g < p"
  proof (rule ccontr)
    assume ne: "?g \<noteq> thread_get_mutex_priority ow k"
    then have lt: "?g < min p (thread_get_mutex_priority ow k)" using gg that by simp
    have "min p (thread_get_mutex_priority ow k) \<le> thread_get_mutex_priority ow k" by simp
    then have "min p (thread_get_mutex_priority ow k) \<le> ?g" unfolding g3 le_inherited [OF w] by auto
    then show False using lt by (meson leD)
  qed
  assume ne: "?g \<noteq> prio_of ?k3 ow"
  have "ow \<noteq> t"
  proof
    assume "ow = t"
    then show False using ne gp pg p by (cases "?g < p") auto
  qed
  moreover from this have pk: "prio_of ?k3 ow = thread_get_mutex_priority ow k" using h by (simp add: inherits_def)
  then have "?g = p" using ne pg gp by (cases "?g < p") auto
  ultimately show "?g = p \<and> p < prio_of ?k3 ow \<and> ow \<noteq> t" using ne pk gg by auto
qed


theorem thread_update_priority_raises:
  assumes "sched_inv {} k" "owned_ok k" "waits_ok k" "inherits {t} k" "p = thread_get_mutex_priority t k" "p < prio_of k t"
    "k_current k = Some c" "mstat k c \<noteq> RT_THREAD_READY"
  shows "\<exists>k'. thread_update_priority t p sf k = Some (Inr k') \<and> mutex_inv k' \<and> raise_frame k' k"
  using assms
proof (induction "card {u. th_pending (k_thread k u) \<noteq> None \<and> p < prio_of k u}" arbitrary: t k rule: less_induct)
  case less
  note inv = less.prems(1) and o = less.prems(2) and w = less.prems(3) and h = less.prems(4) and p = less.prems(5)
    and pt = less.prems(6) and c = less.prems(7,8)
  have p32: "unat p < 32" using prio_range [OF inv, of t] pt by (simp add: word_less_nat_alt)
  obtain k1 where k1: "change_priority t p k = Inr k1" "sched_inv {} k1" "mstat k1 = mstat k" "k_current k1 = k_current k"
    "sched_frame k1 (set_priority t p k)" using change_priority_eq [OF inv p32, of t] c by auto
  have rf: "raise_frame k1 k" using raise_frame_priority [OF k1(5,3,4)] pt by simp
  have pend: "th_pending (k_thread k1 t) = th_pending (k_thread k t)" "is_suspended k1 t \<longleftrightarrow> bit (mstat k t) 2"
    using sched_frameD(14) [OF k1(5)] k1(3) by (simp_all add: suspended_mstat)
  show ?case
  proof (cases "bit (mstat k t) 2 \<and> th_pending (k_thread k t) \<noteq> None")
    case False
    then have n: "th_pending (k_thread k t) = None"
      using waits_okD(1) [OF w, of t] waiting_bit(1) [OF inv, of t]
      by (cases "th_pending (k_thread k t)") (auto simp: mutex_waiters_def)
    then have "thread_update_priority t p sf k = Some (Inr k1)"
      using k1(1) pend by (subst thread_update_priority.simps) simp
    then show ?thesis using raised_chain_end [OF o w h p n k1(5,2)] rf by blast
  next
    case True
    then obtain m where b: "bit (mstat k t) 2" and m: "th_pending (k_thread k t) = Some m" by auto
    let ?k3 = "requeued t p m k"
    have tm: "t \<in> set (k_list k (mutex_waiters m))" using waits_okD(1) [OF w] m by simp
    then obtain ow where ow: "mx_owner (k_mutex k m) = Some ow" using waits_okD(2) [OF w, of m] by fastforce
    note S = raise_step [OF inv o w h p pt m ow]
    have i3: "sched_inv {} ?k3" "owned_ok ?k3" "waits_ok ?k3" using requeue_eq(2) [OF inv b p32] requeued_ok [OF inv o w m] by auto
    have f3: "raise_frame ?k3 k" using raise_frame_requeued [OF inv tm] pt by simp
    obtain k2 where k2: "ipc_list_suspend (mutex_waiters m) t RT_IPC_FLAG_PRIO sf (tlist_remove t (set_priority t p k)) = Inr (RT_EOK, k2)"
      "mutex_update_priority m k2 = ?k3" using requeue_eq(1) [OF inv b p32, of m sf] by blast
    have "mx_owner (k_mutex (mutex_update_priority m k2) m) = Some ow" using ow k2(2) by simp
    then have ow2: "mx_owner (k_mutex k2 m) = Some ow" by simp
    have "change_priority t p k = Inr (set_priority t p k)" using b ready_not_waiting by (auto simp: change_priority_def)
    then have e: "thread_update_priority t p sf k =
        (if thread_get_mutex_priority ow ?k3 \<noteq> prio_of ?k3 ow
         then thread_update_priority ow (thread_get_mutex_priority ow ?k3) sf ?k3 else Some (Inr ?k3))"
      using b m ow2 k2 by (subst thread_update_priority.simps) (simp add: suspended_mstat Let_def)
    show ?thesis
    proof (cases "thread_get_mutex_priority ow ?k3 = prio_of ?k3 ow")
      case True
      then have "inherits {} ?k3" using S(1) unfolding inherits_def by (metis singletonD)
      then show ?thesis using e True i3 f3 by (auto simp: mutex_inv_def)
    next
      case False
      note s = S(2) [OF False]
      have "{u. th_pending (k_thread ?k3 u) \<noteq> None \<and> p < prio_of ?k3 u} \<subset> {u. th_pending (k_thread k u) \<noteq> None \<and> p < prio_of k u}"
        using m pt by (auto split: if_splits)
      moreover have "finite {u. th_pending (k_thread k u) \<noteq> None \<and> p < prio_of k u}"
        using waits_okD(5) [OF w] by (rule finite_subset [rotated]) auto
      ultimately have lt: "card {u. th_pending (k_thread ?k3 u) \<noteq> None \<and> p < prio_of ?k3 u} < card {u. th_pending (k_thread k u) \<noteq> None \<and> p < prio_of k u}"
        by (rule psubset_card_mono [rotated])
      have "p = thread_get_mutex_priority ow ?k3" "p < prio_of ?k3 ow" using s by auto
      moreover have "k_current ?k3 = Some c" "mstat ?k3 c \<noteq> RT_THREAD_READY" using c by simp_all
      ultimately obtain k' where "thread_update_priority ow p sf ?k3 = Some (Inr k')" "mutex_inv k'" "raise_frame k' ?k3"
        using less.hyps [OF lt i3 S(1)] by blast
      then show ?thesis using e False s raise_frame_trans f3 by metis
    qed
  qed
qed

end
