(* ===== verification/Rt_Mutex_Ops.thy ===== *)
theory Rt_Mutex_Ops
  imports Rt_Mutex
begin

text \<open>
  What \<^verbatim>\<open>rt_mutex_take\<close> and \<^verbatim>\<open>rt_mutex_release\<close> do on every branch, and that they keep \<open>mutex_inv\<close>: the
  owner inherits the priority of the threads that wait, gives it back with the mutex, and the first
  waiter gets the mutex. A wait that times out can find no owner.
\<close>

section \<open>Taking a mutex\<close>

lemma mutex_cong:
  assumes "k_mutex k' = k_mutex k" "k_taken k' = k_taken k" "\<And>m. k_list k' (mutex_waiters m) = k_list k (mutex_waiters m)"
    "\<And>u. prio_of k' u = prio_of k u" "\<And>u. th_pending (k_thread k' u) = th_pending (k_thread k u)"
    "\<And>u. th_init_priority (k_thread k' u) = th_init_priority (k_thread k u)"
  shows "owned_ok k' = owned_ok k" "waits_ok k' = waits_ok k" "inherits X k' = inherits X k"
    "thread_get_mutex_priority t k' = thread_get_mutex_priority t k"
proof -
  show "owned_ok k' = owned_ok k" by (simp add: owned_ok_def assms)
  have "first_priority m k' = first_priority m k" for m by (simp add: first_priority_def assms split: list.split)
  then show "waits_ok k' = waits_ok k" by (simp add: waits_ok_def assms)
  show 3: "thread_get_mutex_priority t k' = thread_get_mutex_priority t k" for t by (simp add: thread_get_mutex_priority_def assms)
  show "inherits X k' = inherits X k" by (simp add: inherits_def assms 3)
qed

lemma armed_mutex [simp]:
  "k_mutex (armed t n k) = k_mutex k" "k_taken (armed t n k) = k_taken k" "k_ipc (armed t n k) = k_ipc k"
  by (simp_all add: armed_def)

lemma armed_mutex_inv [simp]: "mutex_inv (armed t n k) = mutex_inv k"
  unfolding mutex_inv_def by (subst mutex_cong [of "armed t n k" k], simp_all)+

lemma error_mutex_inv [simp]:
  "owned_ok (set_error t e k) = owned_ok k" "waits_ok (set_error t e k) = waits_ok k" "inherits X (set_error t e k) = inherits X k"
  "thread_get_mutex_priority u (set_error t e k) = thread_get_mutex_priority u k" "mutex_inv (set_error t e k) = mutex_inv k"
proof -
  note C = mutex_cong [of "set_error t e k" k]
  show *: "owned_ok (set_error t e k) = owned_ok k" "waits_ok (set_error t e k) = waits_ok k" "inherits X (set_error t e k) = inherits X k" for X
    using C by simp_all
  show "thread_get_mutex_priority u (set_error t e k) = thread_get_mutex_priority u k" using C by simp
  show "mutex_inv (set_error t e k) = mutex_inv k" by (simp add: mutex_inv_def *)
qed

text \<open>The caller among the waiters, before the priorities are passed on.\<close>

definition joined :: "nat \<Rightarrow> tid \<Rightarrow> suspend_flag \<Rightarrow> kernel \<Rightarrow> kernel" where
  "joined m c sf k = set_pending c (Some m) (waiting (mutex_waiters m) RT_IPC_FLAG_PRIO c (suspended c sf k))"

lemma joined_simps [simp]:
  "k_current (joined m c sf k) = k_current k" "k_irq (joined m c sf k) = k_irq k" "k_lock (joined m c sf k) = k_lock k"
  "k_mutex (joined m c sf k) = k_mutex k" "k_taken (joined m c sf k) = k_taken k" "prio_of (joined m c sf k) u = prio_of k u"
  "th_pending (k_thread (joined m c sf k) u) = (if u = c then Some m else th_pending (k_thread k u))"
  "th_init_priority (k_thread (joined m c sf k) u) = th_init_priority (k_thread k u)"
  "th_error (k_thread (joined m c sf k) u) = th_error (k_thread k u)" "hard_timer (joined m c sf k) i = hard_timer k i"
  "mstat (joined m c sf k) u = (if u = c then suspend_stat sf else mstat k u)"
  "k_sem (joined m c sf k) = k_sem k" "k_ipc (joined m c sf k) = k_ipc k"
  by (simp_all add: joined_def)

lemma joined_list:
  assumes "sched_inv {} k" "mstat k c = RT_THREAD_RUNNING"
  shows "k_list (joined m c sf k) h = (if h = mutex_waiters m then queued k RT_IPC_FLAG_PRIO c (k_list k h) else k_list k h)"
proof -
  have "c \<notin> set (k_list k h)" for h using running_free [OF assms] by (simp add: placed_def)
  then show ?thesis by (simp add: joined_def list_remove_def) (simp add: queued_def)
qed

lemma joined_ok:
  assumes i: "mutex_inv k" and c: "k_current k = Some c" "mstat k c = RT_THREAD_RUNNING" and ow: "mx_owner (k_mutex k m) = Some ow" "ow \<noteq> c"
  shows "mutex_update_priority m (joined m c sf k) =
      (if prio_of k c < mx_priority (k_mutex k m) then upd_mutex m (\<lambda>x. x\<lparr>mx_priority := prio_of k c\<rparr>) (joined m c sf k) else joined m c sf k)"
    and "sched_inv {} (joined m c sf k)" "owned_ok (mutex_update_priority m (joined m c sf k))"
    and "waits_ok (mutex_update_priority m (joined m c sf k))" "inherits {ow} (mutex_update_priority m (joined m c sf k))"
    and "thread_get_mutex_priority ow (mutex_update_priority m (joined m c sf k)) = min (prio_of k ow) (prio_of k c)"
proof -
  let ?j = "joined m c sf k" and ?l = "k_list k (mutex_waiters m)"
  let ?k = "mutex_update_priority m ?j"
  have inv: "sched_inv {} k" and o: "owned_ok k" and w: "waits_ok k" and h: "inherits {} k" using i by (auto simp: mutex_inv_def)
  note L = joined_list [OF inv c(2), of m sf]
  have sl: "set (k_list ?j (mutex_waiters m')) = (if m' = m then insert c (set ?l) else set (k_list k (mutex_waiters m')))" for m'
    by (simp add: L queued_set)
  have pe: "prio_of ?j = prio_of k" by (simp add: fun_eq_iff)
  have so: "sorted (map (prio_of ?j) (k_list ?j (mutex_waiters m')))" for m'
    unfolding pe L using waits_okD(3) [OF w] queued_by_priority by simp
  have fp: "first_priority m ?j = min (prio_of k c) (mx_priority (k_mutex k m))"
  proof (rule priority_eqI)
    fix x show "x \<le> first_priority m ?j \<longleftrightarrow> x \<le> min (prio_of k c) (mx_priority (k_mutex k m))"
      using le_first_priority [OF so, of x m] le_first_priority [OF waits_okD(3) [OF w], of x m] waits_okD(4) [OF w, of m]
      by (simp add: sl)
  qed
  have "upd_mutex m (\<lambda>x. x\<lparr>mx_priority := first_priority m ?j\<rparr>) ?j = ?j" if "\<not> prio_of k c < mx_priority (k_mutex k m)"
    using that by (simp add: fp upd_mutex_def min_def)
  moreover have m_eq: "mutex_update_priority m ?j = upd_mutex m (\<lambda>x. x\<lparr>mx_priority := first_priority m ?j\<rparr>) ?j"
    by (simp add: mutex_update_priority_def first_priority_def)
  ultimately show "?k = (if prio_of k c < mx_priority (k_mutex k m) then upd_mutex m (\<lambda>x. x\<lparr>mx_priority := prio_of k c\<rparr>) ?j else ?j)"
    by (simp add: fp min_def)
  show "sched_inv {} ?j" using ipc_list_suspend_eq(2) [OF inv c, of "mutex_waiters m" RT_IPC_FLAG_PRIO sf] by (simp add: joined_def)
  show "owned_ok ?k" using o by (simp add: owned_ok_def)
  have fo: "first_priority m' ?j = first_priority m' k" if "m' \<noteq> m" for m'
    using that by (simp add: first_priority_def L split: list.split)
  have "finite {t. th_pending (k_thread ?j t) \<noteq> None}"
    using waits_okD(5) [OF w] by (rule finite_subset [rotated, OF finite.insertI [where a = c]]) auto
  moreover have "(th_pending (k_thread ?j t) = Some m') = (t \<in> set (k_list ?j (mutex_waiters m')))" for t m'
  proof -
    have "c \<notin> set (k_list k (mutex_waiters m'))" using running_free [OF inv c(2)] by (simp add: placed_def)
    then show ?thesis using waits_okD(1) [OF w, of t m'] by (auto simp: sl)
  qed
  moreover have "mx_priority (k_mutex ?k m') = first_priority m' ?k" for m' using waits_okD(4) [OF w, of m'] fo by simp
  moreover have "mx_owner (k_mutex ?j m') \<noteq> None" if "k_list ?j (mutex_waiters m') \<noteq> []" for m'
    using that ow waits_okD(2) [OF w, of m'] by (cases "m' = m") (simp_all add: L)
  ultimately show wk: "waits_ok ?k" using so unfolding waits_ok_def by simp
  have mo: "m \<in> set (k_taken k u) \<longleftrightarrow> u = ow" for u using owned_okD(1) [OF o, of m u] ow by auto
  have g: "x \<le> thread_get_mutex_priority u ?k \<longleftrightarrow> x \<le> prio_of k u \<and> (u = ow \<longrightarrow> x \<le> prio_of k c)" for x u
  proof -
    have "x \<le> prio_of k u \<longleftrightarrow> x \<le> thread_get_mutex_priority u k" using h by (simp add: inherits_def)
    then show ?thesis unfolding le_inherited [OF wk] le_inherited [OF w] using mo [of u] by (auto simp: sl)
  qed
  show "inherits {ow} ?k" unfolding inherits_def by (auto intro!: priority_eqI simp: g)
  show "thread_get_mutex_priority ow ?k = min (prio_of k ow) (prio_of k c)" by (rule priority_eqI) (simp add: g)
qed


lemma raise_frame_refl [simp]: "raise_frame k k"
  by (simp add: raise_frame_def)

lemma inherits_owner:
  assumes "inherits {ow} k" "thread_get_mutex_priority ow k = prio_of k ow"
  shows "inherits {} k"
  using assms unfolding inherits_def by (metis singletonD)

text \<open>The priority of the caller reaches every thread that keeps it waiting.\<close>

lemma mutex_wait_raises:
  fixes sf :: suspend_flag
  assumes i: "mutex_inv k" and c: "k_current k = Some c" "mstat k c = RT_THREAD_RUNNING" and ow: "mx_owner (k_mutex k m) = Some ow" "ow \<noteq> c"
  defines "j \<equiv> joined m c sf k"
  shows "\<exists>k'. mutex_pass_priority m ow (prio_of k c) j = Some (Inr k') \<and> mutex_inv k' \<and> raise_frame k' (mutex_update_priority m j)"
proof -
  note J = joined_ok [OF i c ow, of sf, folded j_def]
  let ?K = "mutex_update_priority m j"
  have pk: "prio_of ?K u = prio_of k u" for u by (simp add: j_def)
  have iK: "sched_inv {} ?K" using J(2) by simp
  have le: "prio_of k ow \<le> mx_priority (k_mutex k m)"
  proof -
    have "prio_of k ow \<le> thread_get_mutex_priority ow k" using i by (simp add: mutex_inv_def inherits_def)
    moreover have "m \<in> set (k_taken k ow)" using i ow owned_okD(1) by (auto simp: mutex_inv_def)
    ultimately show ?thesis unfolding le_get_mutex_priority by blast
  qed
  show ?thesis
  proof (cases "prio_of k c < prio_of k ow")
    case True
    then have lt: "prio_of k c < mx_priority (k_mutex k m)" using le by simp
    have "prio_of k c = thread_get_mutex_priority ow ?K" using J(6) True by simp
    moreover have "k_current ?K = Some c" "mstat ?K c \<noteq> RT_THREAD_READY" using c suspend_stat_bits(3) by (simp_all add: j_def)
    ultimately obtain k' where "thread_update_priority ow (prio_of k c) RT_UNINTERRUPTIBLE ?K = Some (Inr k')" "mutex_inv k'" "raise_frame k' ?K"
      using thread_update_priority_raises [OF iK J(3,4,5), of "prio_of k c" c RT_UNINTERRUPTIBLE] True pk by auto
    then show ?thesis using J(1) lt True by (auto simp: j_def mutex_pass_priority_def)
  next
    case False
    then have "inherits {} ?K" using inherits_owner [OF J(5)] J(6) pk by simp
    then have "mutex_inv ?K" using J(3,4) iK by (simp add: mutex_inv_def)
    then show ?thesis using J(1) False by (auto simp: j_def mutex_pass_priority_def)
  qed
qed

theorem rt_mutex_take_blocks:
  assumes i: "mutex_inv k" and c: "thread_context c k" and ow: "mx_owner (k_mutex k m) = Some ow" "ow \<noteq> c" and to: "timeout \<noteq> 0"
    and tick: "0 < sint timeout \<longrightarrow> timeout < RT_TICK_MAX div 2 \<and> hard_timer k (Tm_thread c)" and other: "mstat k u = RT_THREAD_READY"
  shows "\<exists>k'. rt_mutex_take_flag m timeout sf k = Some (Inr (None, k')) \<and> mutex_inv k' \<and> runs_highest k' \<and> k_current k' \<noteq> Some c \<and>
    set (k_list k' (mutex_waiters m)) = insert c (set (k_list k (mutex_waiters m))) \<and> mx_owner (k_mutex k' m) = Some ow \<and>
    prio_of k' ow \<le> prio_of k c \<and> (\<forall>t. prio_of k' t \<le> prio_of k t)"
proof -
  let ?k0 = "set_error c RT_EOK k"
  have cx: "k_current k = Some c" "mstat k c = RT_THREAD_RUNNING" "k_lock k = 0" "k_irq k = 0" using c by (auto simp: thread_context_def)
  have i0: "mutex_inv ?k0" "k_current ?k0 = Some c" "mstat ?k0 c = RT_THREAD_RUNNING" "mx_owner (k_mutex ?k0 m) = Some ow"
    using i cx ow by simp_all
  have inv: "sched_inv {} ?k0" using i0(1) by (simp add: mutex_inv_def)
  let ?j = "joined m c sf ?k0"
  obtain K where K: "mutex_pass_priority m ow (prio_of ?k0 c) ?j = Some (Inr K)" "mutex_inv K" "raise_frame K (mutex_update_priority m ?j)"
    using mutex_wait_raises [OF i0 ow(2), of sf] by blast
  have fK: "mstat K = mstat ?j" "k_current K = Some c" "k_irq K = 0" "k_lock K = 0" "hard_timer K = hard_timer ?j" "\<And>t. prio_of K t \<le> prio_of k t"
    "mx_owner (k_mutex K m) = Some ow" "set (k_list K (mutex_waiters m)) = set (k_list ?j (mutex_waiters m))"
    using K(3) cx ow unfolding raise_frame_def by auto
  let ?k2 = "if 0 < sint timeout then armed c timeout K else K"
  have a: "(if sint timeout > 0 then start_thread_timer c timeout K else Inr K) = Inr ?k2"
    using tick fK(5) by (simp add: arm_eq)
  have f2: "mutex_inv ?k2" "k_current ?k2 = Some c" "k_irq ?k2 = 0" "k_lock ?k2 = 0" "mstat ?k2 = mstat ?j" using K(2) fK by simp_all
  have i2: "sched_inv {} ?k2" using f2(1) by (simp add: mutex_inv_def)
  have m2: "mstat ?k2 u = RT_THREAD_READY" "bit (mstat ?k2 c) 2"
    using other cx(2) f2(5) suspend_stat_bits(2) by (auto simp: stat_defs)
  obtain k' where k': "rt_schedule ?k2 = Inr k'" "sched_inv {} k'" "runs_highest k'"
    using rt_schedule_correct [OF i2 f2(2,3)] m2(1) f2(4) by auto
  have fr: "sched_frame k' ?k2" by (rule rt_schedule_frame [OF i2 f2(2,3) k'(1)])
  have "mutex_inv k'" using mutex_inv_frame(1) [OF fr k'(2)] k'(2) f2(1) unfolding mutex_inv_def by blast
  moreover have "rt_mutex_take_flag m timeout sf k = Some (Inr (None, k'))"
  proof -
    have "ipc_list_suspend (mutex_waiters m) c RT_IPC_FLAG_PRIO sf ?k0 = Inr (RT_EOK, waiting (mutex_waiters m) RT_IPC_FLAG_PRIO c (suspended c sf ?k0))"
      using ipc_list_suspend_eq(1) [OF inv i0(2,3)] by simp
    then have "mutex_wait m ow c timeout sf ?k0 = Some (Inr (None, k'))"
      using K(1) a k'(1) by (simp add: mutex_wait_def bindO_def joined_def)
    then show ?thesis using cx ow to by (simp add: rt_mutex_take_flag_def scheduler_available_def rt_critical_level_def)
  qed
  moreover have "k_current k' \<noteq> Some c" using rt_schedule_suspended(2) [OF i2 f2(2,3) k'(1) m2(2) k'(3)] .
  moreover have pr: "prio_of k' t = prio_of K t" for t using sched_frameD(9) [OF fr] by simp
  moreover have own: "mx_owner (k_mutex k' m) = Some ow" using sched_frameD(7) [OF fr] fK(7) by simp
  moreover have sw: "set (k_list k' (mutex_waiters m)) = insert c (set (k_list k (mutex_waiters m)))"
    using sched_frameD(10) [OF fr, of "O_mutex m"] fK(8) joined_list [OF inv i0(3), of m sf "mutex_waiters m"]
    by (simp add: queued_set) (simp add: mutex_waiters_def)
  moreover have "prio_of k' ow \<le> prio_of k c"
  proof -
    have ik: "owned_ok k'" "waits_ok k'" "inherits {} k'" using calculation(1) by (auto simp: mutex_inv_def)
    have "prio_of k' ow \<le> thread_get_mutex_priority ow k'" using ik(3) by (simp add: inherits_def)
    then have "prio_of k' ow \<le> prio_of k' c" unfolding le_inherited [OF ik(2)] using owned_okD(1) [OF ik(1), of m ow] own sw by blast
    then show ?thesis using pr [of c] fK(6) [of c] by simp
  qed
  ultimately show ?thesis using k'(3) fK(6) by auto
qed

lemma running_not_waiter:
  assumes "sched_inv {} k" "mstat k c = RT_THREAD_RUNNING"
  shows "c \<notin> set (k_list k h)"
  using running_free [OF assms] by (simp add: placed_def)

lemma taken_sched [simp]: "sched_inv X (k\<lparr>k_taken := f\<rparr>) = sched_inv X k" "mstat (k\<lparr>k_taken := f\<rparr>) = mstat k"
  "is_suspended (k\<lparr>k_taken := f\<rparr>) = is_suspended k" "hard_timer (k\<lparr>k_taken := f\<rparr>) = hard_timer k"
  by (simp_all add: sched_inv_def sched_parts mstat_def is_suspended_def masked_def hard_timer_def fun_eq_iff)

lemma u8_ff_less [simp]: "\<not> (0xff :: u8) < x"
  by (simp add: not_less)

lemma waits_okI:
  assumes "\<And>m t. th_pending (k_thread k t) = Some m \<longleftrightarrow> t \<in> set (k_list k (mutex_waiters m))"
    "\<And>m. k_list k (mutex_waiters m) \<noteq> [] \<Longrightarrow> mx_owner (k_mutex k m) \<noteq> None"
    "\<And>m. sorted (map (prio_of k) (k_list k (mutex_waiters m)))"
    "\<And>m. mx_priority (k_mutex k m) = first_priority m k" "finite {t. th_pending (k_thread k t) \<noteq> None}"
  shows "waits_ok k"
  unfolding waits_ok_def using assms by blast

theorem rt_mutex_take_free:
  assumes i: "mutex_inv k" and c: "thread_context c k" and ow: "mx_owner (k_mutex k m) = None"
  shows "\<exists>k'. rt_mutex_take_flag m timeout sf k = Some (Inr (Some RT_EOK, k')) \<and> mutex_inv k' \<and> thread_context c k' \<and>
    mx_owner (k_mutex k' m) = Some c \<and> mx_hold (k_mutex k' m) = 1 \<and> prio_of k' c = min (prio_of k c) (mx_ceiling_priority (k_mutex k m)) \<and>
    k_list k' = k_list k"
proof -
  have cx: "k_current k = Some c" "mstat k c = RT_THREAD_RUNNING" "k_lock k = 0" "k_irq k = 0" using c by (auto simp: thread_context_def)
  have inv: "sched_inv {} k" and o: "owned_ok k" and w: "waits_ok k" and h: "inherits {} k" using i by (auto simp: mutex_inv_def)
  let ?ce = "mx_ceiling_priority (k_mutex k m)" and ?k0 = "set_error c RT_EOK k"
  let ?k1 = "upd_mutex m (\<lambda>x. x\<lparr>mx_owner := Some c, mx_priority := 0xff, mx_hold := 1\<rparr>) ?k0"
  let ?k2 = "if ?ce < prio_of k c then set_priority c ?ce ?k1 else ?k1"
  let ?k3 = "upd_mutex m (\<lambda>x. x\<lparr>mx_linked := True\<rparr>) (?k2\<lparr>k_taken := list_insert_after c m (k_taken ?k2)\<rparr>)"
  have ns: "\<not> is_suspended k c" using cx(2) ready_not_waiting by (simp add: suspended_mstat)
  have r: "change_priority c p ?k1 = Inr (set_priority c p ?k1)" for p using cx(2) by (simp add: change_priority_def)
  have "\<not> is_suspended (set_priority c p ?k1) c" for p using ns by (simp add: suspended_mstat)
  then have u: "thread_update_priority c p sf ?k1 = Some (Inr (set_priority c p ?k1))" for p
    using r by (subst thread_update_priority.simps) simp
  have nl: "\<not> mx_linked (k_mutex k m)" using owned_okD(3) [OF o] ow by simp
  have "mutex_acquire m c sf ?k0 = Some (Inr ?k3)"
    using nl u by (auto simp: mutex_acquire_def bindO_def taken_insert_def Let_def)
  then have e: "rt_mutex_take_flag m timeout sf k = Some (Inr (Some RT_EOK, ?k3))"
    using cx ow by (simp add: rt_mutex_take_flag_def scheduler_available_def rt_critical_level_def bindO_def)
  have e0: "k_list k (mutex_waiters m) = []" using waits_okD(2) [OF w, of m] ow by auto
  have nw: "c \<notin> set (k_list k (mutex_waiters m'))" for m' by (rule running_not_waiter [OF inv cx(2)])
  have pr: "prio_of ?k3 v = (if v = c then min (prio_of k c) ?ce else prio_of k v)" for v by (auto simp: min_def)
  have "unat ?ce < 32" if "?ce < prio_of k c" using that prio_range [OF inv, of c] by (simp add: word_less_nat_alt)
  then have i3: "sched_inv {} ?k3" using inv cx(2) by (auto intro!: set_priority_inv)
  have nm: "m \<notin> set (k_taken k v)" for v using owned_okD(1) [OF o, of m v] ow by simp
  have o3: "owned_ok ?k3" using o ow nm unfolding owned_ok_def by (auto simp: list_fam_defs)
  have mp: "map (prio_of ?k3) (k_list k (mutex_waiters m')) = map (prio_of k) (k_list k (mutex_waiters m'))" for m'
    unfolding pr using nw [of m'] by (intro map_cong) auto
  have fp: "first_priority m' ?k3 = first_priority m' k" for m'
    unfolding first_priority_def pr using nw [of m'] by (auto split: list.split)
  have l3: "k_list ?k3 = k_list k" "th_pending (k_thread ?k3 v) = th_pending (k_thread k v)" for v by simp_all
  have w3: "waits_ok ?k3"
  proof (rule waits_okI, unfold l3 fp mp)
    show "mx_owner (k_mutex ?k3 m') \<noteq> None" if "k_list k (mutex_waiters m') \<noteq> []" for m' using that waits_okD(2) [OF w] by simp
    show "mx_priority (k_mutex ?k3 m') = first_priority m' k" for m' using waits_okD(4) [OF w, of m'] e0 by (auto simp: first_priority_def)
  qed (use waits_okD(1,3,5) [OF w] in auto)
  have tk: "set (k_taken ?k3 v) = (if v = c then insert m (set (k_taken k c)) else set (k_taken k v))" for v by (simp add: list_fam_defs)
  have "prio_of ?k3 v = thread_get_mutex_priority v ?k3" for v
  proof (rule priority_eqI)
    fix x
    have "x \<le> prio_of k v \<longleftrightarrow> x \<le> thread_get_mutex_priority v k" using h by (simp add: inherits_def)
    then show "x \<le> prio_of ?k3 v \<longleftrightarrow> x \<le> thread_get_mutex_priority v ?k3"
      using nm [of v] unfolding pr le_get_mutex_priority tk by auto
  qed
  then have "mutex_inv ?k3" using i3 o3 w3 by (simp add: mutex_inv_def inherits_def)
  moreover have "thread_context c ?k3" using cx by (simp add: thread_context_def)
  ultimately show ?thesis using e pr [of c] l3(1) by (intro exI [of _ ?k3]) simp
qed


section \<open>Releasing a mutex\<close>

lemma taken_remove_simps [simp]:
  "k_thread (taken_remove m k) = k_thread k" "k_list (taken_remove m k) = k_list k" "k_linked (taken_remove m k) = k_linked k"
  "k_taken (taken_remove m k) = list_remove m (k_taken k)" "k_current (taken_remove m k) = k_current k"
  "k_mutex (taken_remove m k) = (k_mutex k)(m := (k_mutex k m)\<lparr>mx_linked := False\<rparr>)" "k_lock (taken_remove m k) = k_lock k"
  "k_irq (taken_remove m k) = k_irq k" "mstat (taken_remove m k) = mstat k" "sched_inv X (taken_remove m k) = sched_inv X k"
  "is_suspended (taken_remove m k) = is_suspended k" "k_sem (taken_remove m k) = k_sem k" "k_ipc (taken_remove m k) = k_ipc k"
  by (simp_all add: taken_remove_def)

text \<open>The owner without the mutex, which has no list and \<open>n\<close> holds.\<close>

definition gave_up :: "nat \<Rightarrow> tid \<Rightarrow> u8 \<Rightarrow> kernel \<Rightarrow> kernel \<Rightarrow> bool" where
  "gave_up m c n k k' \<longleftrightarrow> sched_inv {} k' \<and> mstat k' = mstat k \<and>
    k_list k' = k_list k \<and> k_linked k' = k_linked k \<and> k_current k' = k_current k \<and> k_lock k' = k_lock k \<and> k_irq k' = k_irq k \<and>
    k_taken k' = list_remove m (k_taken k) \<and> k_mutex k' = (k_mutex k)(m := (k_mutex k m)\<lparr>mx_hold := n, mx_linked := False\<rparr>) \<and>
    (\<forall>u. th_pending (k_thread k' u) = th_pending (k_thread k u) \<and> th_init_priority (k_thread k' u) = th_init_priority (k_thread k u) \<and>
      th_error (k_thread k' u) = th_error (k_thread k u) \<and>
      prio_of k' u = (if u = c then thread_get_mutex_priority c (taken_remove m k) else prio_of k u))"

lemma mutex_disinherit_eq:
  assumes i: "mutex_inv k" and c: "mstat k c = RT_THREAD_RUNNING" and ow: "mx_owner (k_mutex k m) = Some c"
  shows "\<exists>b k'. mutex_disinherit m c (upd_mutex m (\<lambda>x. x\<lparr>mx_hold := n\<rparr>) k) = Inr (b, k') \<and> gave_up m c n k k'"
proof -
  let ?k1 = "taken_remove m (upd_mutex m (\<lambda>x. x\<lparr>mx_hold := n\<rparr>) k)" and ?g = "thread_get_mutex_priority c (taken_remove m k)"
  have inv: "sched_inv {} k" and o: "owned_ok k" and h: "inherits {} k" using i by (auto simp: mutex_inv_def)
  have g1: "thread_get_mutex_priority c ?k1 = ?g"
    unfolding thread_get_mutex_priority_def by (rule foldl_cong) (simp_all add: list_fam_defs)
  have mc: "m \<in> set (k_taken k c)" using owned_okD(1) [OF o] ow by simp
  have gk: "prio_of k c = thread_get_mutex_priority c k" using h by (simp add: inherits_def)
  have gx: "x \<le> thread_get_mutex_priority c k \<longleftrightarrow> x \<le> ?g \<and> x \<le> mx_priority (k_mutex k m) \<and> x \<le> mx_ceiling_priority (k_mutex k m)" for x
    unfolding le_get_mutex_priority using mc by (auto simp: list_fam_defs)
  have "?g \<le> th_init_priority (k_thread k c)" using iffD1 [OF le_get_mutex_priority order.refl, of c "taken_remove m k"] by simp
  then have p32: "unat ?g < 32" using owned_okD(5) [OF o, of c] by (simp add: word_le_nat_alt)
  show ?thesis
  proof (cases "mx_ceiling_priority (k_mutex k m) \<noteq> 0xff \<or> prio_of k c = mx_priority (k_mutex k m)")
    case True
    have "mutex_disinherit m c (upd_mutex m (\<lambda>x. x\<lparr>mx_hold := n\<rparr>) k) = Inr (True, set_priority c ?g ?k1)"
      using True c by (simp add: mutex_disinherit_def Let_def g1 change_priority_def)
    moreover have "sched_inv {} (set_priority c ?g ?k1)" using inv c p32 by (intro set_priority_inv) simp_all
    ultimately show ?thesis by (intro exI [of _ True] exI [of _ "set_priority c ?g ?k1"]) (simp add: gave_up_def)
  next
    case False
    have "prio_of k c \<le> mx_priority (k_mutex k m)" "prio_of k c \<le> ?g" using gx [of "prio_of k c"] gk by simp_all
    moreover have "min ?g (mx_priority (k_mutex k m)) \<le> prio_of k c" using gx [of "min ?g (mx_priority (k_mutex k m))"] gk False by simp
    ultimately have "prio_of k c = ?g" using False by (auto simp: min_def split: if_splits)
    moreover have "mutex_disinherit m c (upd_mutex m (\<lambda>x. x\<lparr>mx_hold := n\<rparr>) k) = Inr (False, ?k1)"
      using False by (simp add: mutex_disinherit_def Let_def)
    ultimately show ?thesis using inv by (intro exI [of _ False] exI [of _ ?k1]) (simp add: gave_up_def)
  qed
qed


text \<open>The first waiter with the mutex.\<close>

lemma resumed_mutex [simp]:
  "k_taken (resumed t k) = k_taken k" "th_pending (k_thread (resumed t k) u) = th_pending (k_thread k u)"
  "th_init_priority (k_thread (resumed t k) u) = th_init_priority (k_thread k u)"
  by (simp_all add: resumed_def enqueue_def Let_def set_stat_def)

definition handed :: "tid \<Rightarrow> nat \<Rightarrow> kernel \<Rightarrow> kernel" where
  "handed t m k = mutex_update_priority m (resumed t (set_pending t None (upd_mutex m (\<lambda>x. x\<lparr>mx_owner := Some t, mx_hold := 1, mx_linked := True\<rparr>)
     ((tlist_remove t k)\<lparr>k_taken := list_insert_after t m (k_taken k)\<rparr>))))"

lemma handed_simps [simp]:
  "k_current (handed t m k) = k_current k" "k_irq (handed t m k) = k_irq k" "k_lock (handed t m k) = k_lock k"
  "mstat (handed t m k) u = (if u = t then RT_THREAD_READY else mstat k u)" "prio_of (handed t m k) u = prio_of k u"
  "th_pending (k_thread (handed t m k) u) = (if u = t then None else th_pending (k_thread k u))"
  "th_init_priority (k_thread (handed t m k) u) = th_init_priority (k_thread k u)"
  "th_error (k_thread (handed t m k) u) = th_error (k_thread k u)"
  "k_taken (handed t m k) = list_insert_after t m (k_taken k)"
  by (simp_all add: handed_def)

lemma handed_list: "k_list (handed t m k) (mutex_waiters m') = removeAll t (k_list k (mutex_waiters m'))"
  by (simp add: handed_def resumed_lists list_remove_def)

lemma handed_mutex:
  "k_mutex (handed t m k) = (k_mutex k)(m := (k_mutex k m)\<lparr>mx_owner := Some t, mx_hold := 1, mx_linked := True,
     mx_priority := first_priority m (handed t m k)\<rparr>)"
  by (simp add: handed_def)

lemma hand_over_eq:
  assumes inv: "sched_inv {} k" and l: "k_list k (mutex_waiters m) = t # ts" and n: "\<not> mx_linked (k_mutex k m)" and c: "k_current k \<noteq> Some t"
  shows "mutex_hand_over m k = Inr (True, handed t m k)" "sched_inv {} (handed t m k)"
proof -
  have b: "bit (mstat k t) 2" by (rule wait_first(1) [OF inv mutex_waiters_simps(2) l])
  let ?k1 = "set_pending t None (upd_mutex m (\<lambda>x. x\<lparr>mx_owner := Some t, mx_hold := 1, mx_linked := True\<rparr>)
     ((tlist_remove t k)\<lparr>k_taken := list_insert_after t m (k_taken k)\<rparr>))"
  have "sched_inv {} (tlist_remove t k)" using tlist_remove_inv [OF inv b] b by (intro suspended_free) simp_all
  then have i1: "sched_inv {} ?k1" by simp
  have "rt_thread_resume t ?k1 = Inr (RT_EOK, resumed t ?k1)" using i1 c b by (intro resume_eq) (simp_all add: mstat_def)
  moreover have "upd_mutex m (\<lambda>x. x\<lparr>mx_linked := True\<rparr>) ((upd_mutex m (\<lambda>x. x\<lparr>mx_owner := Some t, mx_hold := 1\<rparr>) (tlist_remove t k))
      \<lparr>k_taken := list_insert_after t m (k_taken k)\<rparr>) =
      upd_mutex m (\<lambda>x. x\<lparr>mx_owner := Some t, mx_hold := 1, mx_linked := True\<rparr>) ((tlist_remove t k)\<lparr>k_taken := list_insert_after t m (k_taken k)\<rparr>)"
    by (simp add: upd_mutex_def)
  ultimately show "mutex_hand_over m k = Inr (True, handed t m k)"
    using l n by (simp add: mutex_hand_over_def taken_insert_def handed_def Let_def)
  have "sched_inv {} (resumed t ?k1)" using i1 b by (intro resumed_inv) (simp_all add: mstat_def)
  then show "sched_inv {} (handed t m k)" by (simp add: handed_def)
qed


lemma gave_upD:
  assumes "gave_up m c n k k'"
  shows "sched_inv {} k'" "mstat k' = mstat k" "k_list k' = k_list k" "k_current k' = k_current k" "k_lock k' = k_lock k" "k_irq k' = k_irq k"
    "k_taken k' = list_remove m (k_taken k)" "k_mutex k' = (k_mutex k)(m := (k_mutex k m)\<lparr>mx_hold := n, mx_linked := False\<rparr>)"
    "th_pending (k_thread k' u) = th_pending (k_thread k u)" "th_init_priority (k_thread k' u) = th_init_priority (k_thread k u)"
    "th_error (k_thread k' u) = th_error (k_thread k u)"
    "prio_of k' u = (if u = c then thread_get_mutex_priority c (taken_remove m k) else prio_of k u)"
  using assms by (simp_all add: gave_up_def)

lemma gave_up_waiters:
  assumes "gave_up m c n k k'" "sched_inv {} k" "mstat k c = RT_THREAD_RUNNING"
  shows "map (prio_of k') (k_list k h) = map (prio_of k) (k_list k h)" "w \<in> set (k_list k h) \<Longrightarrow> prio_of k' w = prio_of k w"
proof -
  have "c \<notin> set (k_list k h)" by (rule running_not_waiter [OF assms(2,3)])
  then show "map (prio_of k') (k_list k h) = map (prio_of k) (k_list k h)" "w \<in> set (k_list k h) \<Longrightarrow> prio_of k' w = prio_of k w"
    using gave_upD(12) [OF assms(1)] by auto
qed

lemma handed_ok:
  assumes i: "mutex_inv k" and c: "mstat k c = RT_THREAD_RUNNING" and ow: "mx_owner (k_mutex k m) = Some c" and g: "gave_up m c n k K"
    and l: "k_list k (mutex_waiters m) = t # ts" and ce: "prio_of k t \<le> mx_ceiling_priority (k_mutex k m)"
  shows "owned_ok (handed t m K)" "waits_ok (handed t m K)" "inherits {} (handed t m K)"
proof -
  let ?H = "handed t m K"
  have inv: "sched_inv {} k" and o: "owned_ok k" and w: "waits_ok k" and h: "inherits {} k" using i by (auto simp: mutex_inv_def)
  note G = gave_upD [OF g]
  note W = gave_up_waiters [OF g inv c]
  have tw: "t \<in> set (k_list k (mutex_waiters m))" using l by simp
  have tc: "t \<noteq> c" using running_not_waiter [OF inv c] tw by auto
  have rm: "removeAll t (k_list k (mutex_waiters m')) = (if m' = m then ts else k_list k (mutex_waiters m'))" for m'
    using wait_first(2,3) [OF inv mutex_waiters_simps(2) l] l by simp
  have L: "k_list ?H (mutex_waiters m') = (if m' = m then ts else k_list k (mutex_waiters m'))" for m'
    by (simp add: handed_list G(3) rm)
  have mo: "m \<in> set (k_taken k u) \<longleftrightarrow> u = c" for u using owned_okD(1) [OF o, of m u] ow by auto
  have T: "set (k_taken ?H u) = (if u = t then insert m (set (k_taken k u) - {m}) else set (k_taken k u) - {m})" for u
    by (simp add: G(7) list_fam_defs)
  have P: "prio_of ?H u = prio_of K u" for u by simp
  show "owned_ok ?H"
    using o mo tc unfolding owned_ok_def T handed_simps handed_mutex G by (auto simp: list_fam_defs distinct_removeAll)
  show wH: "waits_ok ?H"
  proof (rule waits_okI)
    have "t \<notin> set ts" using wait_first(2) [OF inv mutex_waiters_simps(2) l] by (metis removeAll.simps(2) removeAll_id set_removeAll Diff_iff singletonI)
    then show "th_pending (k_thread ?H u) = Some m' \<longleftrightarrow> u \<in> set (k_list ?H (mutex_waiters m'))" for u m'
      using waits_okD(1) [OF w, of u m'] waits_okD(1) [OF w, of t m] l tw by (auto simp: L G(9))
    show "mx_owner (k_mutex ?H m') \<noteq> None" if "k_list ?H (mutex_waiters m') \<noteq> []" for m'
      using that waits_okD(2) [OF w, of m'] by (cases "m' = m") (simp_all add: L handed_mutex G(8))
    show "sorted (map (prio_of ?H) (k_list ?H (mutex_waiters m')))" for m'
    proof -
      have "sorted (map (prio_of K) (k_list k (mutex_waiters m')))" unfolding W(1) by (rule waits_okD(3) [OF w])
      then show ?thesis using l by (auto simp: L)
    qed
    show "mx_priority (k_mutex ?H m') = first_priority m' ?H" for m'
    proof (cases "m' = m")
      case False
      then have "mx_priority (k_mutex ?H m') = first_priority m' k" using waits_okD(4) [OF w, of m'] by (simp add: handed_mutex G(8))
      also have "\<dots> = first_priority m' ?H" using False W(2) [where h = "mutex_waiters m'"] by (simp add: first_priority_def L split: list.split)
      finally show ?thesis .
    qed (subst handed_mutex, simp)
    show "finite {t. th_pending (k_thread ?H t) \<noteq> None}"
      using waits_okD(5) [OF w] by (rule finite_subset [rotated]) (auto simp: G(9) split: if_splits)
  qed
  have pk: "prio_of k u = thread_get_mutex_priority u k" for u using h by (simp add: inherits_def)
  have "x \<le> prio_of ?H u \<longleftrightarrow> x \<le> thread_get_mutex_priority u ?H" for x u
  proof (cases "u = c")
    case True
    have "x \<le> thread_get_mutex_priority c (taken_remove m k) \<longleftrightarrow> x \<le> th_init_priority (k_thread k c) \<and> (\<forall>m' \<in> set (k_taken k c) - {m}.
        x \<le> mx_ceiling_priority (k_mutex k m') \<and> (\<forall>w \<in> set (k_list k (mutex_waiters m')). x \<le> prio_of k w))"
      unfolding le_get_mutex_priority using waits_okD(3,4) [OF w] le_first_priority [of k] by (auto simp: list_fam_defs)
    then show ?thesis using True tc W(2) unfolding le_inherited [OF wH] T by (auto simp: G handed_mutex L)
  next
    case False
    have ts: "x \<le> prio_of k t \<Longrightarrow> v \<in> set ts \<Longrightarrow> x \<le> prio_of k v" for v using waits_okD(3) [OF w, of m] l by auto
    have "m \<notin> set (k_taken k u)" using mo False by simp
    moreover have "x \<le> prio_of k u \<longleftrightarrow> x \<le> thread_get_mutex_priority u k" using pk by simp
    moreover have "c \<notin> set ts" using running_not_waiter [OF inv c, of "mutex_waiters m"] l by simp
    ultimately show ?thesis using False ts ce W(2) l unfolding le_inherited [OF wH] le_inherited [OF w] T
      by (auto simp: G handed_mutex L)
  qed
  then show "inherits {} ?H" unfolding inherits_def by (auto intro: priority_eqI)
qed


text \<open>Nobody waits: the mutex is free.\<close>

lemma freed_ok:
  assumes i: "mutex_inv k" and c: "mstat k c = RT_THREAD_RUNNING" and ow: "mx_owner (k_mutex k m) = Some c" and g: "gave_up m c 0 k K"
    and l: "k_list k (mutex_waiters m) = []"
  shows "mutex_inv (upd_mutex m (\<lambda>x. x\<lparr>mx_owner := None, mx_priority := 0xff\<rparr>) K)"
proof -
  let ?F = "upd_mutex m (\<lambda>x. x\<lparr>mx_owner := None, mx_priority := 0xff\<rparr>) K"
  have inv: "sched_inv {} k" and o: "owned_ok k" and w: "waits_ok k" and h: "inherits {} k" using i by (auto simp: mutex_inv_def)
  note G = gave_upD [OF g]
  note W = gave_up_waiters [OF g inv c]
  have mo: "m \<in> set (k_taken k u) \<longleftrightarrow> u = c" for u using owned_okD(1) [OF o, of m u] ow by auto
  have fp: "first_priority m' ?F = first_priority m' k" for m'
    using W(2) [where h = "mutex_waiters m'"] by (simp add: first_priority_def G(3) split: list.split)
  have "owned_ok ?F" using o mo unfolding owned_ok_def by (auto simp: G list_fam_defs distinct_removeAll)
  moreover have "waits_ok ?F"
  proof (rule waits_okI)
    show "sorted (map (prio_of ?F) (k_list ?F (mutex_waiters m')))" for m'
      using waits_okD(3) [OF w, of m'] unfolding upd_mutex_simps G(3) W(1) .
    show "mx_priority (k_mutex ?F m') = first_priority m' ?F" for m'
      unfolding fp using waits_okD(4) [OF w, of m'] l by (cases "m' = m") (simp_all add: G(8) first_priority_def)
    show "mx_owner (k_mutex ?F m') \<noteq> None" if "k_list ?F (mutex_waiters m') \<noteq> []" for m'
      using that l waits_okD(2) [OF w, of m'] by (cases "m' = m") (simp_all add: G)
  qed (use waits_okD(1,5) [OF w] in \<open>simp_all add: G\<close>)
  moreover have "inherits {} ?F" unfolding inherits_def
  proof (intro allI impI)
    fix u
    have pk: "prio_of k u = thread_get_mutex_priority u k" using h by (simp add: inherits_def)
    show "prio_of ?F u = thread_get_mutex_priority u ?F"
    proof (rule priority_eqI)
      fix x show "x \<le> prio_of ?F u \<longleftrightarrow> x \<le> thread_get_mutex_priority u ?F"
        using pk mo [of u] by (auto simp: G le_get_mutex_priority list_fam_defs)
    qed
  qed
  ultimately show ?thesis using G(1) by (simp add: mutex_inv_def)
qed

lemma schedule_mutex_inv:
  assumes i: "mutex_inv k" and c: "k_current k = Some c" and irq: "k_irq k = 0"
  shows "\<exists>k'. rt_schedule k = Inr k' \<and> mutex_inv k' \<and> sched_frame k' k \<and>
    (k_lock k = 0 \<and> (mstat k c = RT_THREAD_RUNNING \<or> (\<exists>u. mstat k u = RT_THREAD_READY)) \<longrightarrow> runs_highest k')"
proof -
  have inv: "sched_inv {} k" using i by (simp add: mutex_inv_def)
  obtain k' where k': "rt_schedule k = Inr k'" "sched_inv {} k'"
    "k_lock k = 0 \<and> (mstat k c = RT_THREAD_RUNNING \<or> (\<exists>u. mstat k u = RT_THREAD_READY)) \<longrightarrow> runs_highest k'"
    using rt_schedule_correct [OF inv c irq] by blast
  have fr: "sched_frame k' k" by (rule rt_schedule_frame [OF inv c irq k'(1)])
  then show ?thesis using k' mutex_inv_frame(1) [OF fr k'(2)] i unfolding mutex_inv_def by blast
qed

theorem rt_mutex_release_free:
  assumes i: "mutex_inv k" and c: "thread_context c k" and ow: "mx_owner (k_mutex k m) = Some c" and one: "mx_hold (k_mutex k m) = 1"
    and l: "k_list k (mutex_waiters m) = []"
  shows "\<exists>k'. rt_mutex_release m k = Inr (RT_EOK, k') \<and> mutex_inv k' \<and> mx_owner (k_mutex k' m) = None"
proof -
  have cx: "k_current k = Some c" "mstat k c = RT_THREAD_RUNNING" "k_lock k = 0" "k_irq k = 0" using c by (auto simp: thread_context_def)
  obtain b K where K: "mutex_disinherit m c (upd_mutex m (\<lambda>x. x\<lparr>mx_hold := 0\<rparr>) k) = Inr (b, K)" "gave_up m c 0 k K"
    using mutex_disinherit_eq [OF i cx(2) ow] by blast
  let ?F = "upd_mutex m (\<lambda>x. x\<lparr>mx_owner := None, mx_priority := 0xff\<rparr>) K"
  have F: "mutex_inv ?F" "k_current ?F = Some c" "k_irq ?F = 0" using freed_ok [OF i cx(2) ow K(2) l] gave_upD(4,6) [OF K(2)] cx by simp_all
  obtain k' where k': "rt_schedule ?F = Inr k'" "mutex_inv k'" "sched_frame k' ?F" using schedule_mutex_inv [OF F] by blast
  have u: "upd_mutex m (\<lambda>x. x\<lparr>mx_hold := mx_hold x - 1\<rparr>) k = upd_mutex m (\<lambda>x. x\<lparr>mx_hold := 0\<rparr>) k" using one by (simp add: upd_mutex_def)
  have "rt_mutex_release m k = Inr (RT_EOK, if b then k' else ?F)"
    using cx ow one l K(1) k'(1) gave_upD(3) [OF K(2)] by (simp add: rt_mutex_release_def Let_def u mutex_hand_over_def)
  moreover have "mx_owner (k_mutex k' m) = None" using sched_frameD(7) [OF k'(3)] by simp
  ultimately show ?thesis using k'(2) F(1) by (cases b) auto
qed

theorem rt_mutex_release_hands_over:
  assumes i: "mutex_inv k" and c: "thread_context c k" and ow: "mx_owner (k_mutex k m) = Some c" and one: "mx_hold (k_mutex k m) = 1"
    and l: "k_list k (mutex_waiters m) = t # ts" and ce: "prio_of k t \<le> mx_ceiling_priority (k_mutex k m)"
  shows "\<exists>k'. rt_mutex_release m k = Inr (RT_EOK, k') \<and> mutex_inv k' \<and> runs_highest k' \<and> mx_owner (k_mutex k' m) = Some t \<and>
    mx_hold (k_mutex k' m) = 1 \<and> k_list k' (mutex_waiters m) = ts \<and> mstat k' t \<in> {RT_THREAD_READY, RT_THREAD_RUNNING} \<and>
    th_error (k_thread k' t) = th_error (k_thread k t)"
proof -
  have cx: "k_current k = Some c" "mstat k c = RT_THREAD_RUNNING" "k_lock k = 0" "k_irq k = 0" using c by (auto simp: thread_context_def)
  have inv: "sched_inv {} k" using i by (simp add: mutex_inv_def)
  obtain b K where K: "mutex_disinherit m c (upd_mutex m (\<lambda>x. x\<lparr>mx_hold := 0\<rparr>) k) = Inr (b, K)" "gave_up m c 0 k K"
    using mutex_disinherit_eq [OF i cx(2) ow] by blast
  note G = gave_upD [OF K(2)]
  have tc: "t \<noteq> c" using running_not_waiter [OF inv cx(2), of "mutex_waiters m"] l by auto
  let ?H = "handed t m K"
  have e: "mutex_hand_over m K = Inr (True, ?H)" "sched_inv {} ?H"
    using hand_over_eq [OF G(1), of m t ts] l tc cx by (simp_all add: G)
  have H: "mutex_inv ?H" "k_current ?H = Some c" "k_irq ?H = 0" "k_lock ?H = 0" "mstat ?H c = RT_THREAD_RUNNING" "mstat ?H t = RT_THREAD_READY"
    using handed_ok [OF i cx(2) ow K(2) l ce] e(2) cx tc by (simp_all add: G mutex_inv_def)
  obtain k' where k': "rt_schedule ?H = Inr k'" "mutex_inv k'" "sched_frame k' ?H" "runs_highest k'"
    using schedule_mutex_inv [OF H(1,2,3)] H(4,5) by blast
  note F = sched_frameD [OF k'(3)]
  have u: "upd_mutex m (\<lambda>x. x\<lparr>mx_hold := mx_hold x - 1\<rparr>) k = upd_mutex m (\<lambda>x. x\<lparr>mx_hold := 0\<rparr>) k" using one by (simp add: upd_mutex_def)
  have "rt_mutex_release m k = Inr (RT_EOK, k')"
    using cx ow one K(1) e(1) k'(1) by (simp add: rt_mutex_release_def Let_def u)
  moreover have "mx_owner (k_mutex k' m) = Some t" "mx_hold (k_mutex k' m) = 1" using F(7) by (simp_all add: handed_mutex)
  moreover have "k_list k' (mutex_waiters m) = ts"
    using F(10) [of "O_mutex m"] handed_list [of t m K m] wait_first(2) [OF inv mutex_waiters_simps(2) l] l by (simp add: G(3) mutex_waiters_def)
  moreover have "mstat k' t \<in> {RT_THREAD_READY, RT_THREAD_RUNNING}"
    using rt_schedule_cases [OF e(2) H(2,3) k'(1)] by cases (use H in auto)
  ultimately show ?thesis using k' F(8) [of t] by (simp add: G)
qed

text \<open>A nested release, and a nested take.\<close>

theorem rt_mutex_nested:
  assumes i: "mutex_inv k" and c: "thread_context c k" and ow: "mx_owner (k_mutex k m) = Some c"
  shows "1 < mx_hold (k_mutex k m) \<Longrightarrow> \<exists>k'. rt_mutex_release m k = Inr (RT_EOK, k') \<and> mutex_inv k' \<and> mx_owner (k_mutex k' m) = Some c \<and>
      mx_hold (k_mutex k' m) = mx_hold (k_mutex k m) - 1"
    and "\<exists>k'. rt_mutex_take_flag m timeout sf k = Some (Inr (Some (if mx_hold (k_mutex k m) < 255 then RT_EOK else - RT_EFULL), k')) \<and>
      mutex_inv k' \<and> mx_owner (k_mutex k' m) = Some c \<and>
      mx_hold (k_mutex k' m) = (if mx_hold (k_mutex k m) < 255 then mx_hold (k_mutex k m) + 1 else mx_hold (k_mutex k m))"
proof -
  have cx: "k_current k = Some c" "mstat k c = RT_THREAD_RUNNING" "k_lock k = 0" "k_irq k = 0" using c by (auto simp: thread_context_def)
  have held: "mutex_inv (upd_mutex m (\<lambda>x. x\<lparr>mx_hold := f (mx_hold x)\<rparr>) k)" if "f (mx_hold (k_mutex k m)) \<noteq> 0" for f
  proof -
    have "first_priority m' (upd_mutex m (\<lambda>x. x\<lparr>mx_hold := f (mx_hold x)\<rparr>) k) = first_priority m' k" for m'
      by (simp add: first_priority_def split: list.split)
    moreover have w: "waits_ok k" using i by (simp add: mutex_inv_def)
    ultimately have "waits_ok (upd_mutex m (\<lambda>x. x\<lparr>mx_hold := f (mx_hold x)\<rparr>) k)"
      by (intro waits_okI) (use waits_okD [OF w] ow in simp_all)
    moreover have "owned_ok (upd_mutex m (\<lambda>x. x\<lparr>mx_hold := f (mx_hold x)\<rparr>) k)" using i ow that unfolding mutex_inv_def owned_ok_def by auto
    moreover have "thread_get_mutex_priority u (upd_mutex m (\<lambda>x. x\<lparr>mx_hold := f (mx_hold x)\<rparr>) k) = thread_get_mutex_priority u k" for u
      by (rule priority_eqI) (auto simp: le_get_mutex_priority)
    ultimately show ?thesis using i by (simp add: mutex_inv_def inherits_def)
  qed
  show "\<exists>k'. rt_mutex_release m k = Inr (RT_EOK, k') \<and> mutex_inv k' \<and> mx_owner (k_mutex k' m) = Some c \<and>
      mx_hold (k_mutex k' m) = mx_hold (k_mutex k m) - 1" if gt: "1 < mx_hold (k_mutex k m)"
  proof -
    have "mx_hold (k_mutex k m) - 1 \<noteq> 0" using gt by auto
    then show ?thesis using held [of "\<lambda>n. n - 1"] cx ow by (simp add: rt_mutex_release_def)
  qed
  have "upd_mutex m f (set_error c e k) = set_error c e (upd_mutex m f k)" for f e
    by (simp add: upd_mutex_def set_error_def upd_thread_def)
  moreover have "mx_hold (k_mutex k m) + 1 \<noteq> 0" if "mx_hold (k_mutex k m) < 255"
    using that by (auto simp: eq_neg_iff_add_eq_0 [symmetric])
  ultimately show "\<exists>k'. rt_mutex_take_flag m timeout sf k = Some (Inr (Some (if mx_hold (k_mutex k m) < 255 then RT_EOK else - RT_EFULL), k')) \<and>
      mutex_inv k' \<and> mx_owner (k_mutex k' m) = Some c \<and>
      mx_hold (k_mutex k' m) = (if mx_hold (k_mutex k m) < 255 then mx_hold (k_mutex k m) + 1 else mx_hold (k_mutex k m))"
    using held [of "\<lambda>n. n + 1"] i cx ow
    by (auto simp: rt_mutex_take_flag_def scheduler_available_def rt_critical_level_def mutex_retake_def RT_MUTEX_HOLD_MAX_def)
qed

section \<open>Time-outs\<close>

text \<open>A release without waiters needs only the scheduler's invariant.\<close>

lemma release_plain:
  assumes inv: "sched_inv {} k" and init: "\<And>t. unat (th_init_priority (k_thread k t)) < 32" and c: "thread_context c k"
    and ow: "mx_owner (k_mutex k m) = Some c" and one: "mx_hold (k_mutex k m) = 1" and l: "k_list k (mutex_waiters m) = []"
  shows "\<exists>k'. rt_mutex_release m k = Inr (RT_EOK, k') \<and> mx_owner (k_mutex k' m) = None \<and> (\<forall>t. th_error (k_thread k' t) = th_error (k_thread k t))"
proof -
  have cx: "k_current k = Some c" "mstat k c = RT_THREAD_RUNNING" "k_lock k = 0" "k_irq k = 0" using c by (auto simp: thread_context_def)
  let ?k1 = "taken_remove m (upd_mutex m (\<lambda>x. x\<lparr>mx_hold := 0\<rparr>) k)" and ?free = "upd_mutex m (\<lambda>x. x\<lparr>mx_owner := None, mx_priority := 0xff\<rparr>)"
  let ?g = "thread_get_mutex_priority c ?k1"
  have u: "upd_mutex m (\<lambda>x. x\<lparr>mx_hold := mx_hold x - 1\<rparr>) k = upd_mutex m (\<lambda>x. x\<lparr>mx_hold := 0\<rparr>) k" using one by (simp add: upd_mutex_def)
  have "?g \<le> th_init_priority (k_thread k c)" using iffD1 [OF le_get_mutex_priority order.refl, of c ?k1] by simp
  then have "unat ?g < 32" using init [of c] by (simp add: word_le_nat_alt)
  then have i2: "sched_inv {} (set_priority c ?g ?k1)" using inv cx by (intro set_priority_inv) simp_all
  obtain k' where k': "rt_schedule (?free (set_priority c ?g ?k1)) = Inr k'" "sched_frame k' (?free (set_priority c ?g ?k1))"
    using rt_schedule_correct [of "?free (set_priority c ?g ?k1)" c] rt_schedule_frame [of "?free (set_priority c ?g ?k1)" c] i2 cx by auto
  have "rt_mutex_release m k = Inr (RT_EOK, if mx_ceiling_priority (k_mutex k m) \<noteq> 0xff \<or> prio_of k c = mx_priority (k_mutex k m) then k' else ?free ?k1)"
    using cx ow one l k'(1) by (simp add: rt_mutex_release_def mutex_disinherit_def mutex_hand_over_def change_priority_def Let_def u)
  then show ?thesis using sched_frameD(7,8) [OF k'(2)] by auto
qed

text \<open>
  A thread whose wait has timed out looks at the owner of the mutex without a test. When the owner,
  more urgent than the waiter, releases the mutex before the waiter runs, there is none.
\<close>

theorem timed_out_waiter_without_owner:
  assumes i: "mutex_inv k" and c: "thread_context c k" and ow: "mx_owner (k_mutex k m) = Some c" and one: "mx_hold (k_mutex k m) = 1"
    and l: "k_list k (mutex_waiters m) = [t]" and top: "\<And>u. u = t \<or> mstat k u = RT_THREAD_READY \<Longrightarrow> prio_of k c < prio_of k u"
  shows "\<exists>k1 k2. thread_timeout t k = Inr k1 \<and> k_current k1 = Some c \<and> rt_mutex_release m k1 = Inr (RT_EOK, k2) \<and>
    rt_mutex_take_end m t k2 = Some (Inl (Bad_access ''mutex->owner''))"
proof -
  have cx: "k_current k = Some c" "mstat k c = RT_THREAD_RUNNING" "k_lock k = 0" "k_irq k = 0" using c by (auto simp: thread_context_def)
  have inv: "sched_inv {} k" and o: "owned_ok k" using i by (auto simp: mutex_inv_def)
  have tw: "t \<in> set (k_list k (mutex_waiters m))" using l by simp
  have b: "bit (mstat k t) 2" by (rule wait_first(1) [OF inv mutex_waiters_simps(2) l])
  have tc: "t \<noteq> c" using running_not_waiter [OF inv cx(2)] tw by auto
  let ?k0 = "set_error t (- RT_ETIMEOUT) k"
  let ?k1 = "enqueue t (tlist_remove t ?k0)"
  have i1: "sched_inv {} ?k1" using inv b by (intro enqueue_inv tlist_remove_inv) simp_all
  have e: "rt_schedule_insert_thread t (tlist_remove t ?k0) = Inr ?k1"
    using cx tc prio_range [OF inv, of t] by (intro insert_thread_eq) simp_all
  have cur: "k_current ?k1 = Some c" "k_irq ?k1 = 0" "k_lock ?k1 = 0" "mstat ?k1 c = RT_THREAD_RUNNING" using cx tc by simp_all
  obtain k1 where k1: "rt_schedule ?k1 = Inr k1" "sched_inv {} k1" "runs_highest k1"
    using rt_schedule_correct [OF i1 cur(1,2)] cur by auto
  have fr: "sched_frame k1 ?k1" by (rule rt_schedule_frame [OF i1 cur(1,2) k1(1)])
  note F = sched_frameD [OF fr]
  have stay: "k_current k1 = Some c \<and> mstat k1 c = RT_THREAD_RUNNING"
    using rt_schedule_cases [OF i1 cur(1,2) k1(1)]
  proof cases
    case (3 v hp)
    then have "v = t \<or> mstat k v = RT_THREAD_READY" by (auto split: if_splits)
    then have "prio_of k c < prio_of k v" by (rule top)
    moreover have "prio_of k1 v \<le> prio_of k1 c" using k1(3) 3 cur(4) by (auto simp: runs_highest_def)
    moreover have "prio_of ?k1 u = prio_of k u" for u by (cases "u = t") simp_all
    ultimately show ?thesis using F(9) [of v] F(9) [of c] by simp
  qed (use cur in auto)
  have "thread_context c k1" using stay F(4,5) cx by (simp add: thread_context_def)
  moreover have "k_list k1 (mutex_waiters m) = []"
    using F(10) [of "O_mutex m"] l by (simp add: mutex_waiters_def enqueue_def Let_def list_fam_defs)
  moreover have "k_mutex k1 = k_mutex k" using F(7) by (simp add: enqueue_def Let_def set_stat_def)
  moreover have "unat (th_init_priority (k_thread k1 v)) < 32" for v using F(15) [of v] owned_okD(5) [OF o, of v] by (cases "v = t") simp_all
  ultimately obtain k2 where k2: "rt_mutex_release m k1 = Inr (RT_EOK, k2)" "mx_owner (k_mutex k2 m) = None"
    "th_error (k_thread k2 t) = th_error (k_thread k1 t)" using release_plain [OF k1(2), of c m] ow one by auto
  have "thread_timeout t k = Inr k1" using b e k1(1) by (simp add: thread_timeout_def suspended_mstat)
  moreover have "th_error (k_thread k1 t) = - RT_ETIMEOUT" using F(8) [of t] by simp
  then have "rt_mutex_take_end m t k2 = Some (Inl (Bad_access ''mutex->owner''))" using k2 by (simp add: rt_mutex_take_end_def err_defs)
  ultimately show ?thesis using stay k2(1) by blast
qed

end
