(* ===== verification/Rt_Example.thy ===== *)
theory Rt_Example
  imports Rt_Mutex_Ops
begin

text \<open>
  Concrete kernel states: thread 1 runs at priority 10, threads 2 and 3 are ready at the same
  priority, thread 4 is the idle thread, thread 5 waits on the list \<open>h\<close> (in \<open>example_kernel\<close> for
  semaphore 0), no semaphore has a token, and the tick is about to wrap around.
\<close>

definition example_thread :: "u8 \<Rightarrow> u8 \<Rightarrow> rt_thread" where
  "example_thread p s = \<lparr>th_stat = s, th_error = 0, th_current_priority = p, th_init_priority = p, th_number_mask = 2 ^ unat p,
     th_pending = None, th_event_set = 0, th_event_info = 0, th_init_tick = 10, th_remaining_tick = 10\<rparr>"

definition example_ipc :: ipc_objs where
  "example_ipc = \<lparr>
     o_event = (\<lambda>_. \<lparr>ev_set = 0, ev_flag = RT_IPC_FLAG_FIFO\<rparr>),
     o_mb = (\<lambda>_. \<lparr>mb_msg_pool = replicate 4 0, mb_size = 4, mb_entry = 0, mb_in_offset = 0, mb_out_offset = 0, mb_flag = RT_IPC_FLAG_FIFO\<rparr>),
     o_mq = (\<lambda>_. \<lparr>mq_msg_pool = 0x80001000, mq_msg_size = 0, mq_max_msgs = 0, mq_entry = 0, mq_head = None, mq_tail = None, mq_free = None,
       mq_next = (\<lambda>_. None), mq_body = (\<lambda>_. []), mq_flag = RT_IPC_FLAG_FIFO\<rparr>),
     o_mp = (\<lambda>_. \<lparr>mp_start_address = 0, mp_size = 0, mp_block_list = None, mp_block_size = 0, mp_block_total_count = 0,
       mp_block_free_count = 0\<rparr>),
     o_block = (\<lambda>_. B_next None)\<rparr>"

definition example_at :: "lhead \<Rightarrow> nat option \<Rightarrow> u8 \<Rightarrow> kernel" where
  "example_at h pend p = \<lparr>
     k_thread = (\<lambda>t. if t = 1 then example_thread 10 3 else if t = 2 \<or> t = 3 then example_thread 10 2
       else if t = 4 then example_thread 31 2 else if t = 5 then (example_thread p 7)\<lparr>th_pending := pend\<rparr> else example_thread 20 0),
     k_list = (\<lambda>_. [])(L_ready 10 := [2, 3], L_ready 31 := [4], h := [5]),
     k_linked = (\<lambda>t. t \<in> {2, 3, 4, 5}),
     k_group = 2 ^ 10 OR 2 ^ 31, k_lock = 0, k_current = Some 1, k_current_priority = 10, k_irq = 0, k_tick = 0xfffffff0,
     k_timer = (\<lambda>_. \<lparr>tm_flag = 0, tm_init_tick = 0, tm_timeout_tick = 0\<rparr>), k_timers = [], k_soft_timers = [], k_soft_idle = True,
     k_sem = (\<lambda>_. \<lparr>sem_value = 0, sem_flag = RT_IPC_FLAG_FIFO\<rparr>),
     k_mutex = (\<lambda>_. \<lparr>mx_priority = 255, mx_ceiling_priority = 255, mx_hold = 0, mx_owner = None, mx_linked = False\<rparr>),
     k_taken = (\<lambda>_. []), k_ipc = example_ipc, k_errno = 0, k_switch = []\<rparr>"

definition example_kernel :: kernel where "example_kernel = example_at (L_suspend (O_sem 0)) None 5"

lemma example_at_stat [simp]: "mstat (example_at h pend p) t = (if t = 1 then 3 else if t = 2 \<or> t = 3 \<or> t = 4 then 2 else if t = 5 then 7 else 0)"
  by (simp add: mstat_def example_at_def example_thread_def stat_defs)

lemma example_at_prio [simp]:
  "prio_of (example_at h pend p) t = (if t = 1 \<or> t = 2 \<or> t = 3 then 10 else if t = 4 then 31 else if t = 5 then p else 20)"
  by (simp add: example_at_def example_thread_def)

lemma example_at_list: "k_list (example_at h pend p) = (\<lambda>_. [])(L_ready 10 := [2, 3], L_ready 31 := [4], h := [5])"
  by (simp add: example_at_def)

lemma example_at_simps [simp]: "k_current (example_at h pend p) = Some 1" "k_lock (example_at h pend p) = 0" "k_irq (example_at h pend p) = 0"
  "hard_timer (example_at h pend p) i" "k_ipc (example_at h pend p) = example_ipc"
  by (simp_all add: example_at_def hard_timer_def)

lemma example_at_placed:
  assumes "is_wait_list h"
  shows "placed (k_list (example_at h pend p)) t \<longleftrightarrow> t \<in> {2, 3, 4, 5}"
proof
  assume "placed (k_list (example_at h pend p)) t"
  then show "t \<in> {2, 3, 4, 5}" by (auto simp: placed_def example_at_list split: if_splits)
next
  have "h \<noteq> L_ready n" for n using assms by (auto simp: is_wait_list_def)
  then have "2 \<in> set (k_list (example_at h pend p) (L_ready 10))" "3 \<in> set (k_list (example_at h pend p) (L_ready 10))"
    "4 \<in> set (k_list (example_at h pend p) (L_ready 31))" "5 \<in> set (k_list (example_at h pend p) h)"
    by (auto simp: example_at_list)
  moreover assume "t \<in> {2, 3, 4, 5}"
  ultimately show "placed (k_list (example_at h pend p)) t" unfolding placed_def by blast
qed

lemma example_at_inv:
  assumes h: "is_wait_list h" and p: "unat p < 32"
  shows "sched_inv {} (example_at h pend p)"
proof -
  let ?k = "example_at h pend p"
  have hr: "h \<noteq> L_ready n" "h \<noteq> L_defunct" for n using h by (auto simp: is_wait_list_def)
  have "k_group ?k = 2 ^ 10 OR 2 ^ 31" by (simp only: example_at_def kernel.select_convs)
  then have "bit (k_group ?k) n \<longleftrightarrow> n = 10 \<or> n = 31" for n by (simp only: bit_or_iff bit_exp_iff) auto
  then have "bitmap_ok ?k" using hr by (auto simp: bitmap_ok_def example_at_list)
  moreover have "links_ok {} ?k"
    unfolding links_ok_def example_at_placed [OF h] using hr by (auto simp: lists_ok_def example_at_def split: if_splits)
  moreover have "ready_ok {} ?k" using hr by (auto simp: ready_ok_def example_at_list stat_defs split: if_splits)
  moreover have "wait_ok ?k" using hr by (auto simp: wait_ok_def example_at_list split: if_splits)
  moreover have "running_ok {} ?k" by (auto simp: running_ok_def stat_defs split: if_splits)
  moreover have "prio_ok {} ?k" using p by (auto simp: prio_ok_def masked_def example_at_def example_thread_def)
  ultimately show ?thesis by (simp add: sched_inv_def)
qed

lemma example_at_context: "thread_context 1 (example_at h pend p)"
  by (simp add: thread_context_def stat_defs)

lemma example_stat [simp]: "mstat example_kernel t = (if t = 1 then 3 else if t = 2 \<or> t = 3 \<or> t = 4 then 2 else if t = 5 then 7 else 0)"
  by (simp add: example_kernel_def)

lemma example_prio [simp]: "prio_of example_kernel t = (if t = 1 \<or> t = 2 \<or> t = 3 then 10 else if t = 4 then 31 else if t = 5 then 5 else 20)"
  by (simp add: example_kernel_def)

lemma example_list: "k_list example_kernel = (\<lambda>_. [])(L_ready 10 := [2, 3], L_ready 31 := [4], L_suspend (O_sem 0) := [5])"
  by (simp add: example_kernel_def example_at_list)

lemma example_current [simp]: "k_current example_kernel = Some 1" "k_lock example_kernel = 0" "k_irq example_kernel = 0"
  by (simp_all add: example_kernel_def)

lemma example_inv: "sched_inv {} example_kernel"
  unfolding example_kernel_def by (rule example_at_inv) (simp_all add: is_wait_list_def)

lemma example_ok: "kernel_ok example_kernel"
  using example_inv by (simp add: kernel_ok_def sem_ok_def example_kernel_def example_at_def)

lemma example_context: "thread_context 1 example_kernel"
  by (simp add: thread_context_def stat_defs)

lemma example_contended: "contended 1 [2, 3] example_kernel"
  unfolding contended_def using example_inv by (simp add: example_list stat_defs)

lemma example_hard: "hard_timer example_kernel i"
  by (simp add: example_kernel_def)

section \<open>Mutexes\<close>

text \<open>The least urgent thread has mutex 0.\<close>

definition mutex_example :: kernel where
  "mutex_example = example_kernel\<lparr>
     k_mutex := (k_mutex example_kernel)(0 := \<lparr>mx_priority = 255, mx_ceiling_priority = 255, mx_hold = 1, mx_owner = Some 4, mx_linked = True\<rparr>),
     k_taken := (\<lambda>_. [])(4 := [0])\<rparr>"

text \<open>The running thread has mutex 1, with ceiling \<open>ce\<close> and priority \<open>min 10 ce\<close>, and thread 5 waits for it.\<close>

definition held_example :: "u8 \<Rightarrow> kernel" where
  "held_example ce = set_priority 1 (min 10 ce) ((example_at (L_suspend (O_mutex 1)) (Some 1) 20)\<lparr>
     k_mutex := (\<lambda>m. \<lparr>mx_priority = (if m = 1 then 20 else 255), mx_ceiling_priority = (if m = 1 then ce else 255), mx_hold = (if m = 1 then 1 else 0),
       mx_owner = (if m = 1 then Some 1 else None), mx_linked = (m = 1)\<rparr>),
     k_taken := (\<lambda>_. [])(1 := [1])\<rparr>)"

lemma mutex_frame_sched [simp]:
  "sched_inv X (k\<lparr>k_mutex := f\<rparr>) = sched_inv X k" "mstat (k\<lparr>k_mutex := f\<rparr>) = mstat k"
  by (simp_all add: sched_inv_def sched_parts mstat_def masked_def fun_eq_iff)

lemma example_thread_simps [simp]:
  "th_pending (k_thread (example_at h pend p) t) = (if t = 5 then pend else None)"
  "th_init_priority (k_thread (example_at h pend p) t) = (if t = 1 \<or> t = 2 \<or> t = 3 then 10 else if t = 4 then 31 else if t = 5 then p else 20)"
  by (simp_all add: example_at_def example_thread_def)

lemma mutex_example_inv: "mutex_inv mutex_example" "thread_context 1 mutex_example" "mx_owner (k_mutex mutex_example 0) = Some 4"
proof -
  have l: "k_list mutex_example (mutex_waiters m) = []" for m by (simp add: mutex_example_def example_list mutex_waiters_def)
  have "owned_ok mutex_example"
    by (auto simp: owned_ok_def mutex_example_def example_kernel_def) (simp_all add: example_at_def)
  moreover have "waits_ok mutex_example" unfolding waits_ok_def l first_priority_def
    by (auto simp: mutex_example_def example_kernel_def) (simp_all add: example_at_def)
  moreover have "inherits {} mutex_example"
    by (auto simp: inherits_def thread_get_mutex_priority_def mutex_example_def example_kernel_def)
  ultimately show "mutex_inv mutex_example" using example_inv by (simp add: mutex_inv_def mutex_example_def)
  show "thread_context 1 mutex_example" by (simp add: thread_context_def mutex_example_def stat_defs)
  show "mx_owner (k_mutex mutex_example 0) = Some 4" by (simp add: mutex_example_def)
qed

lemma held_example_simps:
  "mstat (held_example ce) t = (if t = 1 then 3 else if t = 2 \<or> t = 3 \<or> t = 4 then 2 else if t = 5 then 7 else 0)"
  "prio_of (held_example ce) t = (if t = 1 then min 10 ce else if t = 2 \<or> t = 3 then 10 else if t = 4 then 31 else 20)"
  "k_list (held_example ce) (mutex_waiters m) = (if m = 1 then [5] else [])" "mx_owner (k_mutex (held_example ce) 1) = Some 1"
  "mx_hold (k_mutex (held_example ce) 1) = 1" "mx_ceiling_priority (k_mutex (held_example ce) 1) = ce" "thread_context 1 (held_example ce)"
  by (simp_all add: held_example_def example_at_list mutex_waiters_def thread_context_def stat_defs)

lemma held_example_inv: "mutex_inv (held_example ce)"
proof -
  note S = held_example_simps
  have "owned_ok (held_example ce)" by (auto simp: owned_ok_def held_example_def)
  moreover have "waits_ok (held_example ce)" unfolding waits_ok_def S first_priority_def
    by (auto simp: held_example_def)
  moreover have "inherits {} (held_example ce)"
    unfolding inherits_def S by (auto simp: thread_get_mutex_priority_def held_example_def min_def) (simp add: word_less_nat_alt)
  moreover have "sched_inv {} (held_example ce)"
  proof -
    have "unat (min 10 ce) \<le> 10" by (simp add: min_def word_le_nat_alt)
    then show ?thesis unfolding held_example_def
      by (intro set_priority_inv) (simp_all add: example_at_inv is_wait_list_def stat_defs)
  qed
  ultimately show ?thesis by (simp add: mutex_inv_def)
qed

end
