(* ===== verification/Rt_Wait.thy ===== *)
theory Rt_Wait
  imports Rt_Mutex_Ops
begin

text \<open>
  The loop that mailboxes, message queues and memory pools share: while the object is not ready, the
  thread waits on one of its lists, with a time limit that shrinks by the ticks that have passed. A
  call is \<open>Blocked\<close> with its remaining time and the tick at which it went to sleep, or \<open>Done\<close>. The
  other half is waking the first thread of such a list.
\<close>

datatype 'a outcome = Done 'a | Blocked u32 u32

definition block_on :: "lhead \<Rightarrow> ipc_flag \<Rightarrow> u32 \<Rightarrow> suspend_flag \<Rightarrow> tid \<Rightarrow> kernel \<Rightarrow> (int outcome \<times> kernel) res" where
  "block_on h flag timeout sf t k =
     bindR (ipc_list_suspend h t flag sf k) (\<lambda>(ret, k).
     if ret \<noteq> RT_EOK then Inr (Done ret, k)
     else
       let tick_delta = (if sint timeout > 0 then rt_tick_get k else 0) in
       bindR (if sint timeout > 0 then start_thread_timer t timeout k else Inr k) (\<lambda>k.
       bindR (rt_schedule k) (\<lambda>k. Inr (Blocked timeout tick_delta, k))))"

definition time_left :: "u32 \<Rightarrow> u32 \<Rightarrow> kernel \<Rightarrow> u32" where
  "time_left timeout tick_delta k =
     (if sint timeout > 0 then
        let timeout = timeout - (rt_tick_get k - tick_delta) in if sint timeout < 0 then 0 else timeout
      else timeout)"

definition wake_first :: "lhead \<Rightarrow> kernel \<Rightarrow> kernel res" where
  "wake_first h k = (if k_list k h \<noteq> [] then bindR (ipc_list_resume h k) (\<lambda>(_, k). rt_schedule k) else Inr k)"

text \<open>The outcome of a receive that gets nothing.\<close>

definition no_value :: "int outcome \<Rightarrow> (int \<times> 'a option) outcome" where
  "no_value r = (case r of Done e \<Rightarrow> Done (e, None) | Blocked t d \<Rightarrow> Blocked t d)"

section \<open>Waiting\<close>

text \<open>What waiting and waking leave alone: everything but the scheduler's own state and the timers.\<close>

definition ipc_frame :: "kernel \<Rightarrow> kernel \<Rightarrow> bool" where
  "ipc_frame k' k \<longleftrightarrow> k_sem k' = k_sem k \<and> k_mutex k' = k_mutex k \<and> k_taken k' = k_taken k \<and> k_ipc k' = k_ipc k \<and> k_tick k' = k_tick k \<and>
     k_lock k' = k_lock k \<and> k_irq k' = k_irq k \<and>
     (\<forall>u. prio_of k' u = prio_of k u \<and> th_event_set (k_thread k' u) = th_event_set (k_thread k u) \<and>
        th_event_info (k_thread k' u) = th_event_info (k_thread k u) \<and> th_pending (k_thread k' u) = th_pending (k_thread k u))"

lemma ipc_frameD:
  assumes "ipc_frame k' k"
  shows "k_sem k' = k_sem k" "k_mutex k' = k_mutex k" "k_taken k' = k_taken k" "k_ipc k' = k_ipc k" "k_tick k' = k_tick k" "k_lock k' = k_lock k"
    "k_irq k' = k_irq k" "prio_of k' u = prio_of k u" "th_event_set (k_thread k' u) = th_event_set (k_thread k u)"
    "th_event_info (k_thread k' u) = th_event_info (k_thread k u)"
  using assms by (simp_all add: ipc_frame_def)

lemma ipc_frame_refl [simp]: "ipc_frame k k"
  by (simp add: ipc_frame_def)

lemma ipc_frame_trans: "ipc_frame k2 k1 \<Longrightarrow> ipc_frame k1 k \<Longrightarrow> ipc_frame k2 k"
  by (simp add: ipc_frame_def)

lemma ipc_frame_sched: "sched_frame k' k \<Longrightarrow> ipc_frame k' k"
  by (simp add: ipc_frame_def sched_frameD)

lemma ipc_frame_error [simp]: "ipc_frame (set_error t e k) k"
  by (simp add: ipc_frame_def) (simp add: set_error_def)

lemma ipc_frame_suspended [simp]: "ipc_frame (suspended t f k) k"
  by (simp add: ipc_frame_def) (simp add: suspended_def set_stat_def)

lemma ipc_frame_waiting [simp]: "ipc_frame (waiting h flag t k) k"
  by (simp add: ipc_frame_def)

lemma timer_tick [simp]:
  "k_tick (deactivate i k) = k_tick k" "k_tick (timer_remove i k) = k_tick k" "k_tick (upd_timer i f k) = k_tick k" "k_tick (timer_enlist i k) = k_tick k"
  "k_tick (snd (rt_timer_stop i k)) = k_tick k" "k_tick (tlist_remove t k) = k_tick k" "k_tick (enqueue t k) = k_tick k"
  by (simp_all add: deactivate_def timer_remove_def upd_timer_def timer_enlist_def rt_timer_stop_def tlist_remove_def enqueue_def set_stat_def Let_def)

lemma ipc_frame_armed [simp]: "ipc_frame (armed t n k) k"
  by (simp add: ipc_frame_def) (simp add: armed_def)

lemma resumed_event [simp]:
  "th_event_set (k_thread (resumed t k) u) = th_event_set (k_thread k u)" "th_event_info (k_thread (resumed t k) u) = th_event_info (k_thread k u)"
  "k_tick (resumed t k) = k_tick k"
  by (simp_all add: resumed_def)

lemma ipc_frame_resumed [simp]: "ipc_frame (resumed t k) k"
  by (simp add: ipc_frame_def)

text \<open>
  The calling thread waits on the list, in the order of the object's flag, and the most urgent ready
  thread runs.
\<close>

definition waits_on :: "lhead \<Rightarrow> ipc_flag \<Rightarrow> tid \<Rightarrow> kernel \<Rightarrow> kernel \<Rightarrow> bool" where
  "waits_on h flag c k k' \<longleftrightarrow> sched_inv {} k' \<and> runs_highest k' \<and> k_current k' \<noteq> Some c \<and> bit (mstat k' c) 2 \<and>
     (\<forall>h'. is_wait_list h' \<longrightarrow> k_list k' h' = (if h' = h then queued k flag c (k_list k h) else k_list k h')) \<and>
     th_error (k_thread k' c) = th_error (k_thread k c) \<and> ipc_frame k' k"

definition can_block :: "tid \<Rightarrow> u32 \<Rightarrow> kernel \<Rightarrow> bool" where
  "can_block c timeout k \<longleftrightarrow> sched_inv {} k \<and> thread_context c k \<and> (0 < sint timeout \<longrightarrow> timeout < RT_TICK_MAX div 2 \<and> hard_timer k (Tm_thread c)) \<and>
     (\<exists>u. mstat k u = RT_THREAD_READY)"

lemma wait_list_cases: "is_wait_list h \<Longrightarrow> (\<And>q. h = L_suspend q \<Longrightarrow> P) \<Longrightarrow> (\<And>q. h = L_sender q \<Longrightarrow> P) \<Longrightarrow> P"
  by (cases h) (auto simp: is_wait_list_def)

theorem block_on_waits:
  assumes cb: "can_block c timeout k" and h: "is_wait_list h"
  shows "\<exists>k'. block_on h flag timeout sf c k = Inr (Blocked timeout (if 0 < sint timeout then k_tick k else 0), k') \<and> waits_on h flag c k k'"
proof -
  obtain u where inv: "sched_inv {} k" and cx: "k_current k = Some c" "mstat k c = RT_THREAD_RUNNING" "k_lock k = 0" "k_irq k = 0"
    and tick: "0 < sint timeout \<longrightarrow> timeout < RT_TICK_MAX div 2 \<and> hard_timer k (Tm_thread c)" and other: "mstat k u = RT_THREAD_READY"
    using cb by (auto simp: can_block_def thread_context_def)
  let ?k1 = "waiting h flag c (suspended c sf k)"
  let ?k2 = "if 0 < sint timeout then armed c timeout ?k1 else ?k1"
  have s1: "ipc_list_suspend h c flag sf k = Inr (RT_EOK, ?k1)" and i1: "sched_inv {} ?k1"
    using ipc_list_suspend_eq [OF inv cx(1,2) h, of flag sf] by simp_all
  have a: "(if sint timeout > 0 then start_thread_timer c timeout ?k1 else Inr ?k1) = Inr ?k2"
    using tick by (simp add: arm_eq)
  have f2: "sched_inv {} ?k2" "k_list ?k2 = k_list ?k1" "mstat ?k2 = mstat ?k1" "k_current ?k2 = Some c" "k_irq ?k2 = 0" "k_lock ?k2 = 0"
    "k_thread ?k2 = k_thread ?k1" using i1 cx by simp_all
  have m2: "mstat ?k2 u = RT_THREAD_READY" "bit (mstat ?k2 c) 2"
    using other cx(2) f2(3) suspend_stat_bits(2) by (auto simp: stat_defs)
  obtain k' where k': "rt_schedule ?k2 = Inr k'" "sched_inv {} k'" "runs_highest k'"
    using rt_schedule_correct [OF f2(1,4,5)] m2(1) f2(6) by auto
  have fr: "sched_frame k' ?k2" by (rule rt_schedule_frame [OF f2(1,4,5) k'(1)])
  have cl: "c \<notin> set (k_list k h)" for h by (rule running_not_waiter [OF inv cx(2)])
  have q: "queued (suspended c sf k) flag c l = queued k flag c l" for l by (simp add: queued_def split: ipc_flag.splits)
  have lst: "k_list ?k2 h' = (if h' = h then queued k flag c (k_list k h) else k_list k h')" for h'
    using cl by (simp add: f2(2) q list_remove_def)
  have "k_list k' h' = k_list ?k2 h'" if "is_wait_list h'" for h'
    using that by (rule wait_list_cases) (simp_all add: sched_frameD [OF fr])
  moreover have "ipc_frame ?k1 k" by (rule ipc_frame_trans [OF ipc_frame_waiting ipc_frame_suspended])
  then have "ipc_frame ?k2 k" using ipc_frame_trans [OF ipc_frame_armed] by simp
  then have "ipc_frame k' k" by (rule ipc_frame_trans [OF ipc_frame_sched [OF fr]])
  moreover have "th_error (k_thread k' c) = th_error (k_thread k c)" using sched_frameD(8) [OF fr, of c] f2(7) by simp
  moreover note rt_schedule_suspended [OF f2(1,4,5) k'(1) m2(2)]
  ultimately have "waits_on h flag c k k'" using k' lst m2(2) by (simp add: waits_on_def)
  moreover have "block_on h flag timeout sf c k = Inr (Blocked timeout (if 0 < sint timeout then k_tick k else 0), k')"
    using s1 a k'(1) by (simp add: block_on_def rt_tick_get_def)
  ultimately show ?thesis by blast
qed

text \<open>The first thread of the list is ready again, with no error, and the most urgent ready thread runs.\<close>

definition woken :: "lhead \<Rightarrow> tid \<Rightarrow> tid list \<Rightarrow> kernel \<Rightarrow> kernel \<Rightarrow> bool" where
  "woken h t ts k k' \<longleftrightarrow> sched_inv {} k' \<and> runs_highest k' \<and> k_list k' h = ts \<and> mstat k' t \<in> {RT_THREAD_READY, RT_THREAD_RUNNING} \<and>
     th_error (k_thread k' t) = RT_EOK \<and> (\<forall>h'. is_wait_list h' \<and> h' \<noteq> h \<longrightarrow> k_list k' h' = k_list k h') \<and> ipc_frame k' k"

theorem wake_first_wakes:
  assumes inv: "sched_inv {} k" and c: "thread_context c k" and h: "is_wait_list h" and l: "k_list k h = t # ts"
  shows "\<exists>k'. wake_first h k = Inr k' \<and> woken h t ts k k'"
proof -
  have cx: "k_current k = Some c" "mstat k c = RT_THREAD_RUNNING" "k_lock k = 0" "k_irq k = 0" using c by (auto simp: thread_context_def)
  have "t \<noteq> c" using running_not_waiter [OF inv cx(2), of h] l by auto
  then have ct: "k_current k \<noteq> Some t" using cx by simp
  let ?k1 = "resumed t (set_error t RT_EOK k)"
  note r = ipc_list_resume_eq [OF inv h l ct, where e = RT_EOK]
  have cur: "k_current ?k1 = Some c" "k_irq ?k1 = 0" "k_lock ?k1 = 0" "mstat ?k1 t = RT_THREAD_READY" using cx by simp_all
  obtain k' where k': "rt_schedule ?k1 = Inr k'" "sched_inv {} k'" "runs_highest k'"
    using rt_schedule_correct [OF r(2) cur(1,2)] cur by auto
  have fr: "sched_frame k' ?k1" by (rule rt_schedule_frame [OF r(2) cur(1,2) k'(1)])
  have "k_list k' h' = k_list ?k1 h'" if "is_wait_list h'" for h'
    using that by (rule wait_list_cases) (simp_all add: sched_frameD [OF fr])
  moreover have "mstat k' t \<in> {RT_THREAD_READY, RT_THREAD_RUNNING}"
    using rt_schedule_cases [OF r(2) cur(1,2) k'(1)] by cases (use cur in auto)
  moreover have "th_error (k_thread k' t) = RT_EOK" using sched_frameD(8) [OF fr, of t] by simp
  moreover have "ipc_frame k' k"
    using ipc_frame_trans [OF ipc_frame_sched [OF fr]] ipc_frame_trans [OF ipc_frame_resumed ipc_frame_error] by blast
  moreover have "wake_first h k = Inr k'" using l r(1) k'(1) by (simp add: wake_first_def ipc_list_resume_def)
  ultimately show ?thesis using k' r(3,4) h by (auto simp: woken_def)
qed

text \<open>Waking, if there is anybody to wake.\<close>

definition woken_if :: "lhead \<Rightarrow> kernel \<Rightarrow> kernel \<Rightarrow> bool" where
  "woken_if h k k' \<longleftrightarrow> (case k_list k h of [] \<Rightarrow> k' = k | t # ts \<Rightarrow> woken h t ts k k')"

lemma wake_first_if:
  assumes "sched_inv {} k" "thread_context c k" "is_wait_list h"
  shows "\<exists>k'. wake_first h k = Inr k' \<and> woken_if h k k'"
  using wake_first_wakes [OF assms(1,2,3)] by (cases "k_list k h") (auto simp: woken_if_def wake_first_def)

lemma woken_ifD:
  assumes "woken_if h k k'" "sched_inv {} k"
  shows "sched_inv {} k'" "ipc_frame k' k" "is_wait_list h' \<Longrightarrow> h' \<noteq> h \<Longrightarrow> k_list k' h' = k_list k h'"
    "k_list k h = t # ts \<Longrightarrow> woken h t ts k k'"
  using assms by (auto simp: woken_if_def woken_def split: list.splits)

lemma context_available: "thread_context c k \<Longrightarrow> scheduler_available k \<and> k_current k = Some c"
  by (simp add: thread_context_def scheduler_available_def rt_critical_level_def)

end
