(* ===== verification/Rt_Mailbox.thy ===== *)
theory Rt_Mailbox
  imports Rt_Wait Ring
begin

text \<open>
  The mailboxes of \<^verbatim>\<open>rt-thread-am/src/ipc.c\<close>: a circular buffer of words, a list of threads that wait for
  mail and a list of threads that wait for room. On one thread a mailbox is a bounded queue.
\<close>

abbreviation mb_of :: "kernel \<Rightarrow> nat \<Rightarrow> rt_mailbox" where "mb_of k b \<equiv> o_mb (k_ipc k) b"

definition mb_receivers :: "nat \<Rightarrow> lhead" where "mb_receivers b = L_suspend (O_mb b)"
definition mb_senders :: "nat \<Rightarrow> lhead" where "mb_senders b = L_sender (O_mb b)"

definition upd_mb :: "nat \<Rightarrow> (rt_mailbox \<Rightarrow> rt_mailbox) \<Rightarrow> kernel \<Rightarrow> kernel" where
  "upd_mb b f k = k\<lparr>k_ipc := (k_ipc k)\<lparr>o_mb := (o_mb (k_ipc k))(b := f (mb_of k b))\<rparr>\<rparr>"

definition RT_MB_ENTRY_MAX :: u16 where "RT_MB_ENTRY_MAX = 0xffff"

section \<open>The buffer\<close>

definition mb_new :: "u32 list \<Rightarrow> u32 \<Rightarrow> ipc_flag \<Rightarrow> rt_mailbox" where
  "mb_new msgpool sz flag =
     \<lparr>mb_msg_pool = msgpool, mb_size = ucast sz, mb_entry = 0, mb_in_offset = 0, mb_out_offset = 0, mb_flag = flag\<rparr>"

text \<open>Storing a value at the end; \<open>False\<close> is the count at its limit.\<close>

definition mb_store :: "u32 \<Rightarrow> rt_mailbox \<Rightarrow> (bool \<times> rt_mailbox) res" where
  "mb_store value b =
     (if unat (mb_in_offset b) \<ge> length (mb_msg_pool b) then Inl (Bad_access ''msg_pool'')
      else
        let b = b\<lparr>mb_msg_pool := (mb_msg_pool b)[unat (mb_in_offset b) := value], mb_in_offset := mb_in_offset b + 1\<rparr>;
            b = (if mb_in_offset b \<ge> mb_size b then b\<lparr>mb_in_offset := 0\<rparr> else b)
        in if mb_entry b < RT_MB_ENTRY_MAX then Inr (True, b\<lparr>mb_entry := mb_entry b + 1\<rparr>) else Inr (False, b))"

definition mb_store_first :: "u32 \<Rightarrow> rt_mailbox \<Rightarrow> rt_mailbox res" where
  "mb_store_first value b =
     (let b = b\<lparr>mb_out_offset := (if mb_out_offset b > 0 then mb_out_offset b - 1 else mb_size b - 1)\<rparr> in
      if unat (mb_out_offset b) \<ge> length (mb_msg_pool b) then Inl (Bad_access ''msg_pool'')
      else Inr (b\<lparr>mb_msg_pool := (mb_msg_pool b)[unat (mb_out_offset b) := value], mb_entry := mb_entry b + 1\<rparr>))"

definition mb_fetch :: "rt_mailbox \<Rightarrow> (u32 \<times> rt_mailbox) res" where
  "mb_fetch b =
     (if unat (mb_out_offset b) \<ge> length (mb_msg_pool b) then Inl (Bad_access ''msg_pool'')
      else
        let value = mb_msg_pool b ! unat (mb_out_offset b);
            b = b\<lparr>mb_out_offset := mb_out_offset b + 1\<rparr>;
            b = (if mb_out_offset b \<ge> mb_size b then b\<lparr>mb_out_offset := 0\<rparr> else b);
            b = (if mb_entry b > 0 then b\<lparr>mb_entry := mb_entry b - 1\<rparr> else b)
        in Inr (value, b))"

section \<open>Operations\<close>

definition rt_mb_init :: "nat \<Rightarrow> u32 list \<Rightarrow> u32 \<Rightarrow> ipc_flag \<Rightarrow> kernel \<Rightarrow> (int \<times> kernel) res" where
  "rt_mb_init b msgpool sz flag k =
     (if k_list k (mb_receivers b) \<noteq> [] \<or> k_list k (mb_senders b) \<noteq> [] then Inl (Bad_access ''suspend_thread'')
      else Inr (RT_EOK, upd_mb b (\<lambda>_. mb_new msgpool sz flag) k))"

text \<open>\<^verbatim>\<open>rt_mb_create\<close>: \<open>alloc\<close> is the memory \<^verbatim>\<open>RT_KERNEL_MALLOC\<close> returns, if any.\<close>

definition rt_mb_create :: "nat \<Rightarrow> u32 list option \<Rightarrow> u32 \<Rightarrow> ipc_flag \<Rightarrow> kernel \<Rightarrow> (nat option \<times> kernel) res" where
  "rt_mb_create b alloc sz flag k =
     assertR (k_irq k = 0) ''shall not be used in ISR''
       (case alloc of
          None \<Rightarrow> Inr (None, k)
        | Some msgpool \<Rightarrow> bindR (rt_mb_init b msgpool sz flag k) (\<lambda>(_, k). Inr (Some b, k)))"

definition mb_release_all :: "nat \<Rightarrow> kernel \<Rightarrow> kernel res option" where
  "mb_release_all b k = bindO (ipc_list_resume_all (mb_receivers b) k) (\<lambda>k. ipc_list_resume_all (mb_senders b) k)"

definition rt_mb_detach :: "nat \<Rightarrow> kernel \<Rightarrow> (int \<times> kernel) res option" where
  "rt_mb_detach b k = bindO (mb_release_all b k) (\<lambda>k. Some (Inr (RT_EOK, k)))"

definition rt_mb_delete :: "nat \<Rightarrow> kernel \<Rightarrow> (int \<times> kernel) res option" where
  "rt_mb_delete b k =
     (if k_irq k \<noteq> 0 then Some (Inl (Assert_fail ''shall not be used in ISR''))
      else bindO (mb_release_all b k) (\<lambda>k. Some (Inr (RT_EOK, k))))"

text \<open>Sending: the loop from its test on, and its way out.\<close>

definition mb_send_put :: "nat \<Rightarrow> u32 \<Rightarrow> kernel \<Rightarrow> (int outcome \<times> kernel) res" where
  "mb_send_put b value k =
     bindR (mb_store value (mb_of k b)) (\<lambda>(ok, mb).
     let k = upd_mb b (\<lambda>_. mb) k in
     if \<not> ok then Inr (Done (- RT_EFULL), k) else bindR (wake_first (mb_receivers b) k) (\<lambda>k. Inr (Done RT_EOK, k)))"

definition mb_send_loop :: "nat \<Rightarrow> u32 \<Rightarrow> u32 \<Rightarrow> suspend_flag \<Rightarrow> kernel \<Rightarrow> (int outcome \<times> kernel) res" where
  "mb_send_loop b value timeout sf k =
     (if mb_entry (mb_of k b) = mb_size (mb_of k b) then
        (case k_current k of
           None \<Rightarrow> Inl (Bad_access ''rt_current_thread'')
         | Some t \<Rightarrow>
             let k = set_error t (- RT_EINTR) k in
             if timeout = 0 then Inr (Done (- RT_EFULL), k)
             else block_on (mb_senders b) (mb_flag (mb_of k b)) timeout sf t k)
      else mb_send_put b value k)"

definition rt_mb_send_wait_flag :: "nat \<Rightarrow> u32 \<Rightarrow> u32 \<Rightarrow> suspend_flag \<Rightarrow> kernel \<Rightarrow> (int outcome \<times> kernel) res" where
  "rt_mb_send_wait_flag b value timeout sf k =
     assertR (timeout \<noteq> 0 \<longrightarrow> scheduler_available k) ''scheduler is not available''
       (if mb_entry (mb_of k b) = mb_size (mb_of k b) \<and> timeout = 0 then Inr (Done (- RT_EFULL), k)
        else mb_send_loop b value timeout sf k)"

definition rt_mb_send_end :: "nat \<Rightarrow> u32 \<Rightarrow> u32 \<Rightarrow> u32 \<Rightarrow> suspend_flag \<Rightarrow> tid \<Rightarrow> kernel \<Rightarrow> (int outcome \<times> kernel) res" where
  "rt_mb_send_end b value timeout tick_delta sf t k =
     (if th_error (k_thread k t) \<noteq> RT_EOK then Inr (Done (th_error (k_thread k t)), k)
      else mb_send_loop b value (time_left timeout tick_delta k) sf k)"

definition rt_mb_send_wait :: "nat \<Rightarrow> u32 \<Rightarrow> u32 \<Rightarrow> kernel \<Rightarrow> (int outcome \<times> kernel) res" where
  "rt_mb_send_wait b value timeout k = rt_mb_send_wait_flag b value timeout RT_UNINTERRUPTIBLE k"

definition rt_mb_send_wait_interruptible :: "nat \<Rightarrow> u32 \<Rightarrow> u32 \<Rightarrow> kernel \<Rightarrow> (int outcome \<times> kernel) res" where
  "rt_mb_send_wait_interruptible b value timeout k = rt_mb_send_wait_flag b value timeout RT_INTERRUPTIBLE k"

definition rt_mb_send_wait_killable :: "nat \<Rightarrow> u32 \<Rightarrow> u32 \<Rightarrow> kernel \<Rightarrow> (int outcome \<times> kernel) res" where
  "rt_mb_send_wait_killable b value timeout k = rt_mb_send_wait_flag b value timeout RT_KILLABLE k"

definition rt_mb_send :: "nat \<Rightarrow> u32 \<Rightarrow> kernel \<Rightarrow> (int outcome \<times> kernel) res" where
  "rt_mb_send b value k = rt_mb_send_wait b value 0 k"

definition rt_mb_send_interruptible :: "nat \<Rightarrow> u32 \<Rightarrow> kernel \<Rightarrow> (int outcome \<times> kernel) res" where
  "rt_mb_send_interruptible b value k = rt_mb_send_wait_interruptible b value 0 k"

definition rt_mb_send_killable :: "nat \<Rightarrow> u32 \<Rightarrow> kernel \<Rightarrow> (int outcome \<times> kernel) res" where
  "rt_mb_send_killable b value k = rt_mb_send_wait_killable b value 0 k"

definition rt_mb_urgent :: "nat \<Rightarrow> u32 \<Rightarrow> kernel \<Rightarrow> (int \<times> kernel) res" where
  "rt_mb_urgent b value k =
     (if mb_entry (mb_of k b) = mb_size (mb_of k b) then Inr (- RT_EFULL, k)
      else bindR (mb_store_first value (mb_of k b)) (\<lambda>mb.
        bindR (wake_first (mb_receivers b) (upd_mb b (\<lambda>_. mb) k)) (\<lambda>k. Inr (RT_EOK, k))))"

text \<open>Receiving: the result is the error code and the value of \<^verbatim>\<open>*value\<close>.\<close>

definition mb_recv_get :: "nat \<Rightarrow> kernel \<Rightarrow> ((int \<times> u32 option) outcome \<times> kernel) res" where
  "mb_recv_get b k =
     bindR (mb_fetch (mb_of k b)) (\<lambda>(value, mb).
     bindR (wake_first (mb_senders b) (upd_mb b (\<lambda>_. mb) k)) (\<lambda>k. Inr (Done (RT_EOK, Some value), k)))"

definition mb_recv_loop :: "nat \<Rightarrow> u32 \<Rightarrow> suspend_flag \<Rightarrow> kernel \<Rightarrow> ((int \<times> u32 option) outcome \<times> kernel) res" where
  "mb_recv_loop b timeout sf k =
     (if mb_entry (mb_of k b) = 0 then
        (case k_current k of
           None \<Rightarrow> Inl (Bad_access ''rt_current_thread'')
         | Some t \<Rightarrow>
             if timeout = 0 then Inr (Done (- RT_ETIMEOUT, None), set_error t (- RT_ETIMEOUT) k)
             else bindR (block_on (mb_receivers b) (mb_flag (mb_of k b)) timeout sf t (set_error t (- RT_EINTR) k))
               (\<lambda>(r, k). Inr (no_value r, k)))
      else mb_recv_get b k)"

definition rt_mb_recv_flag :: "nat \<Rightarrow> u32 \<Rightarrow> suspend_flag \<Rightarrow> kernel \<Rightarrow> ((int \<times> u32 option) outcome \<times> kernel) res" where
  "rt_mb_recv_flag b timeout sf k =
     assertR (timeout \<noteq> 0 \<longrightarrow> scheduler_available k) ''scheduler is not available''
       (if mb_entry (mb_of k b) = 0 \<and> timeout = 0 then Inr (Done (- RT_ETIMEOUT, None), k)
        else mb_recv_loop b timeout sf k)"

definition rt_mb_recv_end :: "nat \<Rightarrow> u32 \<Rightarrow> u32 \<Rightarrow> suspend_flag \<Rightarrow> tid \<Rightarrow> kernel \<Rightarrow> ((int \<times> u32 option) outcome \<times> kernel) res" where
  "rt_mb_recv_end b timeout tick_delta sf t k =
     (if th_error (k_thread k t) \<noteq> RT_EOK then Inr (Done (th_error (k_thread k t), None), k)
      else mb_recv_loop b (time_left timeout tick_delta k) sf k)"

definition rt_mb_recv :: "nat \<Rightarrow> u32 \<Rightarrow> kernel \<Rightarrow> ((int \<times> u32 option) outcome \<times> kernel) res" where
  "rt_mb_recv b timeout k = rt_mb_recv_flag b timeout RT_UNINTERRUPTIBLE k"

definition rt_mb_recv_interruptibale :: "nat \<Rightarrow> u32 \<Rightarrow> kernel \<Rightarrow> ((int \<times> u32 option) outcome \<times> kernel) res" where
  "rt_mb_recv_interruptibale b timeout k = rt_mb_recv_flag b timeout RT_INTERRUPTIBLE k"

definition rt_mb_recv_killable :: "nat \<Rightarrow> u32 \<Rightarrow> kernel \<Rightarrow> ((int \<times> u32 option) outcome \<times> kernel) res" where
  "rt_mb_recv_killable b timeout k = rt_mb_recv_flag b timeout RT_KILLABLE k"

definition rt_mb_control :: "nat \<Rightarrow> bool \<Rightarrow> kernel \<Rightarrow> (int \<times> kernel) res option" where
  "rt_mb_control b reset k =
     (if reset then
        bindO (mb_release_all b k) (\<lambda>k.
        Some (bindR (rt_schedule (upd_mb b (\<lambda>m. m\<lparr>mb_entry := 0, mb_in_offset := 0, mb_out_offset := 0\<rparr>) k)) (\<lambda>k. Inr (RT_EOK, k))))
      else Some (Inr (- RT_ERROR, k)))"


section \<open>A mailbox is a bounded queue\<close>

definition mb_inv :: "rt_mailbox \<Rightarrow> bool" where
  "mb_inv b \<longleftrightarrow> length (mb_msg_pool b) = unat (mb_size b) \<and> mb_size b \<noteq> 0 \<and> mb_entry b \<le> mb_size b \<and>
     mb_out_offset b < mb_size b \<and> unat (mb_in_offset b) = (unat (mb_out_offset b) + unat (mb_entry b)) mod unat (mb_size b)"

definition mb_items :: "rt_mailbox \<Rightarrow> u32 list" where
  "mb_items b = ring_take (mb_msg_pool b) (unat (mb_out_offset b)) (unat (mb_entry b))"

lemma u16_less_max: "(w :: u16) < v \<Longrightarrow> unat w + 1 < 2 ^ LENGTH(16)"
  using unat_lt2p [of v] by (simp add: word_less_nat_alt)

lemma u16_incr: "(w :: u16) < v \<Longrightarrow> unat (w + 1) = unat w + 1"
  using unat_plus_1 u16_less_max by (metis)

lemma mb_invD:
  assumes "mb_inv b"
  shows "length (mb_msg_pool b) = unat (mb_size b)" "0 < unat (mb_size b)" "unat (mb_entry b) \<le> unat (mb_size b)"
    "unat (mb_out_offset b) < unat (mb_size b)"
    "unat (mb_in_offset b) = (unat (mb_out_offset b) + unat (mb_entry b)) mod unat (mb_size b)" "unat (mb_in_offset b) < unat (mb_size b)"
  using assms by (auto simp: mb_inv_def word_le_nat_alt word_less_nat_alt unat_gt_0)

lemma wrap_next:
  assumes "unat w < unat (n :: u16)"
  shows "unat (if w + 1 \<ge> n then 0 else w + 1) = (unat w + 1) mod unat n"
proof -
  have "unat (w + 1) = unat w + 1" using assms by (intro u16_incr [of w n]) (simp add: word_less_nat_alt)
  then show ?thesis using assms by (auto simp: word_le_nat_alt mod_if)
qed

lemma mb_new_inv: "length msgpool = unat sz \<Longrightarrow> 0 < unat sz \<Longrightarrow> unat sz < 2 ^ 16 \<Longrightarrow> mb_inv (mb_new msgpool sz flag)"
  by (simp add: mb_inv_def mb_new_def word_less_nat_alt unsigned_ucast_eq unsigned_take_bit_eq take_bit_eq_mod flip: unat_gt_0)

lemma mb_store_spec:
  assumes i: "mb_inv b" and room: "mb_entry b \<noteq> mb_size b"
  shows "\<exists>b'. mb_store value b = Inr (True, b') \<and> mb_inv b' \<and> mb_items b' = mb_items b @ [value] \<and> mb_size b' = mb_size b \<and> mb_flag b' = mb_flag b"
proof -
  note D = mb_invD [OF i]
  have lt: "unat (mb_entry b) < unat (mb_size b)" using D(3) room by (metis le_neq_implies_less word_unat_eq_iff)
  then have e1: "unat (mb_entry b + 1) = unat (mb_entry b) + 1" by (intro u16_incr [of _ "mb_size b"]) (simp add: word_less_nat_alt)
  have "unat (mb_entry b) < 65535" using lt unat_lt2p [of "mb_size b"] by simp
  then have mx: "mb_entry b < RT_MB_ENTRY_MAX" by (simp add: RT_MB_ENTRY_MAX_def word_less_nat_alt)
  let ?b = "b\<lparr>mb_msg_pool := (mb_msg_pool b)[unat (mb_in_offset b) := value],
     mb_in_offset := (if mb_in_offset b + 1 \<ge> mb_size b then 0 else mb_in_offset b + 1), mb_entry := mb_entry b + 1\<rparr>"
  have s: "mb_store value b = Inr (True, ?b)" using D(1,6) mx by (simp add: mb_store_def Let_def)
  have inv: "mb_inv ?b"
  proof -
    have "unat (mb_in_offset ?b) = (unat (mb_in_offset b) + 1) mod unat (mb_size b)" using wrap_next [OF D(6)] by simp
    also have "\<dots> = (unat (mb_out_offset b) + unat (mb_entry b + 1)) mod unat (mb_size b)" unfolding D(5) e1 by (simp add: mod_Suc_eq)
    finally show ?thesis using i lt e1 by (simp add: mb_inv_def word_le_nat_alt)
  qed
  have "mb_items ?b = ring_take ((mb_msg_pool b)[(unat (mb_out_offset b) + unat (mb_entry b)) mod length (mb_msg_pool b) := value])
      (unat (mb_out_offset b)) (Suc (unat (mb_entry b)))" by (simp add: mb_items_def e1 D(1,5))
  also have "\<dots> = mb_items b @ [value]" using lt D(1) by (subst ring_take_push) (simp_all add: mb_items_def)
  finally show ?thesis using s inv by simp
qed

lemma mb_fetch_spec:
  assumes i: "mb_inv b" and ne: "mb_entry b \<noteq> 0"
  shows "\<exists>b'. mb_fetch b = Inr (hd (mb_items b), b') \<and> mb_inv b' \<and> mb_items b' = tl (mb_items b) \<and> mb_size b' = mb_size b \<and> mb_flag b' = mb_flag b \<and>
    mb_entry b' \<noteq> mb_size b'"
proof -
  note D = mb_invD [OF i]
  have e1: "unat (mb_entry b) = Suc (unat (mb_entry b - 1))" using unat_minus_1 [OF ne] ne by (simp add: unat_gt_0)
  let ?b = "b\<lparr>mb_out_offset := (if mb_out_offset b + 1 \<ge> mb_size b then 0 else mb_out_offset b + 1), mb_entry := mb_entry b - 1\<rparr>"
  have o: "unat (mb_out_offset ?b) = Suc (unat (mb_out_offset b)) mod unat (mb_size b)" using wrap_next [OF D(4)] by simp
  have hd: "hd (mb_items b) = mb_msg_pool b ! unat (mb_out_offset b)"
    using ring_take_hd [of "unat (mb_entry b)" "mb_msg_pool b" "unat (mb_out_offset b)"] e1 D(1,4) by (simp add: mb_items_def)
  have s: "mb_fetch b = Inr (hd (mb_items b), ?b)" using D(1,4) ne by (simp add: mb_fetch_def Let_def hd word_gt_0)
  have "mb_items ?b = tl (mb_items b)"
    using ring_take_tl [of "mb_msg_pool b" "unat (mb_out_offset b)" "unat (mb_entry b - 1)"] o e1 D(1) by (simp add: mb_items_def)
  moreover have "mb_inv ?b"
  proof -
    have "(Suc (unat (mb_out_offset b)) mod unat (mb_size b) + unat (mb_entry b - 1)) mod unat (mb_size b) =
      (unat (mb_out_offset b) + unat (mb_entry b)) mod unat (mb_size b)" unfolding e1 by (simp add: mod_add_left_eq flip: add_Suc)
    then have "unat (mb_in_offset ?b) = (unat (mb_out_offset ?b) + unat (mb_entry ?b)) mod unat (mb_size ?b)" unfolding o using D(5) by simp
    moreover have "unat (mb_out_offset ?b) < unat (mb_size b)" unfolding o using D(2) by simp
    ultimately show ?thesis unfolding mb_inv_def using i e1 D(3) by (simp add: mb_inv_def word_le_nat_alt word_less_nat_alt)
  qed
  moreover have "mb_entry ?b \<noteq> mb_size ?b" using e1 D(3) by auto
  ultimately show ?thesis using s by simp
qed

lemma mb_store_first_spec:
  assumes i: "mb_inv b" and room: "mb_entry b \<noteq> mb_size b"
  shows "\<exists>b'. mb_store_first value b = Inr b' \<and> mb_inv b' \<and> mb_items b' = value # mb_items b \<and> mb_size b' = mb_size b \<and> mb_flag b' = mb_flag b"
proof -
  note D = mb_invD [OF i]
  let ?N = "unat (mb_size b)" and ?o = "unat (mb_out_offset b)" and ?n = "unat (mb_entry b)"
  have lt: "?n < ?N" using D(3) room by (metis le_neq_implies_less word_unat_eq_iff)
  then have e1: "unat (mb_entry b + 1) = Suc ?n" by (subst u16_incr [of _ "mb_size b"]) (simp_all add: word_less_nat_alt)
  define out where "out = (if mb_out_offset b > 0 then mb_out_offset b - 1 else mb_size b - 1)"
  have o: "unat out = (?o + ?N - 1) mod ?N"
  proof (cases "mb_out_offset b = 0")
    case True
    then have "out = mb_size b - 1" "?o = 0" by (simp_all add: out_def)
    moreover have "mb_size b \<noteq> 0" using D(2) by (simp add: unat_gt_0)
    ultimately have "unat out = ?N - 1" "?o = 0" using unat_minus_1 by metis+
    then show ?thesis using D(2) by simp
  next
    case False
    then have "0 < ?o" "out = mb_out_offset b - 1" by (simp_all add: unat_gt_0 out_def word_gt_0)
    then obtain x where x: "?o = Suc x" using gr0_implies_Suc by blast
    then have "(?o + ?N - 1) mod ?N = ?o - 1" using D(4) by simp
    then show ?thesis using unat_minus_1 [OF False] \<open>out = mb_out_offset b - 1\<close> by metis
  qed
  let ?b = "b\<lparr>mb_out_offset := out, mb_msg_pool := (mb_msg_pool b)[unat out := value], mb_entry := mb_entry b + 1\<rparr>"
  have ol: "unat out < ?N" unfolding o using D(2) by simp
  have s: "mb_store_first value b = Inr ?b" using ol D(1) by (simp add: mb_store_first_def Let_def out_def [symmetric])
  have bk: "Suc (unat out) mod ?N = ?o" unfolding o using D(2,4) by (simp add: mod_Suc_eq)
  have len: "length ((mb_msg_pool b)[unat out := value]) = ?N" using D(1) by simp
  have tl: "tl (mb_items ?b) = ring_take ((mb_msg_pool b)[unat out := value]) ?o ?n"
    using ring_take_tl [of "(mb_msg_pool b)[unat out := value]" "unat out" ?n] bk e1 len by (simp add: mb_items_def)
  have "(?o + (?N - 1)) mod ?N = unat out" using o D(2) by simp
  then have "ring_take ((mb_msg_pool b)[unat out := value]) ?o ?n = mb_items b"
    using ring_take_update_outside [of ?n "?N - 1" "mb_msg_pool b" ?o "value"] lt D(1) by (simp add: mb_items_def)
  moreover have "hd (mb_items ?b) = value"
    using ring_take_hd [of "Suc ?n" "(mb_msg_pool b)[unat out := value]" "unat out"] ol len D(1) e1 by (simp add: mb_items_def)
  moreover have "length (mb_items ?b) = Suc ?n" using e1 by (simp add: mb_items_def)
  then have "mb_items ?b \<noteq> []" by auto
  ultimately have "mb_items ?b = value # mb_items b" using tl by (metis list.collapse)
  moreover have "mb_inv ?b"
  proof -
    have "(unat out + Suc ?n) mod ?N = (Suc (unat out) mod ?N + ?n) mod ?N" by (simp add: mod_add_left_eq)
    then have "unat (mb_in_offset b) = (unat out + unat (mb_entry b + 1)) mod ?N" unfolding bk e1 using D(5) by simp
    then show ?thesis unfolding mb_inv_def using i e1 lt ol D(1) by (simp add: mb_inv_def word_le_nat_alt word_less_nat_alt)
  qed
  ultimately show ?thesis using s by simp
qed


text \<open>Sending without waiting and receiving from a mailbox that has mail, on the buffer alone.\<close>

definition mb_try_send :: "u32 \<Rightarrow> rt_mailbox \<Rightarrow> rt_mailbox res" where
  "mb_try_send value b =
     (if mb_entry b = mb_size b then Inl (Assert_fail ''RT_EFULL'') else bindR (mb_store value b) (\<lambda>(_, b). Inr b))"

definition mb_try_recv :: "rt_mailbox \<Rightarrow> u32 \<times> rt_mailbox" where
  "mb_try_recv b = (if mb_entry b = 0 then (0, b) else case mb_fetch b of Inr r \<Rightarrow> r | Inl _ \<Rightarrow> (0, b))"

lemma mb_items_length [simp]: "length (mb_items b) = unat (mb_entry b)"
  by (simp add: mb_items_def)

interpretation mbq: bounded_fifo "\<lambda>b. mb_inv b \<and> unat (mb_size b) = n" mb_items n mb_try_send mb_try_recv for n
proof unfold_locales
  fix b b' :: rt_mailbox and v :: u32
  assume i: "mb_inv b \<and> unat (mb_size b) = n"
  have full: "mb_entry b = mb_size b \<longleftrightarrow> \<not> length (mb_items b) < n"
    using i mb_invD(3) [of b] by (auto simp: word_unat_eq_iff)
  show "is_ok (mb_try_send v b) \<longleftrightarrow> length (mb_items b) < n"
    using full mb_store_spec [of b v] i by (auto simp: mb_try_send_def)
  show "mb_inv b' \<and> unat (mb_size b') = n" "mb_items b' = mb_items b @ [v]" if "mb_try_send v b = Inr b'"
    using that mb_store_spec [of b v] i by (auto simp: mb_try_send_def split: if_splits)
  show "mb_inv (snd (mb_try_recv b)) \<and> unat (mb_size (snd (mb_try_recv b))) = n"
    using i mb_fetch_spec [of b] by (auto simp: mb_try_recv_def)
  show "fst (mb_try_recv b) = hd (mb_items b)" if "mb_items b \<noteq> []"
    using that i mb_fetch_spec [of b] by (auto simp: mb_try_recv_def mb_items_def)
  show "mb_items (snd (mb_try_recv b)) = tl (mb_items b)"
    using i mb_fetch_spec [of b] by (auto simp: mb_try_recv_def mb_items_def)
qed

section \<open>Sending and receiving\<close>

lemma upd_mb_simps [simp]:
  "mb_of (upd_mb b f k) b' = (if b' = b then f (mb_of k b) else mb_of k b')" "sched_inv X (upd_mb b f k) = sched_inv X k"
  "k_thread (upd_mb b f k) = k_thread k" "k_list (upd_mb b f k) = k_list k" "k_current (upd_mb b f k) = k_current k" "k_irq (upd_mb b f k) = k_irq k"
  "k_lock (upd_mb b f k) = k_lock k" "mstat (upd_mb b f k) = mstat k" "thread_context c (upd_mb b f k) = thread_context c k"
  "k_tick (upd_mb b f k) = k_tick k"
  by (simp_all add: upd_mb_def sched_inv_def sched_parts mstat_def masked_def fun_eq_iff thread_context_def)

lemma mb_lists [simp]: "is_wait_list (mb_receivers b)" "is_wait_list (mb_senders b)" "mb_receivers b \<noteq> mb_senders b'" "mb_senders b' \<noteq> mb_receivers b"
  by (simp_all add: is_wait_list_def mb_receivers_def mb_senders_def)

theorem rt_mb_send_stores:
  assumes inv: "sched_inv {} k" and c: "thread_context c k" and b: "mb_inv (mb_of k b)" and room: "mb_entry (mb_of k b) \<noteq> mb_size (mb_of k b)"
  shows "\<exists>k1 k'. rt_mb_send_wait_flag b v timeout sf k = Inr (Done RT_EOK, k') \<and> woken_if (mb_receivers b) k1 k' \<and>
    (\<exists>m. k1 = upd_mb b (\<lambda>_. m) k) \<and> sched_inv {} k' \<and> mb_inv (mb_of k' b) \<and> mb_items (mb_of k' b) = mb_items (mb_of k b) @ [v] \<and>
    mb_size (mb_of k' b) = mb_size (mb_of k b)"
proof -
  obtain m where m: "mb_store v (mb_of k b) = Inr (True, m)" "mb_inv m" "mb_items m = mb_items (mb_of k b) @ [v]" "mb_size m = mb_size (mb_of k b)"
    using mb_store_spec [OF b room] by blast
  let ?k1 = "upd_mb b (\<lambda>_. m) k"
  obtain k' where k': "wake_first (mb_receivers b) ?k1 = Inr k'" "woken_if (mb_receivers b) ?k1 k'"
    using wake_first_if [of ?k1 c "mb_receivers b"] inv c by auto
  note W = woken_ifD [OF k'(2)]
  have "rt_mb_send_wait_flag b v timeout sf k = Inr (Done RT_EOK, k')"
    using room m(1) k'(1) context_available [OF c] by (simp add: rt_mb_send_wait_flag_def mb_send_loop_def mb_send_put_def)
  moreover have "sched_inv {} k'" "mb_of k' b = m" using W(1,2) inv ipc_frameD(4) by auto
  ultimately show ?thesis using k'(2) m by blast
qed

text \<open>
  What putting a value into a mailbox leaves: the kernel well-formed, the mailbox with the items \<open>vs\<close>, and the
  first receiver, if there is one, woken.
\<close>

definition mb_put :: "nat \<Rightarrow> kernel \<Rightarrow> kernel \<Rightarrow> u32 list \<Rightarrow> bool" where
  "mb_put b k k' vs \<longleftrightarrow> sched_inv {} k' \<and> mb_inv (mb_of k' b) \<and> mb_items (mb_of k' b) = vs \<and> mb_size (mb_of k' b) = mb_size (mb_of k b) \<and>
     (\<forall>r rs. k_list k (mb_receivers b) = r # rs \<longrightarrow>
        k_list k' (mb_receivers b) = rs \<and> mstat k' r \<in> {RT_THREAD_READY, RT_THREAD_RUNNING})"

lemma mb_put_woken:
  assumes "sched_inv {} k" "woken_if (mb_receivers b) (upd_mb b (\<lambda>_. m) k) k'" "sched_inv {} k'" "mb_inv (mb_of k' b)"
    "mb_items (mb_of k' b) = vs" "mb_size (mb_of k' b) = mb_size (mb_of k b)"
  shows "mb_put b k k' vs"
  using assms woken_ifD(4) [OF assms(2)] by (auto simp: mb_put_def woken_def)

lemma rt_mb_send_puts:
  assumes "sched_inv {} k" "thread_context c k" "mb_inv (mb_of k b)" "mb_entry (mb_of k b) \<noteq> mb_size (mb_of k b)"
  shows "\<exists>k'. rt_mb_send_wait_flag b v timeout sf k = Inr (Done RT_EOK, k') \<and> mb_put b k k' (mb_items (mb_of k b) @ [v])"
  using rt_mb_send_stores [OF assms, of v timeout sf] mb_put_woken [OF assms(1)] by blast

theorem rt_mb_send_full:
  assumes c: "thread_context c k" and full: "mb_entry (mb_of k b) = mb_size (mb_of k b)"
  shows "rt_mb_send_wait_flag b v 0 sf k = Inr (Done (- RT_EFULL), k)"
    and "timeout \<noteq> 0 \<Longrightarrow> can_block c timeout k \<Longrightarrow> \<exists>k' d. rt_mb_send_wait_flag b v timeout sf k = Inr (Blocked timeout d, k') \<and>
      waits_on (mb_senders b) (mb_flag (mb_of k b)) c (set_error c (- RT_EINTR) k) k'"
proof -
  show "rt_mb_send_wait_flag b v 0 sf k = Inr (Done (- RT_EFULL), k)" using full by (simp add: rt_mb_send_wait_flag_def)
  assume to: "timeout \<noteq> 0" and cb: "can_block c timeout k"
  have "can_block c timeout (set_error c (- RT_EINTR) k)" using cb by (simp add: can_block_def thread_context_def)
  from block_on_waits [OF this, of "mb_senders b" "mb_flag (mb_of k b)" sf]
  show "\<exists>k' d. rt_mb_send_wait_flag b v timeout sf k = Inr (Blocked timeout d, k') \<and>
      waits_on (mb_senders b) (mb_flag (mb_of k b)) c (set_error c (- RT_EINTR) k) k'"
    using full to context_available [OF c] by (auto simp: rt_mb_send_wait_flag_def mb_send_loop_def)
qed

theorem rt_mb_urgent_stores:
  assumes inv: "sched_inv {} k" and c: "thread_context c k" and b: "mb_inv (mb_of k b)" and room: "mb_entry (mb_of k b) \<noteq> mb_size (mb_of k b)"
  shows "\<exists>k1 k'. rt_mb_urgent b v k = Inr (RT_EOK, k') \<and> woken_if (mb_receivers b) k1 k' \<and>
    (\<exists>m. k1 = upd_mb b (\<lambda>_. m) k) \<and> sched_inv {} k' \<and> mb_inv (mb_of k' b) \<and> mb_items (mb_of k' b) = v # mb_items (mb_of k b) \<and>
    mb_size (mb_of k' b) = mb_size (mb_of k b)"
proof -
  obtain m where m: "mb_store_first v (mb_of k b) = Inr m" "mb_inv m" "mb_items m = v # mb_items (mb_of k b)" "mb_size m = mb_size (mb_of k b)"
    using mb_store_first_spec [OF b room] by blast
  let ?k1 = "upd_mb b (\<lambda>_. m) k"
  obtain k' where k': "wake_first (mb_receivers b) ?k1 = Inr k'" "woken_if (mb_receivers b) ?k1 k'"
    using wake_first_if [of ?k1 c "mb_receivers b"] inv c by auto
  note W = woken_ifD [OF k'(2)]
  have "rt_mb_urgent b v k = Inr (RT_EOK, k')" using room m(1) k'(1) by (simp add: rt_mb_urgent_def)
  moreover have "sched_inv {} k'" "mb_of k' b = m" using W(1,2) inv ipc_frameD(4) by auto
  ultimately show ?thesis using k'(2) m by blast
qed

lemma rt_mb_urgent_puts:
  assumes "sched_inv {} k" "thread_context c k" "mb_inv (mb_of k b)" "mb_entry (mb_of k b) \<noteq> mb_size (mb_of k b)"
  shows "\<exists>k'. rt_mb_urgent b v k = Inr (RT_EOK, k') \<and> mb_put b k k' (v # mb_items (mb_of k b))"
  using rt_mb_urgent_stores [OF assms, of v] mb_put_woken [OF assms(1)] by blast

lemma rt_mb_urgent_full: "mb_entry (mb_of k b) = mb_size (mb_of k b) \<Longrightarrow> rt_mb_urgent b v k = Inr (- RT_EFULL, k)"
  by (simp add: rt_mb_urgent_def)

theorem mb_recv_gets:
  assumes inv: "sched_inv {} k" and c: "thread_context c k" and b: "mb_inv (mb_of k b)" and mail: "mb_entry (mb_of k b) \<noteq> 0"
  shows "\<exists>k1 k'. mb_recv_loop b timeout sf k = Inr (Done (RT_EOK, Some (hd (mb_items (mb_of k b)))), k') \<and> woken_if (mb_senders b) k1 k' \<and>
    (\<exists>m. k1 = upd_mb b (\<lambda>_. m) k) \<and> sched_inv {} k' \<and> mb_inv (mb_of k' b) \<and> mb_items (mb_of k' b) = tl (mb_items (mb_of k b)) \<and>
    mb_size (mb_of k' b) = mb_size (mb_of k b)"
proof -
  obtain m where m: "mb_fetch (mb_of k b) = Inr (hd (mb_items (mb_of k b)), m)" "mb_inv m" "mb_items m = tl (mb_items (mb_of k b))"
    "mb_size m = mb_size (mb_of k b)" using mb_fetch_spec [OF b mail] by blast
  let ?k1 = "upd_mb b (\<lambda>_. m) k"
  obtain k' where k': "wake_first (mb_senders b) ?k1 = Inr k'" "woken_if (mb_senders b) ?k1 k'"
    using wake_first_if [of ?k1 c "mb_senders b"] inv c by auto
  note W = woken_ifD [OF k'(2)]
  have "mb_recv_loop b timeout sf k = Inr (Done (RT_EOK, Some (hd (mb_items (mb_of k b)))), k')"
    using mail m(1) k'(1) by (simp add: mb_recv_loop_def mb_recv_get_def)
  moreover have "sched_inv {} k'" "mb_of k' b = m" using W(1,2) inv ipc_frameD(4) by auto
  ultimately show ?thesis using k'(2) m by blast
qed

lemma rt_mb_recv_with_mail:
  assumes "thread_context c k" "mb_entry (mb_of k b) \<noteq> 0"
  shows "rt_mb_recv_flag b timeout sf k = mb_recv_loop b timeout sf k"
  using assms context_available [OF assms(1)] by (simp add: rt_mb_recv_flag_def)

theorem rt_mb_recv_empty:
  assumes c: "thread_context c k" and e: "mb_entry (mb_of k b) = 0"
  shows "rt_mb_recv_flag b 0 sf k = Inr (Done (- RT_ETIMEOUT, None), k)"
    and "timeout \<noteq> 0 \<Longrightarrow> can_block c timeout k \<Longrightarrow> \<exists>k' d. rt_mb_recv_flag b timeout sf k = Inr (Blocked timeout d, k') \<and>
      waits_on (mb_receivers b) (mb_flag (mb_of k b)) c (set_error c (- RT_EINTR) k) k'"
proof -
  show "rt_mb_recv_flag b 0 sf k = Inr (Done (- RT_ETIMEOUT, None), k)" using e by (simp add: rt_mb_recv_flag_def)
  assume to: "timeout \<noteq> 0" and cb: "can_block c timeout k"
  have "can_block c timeout (set_error c (- RT_EINTR) k)" using cb by (simp add: can_block_def thread_context_def)
  from block_on_waits [OF this, of "mb_receivers b" "mb_flag (mb_of k b)" sf]
  show "\<exists>k' d. rt_mb_recv_flag b timeout sf k = Inr (Blocked timeout d, k') \<and>
      waits_on (mb_receivers b) (mb_flag (mb_of k b)) c (set_error c (- RT_EINTR) k) k'"
    using e to context_available [OF c] by (auto simp: rt_mb_recv_flag_def mb_recv_loop_def no_value_def)
qed

text \<open>A thread that waits for mail gets the value that is sent to it, once it runs.\<close>

theorem mb_hand_off:
  assumes inv: "sched_inv {} k" and c: "thread_context c k" and b: "mb_inv (mb_of k b)" and e: "mb_entry (mb_of k b) = 0"
    and r: "k_list k (mb_receivers b) = r # rs" and s: "k_list k (mb_senders b) = []"
  shows "\<exists>k'. rt_mb_send_wait_flag b v timeout sf k = Inr (Done RT_EOK, k') \<and> sched_inv {} k' \<and> runs_highest k' \<and>
    mstat k' r \<in> {RT_THREAD_READY, RT_THREAD_RUNNING} \<and> k_list k' (mb_receivers b) = rs \<and>
    (\<exists>k2. rt_mb_recv_end b rest tick sf' r k' = Inr (Done (RT_EOK, Some v), k2) \<and> mb_items (mb_of k2 b) = [])"
proof -
  have "mb_entry (mb_of k b) \<noteq> mb_size (mb_of k b)" using e mb_invD(2) [OF b] by auto
  then obtain k1 k' m where k': "rt_mb_send_wait_flag b v timeout sf k = Inr (Done RT_EOK, k')" "woken_if (mb_receivers b) k1 k'" "k1 = upd_mb b (\<lambda>_. m) k"
    "sched_inv {} k'" "mb_inv (mb_of k' b)" "mb_items (mb_of k' b) = [v]"
    using rt_mb_send_stores [OF inv c b, of v timeout sf] e by (auto simp: mb_items_def)
  have w: "woken (mb_receivers b) r rs k1 k'" using woken_ifD(4) [OF k'(2)] k'(3) inv r by simp
  have sk: "k_list k' (mb_senders b) = []" using woken_ifD(3) [OF k'(2), of "mb_senders b"] k'(3) inv s by simp
  have "unat (mb_entry (mb_of k' b)) = 1" using k'(6) mb_items_length [of "mb_of k' b"] by simp
  then have ne: "mb_entry (mb_of k' b) \<noteq> 0" by auto
  obtain m2 where m2: "mb_fetch (mb_of k' b) = Inr (v, m2)" "mb_items m2 = []" using mb_fetch_spec [OF k'(5) ne] k'(6) by auto
  have "rt_mb_recv_end b rest tick sf' r k' = Inr (Done (RT_EOK, Some v), upd_mb b (\<lambda>_. m2) k')"
    using w ne m2(1) sk by (simp add: rt_mb_recv_end_def mb_recv_loop_def mb_recv_get_def wake_first_def woken_def)
  then show ?thesis using k'(1,4) w m2(2) by (intro exI [of _ k']) (simp add: woken_def)
qed

end
