(* ===== verification/Rt_Event.thy ===== *)
theory Rt_Event
  imports Rt_Wait
begin

text \<open>
  The events of \<^verbatim>\<open>rt-thread-am/src/ipc.c\<close>: a set of 32 flags, and threads that wait for all or for one of
  theirs. \<^verbatim>\<open>rt_event_send\<close> walks the list of waiters with interrupts disabled and only ever removes the
  thread it is at, so the walk is a recursion over the list as it was.
\<close>

abbreviation ev_of :: "kernel \<Rightarrow> nat \<Rightarrow> rt_event" where "ev_of k e \<equiv> o_event (k_ipc k) e"

definition event_waiters :: "nat \<Rightarrow> lhead" where "event_waiters e = L_suspend (O_event e)"

definition upd_event :: "nat \<Rightarrow> (rt_event \<Rightarrow> rt_event) \<Rightarrow> kernel \<Rightarrow> kernel" where
  "upd_event e f k = k\<lparr>k_ipc := (k_ipc k)\<lparr>o_event := (o_event (k_ipc k))(e := f (ev_of k e))\<rparr>\<rparr>"

definition RT_EVENT_FLAG_AND :: u8 where "RT_EVENT_FLAG_AND = 1"
definition RT_EVENT_FLAG_OR :: u8 where "RT_EVENT_FLAG_OR = 2"
definition RT_EVENT_FLAG_CLEAR :: u8 where "RT_EVENT_FLAG_CLEAR = 4"

definition rt_event_init :: "nat \<Rightarrow> ipc_flag \<Rightarrow> kernel \<Rightarrow> (int \<times> kernel) res" where
  "rt_event_init e flag k =
     (if k_list k (event_waiters e) \<noteq> [] then Inl (Bad_access ''suspend_thread'')
      else Inr (RT_EOK, upd_event e (\<lambda>_. \<lparr>ev_set = 0, ev_flag = flag\<rparr>) k))"

definition rt_event_detach :: "nat \<Rightarrow> kernel \<Rightarrow> (int \<times> kernel) res option" where
  "rt_event_detach e k = bindO (ipc_list_resume_all (event_waiters e) k) (\<lambda>k. Some (Inr (RT_EOK, k)))"

definition rt_event_delete :: "nat \<Rightarrow> kernel \<Rightarrow> (int \<times> kernel) res option" where
  "rt_event_delete e k =
     (if k_irq k \<noteq> 0 then Some (Inl (Assert_fail ''shall not be used in ISR''))
      else bindO (ipc_list_resume_all (event_waiters e) k) (\<lambda>k. Some (Inr (RT_EOK, k))))"

text \<open>The test of a waiter, with the flags it gets: \<open>None\<close> is an option that is neither \<^verbatim>\<open>AND\<close> nor \<^verbatim>\<open>OR\<close>.\<close>

definition event_test :: "u8 \<Rightarrow> u32 \<Rightarrow> u32 \<Rightarrow> bool option" where
  "event_test info want flags =
     (if info AND RT_EVENT_FLAG_AND \<noteq> 0 then Some (want AND flags = want)
      else if info AND RT_EVENT_FLAG_OR \<noteq> 0 then Some (want AND flags \<noteq> 0)
      else None)"

fun event_send_loop :: "nat \<Rightarrow> tid list \<Rightarrow> bool \<Rightarrow> kernel \<Rightarrow> (int option \<times> bool \<times> kernel) res" where
  "event_send_loop e [] need_schedule k = Inr (None, need_schedule, k)"
| "event_send_loop e (t # ts) need_schedule k =
     (case event_test (th_event_info (k_thread k t)) (th_event_set (k_thread k t)) (ev_set (ev_of k e)) of
        None \<Rightarrow> Inr (Some (- RT_EINVAL), need_schedule, k)
      | Some False \<Rightarrow> event_send_loop e ts need_schedule k
      | Some True \<Rightarrow>
          let k = (if th_event_info (k_thread k t) AND RT_EVENT_FLAG_AND \<noteq> 0 then k
                   else upd_thread t (\<lambda>th. th\<lparr>th_event_set := th_event_set th AND ev_set (ev_of k e)\<rparr>) k);
              k = (if th_event_info (k_thread k t) AND RT_EVENT_FLAG_CLEAR \<noteq> 0
                   then upd_event e (\<lambda>v. v\<lparr>ev_set := ev_set v AND NOT (th_event_set (k_thread k t))\<rparr>) k else k)
          in bindR (rt_thread_resume t k) (\<lambda>(_, k). event_send_loop e ts True (set_error t RT_EOK k)))"

definition rt_event_send :: "nat \<Rightarrow> u32 \<Rightarrow> kernel \<Rightarrow> (int \<times> kernel) res" where
  "rt_event_send e flags k =
     (if flags = 0 then Inr (- RT_ERROR, k)
      else
        let k = upd_event e (\<lambda>v. v\<lparr>ev_set := ev_set v OR flags\<rparr>) k in
        bindR (event_send_loop e (k_list k (event_waiters e)) False k) (\<lambda>(err, need_schedule, k).
        case err of
          Some ret \<Rightarrow> Inr (ret, k)
        | None \<Rightarrow> bindR (if need_schedule then rt_schedule k else Inr k) (\<lambda>k. Inr (RT_EOK, k))))"

text \<open>Receiving: the result is the error code and the value of \<^verbatim>\<open>*recved\<close>.\<close>

definition rt_event_recv_flag :: "nat \<Rightarrow> u32 \<Rightarrow> u8 \<Rightarrow> u32 \<Rightarrow> suspend_flag \<Rightarrow> kernel \<Rightarrow> ((int \<times> u32 option) outcome \<times> kernel) res" where
  "rt_event_recv_flag e flags opt timeout sf k =
     assertR (scheduler_available k) ''scheduler is not available''
       (if flags = 0 then Inr (Done (- RT_ERROR, None), k)
        else case k_current k of
          None \<Rightarrow> Inl (Bad_access ''rt_current_thread'')
        | Some t \<Rightarrow>
            let k = set_error t (- RT_EINTR) k; ev = ev_set (ev_of k e) in
            case event_test opt flags ev of
              None \<Rightarrow> Inl (Assert_fail ''0'')
            | Some True \<Rightarrow>
                let k = set_error t RT_EOK k;
                    k = upd_thread t (\<lambda>th. th\<lparr>th_event_set := ev AND flags, th_event_info := opt\<rparr>) k;
                    k = (if opt AND RT_EVENT_FLAG_CLEAR \<noteq> 0 then upd_event e (\<lambda>v. v\<lparr>ev_set := ev_set v AND NOT flags\<rparr>) k else k)
                in Inr (Done (RT_EOK, Some (ev AND flags)), k)
            | Some False \<Rightarrow>
                if timeout = 0 then Inr (Done (- RT_ETIMEOUT, None), set_error t (- RT_ETIMEOUT) k)
                else
                  let k = upd_thread t (\<lambda>th. th\<lparr>th_event_set := flags, th_event_info := opt\<rparr>) k in
                  bindR (block_on (event_waiters e) (ev_flag (ev_of k e)) timeout sf t k) (\<lambda>(r, k).
                  Inr (case r of Done err \<Rightarrow> Done (err, None) | Blocked a b \<Rightarrow> Blocked a b, k)))"

definition rt_event_recv_end :: "tid \<Rightarrow> kernel \<Rightarrow> int \<times> u32 option" where
  "rt_event_recv_end t k =
     (if th_error (k_thread k t) \<noteq> RT_EOK then (th_error (k_thread k t), None)
      else (th_error (k_thread k t), Some (th_event_set (k_thread k t))))"

definition rt_event_recv :: "nat \<Rightarrow> u32 \<Rightarrow> u8 \<Rightarrow> u32 \<Rightarrow> kernel \<Rightarrow> ((int \<times> u32 option) outcome \<times> kernel) res" where
  "rt_event_recv e flags opt timeout k = rt_event_recv_flag e flags opt timeout RT_UNINTERRUPTIBLE k"

definition rt_event_recv_interruptible :: "nat \<Rightarrow> u32 \<Rightarrow> u8 \<Rightarrow> u32 \<Rightarrow> kernel \<Rightarrow> ((int \<times> u32 option) outcome \<times> kernel) res" where
  "rt_event_recv_interruptible e flags opt timeout k = rt_event_recv_flag e flags opt timeout RT_INTERRUPTIBLE k"

definition rt_event_recv_killable :: "nat \<Rightarrow> u32 \<Rightarrow> u8 \<Rightarrow> u32 \<Rightarrow> kernel \<Rightarrow> ((int \<times> u32 option) outcome \<times> kernel) res" where
  "rt_event_recv_killable e flags opt timeout k = rt_event_recv_flag e flags opt timeout RT_KILLABLE k"

definition rt_event_control :: "nat \<Rightarrow> bool \<Rightarrow> kernel \<Rightarrow> (int \<times> kernel) res option" where
  "rt_event_control e reset k =
     (if reset then
        bindO (ipc_list_resume_all (event_waiters e) k) (\<lambda>k.
        Some (bindR (rt_schedule (upd_event e (\<lambda>v. v\<lparr>ev_set := 0\<rparr>) k)) (\<lambda>k. Inr (RT_EOK, k))))
      else Some (Inr (- RT_ERROR, k)))"

section \<open>Who gets an event\<close>

text \<open>
  The specification: the waiters are served in their order, each from what the ones before it have
  left; a waiter with the clear flag takes what it gets away.
\<close>

fun event_deliver :: "(tid \<Rightarrow> u32 \<times> u8) \<Rightarrow> tid list \<Rightarrow> u32 \<Rightarrow> (tid \<times> u32) list \<times> u32" where
  "event_deliver w [] s = ([], s)"
| "event_deliver w (t # ts) s =
     (let (want, info) = w t; got = (if info AND RT_EVENT_FLAG_AND \<noteq> 0 then want else want AND s) in
      if event_test info want s = Some True then
        let (ds, rest) = event_deliver w ts (if info AND RT_EVENT_FLAG_CLEAR \<noteq> 0 then s AND NOT got else s) in ((t, got) # ds, rest)
      else event_deliver w ts s)"

abbreviation wanted :: "kernel \<Rightarrow> tid \<Rightarrow> u32 \<times> u8" where
  "wanted k t \<equiv> (th_event_set (k_thread k t), th_event_info (k_thread k t))"

lemma event_deliver_cases:
  obtains got ds' where "event_test (snd (w t)) (fst (w t)) s = Some True" "got = (if snd (w t) AND RT_EVENT_FLAG_AND \<noteq> 0 then fst (w t) else fst (w t) AND s)"
      "event_deliver w ts (if snd (w t) AND RT_EVENT_FLAG_CLEAR \<noteq> 0 then s AND NOT got else s) = (ds', snd (event_deliver w (t # ts) s))"
      "fst (event_deliver w (t # ts) s) = (t, got) # ds'"
    | "event_test (snd (w t)) (fst (w t)) s \<noteq> Some True" "event_deliver w (t # ts) s = event_deliver w ts s"
proof (cases "event_test (snd (w t)) (fst (w t)) s = Some True")
  case True
  let ?got = "if snd (w t) AND RT_EVENT_FLAG_AND \<noteq> 0 then fst (w t) else fst (w t) AND s"
  let ?d = "event_deliver w ts (if snd (w t) AND RT_EVENT_FLAG_CLEAR \<noteq> 0 then s AND NOT ?got else s)"
  have "event_deliver w (t # ts) s = ((t, ?got) # fst ?d, snd ?d)"
    by (simp only: event_deliver.simps Let_def case_prod_beta True refl if_True)
  then show thesis using that(1) [OF True refl, of "fst ?d"] by simp
next
  case False
  have "event_deliver w (t # ts) s = event_deliver w ts s"
    by (simp only: event_deliver.simps Let_def case_prod_beta False if_False)
  then show thesis by (rule that(2) [OF False])
qed

lemma event_deliver_sub: "fst ` set (fst (event_deliver w ts s)) \<subseteq> set ts"
proof (induction ts arbitrary: s)
  case (Cons t ts)
  show ?case
  proof (rule event_deliver_cases [of w t s ts])
    fix got ds' assume a: "event_deliver w ts (if snd (w t) AND RT_EVENT_FLAG_CLEAR \<noteq> 0 then s AND NOT got else s) = (ds', snd (event_deliver w (t # ts) s))"
      "fst (event_deliver w (t # ts) s) = (t, got) # ds'"
    have "fst ` set ds' \<subseteq> set ts" using Cons.IH a(1) by (metis fst_conv)
    then show ?thesis unfolding a(2) by auto
  next
    assume "event_deliver w (t # ts) s = event_deliver w ts s"
    then show ?thesis using Cons.IH [of s] by auto
  qed
qed simp

lemma event_deliver_cong: "(\<And>t. t \<in> set ts \<Longrightarrow> w t = w' t) \<Longrightarrow> event_deliver w ts s = event_deliver w' ts s"
proof (induction ts arbitrary: s)
  case (Cons t ts)
  then have "w t = w' t" "\<And>s. event_deliver w ts s = event_deliver w' ts s" by simp_all
  then show ?case by (simp only: event_deliver.simps)
qed simp

text \<open>What is left is part of what there was, and does not satisfy anybody who still waits.\<close>

lemma and_sub_trans: "(r :: u32) AND s = r \<Longrightarrow> s AND v = s \<Longrightarrow> r AND v = r"
  by (metis and.assoc)

lemma event_test_mono:
  assumes n: "event_test info want s \<noteq> Some True" and r: "r AND s = r"
  shows "event_test info want r \<noteq> Some True"
proof -
  have "want AND s = want" if "want AND r = want" by (rule and_sub_trans [OF that r])
  moreover have "want AND s \<noteq> 0" if "want AND r \<noteq> 0"
  proof
    assume "want AND s = 0"
    then have "want AND (r AND s) = 0" by (simp add: and.left_commute)
    then show False using that r by simp
  qed
  ultimately show ?thesis using n unfolding event_test_def by (cases "info AND RT_EVENT_FLAG_AND \<noteq> 0"; cases "info AND RT_EVENT_FLAG_OR \<noteq> 0") auto
qed

lemma event_deliver_rest:
  "snd (event_deliver w ts s) AND s = snd (event_deliver w ts s)"
  "t \<in> set ts \<Longrightarrow> t \<notin> fst ` set (fst (event_deliver w ts s)) \<Longrightarrow> event_test (snd (w t)) (fst (w t)) (snd (event_deliver w ts s)) \<noteq> Some True"
proof -
  have "snd (event_deliver w ts s) AND s = snd (event_deliver w ts s) \<and>
    (\<forall>t \<in> set ts. t \<notin> fst ` set (fst (event_deliver w ts s)) \<longrightarrow> event_test (snd (w t)) (fst (w t)) (snd (event_deliver w ts s)) \<noteq> Some True)"
  proof (induction ts arbitrary: s)
    case (Cons t ts)
    show ?case
    proof (rule event_deliver_cases [of w t s ts])
      fix got ds' assume a: "event_deliver w ts (if snd (w t) AND RT_EVENT_FLAG_CLEAR \<noteq> 0 then s AND NOT got else s) = (ds', snd (event_deliver w (t # ts) s))"
        "fst (event_deliver w (t # ts) s) = (t, got) # ds'"
      let ?s = "if snd (w t) AND RT_EVENT_FLAG_CLEAR \<noteq> 0 then s AND NOT got else s" and ?r = "snd (event_deliver w (t # ts) s)"
      have IH: "?r AND ?s = ?r" "\<forall>u \<in> set ts. u \<notin> fst ` set ds' \<longrightarrow> event_test (snd (w u)) (fst (w u)) ?r \<noteq> Some True"
        using Cons.IH [of ?s] a(1) by simp_all
      have "(s AND NOT got) AND s = s AND NOT got" by (simp add: and.commute and.left_commute)
      then have "?s AND s = ?s" by simp
      then have "?r AND s = ?r" by (rule and_sub_trans [OF IH(1)])
      then show ?thesis using IH(2) unfolding a(2) by auto
    next
      assume a: "event_test (snd (w t)) (fst (w t)) s \<noteq> Some True" "event_deliver w (t # ts) s = event_deliver w ts s"
      have "snd (event_deliver w ts s) AND s = snd (event_deliver w ts s)" using Cons.IH [of s] by blast
      moreover from this have "event_test (snd (w t)) (fst (w t)) (snd (event_deliver w ts s)) \<noteq> Some True" by (rule event_test_mono [OF a(1)])
      ultimately show ?thesis using Cons.IH [of s] unfolding a(2) by auto
    qed
  qed simp
  then show "snd (event_deliver w ts s) AND s = snd (event_deliver w ts s)"
    "t \<in> set ts \<Longrightarrow> t \<notin> fst ` set (fst (event_deliver w ts s)) \<Longrightarrow> event_test (snd (w t)) (fst (w t)) (snd (event_deliver w ts s)) \<noteq> Some True" by auto
qed


section \<open>Sending\<close>

lemma upd_event_simps [simp]:
  "ev_of (upd_event e f k) e' = (if e' = e then f (ev_of k e) else ev_of k e')" "sched_inv X (upd_event e f k) = sched_inv X k"
  "k_thread (upd_event e f k) = k_thread k" "k_list (upd_event e f k) = k_list k" "k_current (upd_event e f k) = k_current k"
  "k_irq (upd_event e f k) = k_irq k" "k_lock (upd_event e f k) = k_lock k" "mstat (upd_event e f k) = mstat k"
  "thread_context c (upd_event e f k) = thread_context c k" "k_sem (upd_event e f k) = k_sem k" "k_mutex (upd_event e f k) = k_mutex k"
  by (simp_all add: upd_event_def sched_inv_def sched_parts mstat_def masked_def fun_eq_iff thread_context_def)

lemma event_list [simp]: "is_wait_list (event_waiters e)" "event_waiters e = event_waiters e' \<longleftrightarrow> e = e'"
  by (simp_all add: is_wait_list_def event_waiters_def)

definition event_valid :: "u8 \<Rightarrow> bool" where
  "event_valid info \<longleftrightarrow> info AND (RT_EVENT_FLAG_AND OR RT_EVENT_FLAG_OR) \<noteq> 0"

lemma event_valid_test: "event_valid info \<Longrightarrow> event_test info want s = Some (event_test info want s = Some True)"
  by (auto simp: event_valid_def event_test_def bit.conj_disj_distrib)

text \<open>The state in which a satisfied waiter leaves the list.\<close>

definition served :: "nat \<Rightarrow> tid \<Rightarrow> u32 \<Rightarrow> kernel \<Rightarrow> kernel" where
  "served e t got k = set_error t RT_EOK (resumed t
     (let k = upd_thread t (\<lambda>th. th\<lparr>th_event_set := got\<rparr>) k in
      if th_event_info (k_thread k t) AND RT_EVENT_FLAG_CLEAR \<noteq> 0 then upd_event e (\<lambda>v. v\<lparr>ev_set := ev_set v AND NOT got\<rparr>) k else k))"

lemma upd_event_set_inv [simp]:
  "sched_inv X (upd_thread t (\<lambda>th. th\<lparr>th_event_set := g\<rparr>) k) = sched_inv X k" "mstat (upd_thread t (\<lambda>th. th\<lparr>th_event_set := g\<rparr>) k) = mstat k"
  by (subst upd_thread_inv; simp)+

lemma event_send_step:
  assumes inv: "sched_inv {} k" and c: "k_current k \<noteq> Some t" and b: "bit (mstat k t) 2"
    and v: "event_test (th_event_info (k_thread k t)) (th_event_set (k_thread k t)) (ev_set (ev_of k e)) = Some True"
  defines "got \<equiv> if th_event_info (k_thread k t) AND RT_EVENT_FLAG_AND \<noteq> 0 then th_event_set (k_thread k t)
     else th_event_set (k_thread k t) AND ev_set (ev_of k e)"
  shows "event_send_loop e (t # ts) need k = event_send_loop e ts True (served e t got k)" and "sched_inv {} (served e t got k)"
proof -
  let ?k1 = "upd_thread t (\<lambda>th. th\<lparr>th_event_set := got\<rparr>) k"
  define k2 where "k2 = (if th_event_info (k_thread ?k1 t) AND RT_EVENT_FLAG_CLEAR \<noteq> 0
    then upd_event e (\<lambda>v. v\<lparr>ev_set := ev_set v AND NOT (th_event_set (k_thread ?k1 t))\<rparr>) ?k1 else ?k1)"
  have "upd_thread t (\<lambda>th. th\<lparr>th_event_set := th_event_set (k_thread k t)\<rparr>) k = k" by (simp add: upd_thread_def)
  then have k1: "(if th_event_info (k_thread k t) AND RT_EVENT_FLAG_AND \<noteq> 0 then k
      else upd_thread t (\<lambda>th. th\<lparr>th_event_set := th_event_set th AND ev_set (ev_of k e)\<rparr>) k) = ?k1"
    by (simp add: got_def upd_thread_def)
  have i2: "sched_inv {} k2" "k_current k2 \<noteq> Some t" "bit (mstat k2 t) 2" using inv c b by (simp_all add: k2_def)
  have g: "th_event_set (k_thread ?k1 t) = got" by simp
  have s: "served e t got k = set_error t RT_EOK (resumed t k2)" unfolding served_def Let_def k2_def g ..
  have "rt_thread_resume t k2 = Inr (RT_EOK, resumed t k2)" by (rule resume_eq [OF i2])
  then show "event_send_loop e (t # ts) need k = event_send_loop e ts True (served e t got k)"
    unfolding event_send_loop.simps v k1 s by (simp only: Let_def k2_def [symmetric] option.simps bool.simps) simp
  have "sched_inv {} (resumed t k2)" by (rule resumed_inv [OF i2(1,3)])
  then show "sched_inv {} (served e t got k)" by (simp add: s)
qed

lemma served_simps [simp]:
  "k_current (served e t got k) = k_current k" "k_lock (served e t got k) = k_lock k" "k_irq (served e t got k) = k_irq k"
  "mstat (served e t got k) u = (if u = t then RT_THREAD_READY else mstat k u)" "th_error (k_thread (served e t got k) t) = RT_EOK"
  "th_event_set (k_thread (served e t got k) t) = got" "u \<noteq> t \<Longrightarrow> wanted (served e t got k) u = wanted k u"
  "u \<noteq> t \<Longrightarrow> th_error (k_thread (served e t got k) u) = th_error (k_thread k u)"
  "ev_set (ev_of (served e t got k) e) = (if th_event_info (k_thread k t) AND RT_EVENT_FLAG_CLEAR \<noteq> 0 then ev_set (ev_of k e) AND NOT got
     else ev_set (ev_of k e))" "e' \<noteq> e \<Longrightarrow> ev_of (served e t got k) e' = ev_of k e'"
  "is_wait_list h \<Longrightarrow> k_list (served e t got k) h = removeAll t (k_list k h)"
proof -
  have "h \<noteq> L_ready p" if "is_wait_list h" for p h using that by (auto simp: is_wait_list_def)
  then show "is_wait_list h \<Longrightarrow> k_list (served e t got k) h = removeAll t (k_list k h)"
    by (auto simp: served_def Let_def resumed_lists)
  have "th_event_set (k_thread (set_error t RT_EOK k') u) = th_event_set (k_thread k' u)"
    "th_event_info (k_thread (set_error t RT_EOK k') u) = th_event_info (k_thread k' u)" for k' u by (simp_all add: set_error_def)
  then show "th_event_set (k_thread (served e t got k) t) = got" "u \<noteq> t \<Longrightarrow> wanted (served e t got k) u = wanted k u"
    by (simp_all add: served_def Let_def)
qed (simp_all add: served_def Let_def)

text \<open>After the walk: who got what, what is left of the set, and who still waits.\<close>

definition delivered :: "nat \<Rightarrow> tid \<Rightarrow> (tid \<times> u32) list \<times> u32 \<Rightarrow> tid list \<Rightarrow> kernel \<Rightarrow> kernel \<Rightarrow> bool" where
  "delivered e c d l k k' \<longleftrightarrow> sched_inv {} k' \<and> thread_context c k' \<and> ev_set (ev_of k' e) = snd d \<and> k_list k' (event_waiters e) = l \<and>
     (\<forall>(t, g) \<in> set (fst d). mstat k' t = RT_THREAD_READY \<and> th_error (k_thread k' t) = RT_EOK \<and> th_event_set (k_thread k' t) = g) \<and>
     (\<forall>u. u \<notin> fst ` set (fst d) \<longrightarrow> wanted k' u = wanted k u \<and> mstat k' u = mstat k u \<and> th_error (k_thread k' u) = th_error (k_thread k u))"

definition unserved :: "(tid \<times> u32) list \<Rightarrow> tid list \<Rightarrow> tid list" where
  "unserved ds ts = filter (\<lambda>t. t \<notin> fst ` set ds) ts"

lemma delivered_step:
  assumes d: "delivered e c (ds, r) l (served e t got k) k'" and t: "t \<notin> fst ` set ds"
  shows "delivered e c ((t, got) # ds, r) l k k'"
proof -
  let ?k1 = "served e t got k"
  have o: "wanted k' u = wanted ?k1 u \<and> mstat k' u = mstat ?k1 u \<and> th_error (k_thread k' u) = th_error (k_thread ?k1 u)"
    if "u \<notin> fst ` set ds" for u using d that unfolding delivered_def by simp
  have n: "wanted k' u = wanted k u \<and> mstat k' u = mstat k u \<and> th_error (k_thread k' u) = th_error (k_thread k u)"
    if "u \<notin> fst ` set ((t, got) # ds)" for u
  proof -
    have "u \<noteq> t" "u \<notin> fst ` set ds" using that by auto
    then show ?thesis using o [of u] served_simps(7) [of u t e got k] by simp
  qed
  have "mstat k' t = RT_THREAD_READY" "th_event_set (k_thread k' t) = got" "th_error (k_thread k' t) = RT_EOK"
    using o [OF t] by simp_all
  then have "\<forall>(u, g) \<in> set ((t, got) # ds). mstat k' u = RT_THREAD_READY \<and> th_error (k_thread k' u) = RT_EOK \<and> th_event_set (k_thread k' u) = g"
    using d unfolding delivered_def fst_conv by (elim conjE) (simp only: list.set ball_simps case_prod_conv simp_thms)
  then show ?thesis using d n unfolding delivered_def fst_conv snd_conv by (intro conjI allI impI) (elim conjE; assumption | blast)+
qed

theorem event_send_loop_delivers:
  assumes "sched_inv {} k" "thread_context c k" "k_list k (event_waiters e) = us @ ts" "\<And>t. t \<in> set ts \<Longrightarrow> event_valid (th_event_info (k_thread k t))"
  shows "\<exists>k'. event_send_loop e ts need k = Inr (None, need \<or> fst (event_deliver (wanted k) ts (ev_set (ev_of k e))) \<noteq> [], k') \<and>
    delivered e c (event_deliver (wanted k) ts (ev_set (ev_of k e)))
      (us @ unserved (fst (event_deliver (wanted k) ts (ev_set (ev_of k e)))) ts) k k'"
  using assms
proof (induction ts arbitrary: k us need)
  case Nil
  then show ?case by (simp add: delivered_def unserved_def)
next
  case (Cons t ts)
  let ?w = "wanted k" and ?s = "ev_set (ev_of k e)"
  note inv = Cons.prems(1) and c = Cons.prems(2)
  have cx: "k_current k = Some c" "mstat k c = RT_THREAD_RUNNING" using c by (auto simp: thread_context_def)
  have tw: "t \<in> set (k_list k (event_waiters e))" using Cons.prems(3) by simp
  have b: "bit (mstat k t) 2" using waiting_bit(1) [OF inv] tw by (simp add: event_waiters_def)
  have tc: "t \<noteq> c" using running_not_waiter [OF inv cx(2)] tw by auto
  have dist: "t \<notin> set ts" "t \<notin> set us" using Cons.prems(3) inv
    by (auto simp: sched_inv_def links_ok_def lists_ok_def) (metis distinct.simps(2) distinct_append, metis disjoint_iff distinct_append list.set_intros(1))
  show ?case
  proof (rule event_deliver_cases [of ?w t ?s ts])
    fix got ds'
    assume a: "event_test (snd (?w t)) (fst (?w t)) ?s = Some True"
      "got = (if snd (?w t) AND RT_EVENT_FLAG_AND \<noteq> 0 then fst (?w t) else fst (?w t) AND ?s)"
      "event_deliver ?w ts (if snd (?w t) AND RT_EVENT_FLAG_CLEAR \<noteq> 0 then ?s AND NOT got else ?s) = (ds', snd (event_deliver ?w (t # ts) ?s))"
      "fst (event_deliver ?w (t # ts) ?s) = (t, got) # ds'"
    let ?k1 = "served e t got k"
    have g: "got = (if th_event_info (k_thread k t) AND RT_EVENT_FLAG_AND \<noteq> 0 then th_event_set (k_thread k t)
      else th_event_set (k_thread k t) AND ?s)" and v: "event_test (th_event_info (k_thread k t)) (th_event_set (k_thread k t)) ?s = Some True"
      using a(1,2) by (simp_all only: fst_conv snd_conv)
    have ct: "k_current k \<noteq> Some t" using cx tc by simp
    have st: "event_send_loop e (t # ts) need k = event_send_loop e ts True ?k1" "sched_inv {} ?k1"
      unfolding g by (rule event_send_step [OF inv ct b v])+
    have w1: "wanted ?k1 u = ?w u" if "u \<in> set ts" for u using that dist served_simps(7) by metis
    have "event_deliver (wanted ?k1) ts (ev_set (ev_of ?k1 e)) = event_deliver ?w ts (ev_set (ev_of ?k1 e))"
      by (rule event_deliver_cong) (rule w1)
    then have d: "event_deliver (wanted ?k1) ts (ev_set (ev_of ?k1 e)) = (ds', snd (event_deliver ?w (t # ts) ?s))" using a(3) by simp
    have c1: "thread_context c ?k1" using c tc by (simp add: thread_context_def)
    have l1: "k_list ?k1 (event_waiters e) = us @ ts" using Cons.prems(3) dist by simp
    have v1: "event_valid (th_event_info (k_thread ?k1 u))" if "u \<in> set ts" for u using w1 [OF that] Cons.prems(4) [of u] that by simp
    have IH: "\<exists>k'. event_send_loop e ts True ?k1 = Inr (None, True, k') \<and>
      delivered e c (ds', snd (event_deliver ?w (t # ts) ?s)) (us @ unserved ds' ts) ?k1 k'"
      by (rule Cons.IH [OF st(2) c1 l1 v1, where need = True, unfolded d fst_conv simp_thms])
    obtain k' where k': "event_send_loop e ts True ?k1 = Inr (None, True, k')"
      "delivered e c (ds', snd (event_deliver ?w (t # ts) ?s)) (us @ unserved ds' ts) ?k1 k'"
      using IH by blast
    have tn: "t \<notin> fst ` set ds'" 
      using event_deliver_sub [of ?w ts "if snd (?w t) AND RT_EVENT_FLAG_CLEAR \<noteq> 0 then ?s AND NOT got else ?s"] dist(1) unfolding a(3) fst_conv by (rule contra_subsetD)
    have e: "event_deliver ?w (t # ts) ?s = ((t, got) # ds', snd (event_deliver ?w (t # ts) ?s))" unfolding a(4) [symmetric] prod.collapse ..
    have "unserved ((t, got) # ds') (t # ts) = unserved ds' ts" using dist(1) unfolding unserved_def by simp (rule filter_cong, auto)
    then have "delivered e c (event_deliver ?w (t # ts) ?s) (us @ unserved (fst (event_deliver ?w (t # ts) ?s)) (t # ts)) k k'"
      unfolding a(4) using delivered_step [OF k'(2) tn] by (simp only: e [symmetric])
    then show ?thesis unfolding st(1) k'(1) a(4) by blast
  next
    assume a: "event_test (snd (?w t)) (fst (?w t)) ?s \<noteq> Some True" "event_deliver ?w (t # ts) ?s = event_deliver ?w ts ?s"
    have "event_test (snd (?w t)) (fst (?w t)) ?s = Some False" 
      using event_valid_test [OF Cons.prems(4) [of t], of "th_event_set (k_thread k t)" ?s] a(1) by (simp only: fst_conv snd_conv list.set_intros simp_thms)
    then have st: "event_send_loop e (t # ts) need k = event_send_loop e ts need k" by simp
    have tn: "t \<notin> fst ` set (fst (event_deliver ?w ts ?s))" using event_deliver_sub [of ?w ts ?s] dist(1) by blast
    have "k_list k (event_waiters e) = (us @ [t]) @ ts" using Cons.prems(3) by simp
    moreover have "unserved (fst (event_deliver ?w ts ?s)) (t # ts) = t # unserved (fst (event_deliver ?w ts ?s)) ts" using tn by (simp add: unserved_def)
    ultimately show ?thesis unfolding a(2) st using Cons.IH [OF inv c, of "us @ [t]" need] Cons.prems(4) by simp
  qed
qed

text \<open>Sending an event: every satisfied waiter is ready with what it got, the others wait and are not satisfied by what is left.\<close>

theorem rt_event_send_delivers:
  assumes inv: "sched_inv {} k" and c: "thread_context c k" and f: "flags \<noteq> 0"
    and v: "\<And>t. t \<in> set (k_list k (event_waiters e)) \<Longrightarrow> event_valid (th_event_info (k_thread k t))"
  defines "d \<equiv> event_deliver (wanted k) (k_list k (event_waiters e)) (ev_set (ev_of k e) OR flags)"
  shows "\<exists>k'. rt_event_send e flags k = Inr (RT_EOK, k') \<and> sched_inv {} k' \<and> (fst d \<noteq> [] \<longrightarrow> runs_highest k') \<and>
    ev_set (ev_of k' e) = snd d \<and> k_list k' (event_waiters e) = unserved (fst d) (k_list k (event_waiters e)) \<and>
    (\<forall>(t, got) \<in> set (fst d). mstat k' t \<in> {RT_THREAD_READY, RT_THREAD_RUNNING} \<and> rt_event_recv_end t k' = (RT_EOK, Some got)) \<and>
    (\<forall>t \<in> set (k_list k' (event_waiters e)). wanted k' t = wanted k t \<and>
       event_test (th_event_info (k_thread k t)) (th_event_set (k_thread k t)) (snd d) \<noteq> Some True)"
proof -
  let ?k0 = "upd_event e (\<lambda>v. v\<lparr>ev_set := ev_set v OR flags\<rparr>) k" and ?l = "k_list k (event_waiters e)"
  have i0: "sched_inv {} ?k0" "thread_context c ?k0" "k_list ?k0 (event_waiters e) = [] @ ?l" using inv c by simp_all
  have d0: "event_deliver (wanted ?k0) ?l (ev_set (ev_of ?k0 e)) = d" unfolding d_def by simp
  obtain k1 where k1: "event_send_loop e ?l False ?k0 = Inr (None, fst d \<noteq> [], k1)" "delivered e c d (unserved (fst d) ?l) ?k0 k1"
    using event_send_loop_delivers [OF i0, where need = False, unfolded d0 append_Nil] v by auto
  have i1: "sched_inv {} k1" "thread_context c k1" "ev_set (ev_of k1 e) = snd d" "k_list k1 (event_waiters e) = unserved (fst d) ?l"
    and g1: "\<And>t g. (t, g) \<in> set (fst d) \<Longrightarrow> mstat k1 t = RT_THREAD_READY \<and> th_error (k_thread k1 t) = RT_EOK \<and> th_event_set (k_thread k1 t) = g"
    and w1: "\<And>u. u \<notin> fst ` set (fst d) \<Longrightarrow> wanted k1 u = wanted k u" using k1(2) unfolding delivered_def by auto
  have cx: "k_current k1 = Some c" "k_lock k1 = 0" "k_irq k1 = 0" using i1(2) by (auto simp: thread_context_def)
  have rest: "event_test (th_event_info (k_thread k t)) (th_event_set (k_thread k t)) (snd d) \<noteq> Some True" if "t \<in> set (unserved (fst d) ?l)" for t
    using that event_deliver_rest(2) [of t ?l "wanted k"] by (simp add: d_def unserved_def)
  have un: "t \<notin> fst ` set (fst d)" if "t \<in> set (unserved (fst d) ?l)" for t using that by (simp add: unserved_def)
  show ?thesis
  proof (cases "fst d = []")
    case True
    have "rt_event_send e flags k = Inr (RT_EOK, k1)" using f k1(1) True by (simp add: rt_event_send_def Let_def)
    moreover have "wanted k1 t = wanted k t" for t using w1 [of t] True by simp
    ultimately show ?thesis using i1 rest True by (intro exI [of _ k1]) simp
  next
    case False
    then obtain t0 g0 where "(t0, g0) \<in> set (fst d)" by (cases "fst d") auto
    then have "mstat k1 t0 = RT_THREAD_READY" using g1 by blast
    then obtain k2 where k2: "rt_schedule k1 = Inr k2" "sched_inv {} k2" "runs_highest k2"
      using rt_schedule_correct [OF i1(1) cx(1,3)] cx(2) by auto
    have fr: "sched_frame k2 k1" by (rule rt_schedule_frame [OF i1(1) cx(1,3) k2(1)])
    have "rt_event_send e flags k = Inr (RT_EOK, k2)" using f k1(1) False k2(1) by (simp add: rt_event_send_def Let_def)
    moreover have "mstat k2 t \<in> {RT_THREAD_READY, RT_THREAD_RUNNING} \<and> rt_event_recv_end t k2 = (RT_EOK, Some got)" if "(t, got) \<in> set (fst d)" for t got
    proof -
      have "mstat k2 t \<in> {RT_THREAD_READY, RT_THREAD_RUNNING}"
        using rt_schedule_cases [OF i1(1) cx(1,3) k2(1)] by cases (use g1 [OF that] in auto)
      moreover have "th_error (k_thread k2 t) = RT_EOK" "th_event_set (k_thread k2 t) = got"
        using sched_frameD(8,16) [OF fr, of t] g1 [OF that] by simp_all
      ultimately show ?thesis by (simp add: rt_event_recv_end_def)
    qed
    moreover have "k_list k2 (event_waiters e) = unserved (fst d) ?l" "ev_set (ev_of k2 e) = snd d"
      using i1 sched_frameD [OF fr] by (simp_all add: event_waiters_def)
    moreover have "wanted k2 t = wanted k t" if "t \<in> set (unserved (fst d) ?l)" for t
      using w1 [OF un [OF that]] sched_frameD(16,17) [OF fr, of t] by simp
    ultimately show ?thesis using k2 rest by (intro exI [of _ k2]) auto
  qed
qed

section \<open>Receiving\<close>

lemma event_list_set_error [simp]: "ev_of (set_error t r k) = ev_of k"
  by (simp add: set_error_def upd_thread_def)

lemma upd_event_info_inv [simp]:
  "sched_inv X (upd_thread t (\<lambda>th. th\<lparr>th_event_set := g, th_event_info := i\<rparr>) k) = sched_inv X k"
  "mstat (upd_thread t (\<lambda>th. th\<lparr>th_event_set := g, th_event_info := i\<rparr>) k) = mstat k"
  by (subst upd_thread_inv; simp)+

theorem rt_event_recv_gets:
  assumes "thread_context c k" "flags \<noteq> 0" "event_test opt flags (ev_set (ev_of k e)) = Some True"
  shows "\<exists>k'. rt_event_recv_flag e flags opt timeout sf k = Inr (Done (RT_EOK, Some (ev_set (ev_of k e) AND flags)), k') \<and>
    ev_set (ev_of k' e) = (if opt AND RT_EVENT_FLAG_CLEAR \<noteq> 0 then ev_set (ev_of k e) AND NOT flags else ev_set (ev_of k e)) \<and>
    th_error (k_thread k' c) = RT_EOK \<and> k_list k' = k_list k \<and> mstat k' = mstat k"
  using assms context_available [OF assms(1)]
  by (auto simp: rt_event_recv_flag_def Let_def)

theorem rt_event_recv_times_out:
  assumes "thread_context c k" "flags \<noteq> 0" "event_test opt flags (ev_set (ev_of k e)) = Some False"
  shows "\<exists>k'. rt_event_recv_flag e flags opt 0 sf k = Inr (Done (- RT_ETIMEOUT, None), k') \<and>
    ev_of k' e = ev_of k e \<and> th_error (k_thread k' c) = - RT_ETIMEOUT \<and> k_list k' = k_list k \<and> mstat k' = mstat k"
  using assms context_available [OF assms(1)]
  by (auto simp: rt_event_recv_flag_def Let_def)

theorem rt_event_recv_waits:
  assumes cb: "can_block c timeout k" and f: "flags \<noteq> 0" "timeout \<noteq> 0"
    and t: "event_test opt flags (ev_set (ev_of k e)) = Some False"
  shows "\<exists>k'. rt_event_recv_flag e flags opt timeout sf k = Inr (Blocked timeout (if 0 < sint timeout then k_tick k else 0), k') \<and>
    sched_inv {} k' \<and> runs_highest k' \<and> k_current k' \<noteq> Some c \<and> bit (mstat k' c) 2 \<and>
    k_list k' (event_waiters e) = queued k (ev_flag (ev_of k e)) c (k_list k (event_waiters e)) \<and>
    wanted k' c = (flags, opt) \<and> ev_of k' e = ev_of k e \<and> th_error (k_thread k' c) = - RT_EINTR"
proof -
  let ?k1 = "upd_thread c (\<lambda>th. th\<lparr>th_event_set := flags, th_event_info := opt\<rparr>) (set_error c (- RT_EINTR) k)"
  have c: "thread_context c k" using cb by (simp add: can_block_def)
  have cb1: "can_block c timeout ?k1" using cb by (simp add: can_block_def thread_context_def hard_timer_def)
  have f1: "wanted ?k1 c = (flags, opt)" "ev_of ?k1 = ev_of k" "th_error (k_thread ?k1 c) = - RT_EINTR" "k_tick ?k1 = k_tick k" "k_list ?k1 = k_list k"
    by simp_all
  have p1: "prio_of ?k1 u = prio_of k u" for u by simp
  have q1: "queued ?k1 = queued k" by (intro ext) (simp only: queued_def p1)
  obtain k' where k': "block_on (event_waiters e) (ev_flag (ev_of ?k1 e)) timeout sf c ?k1 = Inr (Blocked timeout (if 0 < sint timeout then k_tick ?k1 else 0), k')"
    "waits_on (event_waiters e) (ev_flag (ev_of ?k1 e)) c ?k1 k'" using block_on_waits [OF cb1 event_list(1)] by blast
  have "rt_event_recv_flag e flags opt timeout sf k = Inr (Blocked timeout (if 0 < sint timeout then k_tick k else 0), k')"
    using context_available [OF c] f t k'(1) f1 by (simp add: rt_event_recv_flag_def Let_def)
  moreover have "ipc_frame k' ?k1" using k'(2) by (simp add: waits_on_def)
  note fr = ipc_frameD [OF this]
  ultimately show ?thesis using k'(2) f1 fr(4) fr(9,10) [of c] q1 by (intro exI [of _ k']) (simp add: waits_on_def)
qed

end
