(* ===== verification/Rt_Smem.thy ===== *)
theory Rt_Smem
  imports Prelude
begin

text \<open>
  The small memory allocator of \<^verbatim>\<open>rt-thread-am/src/mem.c\<close>, the heap of this board, and the functions of
  \<^verbatim>\<open>kservice.c\<close> over it. The board has 32-bit words, \<^verbatim>\<open>RT_ALIGN_SIZE\<close> 8 and \<^verbatim>\<open>RT_USING_MEMTRACE\<close>, so a
  \<^verbatim>\<open>struct rt_small_mem_item\<close> is four words. Every access of the allocator is to an aligned word: the
  memory is a function from addresses to words. Addresses are never checked by the code; that it
  touches its own headers only is what the theorems show.
\<close>

section \<open>The heap object and its items\<close>

record rt_small_mem =
  sm_self :: u32
  sm_address :: u32
  sm_total :: u32
  sm_used :: u32
  sm_max :: u32
  sm_heap_ptr :: u32
  sm_heap_end :: u32
  sm_lfree :: u32
  sm_mem_size_aligned :: u32
  sm_mem :: "u32 \<Rightarrow> u32"

definition RT_ALIGN_SIZE :: u32 where "RT_ALIGN_SIZE = 8"
definition RT_ALIGN :: "u32 \<Rightarrow> u32 \<Rightarrow> u32" where "RT_ALIGN sz align = (sz + align - 1) AND NOT (align - 1)"
definition RT_ALIGN_DOWN :: "u32 \<Rightarrow> u32 \<Rightarrow> u32" where "RT_ALIGN_DOWN sz align = sz AND NOT (align - 1)"
definition sizeof_item :: u32 where "sizeof_item = 16"
definition sizeof_small_mem :: u32 where "sizeof_small_mem = 72"
definition MIN_SIZE :: u32 where "MIN_SIZE = 12"
definition MEM_MASK :: u32 where "MEM_MASK = NOT 0 - 1"
definition MIN_SIZE_ALIGNED :: u32 where "MIN_SIZE_ALIGNED = RT_ALIGN MIN_SIZE RT_ALIGN_SIZE"
definition SIZEOF_STRUCT_MEM :: u32 where "SIZEOF_STRUCT_MEM = RT_ALIGN sizeof_item RT_ALIGN_SIZE"

definition pool_ptr :: "rt_small_mem \<Rightarrow> u32 \<Rightarrow> u32" where "pool_ptr s a = sm_mem s a"
definition item_next :: "rt_small_mem \<Rightarrow> u32 \<Rightarrow> u32" where "item_next s a = sm_mem s (a + 4)"
definition item_prev :: "rt_small_mem \<Rightarrow> u32 \<Rightarrow> u32" where "item_prev s a = sm_mem s (a + 8)"
definition sm_set :: "u32 \<Rightarrow> u32 \<Rightarrow> rt_small_mem \<Rightarrow> rt_small_mem" where "sm_set a v s = s\<lparr>sm_mem := (sm_mem s)(a := v)\<rparr>"
definition item_set_pool :: "u32 \<Rightarrow> u32 \<Rightarrow> rt_small_mem \<Rightarrow> rt_small_mem" where "item_set_pool a v s = sm_set a v s"
definition item_set_next :: "u32 \<Rightarrow> u32 \<Rightarrow> rt_small_mem \<Rightarrow> rt_small_mem" where "item_set_next a v s = sm_set (a + 4) v s"
definition item_set_prev :: "u32 \<Rightarrow> u32 \<Rightarrow> rt_small_mem \<Rightarrow> rt_small_mem" where "item_set_prev a v s = sm_set (a + 8) v s"

definition MEM_USED :: "rt_small_mem \<Rightarrow> u32" where "MEM_USED s = (sm_self s AND MEM_MASK) OR 1"
definition MEM_FREED :: "rt_small_mem \<Rightarrow> u32" where "MEM_FREED s = (sm_self s AND MEM_MASK) OR 0"
definition MEM_ISUSED :: "rt_small_mem \<Rightarrow> u32 \<Rightarrow> bool" where "MEM_ISUSED s a \<longleftrightarrow> pool_ptr s a AND NOT MEM_MASK \<noteq> 0"
definition MEM_POOL :: "rt_small_mem \<Rightarrow> u32 \<Rightarrow> u32" where "MEM_POOL s a = pool_ptr s a AND MEM_MASK"

text \<open>\<^verbatim>\<open>rt_smem_setname\<close>: four characters, padded with blanks, as one little-endian word.\<close>

fun name_bytes :: "nat \<Rightarrow> u8 list \<Rightarrow> u8 list" where
  "name_bytes 0 cs = []"
| "name_bytes (Suc n) [] = replicate (Suc n) 32"
| "name_bytes (Suc n) (c # cs) = (if c = 0 then replicate (Suc n) 32 else c # name_bytes n cs)"

definition rt_smem_setname :: "u32 \<Rightarrow> u8 list \<Rightarrow> rt_small_mem \<Rightarrow> rt_small_mem" where
  "rt_smem_setname a name s =
     sm_set (a + 12) (foldr (\<lambda>b w. push_bit 8 w OR ucast b) (name_bytes 4 name) 0) s"

definition blanks :: "u8 list" where "blanks = [32, 32, 32, 32]"
definition INIT_name :: "u8 list" where "INIT_name = [0x49, 0x4e, 0x49, 0x54]"
definition NONE_name :: "u8 list" where "NONE_name = [0x4e, 0x4f, 0x4e, 0x45]"

section \<open>Joining neighbours\<close>

text \<open>The block at \<open>nmem\<close> becomes part of the one at \<open>mem\<close>.\<close>

definition item_join :: "u32 \<Rightarrow> u32 \<Rightarrow> rt_small_mem \<Rightarrow> rt_small_mem" where
  "item_join mem nmem m =
     (let m = (if sm_lfree m = nmem then m\<lparr>sm_lfree := mem\<rparr> else m);
          m = item_set_pool nmem 0 m;
          m = item_set_next mem (item_next m nmem) m
      in item_set_prev (sm_heap_ptr m + item_next m nmem) (mem - sm_heap_ptr m) m)"

definition plug_forward :: "u32 \<Rightarrow> rt_small_mem \<Rightarrow> rt_small_mem" where
  "plug_forward mem m =
     (let nmem = sm_heap_ptr m + item_next m mem in
      if mem \<noteq> nmem \<and> \<not> MEM_ISUSED m nmem \<and> nmem \<noteq> sm_heap_end m then item_join mem nmem m else m)"

definition plug_backward :: "u32 \<Rightarrow> rt_small_mem \<Rightarrow> rt_small_mem" where
  "plug_backward mem m =
     (let pmem = sm_heap_ptr m + item_prev m mem in
      if pmem \<noteq> mem \<and> \<not> MEM_ISUSED m pmem then item_join pmem mem m else m)"

definition plug_holes :: "u32 \<Rightarrow> rt_small_mem \<Rightarrow> rt_small_mem res" where
  "plug_holes mem m =
     assertR (mem \<ge> sm_heap_ptr m) ''mem >= heap_ptr''
     (assertR (mem < sm_heap_end m) ''mem < heap_end''
     (Inr (plug_backward mem (plug_forward mem m))))"

section \<open>Operations\<close>

text \<open>\<open>None\<close> is a region that is too small; \<open>M\<close> is the memory before.\<close>

definition rt_smem_init :: "u32 \<Rightarrow> u32 \<Rightarrow> (u32 \<Rightarrow> u32) \<Rightarrow> rt_small_mem option" where
  "rt_smem_init begin_addr sz M =
     (let small_mem = RT_ALIGN begin_addr RT_ALIGN_SIZE;
          start_addr = small_mem + sizeof_small_mem;
          begin_align = RT_ALIGN start_addr RT_ALIGN_SIZE;
          end_align = RT_ALIGN_DOWN (begin_addr + sz) RT_ALIGN_SIZE in
      if end_align > 2 * SIZEOF_STRUCT_MEM \<and> end_align - 2 * SIZEOF_STRUCT_MEM \<ge> start_addr then
        let mem_size = end_align - begin_align - 2 * SIZEOF_STRUCT_MEM;
            s = \<lparr>sm_self = small_mem, sm_address = begin_align, sm_total = mem_size, sm_used = 0, sm_max = 0, sm_heap_ptr = begin_align,
                 sm_heap_end = 0, sm_lfree = 0, sm_mem_size_aligned = mem_size, sm_mem = M\<rparr>;
            mem = sm_heap_ptr s;
            s = item_set_pool mem (MEM_FREED s) s;
            s = item_set_next mem (sm_mem_size_aligned s + SIZEOF_STRUCT_MEM) s;
            s = item_set_prev mem 0 s;
            s = rt_smem_setname mem INIT_name s;
            s = s\<lparr>sm_heap_end := sm_heap_ptr s + item_next s mem\<rparr>;
            s = item_set_pool (sm_heap_end s) (MEM_USED s) s;
            s = item_set_next (sm_heap_end s) (sm_mem_size_aligned s + SIZEOF_STRUCT_MEM) s;
            s = item_set_prev (sm_heap_end s) (sm_mem_size_aligned s + SIZEOF_STRUCT_MEM) s;
            s = rt_smem_setname (sm_heap_end s) INIT_name s
        in Some (s\<lparr>sm_lfree := sm_heap_ptr s\<rparr>)
      else None)"

text \<open>The search of \<^verbatim>\<open>rt_smem_alloc\<close>: \<open>Some None\<close> is its end without success, \<open>None\<close> not ending.\<close>

partial_function (option) smem_find :: "u32 \<Rightarrow> rt_small_mem \<Rightarrow> u32 \<Rightarrow> u32 option option" where
  "smem_find sz s ptr =
     (if ptr \<le> sm_mem_size_aligned s - sz then
        let mem = sm_heap_ptr s + ptr in
        if \<not> MEM_ISUSED s mem \<and> item_next s mem - (ptr + SIZEOF_STRUCT_MEM) \<ge> sz then Some (Some ptr)
        else smem_find sz s (item_next s mem)
      else Some None)"

partial_function (option) lfree_up :: "rt_small_mem \<Rightarrow> u32 \<Rightarrow> u32 option" where
  "lfree_up s a = (if MEM_ISUSED s a \<and> a \<noteq> sm_heap_end s then lfree_up s (sm_heap_ptr s + item_next s a) else Some a)"

definition count_used :: "u32 \<Rightarrow> rt_small_mem \<Rightarrow> rt_small_mem" where
  "count_used n s = (let s = s\<lparr>sm_used := sm_used s + n\<rparr> in if sm_max s < sm_used s then s\<lparr>sm_max := sm_used s\<rparr> else s)"

definition smem_split :: "u32 \<Rightarrow> u32 \<Rightarrow> rt_small_mem \<Rightarrow> rt_small_mem" where
  "smem_split ptr ptr2 s =
     (let mem = sm_heap_ptr s + ptr;
          mem2 = sm_heap_ptr s + ptr2;
          s = item_set_pool mem2 (MEM_FREED s) s;
          s = item_set_next mem2 (item_next s mem) s;
          s = item_set_prev mem2 ptr s;
          s = rt_smem_setname mem2 blanks s;
          s = item_set_next mem ptr2 s
      in if item_next s mem2 \<noteq> sm_mem_size_aligned s + SIZEOF_STRUCT_MEM then item_set_prev (sm_heap_ptr s + item_next s mem2) ptr2 s else s)"

definition smem_cut :: "u32 \<Rightarrow> u32 \<Rightarrow> rt_small_mem \<Rightarrow> rt_small_mem" where
  "smem_cut sz ptr s =
     (let mem = sm_heap_ptr s + ptr in
      if item_next s mem - (ptr + SIZEOF_STRUCT_MEM) \<ge> sz + SIZEOF_STRUCT_MEM + MIN_SIZE_ALIGNED
      then count_used (sz + SIZEOF_STRUCT_MEM) (smem_split ptr (ptr + SIZEOF_STRUCT_MEM + sz) s)
      else count_used (item_next s mem - (mem - sm_heap_ptr s)) s)"

text \<open>Taking the item at \<open>ptr\<close>; \<open>self\<close> is the name of the current thread, if there is one.\<close>

definition smem_take :: "u8 list option \<Rightarrow> u32 \<Rightarrow> u32 \<Rightarrow> rt_small_mem \<Rightarrow> (u32 \<times> rt_small_mem) res option" where
  "smem_take self sz ptr s =
     (let mem = sm_heap_ptr s + ptr;
          s = smem_cut sz ptr s;
          s = item_set_pool mem (MEM_USED s) s;
          s = rt_smem_setname mem (case self of Some name \<Rightarrow> name | None \<Rightarrow> NONE_name) s in
      Option.bind (if mem = sm_lfree s then lfree_up s mem else Some (sm_lfree s)) (\<lambda>lf.
      let s' = s\<lparr>sm_lfree := lf\<rparr> in
      Some (assertR (mem = sm_lfree s \<longrightarrow> lf = sm_heap_end s \<or> \<not> MEM_ISUSED s lf) ''lfree''
        (assertR (mem + SIZEOF_STRUCT_MEM + sz \<le> sm_heap_end s) ''block in the heap''
        (assertR ((mem + SIZEOF_STRUCT_MEM) mod RT_ALIGN_SIZE = 0) ''data aligned''
        (assertR (mem AND (RT_ALIGN_SIZE - 1) = 0) ''item aligned''
        (Inr (mem + SIZEOF_STRUCT_MEM, s'))))))))"

definition smem_size :: "u32 \<Rightarrow> u32" where
  "smem_size sz = (let sz = RT_ALIGN sz RT_ALIGN_SIZE in if sz < MIN_SIZE_ALIGNED then MIN_SIZE_ALIGNED else sz)"

definition rt_smem_alloc :: "u8 list option \<Rightarrow> u32 \<Rightarrow> rt_small_mem \<Rightarrow> (u32 \<times> rt_small_mem) res option" where
  "rt_smem_alloc self sz s =
     (if sz = 0 then Some (Inr (0, s))
      else
        let sz = smem_size sz in
        if sz > sm_mem_size_aligned s then Some (Inr (0, s))
        else Option.bind (smem_find sz s (sm_lfree s - sm_heap_ptr s)) (\<lambda>r.
          case r of None \<Rightarrow> Some (Inr (0, s)) | Some ptr \<Rightarrow> smem_take self sz ptr s))"

definition rt_smem_free :: "u32 \<Rightarrow> rt_small_mem \<Rightarrow> rt_small_mem res" where
  "rt_smem_free rmem s =
     (if rmem = 0 then Inr s
      else
        let mem = rmem - SIZEOF_STRUCT_MEM in
        assertR (rmem AND (RT_ALIGN_SIZE - 1) = 0) ''rmem aligned''
        (assertR (MEM_POOL s mem \<noteq> 0) ''small_mem''
        (assertR (MEM_ISUSED s mem) ''used''
        (if MEM_POOL s mem \<noteq> sm_self s then Inl (Bad_access ''small_mem'')
         else
           assertR (rmem \<ge> sm_heap_ptr s \<and> rmem < sm_heap_end s) ''rmem in the heap''
           (assertR (MEM_POOL s (sm_heap_ptr s + item_next s mem) = sm_self s) ''next item''
           (let s = item_set_pool mem (MEM_FREED s) s;
                s = rt_smem_setname mem blanks s;
                s = (if mem < sm_lfree s then s\<lparr>sm_lfree := mem\<rparr> else s);
                s = s\<lparr>sm_used := sm_used s - (item_next s mem - (mem - sm_heap_ptr s))\<rparr>
            in plug_holes mem s))))))"

text \<open>\<^verbatim>\<open>rt_memcpy\<close> of a multiple of four bytes between areas that do not overlap.\<close>

definition smem_copy :: "u32 \<Rightarrow> u32 \<Rightarrow> u32 \<Rightarrow> rt_small_mem \<Rightarrow> rt_small_mem" where
  "smem_copy dst src n s = s\<lparr>sm_mem := (\<lambda>a. if a - dst < n then sm_mem s (a - dst + src) else sm_mem s a)\<rparr>"

definition rt_smem_realloc :: "u8 list option \<Rightarrow> u32 \<Rightarrow> u32 \<Rightarrow> rt_small_mem \<Rightarrow> (u32 \<times> rt_small_mem) res option" where
  "rt_smem_realloc self rmem newsize s =
     (let newsize = RT_ALIGN newsize RT_ALIGN_SIZE in
      if newsize > sm_mem_size_aligned s then Some (Inr (0, s))
      else if newsize = 0 then Some (bindR (rt_smem_free rmem s) (\<lambda>s. Inr (0, s)))
      else if rmem = 0 then rt_smem_alloc self newsize s
      else if rmem AND (RT_ALIGN_SIZE - 1) \<noteq> 0 then Some (Inl (Assert_fail ''rmem aligned''))
      else if \<not> (rmem \<ge> sm_heap_ptr s \<and> rmem < sm_heap_end s) then Some (Inl (Assert_fail ''rmem in the heap''))
      else
        let mem = rmem - SIZEOF_STRUCT_MEM;
            ptr = mem - sm_heap_ptr s;
            sz = item_next s mem - ptr - SIZEOF_STRUCT_MEM in
        if sz = newsize then Some (Inr (rmem, s))
        else if newsize + SIZEOF_STRUCT_MEM + MIN_SIZE < sz then
          let s = s\<lparr>sm_used := sm_used s - (sz - newsize)\<rparr>;
              ptr2 = ptr + SIZEOF_STRUCT_MEM + newsize;
              mem2 = sm_heap_ptr s + ptr2;
              s = smem_split ptr ptr2 s;
              s = (if mem2 < sm_lfree s then s\<lparr>sm_lfree := mem2\<rparr> else s)
          in Some (bindR (plug_holes mem2 s) (\<lambda>s. Inr (rmem, s)))
        else
          bindO (rt_smem_alloc self newsize s) (\<lambda>(nmem, s).
          Some (if nmem = 0 then Inr (0, s)
                else bindR (rt_smem_free rmem (smem_copy nmem rmem (if sz < newsize then sz else newsize) s)) (\<lambda>s. Inr (nmem, s)))))"

section \<open>Layouts\<close>

text \<open>
  The heap as the sequence of its blocks, each with its length, header included, and whether it is
  used. \<open>at s i\<close> is the address at offset \<open>i\<close> of the heap.
\<close>

type_synonym layout = "(nat \<times> bool) list"

lemma smem_consts [simp]: "RT_ALIGN_SIZE = 8" "SIZEOF_STRUCT_MEM = 16" "MIN_SIZE_ALIGNED = 16" "MIN_SIZE = 12" "MEM_MASK = 0xfffffffe" and not_mask: "NOT MEM_MASK = 1"
  by (simp_all add: RT_ALIGN_SIZE_def SIZEOF_STRUCT_MEM_def MIN_SIZE_ALIGNED_def MIN_SIZE_def MEM_MASK_def RT_ALIGN_def sizeof_item_def)

definition at :: "rt_small_mem \<Rightarrow> nat \<Rightarrow> u32" where "at s i = sm_heap_ptr s + of_nat i"

definition tag :: "rt_small_mem \<Rightarrow> bool \<Rightarrow> u32" where "tag s u = (if u then MEM_USED s else MEM_FREED s)"

definition extent :: "layout \<Rightarrow> nat" where "extent bs = sum_list (map fst bs)"

definition header :: "rt_small_mem \<Rightarrow> nat \<Rightarrow> bool \<Rightarrow> nat \<Rightarrow> nat \<Rightarrow> bool" where
  "header s i u n p \<longleftrightarrow> pool_ptr s (at s i) = tag s u \<and> item_next s (at s i) = of_nat (i + n) \<and> item_prev s (at s i) = of_nat p"

fun items :: "rt_small_mem \<Rightarrow> nat \<Rightarrow> nat \<Rightarrow> layout \<Rightarrow> bool" where
  "items s p i [] \<longleftrightarrow> True"
| "items s p i ((n, u) # bs) \<longleftrightarrow> header s i u n p \<and> items s i (i + n) bs"

text \<open>The offset of the block before the end of a layout.\<close>

fun last_at :: "nat \<Rightarrow> nat \<Rightarrow> layout \<Rightarrow> nat" where
  "last_at p i [] = p"
| "last_at p i ((n, u) # bs) = last_at i (i + n) bs"

fun first_free :: "nat \<Rightarrow> layout \<Rightarrow> nat" where
  "first_free i [] = i"
| "first_free i ((n, u) # bs) = (if u then first_free (i + n) bs else i)"

definition used_bytes :: "layout \<Rightarrow> nat" where "used_bytes bs = sum_list (map fst (filter snd bs))"

text \<open>The blocks are aligned and hold their header, and no two neighbours are free.\<close>

definition layout_ok :: "layout \<Rightarrow> bool" where
  "layout_ok bs \<longleftrightarrow> (\<forall>b \<in> set bs. 16 \<le> fst b \<and> 8 dvd fst b \<and> (snd b \<longrightarrow> 16 < fst b)) \<and> successively (\<lambda>a b. snd a \<or> snd b) bs"

definition heap_frame :: "layout \<Rightarrow> rt_small_mem \<Rightarrow> bool" where
  "heap_frame bs s \<longleftrightarrow> sm_self s AND MEM_MASK = sm_self s \<and> sm_self s \<noteq> 0 \<and> 8 dvd unat (sm_heap_ptr s) \<and> 0 < unat (sm_heap_ptr s) \<and>
     unat (sm_heap_ptr s) + extent bs + 16 \<le> 2 ^ 32 \<and> extent bs = unat (sm_mem_size_aligned s) + 16 \<and> sm_heap_end s = at s (extent bs)"

definition smem_inv :: "layout \<Rightarrow> rt_small_mem \<Rightarrow> bool" where
  "smem_inv bs s \<longleftrightarrow> heap_frame bs s \<and> layout_ok bs \<and> items s 0 0 bs \<and> pool_ptr s (at s (extent bs)) = MEM_USED s \<and>
     sm_lfree s = at s (first_free 0 bs) \<and> sm_used s = of_nat (used_bytes bs)"

lemma extent_simps [simp]: "extent [] = 0" "extent (b # bs) = fst b + extent bs" "extent (xs @ ys) = extent xs + extent ys"
  by (simp_all add: extent_def)

lemma used_bytes_simps [simp]: "used_bytes [] = 0" "used_bytes (b # bs) = (if snd b then fst b else 0) + used_bytes bs"
  "used_bytes (xs @ ys) = used_bytes xs + used_bytes ys"
  by (simp_all add: used_bytes_def)

lemma used_le_extent: "used_bytes bs \<le> extent bs"
  by (induction bs) auto

lemma items_append [simp]: "items s p i (xs @ ys) \<longleftrightarrow> items s p i xs \<and> items s (last_at p i xs) (i + extent xs) ys"
  by (induction s p i xs rule: items.induct) (simp_all add: add.assoc)

lemma last_at_append [simp]: "last_at p i (xs @ ys) = last_at (last_at p i xs) (i + extent xs) ys"
  by (induction p i xs rule: last_at.induct) (simp_all add: add.assoc)

lemma first_free_append: "first_free i (xs @ ys) = (if \<forall>b \<in> set xs. snd b then first_free (i + extent xs) ys else first_free i xs)"
  by (induction i xs rule: first_free.induct) (simp_all add: add.assoc)

lemma first_free_bound: "i \<le> first_free i bs" "first_free i bs \<le> i + extent bs"
  by (induction i bs rule: first_free.induct) auto

lemma first_free_used: "(\<forall>b \<in> set bs. snd b) \<Longrightarrow> first_free i bs = i + extent bs"
  by (induction i bs rule: first_free.induct) (simp_all add: add.assoc)

section \<open>Addresses\<close>

lemma at_plus [simp]: "at s i + 4 = at s (i + 4)" "at s i + 8 = at s (i + 8)" "at s i + 12 = at s (i + 12)" "at s i + 16 = at s (i + 16)"
  "at s i - sm_heap_ptr s = of_nat i"
  unfolding at_def by (simp_all only: of_nat_add of_nat_numeral add.assoc add_diff_cancel_left' diff_add_cancel)

lemma at_fold: "sm_heap_ptr s + of_nat i = at s i"
  by (simp add: at_def)

lemma unat_of_nat_32: "i < 2 ^ 32 \<Longrightarrow> unat (of_nat i :: u32) = i"
  by (simp add: unat_of_nat)

lemma at_neq: "i < 2 ^ 32 \<Longrightarrow> j < 2 ^ 32 \<Longrightarrow> i \<noteq> j \<Longrightarrow> at s i \<noteq> at s j"
  unfolding at_def add_left_cancel by (metis unat_of_nat_32)

lemma unat_at: "unat (sm_heap_ptr s) + i < 2 ^ 32 \<Longrightarrow> unat (at s i) = unat (sm_heap_ptr s) + i"
  unfolding at_def by (subst unat_word_ariths) (simp add: unat_of_nat_32)

lemma of_nat_le: "i < 2 ^ 32 \<Longrightarrow> j < 2 ^ 32 \<Longrightarrow> (of_nat i :: u32) \<le> of_nat j \<longleftrightarrow> i \<le> j"
  by (simp only: word_le_nat_alt unat_of_nat_32)

lemma of_nat_less: "i < 2 ^ 32 \<Longrightarrow> j < 2 ^ 32 \<Longrightarrow> (of_nat i :: u32) < of_nat j \<longleftrightarrow> i < j"
  by (simp only: word_less_nat_alt unat_of_nat_32)

lemma sm_set_simps [simp]:
  "sm_mem (sm_set a v s) = (sm_mem s)(a := v)" "sm_self (sm_set a v s) = sm_self s" "sm_heap_ptr (sm_set a v s) = sm_heap_ptr s"
  "sm_heap_end (sm_set a v s) = sm_heap_end s" "sm_lfree (sm_set a v s) = sm_lfree s" "sm_used (sm_set a v s) = sm_used s"
  "sm_max (sm_set a v s) = sm_max s" "sm_mem_size_aligned (sm_set a v s) = sm_mem_size_aligned s" "sm_total (sm_set a v s) = sm_total s"
  by (simp_all add: sm_set_def)

lemma same_base:
  assumes "sm_heap_ptr s' = sm_heap_ptr s"
  shows "at s' = at s"
  using assms by (simp add: at_def fun_eq_iff)

lemma tag_base:
  assumes "sm_self s' = sm_self s"
  shows "tag s' = tag s" "MEM_USED s' = MEM_USED s" "MEM_FREED s' = MEM_FREED s"
  using assms by (simp_all add: tag_def MEM_USED_def MEM_FREED_def fun_eq_iff)

lemma at_base [simp]: "at (sm_set a v s) = at s" "at (s\<lparr>sm_lfree := l\<rparr>) = at s" "at (s\<lparr>sm_used := n\<rparr>) = at s" "at (s\<lparr>sm_max := n\<rparr>) = at s"
  "tag (sm_set a v s) = tag s" "tag (s\<lparr>sm_lfree := l\<rparr>) = tag s" "tag (s\<lparr>sm_used := n\<rparr>) = tag s" "tag (s\<lparr>sm_max := n\<rparr>) = tag s"
  by ((rule same_base | rule tag_base(1)), simp)+

lemma bit_or_and_1: "(x OR 1 :: u32) AND 1 = 1" "((x :: u32) AND 0xfffffffe) AND 1 = 0" "((x :: u32) AND 0xfffffffe OR 1) AND 0xfffffffe = x AND 0xfffffffe"
proof -
  have m: "(0xfffffffe :: u32) = NOT 1" by simp
  show "(x OR 1 :: u32) AND 1 = 1" "((x :: u32) AND 0xfffffffe) AND 1 = 0" "((x :: u32) AND 0xfffffffe OR 1) AND 0xfffffffe = x AND 0xfffffffe"
    unfolding m by (rule bit_word_eqI, auto simp: bit_simps bit_1_iff bit_not_iff)+
qed

text \<open>Blocks that are not touched keep their headers.\<close>

lemma items_cong:
  assumes "items s p i bs" "\<forall>b \<in> set bs. 16 \<le> fst b" "sm_heap_ptr s' = sm_heap_ptr s" "sm_self s' = sm_self s"
    "\<And>j. i \<le> j \<Longrightarrow> j < i + extent bs \<Longrightarrow> sm_mem s' (at s j) = sm_mem s (at s j)"
  shows "items s' p i bs"
  using assms
proof (induction s p i bs rule: items.induct)
  case (2 s p i n u bs)
  have "sm_mem s' (at s i) = sm_mem s (at s i)" "sm_mem s' (at s (i + 4)) = sm_mem s (at s (i + 4))" "sm_mem s' (at s (i + 8)) = sm_mem s (at s (i + 8))"
    by (rule 2(6); use 2(3) in simp)+
  then have "header s' i u n p" using 2(2) same_base [OF 2(4)] tag_base [OF 2(5)]
    by (simp add: header_def pool_ptr_def item_next_def item_prev_def)
  moreover have "items s' i (i + n) bs" using 2 by (intro 2(1)) auto
  ultimately show ?case by simp
qed simp

lemma isused_tag: "pool_ptr s a = tag s u \<Longrightarrow> MEM_ISUSED s a \<longleftrightarrow> u"
  unfolding MEM_ISUSED_def not_mask unfolding tag_def MEM_USED_def MEM_FREED_def smem_consts(5) by (simp add: bit_or_and_1 split: if_splits)

lemma pool_tag: "pool_ptr s a = tag s u \<Longrightarrow> sm_self s AND MEM_MASK = sm_self s \<Longrightarrow> MEM_POOL s a = sm_self s"
  unfolding MEM_POOL_def tag_def MEM_USED_def MEM_FREED_def smem_consts(5) using bit_or_and_1(3) [of "sm_self s"] by (simp split: if_splits)

section \<open>The two searches\<close>

text \<open>The first free block with room for \<open>z\<close> bytes, and the pointer to the first free block.\<close>

fun fit :: "nat \<Rightarrow> nat \<Rightarrow> layout \<Rightarrow> nat option" where
  "fit z i [] = None"
| "fit z i ((n, u) # bs) = (if \<not> u \<and> z + 16 \<le> n then Some i else fit z (i + n) bs)"

lemma fit_too_small: "extent bs < z + 16 \<Longrightarrow> fit z i bs = None"
  by (induction z i bs rule: fit.induct) auto

lemma fit_used: "(\<forall>b \<in> set xs. snd b) \<Longrightarrow> fit z i (xs @ ys) = fit z (i + extent xs) ys"
  by (induction z i xs rule: fit.induct) (auto simp: add.assoc)

lemma smem_find_fit:
  assumes "items s p i bs" "\<forall>b \<in> set bs. 16 \<le> fst b" "i + extent bs = unat (sm_mem_size_aligned s) + 16"
    "unat (sm_mem_size_aligned s) + 16 < 2 ^ 32" "z \<le> unat (sm_mem_size_aligned s)"
  shows "smem_find (of_nat z) s (of_nat i) = Some (map_option of_nat (fit z i bs))"
  using assms
proof (induction s p i bs rule: items.induct)
  case (1 s p i)
  have z: "sm_mem_size_aligned s - of_nat z = of_nat (unat (sm_mem_size_aligned s) - z)" using 1(5) by (simp add: of_nat_diff)
  have "\<not> (of_nat i :: u32) \<le> of_nat (unat (sm_mem_size_aligned s) - z)" using 1(3,4) by (subst of_nat_le) auto
  then show ?case by (subst smem_find.simps) (simp add: z)
next
  case (2 s p i n u bs)
  have z: "sm_mem_size_aligned s - of_nat z = of_nat (unat (sm_mem_size_aligned s) - z)" using 2(6) by (simp add: of_nat_diff)
  have ni: "16 \<le> n" "i + n < 2 ^ 32" using 2(3,4,5) by auto
  have h: "item_next s (at s i) = of_nat (i + n)" "MEM_ISUSED s (at s i) \<longleftrightarrow> u" using 2(2) isused_tag by (auto simp: header_def)
  have IH: "smem_find (of_nat z) s (of_nat (i + n)) = Some (map_option of_nat (fit z (i + n) bs))" using 2 by (intro 2(1)) auto
  have le: "(of_nat i :: u32) \<le> sm_mem_size_aligned s - of_nat z \<longleftrightarrow> i \<le> unat (sm_mem_size_aligned s) - z"
    unfolding z using ni 2(5) by (subst of_nat_le) auto
  have d: "(of_nat (i + n) :: u32) - (of_nat i + 16) = of_nat (n - 16)" using ni by (simp add: of_nat_diff)
  have fits: "(of_nat z :: u32) \<le> of_nat (i + n) - (of_nat i + 16) \<longleftrightarrow> z + 16 \<le> n"
    unfolding d using ni 2(5,6) by (subst of_nat_le) auto
  show ?case
  proof (cases "i \<le> unat (sm_mem_size_aligned s) - z")
    case True
    then have "smem_find (of_nat z) s (of_nat i) = (if \<not> u \<and> z + 16 \<le> n then Some (Some (of_nat i)) else smem_find (of_nat z) s (of_nat (i + n)))"
      by (subst smem_find.simps) (simp only: le at_fold h fits smem_consts Let_def if_True)
    then show ?thesis using IH by simp
  next
    case False
    then have "smem_find (of_nat z) s (of_nat i) = Some None" by (subst smem_find.simps) (simp only: le if_False)
    moreover have "fit z i ((n, u) # bs) = None" using False 2(4,6) by (intro fit_too_small) simp
    ultimately show ?thesis by simp
  qed
qed

lemma lfree_up_first:
  assumes "items s p i bs" "\<forall>b \<in> set bs. 16 \<le> fst b" "sm_heap_end s = at s (i + extent bs)" "i + extent bs < 2 ^ 32"
  shows "lfree_up s (at s i) = Some (at s (first_free i bs))"
  using assms
proof (induction s p i bs rule: items.induct)
  case (1 s p i)
  then show ?case by (subst lfree_up.simps) simp
next
  case (2 s p i n u bs)
  have h: "item_next s (at s i) = of_nat (i + n)" "MEM_ISUSED s (at s i) \<longleftrightarrow> u" using 2(2) isused_tag by (auto simp: header_def)
  have ne: "at s i \<noteq> sm_heap_end s" using 2(3,4,5) unfolding 2(4) by (intro at_neq) auto
  have "lfree_up s (at s i) = (if u then lfree_up s (at s (i + n)) else Some (at s i))"
    by (subst lfree_up.simps) (simp only: h at_fold ne simp_thms not_False_eq_True)
  moreover have "u \<Longrightarrow> lfree_up s (at s (i + n)) = Some (at s (first_free (i + n) bs))" using 2 by (intro 2(1)) (auto simp: add.assoc)
  ultimately show ?case by simp
qed

section \<open>Writing headers\<close>

lemma at_eq [simp]: "i < 4294967296 \<Longrightarrow> j < 4294967296 \<Longrightarrow> at s i = at s j \<longleftrightarrow> i = j"
  using at_neq [of i j s] by auto

text \<open>The writes of an operation: outside \<open>J\<close> nothing changes.\<close>

definition touches :: "nat set \<Rightarrow> rt_small_mem \<Rightarrow> rt_small_mem \<Rightarrow> bool" where
  "touches J s s' \<longleftrightarrow> sm_heap_ptr s' = sm_heap_ptr s \<and> sm_self s' = sm_self s \<and> sm_heap_end s' = sm_heap_end s \<and>
     sm_mem_size_aligned s' = sm_mem_size_aligned s \<and> (\<forall>j < 2 ^ 32. j \<notin> J \<longrightarrow> sm_mem s' (at s j) = sm_mem s (at s j))"

lemma touchesD:
  assumes "touches J s s'"
  shows "sm_heap_ptr s' = sm_heap_ptr s" "sm_self s' = sm_self s" "sm_heap_end s' = sm_heap_end s" "sm_mem_size_aligned s' = sm_mem_size_aligned s"
    "j < 2 ^ 32 \<Longrightarrow> j \<notin> J \<Longrightarrow> sm_mem s' (at s j) = sm_mem s (at s j)" "at s' = at s" "tag s' = tag s" "MEM_USED s' = MEM_USED s" "MEM_FREED s' = MEM_FREED s"
  using assms same_base [of s' s] tag_base [of s' s] by (auto simp: touches_def)

lemma touches_trans: "touches J s s1 \<Longrightarrow> touches K s1 s2 \<Longrightarrow> touches (J \<union> K) s s2"
  using same_base [of s1 s] by (simp add: touches_def)

lemma touches_mono: "touches J s s' \<Longrightarrow> J \<subseteq> K \<Longrightarrow> touches K s s'"
  by (auto simp: touches_def)

lemma touches_fields [simp]: "touches J s (s\<lparr>sm_lfree := l\<rparr>)" "touches J s (s\<lparr>sm_used := n\<rparr>)" "touches J s (s\<lparr>sm_max := n\<rparr>)" "touches J s s"
  by (simp_all add: touches_def)

lemma touches_sm_set: "j < 2 ^ 32 \<Longrightarrow> j \<in> J \<Longrightarrow> touches J s (sm_set (at s j) v s)"
  by (auto simp: touches_def)

lemma items_touches:
  assumes "touches J s s'" "items s p i bs" "\<forall>b \<in> set bs. 16 \<le> fst b" "i + extent bs \<le> 2 ^ 32" "\<And>j. j \<in> J \<Longrightarrow> j < i \<or> i + extent bs \<le> j"
  shows "items s' p i bs"
proof (rule items_cong [OF assms(2,3) touchesD(1,2) [OF assms(1)]])
  fix j assume "i \<le> j" "j < i + extent bs"
  then show "sm_mem s' (at s j) = sm_mem s (at s j)" using assms(4) assms(5) [of j] by (intro touchesD(5) [OF assms(1)]) auto
qed

text \<open>A new predecessor for the blocks that follow.\<close>

lemma items_relink:
  assumes t: "touches J s s'" and it: "items s p i bs" and m: "\<forall>b \<in> set bs. 16 \<le> fst b" and e: "i + extent bs \<le> 2 ^ 32"
    and J: "\<And>j. j \<in> J \<Longrightarrow> j \<noteq> i + 8 \<Longrightarrow> j < i \<or> i + extent bs \<le> j" and p: "bs \<noteq> [] \<Longrightarrow> sm_mem s' (at s (i + 8)) = of_nat p'"
  shows "items s' p' i bs"
proof (cases bs)
  case (Cons b cs)
  obtain n u where b: "b = (n, u)" by (cases b)
  have n: "16 \<le> n" "i + n + extent cs \<le> 2 ^ 32" using m e by (auto simp: Cons b)
  have h: "header s i u n p" "items s i (i + n) cs" using it by (simp_all add: Cons b)
  have J': "j < i \<or> i + n + extent cs \<le> j" if "j \<in> J" "j \<noteq> i + 8" for j using J [OF that] by (simp add: Cons b add.assoc)
  have "items s' i (i + n) cs" using m by (intro items_touches [OF t h(2) _ n(2)]) (use J' n in \<open>fastforce simp: Cons\<close>)+
  moreover have "sm_mem s' (at s i) = sm_mem s (at s i)" "sm_mem s' (at s (i + 4)) = sm_mem s (at s (i + 4))"
    using n J' [of i] J' [of "i + 4"] by (intro touchesD(5) [OF t]; auto)+
  then have "header s' i u n p'" using h(1) p touchesD(6,7) [OF t] by (simp add: Cons header_def pool_ptr_def item_next_def item_prev_def)
  ultimately show ?thesis by (simp add: Cons b)
qed simp

text \<open>Marking a block.\<close>

definition mark :: "u32 \<Rightarrow> u32 \<Rightarrow> u8 list \<Rightarrow> rt_small_mem \<Rightarrow> rt_small_mem" where
  "mark a v name s = rt_smem_setname a name (item_set_pool a v s)"

lemma mark_touches: "i + 16 \<le> 2 ^ 32 \<Longrightarrow> touches {i, i + 12} s (mark (at s i) v name s)"
  by (auto simp: mark_def rt_smem_setname_def item_set_pool_def touches_def)

lemma mark_fields [simp]: "sm_used (mark a v name s) = sm_used s" "sm_lfree (mark a v name s) = sm_lfree s" "sm_max (mark a v name s) = sm_max s"
  by (simp_all add: mark_def rt_smem_setname_def item_set_pool_def)

lemma mark_items:
  assumes it: "items s p0 0 (xs @ (n, u) # ys)" and m: "\<forall>b \<in> set (xs @ (n, u) # ys). 16 \<le> fst b" and e: "extent (xs @ (n, u) # ys) + 16 \<le> 2 ^ 32"
    and i: "i = extent xs"
  shows "items (mark (at s i) (tag s u') name s) p0 0 (xs @ (n, u') # ys)"
proof -
  let ?s = "mark (at s i) (tag s u') name s"
  have b: "16 \<le> n" "i + n + extent ys + 16 \<le> 2 ^ 32" "i + 16 \<le> 2 ^ 32" using m e i by auto
  note t = mark_touches [OF b(3), of s "tag s u'" name]
  have "items ?s p0 0 xs" using it m i b by (intro items_touches [OF t]) auto
  moreover have "items ?s i (i + n) ys" using it m i b by (intro items_touches [OF t]) auto
  moreover have "sm_mem ?s (at s i) = tag s u'" "sm_mem ?s (at s (i + 4)) = sm_mem s (at s (i + 4))" "sm_mem ?s (at s (i + 8)) = sm_mem s (at s (i + 8))"
    using b by (simp_all add: mark_def rt_smem_setname_def item_set_pool_def)
  then have "header ?s i u' n (last_at p0 0 xs)" using it i touchesD(6,7) [OF t] by (simp add: header_def pool_ptr_def item_next_def item_prev_def)
  ultimately show ?thesis using i by simp
qed

section \<open>Splitting a block\<close>

lemma smem_split_mem:
  assumes nx: "item_next s (at s i) = of_nat e" and b: "i + 16 \<le> k" "k + 16 \<le> e" "e + 16 \<le> 2 ^ 32" and fin: "sm_mem_size_aligned s + 16 = of_nat E" "E + 16 \<le> 2 ^ 32"
  defines "s' \<equiv> smem_split (of_nat i) (of_nat k) s"
  shows "touches ({i + 4, k, k + 4, k + 8, k + 12} \<union> {e + 8}) s s'" "header s' k False (e - k) i" "sm_mem s' (at s (i + 4)) = of_nat k"
    "e \<noteq> E \<Longrightarrow> sm_mem s' (at s (e + 8)) = of_nat k" "e = E \<Longrightarrow> sm_mem s' (at s (e + 8)) = sm_mem s (at s (e + 8))"
    "sm_lfree s' = sm_lfree s" "sm_used s' = sm_used s" "sm_max s' = sm_max s"
proof -
  let ?w = "foldr (\<lambda>b w. push_bit 8 w OR ucast b) (name_bytes 4 blanks) 0"
  let ?M = "(sm_mem s)(at s k := MEM_FREED s, at s (k + 4) := of_nat e, at s (k + 8) := of_nat i, at s (k + 12) := ?w, at s (i + 4) := of_nat k)"
  have nx': "sm_mem s (at s (i + 4)) = of_nat e" using nx by (simp add: item_next_def)
  have ee: "(of_nat e :: u32) = of_nat E \<longleftrightarrow> e = E" using b(3) fin(2) of_nat_le [of e E] of_nat_le [of E e] by auto
  have m: "s' = s\<lparr>sm_mem := (if e = E then ?M else ?M(at s (e + 8) := of_nat k))\<rparr>"
    using b fin(2) nx' unfolding s'_def smem_split_def Let_def item_set_pool_def item_set_next_def item_set_prev_def rt_smem_setname_def
    by (simp add: at_fold item_next_def fin(1) ee) (simp add: sm_set_def)
  have s: "at s' = at s" "tag s' = tag s" "sm_mem s' = (if e = E then ?M else ?M(at s (e + 8) := of_nat k))"
    using same_base [of s' s] tag_base [of s' s] by (simp_all add: m)
  show "touches ({i + 4, k, k + 4, k + 8, k + 12} \<union> {e + 8}) s s'" using b unfolding touches_def s(3) by (simp add: m)
  have "sm_mem s' (at s k) = MEM_FREED s" "sm_mem s' (at s (k + 4)) = of_nat e" "sm_mem s' (at s (k + 8)) = of_nat i"
    unfolding s(3) using b by simp_all
  then show "header s' k False (e - k) i" using b by (simp add: header_def s(1,2) pool_ptr_def item_next_def item_prev_def tag_def)
  show "sm_mem s' (at s (i + 4)) = of_nat k" "e \<noteq> E \<Longrightarrow> sm_mem s' (at s (e + 8)) = of_nat k" "e = E \<Longrightarrow> sm_mem s' (at s (e + 8)) = sm_mem s (at s (e + 8))"
    unfolding s(3) using b by simp_all
  show "sm_lfree s' = sm_lfree s" "sm_used s' = sm_used s" "sm_max s' = sm_max s" by (simp_all add: m)
qed

lemma split_items:
  assumes it: "items s 0 0 (xs @ (n, u) # ys)" and m: "\<forall>b \<in> set (xs @ (n, u) # ys). 16 \<le> fst b" and i: "i = extent xs"
    and e: "extent (xs @ (n, u) # ys) = E" "E + 16 \<le> 2 ^ 32" "sm_mem_size_aligned s + 16 = of_nat E" and z: "16 \<le> l" "l + 16 \<le> n"
  defines "s' \<equiv> smem_split (of_nat i) (of_nat (i + l)) s"
  shows "items s' 0 0 (xs @ (l, u) # (n - l, False) # ys)"
    and "touches ({i + 4} \<union> {i + l ..< i + l + 16} \<union> {i + n + 8}) s s'"
proof -
  have en: "i + n + extent ys = E" using e(1) i by simp
  have h: "items s 0 0 xs" "header s i u n (last_at 0 0 xs)" "items s i (i + n) ys" using it i by simp_all
  have nx: "item_next s (at s i) = of_nat (i + n)" using h(2) by (simp add: header_def)
  have b: "i + 16 \<le> i + l" "i + l + 16 \<le> i + n" "i + n + 16 \<le> 2 ^ 32" using z en e(2) by auto
  note S = smem_split_mem [OF nx b e(3,2), folded s'_def]
  show t: "touches ({i + 4} \<union> {i + l ..< i + l + 16} \<union> {i + n + 8}) s s'" by (rule touches_mono [OF S(1)]) auto
  have "items s' 0 0 xs" using h(1) m i b by (intro items_touches [OF S(1)]) auto
  moreover have "items s' (i + l) (i + n) ys"
  proof (rule items_relink [OF S(1) h(3)])
    assume "ys \<noteq> []"
    then have "extent ys \<noteq> 0" using m by (cases ys) auto
    then show "sm_mem s' (at s (i + n + 8)) = of_nat (i + l)" using en S(4) by simp
  qed (use m en e b in auto)
  moreover have "sm_mem s' (at s i) = sm_mem s (at s i)" "sm_mem s' (at s (i + 8)) = sm_mem s (at s (i + 8))"
    using z b by (intro touchesD(5) [OF S(1)]; auto)+
  then have "header s' i u l (last_at 0 0 xs)" using h(2) touchesD(6,7) [OF S(1)] S(3)
    by (simp add: header_def pool_ptr_def item_next_def item_prev_def)
  ultimately show "items s' 0 0 (xs @ (l, u) # (n - l, False) # ys)" using S(2) i z by (simp add: add.assoc)
qed

section \<open>Sizes\<close>

lemma RT_ALIGN_8:
  assumes "unat x + 7 < 2 ^ 32"
  shows "RT_ALIGN x 8 = of_nat ((unat x + 7) div 8 * 8)"
proof -
  have m: "(8 :: u32) - 1 = mask 3" "x + 8 - 1 = x + 7" by (simp_all add: mask_eq_exp_minus_1)
  have "unat (x + 7) = unat x + 7" using assms by (simp add: unat_word_ariths)
  then have "unat (RT_ALIGN x 8) = (unat x + 7) div 8 * 8" unfolding RT_ALIGN_def m unat_and_not_mask by simp
  then have "of_nat (unat (RT_ALIGN x 8)) = (of_nat ((unat x + 7) div 8 * 8) :: u32)" by (rule arg_cong)
  then show ?thesis by simp
qed

text \<open>The length of the data of a block for a request.\<close>

definition rounded :: "u32 \<Rightarrow> nat" where "rounded sz = max 16 ((unat sz + 7) div 8 * 8)"

lemma rounded_bounds: "16 \<le> rounded sz" "unat sz \<le> rounded sz" "8 dvd rounded sz"
  by (auto simp: rounded_def max_def)

lemma smem_size_rounded:
  assumes "unat sz + 7 < 2 ^ 32"
  shows "smem_size sz = of_nat (rounded sz)" "rounded sz < 2 ^ 32"
proof -
  let ?a = "(unat sz + 7) div 8 * 8"
  have a: "?a < 2 ^ 32" using assms by presburger
  then show "rounded sz < 2 ^ 32" by (simp add: rounded_def)
  have "(of_nat ?a :: u32) < 16 \<longleftrightarrow> ?a < 16" using of_nat_less [OF a, of 16] by simp
  then show "smem_size sz = of_nat (rounded sz)"
    unfolding smem_size_def smem_consts RT_ALIGN_8 [OF assms] Let_def rounded_def by (simp only: max_def) (simp add: not_less)
qed

section \<open>Allocation\<close>

text \<open>The offsets that belong to users; an operation must leave them, and what is outside the heap, alone.\<close>

fun user_data :: "nat \<Rightarrow> layout \<Rightarrow> nat set" where
  "user_data i [] = {}"
| "user_data i ((n, u) # bs) = (if u then {i + 16 ..< i + n} else {}) \<union> user_data (i + n) bs"

definition keeps_data :: "layout \<Rightarrow> rt_small_mem \<Rightarrow> rt_small_mem \<Rightarrow> bool" where
  "keeps_data bs s s' \<longleftrightarrow> sm_heap_ptr s' = sm_heap_ptr s \<and>
     (\<forall>j < 2 ^ 32. j \<in> user_data 0 bs \<or> extent bs + 16 \<le> j \<longrightarrow> sm_mem s' (at s j) = sm_mem s (at s j))"

lemma user_data_append [simp]: "user_data i (xs @ ys) = user_data i xs \<union> user_data (i + extent xs) ys"
  by (induction i xs rule: user_data.induct) (auto simp: add.assoc)

lemma user_data_bounds: "\<forall>b \<in> set bs. 16 \<le> fst b \<Longrightarrow> user_data i bs \<subseteq> {i + 16 ..< i + extent bs}"
proof (induction i bs rule: user_data.induct)
  case (2 i n u bs)
  then have "user_data (i + n) bs \<subseteq> {i + n + 16 ..< i + n + extent bs}" by simp
  also have "\<dots> \<subseteq> {i + 16 ..< i + extent ((n, u) # bs)}" by auto
  finally show ?case by simp
qed simp

lemma layout_okD:
  assumes "layout_ok bs"
  shows "\<forall>b \<in> set bs. 16 \<le> fst b" "8 dvd extent bs"
proof -
  show "\<forall>b \<in> set bs. 16 \<le> fst b" using assms by (auto simp: layout_ok_def)
  have "\<forall>b \<in> set bs. 8 dvd fst b" using assms by (auto simp: layout_ok_def)
  then show "8 dvd extent bs" by (induction bs) auto
qed

lemma layout_ok_append: "layout_ok (xs @ ys) \<longleftrightarrow> layout_ok xs \<and> layout_ok ys \<and> (xs = [] \<or> ys = [] \<or> snd (last xs) \<or> snd (hd ys))"
  by (auto simp: layout_ok_def successively_append_iff)

lemma layout_ok_Cons: "layout_ok (b # bs) \<longleftrightarrow> 16 \<le> fst b \<and> 8 dvd fst b \<and> (snd b \<longrightarrow> 16 < fst b) \<and> layout_ok bs \<and> (bs = [] \<or> snd b \<or> snd (hd bs))"
  by (auto simp: layout_ok_def successively_Cons)

lemma layout_ok_Nil [simp]: "layout_ok []" by (simp add: layout_ok_def)

lemma keeps_data_touches:
  assumes t: "touches J s s'" and m: "\<forall>b \<in> set (xs @ (n, u) # ys). 16 \<le> fst b"
    and J: "J \<subseteq> {extent xs ..< extent xs + n} \<union> {extent xs + n ..< extent xs + n + 16}"
  shows "keeps_data (xs @ (n, False) # ys) s s'"
proof -
  have "j \<notin> J" if "j \<in> user_data 0 (xs @ (n, False) # ys) \<or> extent (xs @ (n, False) # ys) + 16 \<le> j" for j
    using that user_data_bounds [of xs 0] user_data_bounds [of ys "extent xs + n"] m J by fastforce
  then show ?thesis using touchesD(1,5) [OF t] by (auto simp: keeps_data_def)
qed

lemma first_free_take: "first_free i bs = i + extent (takeWhile snd bs)"
  by (induction i bs rule: first_free.induct) auto

lemma smem_find_heap:
  assumes inv: "smem_inv bs s" and z: "z \<le> unat (sm_mem_size_aligned s)"
  shows "smem_find (of_nat z) s (sm_lfree s - sm_heap_ptr s) = Some (map_option of_nat (fit z 0 bs))"
proof -
  let ?us = "takeWhile snd bs" and ?r = "dropWhile snd bs"
  have bs: "bs = ?us @ ?r" by simp
  have h: "heap_frame bs s" "layout_ok bs" "items s 0 0 bs" "sm_lfree s = at s (first_free 0 bs)" using inv by (auto simp: smem_inv_def)
  have l: "sm_lfree s - sm_heap_ptr s = of_nat (extent ?us)" unfolding h(4) first_free_take by simp
  have "items s 0 0 (?us @ ?r)" using h(3) by simp
  then have it: "items s (last_at 0 0 ?us) (extent ?us) ?r" unfolding items_append by simp
  have "extent ?us + extent ?r = extent bs" by (metis bs extent_simps(3))
  moreover have "\<forall>b \<in> set ?r. 16 \<le> fst b" using layout_okD(1) [OF h(2)] set_dropWhileD by metis
  ultimately have "smem_find (of_nat z) s (of_nat (extent ?us)) = Some (map_option of_nat (fit z (extent ?us) ?r))"
    using h(1) z by (intro smem_find_fit [OF it]) (auto simp: heap_frame_def)
  moreover have "fit z 0 (?us @ ?r) = fit z (0 + extent ?us) ?r" by (rule fit_used) (auto dest: set_takeWhileD)
  ultimately show ?thesis by (simp add: l)
qed

theorem rt_smem_alloc_none:
  assumes inv: "smem_inv bs s" and sz: "unat sz + 7 < 2 ^ 32" and none: "fit (rounded sz) 0 bs = None"
  shows "rt_smem_alloc self sz s = Some (Inr (0, s))"
proof -
  have "(of_nat (rounded sz) :: u32) > sm_mem_size_aligned s \<longleftrightarrow> unat (sm_mem_size_aligned s) < rounded sz"
    using smem_size_rounded(2) [OF sz] by (simp add: word_less_nat_alt unat_of_nat_32)
  then show ?thesis
    using smem_find_heap [OF inv, of "rounded sz"] none unfolding rt_smem_alloc_def smem_size_rounded(1) [OF sz] Let_def by simp
qed

definition cut :: "nat \<Rightarrow> nat \<Rightarrow> layout" where
  "cut z n = (if z + 48 \<le> n then [(z + 16, True), (n - (z + 16), False)] else [(n, True)])"

lemma extent_cut [simp]: "z + 16 \<le> n \<Longrightarrow> extent (cut z n) = n"
  by (simp add: cut_def)

lemma count_used_simps [simp]:
  "sm_used (count_used n s) = sm_used s + n" "sm_lfree (count_used n s) = sm_lfree s" "sm_heap_ptr (count_used n s) = sm_heap_ptr s"
  "sm_mem (count_used n s) = sm_mem s" "touches J s (count_used n s)" "sm_heap_end (count_used n s) = sm_heap_end s"
  by (simp_all add: count_used_def Let_def touches_def)

lemma items_fields:
  assumes "sm_mem s' = sm_mem s" "sm_heap_ptr s' = sm_heap_ptr s" "sm_self s' = sm_self s"
  shows "items s' = items s"
proof (intro ext)
  fix p i bs
  have "header s' = header s"
    using assms same_base [OF assms(2)] tag_base [OF assms(3)] by (simp add: header_def fun_eq_iff pool_ptr_def item_next_def item_prev_def)
  then show "items s' p i bs = items s p i bs" by (induction s p i bs rule: items.induct) simp_all
qed

text \<open>The block as it is before it is marked.\<close>

lemma smem_cut_items:
  assumes it: "items s 0 0 (xs @ (n, False) # ys)" and ok: "layout_ok (xs @ (n, False) # ys)" and fr: "heap_frame (xs @ (n, False) # ys) s"
    and z: "16 \<le> z" "z + 16 \<le> n" "8 dvd z" and i: "i = extent xs"
  defines "s' \<equiv> smem_cut (of_nat z) (of_nat i) s"
  shows "items s' 0 0 (xs @ (fst (hd (cut z n)), False) # tl (cut z n) @ ys)" "touches ({i ..< i + n} \<union> {i + n + 8}) s s'"
    "sm_used s' = sm_used s + of_nat (fst (hd (cut z n)))" "sm_lfree s' = sm_lfree s" "pool_ptr s' (at s (i + n + extent ys)) = pool_ptr s (at s (i + n + extent ys))"
proof -
  define E where "E = extent (xs @ (n, False) # ys)"
  have e: "i + n + extent ys = E" "E + 16 \<le> 2 ^ 32" "sm_mem_size_aligned s + 16 = of_nat E" and e': "E + 16 < 2 ^ 32"
    using fr i by (auto simp: heap_frame_def E_def)
  have nx: "item_next s (at s i) = of_nat (i + n)" using it i by (simp add: header_def)
  have d: "(of_nat (i + n) :: u32) - (of_nat i + 16) = of_nat (n - 16)" using z by (simp add: of_nat_diff)
  have c: "(of_nat z + 16 + 16 :: u32) \<le> of_nat (i + n) - (of_nat i + 16) \<longleftrightarrow> z + 48 \<le> n"
  proof -
    have "(of_nat z + 16 + 16 :: u32) = of_nat (z + 32)" by simp
    then show ?thesis unfolding d using z e(1) e' of_nat_le [of "z + 32" "n - 16"] by (simp only:) auto
  qed
  have k: "(of_nat i + 16 + of_nat z :: u32) = of_nat (i + (z + 16))" by simp
  have "items s' 0 0 (xs @ (fst (hd (cut z n)), False) # tl (cut z n) @ ys) \<and> touches ({i ..< i + n} \<union> {i + n + 8}) s s' \<and>
    sm_used s' = sm_used s + of_nat (fst (hd (cut z n))) \<and> sm_lfree s' = sm_lfree s"
  proof (cases "z + 48 \<le> n")
    case True
    let ?s1 = "smem_split (of_nat i) (of_nat (i + (z + 16))) s"
    have s': "s' = count_used (of_nat z + 16) ?s1"
      unfolding s'_def smem_cut_def Let_def at_fold nx smem_consts c k using True by simp
    have "\<forall>b \<in> set (xs @ (n, False) # ys). 16 \<le> fst b" by (rule layout_okD(1) [OF ok])
    note S = split_items [OF it this i _ e(2,3), of "z + 16"]
    have S1: "items ?s1 0 0 (xs @ (z + 16, False) # (n - (z + 16), False) # ys)" "touches ({i + 4} \<union> {i + (z + 16) ..< i + (z + 16) + 16} \<union> {i + n + 8}) s ?s1"
      using S True e i by simp_all
    have "items s' = items ?s1" unfolding s' by (rule items_fields) (simp_all add: count_used_def Let_def)
    moreover have "touches ({i ..< i + n} \<union> {i + n + 8} \<union> {}) s s'" unfolding s'
      by (rule touches_trans [OF touches_mono [OF S1(2)] count_used_simps(5)]) (use True z in auto)
    moreover have "i + 16 \<le> i + (z + 16)" "i + (z + 16) + 16 \<le> i + n" "i + n + 16 \<le> 2 ^ 32" using True e by auto
    note M = smem_split_mem(6,7) [OF nx this e(3,2)]
    ultimately show ?thesis using S1(1) True by (simp add: s' cut_def M add.assoc)
  next
    case False
    have d2: "(of_nat (i + n) :: u32) - of_nat i = of_nat n" by simp
    have s': "s' = count_used (of_nat n) s"
      unfolding s'_def smem_cut_def Let_def at_fold nx smem_consts c at_plus d2 using False by simp
    have "items s' = items s" unfolding s' by (rule items_fields) (simp_all add: count_used_def Let_def)
    then show ?thesis using it False by (simp add: s' cut_def)
  qed
  then show "items s' 0 0 (xs @ (fst (hd (cut z n)), False) # tl (cut z n) @ ys)" and t: "touches ({i ..< i + n} \<union> {i + n + 8}) s s'"
    "sm_used s' = sm_used s + of_nat (fst (hd (cut z n)))" "sm_lfree s' = sm_lfree s" by auto
  show "pool_ptr s' (at s (i + n + extent ys)) = pool_ptr s (at s (i + n + extent ys))"
  proof -
    have "extent ys \<noteq> 8" using layout_okD(1) [OF ok] by (cases ys) auto
    then show ?thesis using touchesD(5) [OF t(1), of "i + n + extent ys"] e by (simp add: pool_ptr_def)
  qed
qed

lemma aligned_at:
  assumes "8 dvd unat (sm_heap_ptr s)" "8 dvd i" "unat (sm_heap_ptr s) + i < 2 ^ 32"
  shows "at s i AND (8 - 1) = 0" "at s i mod 8 = 0"
proof -
  have "8 dvd unat (at s i)" using assms by (simp add: unat_at)
  then have "unat (at s i mod 8) = 0" by (simp add: unat_mod mod_eq_0_iff_dvd)
  then show m: "at s i mod 8 = 0" by (simp add: unat_eq_0)
  have "(8 :: u32) - 1 = mask 3" by (simp add: mask_eq_exp_minus_1)
  then show "at s i AND (8 - 1) = 0" using m by (simp only: take_bit_eq_mask [symmetric]) (simp add: take_bit_eq_mod)
qed

lemma fit_here:
  assumes "\<forall>b \<in> set xs. snd b \<or> fst b < z + 16" "z + 16 \<le> n"
  shows "fit z i (xs @ (n, False) # ys) = Some (i + extent xs)"
  using assms by (induction z i xs rule: fit.induct) (auto simp: add.assoc)

lemma first_free_less:
  "\<exists>b \<in> set bs. \<not> snd b \<Longrightarrow> \<forall>b \<in> set bs. 16 \<le> fst b \<Longrightarrow> first_free i bs + 16 \<le> i + extent bs"
  by (induction i bs rule: first_free.induct) (auto simp: add.assoc)

lemma layout_ok_cut:
  assumes ok: "layout_ok (xs @ (n, False) # ys)" and z: "16 \<le> z" "z + 16 \<le> n" "8 dvd z"
  shows "layout_ok (xs @ cut z n @ ys)"
proof -
  have n: "8 dvd n" "layout_ok xs" "layout_ok ys" "ys = [] \<or> snd (hd ys)" using ok by (auto simp: layout_ok_append layout_ok_Cons)
  have "8 dvd n - (z + 16)" if "z + 48 \<le> n" using n(1) z(3) that by (intro dvd_diff_nat) auto
  then show ?thesis using n z by (auto simp: cut_def layout_ok_append layout_ok_Cons)
qed

lemma first_free_cut:
  assumes i: "extent xs = i" and z: "z + 16 \<le> n" and m: "\<forall>b \<in> set xs. 16 \<le> fst b"
  shows "first_free 0 (xs @ cut z n @ ys) =
    (if first_free 0 (xs @ (n, False) # ys) = i then first_free i (cut z n @ ys) else first_free 0 (xs @ (n, False) # ys))"
proof (cases "\<forall>b \<in> set xs. snd b")
  case True
  then show ?thesis using i by (simp add: first_free_append)
next
  case False
  then have "first_free 0 xs + 16 \<le> extent xs" using first_free_less [of xs 0] m by simp
  moreover have "first_free 0 (xs @ bs) = first_free 0 xs" for bs unfolding first_free_append using False by (simp only: if_False)
  ultimately show ?thesis using i by simp
qed

lemma heap_frame_touches: "heap_frame bs s \<Longrightarrow> touches J s s' \<Longrightarrow> extent bs' = extent bs \<Longrightarrow> heap_frame bs' s'"
  using touchesD(6) [of J s s'] by (simp add: heap_frame_def touches_def)

lemma smem_invI:
  assumes "heap_frame bs s" "layout_ok bs" "items s 0 0 bs" "pool_ptr s (at s (extent bs)) = MEM_USED s"
    "l = at s (first_free 0 bs)" "n = of_nat (used_bytes bs)"
  shows "smem_inv bs (s\<lparr>sm_lfree := l, sm_used := n\<rparr>)"
  using assms items_fields [of "s\<lparr>sm_lfree := l, sm_used := n\<rparr>" s]
  by (simp add: smem_inv_def heap_frame_def pool_ptr_def MEM_USED_def at_def)

lemma first_free_free:
  "items s p i bs \<Longrightarrow> first_free i bs = i + extent bs \<or> \<not> MEM_ISUSED s (at s (first_free i bs))"
  by (induction s p i bs rule: items.induct) (auto simp: header_def isused_tag add.assoc)

lemma at_le: "unat (sm_heap_ptr s) + i < 2 ^ 32 \<Longrightarrow> unat (sm_heap_ptr s) + j < 2 ^ 32 \<Longrightarrow> at s i \<le> at s j \<longleftrightarrow> i \<le> j"
  by (simp add: word_le_nat_alt unat_at)

lemma at_less: "unat (sm_heap_ptr s) + i < 2 ^ 32 \<Longrightarrow> unat (sm_heap_ptr s) + j < 2 ^ 32 \<Longrightarrow> at s i < at s j \<longleftrightarrow> i < j"
  by (simp add: word_less_nat_alt unat_at)

text \<open>
  An allocation that finds a block: the data is in the first block with room, which is cut to size if
  the rest can hold a block, and nothing changes in the data of the other blocks.
\<close>

theorem rt_smem_alloc_takes:
  assumes inv: "smem_inv (xs @ (n, False) # ys) s" and sz: "sz \<noteq> 0" "unat sz + 7 < 2 ^ 32"
    and first: "\<forall>b \<in> set xs. snd b \<or> fst b < rounded sz + 16" and room: "rounded sz + 16 \<le> n"
  shows "\<exists>s'. rt_smem_alloc self sz s = Some (Inr (at s (extent xs + 16), s')) \<and> smem_inv (xs @ cut (rounded sz) n @ ys) s' \<and>
    keeps_data (xs @ (n, False) # ys) s s' \<and> touches ({extent xs ..< extent xs + n} \<union> {extent xs + n + 8}) s s'"
proof -
  define z where "z = rounded sz"
  define i where "i = extent xs"
  define E where "E = extent (xs @ (n, False) # ys)"
  let ?bs = "xs @ cut z n @ ys" and ?l = "fst (hd (cut z n))"
  have fr: "heap_frame (xs @ (n, False) # ys) s" and ok: "layout_ok (xs @ (n, False) # ys)" and it: "items s 0 0 (xs @ (n, False) # ys)"
    and pe: "pool_ptr s (at s E) = MEM_USED s" and lf: "sm_lfree s = at s (first_free 0 (xs @ (n, False) # ys))"
    and us: "sm_used s = of_nat (used_bytes (xs @ (n, False) # ys))" using inv by (auto simp: smem_inv_def E_def)
  have z: "16 \<le> z" "z + 16 \<le> n" "8 dvd z" using rounded_bounds room by (simp_all add: z_def)
  have e: "i + n + extent ys = E" "sm_heap_end s = at s E" "unat (sm_heap_ptr s) + E + 16 \<le> 2 ^ 32" "0 < unat (sm_heap_ptr s)" "8 dvd unat (sm_heap_ptr s)"
    "E = unat (sm_mem_size_aligned s) + 16" using fr by (auto simp: heap_frame_def E_def i_def)
  have i8: "8 dvd i" using ok layout_okD(2) by (auto simp: i_def layout_ok_append)
  let ?s1 = "smem_cut (of_nat z) (of_nat i) s"
  note C = smem_cut_items [OF it ok fr z i_def]
  define s2 where "s2 = mark (at s i) (MEM_USED ?s1) (case self of Some name \<Rightarrow> name | None \<Rightarrow> NONE_name) ?s1"
  have at1: "at ?s1 = at s" "MEM_USED ?s1 = tag ?s1 True" using touchesD(6) [OF C(2)] by (simp_all add: tag_def)
  have hd: "cut z n = (?l, True) # tl (cut z n)" by (simp add: cut_def)
  have okb: "layout_ok ?bs" by (rule layout_ok_cut [OF ok z])
  have m: "\<forall>b \<in> set ?bs. 16 \<le> fst b" by (rule layout_okD(1) [OF okb])
  have eb: "extent ?bs = E" using e(1) z by (simp add: i_def)
  have s2m: "s2 = mark (at ?s1 i) (tag ?s1 True) (case self of Some name \<Rightarrow> name | None \<Rightarrow> NONE_name) ?s1" by (simp only: s2_def at1)
  have "items s2 0 0 (xs @ (?l, True) # tl (cut z n) @ ys)" unfolding s2m
  proof (rule mark_items [OF C(1) _ _ i_def])
    show "\<forall>b \<in> set (xs @ (?l, False) # tl (cut z n) @ ys). 16 \<le> fst b" using m hd by (metis (no_types, lifting) Un_iff fst_conv list.set_intros(1) list.simps(15) set_append insert_iff)
    show "extent (xs @ (?l, False) # tl (cut z n) @ ys) + 16 \<le> 2 ^ 32" using eb e(3,4) hd by (metis (no_types, lifting) add.assoc add_leD2 append_Cons extent_simps(2,3) fst_conv)
  qed
  then have it2: "items s2 0 0 ?bs" using hd by (metis append_Cons)
  have t2: "touches ({i ..< i + n} \<union> {i + n + 8}) s s2"
    unfolding s2m by (rule touches_mono [OF touches_trans [OF C(2) mark_touches]]) (use e z in auto)
  note T = touchesD [OF t2]
  have "extent ys \<noteq> 8" using layout_okD(1) [OF ok] by (cases ys) auto
  then have pe2: "pool_ptr s2 (at s E) = MEM_USED s2" using T(5) [of E] T(8) e pe by (simp add: pool_ptr_def)
  let ?ff = "first_free 0 (xs @ (n, False) # ys)"
  have ffb: "?ff \<le> E" using first_free_bound(2) [of 0 "xs @ (n, False) # ys"] by (simp add: E_def)
  have lf2: "sm_lfree s2 = at s ?ff" using C(4) lf by (simp add: s2_def)
  have isl: "at s i = sm_lfree s2 \<longleftrightarrow> ?ff = i" unfolding lf2 using ffb e by auto
  have mxs: "\<forall>b \<in> set xs. 16 \<le> fst b" and mys: "\<forall>b \<in> set (cut z n @ ys). 16 \<le> fst b" using m by auto
  have itc: "items s2 (last_at 0 0 xs) i (cut z n @ ys)" using it2 by (simp only: items_append i_def) simp
  have "lfree_up s2 (at s2 i) = Some (at s2 (first_free i (cut z n @ ys)))"
    by (rule lfree_up_first [OF itc mys]) (use e z T(3,6) in simp_all)
  then have up: "(if at s i = sm_lfree s2 then lfree_up s2 (at s i) else Some (sm_lfree s2)) = Some (at s (first_free 0 ?bs))"
    unfolding first_free_cut [OF i_def [symmetric] z(2) mxs] T(6) using isl lf2 by (cases "?ff = i") simp_all
  have free: "at s (first_free 0 ?bs) = sm_heap_end s2 \<or> \<not> MEM_ISUSED s2 (at s (first_free 0 ?bs))"
    using first_free_free [OF it2] eb e(2) T(3,6) by auto
  have fit: "smem_find (of_nat z) s (sm_lfree s - sm_heap_ptr s) = Some (Some (of_nat i))"
    using smem_find_heap [OF inv, of z] fit_here [OF first [folded z_def] z(2), of 0 ys] e z by (simp add: i_def)
  have szz: "\<not> of_nat z > sm_mem_size_aligned s" using e z unat_of_nat_32 [of z] by (simp add: word_less_nat_alt)
  have fits: "at s i + 16 + of_nat z \<le> sm_heap_end s2"
  proof -
    have "at s i + 16 + of_nat z = at s (i + 16 + z)" by (simp add: at_def)
    then show ?thesis unfolding T(3) e(2) using e z by (simp only:) (subst at_le; simp)
  qed
  have al: "(at s i + 16) mod 8 = 0" "at s i AND (8 - 1) = 0" using aligned_at [of s i] aligned_at(2) [of s "i + 16"] e i8 z by simp_all
  let ?s = "s2\<lparr>sm_lfree := at s (first_free 0 ?bs)\<rparr>"
  have take: "smem_take self (of_nat z) (of_nat i) s = Some (Inr (at s i + 16, ?s))"
    unfolding smem_take_def Let_def at_fold smem_consts mark_def [symmetric] s2_def [symmetric] up Option.bind.simps(2)
    using free fits al by (simp add: assertR_def)
  have "rt_smem_alloc self sz s = Some (Inr (at s (i + 16), ?s))"
    unfolding rt_smem_alloc_def smem_size_rounded(1) [OF sz(2), folded z_def] Let_def fit using sz(1) szz take by simp
  moreover have "sm_used s2 = of_nat (used_bytes ?bs)"
  proof -
    have "used_bytes ?bs = used_bytes (xs @ (n, False) # ys) + ?l" by (simp add: cut_def)
    then show ?thesis using C(3) us by (simp add: s2_def)
  qed
  then have "smem_inv ?bs (s2\<lparr>sm_lfree := at s (first_free 0 ?bs), sm_used := sm_used s2\<rparr>)"
    using heap_frame_touches [OF fr t2, of ?bs] eb by (intro smem_invI [OF _ okb it2 pe2 [folded T(6) eb]]) (simp_all add: E_def T(6))
  moreover have "touches ({i ..< i + n} \<union> {i + n + 8} \<union> {}) s ?s" by (rule touches_trans [OF t2]) simp
  moreover from this have "keeps_data (xs @ (n, False) # ys) s ?s"
    by (rule keeps_data_touches) (use layout_okD(1) [OF ok] in \<open>auto simp: i_def\<close>)
  ultimately show ?thesis unfolding z_def [symmetric] i_def [symmetric] by (intro exI [of _ ?s]) simp
qed

end
