(* ===== verification/Rt_Heap.thy ===== *)
theory Rt_Heap
  imports Rt_Smem
begin

text \<open>
  Freeing blocks of the small memory allocator: joining free neighbours, and reading the layout off the
  headers.
\<close>

section \<open>Joining free blocks\<close>

definition blocks_ok :: "layout \<Rightarrow> bool" where "blocks_ok bs \<longleftrightarrow> (\<forall>b \<in> set bs. 16 \<le> fst b \<and> 8 dvd fst b)"

text \<open>The representation without the condition on neighbours.\<close>

definition heap_rep :: "layout \<Rightarrow> rt_small_mem \<Rightarrow> bool" where
  "heap_rep bs s \<longleftrightarrow> heap_frame bs s \<and> blocks_ok bs \<and> items s 0 0 bs \<and> pool_ptr s (at s (extent bs)) = MEM_USED s \<and>
     sm_lfree s = at s (first_free 0 bs) \<and> sm_used s = of_nat (used_bytes bs)"

lemma heap_repI:
  assumes "heap_frame bs s" "blocks_ok bs" "items s 0 0 bs" "pool_ptr s (at s (extent bs)) = MEM_USED s"
    "l = at s (first_free 0 bs)" "n = of_nat (used_bytes bs)"
  shows "heap_rep bs (s\<lparr>sm_lfree := l, sm_used := n\<rparr>)"
  using assms items_fields [of "s\<lparr>sm_lfree := l, sm_used := n\<rparr>" s]
  by (simp add: heap_rep_def heap_frame_def pool_ptr_def MEM_USED_def at_def)

lemma smem_inv_rep: "smem_inv bs s \<longleftrightarrow> heap_rep bs s \<and> layout_ok bs"
  by (auto simp: smem_inv_def heap_rep_def layout_ok_def blocks_ok_def)

lemma blocks_okD: "blocks_ok bs \<Longrightarrow> \<forall>b \<in> set bs. 16 \<le> fst b"
  by (auto simp: blocks_ok_def)

lemma heap_repD:
  assumes "heap_rep bs s"
  shows "unat (sm_heap_ptr s) + extent bs + 16 \<le> 2 ^ 32" "0 < unat (sm_heap_ptr s)" "8 dvd unat (sm_heap_ptr s)" "sm_heap_end s = at s (extent bs)"
    "extent bs = unat (sm_mem_size_aligned s) + 16" "\<forall>b \<in> set bs. 16 \<le> fst b" "items s 0 0 bs" "pool_ptr s (at s (extent bs)) = tag s True"
    "sm_lfree s = at s (first_free 0 bs)" "sm_used s = of_nat (used_bytes bs)" "sm_self s AND MEM_MASK = sm_self s" "sm_self s \<noteq> 0"
  using assms by (auto simp: heap_rep_def heap_frame_def blocks_ok_def tag_def)

lemma first_free_join:
  "first_free 0 (xs @ (n + m, False) # ys) = first_free 0 (xs @ (n, False) # (m, False) # ys)" "first_free 0 (xs @ (n, False) # ys) \<le> extent xs"
  using first_free_bound(2) [of 0 xs] by (auto simp: first_free_append)

lemma item_join_rep:
  assumes rep: "heap_rep (xs @ (n, False) # (m, False) # ys) s" and i: "i = extent xs"
  shows "heap_rep (xs @ (n + m, False) # ys) (item_join (at s i) (at s (i + n)) s)"
    and "touches {i + 4, i + n, i + n + m + 8} s (item_join (at s i) (at s (i + n)) s)"
proof -
  let ?bs = "xs @ (n, False) # (m, False) # ys" and ?s = "item_join (at s i) (at s (i + n)) s"
  note R = heap_repD [OF rep]
  have b: "16 \<le> n" "16 \<le> m" "i + n + m + extent ys + 16 < 2 ^ 32" using R(1,2,6) i by auto
  have h: "items s 0 0 xs" "header s i False n (last_at 0 0 xs)" "header s (i + n) False m i" "items s (i + n) (i + n + m) ys"
    using R(7) i by (simp_all add: add.assoc)
  have nx: "sm_mem s (at s (i + n + 4)) = of_nat (i + n + m)" using h(3) by (simp add: header_def item_next_def)
  have nl: "sm_lfree s \<noteq> at s (i + n)"
    unfolding R(9) using first_free_join(2) [of xs n "(m, False) # ys"] b i by simp
  let ?M = "(sm_mem s)(at s (i + n) := 0, at s (i + 4) := of_nat (i + n + m), at s (i + n + m + 8) := of_nat i)"
  have S: "?s = s\<lparr>sm_mem := ?M\<rparr>"
  proof -
    have "at s (i + n + 4) \<noteq> at s (i + n)" "at s (i + n + 4) \<noteq> at s (i + 4)" using b by simp_all
    moreover have "sm_heap_ptr s + (of_nat i + of_nat n + of_nat m) + 8 = at s (i + n + m + 8)" by (simp add: at_def)
    ultimately show ?thesis using nl nx unfolding item_join_def Let_def item_set_pool_def item_set_next_def item_set_prev_def item_next_def
      by (simp add: at_fold) (simp add: sm_set_def)
  qed
  have at: "at ?s = at s" "tag ?s = tag s" "sm_mem ?s = ?M" using same_base [of ?s s] tag_base [of ?s s] by (simp_all add: S)
  show t: "touches {i + 4, i + n, i + n + m + 8} s ?s" using b unfolding touches_def at(3) by (simp add: S)
  have m16: "\<forall>c \<in> set xs. 16 \<le> fst c" "\<forall>c \<in> set ys. 16 \<le> fst c" using R(6) by auto
  have "items ?s 0 0 xs" using h(1) m16 b i by (intro items_touches [OF t]) auto
  moreover have "items ?s i (i + n + m) ys"
  proof (rule items_relink [OF t h(4) m16(2)])
    show "sm_mem ?s (at s (i + n + m + 8)) = of_nat i" unfolding at(3) by simp
  qed (use b in auto)
  moreover have "sm_mem ?s (at s i) = sm_mem s (at s i)" "sm_mem ?s (at s (i + 4)) = of_nat (i + n + m)" "sm_mem ?s (at s (i + 8)) = sm_mem s (at s (i + 8))"
    unfolding at(3) using b by simp_all
  then have "header ?s i False (n + m) (last_at 0 0 xs)" using h(2) by (simp add: header_def at(1,2) pool_ptr_def item_next_def item_prev_def add.assoc)
  ultimately have it: "items ?s 0 0 (xs @ (n + m, False) # ys)" using i by (simp add: add.assoc)
  have "extent ys \<noteq> 8" using m16(2) by (cases ys) auto
  then have pe: "pool_ptr ?s (at s (extent ?bs)) = MEM_USED ?s"
    using touchesD(5) [OF t, of "extent ?bs"] R(8) b i touchesD(8) [OF t] by (simp add: pool_ptr_def tag_def add.assoc)
  have ex: "extent (xs @ (n + m, False) # ys) = extent ?bs" by simp
  have "blocks_ok (xs @ (n + m, False) # ys)" using rep by (auto simp: heap_rep_def blocks_ok_def)
  moreover have "heap_frame (xs @ (n + m, False) # ys) ?s" using heap_frame_touches [OF _ t ex] rep by (simp add: heap_rep_def)
  moreover have "sm_lfree ?s = sm_lfree s" "sm_used ?s = sm_used s" by (simp_all add: S)
  ultimately show "heap_rep (xs @ (n + m, False) # ys) ?s"
    using it pe R(9,10) unfolding heap_rep_def at(1) ex by (simp add: first_free_join(1))
qed

lemma keeps_data_trans:
  assumes "keeps_data bs s s1" "keeps_data bs1 s1 s2" "user_data 0 bs \<subseteq> user_data 0 bs1" "extent bs1 = extent bs"
  shows "keeps_data bs s s2"
  using assms same_base [of s1 s] by (auto simp: keeps_data_def)

lemma keeps_data_refl [simp]: "keeps_data bs s s"
  by (simp add: keeps_data_def)

text \<open>A free block of length \<open>n\<close> before \<open>ys\<close> takes a free successor, and a free predecessor takes it.\<close>

fun absorb :: "nat \<Rightarrow> layout \<Rightarrow> layout" where
  "absorb n ((m, False) # ys) = (n + m, False) # ys"
| "absorb n ys = (n, False) # ys"

fun settle :: "layout \<Rightarrow> layout \<Rightarrow> layout" where
  "settle xs [] = xs"
| "settle xs ((n, u) # ys) = (if xs \<noteq> [] \<and> \<not> snd (last xs) then butlast xs @ (fst (last xs) + n, False) # ys else xs @ (n, u) # ys)"

lemma absorb_cases:
  obtains m ys' where "ys = (m, False) # ys'" "absorb n ys = (n + m, False) # ys'"
    | "absorb n ys = (n, False) # ys" "ys = [] \<or> snd (hd ys)"
  by (cases "(n, ys)" rule: absorb.cases) auto

lemma plug_forward_rep:
  assumes rep: "heap_rep (xs @ (n, False) # ys) s" and i: "i = extent xs"
  shows "heap_rep (xs @ absorb n ys) (plug_forward (at s i) s)" "keeps_data (xs @ (n, False) # ys) s (plug_forward (at s i) s)"
    "touches {i ..} s (plug_forward (at s i) s)"
proof -
  note R = heap_repD [OF rep]
  have b: "16 \<le> n" "i + n + extent ys + 16 < 2 ^ 32" using R(1,2,6) i by auto
  have h: "header s i False n (last_at 0 0 xs)" "items s i (i + n) ys" using R(7) i by simp_all
  have nx: "sm_heap_ptr s + item_next s (at s i) = at s (i + n)" using h(1) by (simp add: header_def at_def)
  have ne: "at s i \<noteq> at s (i + n)" using b by simp
  have "heap_rep (xs @ absorb n ys) (plug_forward (at s i) s) \<and> keeps_data (xs @ (n, False) # ys) s (plug_forward (at s i) s) \<and>
    touches {i ..} s (plug_forward (at s i) s)"
  proof (cases rule: absorb_cases [of ys n])
    case (1 m ys')
    have "\<not> MEM_ISUSED s (at s (i + n))" using h(2) isused_tag [of s "at s (i + n)" False] by (simp add: 1 header_def)
    moreover have "at s (i + n) \<noteq> sm_heap_end s" unfolding R(4) using R(6) b i by (simp add: 1)
    ultimately have p: "plug_forward (at s i) s = item_join (at s i) (at s (i + n)) s" using nx ne by (simp add: plug_forward_def)
    note J = item_join_rep [OF rep [unfolded 1(1)] i]
    have "keeps_data (xs @ (n + m, False) # ys') s (item_join (at s i) (at s (i + n)) s)"
      by (rule keeps_data_touches [OF J(2)]) (use R(6) b i in \<open>auto simp: 1\<close>)
    then have "keeps_data (xs @ (n, False) # ys) s (item_join (at s i) (at s (i + n)) s)"
      by (rule keeps_data_trans [OF keeps_data_refl]) (auto simp: 1 add.assoc)
    then show ?thesis using J(1) touches_mono [OF J(2), of "{i ..}"] by (simp add: 1 p)
  next
    case 2
    have "MEM_ISUSED s (at s (i + n))"
    proof (cases ys)
      case Nil
      then show ?thesis using R(8) isused_tag [of s "at s (i + n)" True] i by simp
    next
      case (Cons y zs)
      then show ?thesis using h(2) 2(2) isused_tag [of s "at s (i + n)" True] by (cases y) (simp add: header_def)
    qed
    then have "plug_forward (at s i) s = s" using nx by (simp add: plug_forward_def)
    then show ?thesis using rep by (simp add: 2(1))
  qed
  then show "heap_rep (xs @ absorb n ys) (plug_forward (at s i) s)" "keeps_data (xs @ (n, False) # ys) s (plug_forward (at s i) s)"
    "touches {i ..} s (plug_forward (at s i) s)" by simp_all
qed

lemma plug_backward_rep:
  assumes rep: "heap_rep (xs @ (n, False) # ys) s" and i: "i = extent xs"
  shows "heap_rep (settle xs ((n, False) # ys)) (plug_backward (at s i) s)" "keeps_data (xs @ (n, False) # ys) s (plug_backward (at s i) s)"
proof -
  note R = heap_repD [OF rep]
  have b: "16 \<le> n" "i + n + extent ys + 16 < 2 ^ 32" using R(1,2,6) i by auto
  have pv: "sm_heap_ptr s + item_prev s (at s i) = at s (last_at 0 0 xs)" using R(7) i by (simp add: header_def at_def)
  have "heap_rep (settle xs ((n, False) # ys)) (plug_backward (at s i) s) \<and> keeps_data (xs @ (n, False) # ys) s (plug_backward (at s i) s)"
  proof (cases xs rule: rev_cases)
    case Nil
    then have "plug_backward (at s i) s = s" using pv i by (simp add: plug_backward_def)
    then show ?thesis using rep Nil by simp
  next
    case (snoc xs' c)
    obtain m u where c: "c = (m, u)" by (cases c)
    let ?p = "extent xs'"
    have pb: "16 \<le> m" "i = ?p + m" "last_at 0 0 xs = ?p" using R(6) i by (simp_all add: snoc c)
    have us: "MEM_ISUSED s (at s ?p) \<longleftrightarrow> u" using R(7) isused_tag [of s "at s ?p" u] by (simp add: snoc c header_def)
    have ne: "at s ?p \<noteq> at s i" using pb b by simp
    show ?thesis
    proof (cases u)
      case True
      then have "plug_backward (at s i) s = s" using pv us pb by (simp add: plug_backward_def)
      then show ?thesis using rep True by (simp add: snoc c)
    next
      case False
      have rep': "heap_rep (xs' @ (m, False) # (n, False) # ys) s" using rep False by (simp add: snoc c)
      have p: "plug_backward (at s i) s = item_join (at s ?p) (at s (?p + m)) s" using pv us pb ne False by (simp add: plug_backward_def)
      note J = item_join_rep [OF rep' refl]
      have "keeps_data (xs' @ (m + n, False) # ys) s (item_join (at s ?p) (at s (?p + m)) s)"
        by (rule keeps_data_touches [OF J(2)]) (use R(6) b pb in \<open>auto simp: snoc c\<close>)
      then have "keeps_data (xs @ (n, False) # ys) s (item_join (at s ?p) (at s (?p + m)) s)"
        by (rule keeps_data_trans [OF keeps_data_refl]) (use False in \<open>auto simp: snoc c add.assoc\<close>)
      then show ?thesis using J(1) False by (simp add: p snoc c)
    qed
  qed
  then show "heap_rep (settle xs ((n, False) # ys)) (plug_backward (at s i) s)" "keeps_data (xs @ (n, False) # ys) s (plug_backward (at s i) s)" by simp_all
qed

lemma layout_ok_settle:
  assumes x: "layout_ok xs" and y: "layout_ok ys" and n: "16 \<le> n" "8 dvd n"
  shows "layout_ok (settle xs (absorb n ys))"
proof -
  obtain n' ys' where a: "absorb n ys = (n', False) # ys'" "16 \<le> n'" "8 dvd n'" "layout_ok ys'" "ys' = [] \<or> snd (hd ys')"
    by (cases rule: absorb_cases [of ys n]) (use y n in \<open>auto simp: layout_ok_Cons\<close>)
  show ?thesis
  proof (cases xs rule: rev_cases)
    case Nil
    then show ?thesis using a by (simp add: layout_ok_Cons)
  next
    case (snoc xs' c)
    then show ?thesis using a x by (cases c) (auto simp: layout_ok_Cons layout_ok_append)
  qed
qed

theorem plug_holes_rep:
  assumes rep: "heap_rep (xs @ (n, False) # ys) s" and i: "i = extent xs" and ok: "layout_ok xs" "layout_ok ys"
  shows "\<exists>s'. plug_holes (at s i) s = Inr s' \<and> smem_inv (settle xs (absorb n ys)) s' \<and> keeps_data (xs @ (n, False) # ys) s s'"
proof -
  note R = heap_repD [OF rep]
  note F = plug_forward_rep [OF rep i]
  let ?s = "plug_forward (at s i) s"
  have at: "at ?s = at s" by (rule touchesD(6) [OF F(3)])
  obtain n' ys' where a: "absorb n ys = (n', False) # ys'" by (cases rule: absorb_cases [of ys n]) auto
  note B = plug_backward_rep [OF F(1) [unfolded a] i, unfolded at]
  have ud: "user_data 0 (xs @ absorb n ys) = user_data 0 (xs @ (n, False) # ys)" "extent (xs @ absorb n ys) = extent (xs @ (n, False) # ys)"
    by (cases rule: absorb_cases [of ys n]; auto simp: add.assoc)+
  have "sm_heap_ptr s = at s 0" by (simp add: at_def)
  then have "sm_heap_ptr s \<le> at s i" using R(1,2) i by (simp only:) (subst at_le; simp)
  moreover have "at s i < sm_heap_end s" unfolding R(4) using R(1,2,6) i by (subst at_less) auto
  ultimately have "plug_holes (at s i) s = Inr (plug_backward (at s i) ?s)" by (simp add: plug_holes_def assertR_def)
  moreover have "layout_ok (settle xs (absorb n ys))" using rep by (intro layout_ok_settle ok) (auto simp: heap_rep_def blocks_ok_def)
  then have "smem_inv (settle xs (absorb n ys)) (plug_backward (at s i) ?s)" using B(1) by (simp add: smem_inv_rep a)
  moreover have "keeps_data (xs @ (n, False) # ys) s (plug_backward (at s i) ?s)"
    using B(2) ud unfolding a by (intro keeps_data_trans [OF F(2)]) auto
  ultimately show ?thesis by blast
qed

lemma next_pool:
  assumes rep: "heap_rep (xs @ (n, u) # ys) s" and i: "i = extent xs"
  shows "MEM_POOL s (sm_heap_ptr s + item_next s (at s i)) = sm_self s"
proof -
  note R = heap_repD [OF rep]
  have h: "header s i u n (last_at 0 0 xs)" "items s i (i + n) ys" using R(7) i by simp_all
  have "\<exists>v. pool_ptr s (at s (i + n)) = tag s v" using R(8) h(2) i by (cases ys) (auto simp: header_def)
  moreover have "sm_heap_ptr s + item_next s (at s i) = at s (i + n)" using h(1) by (simp add: header_def at_def)
  ultimately show ?thesis using pool_tag [OF _ R(11)] by auto
qed

section \<open>Freeing\<close>

text \<open>Marking a used block free, with the pointer to the lowest free block and the count of used bytes.\<close>

lemma unused_rep:
  assumes rep: "heap_rep (xs @ (n, True) # ys) s" and i: "i = extent xs"
  defines "s1 \<equiv> mark (at s i) (MEM_FREED s) blanks s"
  shows "heap_rep (xs @ (n, False) # ys) (s1\<lparr>sm_lfree := (if at s i < sm_lfree s then at s i else sm_lfree s), sm_used := sm_used s - of_nat n\<rparr>)"
    "touches {i, i + 12} s s1"
proof -
  let ?bs = "xs @ (n, True) # ys" and ?cs = "xs @ (n, False) # ys"
  note R = heap_repD [OF rep]
  have b: "16 \<le> n" "i + n + extent ys + 16 < 2 ^ 32" using R(1,2,6) i by auto
  show t: "touches {i, i + 12} s s1" unfolding s1_def by (rule mark_touches) (use b in simp)
  have "MEM_FREED s = tag s False" by (simp add: tag_def)
  then have it: "items s1 0 0 ?cs" unfolding s1_def using R(1,2) by (simp only:) (rule mark_items [OF R(7,6) _ i], linarith)
  have pe: "pool_ptr s1 (at s1 (extent ?cs)) = MEM_USED s1"
  proof -
    have "extent ?bs \<noteq> i" "extent ?bs \<noteq> i + 12" "extent ?bs < 2 ^ 32" using b i by auto
    then have "sm_mem s1 (at s (extent ?bs)) = sm_mem s (at s (extent ?bs))" by (intro touchesD(5) [OF t]) auto
    then show ?thesis using R(8) touchesD(6,8) [OF t] by (simp add: pool_ptr_def tag_def)
  qed
  have ff: "first_free 0 ?bs \<le> extent ?bs" using first_free_bound(2) [of 0 ?bs] by simp
  have less: "at s i < sm_lfree s \<longleftrightarrow> i < first_free 0 ?bs" unfolding R(9) using R(1,2) ff i by (subst at_less) auto
  have lf: "(if at s i < sm_lfree s then at s i else sm_lfree s) = at s1 (first_free 0 ?cs)"
  proof (cases "\<forall>c \<in> set xs. snd c")
    case True
    then have "first_free 0 ?bs = first_free (i + n) ys" "first_free 0 ?cs = i" by (simp_all add: first_free_append i)
    then show ?thesis using less first_free_bound(1) [of "i + n" ys] b touchesD(6) [OF t] by simp
  next
    case False
    have "first_free 0 (xs @ zs) = first_free 0 xs" for zs unfolding first_free_append using False by (simp only: if_False)
    moreover have "first_free 0 xs + 16 \<le> extent xs" using False R(6) first_free_less [of xs 0] by auto
    ultimately show ?thesis using less i touchesD(6) [OF t] R(9) by simp
  qed
  have us: "sm_used s - of_nat n = of_nat (used_bytes ?cs)" unfolding R(10) by simp
  have "heap_frame ?cs s1" by (rule heap_frame_touches [OF _ t, where bs = ?bs]) (use rep in \<open>simp_all add: heap_rep_def\<close>)
  moreover have "blocks_ok ?cs" using rep by (auto simp: heap_rep_def blocks_ok_def)
  ultimately show "heap_rep ?cs (s1\<lparr>sm_lfree := (if at s i < sm_lfree s then at s i else sm_lfree s), sm_used := sm_used s - of_nat n\<rparr>)"
    by (rule heap_repI [OF _ _ it pe lf us])
qed

theorem rt_smem_free_frees:
  assumes inv: "smem_inv (xs @ (n, True) # ys) s"
  shows "\<exists>s'. rt_smem_free (at s (extent xs + 16)) s = Inr s' \<and> smem_inv (settle xs (absorb n ys)) s' \<and>
    keeps_data (xs @ (n, False) # ys) s s'"
proof -
  define i where "i = extent xs"
  have rep: "heap_rep (xs @ (n, True) # ys) s" and ok: "layout_ok (xs @ (n, True) # ys)" using inv by (simp_all add: smem_inv_rep)
  note R = heap_repD [OF rep]
  have oks: "layout_ok xs" "layout_ok ys" "16 < n" "8 dvd i"
    using ok layout_okD(2) by (auto simp: layout_ok_append layout_ok_Cons i_def)
  have b: "i + n + extent ys + 16 < 2 ^ 32" "unat (sm_heap_ptr s) + i + n + extent ys + 16 \<le> 2 ^ 32" using R(1,2) by (auto simp: i_def)
  let ?r = "at s (i + 16)"
  have u: "unat ?r = unat (sm_heap_ptr s) + i + 16" using b oks(3) by (subst unat_at) auto
  then have nz: "?r \<noteq> 0" using R(2) by auto
  have mem: "?r - 16 = at s i" by (simp add: at_def)
  have al: "?r AND (8 - 1) = 0" using aligned_at(1) [of s "i + 16"] b oks R(3) by simp
  have h: "header s i True n (last_at 0 0 xs)" using R(7) by (simp add: i_def)
  have pool: "MEM_POOL s (at s i) = sm_self s" "MEM_ISUSED s (at s i)"
    using h pool_tag [OF _ R(11)] isused_tag [of s "at s i" True] by (auto simp: header_def)
  have rng: "sm_heap_ptr s \<le> ?r" "?r < sm_heap_end s"
  proof -
    show "sm_heap_ptr s \<le> ?r" using u by (simp add: word_le_nat_alt)
    show "?r < sm_heap_end s" unfolding R(4) using b oks(3) by (subst at_less) (auto simp: i_def)
  qed
  let ?s1 = "mark (at s i) (MEM_FREED s) blanks s"
  let ?s2 = "?s1\<lparr>sm_lfree := (if at s i < sm_lfree s then at s i else sm_lfree s), sm_used := sm_used s - of_nat n\<rparr>"
  note U = unused_rep [OF rep i_def]
  have at2: "at ?s2 = at s" using touchesD(6) [OF U(2)] same_base [of ?s2 ?s1] by simp
  have "item_next ?s1 (at s i) = of_nat (i + n)"
    using h touchesD(5) [OF U(2), of "i + 4"] b by (simp add: header_def item_next_def)
  moreover have "sm_heap_ptr ?s1 = sm_heap_ptr s" by (rule touchesD(1) [OF U(2)])
  moreover have "of_nat (i + n) - (at s i - sm_heap_ptr s) = (of_nat n :: u32)" by simp
  ultimately have len: "item_next ?s1 (at s i) - (at s i - sm_heap_ptr ?s1) = of_nat n" by (simp only:)
  have same: "?s1\<lparr>sm_lfree := sm_lfree s, sm_used := v\<rparr> = ?s1\<lparr>sm_used := v\<rparr>" for v
    by (simp add: mark_def rt_smem_setname_def item_set_pool_def sm_set_def)
  have "rt_smem_free ?r s = plug_holes (at s i) ?s2"
    unfolding rt_smem_free_def Let_def smem_consts mem pool next_pool [OF rep i_def] mark_def [symmetric]
    using nz al R(12) pool rng len by (simp add: assertR_def) (auto simp: item_next_def same)
  moreover obtain s' where s': "plug_holes (at ?s2 i) ?s2 = Inr s'" "smem_inv (settle xs (absorb n ys)) s'" "keeps_data (xs @ (n, False) # ys) ?s2 s'"
    using plug_holes_rep [OF U(1) i_def oks(1,2)] by blast
  moreover have "keeps_data (xs @ (n, False) # ys) s ?s1"
    by (rule keeps_data_touches [OF U(2)]) (use R(6) oks(3) in \<open>auto simp: i_def\<close>)
  then have "keeps_data (xs @ (n, False) # ys) s ?s2" by (simp add: keeps_data_def)
  then have "keeps_data (xs @ (n, False) # ys) s s'" by (rule keeps_data_trans [OF _ s'(3)]) auto
  ultimately show ?thesis unfolding i_def [symmetric] at2 by auto
qed

section \<open>Reading the layout off the heap\<close>

text \<open>The walk of \<^verbatim>\<open>memcheck\<close> and \<^verbatim>\<open>memtrace\<close>; a heap has fewer blocks than bytes, so \<open>f\<close> steps suffice.\<close>

fun walk :: "nat \<Rightarrow> rt_small_mem \<Rightarrow> nat \<Rightarrow> layout" where
  "walk 0 s i = []"
| "walk (Suc f) s i =
     (if at s i = sm_heap_end s then []
      else let n = unat (item_next s (at s i)) - i in (n, MEM_ISUSED s (at s i)) # walk f s (i + n))"

definition heap_layout :: "rt_small_mem \<Rightarrow> layout" where
  "heap_layout s = walk (unat (sm_mem_size_aligned s) + 16) s 0"

definition heap_ok :: "rt_small_mem \<Rightarrow> bool" where "heap_ok s \<longleftrightarrow> smem_inv (heap_layout s) s"

text \<open>The blocks in use, as the offset and the length of their data.\<close>

fun data_blocks :: "nat \<Rightarrow> layout \<Rightarrow> (nat \<times> nat) list" where
  "data_blocks i [] = []"
| "data_blocks i ((n, u) # bs) = (if u then [(i + 16, n - 16)] else []) @ data_blocks (i + n) bs"

definition live :: "rt_small_mem \<Rightarrow> (nat \<times> nat) set" where "live s = set (data_blocks 0 (heap_layout s))"

lemma walk_items:
  assumes "items s p i bs" "\<forall>b \<in> set bs. 16 \<le> fst b" "sm_heap_end s = at s (i + extent bs)" "i + extent bs < 2 ^ 32" "length bs \<le> f"
  shows "walk f s i = bs"
  using assms
proof (induction s p i bs arbitrary: f rule: items.induct)
  case (1 s p i)
  then show ?case by (cases f) simp_all
next
  case (2 s p i n u bs)
  obtain g where f: "f = Suc g" using 2(6) by (cases f) auto
  have ne: "at s i \<noteq> sm_heap_end s" unfolding 2(4) using 2(3,5) by simp
  have h: "item_next s (at s i) = of_nat (i + n)" "MEM_ISUSED s (at s i) \<longleftrightarrow> u" using 2(2) isused_tag by (auto simp: header_def)
  have n: "unat (of_nat (i + n) :: u32) - i = n" using 2(5) by (subst unat_of_nat_32) auto
  have "walk g s (i + n) = bs" using 2 by (intro 2(1)) (auto simp: f add.assoc)
  then show ?case unfolding f walk.simps Let_def h n using ne by simp
qed

lemma length_extent: "\<forall>b \<in> set bs. 16 \<le> fst b \<Longrightarrow> length bs * 16 \<le> extent bs"
  by (induction bs) auto

lemma heap_layout_eq: "smem_inv bs s \<Longrightarrow> heap_layout s = bs"
proof -
  assume i: "smem_inv bs s"
  then have r: "heap_rep bs s" by (simp add: smem_inv_rep)
  note R = heap_repD [OF r]
  have "length bs \<le> unat (sm_mem_size_aligned s) + 16" using length_extent [OF R(6)] R(5) by linarith
  then show ?thesis unfolding heap_layout_def using R(1,2,4) by (intro walk_items [OF R(7,6)]) auto
qed

lemma heap_okI: "smem_inv bs s \<Longrightarrow> heap_ok s \<and> heap_layout s = bs"
  using heap_layout_eq by (simp add: heap_ok_def)

lemma data_blocks_append [simp]: "data_blocks i (xs @ ys) = data_blocks i xs @ data_blocks (i + extent xs) ys"
  by (induction i xs rule: data_blocks.induct) (simp_all add: add.assoc)

lemma data_blocks_split:
  assumes "(a, l) \<in> set (data_blocks i bs)" "\<forall>b \<in> set bs. 16 \<le> fst b"
  obtains xs ys where "bs = xs @ (l + 16, True) # ys" "a = i + extent xs + 16"
  using assms
proof (induction i bs arbitrary: thesis rule: data_blocks.induct)
  case (2 i n u bs)
  show ?case
  proof (cases "u \<and> (a, l) = (i + 16, n - 16)")
    case True
    then show ?thesis using 2(4) by (intro 2(2) [of "[]" bs]) auto
  next
    case False
    then have "(a, l) \<in> set (data_blocks (i + n) bs)" using 2(3) by (auto split: if_splits)
    then obtain xs ys where "bs = xs @ (l + 16, True) # ys" "a = i + n + extent xs + 16" using 2(1) 2(4) by (metis list.set_intros(2))
    then show ?thesis by (intro 2(2) [of "(n, u) # xs" ys]) auto
  qed
qed simp

lemma data_blocks_bounds:
  "\<forall>b \<in> set bs. 16 \<le> fst b \<Longrightarrow> (a, l) \<in> set (data_blocks i bs) \<Longrightarrow> i + 16 \<le> a \<and> a + l \<le> i + extent bs"
  by (erule data_blocks_split) auto

text \<open>The data of the blocks is where \<open>user_data\<close> says, and the blocks do not overlap.\<close>

lemma user_data_blocks: "\<forall>b \<in> set bs. 16 \<le> fst b \<Longrightarrow> user_data i bs = (\<Union>(a, l) \<in> set (data_blocks i bs). {a ..< a + l})"
  by (induction i bs rule: user_data.induct) auto

end
