(* ===== verification/Rt_Heap_Ops.thy ===== *)
theory Rt_Heap_Ops
  imports Rt_Heap
begin

text \<open>
  The heap as a set of blocks in use: allocation, freeing and initialisation in these terms, and the
  contract of a heap as a locale, whose clients are proved once. The small memory allocator is an
  interpretation.
\<close>

section \<open>The heap as a set of blocks\<close>

lemma heap_okD:
  assumes "heap_ok s"
  shows "smem_inv (heap_layout s) s" "heap_rep (heap_layout s) s" "\<forall>b \<in> set (heap_layout s). 16 \<le> fst b" "layout_ok (heap_layout s)"
  using assms layout_okD(1) by (auto simp: heap_ok_def smem_inv_rep)

text \<open>Where the data of the blocks in use is unchanged.\<close>

definition same_data :: "(nat \<times> nat) set \<Rightarrow> rt_small_mem \<Rightarrow> rt_small_mem \<Rightarrow> bool" where
  "same_data B s s' \<longleftrightarrow> sm_heap_ptr s' = sm_heap_ptr s \<and> (\<forall>(a, l) \<in> B. \<forall>j \<in> {a ..< a + l}. sm_mem s' (at s j) = sm_mem s (at s j))"

lemma keeps_data_same:
  assumes "keeps_data bs s s'" "\<forall>b \<in> set bs. 16 \<le> fst b" "extent bs \<le> 2 ^ 32"
  shows "same_data (set (data_blocks 0 bs)) s s'"
proof -
  have "sm_mem s' (at s j) = sm_mem s (at s j)" if "(a, l) \<in> set (data_blocks 0 bs)" "j \<in> {a ..< a + l}" for a l j
  proof -
    have "j \<in> user_data 0 bs" unfolding user_data_blocks [OF assms(2)] using that by blast
    moreover have "j < 2 ^ 32" using data_blocks_bounds [OF assms(2) that(1)] that(2) assms(3) by auto
    ultimately show ?thesis using assms(1) by (simp add: keeps_data_def)
  qed
  then show ?thesis using assms(1) by (auto simp: same_data_def keeps_data_def)
qed

text \<open>A block that two lists of blocks have between them is not among the others.\<close>

definition disjoint_from :: "nat \<times> nat \<Rightarrow> (nat \<times> nat) set \<Rightarrow> bool" where
  "disjoint_from b B \<longleftrightarrow> (\<forall>(a, l) \<in> B. {fst b ..< fst b + snd b} \<inter> {a ..< a + l} = {})"

lemma between_disjoint:
  assumes "\<forall>b \<in> set xs. 16 \<le> fst b" "\<forall>b \<in> set ys. 16 \<le> fst b" "a = extent xs + 16" "a + l \<le> extent xs + n"
  shows "disjoint_from (a, l) (set (data_blocks 0 xs) \<union> set (data_blocks (extent xs + n) ys))"
    "0 < l \<Longrightarrow> (a, l) \<notin> set (data_blocks 0 xs) \<union> set (data_blocks (extent xs + n) ys)"
  using data_blocks_bounds [OF assms(1), where i = 0] data_blocks_bounds [OF assms(2), where i = "extent xs + n"] assms(3,4)
  by (fastforce simp: disjoint_from_def)+

lemma fit_split:
  assumes "fit z i bs = Some k"
  obtains xs n ys where "bs = xs @ (n, False) # ys" "k = i + extent xs" "\<forall>b \<in> set xs. snd b \<or> fst b < z + 16" "z + 16 \<le> n"
  using assms
proof (induction z i bs arbitrary: thesis rule: fit.induct)
  case (2 z i n u bs)
  show ?case
  proof (cases "\<not> u \<and> z + 16 \<le> n")
    case True
    then show ?thesis using 2(3) by (intro 2(2) [of "[]" n bs]) auto
  next
    case False
    then have "fit z (i + n) bs = Some k" using 2(3) by (simp split: if_splits)
    then obtain xs m ys where "bs = xs @ (m, False) # ys" "k = i + n + extent xs" "\<forall>b \<in> set xs. snd b \<or> fst b < z + 16" "z + 16 \<le> m"
      using 2(1) False by blast
    then show ?thesis using False by (intro 2(2) [of "(n, u) # xs" m ys]) auto
  qed
qed simp

lemma fit_none: "fit z i bs = None \<longleftrightarrow> (\<forall>b \<in> set bs. snd b \<or> fst b < z + 16)"
  by (induction z i bs rule: fit.induct) auto

text \<open>
  Allocation on the heap as a set of blocks: there is room exactly if some free block is long enough;
  then the new block lies in the heap, aligned, apart from all others, whose data is unchanged.
\<close>

theorem heap_alloc:
  assumes ok: "heap_ok s" and sz: "sz \<noteq> 0" "unat sz + 7 < 2 ^ 32"
  shows "(\<forall>b \<in> set (heap_layout s). snd b \<or> fst b < rounded sz + 16) \<Longrightarrow> rt_smem_alloc self sz s = Some (Inr (0, s))"
    and "\<exists>b \<in> set (heap_layout s). \<not> snd b \<and> rounded sz + 16 \<le> fst b \<Longrightarrow>
      \<exists>a l s'. rt_smem_alloc self sz s = Some (Inr (at s a, s')) \<and> at s a \<noteq> 0 \<and> heap_ok s' \<and> live s' = insert (a, l) (live s) \<and>
        (a, l) \<notin> live s \<and> disjoint_from (a, l) (live s) \<and> 8 dvd a \<and> unat sz \<le> l \<and> a + l \<le> unat (sm_mem_size_aligned s) + 16 \<and>
        same_data (live s) s s'"
proof -
  show "rt_smem_alloc self sz s = Some (Inr (0, s))" if "\<forall>b \<in> set (heap_layout s). snd b \<or> fst b < rounded sz + 16"
    using that rt_smem_alloc_none [OF heap_okD(1) [OF ok] sz(2)] fit_none by blast
  assume "\<exists>b \<in> set (heap_layout s). \<not> snd b \<and> rounded sz + 16 \<le> fst b"
  then have "fit (rounded sz) 0 (heap_layout s) \<noteq> None" unfolding fit_none by force
  then obtain k where k: "fit (rounded sz) 0 (heap_layout s) = Some k" by auto
  obtain xs n ys where bs: "heap_layout s = xs @ (n, False) # ys" "\<forall>b \<in> set xs. snd b \<or> fst b < rounded sz + 16" "rounded sz + 16 \<le> n"
    by (rule fit_split [OF k])
  let ?z = "rounded sz" and ?a = "extent xs + 16"
  have inv: "smem_inv (xs @ (n, False) # ys) s" and m: "\<forall>b \<in> set (xs @ (n, False) # ys). 16 \<le> fst b" using heap_okD(1,3) [OF ok] bs(1) by simp_all
  note R = heap_repD [OF heap_okD(2) [OF ok], unfolded bs(1)]
  obtain s' where s': "rt_smem_alloc self sz s = Some (Inr (at s ?a, s'))" "smem_inv (xs @ cut ?z n @ ys) s'" "keeps_data (xs @ (n, False) # ys) s s'"
    using rt_smem_alloc_takes [OF inv sz bs(2,3), of self] by (elim exE conjE)
  define l where "l = (if ?z + 48 \<le> n then ?z else n - 16)"
  have l: "?z \<le> l" "l + 16 \<le> n" "0 < l" using bs(3) rounded_bounds(1) [of sz] by (auto simp: l_def)
  have c: "data_blocks (extent xs) (cut ?z n) = [(?a, l)]" using bs(3) by (simp add: cut_def l_def)
  have live: "live s = set (data_blocks 0 xs) \<union> set (data_blocks (extent xs + n) ys)" by (simp add: live_def bs(1))
  have "live s' = insert (?a, l) (live s)"
    unfolding live unfolding live_def heap_layout_eq [OF s'(2)] using bs(3) c by simp
  moreover have "disjoint_from (?a, l) (live s)" "(?a, l) \<notin> live s"
    unfolding live using m l by (intro between_disjoint; simp)+
  moreover have "8 dvd ?a" using heap_okD(4) [OF ok] layout_okD(2) by (auto simp: bs(1) layout_ok_append)
  moreover have "unat sz \<le> l" using rounded_bounds(2) [of sz] l by linarith
  moreover have "?a + l \<le> unat (sm_mem_size_aligned s) + 16" using R(5) l by simp
  moreover have "same_data (live s) s s'" using keeps_data_same [OF s'(3) m] R(1) by (simp add: live_def bs(1))
  moreover have "unat (at s ?a) = unat (sm_heap_ptr s) + ?a" using R(1) bs(3) by (subst unat_at) auto
  then have "at s ?a \<noteq> 0" using R(2) by auto
  moreover have "heap_ok s'" using heap_okI [OF s'(2)] by blast
  ultimately show "\<exists>a l s'. rt_smem_alloc self sz s = Some (Inr (at s a, s')) \<and> at s a \<noteq> 0 \<and> heap_ok s' \<and> live s' = insert (a, l) (live s) \<and>
        (a, l) \<notin> live s \<and> disjoint_from (a, l) (live s) \<and> 8 dvd a \<and> unat sz \<le> l \<and> a + l \<le> unat (sm_mem_size_aligned s) + 16 \<and>
        same_data (live s) s s'" using s'(1) by (intro exI [of _ ?a] exI [of _ l] exI [of _ s'] conjI)
qed

lemma data_blocks_settle: "data_blocks 0 (settle xs (absorb n ys)) = data_blocks 0 xs @ data_blocks (extent xs + n) ys"
proof -
  obtain n' ys' where a: "absorb n ys = (n', False) # ys'" "data_blocks (extent xs + n) ys = data_blocks (extent xs + n') ys'"
    by (cases rule: absorb_cases [of ys n]) (auto simp: add.assoc)
  then show ?thesis by (cases xs rule: rev_cases) (auto simp: add.assoc)
qed

theorem heap_free:
  assumes ok: "heap_ok s" and b: "(a, l) \<in> live s"
  shows "\<exists>s'. rt_smem_free (at s a) s = Inr s' \<and> heap_ok s' \<and> live s' = live s - {(a, l)} \<and> same_data (live s') s s'"
proof -
  obtain xs ys where bs: "heap_layout s = xs @ (l + 16, True) # ys" "a = extent xs + 16"
    using data_blocks_split [of a l 0 "heap_layout s"] b heap_okD(3) [OF ok] by (auto simp: live_def)
  have inv: "smem_inv (xs @ (l + 16, True) # ys) s" and m: "\<forall>b \<in> set (xs @ (l + 16, False) # ys). 16 \<le> fst b"
    using heap_okD(1,3) [OF ok] bs(1) by auto
  note R = heap_repD [OF heap_okD(2) [OF ok], unfolded bs(1)]
  obtain s' where s': "rt_smem_free (at s a) s = Inr s'" "smem_inv (settle xs (absorb (l + 16) ys)) s'" "keeps_data (xs @ (l + 16, False) # ys) s s'"
    using rt_smem_free_frees [OF inv] bs(2) by auto
  let ?B = "set (data_blocks 0 xs) \<union> set (data_blocks (extent xs + (l + 16)) ys)"
  have l: "0 < l" using heap_okD(4) [OF ok] by (auto simp: bs(1) layout_ok_append layout_ok_Cons)
  have live': "live s' = ?B" using heap_layout_eq [OF s'(2)] by (simp add: live_def data_blocks_settle)
  have "live s = insert (a, l) ?B" by (auto simp: live_def bs)
  moreover have "(a, l) \<notin> ?B" using m l bs(2) by (intro between_disjoint(2)) auto
  ultimately have "live s' = live s - {(a, l)}" using live' by auto
  moreover have "same_data ?B s s'" using keeps_data_same [OF s'(3) m] R(1) by simp
  moreover have "heap_ok s'" using heap_okI [OF s'(2)] by blast
  ultimately show ?thesis using s'(1) live' by auto
qed

text \<open>Freeing what was just allocated gives the heap back as it was.\<close>

theorem alloc_free_roundtrip:
  assumes ok: "heap_ok s" and sz: "sz \<noteq> 0" "unat sz + 7 < 2 ^ 32" and al: "rt_smem_alloc self sz s = Some (Inr (r, s1))" "r \<noteq> 0"
  shows "\<exists>s2. rt_smem_free r s1 = Inr s2 \<and> heap_ok s2 \<and> heap_layout s2 = heap_layout s \<and> sm_used s2 = sm_used s \<and> sm_lfree s2 = sm_lfree s"
proof -
  have "fit (rounded sz) 0 (heap_layout s) \<noteq> None" using rt_smem_alloc_none [OF heap_okD(1) [OF ok] sz(2), of self] al by auto
  then obtain k where k: "fit (rounded sz) 0 (heap_layout s) = Some k" by auto
  obtain xs n ys where bs: "heap_layout s = xs @ (n, False) # ys" "\<forall>b \<in> set xs. snd b \<or> fst b < rounded sz + 16" "rounded sz + 16 \<le> n"
    by (rule fit_split [OF k])
  let ?z = "rounded sz"
  have inv: "smem_inv (xs @ (n, False) # ys) s" using heap_okD(1) [OF ok] bs(1) by simp
  obtain s1' where "rt_smem_alloc self sz s = Some (Inr (at s (extent xs + 16), s1'))" "smem_inv (xs @ cut ?z n @ ys) s1'" "keeps_data (xs @ (n, False) # ys) s s1'"
    using rt_smem_alloc_takes [OF inv sz bs(2,3), of self] by (elim exE conjE)
  then have s1: "r = at s (extent xs + 16)" "smem_inv (xs @ cut ?z n @ ys) s1" "sm_heap_ptr s1 = sm_heap_ptr s" using al by (auto simp: keeps_data_def)
  have lok: "xs = [] \<or> snd (last xs)" "ys = [] \<or> snd (hd ys)" using heap_okD(4) [OF ok] by (auto simp: bs(1) layout_ok_append layout_ok_Cons)
  obtain m zs where c: "cut ?z n @ ys = (m, True) # zs" "absorb m zs = (n, False) # ys"
  proof (cases "?z + 48 \<le> n")
    case True
    then show thesis by (intro that [of "?z + 16" "(n - (?z + 16), False) # ys"]) (auto simp: cut_def)
  next
    case False
    have "absorb n ys = (n, False) # ys" using lok(2) by (cases rule: absorb_cases [of ys n]) auto
    then show thesis using False by (intro that [of n ys]) (auto simp: cut_def)
  qed
  have "smem_inv (xs @ (m, True) # zs) s1" using s1(2) c(1) by simp
  from rt_smem_free_frees [OF this] obtain s2 where s2: "rt_smem_free (at s1 (extent xs + 16)) s1 = Inr s2" "smem_inv (settle xs ((n, False) # ys)) s2"
    "keeps_data (xs @ (m, False) # zs) s1 s2" unfolding c(2) by blast
  have st: "settle xs ((n, False) # ys) = xs @ (n, False) # ys" using lok(1) by auto
  have "at s2 = at s" using s2(3) s1(3) by (intro same_base) (simp add: keeps_data_def)
  then show ?thesis using s2(1,2) s1(1) same_base [OF s1(3)] heap_okI [OF s2(2)] inv unfolding st
    by (intro exI [of _ s2]) (simp add: smem_inv_def bs(1))
qed

section \<open>Initialisation\<close>

text \<open>
  On a region that does not reach over the end of the address space, an initialised heap is one free
  block.
\<close>

lemma RT_ALIGN_DOWN_8: "RT_ALIGN_DOWN x 8 = of_nat (unat x div 8 * 8)"
proof -
  have m: "(8 :: u32) - 1 = mask 3" by (simp add: mask_eq_exp_minus_1)
  have "unat (RT_ALIGN_DOWN x 8) = unat x div 8 * 8" unfolding RT_ALIGN_DOWN_def m unat_and_not_mask by simp
  then have "of_nat (unat (RT_ALIGN_DOWN x 8)) = (of_nat (unat x div 8 * 8) :: u32)" by (rule arg_cong)
  then show ?thesis by simp
qed

definition init_heap :: "nat \<Rightarrow> nat \<Rightarrow> (u32 \<Rightarrow> u32) \<Rightarrow> rt_small_mem" where
  "init_heap A N M =
     (let s = \<lparr>sm_self = of_nat A, sm_address = of_nat (A + 72), sm_total = of_nat N, sm_used = 0, sm_max = 0, sm_heap_ptr = of_nat (A + 72),
            sm_heap_end = of_nat (A + 72) + of_nat (N + 16), sm_lfree = of_nat (A + 72), sm_mem_size_aligned = of_nat N, sm_mem = M\<rparr>;
          s = rt_smem_setname (at s 0) INIT_name (item_set_prev (at s 0) 0 (item_set_next (at s 0) (of_nat (N + 16)) (item_set_pool (at s 0) (MEM_FREED s) s)))
      in rt_smem_setname (at s (N + 16)) INIT_name (item_set_prev (at s (N + 16)) (of_nat (N + 16))
        (item_set_next (at s (N + 16)) (of_nat (N + 16)) (item_set_pool (at s (N + 16)) (MEM_USED s) s))))"

lemma init_heap_inv:
  assumes b: "A + 72 + N + 32 < 2 ^ 32" "8 dvd A" "0 < A" "8 dvd N"
  shows "smem_inv [(N + 16, False)] (init_heap A N M)" "sm_heap_ptr (init_heap A N M) = of_nat (A + 72)" "sm_mem_size_aligned (init_heap A N M) = of_nat N"
proof -
  let ?s = "init_heap A N M"
  have f: "sm_heap_ptr ?s = of_nat (A + 72)" "sm_self ?s = of_nat A" "sm_heap_end ?s = of_nat (A + 72) + of_nat (N + 16)" "sm_lfree ?s = of_nat (A + 72)"
    "sm_used ?s = 0" "sm_mem_size_aligned ?s = of_nat N"
    by (simp_all add: init_heap_def Let_def rt_smem_setname_def item_set_pool_def item_set_next_def item_set_prev_def)
  show "sm_heap_ptr ?s = of_nat (A + 72)" "sm_mem_size_aligned ?s = of_nat N" by (rule f)+
  have u: "unat (sm_heap_ptr ?s) = A + 72" "unat (sm_mem_size_aligned ?s) = N" unfolding f using b by (intro unat_of_nat_32; simp)+
  have mem: "sm_mem ?s (at ?s 0) = MEM_FREED ?s" "sm_mem ?s (at ?s 4) = of_nat (N + 16)" "sm_mem ?s (at ?s 8) = 0" "sm_mem ?s (at ?s (N + 16)) = MEM_USED ?s"
    using b unfolding init_heap_def Let_def rt_smem_setname_def item_set_pool_def item_set_next_def item_set_prev_def
    by (simp_all add: MEM_FREED_def MEM_USED_def)
  have al: "(of_nat A :: u32) AND MEM_MASK = of_nat A"
  proof -
    have m: "MEM_MASK = NOT (mask 1)" by simp
    have "unat (of_nat A :: u32) = A" using b by (intro unat_of_nat_32) simp
    moreover have "A div 2 * 2 = A" using b(2) by presburger
    ultimately have "unat ((of_nat A :: u32) AND NOT (mask 1)) = unat (of_nat A :: u32)" unfolding unat_and_not_mask by simp
    then show ?thesis unfolding m by (simp only: word_unat_eq_iff)
  qed
  have "of_nat A \<noteq> (0 :: u32)" using b unat_of_nat_32 [of A] by auto
  then have "heap_frame [(N + 16, False)] ?s" using b al f u by (simp add: heap_frame_def at_def)
  moreover have "items ?s 0 0 [(N + 16, False)]" using mem by (simp add: header_def pool_ptr_def item_next_def item_prev_def tag_def)
  ultimately show "smem_inv [(N + 16, False)] ?s" using mem f b by (simp add: smem_inv_def layout_ok_def pool_ptr_def at_def)
qed

theorem rt_smem_init_ok:
  assumes low: "0 < unat begin_addr" "unat begin_addr + 86 < 2 ^ 32" and top: "unat begin_addr + unat sz < 2 ^ 32"
  defines "A \<equiv> (unat begin_addr + 7) div 8 * 8" and "D \<equiv> (unat begin_addr + unat sz) div 8 * 8"
  shows "rt_smem_init begin_addr sz M = (if A + 72 + 32 \<le> D then Some (init_heap A (D - A - 72 - 32) M) else None)"
    and "A + 72 + 32 \<le> D \<Longrightarrow> heap_ok (init_heap A (D - A - 72 - 32) M)" "A + 72 + 32 \<le> D \<Longrightarrow> live (init_heap A (D - A - 72 - 32) M) = {}"
proof -
  have A: "unat begin_addr \<le> A" "A \<le> unat begin_addr + 7" "8 dvd A" by (auto simp: A_def)
  have D: "D \<le> unat begin_addr + unat sz" "8 dvd D" by (auto simp: D_def)
  have sm: "RT_ALIGN begin_addr 8 = of_nat A" unfolding A_def by (rule RT_ALIGN_8) (use low in simp)
  have st: "of_nat A + sizeof_small_mem = (of_nat (A + 72) :: u32)" by (simp add: sizeof_small_mem_def)
  have u: "unat (of_nat (A + 72) :: u32) = A + 72" using A low by (intro unat_of_nat_32) simp
  have ba: "RT_ALIGN (of_nat (A + 72)) 8 = of_nat (A + 72)"
  proof -
    have "(A + 72 + 7) div 8 * 8 = A + 72" using A(3) by presburger
    moreover have "RT_ALIGN (of_nat (A + 72)) 8 = of_nat ((unat (of_nat (A + 72) :: u32) + 7) div 8 * 8)"
      by (rule RT_ALIGN_8) (use u A low in linarith)
    ultimately show ?thesis unfolding u by (simp only:)
  qed
  have ea: "RT_ALIGN_DOWN (begin_addr + sz) 8 = of_nat D"
  proof -
    have "unat (begin_addr + sz) = unat begin_addr + unat sz" using top by (simp add: unat_word_ariths)
    then show ?thesis unfolding RT_ALIGN_DOWN_8 D_def by simp
  qed
  have cond: "of_nat D > (2 * 16 :: u32) \<and> of_nat D - 2 * 16 \<ge> (of_nat (A + 72) :: u32) \<longleftrightarrow> A + 72 + 32 \<le> D"
  proof -
    have d: "D < 2 ^ 32" "A + 72 < 2 ^ 32" using D top A low by auto
    have "of_nat D > (2 * 16 :: u32) \<longleftrightarrow> 32 < D" using of_nat_less [of 32 D] d by simp
    moreover have "32 < D \<Longrightarrow> (of_nat D - 2 * 16 :: u32) = of_nat (D - 32)" by (simp add: of_nat_diff)
    moreover have "D - 32 < 2 ^ 32" using d by simp
    ultimately show ?thesis using of_nat_le [of "A + 72" "D - 32"] d by auto
  qed
  show init: "rt_smem_init begin_addr sz M = (if A + 72 + 32 \<le> D then Some (init_heap A (D - A - 72 - 32) M) else None)"
  proof (cases "A + 72 + 32 \<le> D")
    case True
    let ?N = "D - A - 72 - 32"
    have n: "(of_nat D - of_nat (A + 72) - 2 * 16 :: u32) = of_nat ?N" using True by (simp add: of_nat_diff)
    show ?thesis
      unfolding rt_smem_init_def smem_consts sm st ba ea Let_def cond n init_heap_def
      using True by (simp add: rt_smem_setname_def item_set_pool_def item_set_next_def item_set_prev_def item_next_def at_def MEM_FREED_def MEM_USED_def)
        (simp add: sm_set_def algebra_simps)
  next
    case False
    then show ?thesis unfolding rt_smem_init_def smem_consts sm st ba ea Let_def cond by simp
  qed
  assume d: "A + 72 + 32 \<le> D"
  have "smem_inv [(D - A - 72 - 32 + 16, False)] (init_heap A (D - A - 72 - 32) M)"
    by (rule init_heap_inv) (use d D top A low in \<open>auto intro!: dvd_diff_nat\<close>)
  then show "heap_ok (init_heap A (D - A - 72 - 32) M)" "live (init_heap A (D - A - 72 - 32) M) = {}"
    using heap_okI by (auto simp: live_def)
qed

section \<open>Clients of a heap\<close>

datatype heap_op = Op_alloc u32 | Op_free nat

text \<open>A client that frees blocks in use only.\<close>

fun heap_run :: "(u32 \<Rightarrow> 's \<Rightarrow> nat option \<times> 's) \<Rightarrow> (nat \<Rightarrow> 's \<Rightarrow> 's) \<Rightarrow> ('s \<Rightarrow> (nat \<times> nat) set) \<Rightarrow> heap_op list \<Rightarrow> 's \<Rightarrow> 's" where
  "heap_run alloc release blocks [] s = s"
| "heap_run alloc release blocks (Op_alloc n # ops) s = heap_run alloc release blocks ops (snd (alloc n s))"
| "heap_run alloc release blocks (Op_free a # ops) s =
     heap_run alloc release blocks ops (if a \<in> fst ` blocks s then release a s else s)"

definition separate :: "(nat \<times> nat) set \<Rightarrow> bool" where "separate B \<longleftrightarrow> (\<forall>b \<in> B. disjoint_from b (B - {b}))"

lemma separate_insert: "separate B \<Longrightarrow> disjoint_from b B \<Longrightarrow> separate (insert b B)"
  unfolding separate_def disjoint_from_def by fastforce

lemma separate_mono: "separate B \<Longrightarrow> C \<subseteq> B \<Longrightarrow> separate C"
  unfolding separate_def disjoint_from_def by blast

text \<open>The contract of a heap: \<open>contents\<close> is what is stored at an offset.\<close>

locale block_heap =
  fixes ok :: "'s \<Rightarrow> bool" and blocks :: "'s \<Rightarrow> (nat \<times> nat) set" and contents :: "'s \<Rightarrow> nat \<Rightarrow> 'v"
    and alloc :: "u32 \<Rightarrow> 's \<Rightarrow> nat option \<times> 's" and release :: "nat \<Rightarrow> 's \<Rightarrow> 's"
  assumes alloc_none: "ok s \<Longrightarrow> fst (alloc n s) = None \<Longrightarrow> snd (alloc n s) = s"
    and alloc_some: "ok s \<Longrightarrow> fst (alloc n s) = Some a \<Longrightarrow> ok (snd (alloc n s)) \<and>
      (\<exists>l. blocks (snd (alloc n s)) = insert (a, l) (blocks s) \<and> disjoint_from (a, l) (blocks s))"
    and alloc_contents: "ok s \<Longrightarrow> (b, m) \<in> blocks s \<Longrightarrow> j \<in> {b ..< b + m} \<Longrightarrow> contents (snd (alloc n s)) j = contents s j"
    and release: "ok s \<Longrightarrow> (a, l) \<in> blocks s \<Longrightarrow> ok (release a s) \<and> blocks (release a s) = blocks s - {(a, l)}"
    and release_contents: "ok s \<Longrightarrow> (a, l) \<in> blocks s \<Longrightarrow> (b, m) \<in> blocks s \<Longrightarrow> (b, m) \<noteq> (a, l) \<Longrightarrow> j \<in> {b ..< b + m} \<Longrightarrow>
      contents (release a s) j = contents s j"
begin

lemma alloc_step:
  assumes "ok s"
  shows "ok (snd (alloc n s))" "separate (blocks s) \<Longrightarrow> separate (blocks (snd (alloc n s)))" "blocks s \<subseteq> blocks (snd (alloc n s))"
  using alloc_none [OF assms, of n] alloc_some [OF assms, of n] assms separate_insert by (cases "fst (alloc n s)"; fastforce)+

lemma release_step:
  assumes "ok s" "a \<in> fst ` blocks s"
  shows "ok (release a s)" "separate (blocks s) \<Longrightarrow> separate (blocks (release a s))"
    "(b, m) \<in> blocks s \<Longrightarrow> b \<noteq> a \<Longrightarrow> (b, m) \<in> blocks (release a s)"
  using assms release separate_mono by fastforce+

text \<open>Blocks stay apart, and one that is not freed keeps its contents, whatever else is done.\<close>

lemma run_ok:
  assumes "ok s" "separate (blocks s)"
  shows "ok (heap_run alloc release blocks ops s)" "separate (blocks (heap_run alloc release blocks ops s))"
proof -
  have "ok (heap_run alloc release blocks ops s) \<and> separate (blocks (heap_run alloc release blocks ops s))"
    using assms
  proof (induction ops arbitrary: s)
    case (Cons x ops)
    then show ?case using alloc_step(1,2) release_step(1,2) by (cases x) simp_all
  qed simp
  then show "ok (heap_run alloc release blocks ops s)" "separate (blocks (heap_run alloc release blocks ops s))" by simp_all
qed

lemma run_keeps:
  assumes "ok s" "(b, m) \<in> blocks s" "Op_free b \<notin> set ops"
  shows "(b, m) \<in> blocks (heap_run alloc release blocks ops s) \<and>
    (\<forall>j \<in> {b ..< b + m}. contents (heap_run alloc release blocks ops s) j = contents s j)"
  using assms
proof (induction ops arbitrary: s)
  case (Cons x ops)
  show ?case
  proof (cases x)
    case (Op_alloc n)
    let ?s = "snd (alloc n s)"
    have "ok ?s" "(b, m) \<in> blocks ?s" using alloc_step(1,3) [OF Cons.prems(1)] Cons.prems(2) by auto
    then have "(b, m) \<in> blocks (heap_run alloc release blocks ops ?s) \<and>
      (\<forall>j \<in> {b ..< b + m}. contents (heap_run alloc release blocks ops ?s) j = contents ?s j)" using Cons.prems(3) by (intro Cons.IH) auto
    then show ?thesis using alloc_contents [OF Cons.prems(1,2)] by (simp add: Op_alloc)
  next
    case (Op_free a)
    then have ne: "b \<noteq> a" using Cons.prems(3) by auto
    let ?s = "if a \<in> fst ` blocks s then release a s else s"
    have "ok ?s" "(b, m) \<in> blocks ?s" using release_step(1,3) [OF Cons.prems(1)] Cons.prems(1,2) ne by auto
    then have "(b, m) \<in> blocks (heap_run alloc release blocks ops ?s) \<and>
      (\<forall>j \<in> {b ..< b + m}. contents (heap_run alloc release blocks ops ?s) j = contents ?s j)" using Cons.prems(3) by (intro Cons.IH) auto
    moreover have "contents ?s j = contents s j" if "j \<in> {b ..< b + m}" for j
      using release_contents [OF Cons.prems(1) _ Cons.prems(2) _ that] ne by fastforce
    ultimately show ?thesis by (simp only: Op_free heap_run.simps) simp
  qed
qed simp

end

text \<open>The small memory allocator keeps the contract.\<close>

definition smem_alloc :: "u32 \<Rightarrow> rt_small_mem \<Rightarrow> nat option \<times> rt_small_mem" where
  "smem_alloc n s = (case rt_smem_alloc None n s of
     Some (Inr (r, s')) \<Rightarrow> (if r = 0 then (None, s') else (Some (unat (r - sm_heap_ptr s)), s'))
   | _ \<Rightarrow> (None, s))"

definition smem_release :: "nat \<Rightarrow> rt_small_mem \<Rightarrow> rt_small_mem" where
  "smem_release a s = (case rt_smem_free (at s a) s of Inr s' \<Rightarrow> s' | Inl _ \<Rightarrow> s)"

lemma RT_ALIGN_wraps:
  assumes "2 ^ 32 \<le> unat sz + 7"
  shows "RT_ALIGN sz 8 = 0"
proof -
  have "unat (sz + 7) = unat sz + 7 - 2 ^ 32" using assms unat_ltE(2) [of sz] by (simp add: unat_word_ariths mod_if)
  then have "unat (sz + 7) < 8" using unat_ltE(2) [of sz] by simp
  moreover have m: "(8 :: u32) - 1 = mask 3" "sz + 8 - 1 = sz + 7" by (simp_all add: mask_eq_exp_minus_1)
  ultimately have "unat (RT_ALIGN sz 8) = 0" unfolding RT_ALIGN_def m unat_and_not_mask by simp
  then show ?thesis by (simp add: unat_eq_0)
qed

text \<open>
  The size of a request is rounded up modulo \<^verbatim>\<open>2^32\<close>: a request for the last seven sizes is served like a
  request for one byte.
\<close>

theorem alloc_size_wraps:
  assumes "2 ^ 32 \<le> unat sz + 7"
  shows "rt_smem_alloc self sz s = rt_smem_alloc self 1 s"
proof -
  have "RT_ALIGN sz 8 = 0" by (rule RT_ALIGN_wraps [OF assms])
  moreover have "RT_ALIGN 1 8 = 8" using RT_ALIGN_8 [of 1] by simp
  ultimately have "smem_size sz = smem_size 1" by (simp add: smem_size_def)
  moreover have "sz \<noteq> 0" using assms by auto
  ultimately show ?thesis by (simp add: rt_smem_alloc_def)
qed

lemma smem_alloc_cases:
  assumes ok: "heap_ok s"
  obtains "smem_alloc n s = (None, s)"
  | a l s' where "smem_alloc n s = (Some a, s')" "heap_ok s'" "live s' = insert (a, l) (live s)" "disjoint_from (a, l) (live s)" "same_data (live s) s s'"
proof -
  have *: "smem_alloc m s = (None, s) \<or> (\<exists>a l s'. smem_alloc m s = (Some a, s') \<and> heap_ok s' \<and> live s' = insert (a, l) (live s) \<and>
      disjoint_from (a, l) (live s) \<and> same_data (live s) s s')" if m: "m \<noteq> 0" "unat m + 7 < 2 ^ 32" for m
  proof (cases "\<exists>b \<in> set (heap_layout s). \<not> snd b \<and> rounded m + 16 \<le> fst b")
    case True
    from heap_alloc(2) [OF ok m True, of None] obtain a l s' where
      s': "rt_smem_alloc None m s = Some (Inr (at s a, s'))" "at s a \<noteq> 0" "heap_ok s'" "live s' = insert (a, l) (live s)"
        "disjoint_from (a, l) (live s)" "same_data (live s) s s'" "a + l \<le> unat (sm_mem_size_aligned s) + 16" by (elim exE conjE)
    have "a < 2 ^ 32" using s'(7) heap_repD(1,2,5) [OF heap_okD(2) [OF ok]] by linarith
    then have "smem_alloc m s = (Some a, s')" using s'(1,2) by (simp add: smem_alloc_def unat_of_nat_32)
    then show ?thesis using s'(3-6) by blast
  next
    case False
    then have "\<forall>b \<in> set (heap_layout s). snd b \<or> fst b < rounded m + 16" by (meson not_le)
    then show ?thesis using heap_alloc(1) [OF ok m, of None] by (simp add: smem_alloc_def)
  qed
  consider "n = 0" | "n \<noteq> 0" "unat n + 7 < 2 ^ 32" | "2 ^ 32 \<le> unat n + 7" by linarith
  then have "smem_alloc n s = (None, s) \<or> (\<exists>a l s'. smem_alloc n s = (Some a, s') \<and> heap_ok s' \<and> live s' = insert (a, l) (live s) \<and>
      disjoint_from (a, l) (live s) \<and> same_data (live s) s s')"
  proof cases
    case 1
    then show ?thesis by (simp add: smem_alloc_def rt_smem_alloc_def)
  next
    case 2
    then show ?thesis by (rule *)
  next
    case 3
    then have "smem_alloc n s = smem_alloc 1 s" using alloc_size_wraps [OF 3] by (simp add: smem_alloc_def)
    then show ?thesis using * [of 1] by simp
  qed
  then show thesis using that by blast
qed

lemma smem_release_live:
  assumes "heap_ok s" "(a, l) \<in> live s"
  shows "heap_ok (smem_release a s)" "live (smem_release a s) = live s - {(a, l)}" "same_data (live s - {(a, l)}) s (smem_release a s)"
proof -
  obtain s' where s': "rt_smem_free (at s a) s = Inr s'" "heap_ok s'" "live s' = live s - {(a, l)}" "same_data (live s') s s'"
    using heap_free [OF assms] by (elim exE conjE)
  have "smem_release a s = s'" using s'(1) by (simp add: smem_release_def)
  then show "heap_ok (smem_release a s)" "live (smem_release a s) = live s - {(a, l)}" "same_data (live s - {(a, l)}) s (smem_release a s)"
    using s'(2-4) by (simp_all only:)
qed

lemma smem_alloc_step:
  assumes ok: "heap_ok s"
  shows "fst (smem_alloc n s) = None \<Longrightarrow> snd (smem_alloc n s) = s"
    and "fst (smem_alloc n s) = Some a \<Longrightarrow> heap_ok (snd (smem_alloc n s)) \<and>
      (\<exists>l. live (snd (smem_alloc n s)) = insert (a, l) (live s) \<and> disjoint_from (a, l) (live s))"
    and "same_data (live s) s (snd (smem_alloc n s))"
proof -
  have *: "(fst (smem_alloc n s) = None \<longrightarrow> snd (smem_alloc n s) = s) \<and> (\<forall>a. fst (smem_alloc n s) = Some a \<longrightarrow> heap_ok (snd (smem_alloc n s)) \<and>
      (\<exists>l. live (snd (smem_alloc n s)) = insert (a, l) (live s) \<and> disjoint_from (a, l) (live s))) \<and> same_data (live s) s (snd (smem_alloc n s))"
  proof (rule smem_alloc_cases [OF ok, of n])
    assume "smem_alloc n s = (None, s)"
    then show ?thesis by (simp add: same_data_def)
  next
    fix a l s'
    assume "smem_alloc n s = (Some a, s')" "heap_ok s'" "live s' = insert (a, l) (live s)" "disjoint_from (a, l) (live s)" "same_data (live s) s s'"
    then show ?thesis by auto
  qed
  then show "fst (smem_alloc n s) = None \<Longrightarrow> snd (smem_alloc n s) = s"
    "fst (smem_alloc n s) = Some a \<Longrightarrow> heap_ok (snd (smem_alloc n s)) \<and>
      (\<exists>l. live (snd (smem_alloc n s)) = insert (a, l) (live s) \<and> disjoint_from (a, l) (live s))"
    "same_data (live s) s (snd (smem_alloc n s))" by simp_all
qed

lemma same_dataD: "same_data B s s' \<Longrightarrow> (b, m) \<in> B \<Longrightarrow> j \<in> {b ..< b + m} \<Longrightarrow> sm_mem s' (at s' j) = sm_mem s (at s j)"
  using same_base [of s' s] by (auto simp: same_data_def)

interpretation smem: block_heap heap_ok live "\<lambda>s j. sm_mem s (at s j)" smem_alloc smem_release
proof (unfold_locales, goal_cases)
  case (1 s n)
  then show ?case by (rule smem_alloc_step(1))
next
  case (2 s n a)
  then show ?case by (rule smem_alloc_step(2))
next
  case (3 s b m j n)
  then show ?case by (intro same_dataD [OF smem_alloc_step(3)])
next
  case (4 s a l)
  then show ?case using smem_release_live(1,2) by blast
next
  case (5 s a l b m j)
  then show ?case by (intro same_dataD [OF smem_release_live(3) [OF 5(1,2)], of b m]) auto
qed

text \<open>So for the heap of the board, from its initialisation on.\<close>

lemma live_separate:
  assumes "heap_ok s"
  shows "separate (live s)"
proof -
  have "separate (set (data_blocks i bs))" if "\<forall>b \<in> set bs. 16 \<le> fst b" for i bs
    using that
  proof (induction i bs rule: data_blocks.induct)
    case (2 i n u bs)
    have s: "separate (set (data_blocks (i + n) bs))" using 2 by simp
    have "disjoint_from (i + 16, n - 16) (set (data_blocks (i + n) bs))"
      using data_blocks_bounds [of bs _ _ "i + n"] 2(2) by (fastforce simp: disjoint_from_def)
    then show ?case using s separate_insert by (cases u) simp_all
  qed (simp add: separate_def)
  then show ?thesis using heap_okD(3) [OF assms] by (simp add: live_def)
qed

end
