(* ===== verification/Rt_Realloc.thy ===== *)
theory Rt_Realloc
  imports Rt_Heap_Ops
begin

text \<open>
  \<^verbatim>\<open>rt_smem_realloc\<close>: a block that gets shorter stays where it is and its tail becomes a free block; one
  that gets longer, or shorter by less than a block, moves to a new place with its contents.
\<close>

section \<open>Making a block shorter\<close>

lemma lfree_lower:
  assumes "\<forall>b \<in> set us. 16 \<le> fst b" "0 < m" "F = first_free 0 (us @ (m, True) # ys)"
  shows "first_free 0 (us @ (r, False) # zs) = (if extent us < F then extent us else F)"
proof (cases "\<forall>c \<in> set us. snd c")
  case True
  then show ?thesis using first_free_bound(1) [of "extent us + m" ys] assms(2,3) by (simp add: first_free_append)
next
  case False
  have "first_free 0 (us @ vs) = first_free 0 us" for vs unfolding first_free_append using False by (simp only: if_False)
  moreover have "first_free 0 us + 16 \<le> extent us" using False assms(1) first_free_less [of us 0] by auto
  ultimately show ?thesis using assms(3) by simp
qed

lemma shrink_rep:
  assumes rep: "heap_rep (xs @ (n, True) # ys) s" and i: "i = extent xs" and l: "16 \<le> l" "l + 16 \<le> n" "8 dvd l"
  defines "s1 \<equiv> smem_split (of_nat i) (of_nat (i + l)) (s\<lparr>sm_used := sm_used s - of_nat (n - l)\<rparr>)"
  shows "heap_rep (xs @ (l, True) # (n - l, False) # ys)
      (s1\<lparr>sm_lfree := (if at s (i + l) < sm_lfree s then at s (i + l) else sm_lfree s)\<rparr>)"
    "touches ({i + 4} \<union> {i + l ..< i + l + 16} \<union> {i + n + 8}) s s1" "sm_lfree s1 = sm_lfree s"
proof -
  let ?s0 = "s\<lparr>sm_used := sm_used s - of_nat (n - l)\<rparr>" and ?bs = "xs @ (n, True) # ys" and ?cs = "xs @ (l, True) # (n - l, False) # ys"
  note R = heap_repD [OF rep]
  define E where "E = extent ?bs"
  have e: "extent ?bs = E" "E + 16 \<le> 2 ^ 32" "sm_mem_size_aligned ?s0 + 16 = of_nat E" using R(1,5) by (auto simp: E_def)
  have b: "i + n + extent ys = E" "i + n + extent ys + 16 < 2 ^ 32" using R(1,2) i by (auto simp: E_def)
  have "items ?s0 = items s" by (rule items_fields) simp_all
  then have it0: "items ?s0 0 0 ?bs" using R(7) by simp
  note S = split_items [OF it0 R(6) i e l(1,2), folded s1_def]
  have nx: "item_next ?s0 (at ?s0 i) = of_nat (i + n)" using it0 i by (simp add: header_def)
  have b': "i + 16 \<le> i + l" "i + l + 16 \<le> i + n" "i + n + 16 \<le> 2 ^ 32" using l b by auto
  note M = smem_split_mem(6,7) [OF nx b' e(3,2), folded s1_def]
  show lf: "sm_lfree s1 = sm_lfree s" using M(1) by simp
  have "touches ({} \<union> ({i + 4} \<union> {i + l ..< i + l + 16} \<union> {i + n + 8})) s s1" by (rule touches_trans [OF _ S(2)]) simp
  then show t: "touches ({i + 4} \<union> {i + l ..< i + l + 16} \<union> {i + n + 8}) s s1" by simp
  have mys: "\<forall>c \<in> set ys. 16 \<le> fst c" using R(6) by auto
  then have "extent ys \<noteq> 8" by (cases ys) auto
  then have "sm_mem s1 (at s E) = sm_mem s (at s E)" using b l by (intro touchesD(5) [OF t]) auto
  then have pe: "pool_ptr s1 (at s1 (extent ?cs)) = MEM_USED s1"
    using R(8) touchesD(6,8) [OF t] l e(1) by (simp add: pool_ptr_def tag_def)
  have ff: "first_free 0 ?bs \<le> E" using first_free_bound(2) [of 0 ?bs] by (simp add: E_def)
  have F: "first_free 0 ?bs = first_free 0 ((xs @ [(l, True)]) @ (n - l, True) # ys)" using l by (simp add: first_free_append add.assoc)
  have ec: "extent (xs @ [(l, True)]) = i + l" by (simp add: i)
  have new: "first_free 0 ?cs = (if i + l < first_free 0 ?bs then i + l else first_free 0 ?bs)"
    using lfree_lower [OF _ _ F, where r = "n - l" and zs = ys] l R(6) unfolding ec by simp
  have less: "at s (i + l) < sm_lfree s \<longleftrightarrow> i + l < first_free 0 ?bs" unfolding R(9) using R(1,2) ff b l i by (subst at_less) auto
  have lf2: "(if at s (i + l) < sm_lfree s then at s (i + l) else sm_lfree s) = at s1 (first_free 0 ?cs)"
    unfolding new using less touchesD(6) [OF t] R(9) by simp
  have us: "sm_used s1 = of_nat (used_bytes ?cs)" unfolding M(2) using R(10) l by (simp add: of_nat_diff)
  have "heap_frame ?cs s1" by (rule heap_frame_touches [OF _ t, where bs = ?bs]) (use rep l in \<open>auto simp: heap_rep_def\<close>)
  moreover have "blocks_ok ?cs" using rep l by (auto simp: heap_rep_def blocks_ok_def intro!: dvd_diff_nat)
  moreover have "s1\<lparr>sm_lfree := v\<rparr> = s1\<lparr>sm_lfree := v, sm_used := sm_used s1\<rparr>" for v by simp
  ultimately show "heap_rep ?cs (s1\<lparr>sm_lfree := (if at s (i + l) < sm_lfree s then at s (i + l) else sm_lfree s)\<rparr>)"
    using heap_repI [OF _ _ S(1) pe lf2 us] by simp
qed

section \<open>Moving a block\<close>

lemma at_diff:
  assumes "j < 2 ^ 32" "b + k < 2 ^ 32"
  shows "at s j - at s b < of_nat k \<longleftrightarrow> b \<le> j \<and> j < b + k" "b \<le> j \<Longrightarrow> at s j - at s b + at s a = at s (a + (j - b))"
proof -
  show "at s j - at s b + at s a = at s (a + (j - b))" if "b \<le> j" using that by (simp add: at_def of_nat_diff)
  have k: "unat (of_nat k :: u32) = k" using assms by (intro unat_of_nat_32) simp
  show "at s j - at s b < of_nat k \<longleftrightarrow> b \<le> j \<and> j < b + k"
  proof (cases "b \<le> j")
    case True
    then have "at s j - at s b = of_nat (j - b)" by (simp add: at_def of_nat_diff)
    then show ?thesis using True assms of_nat_less [of "j - b" k] by auto
  next
    case False
    then have "at s j - at s b = of_nat (2 ^ 32 - (b - j))" using assms by (simp add: at_def of_nat_diff)
    then show ?thesis using False assms of_nat_less [of "2 ^ 32 - (b - j)" k] by auto
  qed
qed

text \<open>Writing into the data of a block leaves the headers alone.\<close>

lemma items_data:
  assumes t: "touches J s s'" and "items s p i bs" "\<forall>b \<in> set bs. 16 \<le> fst b" "i + extent bs \<le> 2 ^ 32"
    "\<And>j. j \<in> J \<Longrightarrow> i \<le> j \<Longrightarrow> j < i + extent bs \<Longrightarrow> j \<in> user_data i bs"
  shows "items s' p i bs"
  using assms(2-)
proof (induction bs arbitrary: p i)
  case (Cons b bs)
  obtain n u where b: "b = (n, u)" by (cases b)
  have n: "16 \<le> n" "i + n + extent bs \<le> 2 ^ 32" "\<forall>b \<in> set bs. 16 \<le> fst b" using Cons.prems(2,3) by (auto simp: b)
  have ub: "user_data (i + n) bs \<subseteq> {i + n + 16 ..< i + n + extent bs}" by (rule user_data_bounds [OF n(3)])
  have J: "j \<notin> J" if "i \<le> j" "j < i + 16" for j
  proof
    assume "j \<in> J"
    then have "j \<in> user_data i ((n, u) # bs)" using Cons.prems(4) [of j] that n(1) by (simp add: b)
    then have "i + 16 \<le> j \<or> j \<in> user_data (i + n) bs" by (simp split: if_splits) auto
    then show False using that n(1) ub by auto
  qed
  have "items s' i (i + n) bs"
  proof (rule Cons.IH [OF _ n(3,2)])
    show "items s i (i + n) bs" using Cons.prems(1) by (simp add: b)
    show "j \<in> user_data (i + n) bs" if "j \<in> J" "i + n \<le> j" "j < i + n + extent bs" for j
    proof -
      have "j \<in> user_data i ((n, u) # bs)" using Cons.prems(4) [of j] that by (simp add: b)
      then show ?thesis using that(2) by (simp split: if_splits)
    qed
  qed
  moreover have "sm_mem s' (at s j) = sm_mem s (at s j)" if "i \<le> j" "j < i + 16" for j
    using J [OF that] that n by (intro touchesD(5) [OF t]) auto
  then have "header s' i u n p" using Cons.prems(1) touchesD(6,7) [OF t] by (simp add: b header_def pool_ptr_def item_next_def item_prev_def)
  ultimately show ?case by (simp add: b)
qed simp

lemma write_live:
  assumes ok: "heap_ok s" and b: "(b, m) \<in> live s" and t: "touches J s s'" and J: "J \<subseteq> {b ..< b + m}"
    and same: "sm_lfree s' = sm_lfree s" "sm_used s' = sm_used s"
  shows "heap_ok s'" "live s' = live s"
proof -
  let ?bs = "heap_layout s"
  note R = heap_repD [OF heap_okD(2) [OF ok]]
  have bb: "b + m \<le> extent ?bs" using data_blocks_bounds [OF R(6), of b m 0] b by (auto simp: live_def)
  have "{b ..< b + m} \<subseteq> user_data 0 ?bs"
    unfolding user_data_blocks [OF R(6)] using UN_upper [OF b [unfolded live_def], of "\<lambda>(a, l). {a ..< a + l}"] by simp
  then have ud: "J \<subseteq> user_data 0 ?bs" using J by auto
  have "items s' 0 0 ?bs" by (rule items_data [OF t R(7,6)]) (use R(1) ud in auto)
  moreover have "sm_mem s' (at s (extent ?bs)) = sm_mem s (at s (extent ?bs))" using R(1) bb J by (intro touchesD(5) [OF t]) auto
  moreover have "heap_frame ?bs s'" by (rule heap_frame_touches [OF _ t]) (use heap_okD(2) [OF ok] in \<open>simp_all add: heap_rep_def\<close>)
  ultimately have "smem_inv ?bs s'" using heap_okD(1) [OF ok] touchesD(6,8) [OF t] same by (simp add: smem_inv_def pool_ptr_def)
  then show "heap_ok s'" "live s' = live s" using heap_okI by (auto simp: live_def)
qed

lemma smem_copy_ok:
  assumes ok: "heap_ok s" and b: "(b, m) \<in> live s" and k: "k \<le> m" and a: "a + k < 2 ^ 32"
  defines "s' \<equiv> smem_copy (at s b) (at s a) (of_nat k) s"
  shows "heap_ok s'" "live s' = live s" "sm_heap_ptr s' = sm_heap_ptr s" "sm_mem_size_aligned s' = sm_mem_size_aligned s"
    "j < k \<Longrightarrow> sm_mem s' (at s (b + j)) = sm_mem s (at s (a + j))"
    "i < 2 ^ 32 \<Longrightarrow> i < b \<or> b + k \<le> i \<Longrightarrow> sm_mem s' (at s i) = sm_mem s (at s i)"
proof -
  let ?bs = "heap_layout s"
  note R = heap_repD [OF heap_okD(2) [OF ok]]
  have bb: "16 \<le> b" "b + m \<le> extent ?bs" using data_blocks_bounds [OF R(6), of b m 0] b by (auto simp: live_def)
  have bk: "b + k < 2 ^ 32" using bb R(1) k by linarith
  have mem: "sm_mem s' (at s i) = (if b \<le> i \<and> i < b + k then sm_mem s (at s (a + (i - b))) else sm_mem s (at s i))" if "i < 2 ^ 32" for i
    using at_diff [OF that bk, of s] by (simp add: s'_def smem_copy_def)
  show "i < 2 ^ 32 \<Longrightarrow> i < b \<or> b + k \<le> i \<Longrightarrow> sm_mem s' (at s i) = sm_mem s (at s i)" using mem [of i] by auto
  show "j < k \<Longrightarrow> sm_mem s' (at s (b + j)) = sm_mem s (at s (a + j))" using mem [of "b + j"] bk by simp
  have t: "touches {b ..< b + k} s s'" unfolding touches_def
  proof (intro conjI allI impI)
    fix j :: nat assume "j < 2 ^ 32" "j \<notin> {b ..< b + k}"
    moreover from this(2) have "\<not> (b \<le> j \<and> j < b + k)" by auto
    ultimately show "sm_mem s' (at s j) = sm_mem s (at s j)" using mem [of j] by (simp only: if_False)
  qed (simp_all add: s'_def smem_copy_def)
  show "sm_heap_ptr s' = sm_heap_ptr s" "sm_mem_size_aligned s' = sm_mem_size_aligned s" by (simp_all add: s'_def smem_copy_def)
  have "{b ..< b + k} \<subseteq> {b ..< b + m}" using k by auto
  then show "heap_ok s'" "live s' = live s" using write_live [OF ok b t] by (simp_all add: s'_def smem_copy_def)
qed

section \<open>Resizing\<close>

lemma same_data_at:
  assumes "same_data B s s'" "(b, m) \<in> B" "j \<in> {b ..< b + m}"
  shows "sm_mem s' (at s j) = sm_mem s (at s j)"
  using assms unfolding same_data_def by blast

definition aligned8 :: "u32 \<Rightarrow> nat" where "aligned8 sz = (unat sz + 7) div 8 * 8"

lemma aligned8:
  assumes "unat sz + 7 < 2 ^ 32"
  shows "RT_ALIGN sz 8 = of_nat (aligned8 sz)" "aligned8 sz < 2 ^ 32" "unat sz \<le> aligned8 sz" "8 dvd aligned8 sz" "sz \<noteq> 0 \<Longrightarrow> 8 \<le> aligned8 sz"
    "rounded (of_nat (aligned8 sz)) = rounded sz" "unat (of_nat (aligned8 sz) :: u32) + 7 < 2 ^ 32"
proof -
  show "RT_ALIGN sz 8 = of_nat (aligned8 sz)" using RT_ALIGN_8 [OF assms] by (simp add: aligned8_def)
  have "aligned8 sz \<le> unat sz + 7" by (simp add: aligned8_def)
  moreover have "8 dvd aligned8 sz" by (simp add: aligned8_def)
  then obtain q where q: "aligned8 sz = 8 * q" by blast
  ultimately have b: "aligned8 sz + 8 \<le> 2 ^ 32" using assms unfolding q by simp
  then show "aligned8 sz < 2 ^ 32" by simp
  show "unat sz \<le> aligned8 sz" "8 dvd aligned8 sz" unfolding aligned8_def by presburger+
  show "8 \<le> aligned8 sz" if "sz \<noteq> 0"
  proof -
    have "0 < unat sz" using that by (simp add: unat_gt_0)
    then show ?thesis unfolding aligned8_def by presburger
  qed
  have u: "unat (of_nat (aligned8 sz) :: u32) = aligned8 sz" using b by (intro unat_of_nat_32) simp
  then show "unat (of_nat (aligned8 sz) :: u32) + 7 < 2 ^ 32" using b by simp
  have "(aligned8 sz + 7) div 8 * 8 = aligned8 sz" unfolding aligned8_def by presburger
  then show "rounded (of_nat (aligned8 sz)) = rounded sz" unfolding rounded_def u by (simp add: aligned8_def)
qed

text \<open>What \<^verbatim>\<open>rt_smem_realloc\<close> computes for a block in use.\<close>

lemma realloc_unfold:
  assumes ok: "heap_ok s" and b: "(a, l) \<in> live s" and sz: "unat newsize + 7 < 2 ^ 32" "newsize \<noteq> 0" "aligned8 newsize \<le> unat (sm_mem_size_aligned s)"
  defines "N \<equiv> aligned8 newsize"
  shows "rt_smem_realloc self (at s a) newsize s =
    (if l = N then Some (Inr (at s a, s))
     else if N + 28 < l then
       let s1 = smem_split (of_nat (a - 16)) (of_nat (a + N)) (s\<lparr>sm_used := sm_used s - of_nat (l - N)\<rparr>);
           s2 = (if at s (a + N) < sm_lfree s1 then s1\<lparr>sm_lfree := at s (a + N)\<rparr> else s1)
       in Some (bindR (plug_holes (at s (a + N)) s2) (\<lambda>s'. Inr (at s a, s')))
     else bindO (rt_smem_alloc self (of_nat N) s) (\<lambda>(nmem, s').
       Some (if nmem = 0 then Inr (0, s')
             else bindR (rt_smem_free (at s a) (smem_copy nmem (at s a) (of_nat (min l N)) s')) (\<lambda>s. Inr (nmem, s)))))"
proof -
  note R = heap_repD [OF heap_okD(2) [OF ok]]
  obtain xs ys where bs: "heap_layout s = xs @ (l + 16, True) # ys" "a = extent xs + 16"
    using data_blocks_split [of a l 0 "heap_layout s"] b R(6) by (auto simp: live_def)
  let ?i = "extent xs"
  have l: "0 < l" "8 dvd ?i" using heap_okD(4) [OF ok] layout_okD(2) by (auto simp: bs(1) layout_ok_append layout_ok_Cons)
  have e: "unat (sm_heap_ptr s) + ?i + l + 16 + extent ys + 16 \<le> 2 ^ 32" using R(1) by (simp add: bs(1) add.assoc)
  have u: "unat (at s a) = unat (sm_heap_ptr s) + a" using e bs(2) by (subst unat_at) auto
  have nz: "at s a \<noteq> 0" using u R(2) by auto
  have al: "at s a AND (8 - 1) = 0" using aligned_at(1) [of s a] e bs(2) l R(3) by simp
  have rng: "sm_heap_ptr s \<le> at s a" "at s a < sm_heap_end s"
  proof -
    show "sm_heap_ptr s \<le> at s a" using u by (simp add: word_le_nat_alt)
    show "at s a < sm_heap_end s" unfolding R(4) using e bs l by (subst at_less) auto
  qed
  have mem: "at s a - 16 = at s ?i" "a - 16 = ?i" using bs(2) by (simp_all add: at_def)
  have nx: "item_next s (at s ?i) = of_nat (?i + (l + 16))" using R(7) by (simp add: bs(1) header_def)
  have ml: "l \<le> unat (sm_mem_size_aligned s)" "unat (sm_mem_size_aligned s) + 32 + 8 \<le> 2 ^ 32"
  proof -
    show "l \<le> unat (sm_mem_size_aligned s)" using R(5) by (simp add: bs(1))
    have "8 \<le> unat (sm_heap_ptr s)" using R(2,3) by (meson dvd_imp_le)
    then show "unat (sm_mem_size_aligned s) + 32 + 8 \<le> 2 ^ 32" using R(1,5) by linarith
  qed
  have size: "item_next s (at s ?i) - of_nat ?i - 16 = of_nat l" unfolding nx by simp
  have A: "RT_ALIGN newsize 8 = of_nat N" "8 \<le> N" using aligned8(1,5) [OF sz(1)] sz(2) by (simp_all add: N_def)
  have N: "N \<le> unat (sm_mem_size_aligned s)" using sz(3) by (simp add: N_def)
  have c1: "\<not> of_nat N > sm_mem_size_aligned s" using N ml unat_of_nat_32 [of N] by (simp add: word_less_nat_alt)
  have c2: "of_nat N \<noteq> (0 :: u32)" using A(2) N ml unat_of_nat_32 [of N] by auto
  have c3: "(of_nat l :: u32) = of_nat N \<longleftrightarrow> l = N" using N ml unat_of_nat_32 [of N] unat_of_nat_32 [of l] by auto
  have c4: "(of_nat N + 16 + 12 :: u32) < of_nat l \<longleftrightarrow> N + 28 < l" using of_nat_less [of "N + 28" l] N ml by (simp add: add.assoc)
  have c5: "(of_nat l :: u32) < of_nat N \<longleftrightarrow> l < N" using of_nat_less [of l N] N ml by simp
  have c6: "(of_nat l - of_nat N :: u32) = of_nat (l - N)" if "N + 28 < l" using that by (simp add: of_nat_diff)
  have c7: "(of_nat ?i + 16 + of_nat N :: u32) = of_nat (a + N)" by (simp add: bs(2))
  have c8: "(if l < N then of_nat l else of_nat N) = (of_nat (min l N) :: u32)" by simp
  show ?thesis
    unfolding rt_smem_realloc_def smem_consts A(1) Let_def mem at_plus(5) size c3 c4 c5 c7 c8
    using c1 c2 c6 nz al rng by (simp add: at_fold) (auto simp: at_def algebra_simps)
qed

theorem realloc_shrinks:
  assumes ok: "heap_ok s" and b: "(a, l) \<in> live s" and sz: "unat newsize + 7 < 2 ^ 32" "newsize \<noteq> 0" and N: "aligned8 newsize + 28 < l"
  shows "\<exists>s'. rt_smem_realloc self (at s a) newsize s = Some (Inr (at s a, s')) \<and> heap_ok s' \<and>
    live s' = insert (a, aligned8 newsize) (live s - {(a, l)}) \<and> same_data (live s') s s'"
proof -
  define N where "N = aligned8 newsize"
  note R = heap_repD [OF heap_okD(2) [OF ok]]
  obtain xs ys where bs: "heap_layout s = xs @ (l + 16, True) # ys" "a = extent xs + 16"
    using data_blocks_split [of a l 0 "heap_layout s"] b R(6) by (auto simp: live_def)
  let ?i = "extent xs" and ?L = "N + 16"
  have rep: "heap_rep (xs @ (l + 16, True) # ys) s" and lok: "layout_ok (xs @ (l + 16, True) # ys)" using heap_okD(2,4) [OF ok] bs(1) by simp_all
  have A: "8 dvd N" "8 \<le> N" "N + 28 < l" using aligned8(4,5) [OF sz(1)] sz(2) N by (simp_all add: N_def)
  have L: "16 \<le> ?L" "?L + 16 \<le> l + 16" "8 dvd ?L" using A by auto
  have lm: "aligned8 newsize \<le> unat (sm_mem_size_aligned s)" using R(5) A(3) by (simp add: bs(1) N_def)
  note S = shrink_rep [OF rep refl L]
  let ?s1 = "smem_split (of_nat ?i) (of_nat (?i + ?L)) (s\<lparr>sm_used := sm_used s - of_nat (l + 16 - ?L)\<rparr>)"
  let ?s2 = "?s1\<lparr>sm_lfree := (if at s (?i + ?L) < sm_lfree s then at s (?i + ?L) else sm_lfree s)\<rparr>"
  let ?zs = "xs @ [(?L, True)]"
  have at2: "at ?s2 = at s" using touchesD(6) [OF S(2)] same_base [of ?s2 ?s1] by simp
  have rep2: "heap_rep (?zs @ (l + 16 - ?L, False) # ys) ?s2" using S(1) by simp
  have oks: "layout_ok ?zs" "layout_ok ys" using lok A by (auto simp: layout_ok_append layout_ok_Cons)
  have ez: "?i + ?L = extent ?zs" by simp
  obtain s' where s': "plug_holes (at ?s2 (?i + ?L)) ?s2 = Inr s'" "smem_inv (settle ?zs (absorb (l + 16 - ?L) ys)) s'"
    "keeps_data (?zs @ (l + 16 - ?L, False) # ys) ?s2 s'" using plug_holes_rep [OF rep2 ez oks] by blast
  have eq: "rt_smem_realloc self (at s a) newsize s = Some (Inr (at s a, s'))"
  proof -
    have c: "aligned8 newsize \<noteq> l" "aligned8 newsize + 28 < l" "a - 16 = ?i" "a + aligned8 newsize = ?i + ?L" "l - aligned8 newsize = l + 16 - ?L"
      using N bs(2) by (auto simp: N_def)
    have s2: "?s2 = (if at s (?i + ?L) < sm_lfree ?s1 then ?s1\<lparr>sm_lfree := at s (?i + ?L)\<rparr> else ?s1)" using S(3) by auto
    show ?thesis
      unfolding realloc_unfold [OF ok b sz lm] c(3-5) Let_def s2 [symmetric] using c(1,2) s'(1) at2 by simp
  qed
  have k2: "keeps_data (?zs @ (l + 16 - ?L, False) # ys) s ?s1"
  proof -
    have "j \<notin> {?i + 4} \<union> {?i + ?L ..< ?i + ?L + 16} \<union> {?i + (l + 16) + 8}"
      if "j \<in> user_data 0 (?zs @ (l + 16 - ?L, False) # ys) \<or> extent (?zs @ (l + 16 - ?L, False) # ys) + 16 \<le> j" for j
    proof -
      have m: "\<forall>b \<in> set xs. 16 \<le> fst b" "\<forall>b \<in> set ys. 16 \<le> fst b" using R(6) by (simp_all add: bs(1))
      have "user_data 0 (?zs @ (l + 16 - ?L, False) # ys) \<subseteq> {..< ?i} \<union> {?i + 16 ..< ?i + ?L} \<union> {?i + (l + 16) + 16 ..}"
        using user_data_bounds [OF m(1), of 0] user_data_bounds [OF m(2), of "?i + (l + 16)"] A by (auto simp: ac_simps)
      then have "j < ?i \<or> ?i + 16 \<le> j \<and> j < ?i + ?L \<or> ?i + (l + 16) + 16 \<le> j" using that A by auto
      then show ?thesis using A by auto
    qed
    then show ?thesis using touchesD(1,5) [OF S(2)] by (auto simp: keeps_data_def)
  qed
  have "keeps_data (?zs @ (l + 16 - ?L, False) # ys) s ?s2" using k2 by (simp add: keeps_data_def)
  then have k: "keeps_data (?zs @ (l + 16 - ?L, False) # ys) s s'" by (rule keeps_data_trans [OF _ s'(3)]) auto
  let ?B = "set (data_blocks 0 xs) \<union> set (data_blocks (?i + (l + 16)) ys)"
  have live': "live s' = insert (a, N) ?B"
    using heap_layout_eq [OF s'(2)] A bs(2) by (simp add: live_def data_blocks_settle ac_simps)
  have m: "\<forall>c \<in> set (?zs @ (l + 16 - ?L, False) # ys). 16 \<le> fst c" using R(6) A by (auto simp: bs(1))
  have "same_data (set (data_blocks 0 (?zs @ (l + 16 - ?L, False) # ys))) s s'" by (rule keeps_data_same [OF k m]) (use R(1) A in \<open>simp add: bs(1)\<close>)
  then have "same_data (live s') s s'" unfolding live' using A bs(2) by (simp add: insert_commute ac_simps)
  moreover have "live s = insert (a, l) ?B" by (auto simp: live_def bs)
  moreover have "(a, l) \<notin> ?B" using m bs(2) A by (intro between_disjoint(2)) auto
  ultimately show ?thesis using eq live' heap_okI [OF s'(2)] unfolding N_def [symmetric] by (intro exI [of _ s']) auto
qed

theorem realloc_moves:
  assumes ok: "heap_ok s" and b: "(a, l) \<in> live s" and sz: "unat newsize + 7 < 2 ^ 32" "newsize \<noteq> 0"
    and N: "aligned8 newsize \<noteq> l" "l \<le> aligned8 newsize + 28" "aligned8 newsize \<le> unat (sm_mem_size_aligned s)"
    and room: "\<exists>b \<in> set (heap_layout s). \<not> snd b \<and> rounded newsize + 16 \<le> fst b"
  shows "\<exists>d m s'. rt_smem_realloc self (at s a) newsize s = Some (Inr (at s d, s')) \<and> at s d \<noteq> 0 \<and> heap_ok s' \<and>
    live s' = insert (d, m) (live s - {(a, l)}) \<and> unat newsize \<le> m \<and> disjoint_from (d, m) (live s) \<and>
    (\<forall>j < min l (aligned8 newsize). sm_mem s' (at s (d + j)) = sm_mem s (at s (a + j))) \<and> same_data (live s - {(a, l)}) s s'"
proof -
  define N where "N = aligned8 newsize"
  let ?n = "of_nat N :: u32"
  note A = aligned8 [OF sz(1), folded N_def]
  note R = heap_repD [OF heap_okD(2) [OF ok]]
  have nn: "?n \<noteq> 0" using A(2,5) sz(2) unat_of_nat_32 [of N] by auto
  obtain d m s1 where s1: "rt_smem_alloc self ?n s = Some (Inr (at s d, s1))" "at s d \<noteq> 0" "heap_ok s1" "live s1 = insert (d, m) (live s)"
    "(d, m) \<notin> live s" "disjoint_from (d, m) (live s)" "unat ?n \<le> m" "d + m \<le> unat (sm_mem_size_aligned s) + 16" "same_data (live s) s s1"
    using heap_alloc(2) [OF ok nn A(7), unfolded A(6), OF room, of self] by (elim exE conjE)
  have Nm: "N \<le> m" using s1(7) unat_of_nat_32 [OF A(2)] by simp
  have ab: "a + l \<le> extent (heap_layout s)" using data_blocks_bounds [OF R(6), of a l 0] b by (simp add: live_def)
  have at1: "at s1 = at s" using s1(9) by (intro same_base) (simp add: same_data_def)
  let ?s2 = "smem_copy (at s d) (at s a) (of_nat (min l N)) s1"
  note C = smem_copy_ok [OF s1(3), of d m "min l N" a, unfolded at1 s1(4)]
  have dm: "(d, m) \<in> insert (d, m) (live s)" "min l N \<le> m" "a + min l N < 2 ^ 32" using Nm ab R(1) by auto
  note C = C [OF dm]
  have at2: "at ?s2 = at s" using same_base [OF C(3)] at1 by simp
  have al: "(a, l) \<in> live ?s2" using b C(2) by simp
  obtain s' where s': "rt_smem_free (at ?s2 a) ?s2 = Inr s'" "heap_ok s'" "live s' = live ?s2 - {(a, l)}" "same_data (live s') ?s2 s'"
    using heap_free [OF C(1) al] by (elim exE conjE)
  have ne: "(d, m) \<noteq> (a, l)" using s1(5) b by auto
  have live': "live s' = insert (d, m) (live s - {(a, l)})" using s'(3) C(2) ne by auto
  have dis: "{d ..< d + m} \<inter> {c ..< c + n} = {}" if "(c, n) \<in> live s" for c n using s1(6) that by (auto simp: disjoint_from_def)
  have eq: "rt_smem_realloc self (at s a) newsize s = Some (Inr (at s d, s'))"
    unfolding realloc_unfold [OF ok b sz N(3), folded N_def] using N s1(1,2) s'(1) at2 by (simp add: N_def [symmetric] bindO_def)
  have cp: "sm_mem s' (at s (d + j)) = sm_mem s (at s (a + j))" if "j < min l N" for j
  proof -
    have "sm_mem s' (at ?s2 (d + j)) = sm_mem ?s2 (at ?s2 (d + j))"
      by (rule same_data_at [OF s'(4), of d m]) (use that Nm in \<open>simp_all add: live'\<close>)
    then have "sm_mem s' (at s (d + j)) = sm_mem ?s2 (at s (d + j))" unfolding at2 .
    also have "\<dots> = sm_mem s1 (at s (a + j))" using C(5) [OF that] .
    also have "\<dots> = sm_mem s (at s (a + j))" by (rule same_data_at [OF s1(9) b]) (use that in simp)
    finally show ?thesis .
  qed
  have "sm_mem s' (at s j) = sm_mem s (at s j)" if c: "(c, n) \<in> live s - {(a, l)}" "j \<in> {c ..< c + n}" for c n j
  proof -
    have "c + n \<le> extent (heap_layout s)" using data_blocks_bounds [OF R(6), of c n 0] c(1) by (simp add: live_def)
    then have j: "j < 2 ^ 32" "j < d \<or> d + min l N \<le> j" using c R(1) dis [of c n] Nm by (auto simp: disjoint_iff not_less)
    have "sm_mem s' (at ?s2 j) = sm_mem ?s2 (at ?s2 j)" by (rule same_data_at [OF s'(4), of c n]) (use c in \<open>simp_all add: live'\<close>)
    then have "sm_mem s' (at s j) = sm_mem ?s2 (at s j)" unfolding at2 .
    also have "\<dots> = sm_mem s1 (at s j)" using C(6) [OF j] .
    also have "\<dots> = sm_mem s (at s j)" by (rule same_data_at [OF s1(9), of c n]) (use c in auto)
    finally show ?thesis .
  qed
  moreover have "sm_heap_ptr s' = sm_heap_ptr s" using s'(4) C(3) s1(9) by (simp add: same_data_def)
  ultimately have "same_data (live s - {(a, l)}) s s'" unfolding same_data_def by blast
  moreover have "unat newsize \<le> m" using A(3) Nm by simp
  ultimately show ?thesis using eq s1(2,6) s'(2) live' cp unfolding N_def [symmetric] by blast
qed

text \<open>The size 0, and those that are rounded to it, free the block; without a block the call is an allocation.\<close>

theorem realloc_frees:
  assumes "heap_ok s" and "(a, l) \<in> live s" and "newsize = 0 \<or> 2 ^ 32 \<le> unat newsize + 7"
  shows "\<exists>s'. rt_smem_realloc self (at s a) newsize s = Some (Inr (0, s')) \<and> heap_ok s' \<and> live s' = live s - {(a, l)} \<and> same_data (live s') s s'"
proof -
  have "RT_ALIGN newsize 8 = 0" using assms(3) RT_ALIGN_wraps [of newsize] RT_ALIGN_8 [of 0] by auto
  then show ?thesis using heap_free [OF assms(1,2)] by (auto simp: rt_smem_realloc_def)
qed

lemma rounded_same:
  "rounded x = rounded y \<Longrightarrow> unat x + 7 < 2 ^ 32 \<Longrightarrow> unat y + 7 < 2 ^ 32 \<Longrightarrow> x \<noteq> 0 \<Longrightarrow> y \<noteq> 0 \<Longrightarrow>
    rt_smem_alloc self x s = rt_smem_alloc self y s"
  using smem_size_rounded(1) [of x] smem_size_rounded(1) [of y] by (simp add: rt_smem_alloc_def)

theorem realloc_null:
  assumes "unat newsize + 7 < 2 ^ 32"
  shows "rt_smem_realloc self 0 newsize s = rt_smem_alloc self newsize s"
proof (cases "newsize = 0")
  case True
  then have "RT_ALIGN newsize 8 = 0" using RT_ALIGN_8 [of 0] by simp
  then show ?thesis using True by (simp add: rt_smem_realloc_def rt_smem_free_def rt_smem_alloc_def)
next
  case False
  note A = aligned8 [OF assms]
  let ?n = "of_nat (aligned8 newsize) :: u32"
  have u: "unat ?n = aligned8 newsize" by (rule unat_of_nat_32 [OF A(2)])
  then have n0: "?n \<noteq> 0" using A(5) [OF False] by auto
  have al: "rt_smem_alloc self ?n s = rt_smem_alloc self newsize s" by (rule rounded_same [OF A(6,7) assms n0 False])
  have "unat ?n \<le> rounded newsize" unfolding u by (simp add: rounded_def aligned8_def)
  then have "smem_size newsize > sm_mem_size_aligned s" if "?n > sm_mem_size_aligned s"
    using that smem_size_rounded [OF assms] by (simp add: word_less_nat_alt unat_of_nat_32)
  then have "rt_smem_alloc self newsize s = Some (Inr (0, s))" if "?n > sm_mem_size_aligned s" using that by (simp add: rt_smem_alloc_def)
  then show ?thesis using al n0 by (simp add: rt_smem_realloc_def A(1) Let_def)
qed

lemma realloc_null_wraps: "2 ^ 32 \<le> unat newsize + 7 \<Longrightarrow> rt_smem_realloc self 0 newsize s = Some (Inr (0, s))"
  by (simp add: rt_smem_realloc_def rt_smem_free_def RT_ALIGN_wraps)

text \<open>The calls that leave the heap as it is.\<close>

theorem realloc_unchanged:
  assumes ok: "heap_ok s" and b: "(a, l) \<in> live s" and sz: "unat newsize + 7 < 2 ^ 32" "newsize \<noteq> 0"
  shows "aligned8 newsize = l \<Longrightarrow> rt_smem_realloc self (at s a) newsize s = Some (Inr (at s a, s))"
    and "unat (sm_mem_size_aligned s) < aligned8 newsize \<Longrightarrow> rt_smem_realloc self (at s a) newsize s = Some (Inr (0, s))"
    and "aligned8 newsize \<noteq> l \<Longrightarrow> l \<le> aligned8 newsize + 28 \<Longrightarrow> \<forall>b \<in> set (heap_layout s). snd b \<or> fst b < rounded newsize + 16 \<Longrightarrow>
      rt_smem_realloc self (at s a) newsize s = Some (Inr (0, s))"
proof -
  note A = aligned8 [OF sz(1)]
  note R = heap_repD [OF heap_okD(2) [OF ok]]
  have "16 \<le> a" "a + l \<le> extent (heap_layout s)" using data_blocks_bounds [OF R(6), of a l 0] b by (auto simp: live_def)
  then have lm: "l \<le> unat (sm_mem_size_aligned s)" using R(5) by simp
  show "rt_smem_realloc self (at s a) newsize s = Some (Inr (at s a, s))" if "aligned8 newsize = l"
    using realloc_unfold [OF ok b sz] that lm by simp
  show big: "rt_smem_realloc self (at s a) newsize s = Some (Inr (0, s))" if "unat (sm_mem_size_aligned s) < aligned8 newsize"
    using that A(1) unat_of_nat_32 [OF A(2)] by (simp add: rt_smem_realloc_def Let_def word_less_nat_alt)
  assume g: "aligned8 newsize \<noteq> l" "l \<le> aligned8 newsize + 28" and none: "\<forall>b \<in> set (heap_layout s). snd b \<or> fst b < rounded newsize + 16"
  let ?n = "of_nat (aligned8 newsize) :: u32"
  have "?n \<noteq> 0" using A(2,5) sz(2) unat_of_nat_32 [OF A(2)] by auto
  then have al: "rt_smem_alloc self ?n s = Some (Inr (0, s))" using heap_alloc(1) [OF ok _ A(7)] none unfolding A(6) by blast
  show "rt_smem_realloc self (at s a) newsize s = Some (Inr (0, s))"
  proof (cases "aligned8 newsize \<le> unat (sm_mem_size_aligned s)")
    case True
    then show ?thesis using realloc_unfold [OF ok b sz True, of self] g al by (simp add: bindO_def)
  qed (use big in simp)
qed

end
