(* ===== verification/Rt_Malloc.thy ===== *)
theory Rt_Malloc
  imports Rt_Realloc Rt_Mutex_Ops
begin

text \<open>
  The system heap of \<^verbatim>\<open>kservice.c\<close>: the allocator behind a mutex. A thread that finds the mutex taken is
  blocked inside \<^verbatim>\<open>rt_malloc\<close> and the heap is as it was; \<open>..._end\<close> is what it executes with the mutex. The
  hooks, which are null unless an application sets them, are left out. \<open>name\<close> gives the names of the threads.
\<close>

section \<open>The lock of the heap\<close>

type_synonym system = "kernel \<times> rt_small_mem"

definition heap_mutex :: nat where "heap_mutex = 0"

definition heap_lock_init :: "kernel \<Rightarrow> kernel res" where
  "heap_lock_init k = bindR (rt_mutex_init heap_mutex k) (\<lambda>(_, k). Inr k)"

definition heap_lock :: "kernel \<Rightarrow> (int option \<times> kernel) res option" where
  "heap_lock k = (case k_current k of None \<Rightarrow> Some (Inr (Some RT_EOK, k)) | Some _ \<Rightarrow> rt_mutex_take heap_mutex (- 1) k)"

definition heap_unlock :: "int \<Rightarrow> kernel \<Rightarrow> kernel res" where
  "heap_unlock level k =
     (if level \<noteq> RT_EOK then Inl (Assert_fail ''level == RT_EOK'')
      else case k_current k of None \<Rightarrow> Inr k | Some _ \<Rightarrow> bindR (rt_mutex_release heap_mutex k) (\<lambda>(_, k). Inr k))"

definition heap_locked :: "(int \<Rightarrow> kernel \<Rightarrow> ('r \<times> kernel \<times> 'h) res option) \<Rightarrow> kernel \<Rightarrow> 'h \<Rightarrow> ('r option \<times> kernel \<times> 'h) res option" where
  "heap_locked rest k h =
     bindO (heap_lock k) (\<lambda>(level, k). case level of
       None \<Rightarrow> Some (Inr (None, k, h))
     | Some level \<Rightarrow> bindO (rest level k) (\<lambda>(r, k, h). Some (Inr (Some r, k, h))))"

definition self_name :: "(tid \<Rightarrow> u8 list) \<Rightarrow> kernel \<Rightarrow> u8 list option" where
  "self_name name k = map_option name (k_current k)"

section \<open>Operations\<close>

definition rt_system_heap_init :: "u32 \<Rightarrow> u32 \<Rightarrow> (u32 \<Rightarrow> u32) \<Rightarrow> kernel \<Rightarrow> (kernel \<times> rt_small_mem option) res" where
  "rt_system_heap_init begin_addr end_addr M k =
     (let begin_align = RT_ALIGN begin_addr RT_ALIGN_SIZE;
          end_align = RT_ALIGN_DOWN end_addr RT_ALIGN_SIZE in
      if \<not> end_align > begin_align then Inl (Assert_fail ''end_align > begin_align'')
      else let h = rt_smem_init begin_addr (end_align - begin_align) M
           in bindR (heap_lock_init k) (\<lambda>k. Inr (k, h)))"

definition rt_malloc_end :: "(tid \<Rightarrow> u8 list) \<Rightarrow> u32 \<Rightarrow> rt_small_mem \<Rightarrow> int \<Rightarrow> kernel \<Rightarrow> (u32 \<times> system) res option" where
  "rt_malloc_end name sz h level k =
     bindO (rt_smem_alloc (self_name name k) sz h) (\<lambda>(ptr, h).
     Some (bindR (heap_unlock level k) (\<lambda>k. Inr (ptr, k, h))))"

definition rt_malloc :: "(tid \<Rightarrow> u8 list) \<Rightarrow> u32 \<Rightarrow> system \<Rightarrow> (u32 option \<times> system) res option" where
  "rt_malloc name sz = (\<lambda>(k, h). heap_locked (rt_malloc_end name sz h) k h)"

definition rt_realloc_end :: "(tid \<Rightarrow> u8 list) \<Rightarrow> u32 \<Rightarrow> u32 \<Rightarrow> rt_small_mem \<Rightarrow> int \<Rightarrow> kernel \<Rightarrow> (u32 \<times> system) res option" where
  "rt_realloc_end name ptr newsize h level k =
     bindO (rt_smem_realloc (self_name name k) ptr newsize h) (\<lambda>(nptr, h).
     Some (bindR (heap_unlock level k) (\<lambda>k. Inr (nptr, k, h))))"

definition rt_realloc :: "(tid \<Rightarrow> u8 list) \<Rightarrow> u32 \<Rightarrow> u32 \<Rightarrow> system \<Rightarrow> (u32 option \<times> system) res option" where
  "rt_realloc name ptr newsize = (\<lambda>(k, h). heap_locked (rt_realloc_end name ptr newsize h) k h)"

definition rt_free_end :: "u32 \<Rightarrow> rt_small_mem \<Rightarrow> int \<Rightarrow> kernel \<Rightarrow> (unit \<times> system) res option" where
  "rt_free_end ptr h level k =
     Some (bindR (rt_smem_free ptr h) (\<lambda>h. bindR (heap_unlock level k) (\<lambda>k. Inr ((), k, h))))"

definition rt_free :: "u32 \<Rightarrow> system \<Rightarrow> (unit option \<times> system) res option" where
  "rt_free ptr = (\<lambda>(k, h). if ptr = 0 then Some (Inr (Some (), k, h)) else heap_locked (rt_free_end ptr h) k h)"

definition rt_memory_info_end :: "rt_small_mem \<Rightarrow> int \<Rightarrow> kernel \<Rightarrow> ((u32 \<times> u32 \<times> u32) \<times> system) res option" where
  "rt_memory_info_end h level k = Some (bindR (heap_unlock level k) (\<lambda>k. Inr ((sm_total h, sm_used h, sm_max h), k, h)))"

definition rt_memory_info :: "system \<Rightarrow> ((u32 \<times> u32 \<times> u32) option \<times> system) res option" where
  "rt_memory_info = (\<lambda>(k, h). heap_locked (rt_memory_info_end h) k h)"

text \<open>
  \<^verbatim>\<open>rt_memset(p, 0, n)\<close> at an aligned address, on words: the last word is cleared in its low bytes only.
\<close>

definition smem_clear :: "u32 \<Rightarrow> u32 \<Rightarrow> rt_small_mem \<Rightarrow> rt_small_mem" where
  "smem_clear p n s = s\<lparr>sm_mem := (\<lambda>a. if a - p < n then sm_mem s a AND NOT (mask (8 * min 4 (unat (n - (a - p))))) else sm_mem s a)\<rparr>"

definition rt_calloc :: "(tid \<Rightarrow> u8 list) \<Rightarrow> u32 \<Rightarrow> u32 \<Rightarrow> system \<Rightarrow> (u32 option \<times> system) res option" where
  "rt_calloc name count sz st =
     bindO (rt_malloc name (count * sz) st) (\<lambda>(p, k, h).
     Some (Inr (case p of
       None \<Rightarrow> (None, k, h)
     | Some p \<Rightarrow> (Some p, k, if p \<noteq> 0 then smem_clear p (count * sz) h else h))))"

definition up4 :: "u32 \<Rightarrow> u32" where "up4 x = (x + 3) AND NOT 3"

definition align_up :: "u32 \<Rightarrow> u32 \<Rightarrow> u32" where
  "align_up align ptr = (if ptr AND (align - 1) = 0 then ptr + align else (ptr + (align - 1)) AND NOT (align - 1))"

definition rt_malloc_align :: "(tid \<Rightarrow> u8 list) \<Rightarrow> u32 \<Rightarrow> u32 \<Rightarrow> system \<Rightarrow> (u32 option \<times> system) res option" where
  "rt_malloc_align name sz align st =
     (let align = up4 align; align_size = up4 sz + align in
      bindO (rt_malloc name align_size st) (\<lambda>(p, k, h).
      Some (Inr (case p of
        None \<Rightarrow> (None, k, h)
      | Some ptr \<Rightarrow>
          if ptr \<noteq> 0 then let align_ptr = align_up align ptr in (Some align_ptr, k, sm_set (align_ptr - 4) ptr h)
          else (Some ptr, k, h)))))"

definition rt_free_align :: "u32 \<Rightarrow> system \<Rightarrow> (unit option \<times> system) res option" where
  "rt_free_align ptr = (\<lambda>(k, h). if ptr = 0 then Some (Inr (Some (), k, h)) else rt_free (sm_mem h (ptr - 4)) (k, h))"

section \<open>The check of the heap\<close>

text \<open>
  The walk of \<^verbatim>\<open>memcheck\<close> over one heap: \<open>Some False\<close> is its jump to the error message. \<^verbatim>\<open>position\<close> is an \<^verbatim>\<open>int\<close>.
\<close>

partial_function (option) memcheck_walk :: "rt_small_mem \<Rightarrow> u32 \<Rightarrow> bool option" where
  "memcheck_walk s mem =
     (if mem = sm_heap_end s then Some True
      else let position = sint (mem - sm_heap_ptr s) in
        if position < 0 then Some False
        else if position > sint (sm_mem_size_aligned s) then Some False
        else if MEM_POOL s mem \<noteq> sm_self s then Some False
        else memcheck_walk s (sm_heap_ptr s + item_next s mem))"

definition RT_NAME_MAX :: nat where "RT_NAME_MAX = 24"

fun memcheck :: "string option \<Rightarrow> (string \<times> rt_small_mem) list \<Rightarrow> bool option" where
  "memcheck nm [] = Some True"
| "memcheck nm ((n, s) # heaps) =
     (if nm \<noteq> None \<and> take RT_NAME_MAX (the nm) \<noteq> take RT_NAME_MAX n then memcheck nm heaps
      else case memcheck_walk s (sm_heap_ptr s) of
        None \<Rightarrow> None | Some False \<Rightarrow> Some False | Some True \<Rightarrow> memcheck nm heaps)"

section \<open>The lock when nobody holds it\<close>

definition heap_ready :: "kernel \<Rightarrow> bool" where
  "heap_ready k \<longleftrightarrow> k_current k = None \<or> (\<exists>c. mutex_inv k \<and> thread_context c k \<and> mx_owner (k_mutex k heap_mutex) = None)"

definition heap_done :: "kernel \<Rightarrow> kernel \<Rightarrow> bool" where
  "heap_done k k' \<longleftrightarrow> (if k_current k = None then k' = k else mutex_inv k' \<and> mx_owner (k_mutex k' heap_mutex) = None)"

lemma lock_free:
  assumes "heap_ready k"
  obtains k1 k2 where "heap_lock k = Some (Inr (Some RT_EOK, k1))" "k_current k1 = k_current k" "heap_unlock RT_EOK k1 = Inr k2" "heap_done k k2"
proof (cases "k_current k")
  case None
  then show thesis by (intro that [of k k]) (simp_all add: heap_lock_def heap_unlock_def heap_done_def)
next
  case (Some t)
  then obtain c where c: "mutex_inv k" "thread_context c k" "mx_owner (k_mutex k heap_mutex) = None" using assms by (auto simp: heap_ready_def)
  obtain k1 where k1: "rt_mutex_take_flag heap_mutex (- 1) RT_UNINTERRUPTIBLE k = Some (Inr (Some RT_EOK, k1))" "mutex_inv k1" "thread_context c k1"
    "mx_owner (k_mutex k1 heap_mutex) = Some c" "mx_hold (k_mutex k1 heap_mutex) = 1" "k_list k1 = k_list k"
    using rt_mutex_take_free [OF c, of "- 1" RT_UNINTERRUPTIBLE] by (elim exE conjE)
  have "waits_ok k" using c(1) by (simp add: mutex_inv_def)
  then have "k_list k1 (mutex_waiters heap_mutex) = []" using waits_okD(2) [of k heap_mutex] c(3) k1(6) by auto
  then obtain k2 where k2: "rt_mutex_release heap_mutex k1 = Inr (RT_EOK, k2)" "mutex_inv k2" "mx_owner (k_mutex k2 heap_mutex) = None"
    using rt_mutex_release_free [OF k1(2-5)] by blast
  show thesis
  proof (rule that [of k1 k2])
    show "heap_lock k = Some (Inr (Some RT_EOK, k1))" using Some k1(1) by (simp add: heap_lock_def rt_mutex_take_def)
    show "k_current k1 = k_current k" using c(2) k1(3) by (simp add: thread_context_def)
    show "heap_unlock RT_EOK k1 = Inr k2" using k1(3) k2(1) by (simp add: heap_unlock_def thread_context_def)
    show "heap_done k k2" using Some k2 by (simp add: heap_done_def)
  qed
qed

text \<open>Then each operation is the allocator's.\<close>

lemma heap_ops_eq:
  assumes "heap_ready k"
  obtains k' where "heap_done k k'"
    "\<And>name sz h. rt_malloc name sz (k, h) = bindO (rt_smem_alloc (self_name name k) sz h) (\<lambda>(p, h). Some (Inr (Some p, k', h)))"
    "\<And>name ptr sz h. rt_realloc name ptr sz (k, h) = bindO (rt_smem_realloc (self_name name k) ptr sz h) (\<lambda>(p, h). Some (Inr (Some p, k', h)))"
    "\<And>ptr h. ptr \<noteq> 0 \<Longrightarrow> rt_free ptr (k, h) = Some (bindR (rt_smem_free ptr h) (\<lambda>h. Inr (Some (), k', h)))"
    "\<And>h. rt_memory_info (k, h) = Some (Inr (Some (sm_total h, sm_used h, sm_max h), k', h))"
proof -
  obtain k1 k2 where l: "heap_lock k = Some (Inr (Some RT_EOK, k1))" "k_current k1 = k_current k" "heap_unlock RT_EOK k1 = Inr k2" "heap_done k k2"
    by (rule lock_free [OF assms])
  have n: "self_name name k1 = self_name name k" for name using l(2) by (simp add: self_name_def)
  show thesis
  proof (rule that [OF l(4)])
    show "rt_malloc name sz (k, h) = bindO (rt_smem_alloc (self_name name k) sz h) (\<lambda>(p, h). Some (Inr (Some p, k2, h)))" for name sz h
      using l(1,3) n by (auto simp: rt_malloc_def heap_locked_def rt_malloc_end_def bindO_def split: option.split sum.split)
    show "rt_realloc name ptr sz (k, h) = bindO (rt_smem_realloc (self_name name k) ptr sz h) (\<lambda>(p, h). Some (Inr (Some p, k2, h)))" for name ptr sz h
      using l(1,3) n by (auto simp: rt_realloc_def heap_locked_def rt_realloc_end_def bindO_def split: option.split sum.split)
    show "rt_free ptr (k, h) = Some (bindR (rt_smem_free ptr h) (\<lambda>h. Inr (Some (), k2, h)))" if "ptr \<noteq> 0" for ptr h
      using l(1,3) that by (auto simp: rt_free_def heap_locked_def rt_free_end_def bindO_def bindR_def split: sum.split)
    show "rt_memory_info (k, h) = Some (Inr (Some (sm_total h, sm_used h, sm_max h), k2, h))" for h
      using l(1,3) by (simp add: rt_memory_info_def heap_locked_def rt_memory_info_end_def bindO_def)
  qed
qed

lemma rt_malloc_eq:
  assumes "heap_ready k"
  obtains k' where "heap_done k k'"
    "\<And>name sz h. rt_malloc name sz (k, h) = bindO (rt_smem_alloc (self_name name k) sz h) (\<lambda>(p, h). Some (Inr (Some p, k', h)))"
proof (rule heap_ops_eq [OF assms])
  fix k' assume "heap_done k k'"
    "\<And>name sz h. rt_malloc name sz (k, h) = bindO (rt_smem_alloc (self_name name k) sz h) (\<lambda>(p, h). Some (Inr (Some p, k', h)))"
  then show thesis by (rule that)
qed

lemma rt_free_eq:
  assumes "heap_ready k"
  obtains k' where "heap_done k k'" "\<And>ptr h. ptr \<noteq> 0 \<Longrightarrow> rt_free ptr (k, h) = Some (bindR (rt_smem_free ptr h) (\<lambda>h. Inr (Some (), k', h)))"
proof (rule heap_ops_eq [OF assms])
  fix k' assume "heap_done k k'" "\<And>ptr h. ptr \<noteq> 0 \<Longrightarrow> rt_free ptr (k, h) = Some (bindR (rt_smem_free ptr h) (\<lambda>h. Inr (Some (), k', h)))"
  then show thesis by (rule that)
qed

text \<open>While another thread holds the lock, the caller waits and the heap is not touched.\<close>

theorem rt_malloc_waits:
  assumes k: "mutex_inv k" "thread_context c k" "mx_owner (k_mutex k heap_mutex) = Some ow" "ow \<noteq> c" "mstat k u = RT_THREAD_READY"
  shows "\<exists>k'. rt_malloc name sz (k, h) = Some (Inr (None, k', h)) \<and> mutex_inv k' \<and> k_current k' \<noteq> Some c \<and>
    c \<in> set (k_list k' (mutex_waiters heap_mutex)) \<and> prio_of k' ow \<le> prio_of k c"
proof -
  have t: "- 1 \<noteq> (0 :: u32)" "0 < sint (- 1 :: u32) \<longrightarrow> - 1 < RT_TICK_MAX div 2 \<and> hard_timer k (Tm_thread c)" by simp_all
  obtain k' where k': "rt_mutex_take_flag heap_mutex (- 1) RT_UNINTERRUPTIBLE k = Some (Inr (None, k'))" "mutex_inv k'" "k_current k' \<noteq> Some c"
    "set (k_list k' (mutex_waiters heap_mutex)) = insert c (set (k_list k (mutex_waiters heap_mutex)))" "prio_of k' ow \<le> prio_of k c"
    using rt_mutex_take_blocks [OF k(1-4) t k(5), of RT_UNINTERRUPTIBLE] by (elim exE conjE)
  have "k_current k = Some c" using k(2) by (simp add: thread_context_def)
  then show ?thesis using k' by (intro exI [of _ k']) (simp add: rt_malloc_def heap_locked_def heap_lock_def rt_mutex_take_def bindO_def)
qed

section \<open>Aligned blocks\<close>

lemma up4_eq:
  assumes "unat x + 3 < 2 ^ 32"
  shows "unat (up4 x) = (unat x + 3) div 4 * 4"
proof -
  have m: "(3 :: u32) = mask 2" by (simp add: mask_eq_exp_minus_1)
  have "unat (x + mask 2) = unat x + 3" using assms by (simp add: unat_word_ariths mask_eq_exp_minus_1)
  then show ?thesis unfolding up4_def m unat_and_not_mask by simp
qed

lemma align_up_eq:
  assumes n: "2 \<le> n" and A: "unat A = 2 ^ n" and p: "8 dvd unat p" "unat p + 2 ^ n < 2 ^ 32"
  shows "2 ^ n dvd unat (align_up A p)" "unat p + 4 \<le> unat (align_up A p)" "unat (align_up A p) \<le> unat p + 2 ^ n"
proof -
  have A2: "A = 2 ^ n" using arg_cong [OF A, of "of_nat :: nat \<Rightarrow> u32"] by simp
  have m: "A - 1 = mask n" unfolding A2 by (simp add: mask_eq_exp_minus_1)
  have "A \<noteq> 0" using A by auto
  then have um: "unat (A - 1) = 2 ^ n - 1" using A by (simp add: unat_minus_one)
  have c: "p AND (A - 1) = 0 \<longleftrightarrow> unat p mod 2 ^ n = 0"
  proof -
    have "unat (p AND mask n) = take_bit n (unat p)" unfolding take_bit_eq_mask [symmetric] by (rule unsigned_take_bit_eq)
    then have "unat (p AND mask n) = unat p mod 2 ^ n" by (simp add: take_bit_eq_mod)
    then show ?thesis unfolding m using unat_eq_0 [of "p AND mask n"] by simp
  qed
  have n4: "4 \<le> (2 :: nat) ^ n" "4 dvd (2 :: nat) ^ n" using n power_increasing [of 2 n "2 :: nat"] le_imp_power_dvd [of 2 n "2 :: nat"] by auto
  have "2 ^ n dvd unat (align_up A p) \<and> unat p + 4 \<le> unat (align_up A p) \<and> unat (align_up A p) \<le> unat p + 2 ^ n"
  proof (cases "unat p mod 2 ^ n = 0")
    case True
    then have "unat (align_up A p) = unat p + 2 ^ n" using c A p by (simp add: align_up_def unat_word_ariths)
    then show ?thesis using True n4 by (simp add: mod_eq_0_iff_dvd)
  next
    case False
    have e: "align_up A p = (p + (A - 1)) AND NOT (A - 1)" using False c by (simp add: align_up_def)
    have "unat (p + (A - 1)) = unat p + (2 ^ n - 1)" using p(2) um by (simp add: unat_word_ariths)
    then have u: "unat (align_up A p) = (unat p + (2 ^ n - 1)) div 2 ^ n * 2 ^ n" unfolding e m unat_and_not_mask by simp
    define x where "x = unat p + (2 ^ n - 1)"
    have "x div 2 ^ n * 2 ^ n + x mod 2 ^ n = x" "x mod 2 ^ n < 2 ^ n" by (rule div_mult_mod_eq, rule mod_less_divisor) simp
    then have le: "unat p \<le> unat (align_up A p)" "unat (align_up A p) \<le> unat p + (2 ^ n - 1)" unfolding u x_def [symmetric]
      using n4(1) unfolding x_def by linarith+
    have d: "2 ^ n dvd unat (align_up A p)" unfolding u by simp
    then have "unat (align_up A p) \<noteq> unat p" using False by (auto simp: mod_eq_0_iff_dvd)
    moreover have "4 dvd unat (align_up A p)" "4 dvd unat p" using d n4(2) p(1) by (auto intro: dvd_trans)
    ultimately have "unat p + 4 \<le> unat (align_up A p)" using le(1) by presburger
    then show ?thesis using d le by auto
  qed
  then show "2 ^ n dvd unat (align_up A p)" "unat p + 4 \<le> unat (align_up A p)" "unat (align_up A p) \<le> unat p + 2 ^ n" by simp_all
qed

text \<open>Writing into one block leaves the data of the others alone.\<close>

lemma write_same:
  assumes ok: "heap_ok h1" and same: "same_data B h h1" and B: "B \<subseteq> live h1" and d: "disjoint_from (a, l) B"
    and t: "touches J h1 h2" and J: "J \<subseteq> {a ..< a + l}"
  shows "same_data B h h2"
proof -
  note R = heap_repD [OF heap_okD(2) [OF ok]]
  have ath: "at h1 = at h" using same by (intro same_base) (simp add: same_data_def)
  have "sm_mem h2 (at h i) = sm_mem h (at h i)" if "(b, m) \<in> B" "i \<in> {b ..< b + m}" for b m i
  proof -
    have "{a ..< a + l} \<inter> {b ..< b + m} = {}" using d that(1) by (auto simp: disjoint_from_def)
    then have "i \<notin> J" using J that(2) by auto
    moreover have "i < 2 ^ 32" using data_blocks_bounds [OF R(6), of b m 0] that R(1) B by (auto simp: live_def)
    ultimately have "sm_mem h2 (at h i) = sm_mem h1 (at h i)" using touchesD(5) [OF t, of i] by (simp add: ath)
    then show ?thesis using same_data_at [OF same that] by simp
  qed
  moreover have "sm_heap_ptr h2 = sm_heap_ptr h" using same touchesD(1) [OF t] by (simp add: same_data_def)
  ultimately show ?thesis unfolding same_data_def by blast
qed

lemma aligned_place:
  assumes ok: "heap_ok h" and b: "(a, l) \<in> live h" "8 dvd a" and n: "2 \<le> n" "unat A = 2 ^ n" and l: "S + 2 ^ n \<le> l"
  obtains e where "align_up A (at h a) = at h (a + e)" "4 \<le> e" "e + S \<le> l" "2 ^ n dvd unat (at h (a + e))" "unat (at h (a + e)) = unat (at h a) + e"
proof -
  note R = heap_repD [OF heap_okD(2) [OF ok]]
  have "a + l \<le> extent (heap_layout h)" using data_blocks_bounds [OF R(6), of a l 0] b by (auto simp: live_def)
  then have bd: "unat (sm_heap_ptr h) + (a + l) < 2 ^ 32" using R(1) by linarith
  have u: "unat (at h (a + e)) = unat (sm_heap_ptr h) + (a + e)" if "e \<le> l" for e using that bd by (subst unat_at) auto
  have u0: "unat (at h a) = unat (sm_heap_ptr h) + a" using u [of 0] by simp
  have "8 dvd unat (at h a)" "unat (at h a) + 2 ^ n < 2 ^ 32" using u0 R(3) b(2) bd l by auto
  note E = align_up_eq [OF n this]
  define e where "e = unat (align_up A (at h a)) - unat (at h a)"
  have e: "unat (align_up A (at h a)) = unat (at h a) + e" "4 \<le> e" "e \<le> 2 ^ n" using E(2,3) by (auto simp: e_def)
  have "unat (at h (a + e)) = unat (align_up A (at h a))" using e u [of e] u0 l by simp
  then show thesis using e E(1) l u0 by (intro that [of e]) (simp_all add: word_unat_eq_iff)
qed

theorem rt_malloc_align_ok:
  assumes ok: "heap_ok h" and k: "heap_ready k" and n: "2 \<le> n" "unat align = 2 ^ n" and sz: "unat sz + 2 ^ n + 11 < 2 ^ 32"
    and room: "\<exists>b \<in> set (heap_layout h). \<not> snd b \<and> rounded (up4 sz + align) + 16 \<le> fst b"
  shows "\<exists>a l p k' h'. rt_malloc_align name sz align (k, h) = Some (Inr (Some p, k', h')) \<and> heap_done k k' \<and> heap_ok h' \<and>
    live h' = insert (a, l) (live h) \<and> disjoint_from (a, l) (live h) \<and> same_data (live h) h h' \<and>
    2 ^ n dvd unat p \<and> unat (at h a) < unat p \<and> unat p + unat sz \<le> unat (at h a) + l \<and>
    (\<forall>k2. heap_ready k2 \<longrightarrow> (\<exists>k3 h3. rt_free_align p (k2, h') = Some (Inr (Some (), k3, h3)) \<and> heap_done k2 k3 \<and> heap_ok h3 \<and>
       live h3 = live h \<and> same_data (live h) h h3))"
proof -
  have "4 dvd (2 :: nat) ^ n" using le_imp_power_dvd [OF n(1), of "2 :: nat"] by simp
  then have "(2 ^ n + 3) div 4 * 4 = (2 :: nat) ^ n" by presburger
  then have ua: "up4 align = align" using up4_eq [of align] sz n by (simp add: word_unat_eq_iff)
  have us: "unat (up4 sz) = (unat sz + 3) div 4 * 4" using sz by (intro up4_eq) simp
  then have sle: "unat sz \<le> unat (up4 sz)" "unat (up4 sz) \<le> unat sz + 3" by presburger+
  let ?z = "up4 sz + align"
  have uz: "unat ?z = unat (up4 sz) + 2 ^ n" using sle sz n by (simp add: unat_word_ariths)
  have z: "?z \<noteq> 0" "unat ?z + 7 < 2 ^ 32" using uz sle sz by (auto simp: unat_eq_0 [symmetric])
  obtain k' where k': "heap_done k k'" "\<And>name sz h. rt_malloc name sz (k, h) = bindO (rt_smem_alloc (self_name name k) sz h) (\<lambda>(p, h). Some (Inr (Some p, k', h)))"
    using rt_malloc_eq [OF k] that by metis
  obtain a l h1 where h1: "rt_smem_alloc (self_name name k) ?z h = Some (Inr (at h a, h1))" "at h a \<noteq> 0" "heap_ok h1" "live h1 = insert (a, l) (live h)"
    "(a, l) \<notin> live h" "disjoint_from (a, l) (live h)" "8 dvd a" "unat ?z \<le> l" "same_data (live h) h h1"
    using heap_alloc(2) [OF ok z room, of "self_name name k"] by (elim exE conjE)
  have ath: "at h1 = at h" using h1(9) by (intro same_base) (simp add: same_data_def)
  have al: "(a, l) \<in> live h1" using h1(4) by simp
  have "unat (up4 sz) + 2 ^ n \<le> l" using h1(8) uz by simp
  then obtain e where e: "align_up align (at h a) = at h (a + e)" "4 \<le> e" "e + unat (up4 sz) \<le> l" "2 ^ n dvd unat (at h (a + e))"
    "unat (at h (a + e)) = unat (at h a) + e" using aligned_place [OF h1(3) al h1(7) n] unfolding ath by metis
  let ?p = "at h (a + e)" and ?h2 = "sm_set (at h (a + e - 4)) (at h a) h1"
  have p4: "?p - 4 = at h (a + e - 4)" using e(2) by (simp add: at_def of_nat_diff)
  note R = heap_repD [OF heap_okD(2) [OF h1(3)]]
  have bd: "a + l < 2 ^ 32" using data_blocks_bounds [OF R(6), of a l 0] al R(1) by (auto simp: live_def)
  have j: "a + e - 4 < 2 ^ 32" "a + e - 4 \<in> {a ..< a + l}" using e(2,3) bd n sle uz h1(8) by auto
  have t: "touches {a + e - 4} h1 ?h2" using touches_sm_set [OF j(1), of "{a + e - 4}" h1] by (simp add: ath)
  have ok2: "heap_ok ?h2" "live ?h2 = insert (a, l) (live h)"
    using write_live [OF h1(3) al t] j(2) h1(4) by (simp_all add: sm_set_def)
  have s2: "same_data (live h) h ?h2"
    by (rule write_same [OF h1(3,9) _ h1(6) t]) (use h1(4) j(2) in auto)
  have eq: "rt_malloc_align name sz align (k, h) = Some (Inr (Some ?p, k', ?h2))"
    using h1(1,2) e(1) p4 by (simp add: rt_malloc_align_def ua k'(2) bindO_def Let_def)
  have "\<exists>k3 h3. rt_free_align ?p (k2, ?h2) = Some (Inr (Some (), k3, h3)) \<and> heap_done k2 k3 \<and> heap_ok h3 \<and> live h3 = live h \<and> same_data (live h) h h3"
    if k2: "heap_ready k2" for k2
  proof -
    obtain k3 where k3: "heap_done k2 k3" "\<And>ptr h. ptr \<noteq> 0 \<Longrightarrow> rt_free ptr (k2, h) = Some (bindR (rt_smem_free ptr h) (\<lambda>h. Inr (Some (), k3, h)))"
      using rt_free_eq [OF k2] that by metis
    have at2: "at ?h2 = at h" using touchesD(6) [OF t] ath by simp
    have "(a, l) \<in> live ?h2" using ok2(2) by simp
    then obtain h3 where h3: "rt_smem_free (at h a) ?h2 = Inr h3" "heap_ok h3" "live h3 = live ?h2 - {(a, l)}" "same_data (live h3) ?h2 h3"
      using heap_free [OF ok2(1)] unfolding at2 by blast
    have l3: "live h3 = live h" using h3(3) ok2(2) h1(5) by auto
    have "?p \<noteq> 0" using e(2,5) by auto
    moreover have "sm_mem ?h2 (?p - 4) = at h a" by (simp add: p4 sm_set_def)
    ultimately have "rt_free_align ?p (k2, ?h2) = Some (Inr (Some (), k3, h3))" using k3(2) [OF h1(2)] h3(1) by (simp add: rt_free_align_def)
    moreover have "same_data (live h) h h3" using s2 h3(4) unfolding l3 same_data_def at2 by fastforce
    ultimately show ?thesis using k3(1) h3(2) l3 by blast
  qed
  then show ?thesis using eq k'(1) ok2 h1(6) s2 e sle by (intro exI [of _ a] exI [of _ l] exI [of _ ?p] exI [of _ k'] exI [of _ ?h2]) auto
qed

text \<open>
  The sum of size and alignment wraps: a request of \<^verbatim>\<open>0xfffffffc\<close> bytes aligned to 8 allocates 4 bytes and
  returns an address in a short block.
\<close>

theorem malloc_align_wraps:
  assumes ok: "heap_ok h" and k: "heap_ready k" and room: "\<exists>b \<in> set (heap_layout h). \<not> snd b \<and> 32 \<le> fst b"
  shows "\<exists>a l p k' h'. rt_malloc_align name 0xfffffffc 8 (k, h) = Some (Inr (Some p, k', h')) \<and> p \<noteq> 0 \<and>
    live h' = insert (a, l) (live h) \<and> (a, l) \<notin> live h \<and> l < 0xfffffffc"
proof -
  have c: "up4 8 = 8" "up4 0xfffffffc + 8 = 4" by (simp_all add: up4_def)
  have r: "rounded 4 = 16" "rounded 16 = 16" by (simp_all add: rounded_def)
  obtain k' where k': "\<And>name sz h. rt_malloc name sz (k, h) = bindO (rt_smem_alloc (self_name name k) sz h) (\<lambda>(p, h). Some (Inr (Some p, k', h)))"
    using rt_malloc_eq [OF k] by metis
  obtain a l h1 where h1: "rt_smem_alloc (self_name name k) 16 h = Some (Inr (at h a, h1))" "at h a \<noteq> 0" "heap_ok h1" "live h1 = insert (a, l) (live h)"
    "(a, l) \<notin> live h" "8 dvd a" "16 \<le> l" "a + l \<le> unat (sm_mem_size_aligned h) + 16" "same_data (live h) h h1"
    using heap_alloc(2) [OF ok, where sz = 16 and self = "self_name name k"] room unfolding r by auto
  have ath: "at h1 = at h" using h1(9) by (intro same_base) (simp add: same_data_def)
  have al: "(a, l) \<in> live h1" using h1(4) by simp
  have l8: "8 + 2 ^ 3 \<le> l" using h1(7) by simp
  obtain e where e: "align_up 8 (at h a) = at h (a + e)" "4 \<le> e" "e + 8 \<le> l" "unat (at h (a + e)) = unat (at h a) + e"
    using aligned_place [OF h1(3) al h1(6) _ _ l8, where A = 8] unfolding ath by auto
  have p4: "at h (a + e) - 4 = at h (a + e - 4)" using e(2) by (simp add: at_def of_nat_diff)
  note R = heap_repD [OF heap_okD(2) [OF h1(3)]]
  have bd: "a + l < 2 ^ 32" using data_blocks_bounds [OF R(6), of a l 0] al R(1) by (auto simp: live_def)
  have j: "a + e - 4 < 2 ^ 32" "a + e - 4 \<in> {a ..< a + l}" using e(2,3) bd by auto
  have "touches {a + e - 4} h1 (sm_set (at h (a + e - 4)) (at h a) h1)" using touches_sm_set [OF j(1), of "{a + e - 4}" h1] by (simp add: ath)
  then have lv: "live (sm_set (at h (a + e - 4)) (at h a) h1) = insert (a, l) (live h)" using write_live(2) [OF h1(3) al] j(2) h1(4) by (simp add: sm_set_def)
  have eq: "rt_malloc_align name 0xfffffffc 8 (k, h) = Some (Inr (Some (at h (a + e)), k', sm_set (at h (a + e - 4)) (at h a) h1))"
    using h1(1,2) e(1) p4 rounded_same [of 4 16 "self_name name k" h] by (simp add: rt_malloc_align_def c k' bindO_def Let_def r)
  have "at h (a + e) \<noteq> 0" using e(2,4) by auto
  moreover have "l + 4 < 2 ^ 32" using h1(8) heap_repD(1,5) [OF heap_okD(2) [OF ok]] by linarith
  then have "l < 0xfffffffc" by simp
  ultimately show ?thesis using eq lv h1(5) by blast
qed

section \<open>Cleared blocks\<close>

lemma smem_clear_mem:
  assumes "a + n < 2 ^ 32"
  shows "touches {a ..< a + n} s (smem_clear (at s a) (of_nat n) s)" "j + 4 \<le> n \<Longrightarrow> sm_mem (smem_clear (at s a) (of_nat n) s) (at s (a + j)) = 0"
proof -
  have mem: "sm_mem (smem_clear (at s a) (of_nat n) s) (at s i) =
    (if a \<le> i \<and> i < a + n then sm_mem s (at s i) AND NOT (mask (8 * min 4 (unat (of_nat n - (at s i - at s a))))) else sm_mem s (at s i))" if "i < 2 ^ 32" for i
    using at_diff(1) [OF that assms, of s] by (simp add: smem_clear_def)
  show "touches {a ..< a + n} s (smem_clear (at s a) (of_nat n) s)"
    unfolding touches_def using mem by (auto simp: smem_clear_def)
  show "sm_mem (smem_clear (at s a) (of_nat n) s) (at s (a + j)) = 0" if "j + 4 \<le> n"
  proof -
    have "(of_nat n :: u32) - (at s (a + j) - at s a) = of_nat (n - j)" using that by (simp add: at_def of_nat_diff)
    moreover have "unat (of_nat (n - j) :: u32) = n - j" using assms by (intro unat_of_nat_32) simp
    ultimately have "unat (of_nat n - (at s (a + j) - at s a)) = n - j" by (simp only:)
    then have "8 * min 4 (unat (of_nat n - (at s (a + j) - at s a))) = 32" using that by simp
    moreover have "x AND NOT (mask 32) = 0" for x :: u32 by (rule bit_word_eqI) (simp add: bit_and_iff bit_not_iff bit_mask_iff)
    ultimately show ?thesis using mem [of "a + j"] that assms by (simp only:) simp
  qed
qed

theorem rt_calloc_ok:
  assumes ok: "heap_ok h" and k: "heap_ready k" and sz: "0 < unat count * unat sz" "unat count * unat sz + 7 < 2 ^ 32"
    and room: "\<exists>b \<in> set (heap_layout h). \<not> snd b \<and> rounded (count * sz) + 16 \<le> fst b"
  shows "\<exists>a l k' h'. rt_calloc name count sz (k, h) = Some (Inr (Some (at h a), k', h')) \<and> heap_done k k' \<and> heap_ok h' \<and>
    live h' = insert (a, l) (live h) \<and> disjoint_from (a, l) (live h) \<and> unat count * unat sz \<le> l \<and> same_data (live h) h h' \<and>
    (\<forall>j. j + 4 \<le> unat count * unat sz \<longrightarrow> sm_mem h' (at h (a + j)) = 0)"
proof -
  let ?n = "unat count * unat sz"
  have un: "unat (count * sz) = ?n" using sz by (simp add: unat_word_ariths)
  have z: "count * sz \<noteq> 0" "unat (count * sz) + 7 < 2 ^ 32" using un sz by (auto simp: unat_eq_0 [symmetric])
  obtain k' where k': "heap_done k k'" "\<And>name sz h. rt_malloc name sz (k, h) = bindO (rt_smem_alloc (self_name name k) sz h) (\<lambda>(p, h). Some (Inr (Some p, k', h)))"
    using rt_malloc_eq [OF k] that by metis
  obtain a l h1 where h1: "rt_smem_alloc (self_name name k) (count * sz) h = Some (Inr (at h a, h1))" "at h a \<noteq> 0" "heap_ok h1" "live h1 = insert (a, l) (live h)"
    "disjoint_from (a, l) (live h)" "unat (count * sz) \<le> l" "same_data (live h) h h1"
    using heap_alloc(2) [OF ok z room, of "self_name name k"] by (elim exE conjE)
  have ath: "at h1 = at h" using h1(7) by (intro same_base) (simp add: same_data_def)
  have al: "(a, l) \<in> live h1" using h1(4) by simp
  note R = heap_repD [OF heap_okD(2) [OF h1(3)]]
  have nl: "?n \<le> l" using h1(6) un by simp
  have bd: "a + ?n < 2 ^ 32" using data_blocks_bounds [OF R(6), of a l 0] al R(1) nl by (auto simp: live_def)
  have of: "count * sz = of_nat ?n" by simp
  let ?h2 = "smem_clear (at h a) (count * sz) h1"
  note C = smem_clear_mem [OF bd, where s = h1, unfolded ath, folded of]
  have J: "{a ..< a + ?n} \<subseteq> {a ..< a + l}" using nl by auto
  have ok2: "heap_ok ?h2" "live ?h2 = insert (a, l) (live h)"
    using write_live [OF h1(3) al C(1) J] h1(4) by (simp_all add: smem_clear_def)
  have s2: "same_data (live h) h ?h2" by (rule write_same [OF h1(3,7) _ h1(5) C(1) J]) (use h1(4) in auto)
  have "rt_calloc name count sz (k, h) = Some (Inr (Some (at h a), k', ?h2))"
    using h1(1,2) by (simp add: rt_calloc_def k'(2) bindO_def)
  then show ?thesis using k'(1) ok2 h1(5) nl s2 C(2) by (intro exI [of _ a] exI [of _ l] exI [of _ k'] exI [of _ ?h2]) simp
qed

section \<open>A heap that passes the check\<close>

lemma sint_unat:
  assumes "unat (x :: u32) < 2 ^ 31"
  shows "sint x = int (unat x)"
proof -
  have "signed_take_bit 31 (int (unat x)) = int (unat x)" using assms by (intro signed_take_bit_int_eq_self) (simp_all del: of_nat_unat)
  then show ?thesis by (simp add: sint_uint)
qed

lemma memcheck_items:
  assumes "items s p i bs" "\<forall>b \<in> set bs. 16 \<le> fst b" "sm_heap_end s = at s (i + extent bs)"
    "i + extent bs = unat (sm_mem_size_aligned s) + 16" "unat (sm_mem_size_aligned s) < 2 ^ 31" "sm_self s AND MEM_MASK = sm_self s"
  shows "memcheck_walk s (at s i) = Some True"
  using assms
proof (induction s p i bs rule: items.induct)
  case (1 s p i)
  then show ?case by (simp add: memcheck_walk.simps)
next
  case (2 s p i n u bs)
  have h: "pool_ptr s (at s i) = tag s u" "item_next s (at s i) = of_nat (i + n)" using 2(2) by (simp_all add: header_def)
  have b: "i \<le> unat (sm_mem_size_aligned s)" "i < 2 ^ 31" "i + n + extent bs < 2 ^ 32" "16 \<le> n" using 2(3,5,6) by simp_all
  have "at s i - sm_heap_ptr s = of_nat i" by (simp add: at_def)
  moreover have "sint (of_nat i :: u32) = int i" using sint_unat [of "of_nat i"] unat_of_nat_32 [of i] b(2) by (simp del: of_nat_unat)
  moreover have "sint (sm_mem_size_aligned s) = int (unat (sm_mem_size_aligned s))" using 2(6) by (rule sint_unat)
  ultimately have c: "\<not> sint (at s i - sm_heap_ptr s) < 0" "\<not> sint (at s i - sm_heap_ptr s) > sint (sm_mem_size_aligned s)" using b(1) by (simp_all del: of_nat_unat)
  have "at s i \<noteq> sm_heap_end s" unfolding 2(4) using b by (simp add: at_neq)
  moreover have "memcheck_walk s (at s (i + n)) = Some True" using 2 by (intro 2(1)) (simp_all add: add.assoc)
  moreover have "sm_heap_ptr s + item_next s (at s i) = at s (i + n)" unfolding h(2) by (simp only: at_def)
  ultimately show ?case using c pool_tag [OF h(1) 2(7)] by (subst memcheck_walk.simps) (simp add: Let_def)
qed

theorem memcheck_passes:
  assumes "\<forall>(n, s) \<in> set heaps. heap_ok s \<and> unat (sm_mem_size_aligned s) < 2 ^ 31"
  shows "memcheck nm heaps = Some True"
proof -
  have "memcheck_walk s (sm_heap_ptr s) = Some True" if "heap_ok s" "unat (sm_mem_size_aligned s) < 2 ^ 31" for s
  proof -
    note R = heap_repD [OF heap_okD(2) [OF that(1)]]
    have "heap_frame (heap_layout s) s" using heap_okD(2) [OF that(1)] by (simp add: heap_rep_def)
    then have "memcheck_walk s (at s 0) = Some True" using R(4-7) that(2) by (intro memcheck_items) (simp_all add: heap_frame_def)
    then show ?thesis by (simp add: at_def)
  qed
  then show ?thesis using assms by (induction nm heaps rule: memcheck.induct) auto
qed

section \<open>An example\<close>

definition example_heap :: rt_small_mem where "example_heap = init_heap 0x1000 1024 (\<lambda>_. 0)"

lemma example_heap_ok:
  "heap_ok example_heap" "heap_layout example_heap = [(1040, False)]" "live example_heap = {}" "unat (sm_mem_size_aligned example_heap) = 1024"
proof -
  have inv: "smem_inv [(1024 + 16, False)] example_heap" and m: "sm_mem_size_aligned example_heap = of_nat 1024"
    unfolding example_heap_def by (rule init_heap_inv; simp)+
  show "heap_ok example_heap" using heap_okI [OF inv] by simp
  show l: "heap_layout example_heap = [(1040, False)]" using heap_layout_eq [OF inv] by simp
  show "live example_heap = {}" by (simp add: live_def l)
  show "unat (sm_mem_size_aligned example_heap) = 1024" by (simp add: m)
qed

text \<open>The same heap with a block of at least \<open>n\<close> bytes in use.\<close>

lemma example_heap_block:
  assumes "0 < n" "n \<le> 1000"
  shows "\<exists>s a l. rt_smem_alloc None (of_nat n) example_heap = Some (Inr (at example_heap a, s)) \<and> at example_heap a \<noteq> 0 \<and> heap_ok s \<and>
    (a, l) \<in> live s \<and> n \<le> l"
proof -
  have u: "unat (of_nat n :: u32) = n" using assms by (intro unat_of_nat_32) simp
  have "of_nat n \<noteq> (0 :: u32)" "unat (of_nat n :: u32) + 7 < 2 ^ 32" using u assms by auto
  moreover have "rounded (of_nat n) + 16 \<le> 1040" unfolding rounded_def u using assms by simp
  ultimately show ?thesis using heap_alloc(2) [OF example_heap_ok(1), of "of_nat n" None] u unfolding example_heap_ok(2) by auto
qed

end
