(* ===== verification/Rt_Mq.thy ===== *)
theory Rt_Mq
  imports Rt_Wait Rt_Smem
begin

text \<open>
  The message queues of \<^verbatim>\<open>rt-thread-am/src/ipc.c\<close>: a pool of message blocks, each a link and a body, on two
  singly linked lists, the messages in order and the free blocks. A block is named by its address. A
  message of fewer bytes than the queue's size leaves the rest of the body as it was.
\<close>

abbreviation mq_of :: "kernel \<Rightarrow> nat \<Rightarrow> rt_messagequeue" where "mq_of k b \<equiv> o_mq (k_ipc k) b"

definition mq_receivers :: "nat \<Rightarrow> lhead" where "mq_receivers b = L_suspend (O_mq b)"
definition mq_senders :: "nat \<Rightarrow> lhead" where "mq_senders b = L_sender (O_mq b)"

definition upd_mq :: "nat \<Rightarrow> (rt_messagequeue \<Rightarrow> rt_messagequeue) \<Rightarrow> kernel \<Rightarrow> kernel" where
  "upd_mq b f k = k\<lparr>k_ipc := (k_ipc k)\<lparr>o_mq := (o_mq (k_ipc k))(b := f (mq_of k b))\<rparr>\<rparr>"

definition RT_MQ_ENTRY_MAX :: u16 where "RT_MQ_ENTRY_MAX = 0xffff"
definition sizeof_mq_message :: u32 where "sizeof_mq_message = 4"

section \<open>The two lists of blocks\<close>

definition mq_link :: "u32 \<Rightarrow> u32 option \<Rightarrow> rt_messagequeue \<Rightarrow> rt_messagequeue" where
  "mq_link a p q = q\<lparr>mq_next := (mq_next q)(a := p)\<rparr>"

definition mq_release :: "u32 \<Rightarrow> rt_messagequeue \<Rightarrow> rt_messagequeue" where
  "mq_release msg q = (mq_link msg (mq_free q) q)\<lparr>mq_free := Some msg\<rparr>"

text \<open>The loop that puts the first \<open>n\<close> blocks of the pool on the free list.\<close>

fun mq_free_blocks :: "nat \<Rightarrow> u32 \<Rightarrow> rt_messagequeue \<Rightarrow> rt_messagequeue" where
  "mq_free_blocks 0 stride q = q"
| "mq_free_blocks (Suc n) stride q = (let q = mq_free_blocks n stride q in mq_release (mq_msg_pool q + of_nat n * stride) q)"

definition mq_setup :: "u32 \<Rightarrow> rt_messagequeue \<Rightarrow> rt_messagequeue" where
  "mq_setup stride q = (mq_free_blocks (unat (mq_max_msgs q)) stride (q\<lparr>mq_head := None, mq_tail := None, mq_free := None\<rparr>))\<lparr>mq_entry := 0\<rparr>"

definition mq_append :: "u32 \<Rightarrow> rt_messagequeue \<Rightarrow> rt_messagequeue" where
  "mq_append msg q =
     (let q = (case mq_tail q of Some t \<Rightarrow> mq_link t (Some msg) q | None \<Rightarrow> q);
          q = q\<lparr>mq_tail := Some msg\<rparr>
      in if mq_head q = None then q\<lparr>mq_head := Some msg\<rparr> else q)"

definition mq_prepend :: "u32 \<Rightarrow> rt_messagequeue \<Rightarrow> rt_messagequeue" where
  "mq_prepend msg q =
     (let q = mq_link msg (mq_head q) q;
          q = q\<lparr>mq_head := Some msg\<rparr>
      in if mq_tail q = None then q\<lparr>mq_tail := Some msg\<rparr> else q)"

definition mq_unlink_first :: "u32 \<Rightarrow> rt_messagequeue \<Rightarrow> rt_messagequeue" where
  "mq_unlink_first msg q =
     (let q = q\<lparr>mq_head := mq_next q msg\<rparr> in if mq_tail q = Some msg then q\<lparr>mq_tail := None\<rparr> else q)"

definition mq_count :: "rt_messagequeue \<Rightarrow> bool \<times> rt_messagequeue" where
  "mq_count q = (if mq_entry q < RT_MQ_ENTRY_MAX then (True, q\<lparr>mq_entry := mq_entry q + 1\<rparr>) else (False, q))"

text \<open>\<^verbatim>\<open>rt_memcpy(msg + 1, buffer, size)\<close>.\<close>

definition mq_copy_in :: "u32 \<Rightarrow> u8 list \<Rightarrow> u32 \<Rightarrow> rt_messagequeue \<Rightarrow> rt_messagequeue res" where
  "mq_copy_in msg buffer sz q =
     (if length buffer < unat sz then Inl (Bad_access ''buffer'')
      else if length (mq_body q msg) < unat sz then Inl (Bad_access ''message'')
      else Inr (q\<lparr>mq_body := (mq_body q)(msg := take (unat sz) buffer @ drop (unat sz) (mq_body q msg))\<rparr>))"

definition mq_copy_out :: "u32 \<Rightarrow> u32 \<Rightarrow> rt_messagequeue \<Rightarrow> u8 list" where
  "mq_copy_out msg sz q = take (unat (if sz > ucast (mq_msg_size q) then ucast (mq_msg_size q) else sz)) (mq_body q msg)"

section \<open>Operations\<close>

definition rt_mq_init :: "nat \<Rightarrow> u32 \<Rightarrow> u32 \<Rightarrow> u32 \<Rightarrow> ipc_flag \<Rightarrow> kernel \<Rightarrow> (int \<times> kernel) res" where
  "rt_mq_init b msgpool msg_size pool_size flag k =
     (if k_list k (mq_receivers b) \<noteq> [] then Inl (Bad_access ''suspend_thread'')
      else
        let stride = RT_ALIGN msg_size RT_ALIGN_SIZE + sizeof_mq_message;
            q = (mq_of k b)\<lparr>mq_flag := flag, mq_msg_pool := msgpool, mq_msg_size := ucast msg_size, mq_max_msgs := ucast (pool_size div stride)\<rparr> in
        if stride = 0 then Inl (Bad_access ''division by zero'')
        else if mq_max_msgs q = 0 then Inr (- RT_EINVAL, upd_mq b (\<lambda>_. q) k)
        else if k_list k (mq_senders b) \<noteq> [] then Inl (Bad_access ''suspend_sender_thread'')
        else Inr (RT_EOK, upd_mq b (\<lambda>_. mq_setup stride q) k))"

text \<open>\<^verbatim>\<open>rt_mq_create\<close>: \<open>alloc\<close> is what \<^verbatim>\<open>RT_KERNEL_MALLOC\<close> returns for a size, or \<open>None\<close> for the null pointer.\<close>

definition rt_mq_create :: "nat \<Rightarrow> (u32 \<Rightarrow> u32 option) \<Rightarrow> u32 \<Rightarrow> u32 \<Rightarrow> ipc_flag \<Rightarrow> kernel \<Rightarrow> (nat option \<times> kernel) res" where
  "rt_mq_create b alloc msg_size max_msgs flag k =
     assertR (k_irq k = 0) ''shall not be used in ISR''
       (let stride = RT_ALIGN msg_size RT_ALIGN_SIZE + sizeof_mq_message;
            q = (mq_of k b)\<lparr>mq_flag := flag, mq_msg_size := ucast msg_size, mq_max_msgs := ucast max_msgs\<rparr> in
        case alloc (stride * ucast (mq_max_msgs q)) of
          None \<Rightarrow> Inr (None, k)
        | Some msgpool \<Rightarrow>
            if k_list k (mq_receivers b) \<noteq> [] \<or> k_list k (mq_senders b) \<noteq> [] then Inl (Bad_access ''suspend_thread'')
            else Inr (Some b, upd_mq b (\<lambda>_. mq_setup stride (q\<lparr>mq_msg_pool := msgpool\<rparr>)) k))"

definition mq_release_all :: "nat \<Rightarrow> kernel \<Rightarrow> kernel res option" where
  "mq_release_all b k = bindO (ipc_list_resume_all (mq_receivers b) k) (\<lambda>k. ipc_list_resume_all (mq_senders b) k)"

definition rt_mq_detach :: "nat \<Rightarrow> kernel \<Rightarrow> (int \<times> kernel) res option" where
  "rt_mq_detach b k = bindO (mq_release_all b k) (\<lambda>k. Some (Inr (RT_EOK, k)))"

definition rt_mq_delete :: "nat \<Rightarrow> kernel \<Rightarrow> (int \<times> kernel) res option" where
  "rt_mq_delete b k =
     (if k_irq k \<noteq> 0 then Some (Inl (Assert_fail ''shall not be used in ISR''))
      else bindO (mq_release_all b k) (\<lambda>k. Some (Inr (RT_EOK, k))))"

text \<open>Sending: the loop from its test on, and its way out with the block \<open>msg\<close>.\<close>

definition mq_send_put :: "nat \<Rightarrow> u32 \<Rightarrow> u8 list \<Rightarrow> u32 \<Rightarrow> kernel \<Rightarrow> (int outcome \<times> kernel) res" where
  "mq_send_put b msg buffer sz k =
     (let q = mq_of k b;
          q = q\<lparr>mq_free := mq_next q msg\<rparr>;
          q = mq_link msg None q in
      bindR (mq_copy_in msg buffer sz q) (\<lambda>q.
      let (ok, q) = mq_count (mq_append msg q);
          k = upd_mq b (\<lambda>_. q) k in
      if \<not> ok then Inr (Done (- RT_EFULL), k) else bindR (wake_first (mq_receivers b) k) (\<lambda>k. Inr (Done RT_EOK, k))))"

definition mq_send_loop :: "nat \<Rightarrow> u8 list \<Rightarrow> u32 \<Rightarrow> u32 \<Rightarrow> suspend_flag \<Rightarrow> kernel \<Rightarrow> (int outcome \<times> kernel) res" where
  "mq_send_loop b buffer sz timeout sf k =
     (case mq_free (mq_of k b) of
        None \<Rightarrow>
          (case k_current k of
             None \<Rightarrow> Inl (Bad_access ''rt_current_thread'')
           | Some t \<Rightarrow>
               let k = set_error t (- RT_EINTR) k in
               if timeout = 0 then Inr (Done (- RT_EFULL), k)
               else block_on (mq_senders b) (mq_flag (mq_of k b)) timeout sf t k)
      | Some msg \<Rightarrow> mq_send_put b msg buffer sz k)"

definition rt_mq_send_wait_flag :: "nat \<Rightarrow> u8 list \<Rightarrow> u32 \<Rightarrow> u32 \<Rightarrow> suspend_flag \<Rightarrow> kernel \<Rightarrow> (int outcome \<times> kernel) res" where
  "rt_mq_send_wait_flag b buffer sz timeout sf k =
     assertR (sz \<noteq> 0) ''size != 0''
     (assertR (timeout \<noteq> 0 \<longrightarrow> scheduler_available k) ''scheduler is not available''
       (if sz > ucast (mq_msg_size (mq_of k b)) then Inr (Done (- RT_ERROR), k)
        else if mq_free (mq_of k b) = None \<and> timeout = 0 then Inr (Done (- RT_EFULL), k)
        else mq_send_loop b buffer sz timeout sf k))"

definition rt_mq_send_end :: "nat \<Rightarrow> u8 list \<Rightarrow> u32 \<Rightarrow> u32 \<Rightarrow> u32 \<Rightarrow> suspend_flag \<Rightarrow> tid \<Rightarrow> kernel \<Rightarrow> (int outcome \<times> kernel) res" where
  "rt_mq_send_end b buffer sz timeout tick_delta sf t k =
     (if th_error (k_thread k t) \<noteq> RT_EOK then Inr (Done (th_error (k_thread k t)), k)
      else mq_send_loop b buffer sz (time_left timeout tick_delta k) sf k)"

definition rt_mq_send_wait :: "nat \<Rightarrow> u8 list \<Rightarrow> u32 \<Rightarrow> u32 \<Rightarrow> kernel \<Rightarrow> (int outcome \<times> kernel) res" where
  "rt_mq_send_wait b buffer sz timeout k = rt_mq_send_wait_flag b buffer sz timeout RT_UNINTERRUPTIBLE k"

definition rt_mq_send_wait_interruptible :: "nat \<Rightarrow> u8 list \<Rightarrow> u32 \<Rightarrow> u32 \<Rightarrow> kernel \<Rightarrow> (int outcome \<times> kernel) res" where
  "rt_mq_send_wait_interruptible b buffer sz timeout k = rt_mq_send_wait_flag b buffer sz timeout RT_INTERRUPTIBLE k"

definition rt_mq_send_wait_killable :: "nat \<Rightarrow> u8 list \<Rightarrow> u32 \<Rightarrow> u32 \<Rightarrow> kernel \<Rightarrow> (int outcome \<times> kernel) res" where
  "rt_mq_send_wait_killable b buffer sz timeout k = rt_mq_send_wait_flag b buffer sz timeout RT_KILLABLE k"

definition rt_mq_send :: "nat \<Rightarrow> u8 list \<Rightarrow> u32 \<Rightarrow> kernel \<Rightarrow> (int outcome \<times> kernel) res" where
  "rt_mq_send b buffer sz k = rt_mq_send_wait b buffer sz 0 k"

definition rt_mq_send_interrupt :: "nat \<Rightarrow> u8 list \<Rightarrow> u32 \<Rightarrow> kernel \<Rightarrow> (int outcome \<times> kernel) res" where
  "rt_mq_send_interrupt b buffer sz k = rt_mq_send_wait_interruptible b buffer sz 0 k"

definition rt_mq_send_killable :: "nat \<Rightarrow> u8 list \<Rightarrow> u32 \<Rightarrow> kernel \<Rightarrow> (int outcome \<times> kernel) res" where
  "rt_mq_send_killable b buffer sz k = rt_mq_send_wait_killable b buffer sz 0 k"

definition rt_mq_urgent :: "nat \<Rightarrow> u8 list \<Rightarrow> u32 \<Rightarrow> kernel \<Rightarrow> (int \<times> kernel) res" where
  "rt_mq_urgent b buffer sz k =
     assertR (sz \<noteq> 0) ''size != 0''
       (if sz > ucast (mq_msg_size (mq_of k b)) then Inr (- RT_ERROR, k)
        else case mq_free (mq_of k b) of
          None \<Rightarrow> Inr (- RT_EFULL, k)
        | Some msg \<Rightarrow>
            let q = mq_of k b;
                q = q\<lparr>mq_free := mq_next q msg\<rparr> in
            bindR (mq_copy_in msg buffer sz q) (\<lambda>q.
            let (ok, q) = mq_count (mq_prepend msg q);
                k = upd_mq b (\<lambda>_. q) k in
            if \<not> ok then Inr (- RT_EFULL, k) else bindR (wake_first (mq_receivers b) k) (\<lambda>k. Inr (RT_EOK, k))))"

text \<open>Receiving: the result is the error code and what is copied into the buffer.\<close>

definition mq_recv_get :: "nat \<Rightarrow> u32 \<Rightarrow> kernel \<Rightarrow> ((int \<times> u8 list option) outcome \<times> kernel) res" where
  "mq_recv_get b sz k =
     (case mq_head (mq_of k b) of
        None \<Rightarrow> Inl (Bad_access ''msg_queue_head'')
      | Some msg \<Rightarrow>
          let q = mq_unlink_first msg (mq_of k b);
              q = (if mq_entry q > 0 then q\<lparr>mq_entry := mq_entry q - 1\<rparr> else q);
              buffer = mq_copy_out msg sz q;
              q = mq_release msg q
          in bindR (wake_first (mq_senders b) (upd_mq b (\<lambda>_. q) k)) (\<lambda>k. Inr (Done (RT_EOK, Some buffer), k)))"

definition mq_recv_loop :: "nat \<Rightarrow> u32 \<Rightarrow> u32 \<Rightarrow> suspend_flag \<Rightarrow> kernel \<Rightarrow> ((int \<times> u8 list option) outcome \<times> kernel) res" where
  "mq_recv_loop b sz timeout sf k =
     (if mq_entry (mq_of k b) = 0 then
        (case k_current k of
           None \<Rightarrow> Inl (Bad_access ''rt_current_thread'')
         | Some t \<Rightarrow>
             if timeout = 0 then Inr (Done (- RT_ETIMEOUT, None), set_error t (- RT_ETIMEOUT) k)
             else bindR (block_on (mq_receivers b) (mq_flag (mq_of k b)) timeout sf t (set_error t (- RT_EINTR) k))
               (\<lambda>(r, k). Inr (no_value r, k)))
      else mq_recv_get b sz k)"

definition rt_mq_recv_flag :: "nat \<Rightarrow> u32 \<Rightarrow> u32 \<Rightarrow> suspend_flag \<Rightarrow> kernel \<Rightarrow> ((int \<times> u8 list option) outcome \<times> kernel) res" where
  "rt_mq_recv_flag b sz timeout sf k =
     assertR (sz \<noteq> 0) ''size != 0''
     (assertR (timeout \<noteq> 0 \<longrightarrow> scheduler_available k) ''scheduler is not available''
       (if mq_entry (mq_of k b) = 0 \<and> timeout = 0 then Inr (Done (- RT_ETIMEOUT, None), k)
        else mq_recv_loop b sz timeout sf k))"

definition rt_mq_recv_end :: "nat \<Rightarrow> u32 \<Rightarrow> u32 \<Rightarrow> u32 \<Rightarrow> suspend_flag \<Rightarrow> tid \<Rightarrow> kernel \<Rightarrow> ((int \<times> u8 list option) outcome \<times> kernel) res" where
  "rt_mq_recv_end b sz timeout tick_delta sf t k =
     (if th_error (k_thread k t) \<noteq> RT_EOK then Inr (Done (th_error (k_thread k t), None), k)
      else mq_recv_loop b sz (time_left timeout tick_delta k) sf k)"

definition rt_mq_recv :: "nat \<Rightarrow> u32 \<Rightarrow> u32 \<Rightarrow> kernel \<Rightarrow> ((int \<times> u8 list option) outcome \<times> kernel) res" where
  "rt_mq_recv b sz timeout k = rt_mq_recv_flag b sz timeout RT_UNINTERRUPTIBLE k"

definition rt_mq_recv_interruptible :: "nat \<Rightarrow> u32 \<Rightarrow> u32 \<Rightarrow> kernel \<Rightarrow> ((int \<times> u8 list option) outcome \<times> kernel) res" where
  "rt_mq_recv_interruptible b sz timeout k = rt_mq_recv_flag b sz timeout RT_INTERRUPTIBLE k"

definition rt_mq_recv_killable :: "nat \<Rightarrow> u32 \<Rightarrow> u32 \<Rightarrow> kernel \<Rightarrow> ((int \<times> u8 list option) outcome \<times> kernel) res" where
  "rt_mq_recv_killable b sz timeout k = rt_mq_recv_flag b sz timeout RT_KILLABLE k"

text \<open>The loop of \<^verbatim>\<open>rt_mq_control\<close> that frees the messages; \<open>None\<close> is a loop that does not end.\<close>

partial_function (option) mq_flush :: "rt_messagequeue \<Rightarrow> rt_messagequeue option" where
  "mq_flush q = (case mq_head q of None \<Rightarrow> Some q | Some msg \<Rightarrow> mq_flush (mq_release msg (mq_unlink_first msg q)))"

definition rt_mq_control :: "nat \<Rightarrow> bool \<Rightarrow> kernel \<Rightarrow> (int \<times> kernel) res option" where
  "rt_mq_control b reset k =
     (if reset then
        bindO (mq_release_all b k) (\<lambda>k.
        Option.bind (mq_flush (mq_of k b)) (\<lambda>q.
        Some (bindR (rt_schedule (upd_mq b (\<lambda>_. q\<lparr>mq_entry := 0\<rparr>) k)) (\<lambda>k. Inr (RT_EOK, k)))))
      else Some (Inr (- RT_ERROR, k)))"


section \<open>The queue as a sequence\<close>

fun chained :: "(u32 \<Rightarrow> u32 option) \<Rightarrow> u32 option \<Rightarrow> u32 list \<Rightarrow> bool" where
  "chained nx p [] \<longleftrightarrow> p = None"
| "chained nx p (a # as) \<longleftrightarrow> p = Some a \<and> chained nx (nx a) as"

fun follow :: "(u32 \<Rightarrow> u32 option) \<Rightarrow> u32 option \<Rightarrow> nat \<Rightarrow> u32 list" where
  "follow nx (Some a) (Suc n) = a # follow nx (nx a) n"
| "follow nx p n = []"

lemma follow_chained: "chained nx p as \<Longrightarrow> follow nx p (length as) = as"
  by (induction as arbitrary: p) auto

lemma chained_other [simp]: "a \<notin> set as \<Longrightarrow> chained (nx(a := x)) p as = chained nx p as"
  by (induction as arbitrary: p) auto

lemma chained_append:
  assumes "chained nx p as" "f \<notin> set as" "nx f = None" "as \<noteq> []" "distinct as"
  shows "chained (nx(last as := Some f)) p (as @ [f])"
  using assms by (induction as arbitrary: p) auto

definition mq_rep :: "rt_messagequeue \<Rightarrow> u32 list \<Rightarrow> u32 list \<Rightarrow> bool" where
  "mq_rep q ms fs \<longleftrightarrow> chained (mq_next q) (mq_head q) ms \<and> mq_tail q = (if ms = [] then None else Some (last ms)) \<and>
     chained (mq_next q) (mq_free q) fs \<and> distinct (ms @ fs) \<and> length ms = unat (mq_entry q) \<and>
     length ms + length fs = unat (mq_max_msgs q) \<and> (\<forall>a \<in> set (ms @ fs). unat (mq_msg_size q) \<le> length (mq_body q a))"

definition mq_inv :: "rt_messagequeue \<Rightarrow> bool" where "mq_inv q \<longleftrightarrow> (\<exists>ms fs. mq_rep q ms fs)"

definition mq_items :: "rt_messagequeue \<Rightarrow> u8 list list" where
  "mq_items q = map (\<lambda>a. take (unat (mq_msg_size q)) (mq_body q a)) (follow (mq_next q) (mq_head q) (unat (mq_entry q)))"

lemma mq_repD:
  assumes "mq_rep q ms fs"
  shows "chained (mq_next q) (mq_head q) ms" "mq_tail q = (if ms = [] then None else Some (last ms))" "chained (mq_next q) (mq_free q) fs"
    "distinct ms" "distinct fs" "set ms \<inter> set fs = {}" "length ms = unat (mq_entry q)" "length ms + length fs = unat (mq_max_msgs q)"
    "\<And>a. a \<in> set ms \<or> a \<in> set fs \<Longrightarrow> unat (mq_msg_size q) \<le> length (mq_body q a)"
    "mq_items q = map (\<lambda>a. take (unat (mq_msg_size q)) (mq_body q a)) ms"
  using assms follow_chained [of "mq_next q" "mq_head q" ms] by (auto simp: mq_rep_def mq_items_def)

text \<open>What the queue reads from its blocks: a full body for a message, with the tail of an older one.\<close>

definition filled :: "u8 list \<Rightarrow> u32 \<Rightarrow> u8 list \<Rightarrow> u8 list" where "filled buffer sz old = take (unat sz) buffer @ drop (unat sz) old"

lemma mq_link_simps [simp]:
  "mq_next (mq_link a p q) = (mq_next q)(a := p)" "mq_head (mq_link a p q) = mq_head q" "mq_tail (mq_link a p q) = mq_tail q"
  "mq_free (mq_link a p q) = mq_free q" "mq_entry (mq_link a p q) = mq_entry q" "mq_body (mq_link a p q) = mq_body q"
  "mq_msg_size (mq_link a p q) = mq_msg_size q" "mq_max_msgs (mq_link a p q) = mq_max_msgs q" "mq_flag (mq_link a p q) = mq_flag q"
  "mq_msg_pool (mq_link a p q) = mq_msg_pool q"
  by (simp_all add: mq_link_def)

definition mq_same :: "rt_messagequeue \<Rightarrow> rt_messagequeue \<Rightarrow> bool" where
  "mq_same q q' \<longleftrightarrow> mq_msg_size q' = mq_msg_size q \<and> mq_max_msgs q' = mq_max_msgs q \<and> mq_flag q' = mq_flag q"

text \<open>One block from the free list to the end, or to the front, of the messages.\<close>

lemma mq_append_rep:
  assumes r: "mq_rep q ms (f # fs)" and sz: "unat sz \<le> unat (mq_msg_size q)" "unat sz \<le> length buffer"
  shows "\<exists>q1. mq_copy_in f buffer sz (mq_link f None (q\<lparr>mq_free := mq_next q f\<rparr>)) = Inr q1 \<and>
    (\<exists>q2. mq_count (mq_append f q1) = (True, q2) \<and> mq_rep q2 (ms @ [f]) fs \<and> mq_same q q2 \<and>
      mq_items q2 = mq_items q @ [take (unat (mq_msg_size q)) (filled buffer sz (mq_body q f))])"
proof -
  note D = mq_repD [OF r]
  have f: "f \<notin> set ms" "f \<notin> set fs" "mq_free q = Some f" "chained (mq_next q) (mq_next q f) fs" "unat sz \<le> length (mq_body q f)"
    using D(3,5,6) D(9) [of f] sz by auto
  let ?q1 = "(mq_link f None (q\<lparr>mq_free := mq_next q f\<rparr>))\<lparr>mq_body := (mq_body q)(f := filled buffer sz (mq_body q f))\<rparr>"
  have c: "mq_copy_in f buffer sz (mq_link f None (q\<lparr>mq_free := mq_next q f\<rparr>)) = Inr ?q1"
    using sz f(5) by (simp add: mq_copy_in_def filled_def)
  have lt: "unat (mq_entry q) < unat (mq_max_msgs q)" using D(7,8) by simp
  then have mx: "mq_entry q < RT_MQ_ENTRY_MAX" and e1: "unat (mq_entry q + 1) = unat (mq_entry q) + 1"
    using unat_lt2p [of "mq_max_msgs q"] unat_plus_1 [of "mq_entry q"] by (simp_all add: RT_MQ_ENTRY_MAX_def word_less_nat_alt)
  define nx where "nx = (if ms = [] then (mq_next q)(f := None) else (mq_next q)(f := None, last ms := Some f))"
  let ?q2 = "?q1\<lparr>mq_next := nx, mq_head := (if ms = [] then Some f else mq_head q), mq_tail := Some f, mq_entry := mq_entry q + 1\<rparr>"
  have hd: "mq_head q = None \<longleftrightarrow> ms = []" using D(1) by (cases ms) auto
  have e: "mq_count (mq_append f ?q1) = (True, ?q2)"
    using D(2) hd mx by (simp add: mq_count_def mq_append_def Let_def nx_def mq_link_def)
  have fl: "unat (mq_msg_size q) \<le> length (filled buffer sz (mq_body q f))" using sz D(9) [of f] by (simp add: filled_def)
  have l1: "chained nx (mq_head ?q2) (ms @ [f])"
  proof (cases "ms = []")
    case False
    then show ?thesis unfolding nx_def using chained_append [of "(mq_next q)(f := None)" "mq_head q" ms f] D(1,4) f(1) by simp
  qed (simp add: nx_def)
  have "last ms \<notin> set fs" if "ms \<noteq> []" using D(6) last_in_set [OF that] by auto
  then have l2: "chained nx (mq_next q f) fs" using f(2,4) by (simp add: nx_def)
  have rep: "mq_rep ?q2 (ms @ [f]) fs"
    unfolding mq_rep_def using l1 l2 D(4-9) f(1,2) e1 fl by auto
  have "map (\<lambda>a. take (unat (mq_msg_size q)) (mq_body ?q2 a)) ms = mq_items q" unfolding D(10) using f(1) by (intro map_cong) auto
  then have "mq_items ?q2 = mq_items q @ [take (unat (mq_msg_size q)) (filled buffer sz (mq_body q f))]" using mq_repD(10) [OF rep] by simp
  then show ?thesis using c e rep by (intro exI [of _ ?q1] conjI exI [of _ ?q2]) (simp_all add: mq_same_def)
qed

lemma mq_prepend_rep:
  assumes r: "mq_rep q ms (f # fs)" and sz: "unat sz \<le> unat (mq_msg_size q)" "unat sz \<le> length buffer"
  shows "\<exists>q1. mq_copy_in f buffer sz (q\<lparr>mq_free := mq_next q f\<rparr>) = Inr q1 \<and>
    (\<exists>q2. mq_count (mq_prepend f q1) = (True, q2) \<and> mq_rep q2 (f # ms) fs \<and> mq_same q q2 \<and>
      mq_items q2 = take (unat (mq_msg_size q)) (filled buffer sz (mq_body q f)) # mq_items q)"
proof -
  note D = mq_repD [OF r]
  have f: "f \<notin> set ms" "f \<notin> set fs" "mq_free q = Some f" "chained (mq_next q) (mq_next q f) fs" "unat sz \<le> length (mq_body q f)"
    using D(3,5,6) D(9) [of f] sz by auto
  let ?q1 = "q\<lparr>mq_free := mq_next q f, mq_body := (mq_body q)(f := filled buffer sz (mq_body q f))\<rparr>"
  have c: "mq_copy_in f buffer sz (q\<lparr>mq_free := mq_next q f\<rparr>) = Inr ?q1"
    using sz f(5) by (simp add: mq_copy_in_def filled_def)
  have lt: "unat (mq_entry q) < unat (mq_max_msgs q)" using D(7,8) by simp
  then have mx: "mq_entry q < RT_MQ_ENTRY_MAX" and e1: "unat (mq_entry q + 1) = unat (mq_entry q) + 1"
    using unat_lt2p [of "mq_max_msgs q"] unat_plus_1 [of "mq_entry q"] by (simp_all add: RT_MQ_ENTRY_MAX_def word_less_nat_alt)
  let ?q2 = "?q1\<lparr>mq_next := (mq_next q)(f := mq_head q), mq_head := Some f, mq_tail := (if ms = [] then Some f else mq_tail q), mq_entry := mq_entry q + 1\<rparr>"
  have e: "mq_count (mq_prepend f ?q1) = (True, ?q2)"
    using D(2) mx by (simp add: mq_count_def mq_prepend_def Let_def mq_link_def)
  have fl: "unat (mq_msg_size q) \<le> length (filled buffer sz (mq_body q f))" using sz D(9) [of f] by (simp add: filled_def)
  have rep: "mq_rep ?q2 (f # ms) fs"
    unfolding mq_rep_def using D f e1 fl by auto
  have "map (\<lambda>a. take (unat (mq_msg_size q)) (mq_body ?q2 a)) ms = mq_items q" unfolding D(10) using f(1) by (intro map_cong) auto
  then have "mq_items ?q2 = take (unat (mq_msg_size q)) (filled buffer sz (mq_body q f)) # mq_items q" using mq_repD(10) [OF rep] by simp
  then show ?thesis using c e rep by (intro exI [of _ ?q1] conjI exI [of _ ?q2]) (simp_all add: mq_same_def)
qed

text \<open>The first message back to the free list.\<close>

lemma mq_take_rep:
  assumes r: "mq_rep q (m # ms) fs" and e: "e = mq_entry q - 1"
  defines "q' \<equiv> mq_release m ((mq_unlink_first m q)\<lparr>mq_entry := e\<rparr>)"
  shows "mq_rep q' ms (m # fs)" "mq_same q q'" "mq_items q' = tl (mq_items q)" "mq_body q' = mq_body q"
proof -
  note D = mq_repD [OF r]
  have m: "m \<notin> set ms" "m \<notin> set fs" "chained (mq_next q) (mq_next q m) ms" "mq_head q = Some m" using D(1,4,6) by auto
  have q': "q' = q\<lparr>mq_head := mq_next q m, mq_tail := (if ms = [] then None else mq_tail q), mq_entry := e, mq_next := (mq_next q)(m := mq_free q), mq_free := Some m\<rparr>"
    using D(2) m(1) by (auto simp: q'_def mq_release_def mq_unlink_first_def mq_link_def Let_def)
  have "mq_entry q \<noteq> 0" using D(7) by auto
  then have e1: "unat e = unat (mq_entry q) - 1" unfolding e by (rule unat_minus_1)
  show rep: "mq_rep q' ms (m # fs)"
    unfolding mq_rep_def q' using D m e1 by auto
  show "mq_same q q'" "mq_body q' = mq_body q" by (simp_all add: q' mq_same_def)
  then show "mq_items q' = tl (mq_items q)" using mq_repD(10) [OF rep] D(10) by (simp add: mq_same_def)
qed

lemma mq_flush_ends:
  assumes "chained (mq_next q) (mq_head q) ms" "mq_tail q = (if ms = [] then None else Some (last ms))" "chained (mq_next q) (mq_free q) fs" "distinct (ms @ fs)"
  shows "\<exists>q'. mq_flush q = Some q' \<and> mq_head q' = None \<and> mq_tail q' = None \<and> chained (mq_next q') (mq_free q') (rev ms @ fs) \<and>
    mq_same q q' \<and> mq_body q' = mq_body q"
  using assms
proof (induction ms arbitrary: q fs)
  case Nil
  then show ?case by (subst mq_flush.simps) (simp add: mq_same_def)
next
  case (Cons m ms)
  let ?q = "mq_release m (mq_unlink_first m q)"
  have q: "?q = q\<lparr>mq_head := mq_next q m, mq_tail := (if ms = [] then None else mq_tail q), mq_next := (mq_next q)(m := mq_free q), mq_free := Some m\<rparr>"
    using Cons.prems(2,4) by (auto simp: mq_release_def mq_unlink_first_def mq_link_def Let_def)
  have "\<exists>q'. mq_flush ?q = Some q' \<and> mq_head q' = None \<and> mq_tail q' = None \<and> chained (mq_next q') (mq_free q') (rev ms @ (m # fs)) \<and>
    mq_same ?q q' \<and> mq_body q' = mq_body ?q"
    by (rule Cons.IH) (use Cons.prems in \<open>auto simp: q fun_upd_same simp del: fun_upd_apply\<close>)
  moreover have "mq_flush q = mq_flush ?q" using Cons.prems(1) by (subst mq_flush.simps) simp
  ultimately show ?case by (auto simp: q mq_same_def)
qed

text \<open>The blocks of the pool, last first.\<close>

lemma mq_free_blocks_simps [simp]:
  "mq_msg_pool (mq_free_blocks n d q) = mq_msg_pool q" "mq_head (mq_free_blocks n d q) = mq_head q" "mq_tail (mq_free_blocks n d q) = mq_tail q"
  "mq_body (mq_free_blocks n d q) = mq_body q" "mq_same q (mq_free_blocks n d q)"
  by (induction n) (simp_all add: Let_def mq_release_def mq_same_def)

definition pool_blocks :: "u32 \<Rightarrow> nat \<Rightarrow> nat \<Rightarrow> u32 list" where
  "pool_blocks p d n = map (\<lambda>i. p + of_nat (i * d)) (rev [0 ..< n])"

lemma pool_blocks_simps [simp]: "pool_blocks p d 0 = []" "pool_blocks p d (Suc n) = (p + of_nat (n * d)) # pool_blocks p d n" "length (pool_blocks p d n) = n"
  by (simp_all add: pool_blocks_def)

lemma pool_blocks_distinct:
  assumes "unat p + n * d \<le> 2 ^ 32" "0 < d"
  shows "distinct (pool_blocks p d n)" "a \<in> set (pool_blocks p d n) \<Longrightarrow> unat p \<le> unat a \<and> unat a + d \<le> unat p + n * d"
proof -
  have u: "unat (p + of_nat (i * d)) = unat p + i * d" if "i < n" for i
  proof -
    have "i * d + d \<le> n * d" using that mult_le_mono1 [of "Suc i" n d] by simp
    then have "unat p + i * d < 2 ^ 32" using assms by linarith
    then show ?thesis by (subst unat_word_ariths) (simp add: unat_of_nat_32 del: of_nat_mult)
  qed
  show "distinct (pool_blocks p d n)"
    unfolding pool_blocks_def distinct_map
  proof (intro conjI inj_onI)
    fix i j assume "i \<in> set (rev [0 ..< n])" "j \<in> set (rev [0 ..< n])" "p + of_nat (i * d) = p + of_nat (j * d)"
    then have "unat p + i * d = unat p + j * d" using u [of i] u [of j] by auto
    then show "i = j" using assms(2) by simp
  qed simp
  show "unat p \<le> unat a \<and> unat a + d \<le> unat p + n * d" if a: "a \<in> set (pool_blocks p d n)"
  proof -
    obtain i where i: "i < n" "a = p + of_nat (i * d)" using a unfolding pool_blocks_def set_map set_rev set_upt by fastforce
    then have "i * d + d \<le> n * d" using mult_le_mono1 [of "Suc i" n d] by simp
    then show ?thesis unfolding i(2) u [OF i(1)] by simp
  qed
qed

lemma mq_free_blocks_chained:
  assumes "unat (mq_msg_pool q) + n * d \<le> 2 ^ 32" "0 < d" "mq_free q = None"
  shows "chained (mq_next (mq_free_blocks n (of_nat d) q)) (mq_free (mq_free_blocks n (of_nat d) q)) (pool_blocks (mq_msg_pool q) d n)"
  using assms
proof (induction n)
  case (Suc n)
  let ?q = "mq_free_blocks n (of_nat d) q" and ?a = "mq_msg_pool q + of_nat (n * d)"
  have "unat (mq_msg_pool q) + n * d \<le> 2 ^ 32" using Suc.prems(1) by simp
  then have l: "chained (mq_next ?q) (mq_free ?q) (pool_blocks (mq_msg_pool q) d n)" using Suc.IH Suc.prems(2,3) by simp
  have "?a \<notin> set (pool_blocks (mq_msg_pool q) d n)" using pool_blocks_distinct(1) [OF Suc.prems(1,2)] by (simp only: pool_blocks_simps distinct.simps) simp
  moreover have "mq_free_blocks (Suc n) (of_nat d) q = mq_release ?a ?q" by (simp add: Let_def)
  moreover have "chained (mq_next (mq_release ?a ?q)) (mq_free (mq_release ?a ?q)) (?a # pool_blocks (mq_msg_pool q) d n)"
    using l calculation(1) by (simp add: mq_release_def fun_upd_same del: of_nat_mult fun_upd_apply)
  ultimately show ?case by (simp only: pool_blocks_simps)
qed simp

section \<open>Initialisation\<close>

text \<open>
  A pool that holds at least one block gives an empty queue with room for as many messages as fit, all
  blocks inside the pool. \<open>block_stride\<close> is the length of a block.
\<close>

definition block_stride :: "u32 \<Rightarrow> nat" where "block_stride msg_size = (unat msg_size + 7) div 8 * 8 + 4"

lemma block_stride_eq:
  assumes "unat msg_size + 11 < 2 ^ 32"
  shows "RT_ALIGN msg_size RT_ALIGN_SIZE + sizeof_mq_message = of_nat (block_stride msg_size)" "block_stride msg_size < 2 ^ 32" "unat msg_size + 4 \<le> block_stride msg_size"
proof -
  show "RT_ALIGN msg_size RT_ALIGN_SIZE + sizeof_mq_message = of_nat (block_stride msg_size)"
    using RT_ALIGN_8 [of msg_size] assms by (simp add: block_stride_def sizeof_mq_message_def)
  have "block_stride msg_size \<le> unat msg_size + 11" by (simp add: block_stride_def)
  then show "block_stride msg_size < 2 ^ 32" using assms by simp
  show "unat msg_size + 4 \<le> block_stride msg_size" unfolding block_stride_def by presburger
qed

theorem rt_mq_init_ok:
  assumes l: "k_list k (mq_receivers b) = []" "k_list k (mq_senders b) = []"
    and sz: "unat msg_size < 2 ^ 16" "unat pool + unat pool_size \<le> 2 ^ 32" "unat pool_size div block_stride msg_size < 2 ^ 16"
    and body: "\<And>a. unat pool \<le> unat a \<Longrightarrow> unat a < unat pool + unat pool_size \<Longrightarrow> unat msg_size \<le> length (mq_body (mq_of k b) a)"
  defines "n \<equiv> unat pool_size div block_stride msg_size"
  shows "n = 0 \<Longrightarrow> \<exists>k'. rt_mq_init b pool msg_size pool_size flag k = Inr (- RT_EINVAL, k')"
    and "n \<noteq> 0 \<Longrightarrow> \<exists>k'. rt_mq_init b pool msg_size pool_size flag k = Inr (RT_EOK, k') \<and> mq_rep (mq_of k' b) [] (pool_blocks pool (block_stride msg_size) n) \<and>
      (\<forall>a \<in> set (pool_blocks pool (block_stride msg_size) n). unat pool \<le> unat a \<and> unat a + 4 + unat msg_size \<le> unat pool + unat pool_size) \<and>
      unat (mq_max_msgs (mq_of k' b)) = n \<and> unat (mq_msg_size (mq_of k' b)) = unat msg_size"
proof -
  let ?d = "block_stride msg_size"
  have "unat msg_size + 11 < 2 ^ 32" using sz(1) by simp
  note S = block_stride_eq [OF this]
  have d: "unat (of_nat ?d :: u32) = ?d" "0 < ?d" using S(2,3) unat_of_nat_32 by auto
  have d0: "(of_nat ?d :: u32) \<noteq> 0" using d by auto
  have mx: "unat (ucast (pool_size div of_nat ?d) :: u16) = n"
    using sz(3) d by (simp add: unsigned_ucast_eq take_bit_eq_mod n_def unat_div)
  have ms: "unat (ucast msg_size :: u16) = unat msg_size" using sz(1) by (simp add: unsigned_ucast_eq take_bit_eq_mod)
  let ?q = "(mq_of k b)\<lparr>mq_flag := flag, mq_msg_pool := pool, mq_msg_size := ucast msg_size, mq_max_msgs := ucast (pool_size div of_nat ?d)\<rparr>"
  show "\<exists>k'. rt_mq_init b pool msg_size pool_size flag k = Inr (- RT_EINVAL, k')" if "n = 0"
    using that mx l d0 unfolding rt_mq_init_def S(1) Let_def by (simp add: unat_eq_0)
  assume n: "n \<noteq> 0"
  then have nz: "mq_max_msgs ?q \<noteq> 0" using mx by (auto simp: unat_eq_0)
  let ?r = "?q\<lparr>mq_head := None, mq_tail := None, mq_free := None\<rparr>" and ?as = "pool_blocks pool ?d n"
  let ?q1 = "mq_setup (of_nat ?d) ?q"
  have nd: "n * ?d \<le> unat pool_size" unfolding n_def by simp
  then have nd': "unat pool + n * ?d \<le> 2 ^ 32" using sz(2) by linarith
  have c: "chained (mq_next (mq_free_blocks n (of_nat ?d) ?r)) (mq_free (mq_free_blocks n (of_nat ?d) ?r)) ?as"
    using mq_free_blocks_chained [of ?r n ?d] nd' d(2) by simp
  note P = pool_blocks_distinct [OF nd' d(2)]
  have bl: "unat pool \<le> unat a \<and> unat a + 4 + unat msg_size \<le> unat pool + unat pool_size" if "a \<in> set ?as" for a
    using P(2) [OF that] nd S(3) by linarith
  have q1: "?q1 = (mq_free_blocks n (of_nat ?d) ?r)\<lparr>mq_entry := 0\<rparr>" by (simp add: mq_setup_def mx)
  have sm: "mq_same ?r (mq_free_blocks n (of_nat ?d) ?r)" by simp
  have rep: "mq_rep ?q1 [] ?as"
    unfolding mq_rep_def q1 using c P(1) sm mx ms body bl by (fastforce simp: mq_same_def)
  have "rt_mq_init b pool msg_size pool_size flag k = Inr (RT_EOK, upd_mq b (\<lambda>_. ?q1) k)"
    unfolding rt_mq_init_def S(1) Let_def using l nz d0 by simp
  moreover have "unat (mq_max_msgs ?q1) = n" "unat (mq_msg_size ?q1) = unat msg_size" using sm mx ms by (simp_all add: q1 mq_same_def)
  ultimately show "\<exists>k'. rt_mq_init b pool msg_size pool_size flag k = Inr (RT_EOK, k') \<and> mq_rep (mq_of k' b) [] ?as \<and>
      (\<forall>a \<in> set ?as. unat pool \<le> unat a \<and> unat a + 4 + unat msg_size \<le> unat pool + unat pool_size) \<and>
      unat (mq_max_msgs (mq_of k' b)) = n \<and> unat (mq_msg_size (mq_of k' b)) = unat msg_size"
    using rep bl by (intro exI [of _ "upd_mq b (\<lambda>_. ?q1) k"]) (simp add: upd_mq_def)
qed

section \<open>Sending and receiving\<close>

lemma upd_mq_simps [simp]:
  "mq_of (upd_mq b f k) b' = (if b' = b then f (mq_of k b) else mq_of k b')" "sched_inv X (upd_mq b f k) = sched_inv X k"
  "k_thread (upd_mq b f k) = k_thread k" "k_list (upd_mq b f k) = k_list k" "k_current (upd_mq b f k) = k_current k" "k_irq (upd_mq b f k) = k_irq k"
  "k_lock (upd_mq b f k) = k_lock k" "mstat (upd_mq b f k) = mstat k" "thread_context c (upd_mq b f k) = thread_context c k"
  "k_tick (upd_mq b f k) = k_tick k"
  by (simp_all add: upd_mq_def sched_inv_def sched_parts mstat_def masked_def fun_eq_iff thread_context_def)

lemma mq_lists [simp]: "is_wait_list (mq_receivers b)" "is_wait_list (mq_senders b)" "mq_receivers b \<noteq> mq_senders b'" "mq_senders b' \<noteq> mq_receivers b"
  by (simp_all add: is_wait_list_def mq_receivers_def mq_senders_def)

lemma mq_wake:
  assumes "sched_inv {} k" "thread_context c k" "h = mq_receivers b \<or> h = mq_senders b"
  shows "\<exists>k'. wake_first h (upd_mq b (\<lambda>_. q) k) = Inr k' \<and> woken_if h (upd_mq b (\<lambda>_. q) k) k' \<and> sched_inv {} k' \<and> mq_of k' b = q"
proof -
  let ?k1 = "upd_mq b (\<lambda>_. q) k"
  obtain k' where k': "wake_first h ?k1 = Inr k'" "woken_if h ?k1 k'" using wake_first_if [of ?k1 c h] assms by auto
  then show ?thesis using woken_ifD(1,2) [OF k'(2)] assms(1) ipc_frameD(4) by auto
qed

text \<open>The message that arrives for a buffer: its bytes, and behind them what the block had.\<close>

definition arrives :: "u8 list \<Rightarrow> u32 \<Rightarrow> rt_messagequeue \<Rightarrow> u8 list \<Rightarrow> bool" where
  "arrives buffer sz q m \<longleftrightarrow> length m = unat (mq_msg_size q) \<and> take (unat sz) m = take (unat sz) buffer"

lemma filled_arrives:
  assumes "unat sz \<le> unat (mq_msg_size q)" "unat sz \<le> length buffer" "unat (mq_msg_size q) \<le> length old"
  shows "arrives buffer sz q (take (unat (mq_msg_size q)) (filled buffer sz old))"
proof -
  have "unat (mq_msg_size q) \<le> unat sz + (length old - unat sz)" using assms by linarith
  then show ?thesis using assms(1,2) by (simp add: arrives_def filled_def min_absorb1 min_absorb2)
qed

lemma room_iff:
  assumes "mq_rep q ms fs"
  shows "mq_free q = None \<longleftrightarrow> mq_entry q = mq_max_msgs q" "mq_free q = Some f \<Longrightarrow> \<exists>fs'. fs = f # fs'" "mq_head q = None \<longleftrightarrow> mq_entry q = 0"
    "length (mq_items q) = unat (mq_entry q)" "mq_entry q \<le> mq_max_msgs q"
proof -
  note D = mq_repD [OF assms]
  have "mq_free q = None \<longleftrightarrow> fs = []" using D(3) by (cases fs) auto
  then show "mq_free q = None \<longleftrightarrow> mq_entry q = mq_max_msgs q" using D(7,8) by (auto simp: word_unat_eq_iff)
  show "mq_free q = Some f \<Longrightarrow> \<exists>fs'. fs = f # fs'" using D(3) by (cases fs) auto
  have "mq_head q = None \<longleftrightarrow> ms = []" using D(1) by (cases ms) auto
  then show "mq_head q = None \<longleftrightarrow> mq_entry q = 0" using D(7) by (auto simp: unat_eq_0)
  show "length (mq_items q) = unat (mq_entry q)" using D(7,10) by simp
  show "mq_entry q \<le> mq_max_msgs q" using D(7,8) by (simp add: word_le_nat_alt)
qed

lemma size_ok: "\<not> (sz :: u32) > ucast (n :: u16) \<longleftrightarrow> unat sz \<le> unat n"
  using unat_lt2p [of n] by (simp add: word_less_nat_alt unsigned_ucast_eq take_bit_eq_mod not_less)

theorem rt_mq_send_stores:
  assumes inv: "sched_inv {} k" and c: "thread_context c k" and q: "mq_inv (mq_of k b)" and room: "mq_entry (mq_of k b) \<noteq> mq_max_msgs (mq_of k b)"
    and sz: "sz \<noteq> 0" "unat sz \<le> unat (mq_msg_size (mq_of k b))" "unat sz \<le> length buffer"
  shows "\<exists>k' k1 m. rt_mq_send_wait_flag b buffer sz timeout sf k = Inr (Done RT_EOK, k') \<and> sched_inv {} k' \<and> mq_inv (mq_of k' b) \<and> arrives buffer sz (mq_of k b) m \<and>
      mq_items (mq_of k' b) = mq_items (mq_of k b) @ [m] \<and> mq_same (mq_of k b) (mq_of k' b) \<and>
      (\<exists>q1. k1 = upd_mq b (\<lambda>_. q1) k) \<and> woken_if (mq_receivers b) k1 k'"
    and "\<exists>k' m. rt_mq_urgent b buffer sz k = Inr (RT_EOK, k') \<and> sched_inv {} k' \<and> mq_inv (mq_of k' b) \<and> arrives buffer sz (mq_of k b) m \<and>
      mq_items (mq_of k' b) = m # mq_items (mq_of k b) \<and> mq_same (mq_of k b) (mq_of k' b)"
proof -
  let ?q = "mq_of k b"
  obtain ms fs where r: "mq_rep ?q ms fs" using q by (auto simp: mq_inv_def)
  obtain f where f: "mq_free ?q = Some f" using room room_iff(1) [OF r] by auto
  then obtain fs' where "fs = f # fs'" using room_iff(2) [OF r] by blast
  then have r: "mq_rep ?q ms (f # fs')" using r by simp
  have ar: "arrives buffer sz ?q (take (unat (mq_msg_size ?q)) (filled buffer sz (mq_body ?q f)))"
    using sz(2,3) mq_repD(9) [OF r, of f] by (intro filled_arrives) auto
  have ok: "\<not> sz > ucast (mq_msg_size ?q)" using sz(2) size_ok by blast
  obtain q1 q2 where a: "mq_copy_in f buffer sz (mq_link f None (?q\<lparr>mq_free := mq_next ?q f\<rparr>)) = Inr q1" "mq_count (mq_append f q1) = (True, q2)"
    "mq_rep q2 (ms @ [f]) fs'" "mq_same ?q q2" "mq_items q2 = mq_items ?q @ [take (unat (mq_msg_size ?q)) (filled buffer sz (mq_body ?q f))]"
    using mq_append_rep [OF r sz(2,3)] by blast
  obtain k' where k': "wake_first (mq_receivers b) (upd_mq b (\<lambda>_. q2) k) = Inr k'" "woken_if (mq_receivers b) (upd_mq b (\<lambda>_. q2) k) k'" "sched_inv {} k'" "mq_of k' b = q2"
    using mq_wake [OF inv c, of "mq_receivers b" b q2] by blast
  have "rt_mq_send_wait_flag b buffer sz timeout sf k = Inr (Done RT_EOK, k')"
    using f a(1,2) k'(1) ok sz(1) context_available [OF c] by (simp add: rt_mq_send_wait_flag_def mq_send_loop_def mq_send_put_def Let_def)
  then show "\<exists>k' k1 m. rt_mq_send_wait_flag b buffer sz timeout sf k = Inr (Done RT_EOK, k') \<and> sched_inv {} k' \<and> mq_inv (mq_of k' b) \<and> arrives buffer sz ?q m \<and>
      mq_items (mq_of k' b) = mq_items ?q @ [m] \<and> mq_same ?q (mq_of k' b) \<and> (\<exists>q1. k1 = upd_mq b (\<lambda>_. q1) k) \<and> woken_if (mq_receivers b) k1 k'"
    using k'(2-4) a(3-5) ar by (auto simp: mq_inv_def)
  obtain q1 q2 where a: "mq_copy_in f buffer sz (?q\<lparr>mq_free := mq_next ?q f\<rparr>) = Inr q1" "mq_count (mq_prepend f q1) = (True, q2)"
    "mq_rep q2 (f # ms) fs'" "mq_same ?q q2" "mq_items q2 = take (unat (mq_msg_size ?q)) (filled buffer sz (mq_body ?q f)) # mq_items ?q"
    using mq_prepend_rep [OF r sz(2,3)] by blast
  obtain k' where k': "wake_first (mq_receivers b) (upd_mq b (\<lambda>_. q2) k) = Inr k'" "sched_inv {} k'" "mq_of k' b = q2"
    using mq_wake [OF inv c, of "mq_receivers b" b q2] by blast
  have "rt_mq_urgent b buffer sz k = Inr (RT_EOK, k')"
    using f a(1,2) k'(1) ok sz(1) by (simp add: rt_mq_urgent_def Let_def)
  then show "\<exists>k' m. rt_mq_urgent b buffer sz k = Inr (RT_EOK, k') \<and> sched_inv {} k' \<and> mq_inv (mq_of k' b) \<and> arrives buffer sz ?q m \<and>
      mq_items (mq_of k' b) = m # mq_items ?q \<and> mq_same ?q (mq_of k' b)"
    using k'(2,3) a(3-5) ar by (auto simp: mq_inv_def)
qed

theorem mq_recv_gets:
  assumes inv: "sched_inv {} k" and c: "thread_context c k" and q: "mq_inv (mq_of k b)" and mail: "mq_entry (mq_of k b) \<noteq> 0"
  shows "\<exists>k'. mq_recv_loop b sz timeout sf k = Inr (Done (RT_EOK, Some (take (unat sz) (hd (mq_items (mq_of k b))))), k') \<and>
    sched_inv {} k' \<and> mq_inv (mq_of k' b) \<and> mq_items (mq_of k' b) = tl (mq_items (mq_of k b)) \<and> mq_same (mq_of k b) (mq_of k' b)"
proof -
  let ?q = "mq_of k b"
  obtain ms fs where r: "mq_rep ?q ms fs" using q by (auto simp: mq_inv_def)
  obtain m where m: "mq_head ?q = Some m" using mail room_iff(3) [OF r] by auto
  then obtain ms' where "ms = m # ms'" using mq_repD(1) [OF r] by (cases ms) auto
  then have r: "mq_rep ?q (m # ms') fs" using r by simp
  let ?q2 = "mq_release m ((mq_unlink_first m ?q)\<lparr>mq_entry := mq_entry ?q - 1\<rparr>)"
  note T = mq_take_rep [OF r refl]
  have e: "mq_entry (mq_unlink_first m ?q) = mq_entry ?q" "mq_msg_size (mq_unlink_first m ?q) = mq_msg_size ?q" "mq_body (mq_unlink_first m ?q) = mq_body ?q"
    by (simp_all add: mq_unlink_first_def Let_def)
  have o: "mq_copy_out m sz ((mq_unlink_first m ?q)\<lparr>mq_entry := mq_entry ?q - 1\<rparr>) = take (unat sz) (hd (mq_items ?q))"
    using mq_repD(10) [OF r] size_ok [of "mq_msg_size ?q" sz] unat_lt2p [of "mq_msg_size ?q"] by (auto simp: mq_copy_out_def e unsigned_ucast_eq take_bit_eq_mod min_def)
  obtain k' where k': "wake_first (mq_senders b) (upd_mq b (\<lambda>_. ?q2) k) = Inr k'" "sched_inv {} k'" "mq_of k' b = ?q2"
    using mq_wake [OF inv c, of "mq_senders b" b ?q2] by blast
  have "mq_recv_loop b sz timeout sf k = Inr (Done (RT_EOK, Some (take (unat sz) (hd (mq_items ?q)))), k')"
    using mail m k'(1) o e(1) by (simp add: mq_recv_loop_def mq_recv_get_def Let_def word_gt_0)
  then show ?thesis using k'(2,3) T by (auto simp: mq_inv_def)
qed

theorem rt_mq_send_refused:
  assumes c: "thread_context c k" and sz: "sz \<noteq> 0"
  shows "unat (mq_msg_size (mq_of k b)) < unat sz \<Longrightarrow> rt_mq_send_wait_flag b buffer sz timeout sf k = Inr (Done (- RT_ERROR), k)"
    and "unat sz \<le> unat (mq_msg_size (mq_of k b)) \<Longrightarrow> mq_free (mq_of k b) = None \<Longrightarrow> rt_mq_send_wait_flag b buffer sz 0 sf k = Inr (Done (- RT_EFULL), k)"
    and "unat sz \<le> unat (mq_msg_size (mq_of k b)) \<Longrightarrow> mq_free (mq_of k b) = None \<Longrightarrow> timeout \<noteq> 0 \<Longrightarrow> can_block c timeout k \<Longrightarrow>
      \<exists>k' d. rt_mq_send_wait_flag b buffer sz timeout sf k = Inr (Blocked timeout d, k') \<and>
        waits_on (mq_senders b) (mq_flag (mq_of k b)) c (set_error c (- RT_EINTR) k) k'"
proof -
  note ok = size_ok [of "mq_msg_size (mq_of k b)" sz]
  show "unat (mq_msg_size (mq_of k b)) < unat sz \<Longrightarrow> rt_mq_send_wait_flag b buffer sz timeout sf k = Inr (Done (- RT_ERROR), k)"
    using sz ok context_available [OF c] by (auto simp: rt_mq_send_wait_flag_def assertR_def)
  assume le: "unat sz \<le> unat (mq_msg_size (mq_of k b))" and full: "mq_free (mq_of k b) = None"
  show "rt_mq_send_wait_flag b buffer sz 0 sf k = Inr (Done (- RT_EFULL), k)"
    using sz ok le full by (auto simp: rt_mq_send_wait_flag_def assertR_def)
  assume to: "timeout \<noteq> 0" and cb: "can_block c timeout k"
  have "can_block c timeout (set_error c (- RT_EINTR) k)" using cb by (simp add: can_block_def thread_context_def)
  from block_on_waits [OF this, of "mq_senders b" "mq_flag (mq_of k b)" sf]
  show "\<exists>k' d. rt_mq_send_wait_flag b buffer sz timeout sf k = Inr (Blocked timeout d, k') \<and>
      waits_on (mq_senders b) (mq_flag (mq_of k b)) c (set_error c (- RT_EINTR) k) k'"
    using full to sz ok le context_available [OF c] by (auto simp: rt_mq_send_wait_flag_def mq_send_loop_def assertR_def)
qed

theorem rt_mq_recv_empty:
  assumes c: "thread_context c k" and e: "mq_entry (mq_of k b) = 0" and sz: "sz \<noteq> 0"
  shows "rt_mq_recv_flag b sz 0 sf k = Inr (Done (- RT_ETIMEOUT, None), k)"
    and "timeout \<noteq> 0 \<Longrightarrow> can_block c timeout k \<Longrightarrow> \<exists>k' d. rt_mq_recv_flag b sz timeout sf k = Inr (Blocked timeout d, k') \<and>
      waits_on (mq_receivers b) (mq_flag (mq_of k b)) c (set_error c (- RT_EINTR) k) k'"
proof -
  show "rt_mq_recv_flag b sz 0 sf k = Inr (Done (- RT_ETIMEOUT, None), k)" using e sz by (simp add: rt_mq_recv_flag_def)
  assume to: "timeout \<noteq> 0" and cb: "can_block c timeout k"
  have "can_block c timeout (set_error c (- RT_EINTR) k)" using cb by (simp add: can_block_def thread_context_def)
  from block_on_waits [OF this, of "mq_receivers b" "mq_flag (mq_of k b)" sf]
  show "\<exists>k' d. rt_mq_recv_flag b sz timeout sf k = Inr (Blocked timeout d, k') \<and>
      waits_on (mq_receivers b) (mq_flag (mq_of k b)) c (set_error c (- RT_EINTR) k) k'"
    using e to sz context_available [OF c] by (auto simp: rt_mq_recv_flag_def mq_recv_loop_def no_value_def)
qed

text \<open>A thread that waits for a message gets the one that is sent to it, once it runs.\<close>

theorem mq_hand_off:
  assumes inv: "sched_inv {} k" and c: "thread_context c k" and q: "mq_inv (mq_of k b)" and e: "mq_entry (mq_of k b) = 0" "mq_max_msgs (mq_of k b) \<noteq> 0"
    and sz: "sz \<noteq> 0" "unat sz \<le> unat (mq_msg_size (mq_of k b))" "unat sz \<le> length buffer"
    and r: "k_list k (mq_receivers b) = r # rs" and s: "k_list k (mq_senders b) = []"
  shows "\<exists>k'. rt_mq_send_wait_flag b buffer sz timeout sf k = Inr (Done RT_EOK, k') \<and> sched_inv {} k' \<and> runs_highest k' \<and>
    mstat k' r \<in> {RT_THREAD_READY, RT_THREAD_RUNNING} \<and> k_list k' (mq_receivers b) = rs \<and>
    (\<exists>k2. rt_mq_recv_end b sz rest tick sf' r k' = Inr (Done (RT_EOK, Some (take (unat sz) buffer)), k2) \<and> mq_items (mq_of k2 b) = [])"
proof -
  have i0: "mq_items (mq_of k b) = []" using e(1) by (simp add: mq_items_def)
  obtain k1 k' q1 m where k': "rt_mq_send_wait_flag b buffer sz timeout sf k = Inr (Done RT_EOK, k')" "sched_inv {} k'" "mq_inv (mq_of k' b)"
    "arrives buffer sz (mq_of k b) m" "mq_items (mq_of k' b) = [m]" "k1 = upd_mq b (\<lambda>_. q1) k" "woken_if (mq_receivers b) k1 k'"
    using rt_mq_send_stores(1) [OF inv c q _ sz, of timeout sf] e i0 by auto
  have w: "woken (mq_receivers b) r rs k1 k'" using woken_ifD(4) [OF k'(7)] k'(6) inv r by simp
  have sk: "k_list k' (mq_senders b) = []" using woken_ifD(3) [OF k'(7), of "mq_senders b"] k'(6) inv s by simp
  let ?q = "mq_of k' b"
  obtain ms fs where rep: "mq_rep ?q ms fs" using k'(3) by (auto simp: mq_inv_def)
  have "unat (mq_entry ?q) = 1" using room_iff(4) [OF rep] k'(5) by simp
  then have ne: "mq_entry ?q \<noteq> 0" by auto
  then obtain a where a: "mq_head ?q = Some a" using room_iff(3) [OF rep] by auto
  have "length ms = 1" using mq_repD(7) [OF rep] \<open>unat (mq_entry ?q) = 1\<close> by simp
  then have "ms = [a]" using mq_repD(1) [OF rep] a by (cases ms) auto
  then have rep: "mq_rep ?q [a] fs" using rep by simp
  let ?q2 = "mq_release a ((mq_unlink_first a ?q)\<lparr>mq_entry := mq_entry ?q - 1\<rparr>)"
  have u: "mq_entry (mq_unlink_first a ?q) = mq_entry ?q" "mq_msg_size (mq_unlink_first a ?q) = mq_msg_size ?q" "mq_body (mq_unlink_first a ?q) = mq_body ?q"
    by (simp_all add: mq_unlink_first_def Let_def)
  have m: "m = take (unat (mq_msg_size ?q)) (mq_body ?q a)" using mq_repD(10) [OF rep] k'(5) by simp
  have o: "mq_copy_out a sz ((mq_unlink_first a ?q)\<lparr>mq_entry := mq_entry ?q - 1\<rparr>) = take (unat sz) m"
    using size_ok [of "mq_msg_size ?q" sz] unat_lt2p [of "mq_msg_size ?q"] by (auto simp: m mq_copy_out_def u unsigned_ucast_eq take_bit_eq_mod min_def)
  have "rt_mq_recv_end b sz rest tick sf' r k' = Inr (Done (RT_EOK, Some (take (unat sz) m)), upd_mq b (\<lambda>_. ?q2) k')"
    using w ne a o u(1) sk by (simp add: rt_mq_recv_end_def mq_recv_loop_def mq_recv_get_def wake_first_def woken_def Let_def word_gt_0)
  moreover have "take (unat sz) m = take (unat sz) buffer" using k'(4) by (simp add: arrives_def)
  moreover have "mq_items ?q2 = []" using mq_take_rep(3) [OF rep refl] k'(5) by simp
  ultimately show ?thesis using k'(1,2) w by (intro exI [of _ k']) (simp add: woken_def)
qed

text \<open>A reset ends, wakes everybody with an error and frees every message.\<close>

theorem rt_mq_reset:
  assumes inv: "sched_inv {} k" and c: "thread_context c k" and q: "mq_inv (mq_of k b)"
  shows "\<exists>k'. rt_mq_control b True k = Some (Inr (RT_EOK, k')) \<and> sched_inv {} k' \<and> mq_inv (mq_of k' b) \<and> mq_items (mq_of k' b) = [] \<and>
    mq_same (mq_of k b) (mq_of k' b) \<and> k_list k' (mq_receivers b) = [] \<and> k_list k' (mq_senders b) = [] \<and>
    (\<forall>t \<in> set (k_list k (mq_receivers b)) \<union> set (k_list k (mq_senders b)). th_error (k_thread k' t) = - RT_ERROR)"
proof -
  have cx: "k_current k = Some c" "mstat k c = RT_THREAD_RUNNING" "k_irq k = 0" using c by (auto simp: thread_context_def)
  have nc: "c \<notin> set (k_list k h)" for h by (rule running_not_waiter [OF inv cx(2)])
  obtain k1 where k1: "ipc_list_resume_all (mq_receivers b) k = Some (Inr k1)" "sched_inv {} k1" "k_list k1 (mq_receivers b) = []"
    "\<forall>t \<in> set (k_list k (mq_receivers b)). th_error (k_thread k1 t) = - RT_ERROR" "k_list k1 (mq_senders b) = k_list k (mq_senders b)"
    "k_ipc k1 = k_ipc k" "k_current k1 = Some c" "mstat k1 c = RT_THREAD_RUNNING" "k_irq k1 = 0"
    using ipc_list_resume_all_ends [OF inv mq_lists(1) cx(1,2), of b] nc cx by auto
  obtain k2 where k2: "ipc_list_resume_all (mq_senders b) k1 = Some (Inr k2)" "sched_inv {} k2" "k_list k2 (mq_senders b) = []"
    "\<forall>t \<in> set (k_list k (mq_senders b)). th_error (k_thread k2 t) = - RT_ERROR" "k_list k2 (mq_receivers b) = []"
    "\<forall>t. t \<notin> set (k_list k (mq_senders b)) \<longrightarrow> th_error (k_thread k2 t) = th_error (k_thread k1 t)"
    "k_ipc k2 = k_ipc k" "k_current k2 = Some c" "k_irq k2 = 0"
    using ipc_list_resume_all_ends [OF k1(2) mq_lists(2) k1(7,8), of b] k1 by auto
  obtain ms fs where r: "mq_rep (mq_of k b) ms fs" using q by (auto simp: mq_inv_def)
  note D = mq_repD [OF r]
  obtain q' where q': "mq_flush (mq_of k b) = Some q'" "mq_head q' = None" "mq_tail q' = None" "chained (mq_next q') (mq_free q') (rev ms @ fs)"
    "mq_same (mq_of k b) q'" "mq_body q' = mq_body (mq_of k b)"
    using mq_flush_ends [OF D(1-3)] D(4-6) by auto
  let ?q = "q'\<lparr>mq_entry := 0\<rparr>" and ?k3 = "upd_mq b (\<lambda>_. q'\<lparr>mq_entry := 0\<rparr>) k2"
  have rep: "mq_rep ?q [] (rev ms @ fs)" using q'(2-6) D(4-9) by (auto simp: mq_rep_def mq_same_def)
  have i3: "sched_inv {} ?k3" "k_current ?k3 = Some c" "k_irq ?k3 = 0" using k2(2,8,9) by simp_all
  obtain k' where k': "rt_schedule ?k3 = Inr k'" "sched_inv {} k'" using rt_schedule_correct [OF i3] by blast
  note F = sched_frameD [OF rt_schedule_frame [OF i3 k'(1)]]
  have "mq_of k' b = ?q" using ipc_frameD(4) [OF ipc_frame_sched [OF rt_schedule_frame [OF i3 k'(1)]]] by simp
  moreover have "mq_items ?q = []" by (simp add: mq_items_def)
  moreover have "mq_same (mq_of k b) ?q" using q'(5) by (simp add: mq_same_def)
  moreover have "rt_mq_control b True k = Some (Inr (RT_EOK, k'))"
    using k1(1) k2(1,7) q'(1) k'(1) by (simp add: rt_mq_control_def mq_release_all_def bindO_def)
  moreover have "k_list k' (mq_receivers b) = []" "k_list k' (mq_senders b) = []" using F k2(3,5) by (simp_all add: mq_receivers_def mq_senders_def)
  moreover have "th_error (k_thread k' t) = th_error (k_thread k2 t)" for t using F by simp
  then have "th_error (k_thread k' t) = - RT_ERROR" if "t \<in> set (k_list k (mq_receivers b)) \<union> set (k_list k (mq_senders b))" for t
    using that k1(4) k2(4,6) by (cases "t \<in> set (k_list k (mq_senders b))") auto
  ultimately show ?thesis using k'(2) rep by (intro exI [of _ k']) (auto simp: mq_inv_def)
qed

end
