(* ===== verification/Rt_Mempool.thy ===== *)
theory Rt_Mempool
  imports Rt_Mq
begin

text \<open>
  The memory pools of \<^verbatim>\<open>rt-thread-am/src/mempool.c\<close>. The first word of a block is the next free block, or its
  pool while the block is in use. A thread that finds no free block waits in front of those that
  wait already.
\<close>

abbreviation mp_of :: "kernel \<Rightarrow> nat \<Rightarrow> rt_mempool" where "mp_of k m \<equiv> o_mp (k_ipc k) m"
abbreviation block_of :: "kernel \<Rightarrow> u32 \<Rightarrow> block_word" where "block_of k \<equiv> o_block (k_ipc k)"

definition mp_waiters :: "nat \<Rightarrow> lhead" where "mp_waiters m = L_suspend (O_mp m)"

definition upd_mp :: "nat \<Rightarrow> (rt_mempool \<Rightarrow> rt_mempool) \<Rightarrow> kernel \<Rightarrow> kernel" where
  "upd_mp m f k = k\<lparr>k_ipc := (k_ipc k)\<lparr>o_mp := (o_mp (k_ipc k))(m := f (mp_of k m))\<rparr>\<rparr>"

definition set_block :: "u32 \<Rightarrow> block_word \<Rightarrow> kernel \<Rightarrow> kernel" where
  "set_block a w k = k\<lparr>k_ipc := (k_ipc k)\<lparr>o_block := (block_of k)(a := w)\<rparr>\<rparr>"

definition sizeof_ptr :: u32 where "sizeof_ptr = 4"

section \<open>Operations\<close>

fun mp_link_blocks :: "nat \<Rightarrow> u32 \<Rightarrow> u32 \<Rightarrow> kernel \<Rightarrow> kernel" where
  "mp_link_blocks 0 block_ptr stride k = k"
| "mp_link_blocks (Suc n) block_ptr stride k =
     set_block (block_ptr + of_nat n * stride) (B_next (Some (block_ptr + (of_nat n + 1) * stride))) (mp_link_blocks n block_ptr stride k)"

text \<open>With no block, the write that ends the list goes before the pool.\<close>

definition mp_setup :: "nat \<Rightarrow> kernel \<Rightarrow> kernel res" where
  "mp_setup m k =
     (let mp = mp_of k m;
          stride = mp_block_size mp + sizeof_ptr;
          n = mp_block_total_count mp;
          k = mp_link_blocks (unat n) (mp_start_address mp) stride k in
      if n = 0 then Inl (Bad_access ''block_ptr'')
      else Inr (upd_mp m (\<lambda>mp. mp\<lparr>mp_block_list := Some (mp_start_address mp)\<rparr>) (set_block (mp_start_address mp + (n - 1) * stride) (B_next None) k)))"

definition rt_mp_init :: "nat \<Rightarrow> u32 \<Rightarrow> u32 \<Rightarrow> u32 \<Rightarrow> kernel \<Rightarrow> (int \<times> kernel) res" where
  "rt_mp_init m start sz block_size k =
     assertR (start \<noteq> 0) ''start != RT_NULL''
     (assertR (sz > 0 \<and> block_size > 0) ''size > 0 && block_size > 0''
     (if k_list k (mp_waiters m) \<noteq> [] then Inl (Bad_access ''suspend_thread'')
      else
        let sz = RT_ALIGN_DOWN sz RT_ALIGN_SIZE;
            block_size = RT_ALIGN block_size RT_ALIGN_SIZE;
            n = sz div (block_size + sizeof_ptr) in
        if block_size + sizeof_ptr = 0 then Inl (Bad_access ''division by zero'') else
        bindR (mp_setup m (upd_mp m (\<lambda>mp. mp\<lparr>mp_start_address := start, mp_size := sz, mp_block_size := block_size,
          mp_block_total_count := n, mp_block_free_count := n\<rparr>) k)) (\<lambda>k. Inr (RT_EOK, k))))"

definition rt_mp_create :: "nat \<Rightarrow> (u32 \<Rightarrow> u32 option) \<Rightarrow> u32 \<Rightarrow> u32 \<Rightarrow> kernel \<Rightarrow> (nat option \<times> kernel) res" where
  "rt_mp_create m alloc block_count block_size k =
     assertR (k_irq k = 0) ''shall not be used in ISR''
     (assertR (block_count > 0 \<and> block_size > 0) ''block_count > 0 && block_size > 0''
     (let block_size = RT_ALIGN block_size RT_ALIGN_SIZE;
          sz = (block_size + sizeof_ptr) * block_count in
      case alloc sz of
        None \<Rightarrow> Inr (None, k)
      | Some start \<Rightarrow>
          if k_list k (mp_waiters m) \<noteq> [] then Inl (Bad_access ''suspend_thread'')
          else bindR (mp_setup m (upd_mp m (\<lambda>mp. mp\<lparr>mp_start_address := start, mp_size := sz, mp_block_size := block_size,
            mp_block_total_count := block_count, mp_block_free_count := block_count\<rparr>) k)) (\<lambda>k. Inr (Some m, k))))"

definition rt_mp_detach :: "nat \<Rightarrow> kernel \<Rightarrow> (int \<times> kernel) res option" where
  "rt_mp_detach m k = bindO (ipc_list_resume_all (mp_waiters m) k) (\<lambda>k. Some (Inr (RT_EOK, k)))"

definition rt_mp_delete :: "nat \<Rightarrow> kernel \<Rightarrow> (int \<times> kernel) res option" where
  "rt_mp_delete m k =
     (if k_irq k \<noteq> 0 then Some (Inl (Assert_fail ''shall not be used in ISR''))
      else bindO (ipc_list_resume_all (mp_waiters m) k) (\<lambda>k. Some (Inr (RT_EOK, k))))"

definition mp_wait :: "nat \<Rightarrow> u32 \<Rightarrow> tid \<Rightarrow> kernel \<Rightarrow> (u32 outcome \<times> kernel) res" where
  "mp_wait m time t k =
     bindR (rt_thread_suspend t (set_error t RT_EOK k)) (\<lambda>(_, k).
     bindR (tlist_insert_after (mp_waiters m) t k) (\<lambda>k.
     let before_sleep = (if sint time > 0 then rt_tick_get k else 0) in
     bindR (if sint time > 0 then start_thread_timer t time k else Inr k) (\<lambda>k.
     bindR (rt_schedule k) (\<lambda>k. Inr (Blocked time before_sleep, k)))))"

definition mp_take :: "nat \<Rightarrow> kernel \<Rightarrow> (u32 outcome \<times> kernel) res" where
  "mp_take m k =
     (let k = upd_mp m (\<lambda>mp. mp\<lparr>mp_block_free_count := mp_block_free_count mp - 1\<rparr>) k in
      case mp_block_list (mp_of k m) of
        None \<Rightarrow> Inl (Assert_fail ''block_ptr != RT_NULL'')
      | Some block_ptr \<Rightarrow>
          (case block_of k block_ptr of
             B_owner _ \<Rightarrow> Inl (Bad_access ''block_ptr'')
           | B_next p \<Rightarrow> Inr (Done (block_ptr + sizeof_ptr), set_block block_ptr (B_owner m) (upd_mp m (\<lambda>mp. mp\<lparr>mp_block_list := p\<rparr>) k))))"

definition mp_alloc_loop :: "nat \<Rightarrow> u32 \<Rightarrow> kernel \<Rightarrow> (u32 outcome \<times> kernel) res" where
  "mp_alloc_loop m time k =
     (if mp_block_free_count (mp_of k m) = 0 then
        if time = 0 then Inr (Done 0, rt_set_errno (- RT_ETIMEOUT) k)
        else assertR (k_irq k = 0) ''shall not be used in ISR''
          (case k_current k of None \<Rightarrow> Inl (Bad_access ''rt_current_thread'') | Some t \<Rightarrow> mp_wait m time t k)
      else mp_take m k)"

definition rt_mp_alloc :: "nat \<Rightarrow> u32 \<Rightarrow> kernel \<Rightarrow> (u32 outcome \<times> kernel) res" where
  "rt_mp_alloc m time k = mp_alloc_loop m time k"

definition rt_mp_alloc_end :: "nat \<Rightarrow> u32 \<Rightarrow> u32 \<Rightarrow> tid \<Rightarrow> kernel \<Rightarrow> (u32 outcome \<times> kernel) res" where
  "rt_mp_alloc_end m time before_sleep t k =
     (if th_error (k_thread k t) \<noteq> RT_EOK then Inr (Done 0, k) else mp_alloc_loop m (time_left time before_sleep k) k)"

text \<open>A block whose first word is not its pool is not in use.\<close>

definition rt_mp_free :: "u32 \<Rightarrow> kernel \<Rightarrow> kernel res" where
  "rt_mp_free block k =
     (if block = 0 then Inr k
      else let block_ptr = block - sizeof_ptr in
        case block_of k block_ptr of
          B_next _ \<Rightarrow> Inl (Bad_access ''mp'')
        | B_owner m \<Rightarrow>
            let k = upd_mp m (\<lambda>mp. mp\<lparr>mp_block_free_count := mp_block_free_count mp + 1\<rparr>) k;
                k = set_block block_ptr (B_next (mp_block_list (mp_of k m))) k;
                k = upd_mp m (\<lambda>mp. mp\<lparr>mp_block_list := Some block_ptr\<rparr>) k
            in wake_first (mp_waiters m) k)"

section \<open>The blocks of a pool\<close>

fun free_chain :: "(u32 \<Rightarrow> block_word) \<Rightarrow> u32 option \<Rightarrow> u32 list \<Rightarrow> bool" where
  "free_chain w p [] \<longleftrightarrow> p = None"
| "free_chain w p (a # as) \<longleftrightarrow> p = Some a \<and> (case w a of B_next p' \<Rightarrow> free_chain w p' as | B_owner _ \<Rightarrow> False)"

text \<open>\<open>fs\<close> are the free blocks in order, \<open>us\<close> those in use.\<close>

definition mp_rep :: "nat \<Rightarrow> kernel \<Rightarrow> u32 list \<Rightarrow> u32 set \<Rightarrow> bool" where
  "mp_rep m k fs us \<longleftrightarrow> free_chain (block_of k) (mp_block_list (mp_of k m)) fs \<and> distinct fs \<and> set fs \<inter> us = {} \<and> finite us \<and>
     (\<forall>a \<in> us. block_of k a = B_owner m) \<and> length fs = unat (mp_block_free_count (mp_of k m)) \<and>
     length fs + card us = unat (mp_block_total_count (mp_of k m))"

lemma free_chain_other [simp]: "a \<notin> set fs \<Longrightarrow> free_chain (w(a := x)) p fs = free_chain w p fs"
  by (induction fs arbitrary: p) (auto split: block_word.splits)

lemma upd_mp_simps [simp]:
  "mp_of (upd_mp m f k) m' = (if m' = m then f (mp_of k m) else mp_of k m')" "block_of (upd_mp m f k) = block_of k" "sched_inv X (upd_mp m f k) = sched_inv X k"
  "k_list (upd_mp m f k) = k_list k" "thread_context c (upd_mp m f k) = thread_context c k"
  "mp_of (set_block a w k) m' = mp_of k m'" "block_of (set_block a w k) = (block_of k)(a := w)" "sched_inv X (set_block a w k) = sched_inv X k"
  "k_list (set_block a w k) = k_list k" "thread_context c (set_block a w k) = thread_context c k"
  by (simp_all add: upd_mp_def set_block_def sched_inv_def sched_parts mstat_def masked_def fun_eq_iff thread_context_def)

theorem mp_take_ok:
  assumes r: "mp_rep m k (a # fs) us"
  shows "\<exists>k'. rt_mp_alloc m time k = Inr (Done (a + 4), k') \<and> mp_rep m k' fs (insert a us) \<and> sched_inv X k' = sched_inv X k \<and>
    (\<forall>a'. a' \<noteq> a \<longrightarrow> block_of k' a' = block_of k a') \<and> (\<forall>m'. m' \<noteq> m \<longrightarrow> mp_of k' m' = mp_of k m') \<and> block_of k' a = B_owner m"
proof -
  obtain p where p: "mp_block_list (mp_of k m) = Some a" "block_of k a = B_next p" "free_chain (block_of k) p fs"
    using r by (auto simp: mp_rep_def split: block_word.splits)
  have c: "mp_block_free_count (mp_of k m) \<noteq> 0" using r by (auto simp: mp_rep_def)
  let ?k = "set_block a (B_owner m) (upd_mp m (\<lambda>mp. mp\<lparr>mp_block_list := p\<rparr>) (upd_mp m (\<lambda>mp. mp\<lparr>mp_block_free_count := mp_block_free_count mp - 1\<rparr>) k))"
  have "rt_mp_alloc m time k = Inr (Done (a + 4), ?k)" using p c by (simp add: rt_mp_alloc_def mp_alloc_loop_def mp_take_def sizeof_ptr_def)
  moreover have "a \<notin> us" using r by (auto simp: mp_rep_def)
  then have "mp_rep m ?k fs (insert a us)" using r p c unat_minus_1 [OF c] by (auto simp: mp_rep_def)
  ultimately show ?thesis by (intro exI [of _ ?k]) simp
qed

theorem rt_mp_free_ok:
  assumes inv: "sched_inv {} k" and c: "thread_context c k" and r: "mp_rep m k fs us" and a: "a \<in> us" "a + 4 \<noteq> 0"
  shows "\<exists>k1 k'. rt_mp_free (a + 4) k = Inr k' \<and> woken_if (mp_waiters m) k1 k' \<and> mp_rep m k' (a # fs) (us - {a}) \<and> sched_inv {} k' \<and>
    k_list k1 = k_list k \<and> (\<forall>a'. a' \<noteq> a \<longrightarrow> block_of k' a' = block_of k a') \<and> (\<forall>m'. m' \<noteq> m \<longrightarrow> mp_of k' m' = mp_of k m')"
proof -
  have w: "block_of k a = B_owner m" "a \<notin> set fs" "finite us" using r a by (auto simp: mp_rep_def)
  let ?k1 = "upd_mp m (\<lambda>mp. mp\<lparr>mp_block_list := Some a\<rparr>) (set_block a (B_next (mp_block_list (mp_of k m)))
    (upd_mp m (\<lambda>mp. mp\<lparr>mp_block_free_count := mp_block_free_count mp + 1\<rparr>) k))"
  obtain k' where k': "wake_first (mp_waiters m) ?k1 = Inr k'" "woken_if (mp_waiters m) ?k1 k'"
    using wake_first_if [of ?k1 c "mp_waiters m"] inv c by (auto simp: mp_waiters_def is_wait_list_def)
  note W = woken_ifD(1,2) [OF k'(2)]
  have f: "rt_mp_free (a + 4) k = Inr k'" using w(1) a(2) k'(1) by (simp add: rt_mp_free_def sizeof_ptr_def Let_def)
  have ki: "k_ipc k' = k_ipc ?k1" "sched_inv {} k'" using W inv ipc_frameD(4) by simp_all
  have card: "card us = Suc (card (us - {a}))" using card.remove [OF w(3) a(1)] .
  have len: "length fs + card us = unat (mp_block_total_count (mp_of k m))" "length fs = unat (mp_block_free_count (mp_of k m))" using r by (simp_all add: mp_rep_def)
  then have "unat (mp_block_free_count (mp_of k m)) + 1 < 2 ^ 32" using card unat_lt2p [of "mp_block_total_count (mp_of k m)"] by simp
  then have e1: "unat (mp_block_free_count (mp_of k m) + 1) = Suc (unat (mp_block_free_count (mp_of k m)))" by (subst unat_plus_1) simp_all
  have fc: "free_chain (block_of ?k1) (mp_block_list (mp_of ?k1 m)) (a # fs)" using r w(2) by (simp add: mp_rep_def)
  have "distinct (a # fs)" "set (a # fs) \<inter> (us - {a}) = {}" "\<forall>a' \<in> us - {a}. block_of ?k1 a' = B_owner m" using r w(2) by (auto simp: mp_rep_def)
  then have "mp_rep m ?k1 (a # fs) (us - {a})" unfolding mp_rep_def using fc w(3) len card e1 by simp
  then have "mp_rep m k' (a # fs) (us - {a})" by (simp add: mp_rep_def ki(1))
  moreover have "block_of k' a' = block_of k a'" if "a' \<noteq> a" for a' using that by (simp add: ki(1))
  moreover have "mp_of k' m' = mp_of k m'" if "m' \<noteq> m" for m' using that by (simp add: ki(1))
  ultimately show ?thesis using f k'(2) ki(2) by (intro exI [of _ ?k1] exI [of _ k']) simp
qed

text \<open>Freeing the block just taken gives the kernel back as it was.\<close>

theorem mp_roundtrip:
  assumes r: "mp_rep m k (a # fs) us" and nz: "a + 4 \<noteq> 0" and w: "k_list k (mp_waiters m) = []"
  shows "\<exists>k1. rt_mp_alloc m time k = Inr (Done (a + 4), k1) \<and> rt_mp_free (a + 4) k1 = Inr k"
proof -
  obtain p where p: "mp_block_list (mp_of k m) = Some a" "block_of k a = B_next p" using r by (auto simp: mp_rep_def split: block_word.splits)
  have c: "mp_block_free_count (mp_of k m) \<noteq> 0" using r by (auto simp: mp_rep_def)
  let ?k1 = "set_block a (B_owner m) (upd_mp m (\<lambda>mp. mp\<lparr>mp_block_list := p\<rparr>) (upd_mp m (\<lambda>mp. mp\<lparr>mp_block_free_count := mp_block_free_count mp - 1\<rparr>) k))"
  have "rt_mp_alloc m time k = Inr (Done (a + 4), ?k1)" using p c by (simp add: rt_mp_alloc_def mp_alloc_loop_def mp_take_def sizeof_ptr_def)
  moreover have "rt_mp_free (a + 4) ?k1 = Inr k"
  proof -
    have b: "(block_of k)(a := B_next p) = block_of k" using p(2) by (simp add: fun_eq_iff)
    have "(mp_of k m)\<lparr>mp_block_list := mp_block_list (mp_of k m)\<rparr> = mp_of k m" by simp
    then have l: "(mp_of k m)\<lparr>mp_block_list := Some a\<rparr> = mp_of k m" by (simp only: p(1))
    show ?thesis using nz w p b by (simp add: rt_mp_free_def sizeof_ptr_def Let_def wake_first_def) (simp add: upd_mp_def set_block_def l)
  qed
  ultimately show ?thesis by blast
qed

theorem mp_alloc_none:
  assumes "mp_rep m k [] us" and "thread_context c k"
  shows "rt_mp_alloc m 0 k = Inr (Done 0, set_error c (- RT_ETIMEOUT) k)"
proof -
  have "mp_block_free_count (mp_of k m) = 0" using assms(1) by (simp add: mp_rep_def unat_eq_0)
  then show ?thesis using assms(2) by (simp add: rt_mp_alloc_def mp_alloc_loop_def rt_set_errno_def thread_context_def)
qed

section \<open>Initialisation\<close>

lemma mp_link_frame [simp]: "mp_of (mp_link_blocks n p d k) m = mp_of k m" "k_list (mp_link_blocks n p d k) = k_list k"
  "sched_inv X (mp_link_blocks n p d k) = sched_inv X k"
  by (induction n) simp_all

lemma chain_upt:
  assumes "i \<le> n" "\<And>j. j < n \<Longrightarrow> w (f j) = B_next (Some (f (Suc j)))" "w (f n) = B_next None"
  shows "free_chain w (Some (f i)) (map f [i ..< Suc n])"
  using assms(1)
proof (induction "n - i" arbitrary: i)
  case 0
  then show ?case using assms(3) by simp
next
  case (Suc d)
  then have "i < n" by simp
  moreover from this have "free_chain w (Some (f (Suc i))) (map f [Suc i ..< Suc n])" using Suc.hyps by (intro Suc.hyps(1)) simp_all
  moreover have "[i ..< Suc n] = i # [Suc i ..< Suc n]" using Suc.prems by (simp add: upt_conv_Cons)
  ultimately show ?case using assms(2) by simp
qed

lemma mp_link_words:
  assumes "unat p + n * d \<le> 2 ^ 32" "0 < d" "i < n"
  shows "block_of (mp_link_blocks n p (of_nat d) k) (p + of_nat (i * d)) = B_next (Some (p + of_nat (Suc i * d)))"
  using assms
proof (induction n)
  case (Suc n)
  have "distinct (pool_blocks p d (Suc n))" by (rule pool_blocks_distinct(1) [OF Suc.prems(1,2)])
  moreover have "p + of_nat (i * d) \<in> set (pool_blocks p d n)" if "i < n" using that by (force simp: pool_blocks_def simp del: of_nat_mult)
  ultimately have ne: "p + of_nat (i * d) \<noteq> p + of_nat (n * d)" if "i < n" using that by (auto simp del: of_nat_mult)
  have st: "mp_link_blocks (Suc n) p (of_nat d) k = set_block (p + of_nat (n * d)) (B_next (Some (p + of_nat (Suc n * d)))) (mp_link_blocks n p (of_nat d) k)"
    by (simp add: algebra_simps)
  show ?case
  proof (cases "i = n")
    case False
    then have "i < n" "unat p + n * d \<le> 2 ^ 32" using Suc.prems by auto
    then show ?thesis unfolding st using ne Suc.IH Suc.prems(2) by (simp del: of_nat_mult)
  qed (simp only: st upd_mp_simps fun_upd_same)
qed simp

lemma mp_link_chain:
  assumes "unat p + Suc n * d \<le> 2 ^ 32" "0 < d"
  shows "free_chain ((block_of (mp_link_blocks (Suc n) p (of_nat d) k))(p + of_nat (n * d) := B_next None)) (Some p) (rev (pool_blocks p d (Suc n)))"
proof -
  let ?f = "\<lambda>i. p + of_nat (i * d)" and ?w = "(block_of (mp_link_blocks (Suc n) p (of_nat d) k))(p + of_nat (n * d) := B_next None)"
  have dist: "distinct (pool_blocks p d (Suc n))" by (rule pool_blocks_distinct(1) [OF assms])
  have "?f j \<noteq> ?f n" if "j < n" for j
  proof -
    have "?f j \<in> set (pool_blocks p d n)" using that by (force simp: pool_blocks_def simp del: of_nat_mult)
    then show ?thesis using dist by (auto simp del: of_nat_mult)
  qed
  then have "?w (?f j) = B_next (Some (?f (Suc j)))" if "j < n" for j using mp_link_words [OF assms, of j k] that by (simp del: of_nat_mult mp_link_blocks.simps)
  then have "free_chain ?w (Some (?f 0)) (map ?f [0 ..< Suc n])" by (intro chain_upt) (simp_all del: of_nat_mult mp_link_blocks.simps)
  moreover have "rev (pool_blocks p d (Suc n)) = map ?f [0 ..< Suc n]" by (simp only: pool_blocks_def rev_map [symmetric] rev_rev_ident)
  ultimately show ?thesis by simp
qed

theorem rt_mp_init_ok:
  assumes w: "k_list k (mp_waiters m) = []" and st: "start \<noteq> 0" "0 < sz" "0 < block_size" and ov: "unat start + unat sz \<le> 2 ^ 32" "unat block_size + 11 < 2 ^ 32"
  defines "d \<equiv> block_stride block_size" and "n \<equiv> unat sz div 8 * 8 div block_stride block_size"
  shows "n = 0 \<Longrightarrow> rt_mp_init m start sz block_size k = Inl (Bad_access ''block_ptr'')"
    and "n \<noteq> 0 \<Longrightarrow> \<exists>k'. rt_mp_init m start sz block_size k = Inr (RT_EOK, k') \<and> mp_rep m k' (rev (pool_blocks start d n)) {} \<and>
      (\<forall>a \<in> set (pool_blocks start d n). unat start \<le> unat a \<and> unat a + 4 + unat block_size \<le> unat start + unat sz)"
proof -
  note S = block_stride_eq [OF ov(2), folded d_def]
  have bs: "RT_ALIGN block_size RT_ALIGN_SIZE + sizeof_ptr = of_nat d" using S(1) by (simp add: sizeof_ptr_def sizeof_mq_message_def)
  let ?sz = "RT_ALIGN_DOWN sz RT_ALIGN_SIZE"
  have m3: "(8 :: u32) - 1 = mask 3" by (simp add: mask_eq_exp_minus_1)
  have usz: "unat ?sz = unat sz div 8 * 8" unfolding RT_ALIGN_DOWN_def smem_consts m3 unat_and_not_mask by simp
  have ud: "unat (of_nat d :: u32) = d" "0 < d" using S(2,3) unat_of_nat_32 by auto
  have d0: "(of_nat d :: u32) \<noteq> 0" using ud by auto
  have un: "unat (?sz div of_nat d) = n" unfolding n_def unat_div usz d_def [symmetric] ud(1) ..
  let ?k0 = "upd_mp m (\<lambda>mp. mp\<lparr>mp_start_address := start, mp_size := ?sz, mp_block_size := RT_ALIGN block_size RT_ALIGN_SIZE,
          mp_block_total_count := ?sz div of_nat d, mp_block_free_count := ?sz div of_nat d\<rparr>) k"
  have i: "rt_mp_init m start sz block_size k = bindR (mp_setup m ?k0) (\<lambda>k. Inr (RT_EOK, k))"
    unfolding rt_mp_init_def Let_def bs using w st d0 by simp
  show "rt_mp_init m start sz block_size k = Inl (Bad_access ''block_ptr'')" if "n = 0"
    unfolding i using that un by (simp add: mp_setup_def Let_def unat_eq_0)
  assume n0: "n \<noteq> 0"
  then obtain n' where n': "n = Suc n'" by (cases n) auto
  have nz: "?sz div of_nat d \<noteq> 0" using un n0 by auto
  have last: "(?sz div of_nat d - 1) * of_nat d = (of_nat (n' * d) :: u32)"
  proof -
    have "?sz div of_nat d = of_nat n" using arg_cong [OF un, of "of_nat :: nat \<Rightarrow> u32"] by simp
    then show ?thesis by (simp add: n')
  qed
  have nd: "n * d \<le> unat sz"
  proof -
    have "n * d \<le> unat sz div 8 * 8" by (simp add: n_def d_def)
    also have "\<dots> \<le> unat sz" by simp
    finally show ?thesis .
  qed
  then have nd': "unat start + Suc n' * d \<le> 2 ^ 32" using ov(1) unfolding n' by linarith
  let ?k1 = "mp_link_blocks n start (of_nat d) ?k0"
  let ?k2 = "upd_mp m (\<lambda>mp. mp\<lparr>mp_block_list := Some (mp_start_address mp)\<rparr>) (set_block (start + of_nat (n' * d)) (B_next None) ?k1)"
  have e: "rt_mp_init m start sz block_size k = Inr (RT_EOK, ?k2)"
    unfolding i mp_setup_def Let_def using nz un last bs by simp
  have fc: "free_chain (block_of ?k2) (Some start) (rev (pool_blocks start d n))"
    using mp_link_chain [OF nd' ud(2), of ?k0] unfolding n' by simp
  note D = pool_blocks_distinct [OF nd' ud(2)]
  have "mp_rep m ?k2 (rev (pool_blocks start d n)) {}"
    unfolding mp_rep_def using fc D(1) un by (simp add: n')
  moreover have "unat start \<le> unat a \<and> unat a + 4 + unat block_size \<le> unat start + unat sz" if "a \<in> set (pool_blocks start d n)" for a
    using D(2) [of a] that nd S(3) unfolding n' by linarith
  ultimately show "\<exists>k'. rt_mp_init m start sz block_size k = Inr (RT_EOK, k') \<and> mp_rep m k' (rev (pool_blocks start d n)) {} \<and>
      (\<forall>a \<in> set (pool_blocks start d n). unat start \<le> unat a \<and> unat a + 4 + unat block_size \<le> unat start + unat sz)"
    using e by blast
qed

end
