(* ===== verification/Rt_System.thy ===== *)
theory Rt_System
  imports Rt_Mutex_Ops
begin

text \<open>
  The start and the end of threads: \<^verbatim>\<open>rtthread_startup\<close> of \<^verbatim>\<open>components.c\<close> from the initialisation of the timers
  on, the idle thread of \<^verbatim>\<open>idle.c\<close>, and exit, detach, delete and control of \<^verbatim>\<open>thread.c\<close>.
  A thread that ends goes to the list of defunct threads; the idle thread takes it from there and frees
  its memory. The memory of a thread is not part of the kernel state: creation takes the allocator as
  an argument, and the loop of the idle thread returns the threads whose memory it has freed.
\<close>

section \<open>Creating threads\<close>

definition rt_thread_init :: "tid \<Rightarrow> u32 \<Rightarrow> u8 \<Rightarrow> u32 \<Rightarrow> kernel \<Rightarrow> (int \<times> kernel) res" where
  "rt_thread_init t stack_start priority tick k =
     assertR (stack_start \<noteq> 0) ''stack_start != RT_NULL'' (thread_init t priority tick k)"

definition rt_thread_self :: "kernel \<Rightarrow> tid option" where "rt_thread_self k = k_current k"

text \<open>\<open>t\<close> is the object that is allocated, \<open>alloc\<close> what \<^verbatim>\<open>RT_KERNEL_MALLOC\<close> returns for a size.\<close>

definition rt_thread_create :: "tid \<Rightarrow> (u32 \<Rightarrow> u32 option) \<Rightarrow> u32 \<Rightarrow> u8 \<Rightarrow> u32 \<Rightarrow> kernel \<Rightarrow> (tid option \<times> kernel) res" where
  "rt_thread_create t alloc stack_size priority tick k =
     (case alloc stack_size of
        None \<Rightarrow> Inr (None, k)
      | Some stack_start \<Rightarrow> bindR (thread_init t priority tick k) (\<lambda>(_, k). Inr (Some t, k)))"

section \<open>Ending threads\<close>

definition rt_thread_defunct_enqueue :: "tid \<Rightarrow> kernel \<Rightarrow> kernel res" where
  "rt_thread_defunct_enqueue t k = tlist_insert_after L_defunct t k"

definition rt_thread_defunct_dequeue :: "kernel \<Rightarrow> tid option \<times> kernel" where
  "rt_thread_defunct_dequeue k = (case k_list k L_defunct of [] \<Rightarrow> (None, k) | t # _ \<Rightarrow> (Some t, tlist_remove t k))"

definition thread_exit :: "kernel \<Rightarrow> kernel res" where
  "thread_exit k =
     (case rt_thread_self k of
        None \<Rightarrow> Inl (Bad_access ''rt_current_thread'')
      | Some t \<Rightarrow>
          bindR (rt_schedule_remove_thread t k) (\<lambda>k.
          let k = snd (rt_timer_detach (Tm_thread t) k);
              k = set_stat t RT_THREAD_CLOSE k in
          bindR (rt_thread_defunct_enqueue t k) rt_schedule))"

definition rt_thread_exit :: "kernel \<Rightarrow> kernel res" where "rt_thread_exit k = thread_exit k"

text \<open>A thread that waits for a mutex leaves the queue of the mutex.\<close>

definition leave_mutex :: "tid \<Rightarrow> kernel \<Rightarrow> kernel res option" where
  "leave_mutex t k =
     (case th_pending (k_thread k t) of
        None \<Rightarrow> Some (Inr k)
      | Some m \<Rightarrow> bindO (rt_mutex_drop_thread m t k) (\<lambda>k. Some (Inr (set_pending t None k))))"

definition rt_thread_detach :: "tid \<Rightarrow> kernel \<Rightarrow> (int \<times> kernel) res option" where
  "rt_thread_detach t k =
     (if mstat k t = RT_THREAD_CLOSE then Some (Inr (RT_EOK, k))
      else
        bindO (Some (if mstat k t \<noteq> RT_THREAD_INIT then rt_schedule_remove_thread t k else Inr k)) (\<lambda>k.
        let k = snd (rt_timer_detach (Tm_thread t) k);
            k = set_stat t RT_THREAD_CLOSE k in
        bindO (leave_mutex t k) (\<lambda>k.
        bindO (Some (rt_thread_defunct_enqueue t k)) (\<lambda>k. Some (Inr (RT_EOK, k))))))"

text \<open>\<^verbatim>\<open>rt_thread_delete\<close> is the same for a thread that is not a system object.\<close>

definition rt_thread_delete :: "tid \<Rightarrow> kernel \<Rightarrow> (int \<times> kernel) res option" where
  "rt_thread_delete t k =
     (if mstat k t = RT_THREAD_CLOSE then Some (Inr (RT_EOK, k))
      else
        bindO (Some (if mstat k t \<noteq> RT_THREAD_INIT then rt_schedule_remove_thread t k else Inr k)) (\<lambda>k.
        let k = snd (rt_timer_detach (Tm_thread t) k);
            k = set_stat t RT_THREAD_CLOSE k in
        bindO (leave_mutex t k) (\<lambda>k.
        bindO (Some (rt_thread_defunct_enqueue t k)) (\<lambda>k. Some (Inr (RT_EOK, k))))))"

datatype thread_cmd = RT_THREAD_CTRL_STARTUP | RT_THREAD_CTRL_CLOSE | RT_THREAD_CTRL_CHANGE_PRIORITY u8 | RT_THREAD_CTRL_INFO

definition rt_thread_control :: "(tid \<Rightarrow> bool) \<Rightarrow> tid \<Rightarrow> thread_cmd \<Rightarrow> kernel \<Rightarrow> (int \<times> kernel) res option" where
  "rt_thread_control is_systemobject t cmd k =
     (case cmd of
        RT_THREAD_CTRL_CHANGE_PRIORITY p \<Rightarrow> Some (bindR (change_priority t p k) (\<lambda>k. Inr (RT_EOK, k)))
      | RT_THREAD_CTRL_STARTUP \<Rightarrow> Some (rt_thread_startup t k)
      | RT_THREAD_CTRL_CLOSE \<Rightarrow>
          bindO (if is_systemobject t then rt_thread_detach t k else rt_thread_delete t k) (\<lambda>(rt_err, k).
          Some (bindR (rt_schedule k) (\<lambda>k. Inr (rt_err, k))))
      | RT_THREAD_CTRL_INFO \<Rightarrow> Some (Inr (RT_EOK, k)))"

section \<open>The idle thread\<close>

text \<open>
  \<^verbatim>\<open>rt_defunct_execute\<close>: \<open>is_systemobject\<close> tells the threads that were not allocated, \<open>cleanup\<close> the cleanup
  functions of the threads; the result has the threads whose stack and object are freed, in order.
\<close>

partial_function (option) defunct_loop :: "(tid \<Rightarrow> bool) \<Rightarrow> (tid \<Rightarrow> (kernel \<Rightarrow> kernel res) option) \<Rightarrow> tid list \<Rightarrow> kernel \<Rightarrow> (tid list \<times> kernel) res option" where
  "defunct_loop is_systemobject cleanup freed k =
     (case rt_thread_defunct_dequeue k of
        (None, k) \<Rightarrow> Some (Inr (freed, k))
      | (Some t, k) \<Rightarrow>
          (case (case cleanup t of None \<Rightarrow> Inr k | Some f \<Rightarrow> f k) of
             Inl e \<Rightarrow> Some (Inl e)
           | Inr k \<Rightarrow> defunct_loop is_systemobject cleanup (if is_systemobject t then freed else freed @ [t]) k))"

definition rt_defunct_execute :: "(tid \<Rightarrow> bool) \<Rightarrow> (tid \<Rightarrow> (kernel \<Rightarrow> kernel res) option) \<Rightarrow> kernel \<Rightarrow> (tid list \<times> kernel) res option" where
  "rt_defunct_execute is_systemobject cleanup k = defunct_loop is_systemobject cleanup [] k"

text \<open>The hooks of the idle thread, an array of \<^verbatim>\<open>RT_IDLE_HOOK_LIST_SIZE\<close> function pointers.\<close>

definition RT_IDLE_HOOK_LIST_SIZE :: nat where "RT_IDLE_HOOK_LIST_SIZE = 4"
definition RT_ENOSYS :: int where "RT_ENOSYS = 6"

fun hook_replace :: "nat option \<Rightarrow> nat option \<Rightarrow> nat option list \<Rightarrow> bool \<times> nat option list" where
  "hook_replace old new [] = (False, [])"
| "hook_replace old new (h # hs) = (if h = old then (True, new # hs) else map_prod id (Cons h) (hook_replace old new hs))"

definition rt_thread_idle_sethook :: "nat \<Rightarrow> nat option list \<Rightarrow> int \<times> nat option list" where
  "rt_thread_idle_sethook hook hs = (case hook_replace None (Some hook) hs of (ok, hs) \<Rightarrow> (if ok then RT_EOK else - RT_EFULL, hs))"

definition rt_thread_idle_delhook :: "nat \<Rightarrow> nat option list \<Rightarrow> int \<times> nat option list" where
  "rt_thread_idle_delhook hook hs = (case hook_replace (Some hook) None hs of (ok, hs) \<Rightarrow> (if ok then RT_EOK else - RT_ENOSYS, hs))"

section \<open>Start-up\<close>

definition rt_system_timer_init :: "kernel \<Rightarrow> kernel" where "rt_system_timer_init k = k\<lparr>k_timers := []\<rparr>"

definition RT_TIMER_THREAD_PRIO :: u8 where "RT_TIMER_THREAD_PRIO = 4"
definition RT_MAIN_THREAD_PRIORITY :: u8 where "RT_MAIN_THREAD_PRIORITY = 10"
definition RT_MAIN_THREAD_STACK_SIZE :: u32 where "RT_MAIN_THREAD_STACK_SIZE = 2048"

definition rt_system_timer_thread_init :: "u32 \<Rightarrow> kernel \<Rightarrow> kernel res" where
  "rt_system_timer_thread_init stack k =
     bindR (rt_thread_init timer_thread stack RT_TIMER_THREAD_PRIO 10 (k\<lparr>k_soft_timers := []\<rparr>)) (\<lambda>(_, k).
     bindR (rt_thread_startup timer_thread k) (\<lambda>(_, k). Inr k))"

definition rt_thread_idle_init :: "tid \<Rightarrow> u32 \<Rightarrow> kernel \<Rightarrow> kernel res" where
  "rt_thread_idle_init idle stack k =
     bindR (rt_thread_init idle stack (of_nat RT_THREAD_PRIORITY_MAX - 1) 32 k) (\<lambda>(_, k).
     bindR (rt_thread_startup idle k) (\<lambda>(_, k). Inr k))"

definition rt_application_init :: "tid \<Rightarrow> (u32 \<Rightarrow> u32 option) \<Rightarrow> kernel \<Rightarrow> kernel res" where
  "rt_application_init main alloc k =
     bindR (rt_thread_create main alloc RT_MAIN_THREAD_STACK_SIZE RT_MAIN_THREAD_PRIORITY 20 k) (\<lambda>(tid, k).
     case tid of
       None \<Rightarrow> Inl (Assert_fail ''tid != RT_NULL'')
     | Some tid \<Rightarrow> bindR (rt_thread_startup tid k) (\<lambda>(_, k). Inr k))"

text \<open>After the initialisation of the board: \<open>main\<close>, \<open>idle\<close> are the threads, \<open>timer_stack\<close>, \<open>idle_stack\<close> the static stacks.\<close>

definition rtthread_startup :: "tid \<Rightarrow> tid \<Rightarrow> (u32 \<Rightarrow> u32 option) \<Rightarrow> u32 \<Rightarrow> u32 \<Rightarrow> kernel \<Rightarrow> kernel res" where
  "rtthread_startup main idle alloc timer_stack idle_stack k =
     (let k = rt_system_scheduler_init (rt_system_timer_init k) in
      bindR (rt_application_init main alloc k) (\<lambda>k.
      bindR (rt_system_timer_thread_init timer_stack k) (\<lambda>k.
      bindR (rt_thread_idle_init idle idle_stack k) (\<lambda>k.
      rt_system_scheduler_start k))))"

section \<open>Ending keeps the kernel well-formed\<close>

definition bury :: "tid \<Rightarrow> kernel \<Rightarrow> kernel" where
  "bury t k = k\<lparr>k_list := list_insert_after L_defunct t (k_list k), k_linked := (k_linked k)(t := True)\<rparr>"

lemma defunct_enqueue_eq: "\<not> k_linked k t \<Longrightarrow> rt_thread_defunct_enqueue t k = Inr (bury t k)"
  by (simp add: rt_thread_defunct_enqueue_def tlist_insert_after_def bury_def)

lemma bury_simps [simp]:
  "k_thread (bury t k) = k_thread k" "k_current (bury t k) = k_current k" "k_lock (bury t k) = k_lock k" "k_irq (bury t k) = k_irq k"
  "mstat (bury t k) = mstat k" "k_list (bury t k) = list_insert_after L_defunct t (k_list k)" "k_timers (bury t k) = k_timers k"
  "k_soft_timers (bury t k) = k_soft_timers k" "k_mutex (bury t k) = k_mutex k" "k_taken (bury t k) = k_taken k"
  by (simp_all add: bury_def mstat_def fun_eq_iff)

lemma bury_inv:
  assumes inv: "sched_inv {} k" and l: "\<not> k_linked k t" and s: "mstat k t = RT_THREAD_CLOSE"
  shows "sched_inv {} (bury t k)"
proof -
  note D = sched_invD [OF inv]
  have np: "\<not> placed (k_list k) t" using l linked_iff [OF inv] by simp
  have set_b: "set (k_list (bury t k) h) = (if h = L_defunct then insert t (set (k_list k h)) else set (k_list k h))" for h
    by (simp add: list_insert_after_def)
  have pl: "placed (k_list (bury t k)) u \<longleftrightarrow> placed (k_list k) u \<or> u = t" for u
    unfolding placed_def set_b by (metis insert_iff)
  have "lists_ok (k_list (bury t k))" using D(2) np unfolding bury_simps by (intro lists_ok_insert_after) (simp_all add: links_ok_def)
  then have "links_ok {} (bury t k)" using D(2) pl by (auto simp: links_ok_def bury_def)
  moreover have "bitmap_ok (bury t k)" using D(1) by (auto simp: bitmap_ok_def bury_def list_insert_after_def)
  moreover have "ready_ok {} (bury t k)" using D(3) unfolding ready_ok_def set_b by simp
  moreover have "wait_ok (bury t k)" using D(4) s unfolding wait_ok_def set_b by auto
  moreover have "running_ok {} (bury t k)" "prio_ok {} (bury t k)" using D(5,6) by (simp_all add: running_ok_def prio_ok_def masked_def)
  ultimately show ?thesis by (simp add: sched_inv_def)
qed

definition laid_off :: "tid \<Rightarrow> kernel \<Rightarrow> kernel" where
  "laid_off t k = set_stat t RT_THREAD_CLOSE (snd (rt_timer_detach (Tm_thread t) (if mstat k t = RT_THREAD_INIT then k else drop_thread t k)))"

definition closed_down :: "tid \<Rightarrow> kernel \<Rightarrow> kernel" where "closed_down t k = bury t (laid_off t k)"

lemma close_stat: "RT_THREAD_CLOSE AND RT_THREAD_STAT_MASK = RT_THREAD_CLOSE"
  by (simp add: stat_defs)

lemma drop_thread_frame:
  "k_timers (drop_thread t k) = k_timers k" "k_soft_timers (drop_thread t k) = k_soft_timers k" "k_mutex (drop_thread t k) = k_mutex k"
  "k_taken (drop_thread t k) = k_taken k" "k_sem (drop_thread t k) = k_sem k" "k_ipc (drop_thread t k) = k_ipc k"
  by (simp_all add: drop_thread_def)

lemma laid_off_simps [simp]:
  "mstat (laid_off t k) u = (if u = t then RT_THREAD_CLOSE else mstat k u)" "k_current (laid_off t k) = k_current k"
  "k_lock (laid_off t k) = k_lock k" "k_irq (laid_off t k) = k_irq k" "k_mutex (laid_off t k) = k_mutex k" "k_taken (laid_off t k) = k_taken k"
  "k_timers (laid_off t k) = removeAll (Tm_thread t) (k_timers k)" "k_soft_timers (laid_off t k) = removeAll (Tm_thread t) (k_soft_timers k)"
  "k_thread (laid_off t k) = (k_thread k)(t := (k_thread k t)\<lparr>th_stat := RT_THREAD_CLOSE\<rparr>)"
  by (simp_all add: laid_off_def rt_timer_detach_def close_stat set_stat_def drop_thread_frame timer_remove_def deactivate_def upd_timer_def mstat_def)

lemma laid_off_list: "k_list (laid_off t k) = (if mstat k t = RT_THREAD_INIT then k_list k else list_remove t (k_list k))"
  by (simp add: laid_off_def rt_timer_detach_def)

lemma laid_off_inv:
  assumes inv: "sched_inv {} k" and s: "mstat k t \<noteq> RT_THREAD_CLOSE"
  shows "sched_inv {} (laid_off t k)" and "\<not> k_linked (laid_off t k) t"
proof -
  let ?d = "\<lambda>k. snd (rt_timer_detach (Tm_thread t) k)"
  have f: "sched_inv X (?d k) = sched_inv X k" for X k by (simp add: rt_timer_detach_def)
  have "sched_inv {} (laid_off t k) \<and> \<not> k_linked (laid_off t k) t"
  proof (cases "mstat k t = RT_THREAD_INIT")
    case True
    have np: "\<not> placed (k_list k) t" by (rule init_free [OF inv True])
    note D = sched_invD [OF inv]
    have "bitmap_ok (laid_off t k)" "links_ok {} (laid_off t k)"
      using D(1,2) True by (simp_all add: laid_off_def rt_timer_detach_def bitmap_ok_def links_ok_def)
    moreover have "ready_ok {} (laid_off t k)"
      using D(3) True np by (auto simp: laid_off_def rt_timer_detach_def ready_ok_def close_stat placed_def)
    moreover have "wait_ok (laid_off t k)" using D(4) True np by (auto simp: laid_off_def rt_timer_detach_def wait_ok_def close_stat placed_def)
    moreover have "running_ok {} (laid_off t k)" "prio_ok {} (laid_off t k)"
      using D(5,6) True by (auto simp: laid_off_def rt_timer_detach_def running_ok_def prio_ok_def close_stat)
    ultimately show ?thesis using np linked_iff [OF inv, of t] True by (simp add: sched_inv_def laid_off_def rt_timer_detach_def)
  next
    case False
    then have "sched_inv {t} (drop_thread t k)" using s by (intro drop_thread_inv [OF inv] stat_masked [OF inv]) auto
    then have "sched_inv {} (laid_off t k)"
      unfolding laid_off_def using False f by (intro park_inv) (simp_all add: close_stat)
    then show ?thesis using False by (simp add: laid_off_def rt_timer_detach_def)
  qed
  then show "sched_inv {} (laid_off t k)" "\<not> k_linked (laid_off t k) t" by blast+
qed

lemma closed_down_inv:
  assumes "sched_inv {} k" "mstat k t \<noteq> RT_THREAD_CLOSE"
  shows "sched_inv {} (closed_down t k)"
  unfolding closed_down_def using laid_off_inv [OF assms] by (intro bury_inv) simp_all

lemma closed_defunct:
  assumes "sched_inv {} k" "mstat k t \<noteq> RT_THREAD_CLOSE"
  shows "k_list (closed_down t k) L_defunct = t # k_list k L_defunct"
proof -
  have "t \<notin> set (k_list k L_defunct)" using defunct_stat [OF assms(1), of t] assms(2) by auto
  then show ?thesis by (simp add: closed_down_def laid_off_list list_insert_after_def list_remove_def)
qed

lemma closed_others:
  assumes "sched_inv {} k" "h \<noteq> L_defunct"
  shows "k_list (closed_down t k) h = removeAll t (k_list k h)"
proof -
  have "t \<notin> set (k_list k h)" if "mstat k t = RT_THREAD_INIT" using init_free [OF assms(1) that] by (auto simp: placed_def)
  then show ?thesis using assms(2) by (auto simp: closed_down_def laid_off_list list_insert_after_def list_remove_def)
qed

lemma detach_eq:
  assumes "sched_inv {} k" "mstat k t \<noteq> RT_THREAD_CLOSE"
  shows "rt_thread_detach t k = bindO (leave_mutex t (laid_off t k)) (\<lambda>k. bindO (Some (rt_thread_defunct_enqueue t k)) (\<lambda>k. Some (Inr (RT_EOK, k))))"
    "rt_thread_delete t k = rt_thread_detach t k"
proof -
  have "rt_schedule_remove_thread t k = Inr (drop_thread t k)" using prio_range [OF assms(1)] by (intro remove_thread_eq) simp
  moreover have "bindO (Some (Inr x)) g = g x" for x :: kernel and g :: "kernel \<Rightarrow> (int \<times> kernel) res option" by (simp add: bindO_def)
  ultimately show "rt_thread_detach t k = bindO (leave_mutex t (laid_off t k)) (\<lambda>k. bindO (Some (rt_thread_defunct_enqueue t k)) (\<lambda>k. Some (Inr (RT_EOK, k))))"
    using assms(2) by (cases "mstat k t = RT_THREAD_INIT") (simp_all add: rt_thread_detach_def laid_off_def Let_def)
qed (simp add: rt_thread_detach_def rt_thread_delete_def)

text \<open>Detaching or deleting a thread that does not wait for a mutex.\<close>

theorem rt_thread_detach_closes:
  assumes inv: "sched_inv {} k" and s: "mstat k t \<noteq> RT_THREAD_CLOSE" and p: "th_pending (k_thread k t) = None"
  shows "rt_thread_detach t k = Some (Inr (RT_EOK, closed_down t k))" "rt_thread_delete t k = Some (Inr (RT_EOK, closed_down t k))"
proof -
  have "rt_thread_defunct_enqueue t (laid_off t k) = Inr (closed_down t k)"
    using laid_off_inv [OF inv s] by (simp add: defunct_enqueue_eq closed_down_def)
  moreover have "leave_mutex t (laid_off t k) = Some (Inr (laid_off t k))" using p by (simp add: leave_mutex_def)
  ultimately show "rt_thread_detach t k = Some (Inr (RT_EOK, closed_down t k))" "rt_thread_delete t k = Some (Inr (RT_EOK, closed_down t k))"
    by (simp_all add: detach_eq [OF inv s] bindO_def)
qed

text \<open>A thread whose wait for a mutex has timed out still has the mutex as its pending object. When the mutex
  has no owner any more, ending the thread reads through a null pointer.\<close>

theorem stale_pending_mutex:
  assumes "sched_inv {} k" "mstat k t \<noteq> RT_THREAD_CLOSE" "th_pending (k_thread k t) = Some m" "mx_owner (k_mutex k m) = None"
  shows "rt_thread_detach t k = Some (Inl (Bad_access ''mutex->owner''))"
  using assms(3,4) by (simp add: detach_eq [OF assms(1,2)] leave_mutex_def rt_mutex_drop_thread_def bindO_def)

text \<open>A thread that exits is never chosen again, and its mutexes stay with it.\<close>

theorem thread_exit_closes:
  assumes inv: "sched_inv {} k" and c: "k_current k = Some c" "mstat k c = RT_THREAD_RUNNING" "k_irq k = 0" "k_lock k = 0"
    and other: "mstat k u = RT_THREAD_READY"
  shows "\<exists>k'. rt_thread_exit k = Inr k' \<and> sched_inv {} k' \<and> runs_highest k' \<and> k_current k' \<noteq> Some c \<and>
    mstat k' c = RT_THREAD_CLOSE \<and> k_list k' L_defunct = c # k_list k L_defunct \<and> k_mutex k' = k_mutex k \<and> k_taken k' = k_taken k \<and>
    Tm_thread c \<notin> set (k_timers k') \<and> (\<forall>q. k_list k' (L_suspend q) = k_list k (L_suspend q))"
proof -
  have nc: "mstat k c \<noteq> RT_THREAD_CLOSE" "mstat k c \<noteq> RT_THREAD_INIT" using c(2) by simp_all
  have "rt_schedule_remove_thread c k = Inr (drop_thread c k)" using prio_range [OF inv] by (intro remove_thread_eq) simp
  moreover have "rt_thread_defunct_enqueue c (laid_off c k) = Inr (closed_down c k)"
    using laid_off_inv [OF inv nc(1)] by (simp add: defunct_enqueue_eq closed_down_def)
  ultimately have e: "rt_thread_exit k = rt_schedule (closed_down c k)"
    using c(1) nc(2) by (simp add: rt_thread_exit_def thread_exit_def rt_thread_self_def laid_off_def Let_def)
  have uc: "u \<noteq> c" using other c(2) by auto
  have i1: "sched_inv {} (closed_down c k)" by (rule closed_down_inv [OF inv nc(1)])
  have s1: "k_current (closed_down c k) = Some c" "k_irq (closed_down c k) = 0" "k_lock (closed_down c k) = 0" "mstat (closed_down c k) u = RT_THREAD_READY"
    "mstat (closed_down c k) c = RT_THREAD_CLOSE" using c other uc by (simp_all add: closed_down_def)
  obtain k' where k': "rt_schedule (closed_down c k) = Inr k'" "sched_inv {} k'" "runs_highest k'"
    using rt_schedule_correct [OF i1 s1(1,2)] s1(3,4) by auto
  note fr = sched_frameD [OF rt_schedule_frame [OF i1 s1(1,2) k'(1)]]
  obtain t hp where t: "k' = rt_hw_context_switch c t (resume_current t (stop_current c t hp (closed_down c k)))" "t \<noteq> c"
      "mstat (closed_down c k) t = RT_THREAD_READY"
  proof (rule rt_schedule_cases [OF i1 s1(1,2) k'(1)])
    assume "k' = closed_down c k"
    then show ?thesis using k'(3) s1(1,5) by (auto simp: runs_highest_def)
  qed (use s1(5) that in auto)
  have "t \<notin> set (k_list (closed_down c k) L_defunct)" using defunct_stat [OF i1, of t] t(3) by auto
  then have "k_list k' L_defunct = k_list (closed_down c k) L_defunct"
    using t(1) s1(5) by (simp add: stop_current_def Let_def list_remove_def)
  then have d: "k_list k' L_defunct = c # k_list k L_defunct" by (simp add: closed_defunct [OF inv nc(1)])
  have m: "mstat k' c = RT_THREAD_CLOSE" "k_current k' = Some t" using t(1,2) s1(5) by simp_all
  have w: "c \<notin> set (k_list k (L_suspend q))" for q using waiting_bit(1) [OF inv, of c q] c(2) ready_not_waiting by auto
  have "k_list k' (L_suspend q) = k_list k (L_suspend q)" for q using fr(10) closed_others [OF inv, of "L_suspend q" c] w [of q] by simp
  moreover have "k_mutex k' = k_mutex k" "k_taken k' = k_taken k" "Tm_thread c \<notin> set (k_timers k')"
    using fr(2,7,12) by (simp_all add: closed_down_def)
  ultimately show ?thesis using e k' d m t(2) by auto
qed

section \<open>The idle thread takes every closed thread once\<close>

lemma unbury_inv:
  assumes inv: "sched_inv {} k" and l: "k_list k L_defunct = t # ts"
  shows "sched_inv {} (tlist_remove t k)" "k_list (tlist_remove t k) L_defunct = ts" 
proof -
  note D = sched_invD [OF inv]
  have st: "mstat k t = RT_THREAD_CLOSE" using defunct_stat [OF inv, of t] l by simp
  then have nr: "t \<notin> set (k_list k (L_ready p))" for p using ready_iff [OF inv, of t p] by simp
  then have r: "list_remove t (k_list k) (L_ready p) = k_list k (L_ready p)" for p by (simp add: list_remove_def)
  have "bitmap_ok (tlist_remove t k)" using D(1) r by (simp add: bitmap_ok_def tlist_remove_def)
  moreover have "links_ok {} (tlist_remove t k)" using D(2) by (auto simp: links_ok_def lists_ok_remove placed_remove)
  moreover have "ready_ok {} (tlist_remove t k)" using D(3) by (simp add: ready_ok_def r)
  moreover have "wait_ok (tlist_remove t k)" using D(4) by (auto simp: wait_ok_def list_remove_def)
  moreover have "running_ok {} (tlist_remove t k)" "prio_ok {} (tlist_remove t k)" using D(5,6) by (simp_all add: running_ok_def prio_ok_def masked_def)
  ultimately show "sched_inv {} (tlist_remove t k)" by (simp add: sched_inv_def)
  have "distinct (k_list k L_defunct)" using D(2) by (simp add: links_ok_def lists_ok_def)
  then show "k_list (tlist_remove t k) L_defunct = ts" by (simp add: list_remove_def l)
qed

definition cleanup_ok :: "(tid \<Rightarrow> (kernel \<Rightarrow> kernel res) option) \<Rightarrow> bool" where
  "cleanup_ok cleanup \<longleftrightarrow> (\<forall>t f k. cleanup t = Some f \<and> sched_inv {} k \<longrightarrow>
     (\<exists>k'. f k = Inr k' \<and> sched_inv {} k' \<and> k_list k' L_defunct = k_list k L_defunct))"

lemma defunct_loop_frees:
  assumes "sched_inv {} k" "cleanup_ok cleanup" "k_list k L_defunct = ts"
  shows "\<exists>k'. defunct_loop sys cleanup freed k = Some (Inr (freed @ filter (\<lambda>t. \<not> sys t) ts, k')) \<and> sched_inv {} k' \<and> k_list k' L_defunct = []"
  using assms
proof (induction ts arbitrary: freed k)
  case Nil
  then show ?case by (simp add: defunct_loop.simps [of sys cleanup freed k] rt_thread_defunct_dequeue_def)
next
  case (Cons t ts)
  note u = unbury_inv [OF Cons.prems(1,3)]
  let ?k = "tlist_remove t k"
  obtain k1 where k1: "(case cleanup t of None \<Rightarrow> Inr ?k | Some f \<Rightarrow> f ?k) = Inr k1" "sched_inv {} k1" "k_list k1 L_defunct = ts"
  proof (cases "cleanup t")
    case None
    then show ?thesis using that [of ?k] u by simp
  next
    case (Some f)
    then obtain k1 where "f ?k = Inr k1" "sched_inv {} k1" "k_list k1 L_defunct = ts"
      using Cons.prems(2) u unfolding cleanup_ok_def by blast
    then show ?thesis using that [of k1] Some by simp
  qed
  have "defunct_loop sys cleanup freed k = defunct_loop sys cleanup (if sys t then freed else freed @ [t]) k1"
    using Cons.prems(3) k1(1) by (simp add: defunct_loop.simps [of sys cleanup freed k] rt_thread_defunct_dequeue_def)
  then show ?case using Cons.IH [OF k1(2) Cons.prems(2) k1(3), of "if sys t then freed else freed @ [t]"] by auto
qed

theorem rt_defunct_execute_frees:
  assumes "sched_inv {} k" "cleanup_ok cleanup"
  shows "\<exists>k'. rt_defunct_execute sys cleanup k = Some (Inr (filter (\<lambda>t. \<not> sys t) (k_list k L_defunct), k')) \<and> sched_inv {} k' \<and>
    k_list k' L_defunct = []"
  using defunct_loop_frees [OF assms refl, of sys "[]"] by (simp add: rt_defunct_execute_def)

section \<open>Start-up establishes the invariant\<close>

lemma thread_init_ok:
  assumes inv: "sched_inv {} k" and i: "mstat k t = RT_THREAD_INIT" and p: "unat p < 32"
  shows "\<exists>k'. thread_init t p tick k = Inr (RT_EOK, k') \<and> sched_inv {} k' \<and> mstat k' = mstat k \<and> k_list k' = k_list k \<and>
    k_current k' = k_current k \<and> k_lock k' = k_lock k \<and> k_irq k' = k_irq k \<and> (\<forall>u. prio_of k' u = (if u = t then p else prio_of k u))"
proof -
  have np: "\<not> placed (k_list k) t" by (rule init_free [OF inv i])
  have l: "\<not> k_linked k t" using np linked_iff [OF inv] by simp
  let ?new = "\<lparr>th_stat = RT_THREAD_INIT, th_error = RT_EOK, th_current_priority = p, th_init_priority = p, th_number_mask = 0,
    th_pending = None, th_event_set = 0, th_event_info = 0, th_init_tick = tick, th_remaining_tick = tick\<rparr>"
  define k1 where "k1 = timer_init (Tm_thread t) 0 0 ((upd_thread t (\<lambda>_. ?new) k)\<lparr>k_taken := (k_taken (upd_thread t (\<lambda>_. ?new) k))(t := [])\<rparr>)"
  have "0 < RT_TICK_MAX div 2" by (simp add: RT_TICK_MAX_def)
  then have e: "thread_init t p tick k = Inr (RT_EOK, k1)"
    using l p by (simp add: thread_init_def RT_THREAD_PRIORITY_MAX_def Let_def rt_timer_init_def k1_def)
  have z: "RT_THREAD_INIT AND RT_THREAD_STAT_MASK = RT_THREAD_INIT" by (simp add: stat_defs)
  have th: "k_thread k1 = (k_thread k)(t := ?new)" "k_list k1 = k_list k" "k_linked k1 = k_linked k" "k_group k1 = k_group k"
      "k_current k1 = k_current k" "k_lock k1 = k_lock k" "k_irq k1 = k_irq k"
    by (simp_all add: timer_init_def k1_def)
  have m: "mstat k1 = mstat k" using i z by (auto simp: mstat_def th(1) fun_eq_iff)
  have pr: "prio_of k1 u = (if u = t then p else prio_of k u)" for u by (simp add: th(1))
  note D = sched_invD [OF inv]
  have "bitmap_ok k1" "links_ok {} k1" "wait_ok k1" "running_ok {} k1"
    using D by (simp_all add: bitmap_ok_def links_ok_def wait_ok_def running_ok_def m th)
  moreover have "ready_ok {} k1" using D(3) np i unfolding ready_ok_def m th(2) by (auto simp: pr placed_def)
  moreover have "prio_ok {} k1" using D(6) p i unfolding prio_ok_def m by (auto simp: pr masked_def th(1))
  ultimately have "sched_inv {} k1" by (simp add: sched_inv_def)
  then show ?thesis using e m th pr by blast
qed

lemma startup_alone:
  assumes inv: "sched_inv {} k" and i: "mstat k t = RT_THREAD_INIT" and c: "k_current k = None"
  shows "\<exists>k'. rt_thread_startup t k = Inr (RT_EOK, k') \<and> sched_inv {} k' \<and> k_current k' = None \<and> k_lock k' = k_lock k \<and> k_irq k' = k_irq k \<and>
    (\<forall>u. mstat k' u = (if u = t then RT_THREAD_READY else mstat k u) \<and> prio_of k' u = prio_of k u)"
proof -
  let ?k = "set_stat t RT_THREAD_SUSPEND (upd_thread t (\<lambda>th. th\<lparr>th_number_mask := push_bit (unat (th_current_priority th)) 1\<rparr>) k)"
  have i1: "sched_inv {} ?k" by (rule started_inv [OF inv i])
  have b: "bit (mstat ?k t) 2" by (simp add: stat_defs)
  have "rt_thread_resume t ?k = Inr (RT_EOK, resumed t ?k)" using c by (intro resume_eq [OF i1 _ b]) simp
  then have "rt_thread_startup t k = Inr (RT_EOK, resumed t ?k)" using i c by (simp add: rt_thread_startup_def Let_def)
  moreover have "mstat (upd_thread t (\<lambda>th. th\<lparr>th_number_mask := push_bit (unat (th_current_priority th)) 1\<rparr>) k) u = mstat k u" for u
    by (simp add: mstat_def)
  then have "mstat (resumed t ?k) u = (if u = t then RT_THREAD_READY else mstat k u)" for u unfolding resumed_simps set_stat_simps by simp
  moreover have "prio_of (resumed t ?k) u = prio_of k u" for u by simp
  ultimately show ?thesis using resumed_inv [OF i1 b] c by auto
qed

text \<open>A thread is initialised and started while no thread runs.\<close>

definition launched :: "tid \<Rightarrow> u8 \<Rightarrow> kernel \<Rightarrow> kernel \<Rightarrow> bool" where
  "launched t p k k' \<longleftrightarrow> sched_inv {} k' \<and> k_current k' = None \<and> k_lock k' = k_lock k \<and> k_irq k' = k_irq k \<and>
     (\<forall>u. mstat k' u = (if u = t then RT_THREAD_READY else mstat k u) \<and> prio_of k' u = (if u = t then p else prio_of k u))"

lemma launch:
  assumes "sched_inv {} k" "mstat k t = RT_THREAD_INIT" "unat p < 32" "k_current k = None"
  shows "\<exists>k1 k'. thread_init t p tick k = Inr (RT_EOK, k1) \<and> rt_thread_startup t k1 = Inr (RT_EOK, k') \<and> launched t p k k'"
proof -
  obtain k1 where k1: "thread_init t p tick k = Inr (RT_EOK, k1)" "sched_inv {} k1" "mstat k1 = mstat k" "k_current k1 = k_current k"
      "k_lock k1 = k_lock k" "k_irq k1 = k_irq k" "\<forall>u. prio_of k1 u = (if u = t then p else prio_of k u)"
    using thread_init_ok [OF assms(1-3)] by blast
  obtain k' where "rt_thread_startup t k1 = Inr (RT_EOK, k')" "sched_inv {} k'" "k_current k' = None" "k_lock k' = k_lock k1" "k_irq k' = k_irq k1"
      "\<forall>u. mstat k' u = (if u = t then RT_THREAD_READY else mstat k1 u) \<and> prio_of k' u = prio_of k1 u"
    using startup_alone [of k1 t] k1 assms(2,4) by auto
  then show ?thesis using k1 by (simp add: launched_def)
qed

theorem scheduler_start_ok:
  assumes inv: "sched_inv {} k" and c: "k_current k = None" and u: "mstat k u = RT_THREAD_READY"
  shows "\<exists>t k'. rt_system_scheduler_start k = Inr k' \<and> sched_inv {} k' \<and> k_current k' = Some t \<and> runs_highest k' \<and> mstat k t = RT_THREAD_READY \<and>
    (\<forall>u. mstat k u = RT_THREAD_READY \<longrightarrow> prio_of k t \<le> prio_of k u) \<and> (\<forall>u. mstat k' u = (if u = t then RT_THREAD_RUNNING else mstat k u)) \<and>
    k_lock k' = k_lock k \<and> k_irq k' = k_irq k \<and> (\<forall>u. prio_of k' u = prio_of k u)"
proof -
  have g: "k_group k \<noteq> 0" using no_ready [OF inv, of u] u by auto
  obtain t hp where h: "get_highest_priority_thread k = Inr (t, hp)" "mstat k t = RT_THREAD_READY" "unat (prio_of k t) = unat hp"
      "\<And>u. mstat k u = RT_THREAD_READY \<Longrightarrow> unat hp \<le> unat (prio_of k u)" using highest_ready [OF inv g] by blast
  let ?k = "k\<lparr>k_current := Some t\<rparr>"
  have nrun: "mstat k u \<noteq> RT_THREAD_RUNNING" for u using sched_invD(5) [OF inv] c by (auto simp: running_ok_def)
  have ms: "mstat ?k = mstat k" "masked ?k = masked k" by (simp_all add: mstat_def masked_def fun_eq_iff)
  have i0: "sched_inv {} ?k"
    using sched_invD [OF inv] nrun by (simp add: sched_inv_def bitmap_ok_def links_ok_def ready_ok_def wait_ok_def running_ok_def prio_ok_def ms)
  have i1: "sched_inv {t} (drop_thread t ?k)" using stat_masked [OF inv, of t] h(2) ms by (intro drop_thread_inv [OF i0]) simp_all
  have rs: "RT_THREAD_RUNNING AND RT_THREAD_STAT_MASK = RT_THREAD_RUNNING" by (simp add: stat_defs)
  let ?k' = "set_stat t RT_THREAD_RUNNING (drop_thread t ?k)"
  have i2: "sched_inv {} ?k'" using i1 by (rule park_inv) (simp_all add: rs)
  have "rt_schedule_remove_thread t ?k = Inr (drop_thread t ?k)" using prio_range [OF inv, of t] by (intro remove_thread_eq) simp
  then have e: "rt_system_scheduler_start k = Inr (rt_hw_context_switch_to t ?k')" by (simp add: rt_system_scheduler_start_def h(1))
  have sw: "sched_inv {} (rt_hw_context_switch_to t k) = sched_inv {} k" "mstat (rt_hw_context_switch_to t k) = mstat k"
      "k_current (rt_hw_context_switch_to t k) = k_current k" "\<And>u. prio_of (rt_hw_context_switch_to t k) u = prio_of k u"
      "k_lock (rt_hw_context_switch_to t k) = k_lock k" "k_irq (rt_hw_context_switch_to t k) = k_irq k" for k
    by (simp_all add: rt_hw_context_switch_to_def mstat_def fun_eq_iff sched_inv_def sched_parts masked_def)
  have top: "prio_of k t \<le> prio_of k u" if "mstat k u = RT_THREAD_READY" for u using h(3,4) that by (simp add: word_le_nat_alt)
  have m: "mstat ?k' u = (if u = t then RT_THREAD_RUNNING else mstat k u)" "prio_of ?k' u = prio_of k u" for u by (simp_all add: rs ms)
  have "runs_highest (rt_hw_context_switch_to t ?k')" unfolding runs_highest_def sw m using top by simp
  then show ?thesis using e i2 h(2) top m sw by (intro exI [of _ t] exI [of _ "rt_hw_context_switch_to t ?k'"]) simp
qed

text \<open>The kernel before it has started a thread. The lists of the ready table need not be initialised.\<close>

definition unstarted :: "kernel \<Rightarrow> bool" where
  "unstarted k \<longleftrightarrow> k_current k = None \<and> (\<forall>h. (\<forall>p < 32. h \<noteq> L_ready p) \<longrightarrow> k_list k h = []) \<and> (\<forall>t. \<not> k_linked k t) \<and>
     (\<forall>t. mstat k t = RT_THREAD_INIT \<and> unat (prio_of k t) < 32)"

lemma scheduler_init_inv:
  assumes "unstarted k"
  shows "sched_inv {} (rt_system_scheduler_init (rt_system_timer_init k))" (is "sched_inv {} ?k")
proof -
  have l: "k_list ?k h = []" for h
    using assms by (cases h) (auto simp: rt_system_scheduler_init_def rt_system_timer_init_def unstarted_def RT_THREAD_PRIORITY_MAX_def)
  have m: "mstat ?k t = RT_THREAD_INIT" "unat (prio_of ?k t) < 32" "\<not> k_linked ?k t" for t
    using assms by (simp_all add: rt_system_scheduler_init_def rt_system_timer_init_def unstarted_def mstat_def)
  have "k_group ?k = 0" by (simp add: rt_system_scheduler_init_def)
  then show ?thesis using l m by (simp add: sched_inv_def sched_parts lists_ok_def placed_def)
qed

theorem rtthread_startup_ok:
  assumes k: "unstarted k" and st: "timer_stack \<noteq> 0" "idle_stack \<noteq> 0" and al: "alloc RT_MAIN_THREAD_STACK_SIZE \<noteq> None"
    and ne: "main \<noteq> timer_thread" "idle \<noteq> timer_thread" "main \<noteq> idle"
  shows "\<exists>k'. rtthread_startup main idle alloc timer_stack idle_stack k = Inr k' \<and> sched_inv {} k' \<and> runs_highest k' \<and> k_current k' = Some timer_thread \<and>
    mstat k' main = RT_THREAD_READY \<and> mstat k' idle = RT_THREAD_READY \<and> k_lock k' = 0 \<and> k_irq k' = k_irq k \<and>
    prio_of k' main = RT_MAIN_THREAD_PRIORITY \<and> prio_of k' idle = 31"
proof -
  let ?k = "rt_system_scheduler_init (rt_system_timer_init k)"
  have i0: "sched_inv {} ?k" by (rule scheduler_init_inv [OF k])
  have z: "k_current ?k = None" "k_lock ?k = 0" "k_irq ?k = k_irq k" "mstat ?k t = RT_THREAD_INIT" for t
    using k by (simp_all add: rt_system_scheduler_init_def rt_system_timer_init_def unstarted_def mstat_def)
  have p: "unat RT_MAIN_THREAD_PRIORITY < 32" "unat RT_TIMER_THREAD_PRIO < 32" "of_nat RT_THREAD_PRIORITY_MAX - 1 = (31 :: u8)" "unat (31 :: u8) < 32"
    by (simp_all add: RT_MAIN_THREAD_PRIORITY_def RT_TIMER_THREAD_PRIO_def RT_THREAD_PRIORITY_MAX_def)
  obtain a1 k1 where 1: "thread_init main RT_MAIN_THREAD_PRIORITY 20 ?k = Inr (RT_EOK, a1)" "rt_thread_startup main a1 = Inr (RT_EOK, k1)"
      "launched main RT_MAIN_THREAD_PRIORITY ?k k1" using launch [OF i0 z(4) p(1) z(1)] by blast
  note L1 = 1(3) [unfolded launched_def]
  let ?k1 = "k1\<lparr>k_soft_timers := []\<rparr>"
  have s1: "sched_inv {} ?k1 = sched_inv {} k1" "mstat ?k1 = mstat k1" by (simp_all add: sched_inv_def sched_parts mstat_def masked_def fun_eq_iff)
  have m1: "mstat ?k1 timer_thread = RT_THREAD_INIT" using L1 z(4) ne(1) by (simp add: s1)
  obtain a2 k2 where 2: "thread_init timer_thread RT_TIMER_THREAD_PRIO 10 ?k1 = Inr (RT_EOK, a2)" "rt_thread_startup timer_thread a2 = Inr (RT_EOK, k2)"
      "launched timer_thread RT_TIMER_THREAD_PRIO ?k1 k2" using launch [OF _ m1 p(2), of 10] L1 s1(1) by auto
  note L2 = 2(3) [unfolded launched_def]
  have m2: "mstat k2 idle = RT_THREAD_INIT" using L1 L2 z(4) ne(2,3) by (simp add: s1)
  obtain a3 k3 where 3: "thread_init idle 31 32 k2 = Inr (RT_EOK, a3)" "rt_thread_startup idle a3 = Inr (RT_EOK, k3)" "launched idle 31 k2 k3"
    using launch [OF _ m2 p(4), of 32] L2 by auto
  note L3 = 3(3) [unfolded launched_def]
  have r3: "mstat k3 u = RT_THREAD_READY \<longleftrightarrow> u \<in> {main, timer_thread, idle}" for u using L1 L2 L3 z(4) by (auto simp: s1)
  have p3: "prio_of k3 main = RT_MAIN_THREAD_PRIORITY" "prio_of k3 timer_thread = RT_TIMER_THREAD_PRIO" "prio_of k3 idle = 31"
    using L1 L2 L3 ne by simp_all
  have c3: "sched_inv {} k3" "k_current k3 = None" and r3': "u \<in> {main, timer_thread, idle} \<Longrightarrow> mstat k3 u = RT_THREAD_READY" for u using L3 r3 by auto
  obtain t k' where t: "rt_system_scheduler_start k3 = Inr k'" "sched_inv {} k'" "k_current k' = Some t" "runs_highest k'"
      "mstat k3 t = RT_THREAD_READY" "\<forall>u. mstat k3 u = RT_THREAD_READY \<longrightarrow> prio_of k3 t \<le> prio_of k3 u"
      "\<forall>u. mstat k' u = (if u = t then RT_THREAD_RUNNING else mstat k3 u)" "k_lock k' = k_lock k3" "k_irq k' = k_irq k3" "\<forall>u. prio_of k' u = prio_of k3 u"
    using scheduler_start_ok [OF c3 r3' [of main, simplified]] by blast
  have "prio_of k3 t \<le> prio_of k3 timer_thread" using t(6) r3 by simp
  then have tt: "t = timer_thread" using t(5) r3 [of t] p3 by (auto simp: RT_MAIN_THREAD_PRIORITY_def RT_TIMER_THREAD_PRIO_def)
  have "rtthread_startup main idle alloc timer_stack idle_stack k = Inr k'"
    using 1 2 3 t(1) st al p(3) by (auto simp: rtthread_startup_def Let_def rt_application_init_def rt_thread_create_def
      rt_system_timer_thread_init_def rt_thread_idle_init_def rt_thread_init_def)
  moreover have "mstat k' main = RT_THREAD_READY" "mstat k' idle = RT_THREAD_READY" using t(7) tt ne r3' by simp_all
  moreover have "k_lock k' = 0" "k_irq k' = k_irq k" using t(8,9) L1 L2 L3 z(2,3) by simp_all
  ultimately show ?thesis using t(2-4,10) tt p3 by auto
qed

end
