(* ===== verification/Rt_Service.thy ===== *)
theory Rt_Service
  imports Klib_String
begin

text \<open>
  The memory and string functions of \<^verbatim>\<open>rt-thread-am/src/kservice.c\<close> (without \<^verbatim>\<open>RT_KSERVICE_USING_TINY_SIZE\<close>) on
  the byte memory of \<open>Klib_String\<close>. \<^verbatim>\<open>rt_memset\<close> and \<^verbatim>\<open>rt_memcpy\<close> work on words where the addresses are
  aligned; their loops on bytes are those of the functions there. A \<^verbatim>\<open>long\<close> has 32 bits, and a plain \<^verbatim>\<open>char\<close> is unsigned, as on every RISC-V target.
\<close>

section \<open>Words of memory\<close>

definition load_word :: "gmem \<Rightarrow> u32 \<Rightarrow> u32" where
  "load_word m a = le_join [m a, m (a + 1), m (a + 2), m (a + 3)]"

definition store_word :: "gmem \<Rightarrow> u32 \<Rightarrow> u32 \<Rightarrow> gmem" where
  "store_word m a w = (let b = le_split 4 w in m(a := b ! 0, a + 1 := b ! 1, a + 2 := b ! 2, a + 3 := b ! 3))"

definition LBLOCKSIZE :: u32 where "LBLOCKSIZE = 4"
definition BIGBLOCKSIZE :: u32 where "BIGBLOCKSIZE = push_bit 2 4"
definition LITTLEBLOCKSIZE :: u32 where "LITTLEBLOCKSIZE = 4"

lemmas block_sizes = LBLOCKSIZE_def BIGBLOCKSIZE_def LITTLEBLOCKSIZE_def

lemma unat_sub_le: "n \<le> c \<Longrightarrow> unat (c - n :: u32) = unat c - unat n"
  by (simp add: unat_sub)

lemma block_less: "n \<le> c \<Longrightarrow> 0 < n \<Longrightarrow> unat (c - n :: u32) < unat c"
  by (simp add: unat_sub word_le_nat_alt word_less_nat_alt)

section \<open>rt_memset\<close>

function memset_blocks :: "u32 \<Rightarrow> gmem \<Rightarrow> u32 \<Rightarrow> u32 \<Rightarrow> gmem \<times> u32 \<times> u32" where
  "memset_blocks buffer m p count =
     (if count \<ge> LBLOCKSIZE * 4 then
        let m = store_word m p buffer; m = store_word m (p + 4) buffer; m = store_word m (p + 8) buffer; m = store_word m (p + 12) buffer
        in memset_blocks buffer m (p + 16) (count - 4 * LBLOCKSIZE)
      else (m, p, count))"
  by auto
termination by (relation "measure (\<lambda>(_, _, _, count). unat count)") (simp_all add: block_sizes block_less)

function memset_words :: "u32 \<Rightarrow> gmem \<Rightarrow> u32 \<Rightarrow> u32 \<Rightarrow> gmem \<times> u32 \<times> u32" where
  "memset_words buffer m p count =
     (if count \<ge> LBLOCKSIZE then memset_words buffer (store_word m p buffer) (p + 4) (count - LBLOCKSIZE) else (m, p, count))"
  by auto
termination by (relation "measure (\<lambda>(_, _, _, count). unat count)") (simp_all add: block_sizes block_less)

declare memset_blocks.simps [simp del] memset_words.simps [simp del]

definition rt_memset :: "gmem \<Rightarrow> u32 \<Rightarrow> u32 \<Rightarrow> u32 \<Rightarrow> u32 \<times> gmem" where
  "rt_memset m s c count =
     (let d = ucast (c AND 0xff) :: u8 in
      if \<not> count < LBLOCKSIZE \<and> s AND (LBLOCKSIZE - 1) = 0 then
        let buffer = le_join [d, d, d, d];
            (m, p, count) = memset_blocks buffer m s count;
            (m, p, count) = memset_words buffer m p count
        in (s, memset_loop (unat count) m p d)
      else (s, memset_loop (unat count) m s d))"

section \<open>rt_memcpy and rt_memmove\<close>

definition copy_word :: "gmem \<Rightarrow> u32 \<Rightarrow> u32 \<Rightarrow> gmem" where
  "copy_word m d s = store_word m d (load_word m s)"

function memcpy_blocks :: "gmem \<Rightarrow> u32 \<Rightarrow> u32 \<Rightarrow> u32 \<Rightarrow> gmem \<times> u32 \<times> u32 \<times> u32" where
  "memcpy_blocks m d s len =
     (if len \<ge> BIGBLOCKSIZE then
        let m = copy_word m d s; m = copy_word m (d + 4) (s + 4); m = copy_word m (d + 8) (s + 8); m = copy_word m (d + 12) (s + 12)
        in memcpy_blocks m (d + 16) (s + 16) (len - BIGBLOCKSIZE)
      else (m, d, s, len))"
  by auto
termination by (relation "measure (\<lambda>(_, _, _, len). unat len)") (simp_all add: block_sizes block_less)

function memcpy_words :: "gmem \<Rightarrow> u32 \<Rightarrow> u32 \<Rightarrow> u32 \<Rightarrow> gmem \<times> u32 \<times> u32 \<times> u32" where
  "memcpy_words m d s len =
     (if len \<ge> LITTLEBLOCKSIZE then memcpy_words (copy_word m d s) (d + 4) (s + 4) (len - LITTLEBLOCKSIZE) else (m, d, s, len))"
  by auto
termination by (relation "measure (\<lambda>(_, _, _, len). unat len)") (simp_all add: block_sizes block_less)

declare memcpy_blocks.simps [simp del] memcpy_words.simps [simp del]

definition rt_memcpy :: "gmem \<Rightarrow> u32 \<Rightarrow> u32 \<Rightarrow> u32 \<Rightarrow> u32 \<times> gmem" where
  "rt_memcpy m dst src count =
     (if \<not> count < BIGBLOCKSIZE \<and> (src AND 3) OR (dst AND 3) = 0 then
        let (m, d, s, len) = memcpy_blocks m dst src count;
            (m, d, s, len) = memcpy_words m d s len
        in (dst, copy_up (unat len) m d s)
      else (dst, copy_up (unat count) m dst src))"

definition rt_memmove :: "gmem \<Rightarrow> u32 \<Rightarrow> u32 \<Rightarrow> u32 \<Rightarrow> u32 \<times> gmem" where
  "rt_memmove m dest src n =
     (if src < dest \<and> dest < src + n then (dest, copy_down (unat n) m (dest + n) (src + n))
      else (dest, copy_up (unat n) m dest src))"

fun rt_memcmp_loop :: "nat \<Rightarrow> int \<Rightarrow> gmem \<Rightarrow> u32 \<Rightarrow> u32 \<Rightarrow> int" where
  "rt_memcmp_loop 0 res m su1 su2 = res"
| "rt_memcmp_loop (Suc n) res m su1 su2 =
     (let res = uint (m su1) - uint (m su2) in if res \<noteq> 0 then res else rt_memcmp_loop n res m (su1 + 1) (su2 + 1))"

definition rt_memcmp :: "gmem \<Rightarrow> u32 \<Rightarrow> u32 \<Rightarrow> u32 \<Rightarrow> int" where
  "rt_memcmp m cs ct count = rt_memcmp_loop (unat count) 0 m cs ct"

section \<open>Strings\<close>

partial_function (option) rt_strlen_loop :: "gmem \<Rightarrow> u32 \<Rightarrow> u32 option" where
  "rt_strlen_loop m sc = (if m sc \<noteq> 0 then rt_strlen_loop m (sc + 1) else Some sc)"

definition rt_strlen :: "gmem \<Rightarrow> u32 \<Rightarrow> u32 option" where
  "rt_strlen m s = map_option (\<lambda>sc. sc - s) (rt_strlen_loop m s)"

text \<open>The loop runs at most \<open>maxlen\<close> times; it looks at one byte more than it counts.\<close>

fun rt_strnlen_loop :: "nat \<Rightarrow> gmem \<Rightarrow> u32 \<Rightarrow> u32" where
  "rt_strnlen_loop n m sc = (if m sc \<noteq> 0 \<and> n > 0 then rt_strnlen_loop (n - 1) m (sc + 1) else sc)"

definition rt_strnlen :: "gmem \<Rightarrow> u32 \<Rightarrow> u32 \<Rightarrow> u32" where
  "rt_strnlen m s maxlen = rt_strnlen_loop (unat maxlen) m s - s"

text \<open>\<open>l1\<close> and \<open>l2\<close> are of type \<^verbatim>\<open>int\<close>; the null pointer is 0.\<close>

function strstr_loop :: "gmem \<Rightarrow> u32 \<Rightarrow> u32 \<Rightarrow> int \<Rightarrow> int \<Rightarrow> u32" where
  "strstr_loop m s1 s2 l1 l2 =
     (if l1 \<ge> l2 then if rt_memcmp m s1 s2 (word_of_int l2) = 0 then s1 else strstr_loop m (s1 + 1) s2 (l1 - 1) l2 else 0)"
  by auto
termination by (relation "measure (\<lambda>(_, _, _, l1, l2). nat (l1 - l2 + 1))") auto

declare strstr_loop.simps [simp del] rt_strnlen_loop.simps [simp del]

definition rt_strstr :: "gmem \<Rightarrow> u32 \<Rightarrow> u32 \<Rightarrow> u32 option" where
  "rt_strstr m s1 s2 =
     Option.bind (rt_strlen m s2) (\<lambda>n2. let l2 = sint n2 in
       if l2 = 0 then Some s1
       else Option.bind (rt_strlen m s1) (\<lambda>n1. Some (strstr_loop m s1 s2 (sint n1) l2)))"

definition lower_case :: "int \<Rightarrow> int" where "lower_case c = (if c \<ge> 65 \<and> c \<le> 90 then c + (97 - 65) else c)"

partial_function (option) rt_strcasecmp :: "gmem \<Rightarrow> u32 \<Rightarrow> u32 \<Rightarrow> int option" where
  "rt_strcasecmp m a b =
     (let ca = lower_case (uint (m a)); cb = lower_case (uint (m b))
      in if ca = cb \<and> ca \<noteq> 0 then rt_strcasecmp m (a + 1) (b + 1) else Some (ca - cb))"

fun rt_strncpy_loop :: "nat \<Rightarrow> gmem \<Rightarrow> u32 \<Rightarrow> u32 \<Rightarrow> gmem" where
  "rt_strncpy_loop 0 m d s = m"
| "rt_strncpy_loop (Suc n) m d s =
     (let m' = m(d := m s) in if m s = 0 then strncpy_pad n m' (d + 1) else rt_strncpy_loop n m' (d + 1) (s + 1))"

definition rt_strncpy :: "gmem \<Rightarrow> u32 \<Rightarrow> u32 \<Rightarrow> u32 \<Rightarrow> u32 \<times> gmem" where
  "rt_strncpy m dst src n = (dst, rt_strncpy_loop (unat n) m dst src)"

partial_function (option) rt_strcpy_loop :: "gmem \<Rightarrow> u32 \<Rightarrow> u32 \<Rightarrow> gmem option" where
  "rt_strcpy_loop m dst src =
     (if m src \<noteq> 0 then rt_strcpy_loop (m(dst := m src)) (dst + 1) (src + 1) else Some (m(dst := 0)))"

definition rt_strcpy :: "gmem \<Rightarrow> u32 \<Rightarrow> u32 \<Rightarrow> (u32 \<times> gmem) option" where
  "rt_strcpy m dst src = map_option (Pair dst) (rt_strcpy_loop m dst src)"

text \<open>The difference is a \<^verbatim>\<open>signed char\<close>, the low byte of the true one.\<close>

fun rt_strncmp_loop :: "nat \<Rightarrow> u8 \<Rightarrow> gmem \<Rightarrow> u32 \<Rightarrow> u32 \<Rightarrow> u8" where
  "rt_strncmp_loop 0 res m cs ct = res"
| "rt_strncmp_loop (Suc n) res m cs ct =
     (let res = m cs - m ct in if res \<noteq> 0 \<or> m cs = 0 then res else rt_strncmp_loop n res m (cs + 1) (ct + 1))"

definition rt_strncmp :: "gmem \<Rightarrow> u32 \<Rightarrow> u32 \<Rightarrow> u32 \<Rightarrow> int" where
  "rt_strncmp m cs ct count = sint (rt_strncmp_loop (unat count) 0 m cs ct)"

partial_function (option) rt_strcmp :: "gmem \<Rightarrow> u32 \<Rightarrow> u32 \<Rightarrow> int option" where
  "rt_strcmp m cs ct =
     (if m cs \<noteq> 0 \<and> m cs = m ct then rt_strcmp m (cs + 1) (ct + 1) else Some (uint (m cs) - uint (m ct)))"

text \<open>\<^verbatim>\<open>rt_strdup\<close>: \<open>alloc\<close> is what \<^verbatim>\<open>rt_malloc\<close> returns for a size.\<close>

definition rt_strdup :: "(u32 \<Rightarrow> u32 option) \<Rightarrow> gmem \<Rightarrow> u32 \<Rightarrow> (u32 option \<times> gmem) option" where
  "rt_strdup alloc m s =
     map_option (\<lambda>n. let len = n + 1 in
       case alloc len of None \<Rightarrow> (None, m) | Some tmp \<Rightarrow> (Some tmp, snd (rt_memcpy m tmp s len))) (rt_strlen m s)"

section \<open>The optimised routines are the simple ones\<close>

lemma memset_loop_add: "memset_loop (n + k) m p c = memset_loop k (memset_loop n m p c) (p + of_nat n) c"
  by (induction n arbitrary: m p) (simp_all add: algebra_simps)

lemma copy_up_add: "copy_up (n + k) m d s = copy_up k (copy_up n m d s) (d + of_nat n) (s + of_nat n)"
  by (induction n arbitrary: m d s) (simp_all add: algebra_simps)

lemma store_word_bytes: "store_word m a (le_join [b0, b1, b2, b3]) = m(a := b0, a + 1 := b1, a + 2 := b2, a + 3 := b3)"
  using le_split_join [of "[b0, b1, b2, b3]", where 'a = 32] by (simp add: store_word_def numeral_eq_Suc)

lemma store_word_set: "store_word m p (le_join [c, c, c, c]) = memset_loop 4 m p c"
  unfolding store_word_bytes by (simp add: numeral_eq_Suc add.assoc)

lemma aligned_mod: "x AND 3 = (0 :: u32) \<longleftrightarrow> unat x mod 4 = 0"
proof -
  have "x AND 3 = take_bit 2 x" by (simp add: take_bit_eq_mask mask_eq_exp_minus_1)
  then have "unat (x AND 3) = unat x mod 4" by (simp add: unsigned_take_bit_eq take_bit_eq_mod unat_mod)
  then show ?thesis by (metis unat_eq_0)
qed

lemma unat_add_mod: "unat (x + y :: u32) mod 4 = (unat x + unat y) mod 4"
  by (simp add: unat_word_ariths mod_mod_cancel)

lemma aligned_neq:
  assumes "d AND 3 = (0 :: u32)" "s AND 3 = 0" "i < j" "j < 4"
  shows "d + of_nat i \<noteq> s + of_nat j"
proof
  assume "d + of_nat i = s + of_nat j"
  then have "(unat d + i) mod 4 = (unat s + j) mod 4"
    using unat_add_mod [of d "of_nat i"] unat_add_mod [of s "of_nat j"] assms(3,4) by (simp add: unat_of_nat_lt)
  then show False using assms unfolding aligned_mod by presburger
qed

lemma copy_word_up:
  assumes "d AND 3 = 0" "s AND 3 = 0"
  shows "copy_word m d s = copy_up 4 m d s"
proof -
  have "d \<noteq> s + 1" "d \<noteq> s + 2" "d \<noteq> s + 3" "d + 1 \<noteq> s + 2" "d + 1 \<noteq> s + 3" "d + 2 \<noteq> s + 3"
    using aligned_neq [OF assms, of 0 1] aligned_neq [OF assms, of 0 2] aligned_neq [OF assms, of 0 3]
      aligned_neq [OF assms, of 1 2] aligned_neq [OF assms, of 1 3] aligned_neq [OF assms, of 2 3] by simp_all
  then show ?thesis
    unfolding copy_word_def load_word_def store_word_bytes by (auto simp: numeral_eq_Suc add.assoc)
qed

lemma aligned_step:
  assumes "x AND 3 = (0 :: u32)"
  shows "(x + 4) AND 3 = 0" "(x + 8) AND 3 = 0" "(x + 12) AND 3 = 0" "(x + 16) AND 3 = 0"
  using assms unat_add_mod [of x 4] unat_add_mod [of x 8] unat_add_mod [of x 12] unat_add_mod [of x 16]
  unfolding aligned_mod by (simp_all add: mod_eq_0_iff_dvd)

text \<open>Whatever a loop over words leaves to the next one, the bytes come out as the loop over bytes has them.\<close>

lemma memset_four: "memset_loop (unat c) m p d = memset_loop (unat (c - 4)) (store_word m p (le_join [d, d, d, d])) (p + 4) d" if "(4 :: u32) \<le> c"
proof -
  have "unat c = 4 + unat (c - 4)" using that by (simp add: unat_sub_le word_le_nat_alt)
  then show ?thesis unfolding store_word_set using memset_loop_add [of 4 "unat (c - 4)" m p d] by simp
qed

lemma memset_words_ok:
  "memset_words (le_join [d, d, d, d]) m p c = (m', p', c') \<Longrightarrow> memset_loop (unat c') m' p' d = memset_loop (unat c) m p d"
proof (induction "le_join [d, d, d, d] :: u32" m p c rule: memset_words.induct)
  case (1 m p c)
  then show ?case using memset_four [of c m p d]
    by (cases "4 \<le> c") (auto simp: memset_words.simps [of _ m p c] block_sizes)
qed

lemma memset_blocks_ok:
  "memset_blocks (le_join [d, d, d, d]) m p c = (m', p', c') \<Longrightarrow> memset_loop (unat c') m' p' d = memset_loop (unat c) m p d"
proof (induction "le_join [d, d, d, d] :: u32" m p c rule: memset_blocks.induct)
  case (1 m p c)
  let ?w = "\<lambda>m p. store_word m p (le_join [d, d, d, d])"
  show ?case
  proof (cases "16 \<le> c")
    case True
    then have "4 \<le> c" "4 \<le> c - 4" "4 \<le> c - 8" "4 \<le> c - 12" by (simp_all add: word_le_nat_alt unat_sub_le)
    then have "memset_loop (unat c) m p d = memset_loop (unat (c - 16)) (?w (?w (?w (?w m p) (p + 4)) (p + 8)) (p + 12)) (p + 16) d"
      using memset_four [of c] memset_four [of "c - 4"] memset_four [of "c - 8"] memset_four [of "c - 12"] by (simp add: add.assoc)
    then show ?thesis using 1 True by (simp add: memset_blocks.simps [of _ m p c] block_sizes Let_def)
  next
    case False
    then show ?thesis using 1(2) by (simp add: memset_blocks.simps [of _ m p c] block_sizes)
  qed
qed

theorem rt_memset_eq: "rt_memset m s c count = memset m s c count"
proof -
  have m: "(0xff :: u32) = mask 8" by (simp add: mask_eq_exp_minus_1)
  have d: "ucast (c AND 0xff) = (ucast c :: u8)"
    by (rule bit_word_eqI) (simp only: m bit_ucast_iff bit_and_iff bit_mask_iff, simp)
  obtain m1 p1 c1 where b: "memset_blocks (le_join [ucast c, ucast c, ucast c, ucast c]) m s count = (m1, p1, c1)" by (cases "memset_blocks (le_join [ucast c, ucast c, ucast c, ucast c]) m s count")
  obtain m2 p2 c2 where w: "memset_words (le_join [ucast c, ucast c, ucast c, ucast c]) m1 p1 c1 = (m2, p2, c2)" by (cases "memset_words (le_join [ucast c, ucast c, ucast c, ucast c]) m1 p1 c1")
  show ?thesis using memset_blocks_ok [OF b] memset_words_ok [OF w]
    unfolding rt_memset_def memset_def Let_def d b by (simp add: w del: le_join.simps)
qed

lemma copy_four:
  assumes "(4 :: u32) \<le> c" "d AND 3 = 0" "s AND 3 = 0"
  shows "copy_up (unat c) m d s = copy_up (unat (c - 4)) (copy_word m d s) (d + 4) (s + 4)"
proof -
  have "unat c = 4 + unat (c - 4)" using assms(1) by (simp add: unat_sub_le word_le_nat_alt)
  then show ?thesis unfolding copy_word_up [OF assms(2,3)] using copy_up_add [of 4 "unat (c - 4)" m d s] by simp
qed

lemma memcpy_words_ok:
  assumes "memcpy_words m d s c = (m', d', s', c')" "d AND 3 = 0" "s AND 3 = 0"
  shows "copy_up (unat c') m' d' s' = copy_up (unat c) m d s"
  using assms
proof (induction m d s c rule: memcpy_words.induct)
  case (1 m d s c)
  then show ?case using copy_four [of c d s m]
    by (cases "4 \<le> c") (auto simp: memcpy_words.simps [of m d s c] block_sizes aligned_step)
qed

lemma memcpy_blocks_ok:
  assumes "memcpy_blocks m d s c = (m', d', s', c')" "d AND 3 = 0" "s AND 3 = 0"
  shows "copy_up (unat c') m' d' s' = copy_up (unat c) m d s \<and> d' AND 3 = 0 \<and> s' AND 3 = 0"
  using assms
proof (induction m d s c rule: memcpy_blocks.induct)
  case (1 m d s c)
  show ?case
  proof (cases "16 \<le> c")
    case True
    then have "4 \<le> c" "4 \<le> c - 4" "4 \<le> c - 8" "4 \<le> c - 12" by (simp_all add: word_le_nat_alt unat_sub_le)
    note A = aligned_step [OF 1(3)] aligned_step [OF 1(4)]
    let ?m = "copy_word (copy_word (copy_word (copy_word m d s) (d + 4) (s + 4)) (d + 8) (s + 8)) (d + 12) (s + 12)"
    have "copy_up (unat c) m d s = copy_up (unat (c - 16)) ?m (d + 16) (s + 16)"
      using copy_four [OF \<open>4 \<le> c\<close> 1(3,4)] copy_four [OF \<open>4 \<le> c - 4\<close> A(1,5)] copy_four [OF \<open>4 \<le> c - 8\<close> A(2,6)]
        copy_four [OF \<open>4 \<le> c - 12\<close> A(3,7)] by (simp add: add.assoc)
    then show ?thesis using 1 True A by (simp add: memcpy_blocks.simps [of m d s c] block_sizes Let_def)
  next
    case False
    then show ?thesis using 1(2-4) by (simp add: memcpy_blocks.simps [of m d s c] block_sizes)
  qed
qed

theorem rt_memcpy_eq: "rt_memcpy m dst src count = memcpy m dst src count"
proof (cases "\<not> count < BIGBLOCKSIZE \<and> (src AND 3) OR (dst AND 3) = 0")
  case True
  have a: "dst AND 3 = 0" "src AND 3 = 0"
    using True by (metis or_eq_0_iff)+
  obtain m1 d1 s1 c1 where b: "memcpy_blocks m dst src count = (m1, d1, s1, c1)" by (cases "memcpy_blocks m dst src count")
  obtain m2 d2 s2 c2 where w: "memcpy_words m1 d1 s1 c1 = (m2, d2, s2, c2)" by (cases "memcpy_words m1 d1 s1 c1")
  show ?thesis using memcpy_blocks_ok [OF b a] memcpy_words_ok [OF w] True
    unfolding rt_memcpy_def memcpy_def Let_def b by (simp add: w)
next
  case False
  then show ?thesis unfolding rt_memcpy_def memcpy_def by (simp only: if_False)
qed

theorem rt_memcmp_eq: "rt_memcmp m cs ct count = memcmp m cs ct count"
proof -
  have "rt_memcmp_loop n 0 m p q = memcmp_loop n m p q" for n p q
    by (induction n arbitrary: p q) (auto simp: Let_def uint_inject)
  then show ?thesis by (simp add: rt_memcmp_def memcmp_def)
qed

theorem rt_strncpy_eq: "rt_strncpy m dst src n = strncpy m dst src n"
proof -
  have "rt_strncpy_loop n m d s = (case strncpy_copy n m d s of (k, m', d) \<Rightarrow> strncpy_pad k m' d)" for n d s
    by (induction n arbitrary: m d s) (auto simp: Let_def)
  then show ?thesis by (simp add: rt_strncpy_def strncpy_def split: prod.splits)
qed

text \<open>Two loops that go on until they find a NUL are the same when each ends where the other does.\<close>

lemma option_eqI: "(\<And>x. a = Some x \<Longrightarrow> b = Some x) \<Longrightarrow> (\<And>x. b = Some x \<Longrightarrow> a = Some x) \<Longrightarrow> a = b"
  by (cases a; cases b) auto

lemma rt_strlen_loop_eq: "rt_strlen_loop m p = strlen_loop m p"
proof (rule option_eqI)
  show "strlen_loop m p = Some x" if "rt_strlen_loop m p = Some x" for x
    by (rule rt_strlen_loop.raw_induct [OF _ that]) (subst strlen_loop.simps, auto split: if_splits)
  show "rt_strlen_loop m p = Some x" if "strlen_loop m p = Some x" for x
    by (rule strlen_loop.raw_induct [OF _ that]) (subst rt_strlen_loop.simps, auto split: if_splits)
qed

theorem rt_strlen_eq: "rt_strlen m s = strlen m s"
  by (simp add: rt_strlen_def strlen_def rt_strlen_loop_eq)

theorem rt_strcmp_eq: "rt_strcmp m p q = strcmp m p q"
  unfolding strcmp_def
proof (rule option_eqI)
  show "strcmp_loop m p q = Some x" if "rt_strcmp m p q = Some x" for x
    by (rule rt_strcmp.raw_induct [OF _ that]) (subst strcmp_loop.simps, auto split: if_splits)
  show "rt_strcmp m p q = Some x" if "strcmp_loop m p q = Some x" for x
    by (rule strcmp_loop.raw_induct [OF _ that]) (subst rt_strcmp.simps, auto split: if_splits)
qed

theorem rt_strcpy_eq: "rt_strcpy m d s = strcpy m d s"
proof -
  have "rt_strcpy_loop m d s = strcpy_loop m d s"
  proof (rule option_eqI)
    show "strcpy_loop m d s = Some x" if "rt_strcpy_loop m d s = Some x" for x
      by (rule rt_strcpy_loop.raw_induct [OF _ that]) (subst strcpy_loop.simps, auto simp: Let_def split: if_splits)
    show "rt_strcpy_loop m d s = Some x" if "strcpy_loop m d s = Some x" for x
      by (rule strcpy_loop.raw_induct [OF _ that]) (subst rt_strcpy_loop.simps, auto simp: Let_def split: if_splits)
  qed
  then show ?thesis by (simp add: rt_strcpy_def strcpy_def)
qed

section \<open>Copies that may overlap\<close>

text \<open>A region that ends at the last address is left out: there \<^verbatim>\<open>s + n\<close> wraps to 0.\<close>

definition below_top :: "u32 \<Rightarrow> u32 \<Rightarrow> u32 \<Rightarrow> bool" where
  "below_top d s n \<longleftrightarrow> unat d + unat n \<le> 2 ^ 32 \<and> unat s + unat n < 2 ^ 32"

theorem rt_memmove_moves:
  assumes "below_top dest src n"
  shows "rt_memmove m dest src n = (dest, moved m dest src (unat n))"
proof -
  have w: "unat dest + unat n \<le> 2 ^ 32" "unat src + unat n \<le> 2 ^ 32" using assms by (simp_all add: below_top_def)
  note a = add_no_wrap [OF w(1)] add_no_wrap [OF w(2)]
  have n: "unat n \<le> 2 ^ 32" using unat_ltE(2) [of n] by simp
  have sn: "unat (src + n) = unat src + unat n" using assms by (simp add: below_top_def unat_word_ariths)
  show ?thesis
  proof (cases "src < dest \<and> dest < src + n")
    case True
    have "src + of_nat i \<noteq> dest + of_nat j" if "i < j" "j < unat n" for i j
      using a(2) [of i] a(1) [of j] that True by (auto simp: word_less_nat_alt dest: arg_cong [of _ _ unat])
    then show ?thesis using True copy_down_moved [OF n, of src dest m] by (simp add: rt_memmove_def)
  next
    case False
    have "dest + of_nat i \<noteq> src + of_nat j" if "i < j" "j < unat n" for i j
    proof
      assume "dest + of_nat i = src + of_nat j"
      then have "unat dest + i = unat src + j" using a(1) [of i] a(2) [of j] that by simp
      then show False using False sn that by (auto simp: word_less_nat_alt)
    qed
    then show ?thesis using False copy_up_moved [OF n] unfolding rt_memmove_def by auto
  qed
qed

interpretation rt_mv: byte_mover rt_memmove below_top
  by unfold_locales (rule rt_memmove_moves)

interpretation rt_cp: byte_mover rt_memcpy no_overlap
  by unfold_locales (simp add: rt_memcpy_eq cp.moves)

section \<open>Searching and comparing\<close>

definition occurs_at :: "'a list \<Rightarrow> 'a list \<Rightarrow> nat \<Rightarrow> bool" where
  "occurs_at ys xs i \<longleftrightarrow> i + length ys \<le> length xs \<and> take (length ys) (drop i xs) = ys"

definition first_occurrence :: "'a list \<Rightarrow> 'a list \<Rightarrow> nat \<Rightarrow> bool" where
  "first_occurrence ys xs i \<longleftrightarrow> occurs_at ys xs i \<and> (\<forall>j < i. \<not> occurs_at ys xs j)"

lemma occurs_at_Cons: "\<not> occurs_at ys (x # xs) 0 \<Longrightarrow> occurs_at ys (x # xs) j \<longleftrightarrow> 0 < j \<and> occurs_at ys xs (j - 1)"
  by (cases j) (auto simp: occurs_at_def)

lemma first_occurrence_Suc: "\<not> occurs_at ys (x # xs) 0 \<Longrightarrow> first_occurrence ys xs i \<Longrightarrow> first_occurrence ys (x # xs) (Suc i)"
  by (auto simp: first_occurrence_def occurs_at_Cons)

lemma rt_memcmp_prefix:
  assumes "cstr m p xs" "cstr m q ys" "length ys \<le> length xs" "length xs < 2 ^ 31"
  shows "rt_memcmp m p q (word_of_int (int (length ys))) = 0 \<longleftrightarrow> occurs_at ys xs 0"
proof -
  have "unat (word_of_int (int (length ys)) :: u32) = length ys" using assms(3,4) by (simp add: unat_of_nat_lt)
  then have "rt_memcmp m p q (word_of_int (int (length ys))) = 0 \<longleftrightarrow> (\<forall>i < length ys. xs ! i = ys ! i)"
    using cstr_nth [OF assms(1)] cstr_nth [OF assms(2)] assms(3) by (auto simp: rt_memcmp_eq memcmp_def memcmp_zero_iff)
  then show ?thesis using assms(3) by (auto simp: occurs_at_def list_eq_iff_nth_eq)
qed

lemma strstr_loop_first:
  assumes "cstr m p xs" "cstr m q ys" "length xs < 2 ^ 31" "length ys < 2 ^ 31"
  defines "r \<equiv> strstr_loop m p q (int (length xs)) (int (length ys))"
  shows "(\<exists>i. r = p + of_nat i \<and> first_occurrence ys xs i) \<or> r = 0 \<and> (\<forall>i. \<not> occurs_at ys xs i)"
  using assms(1,3) unfolding r_def
proof (induction xs arbitrary: p)
  case Nil
  then show ?case using rt_memcmp_prefix [OF Nil(1) assms(2)]
    by (cases "ys = []") (auto simp: strstr_loop.simps [of m p q] occurs_at_def first_occurrence_def)
next
  case (Cons x xs)
  show ?case
  proof (cases "length ys \<le> length (x # xs)")
    case le: True
    note c = rt_memcmp_prefix [OF Cons.prems(1) assms(2) le Cons.prems(2)]
    show ?thesis
    proof (cases "occurs_at ys (x # xs) 0")
      case True
      then show ?thesis using le c by (intro disjI1 exI [of _ 0]) (auto simp: strstr_loop.simps [of m p q] first_occurrence_def)
    next
      case False
      then have e: "strstr_loop m p q (int (length (x # xs))) (int (length ys)) = strstr_loop m (p + 1) q (int (length xs)) (int (length ys))"
        using le c by (simp add: strstr_loop.simps [of m p q])
      have "cstr m (p + 1) xs" "length xs < 2 ^ 31" using Cons.prems by simp_all
      from Cons.IH [OF this] consider i where "strstr_loop m (p + 1) q (int (length xs)) (int (length ys)) = p + 1 + of_nat i" "first_occurrence ys xs i"
        | "strstr_loop m (p + 1) q (int (length xs)) (int (length ys)) = 0" "\<forall>i. \<not> occurs_at ys xs i" by blast
      then show ?thesis
      proof cases
        case (1 i)
        then show ?thesis unfolding e using first_occurrence_Suc [OF False] by (intro disjI1 exI [of _ "Suc i"]) (simp add: add.assoc)
      next
        case 2
        then show ?thesis unfolding e by (simp add: occurs_at_Cons [OF False])
      qed
    qed
  qed (simp add: strstr_loop.simps [of m p q] occurs_at_def)
qed

theorem rt_strstr_first:
  assumes "cstr m p xs" "cstr m q ys" "length xs < 2 ^ 31" "length ys < 2 ^ 31"
  shows "(\<exists>i. rt_strstr m p q = Some (p + of_nat i) \<and> first_occurrence ys xs i) \<or>
    rt_strstr m p q = Some 0 \<and> (\<forall>i. \<not> occurs_at ys xs i)"
proof -
  have s: "sint (of_nat n :: u32) = int n" if "n < 2 ^ 31" for n
  proof -
    have "int n < 2 ^ 31" using that by simp
    then show ?thesis using signed_take_bit_int_eq_self [of 31 "int n"] by (simp add: signed_of_nat)
  qed
  show ?thesis
  proof (cases "ys = []")
    case True
    have "occurs_at [] xs 0" by (simp add: occurs_at_def)
    then show ?thesis using True strlen_cstr [OF assms(2)]
      by (intro disjI1 exI [of _ 0]) (simp add: rt_strstr_def rt_strlen_eq first_occurrence_def)
  next
    case False
    then have "rt_strstr m p q = Some (strstr_loop m p q (int (length xs)) (int (length ys)))"
      using strlen_cstr [OF assms(1)] strlen_cstr [OF assms(2)] s [OF assms(3)] s [OF assms(4)]
      by (simp add: rt_strstr_def rt_strlen_eq)
    then show ?thesis using strstr_loop_first [OF assms] by auto
  qed
qed

lemma lower_case_uint: "lower_case (uint b) = 0 \<longleftrightarrow> b = (0 :: u8)" "0 \<le> lower_case (uint (b :: u8))"
  by (auto simp: lower_case_def unsigned_eq_0_iff)

theorem rt_strcasecmp_orders:
  assumes "cstr m p xs" "cstr m q ys"
  defines "low \<equiv> map (\<lambda>b. lower_case (uint (b :: u8)))"
  shows "\<exists>r. rt_strcasecmp m p q = Some r \<and> (r = 0 \<longleftrightarrow> low xs = low ys) \<and> (r < 0 \<longleftrightarrow> ord_class.lexordp (low xs) (low ys))"
  using assms(1,2) unfolding low_def
proof (induction xs arbitrary: p q ys)
  case Nil
  have "lower_case (uint (0 :: u8)) = 0" by (simp add: lower_case_def)
  moreover have "0 < lower_case (uint b)" if "b \<noteq> 0" for b :: u8
    using that lower_case_uint(1) [of b] lower_case_uint(2) [of b] by linarith
  ultimately show ?case using Nil lower_case_uint(1) by (cases ys) (auto simp: rt_strcasecmp.simps [of m p q] Let_def)
next
  case (Cons x xs)
  have z: "lower_case (uint (0 :: u8)) = 0" by (simp add: lower_case_def)
  have x: "m p = x" "x \<noteq> 0" "cstr m (p + 1) xs" "0 < lower_case (uint x)"
    using Cons.prems lower_case_uint(1) [of x] lower_case_uint(2) [of x] by (auto simp: less_le)
  show ?case
  proof (cases ys)
    case Nil
    then show ?thesis using Cons.prems x z by (auto simp: rt_strcasecmp.simps [of m p q] Let_def)
  next
    case ys: (Cons y zs)
    then have y: "m q = y" "cstr m (q + 1) zs" using Cons.prems by auto
    show ?thesis
    proof (cases "lower_case (uint x) = lower_case (uint y)")
      case True
      then show ?thesis using Cons.IH [OF x(3) y(2)] x y ys by (simp add: rt_strcasecmp.simps [of m p q] Let_def)
    next
      case False
      then show ?thesis using x y ys by (auto simp: rt_strcasecmp.simps [of m p q] Let_def)
    qed
  qed
qed

text \<open>\<^verbatim>\<open>rt_strncmp\<close> returns only the low byte of the difference, as a signed number.\<close>

theorem rt_strncmp_low_byte: "rt_strncmp m p q n = signed_take_bit 7 (strncmp m p q n)"
proof -
  have "rt_strncmp_loop k 0 m p q = word_of_int (strncmp_loop k m p q)" for k
  proof (induction k arbitrary: p q)
    case (Suc k)
    have "m p - m q = (word_of_int (uint (m p) - uint (m q)) :: u8)" by simp
    then show ?case using Suc [of "p + 1" "q + 1"] by (auto simp: Let_def)
  qed simp
  then show ?thesis by (simp add: rt_strncmp_def strncmp_def signed_of_int)
qed

corollary rt_strncmp_ascii:
  assumes "-128 \<le> strncmp m p q n" "strncmp m p q n < 128"
  shows "rt_strncmp m p q n = strncmp m p q n"
  using assms signed_take_bit_int_eq_self [of 7 "strncmp m p q n"] by (simp add: rt_strncmp_low_byte)

theorem rt_strncmp_wrong_sign: "\<exists>m p q. strncmp m p q 1 < 0 \<and> 0 < rt_strncmp m p q 1"
proof -
  let ?m = "\<lambda>a :: u32. if a = 0 then 0x61 else 0xe2 :: u8"
  have "strncmp ?m 0 1 1 = -129" by (simp add: strncmp_def)
  then have "strncmp ?m 0 1 1 < 0 \<and> 0 < rt_strncmp ?m 0 1 1" by (simp add: rt_strncmp_low_byte signed_take_bit_eq_take_bit_shift take_bit_eq_mod)
  then show ?thesis by blast
qed

theorem rt_strnlen_min:
  assumes "cstr m s xs" "length xs < 2 ^ 32"
  shows "unat (rt_strnlen m s maxlen) = min (length xs) (unat maxlen)"
proof -
  have "rt_strnlen_loop k m s = s + of_nat (min (length xs) k)" for k
    using assms(1)
  proof (induction k arbitrary: s xs)
    case 0
    then show ?case by (simp add: rt_strnlen_loop.simps [of 0])
  next
    case (Suc k)
    then show ?case using Suc.IH [of "s + 1" "tl xs"] by (cases xs) (auto simp: rt_strnlen_loop.simps [of "Suc k"] algebra_simps)
  qed
  then show ?thesis using assms(2) by (simp add: rt_strnlen_def unat_of_nat_lt)
qed

theorem rt_strdup_copies:
  assumes c: "cstr m s xs" "length xs + 1 < 2 ^ 32" and a: "alloc (of_nat (length xs) + 1) = Some p"
    and o: "no_overlap p s (of_nat (length xs) + 1)"
  shows "\<exists>m'. rt_strdup alloc m s = Some (Some p, m') \<and> cstr m' p xs \<and>
    (\<forall>b. length xs + 1 \<le> unat (b - p) \<longrightarrow> m' b = m b)"
proof -
  let ?n = "of_nat (length xs) + 1 :: u32"
  have n: "unat ?n = length xs + 1"
    using c(2) unat_of_nat_lt [of "length xs + 1"] by (simp add: add.commute)
  show ?thesis
    using strlen_cstr [OF c(1)] a n rt_cp.move_string [OF c(1) _ o] rt_cp.move_frame [OF o, of _ m]
    by (simp add: rt_strdup_def rt_strlen_eq Let_def)
qed

end
