(* ===== verification/Rt_Object.thy ===== *)
theory Rt_Object
  imports Rt_Service Rt_Kernel
begin

text \<open>
  The registry of kernel objects, \<^verbatim>\<open>rt-thread-am/src/object.c\<close>: a list of objects per class, and the name and
  type bytes at the start of each object in memory. An object is its address. The list nodes are not
  in the memory but sequences, as in the kernel; the critical sections around the searches, which hold
  the scheduler, and the hooks are left out. The table has the classes the board configures.
\<close>

definition OBJECT_NAME_MAX :: u32 where "OBJECT_NAME_MAX = 24"

datatype class_type = RT_Object_Class_Null | RT_Object_Class_Thread | RT_Object_Class_Semaphore | RT_Object_Class_Mutex
  | RT_Object_Class_Event | RT_Object_Class_MailBox | RT_Object_Class_MessageQueue | RT_Object_Class_MemHeap | RT_Object_Class_MemPool
  | RT_Object_Class_Device | RT_Object_Class_Timer | RT_Object_Class_Module | RT_Object_Class_Memory | RT_Object_Class_Channel
  | RT_Object_Class_Custom

fun class_code :: "class_type \<Rightarrow> u8" where
  "class_code RT_Object_Class_Null = 0" | "class_code RT_Object_Class_Thread = 1" | "class_code RT_Object_Class_Semaphore = 2"
| "class_code RT_Object_Class_Mutex = 3" | "class_code RT_Object_Class_Event = 4" | "class_code RT_Object_Class_MailBox = 5"
| "class_code RT_Object_Class_MessageQueue = 6" | "class_code RT_Object_Class_MemHeap = 7" | "class_code RT_Object_Class_MemPool = 8"
| "class_code RT_Object_Class_Device = 9" | "class_code RT_Object_Class_Timer = 10" | "class_code RT_Object_Class_Module = 11"
| "class_code RT_Object_Class_Memory = 12" | "class_code RT_Object_Class_Channel = 13" | "class_code RT_Object_Class_Custom = 14"

definition RT_Object_Class_Static :: u8 where "RT_Object_Class_Static = 0x80"

text \<open>\<open>oi_list\<close> is \<open>None\<close> for the list head of an entry without initialiser: two null pointers.\<close>

record object_information =
  oi_type :: class_type
  oi_list :: "u32 list option"
  oi_size :: u32

record registry =
  r_mem :: gmem
  r_container :: "object_information list"

definition off_type :: u32 where "off_type = OBJECT_NAME_MAX"
definition off_flag :: u32 where "off_flag = OBJECT_NAME_MAX + 1"

text \<open>
  \<^verbatim>\<open>_object_container\<close>: the enumeration of indices has \<^verbatim>\<open>RT_Object_Info_Custom\<close> whenever there is a heap, the
  initialiser has the entry of the custom objects only with \<^verbatim>\<open>RT_USING_SMART\<close>. \<open>sizes\<close> are the sizes of the structures.
\<close>

definition object_container :: "(class_type \<Rightarrow> u32) \<Rightarrow> object_information list" where
  "object_container sizes =
     map (\<lambda>c. \<lparr>oi_type = c, oi_list = Some [], oi_size = sizes c\<rparr>)
       [RT_Object_Class_Thread, RT_Object_Class_Semaphore, RT_Object_Class_Mutex, RT_Object_Class_Event, RT_Object_Class_MailBox,
        RT_Object_Class_MessageQueue, RT_Object_Class_MemPool, RT_Object_Class_Device, RT_Object_Class_Timer, RT_Object_Class_Memory]
     @ [\<lparr>oi_type = RT_Object_Class_Null, oi_list = None, oi_size = 0\<rparr>]"

section \<open>Operations\<close>

fun get_information :: "class_type \<Rightarrow> object_information list \<Rightarrow> nat option" where
  "get_information c [] = None"
| "get_information c (i # is) = (if oi_type i = c then Some 0 else map_option Suc (get_information c is))"

definition rt_object_get_information :: "class_type \<Rightarrow> registry \<Rightarrow> nat option" where
  "rt_object_get_information c r = get_information c (r_container r)"

text \<open>The objects on the list of an entry; walking an uninitialised list follows a null pointer.\<close>

definition objects_at :: "nat \<Rightarrow> registry \<Rightarrow> u32 list res" where
  "objects_at i r = (case oi_list (r_container r ! i) of None \<Rightarrow> Inl (Bad_access ''object_list'') | Some l \<Rightarrow> Inr l)"

definition set_objects :: "nat \<Rightarrow> u32 list \<Rightarrow> registry \<Rightarrow> registry" where
  "set_objects i l r = r\<lparr>r_container := (r_container r)[i := (r_container r ! i)\<lparr>oi_list := Some l\<rparr>]\<rparr>"

definition unlist :: "u32 \<Rightarrow> registry \<Rightarrow> registry" where
  "unlist ob r = r\<lparr>r_container := map (\<lambda>i. i\<lparr>oi_list := map_option (removeAll ob) (oi_list i)\<rparr>) (r_container r)\<rparr>"

definition set_byte :: "u32 \<Rightarrow> u8 \<Rightarrow> registry \<Rightarrow> registry" where "set_byte a b r = r\<lparr>r_mem := (r_mem r)(a := b)\<rparr>"

definition rt_object_get_length :: "class_type \<Rightarrow> registry \<Rightarrow> nat res" where
  "rt_object_get_length c r =
     (case rt_object_get_information c r of None \<Rightarrow> Inr 0 | Some i \<Rightarrow> bindR (objects_at i r) (\<lambda>l. Inr (length l)))"

text \<open>The objects written to the array, at most \<^verbatim>\<open>maxlen\<close>.\<close>

definition rt_object_get_pointers :: "class_type \<Rightarrow> int \<Rightarrow> registry \<Rightarrow> u32 list res" where
  "rt_object_get_pointers c maxlen r =
     (if maxlen \<le> 0 then Inr []
      else case rt_object_get_information c r of None \<Rightarrow> Inr [] | Some i \<Rightarrow> bindR (objects_at i r) (\<lambda>l. Inr (take (nat maxlen) l)))"

definition rt_object_init :: "u32 \<Rightarrow> class_type \<Rightarrow> u32 \<Rightarrow> registry \<Rightarrow> registry res" where
  "rt_object_init ob c name r =
     (case rt_object_get_information c r of
        None \<Rightarrow> Inl (Assert_fail ''information != RT_NULL'')
      | Some i \<Rightarrow>
          bindR (objects_at i r) (\<lambda>l.
          assertR (ob \<notin> set l) ''obj != object''
            (let r = set_byte (ob + off_type) (class_code c OR RT_Object_Class_Static) r;
                 r = r\<lparr>r_mem := snd (rt_strncpy (r_mem r) ob name OBJECT_NAME_MAX)\<rparr>
             in Inr (set_objects i (ob # l) r))))"

definition rt_object_detach :: "u32 \<Rightarrow> registry \<Rightarrow> registry" where
  "rt_object_detach ob r = unlist ob (set_byte (ob + off_type) 0 r)"

text \<open>\<open>alloc\<close> is what \<^verbatim>\<open>RT_KERNEL_MALLOC\<close> returns for a size.\<close>

definition rt_object_allocate :: "(u32 \<Rightarrow> u32 option) \<Rightarrow> class_type \<Rightarrow> u32 \<Rightarrow> registry \<Rightarrow> (u32 option \<times> registry) res" where
  "rt_object_allocate alloc c name r =
     (case rt_object_get_information c r of
        None \<Rightarrow> Inl (Assert_fail ''information != RT_NULL'')
      | Some i \<Rightarrow>
          (case alloc (oi_size (r_container r ! i)) of
             None \<Rightarrow> Inr (None, r)
           | Some ob \<Rightarrow>
               let r = r\<lparr>r_mem := snd (rt_memset (r_mem r) ob 0 (oi_size (r_container r ! i)))\<rparr>;
                   r = set_byte (ob + off_type) (class_code c) r;
                   r = set_byte (ob + off_flag) 0 r;
                   r = r\<lparr>r_mem := snd (rt_strncpy (r_mem r) ob name OBJECT_NAME_MAX)\<rparr>
               in bindR (objects_at i r) (\<lambda>l. Inr (Some ob, set_objects i (ob # l) r))))"

text \<open>With the object whose memory is freed.\<close>

definition rt_object_delete :: "u32 \<Rightarrow> registry \<Rightarrow> (u32 \<times> registry) res" where
  "rt_object_delete ob r =
     assertR (r_mem r (ob + off_type) AND RT_Object_Class_Static = 0) ''!(object->type & RT_Object_Class_Static)''
       (Inr (ob, unlist ob (set_byte (ob + off_type) (class_code RT_Object_Class_Null) r)))"

definition rt_object_is_systemobject :: "u32 \<Rightarrow> registry \<Rightarrow> bool" where
  "rt_object_is_systemobject ob r \<longleftrightarrow> r_mem r (ob + off_type) AND RT_Object_Class_Static \<noteq> 0"

definition rt_object_get_type :: "u32 \<Rightarrow> registry \<Rightarrow> u8" where
  "rt_object_get_type ob r = r_mem r (ob + off_type) AND NOT RT_Object_Class_Static"

fun find_name :: "gmem \<Rightarrow> u32 \<Rightarrow> u32 list \<Rightarrow> u32 option" where
  "find_name m name [] = None"
| "find_name m name (ob # l) = (if rt_strncmp m ob name OBJECT_NAME_MAX = 0 then Some ob else find_name m name l)"

definition rt_object_find :: "u32 \<Rightarrow> class_type \<Rightarrow> registry \<Rightarrow> u32 option res" where
  "rt_object_find name c r =
     (case rt_object_get_information c r of
        None \<Rightarrow> Inr None
      | Some i \<Rightarrow> if name = 0 then Inr None else bindR (objects_at i r) (\<lambda>l. Inr (find_name (r_mem r) name l)))"

definition rt_object_get_name :: "u32 \<Rightarrow> u32 \<Rightarrow> u8 \<Rightarrow> registry \<Rightarrow> int \<times> registry" where
  "rt_object_get_name ob name name_size r =
     (if ob \<noteq> 0 \<and> name \<noteq> 0 \<and> name_size \<noteq> 0 then (RT_EOK, r\<lparr>r_mem := snd (rt_strncpy (r_mem r) name ob (ucast name_size))\<rparr>)
      else (- RT_EINVAL, r))"

definition rt_custom_object_create :: "(u32 \<Rightarrow> u32 option) \<Rightarrow> u32 \<Rightarrow> registry \<Rightarrow> (u32 option \<times> registry) res" where
  "rt_custom_object_create alloc name r = rt_object_allocate alloc RT_Object_Class_Custom name r"

section \<open>Names\<close>

lemma strncpy_pad_fills:
  assumes "n \<le> 2 ^ 32"
  shows "strncpy_pad n m d = (\<lambda>a. if unat (a - d) < n then 0 else m a)"
proof -
  have "strncpy_pad n m d = memset_loop n m d 0" for n m d by (induction n arbitrary: m d) simp_all
  then show ?thesis using memset_fills [OF assms] by simp
qed

lemma unat_step: "a \<noteq> d \<Longrightarrow> unat (a - (d + 1) :: u32) = unat (a - d) - 1"
  using unat_minus_1 [of "a - d"] by (simp add: algebra_simps)

text \<open>Copying a name writes the field and nothing else.\<close>

lemma rt_strncpy_loop_frame:
  assumes "n \<le> 2 ^ 32" "n \<le> unat (a - d)"
  shows "rt_strncpy_loop n m d s a = m a"
  using assms
proof (induction n arbitrary: m d s)
  case (Suc n)
  have ne: "a \<noteq> d" using Suc.prems(2) by auto
  have "n \<le> unat (a - (d + 1))" using Suc.prems(2) unat_step [OF ne] by simp
  then show ?case using Suc ne by (auto simp: Let_def strncpy_pad_fills)
qed simp

text \<open>A name that has been copied compares equal to its source.\<close>

lemma rt_strncpy_compares:
  assumes "n \<le> 2 ^ 32" "\<And>i j. i < n \<Longrightarrow> j < n \<Longrightarrow> d + of_nat i \<noteq> s + of_nat j"
  shows "strncmp_loop n (rt_strncpy_loop n m d s) d s = 0"
  using assms
proof (induction n arbitrary: m d s)
  case (Suc n)
  let ?m = "m(d := m s)" and ?r = "rt_strncpy_loop (Suc n) m d s"
  have far: "unat (d - (d + 1)) = 2 ^ 32 - 1" by (simp add: unsigned_minus_1_eq_mask mask_eq_exp_minus_1)
  have nd: "n \<le> unat (d - (d + 1))" using Suc.prems(1) unfolding far by simp
  have ns: "unat (s - d) \<ge> Suc n"
  proof (rule ccontr)
    assume "\<not> Suc n \<le> unat (s - d)"
    then show False using Suc.prems(2) [of "unat (s - d)" 0] by simp
  qed
  have s: "?r s = m s" using rt_strncpy_loop_frame [OF Suc.prems(1) ns] .
  show ?case
  proof (cases "m s = 0")
    case True
    then have "?r d = 0" using Suc.prems(1) nd by (auto simp: Let_def strncpy_pad_fills)
    then show ?thesis using True s by simp
  next
    case False
    have r: "?r = rt_strncpy_loop n ?m (d + 1) (s + 1)" using False by (simp add: Let_def)
    have "?r d = m s" unfolding r using rt_strncpy_loop_frame [of n d "d + 1" ?m "s + 1"] Suc.prems(1) nd by simp
    moreover have "strncmp_loop n (rt_strncpy_loop n ?m (d + 1) (s + 1)) (d + 1) (s + 1) = 0"
    proof (rule Suc.IH)
      show "n \<le> 2 ^ 32" using Suc.prems(1) by simp
      show "d + 1 + of_nat i \<noteq> s + 1 + of_nat j" if "i < n" "j < n" for i j using Suc.prems(2) [of "Suc i" "Suc j"] that by simp
    qed
    ultimately show ?thesis using s False r by simp
  qed
qed simp

section \<open>The registry as lists of objects\<close>

lemma get_information_bound: "get_information c is = Some i \<Longrightarrow> i < length is \<and> oi_type (is ! i) = c"
  by (induction "is" arbitrary: i) (auto split: if_splits)

lemma get_information_types: "map oi_type is = map oi_type js \<Longrightarrow> get_information c is = get_information c js"
  by (induction "is" js rule: list_induct2') auto

lemma types_upd: "map oi_type (is[i := (is ! i)\<lparr>oi_list := l\<rparr>]) = map oi_type is"
  by (cases "i < length is") (simp_all add: map_update list_update_same_conv list_update_beyond)

lemma information_upd [simp]:
  "rt_object_get_information c (set_objects i l r) = rt_object_get_information c r" "rt_object_get_information c (set_byte a b r) = rt_object_get_information c r"
  "rt_object_get_information c (r\<lparr>r_mem := m\<rparr>) = rt_object_get_information c r" "rt_object_get_information c (unlist ob r) = rt_object_get_information c r"
  using get_information_types [OF types_upd, of c "r_container r" i "Some l"]
    get_information_types [of "map (\<lambda>i. i\<lparr>oi_list := map_option (removeAll ob) (oi_list i)\<rparr>) (r_container r)" "r_container r" c]
  by (simp_all add: rt_object_get_information_def set_objects_def set_byte_def unlist_def comp_def)

lemma registry_simps [simp]:
  "r_mem (set_objects i l r) = r_mem r" "r_mem (unlist ob r) = r_mem r" "r_mem (set_byte a b r) = (r_mem r)(a := b)"
  "r_container (set_byte a b r) = r_container r"
  by (simp_all add: set_objects_def unlist_def set_byte_def)

text \<open>The objects of a class, the one registered last first.\<close>

definition objects :: "class_type \<Rightarrow> registry \<Rightarrow> u32 list res" where
  "objects c r = (case rt_object_get_information c r of None \<Rightarrow> Inr [] | Some i \<Rightarrow> objects_at i r)"

lemma objects_set:
  assumes "rt_object_get_information c r = Some i"
  shows "objects c' (set_objects i l r) = (if c' = c then Inr l else objects c' r)"
proof -
  have i: "i < length (r_container r)" "oi_type (r_container r ! i) = c" using get_information_bound [of c "r_container r" i] assms by (simp_all add: rt_object_get_information_def)
  show ?thesis
  proof (cases "rt_object_get_information c' r")
    case None
    then have "c' \<noteq> c" using assms by force
    then show ?thesis unfolding objects_def information_upd by (simp add: None)
  next
    case (Some j)
    then have j: "oi_type (r_container r ! j) = c'" using get_information_bound [of c' "r_container r" j] by (simp add: rt_object_get_information_def)
    have "objects_at j (set_objects i l r) = (if j = i then Inr l else objects_at j r)"
      using i(1) by (simp add: objects_at_def set_objects_def nth_list_update)
    moreover have "j = i \<longleftrightarrow> c' = c"
    proof
      assume "j = i"
      then show "c' = c" using i(2) j by simp
    next
      assume "c' = c"
      then show "j = i" using assms Some by simp
    qed
    moreover have "objects c' (set_objects i l r) = objects_at j (set_objects i l r)" "objects c' r = objects_at j r"
      unfolding objects_def information_upd by (simp_all add: Some)
    ultimately show ?thesis by simp
  qed
qed

lemma objects_frame [simp]: "objects c (set_byte a b r) = objects c r" "objects c (r\<lparr>r_mem := m\<rparr>) = objects c r"
  unfolding objects_def information_upd by (auto simp: objects_at_def set_byte_def split: option.splits)

lemma objects_unlist: "objects c (unlist ob r) = (case objects c r of Inl e \<Rightarrow> Inl e | Inr l \<Rightarrow> Inr (removeAll ob l))"
proof (cases "rt_object_get_information c r")
  case (Some i)
  then have "i < length (r_container r)" using get_information_bound [of c "r_container r" i] by (simp add: rt_object_get_information_def)
  then show ?thesis unfolding objects_def information_upd Some by (simp add: objects_at_def unlist_def split: option.splits)
qed (simp add: objects_def)

lemma find_name_spec:
  "find_name m name l = Some ob \<Longrightarrow> ob \<in> set l \<and> rt_strncmp m ob name OBJECT_NAME_MAX = 0"
  "find_name m name l = None \<longleftrightarrow> (\<forall>ob \<in> set l. rt_strncmp m ob name OBJECT_NAME_MAX \<noteq> 0)"
  by (induction l) (auto split: if_splits)

lemma find_eq: "rt_object_find name c r = (if name = 0 then Inr None else bindR (objects c r) (\<lambda>l. Inr (find_name (r_mem r) name l)))"
  by (simp add: rt_object_find_def objects_def split: option.splits)

lemma object_init_eq:
  fixes name
  assumes "rt_object_get_information c r = Some i" "objects c r = Inr l" "ob \<notin> set l"
  defines "m \<equiv> snd (rt_strncpy ((r_mem r)(ob + off_type := class_code c OR RT_Object_Class_Static)) ob name OBJECT_NAME_MAX)"
  shows "rt_object_init ob c name r = Inr (set_objects i (ob # l) (r\<lparr>r_mem := m\<rparr>))"
proof -
  have "objects_at i r = Inr l" using assms(1,2) by (simp add: objects_def)
  moreover have "set_objects i (ob # l) ((set_byte a b r)\<lparr>r_mem := m'\<rparr>) = set_objects i (ob # l) (r\<lparr>r_mem := m'\<rparr>)" for a b m'
    by (simp add: set_objects_def set_byte_def)
  ultimately show ?thesis using assms(1,3) by (simp add: rt_object_init_def Let_def m_def)
qed

text \<open>The name does not lie in the name or type field of the object.\<close>

definition name_apart :: "u32 \<Rightarrow> u32 \<Rightarrow> bool" where
  "name_apart ob name \<longleftrightarrow> (\<forall>i < 25. \<forall>j < 24. ob + of_nat i \<noteq> name + of_nat j)"

lemma name_apartI:
  assumes "unat ob + 25 \<le> unat name" "unat name + 24 \<le> 2 ^ 32"
  shows "name_apart ob name"
  unfolding name_apart_def
proof (intro allI impI)
  fix i j :: nat assume "i < 25" "j < 24"
  moreover have "unat ob + 25 \<le> 2 ^ 32" using assms by linarith
  ultimately have "unat (ob + of_nat i) < unat (name + of_nat j)"
    using add_no_wrap [of ob 25 i] add_no_wrap [OF assms(2), of j] assms(1) by simp
  then show "ob + of_nat i \<noteq> name + of_nat j" by auto
qed

theorem rt_object_init_registers:
  assumes i: "rt_object_get_information c r = Some i" and l: "objects c r = Inr l" "ob \<notin> set l" and n: "name \<noteq> 0" "name_apart ob name"
  shows "\<exists>r'. rt_object_init ob c name r = Inr r' \<and> rt_object_find name c r' = Inr (Some ob) \<and> objects c r' = Inr (ob # l) \<and>
    (\<forall>c'. c' \<noteq> c \<longrightarrow> objects c' r' = objects c' r) \<and> r_mem r' (ob + off_type) = class_code c OR RT_Object_Class_Static \<and>
    (\<forall>a. 25 \<le> unat (a - ob) \<longrightarrow> r_mem r' a = r_mem r a)"
proof -
  let ?m0 = "(r_mem r)(ob + off_type := class_code c OR RT_Object_Class_Static)"
  define m where "m = snd (rt_strncpy ?m0 ob name OBJECT_NAME_MAX)"
  let ?r = "set_objects i (ob # l) (r\<lparr>r_mem := m\<rparr>)"
  have e: "rt_object_init ob c name r = Inr ?r" unfolding m_def by (rule object_init_eq [OF i l])
  have u: "unat OBJECT_NAME_MAX = 24" by (simp add: OBJECT_NAME_MAX_def)
  have ml: "m = rt_strncpy_loop 24 ?m0 ob name" by (simp add: m_def rt_strncpy_def u)
  have "strncmp_loop 24 m ob name = 0"
    unfolding ml using n(2) by (intro rt_strncpy_compares) (simp_all add: name_apart_def)
  then have cmp: "rt_strncmp m ob name OBJECT_NAME_MAX = 0" by (simp add: rt_strncmp_low_byte strncmp_def u)
  have o: "objects c' ?r = (if c' = c then Inr (ob # l) else objects c' r)" for c' using objects_set [of c "r\<lparr>r_mem := m\<rparr>" i] i by simp
  have "rt_object_find name c ?r = Inr (Some ob)" using n(1) cmp o by (simp add: find_eq)
  moreover have fr: "m a = ?m0 a" if "24 \<le> unat (a - ob)" for a unfolding ml using that by (intro rt_strncpy_loop_frame) simp_all
  have "m (ob + off_type) = class_code c OR RT_Object_Class_Static" using fr [of "ob + off_type"] by (simp add: off_type_def u)
  moreover have "m a = r_mem r a" if "25 \<le> unat (a - ob)" for a
  proof -
    have "unat (off_type) = 24" by (simp add: off_type_def u)
    then have "a \<noteq> ob + off_type" using that by auto
    then show ?thesis using fr [of a] that by simp
  qed
  ultimately show ?thesis using e o by (intro exI [of _ ?r]) simp
qed

theorem rt_object_detach_unregisters:
  shows "\<And>l. objects c r = Inr l \<Longrightarrow> objects c (rt_object_detach ob r) = Inr (removeAll ob l)"
    and "rt_object_find name c (rt_object_detach ob r) \<noteq> Inr (Some ob)"
    and "rt_object_get_type ob (rt_object_detach ob r) = class_code RT_Object_Class_Null"
proof -
  show 1: "objects c (rt_object_detach ob r) = Inr (removeAll ob l)" if "objects c r = Inr l" for l
    using that by (simp add: rt_object_detach_def objects_unlist)
  show "rt_object_find name c (rt_object_detach ob r) \<noteq> Inr (Some ob)"
  proof (cases "objects c r")
    case (Inl e)
    then show ?thesis by (simp add: find_eq rt_object_detach_def objects_unlist)
  next
    case (Inr l)
    show ?thesis using find_name_spec(1) [of "r_mem (rt_object_detach ob r)" name "removeAll ob l" ob] by (auto simp: find_eq 1 [OF Inr])
  qed
qed (simp add: rt_object_get_type_def rt_object_detach_def)

text \<open>The classes of the board's table, whatever has been registered since.\<close>

definition board_classes :: "registry \<Rightarrow> bool" where
  "board_classes r \<longleftrightarrow> map oi_type (r_container r) = map oi_type (object_container (\<lambda>_. 0))"

theorem custom_objects_have_no_class:
  assumes "board_classes r"
  shows "rt_custom_object_create alloc name r = Inl (Assert_fail ''information != RT_NULL'')"
proof -
  have "rt_object_get_information RT_Object_Class_Custom r = get_information RT_Object_Class_Custom (object_container (\<lambda>_. 0))"
    unfolding rt_object_get_information_def using assms by (intro get_information_types) (simp add: board_classes_def)
  then show ?thesis by (simp add: rt_custom_object_create_def rt_object_allocate_def object_container_def)
qed

theorem null_class_is_not_a_list:
  assumes "r_container r = object_container sizes" "name \<noteq> 0"
  shows "rt_object_find name RT_Object_Class_Null r = Inl (Bad_access ''object_list'')"
proof -
  have "rt_object_get_information RT_Object_Class_Null r = Some 10"
    by (simp add: rt_object_get_information_def assms(1) object_container_def)
  then show ?thesis using assms(2) by (simp add: rt_object_find_def objects_at_def assms(1) object_container_def)
qed

end
