(* ===== verification/Spec2Isabelle.thy ===== *)
theory Spec2Isabelle
  imports Npc_Config Klib_Int64 Klib_Stdio Rt_Example Rt_Mailbox Rt_Event Rt_Malloc Rt_Mempool Rt_System Rt_Object
begin

text \<open>
  A model of three programs of this repository that run on top of one another, and of the theorems that
  make them correct:

  \<^item> NEMU (\<^verbatim>\<open>src/nemu\<close>), the instruction set simulator: a RISC-V RV32IM interpreter with memory,
    device windows, a debugger, a history of retired instructions and differential testing;
  \<^item> klib (\<^verbatim>\<open>src/abstract-machine/klib\<close>), the C library the guest programs link;
  \<^item> the RT-Thread kernel (\<^verbatim>\<open>src/rt-thread-am\<close>) as the board \<^verbatim>\<open>bsp/abstract-machine\<close> configures it: one
    processor, 32 priorities, threads, timers, semaphores, mutexes, events, mailboxes and message
    queues, memory pools and a heap.

  The guest programs (klib, RT-Thread) are compiled for the machine NEMU interprets. The theories below
  do not compose them through the compiler: each part is modelled from its C source.

  \<^bold>\<open>Conventions.\<close> A C function is a HOL function of the same name; where it reads or writes static
  variables, objects or memory, the state is a record that it takes and returns. A function that may end
  the process returns \<open>'a res\<close>, the sum of an \<open>abort\<close> (\<open>Assert_fail\<close> for a failed assertion or
  \<^verbatim>\<open>panic\<close>, \<open>Bad_access\<close> for an access outside a C object) and a
  value; \<open>bindR\<close> sequences them. C integers are words of their width. What is not in the repository
  (the build configuration, the reference simulator of differential testing, files, key maps, the input
  of the user) is an argument of the definitions.

  \<^bold>\<open>Shared vocabulary.\<close> \<open>Prelude\<close> (results, words, little-endian bytes, signed division), \<open>Ring\<close>
  (circular arrays; the locales \<open>bounded_fifo\<close> and \<open>bounded_history\<close>), \<open>Macros\<close>
  (\<^verbatim>\<open>macro.h\<close>, \<^verbatim>\<open>pattern_decode\<close> of \<^verbatim>\<open>cpu/decode.h\<close>).

  \<^bold>\<open>NEMU.\<close>
  \<^item> \<open>Nemu_State\<close>: the configuration (\<^verbatim>\<open>autoconf.h\<close>) and the record of all static variables.
  \<^item> \<open>Host_Memory\<close>, \<open>Paddr\<close>: the bytes of host objects and the guest memory of
    \<^verbatim>\<open>memory/paddr.c\<close>; the locales \<open>byte_store\<close> and \<open>guest_ram\<close> state what a load sees after stores.
  \<^item> \<open>Devices\<close>, \<open>Key_Queue\<close>, \<open>Mmio\<close>, \<open>Io_Safety\<close>: the device handlers
    (\<^verbatim>\<open>device/*.c\<close>), the queue of key codes as an interpretation of \<open>bounded_fifo\<close>, the windows of
    \<^verbatim>\<open>device/io/map.c\<close> and \<^verbatim>\<open>mmio.c\<close>, and the proof that no handler leaves the device space.
  \<^item> \<open>Bus\<close>: \<^verbatim>\<open>paddr_read\<close>, \<^verbatim>\<open>paddr_write\<close> and \<^verbatim>\<open>memory/vaddr.c\<close>.
  \<^item> \<open>Riscv32\<close>, \<open>Riscv_Fields\<close>, \<open>Riscv_Decode\<close>, \<open>Riscv_Exec\<close>: \<^verbatim>\<open>isa/riscv32\<close>; the
    ordered pattern table against the decoder of the manual (it lacks FENCE, FENCE.I and WFI), immediates round trip, the arithmetic is that of
    the manual, the register file stays well-formed, faults are precise.
  \<^item> \<open>Commit_Ring\<close>: \<^verbatim>\<open>utils/state.c\<close> and \<^verbatim>\<open>commit_event.h\<close>, an interpretation of \<open>bounded_history\<close>.
  \<^item> \<open>Cpu_Exec\<close>, \<open>Cpu_Props\<close>: \<^verbatim>\<open>cpu/cpu-exec.c\<close> and the checking step of
    \<^verbatim>\<open>cpu/difftest/dut.c\<close>. The loop is structural in the number of instructions asked for, so no fuel
    is needed. The invariant \<open>nemu_inv\<close>, the limit, running in pieces.
  \<^item> \<open>C_Lib\<close>, \<open>Breakpoints\<close>, \<open>Sdb\<close>, \<open>Monitor\<close>, \<open>Npc_Config\<close>: the host library functions on
    strings, the debugger of \<^verbatim>\<open>monitor/sdb/sdb.c\<close>, start-up, and a concrete build for the witnesses.
  \<^noindent>
  C1, C2 and C4 to C14 are about this part: the invariant of a whole session, safety of every host access,
  decoding, execution, memory, devices and the event history.

  \<^bold>\<open>klib.\<close>
  \<^item> \<open>Klib_Int64\<close>: \<^verbatim>\<open>int64.c\<close>; the shift-and-subtract division against \<open>div\<close> and \<open>mod\<close>.
  \<^item> \<open>Klib_String\<close>: \<^verbatim>\<open>string.c\<close> and \<^verbatim>\<open>ctype.c\<close> on a byte memory indexed by 32-bit addresses. Loops
    that end only at a NUL are \<open>partial_function (option)\<close>, with the theorem that they return on
    strings (\<open>cstr\<close>). The locale \<open>byte_mover\<close> is the contract \<^verbatim>\<open>memcpy\<close> and \<^verbatim>\<open>memmove\<close> share.
  \<^item> \<open>Klib_Stdlib\<close>: number parsing (signed overflow, undefined in C, is an error value), \<^verbatim>\<open>rand\<close>, and
    \<^verbatim>\<open>malloc\<close> with its static pointer as state.
  \<^item> \<open>Klib_Stdio\<close>: the output functions over one backend, with the variable arguments as a list.
  \<^noindent>
  C15, C16, C18 and C19: division, overlapping copies, the buffer bound of \<^verbatim>\<open>vsnprintf\<close>, and reading back
  printed numbers.

  \<^bold>\<open>RT-Thread.\<close> Interrupts are disabled inside the modelled functions, so each is one step. A call that
  may block is split at its context switch: the function returns \<open>None\<close> when its thread has blocked and
  the continuation, named \<open>..._end\<close>, is what the thread executes when it runs again.
  \<^item> \<open>Rt_List\<close>: the doubly linked lists of \<^verbatim>\<open>rtservice.h\<close> on a store of pointers, and the refinement
    \<open>represents\<close> to sequences. The kernel theories use the sequences.
  \<^item> \<open>Rt_Kernel\<close>: the record \<open>kernel\<close>: threads, list heads with their sequences, the ready bitmap, the
    scheduler lock, the tick, timers, the IPC objects, and the trace of context switches.
  \<^item> \<open>Rt_Sched\<close>: \<^verbatim>\<open>scheduler_up.c\<close> and \<^verbatim>\<open>__rt_ffs\<close>; the invariant \<open>sched_inv\<close> (the bitmap is exact,
    every thread is on the list of its state and on no other) and \<open>runs_highest\<close>.
  \<^item> \<open>Rt_Timer\<close>: \<^verbatim>\<open>timer.c\<close>, the list ordered by expiry modulo the tick, and \<^verbatim>\<open>clock.c\<close>.
  \<^item> \<open>Rt_Thread\<close>: \<^verbatim>\<open>thread.c\<close>: start, suspend, resume, yield, sleep, delay, time out, priorities.
  \<^item> \<open>Rt_Ipc\<close>, \<open>Rt_Sem\<close>: the suspended lists and the semaphores of \<^verbatim>\<open>ipc.c\<close>.
  \<^item> \<open>Rt_Mutex\<close>, \<open>Rt_Mutex_Ops\<close>: the mutexes. \<open>mutex_inv\<close> says that each thread has exactly the most
    urgent of its own priority, the ceilings of its mutexes and the priorities of those who wait for
    them. The walk along the chain of owners is a \<open>partial_function\<close>, proved to end even when the
    chain is a cycle, because the priority it carries is smaller than that of every thread it has
    still to visit.
  \<^item> \<open>Rt_Wait\<close>: the loop with a shrinking time limit that the queues share; a call is \<open>Done\<close>, or
    \<open>Blocked\<close> with the state of its local variables.
  \<^item> \<open>Rt_Mailbox\<close>, \<open>Rt_Event\<close>: mailboxes, an interpretation of \<open>bounded_fifo\<close>, and events, against
    the specification \<open>event_deliver\<close> of who gets what.
  \<^item> \<open>Rt_Mq\<close>: message queues, two linked lists over one pool of blocks; \<open>mq_rep\<close> gives the messages in
    order and the free blocks, \<open>mq_items\<close> the bytes of the messages.
  \<^item> \<open>Rt_Mempool\<close>: the memory pools of \<^verbatim>\<open>mempool.c\<close>; \<open>mp_rep\<close> gives the free blocks and those in use.
  \<^item> \<open>Rt_Smem\<close>, \<open>Rt_Heap\<close>: the small memory heap of \<^verbatim>\<open>mem.c\<close> on the words of memory. \<open>smem_inv\<close> says that the
    headers describe a sequence of blocks, no two free ones adjacent, with the first free block and the
    amount in use right; \<open>heap_layout\<close> reads that sequence back and \<open>live\<close> is the set of blocks in use.
  \<^item> \<open>Rt_Heap_Ops\<close>: allocation, freeing and initialisation on \<open>live\<close>, and the locale \<open>block_heap\<close>, whose
    clients are programs of allocations and frees; the heap is its interpretation.
  \<^item> \<open>Rt_Realloc\<close>, \<open>Rt_Malloc\<close>: resizing, and the system heap of \<^verbatim>\<open>kservice.c\<close> behind its mutex: \<^verbatim>\<open>rt_malloc\<close>,
    \<^verbatim>\<open>rt_realloc\<close>, \<^verbatim>\<open>rt_calloc\<close>, \<^verbatim>\<open>rt_free\<close>, aligned blocks, and the walk of \<^verbatim>\<open>memcheck\<close>.
  \<^item> \<open>Rt_Service\<close>: the memory and string functions of \<^verbatim>\<open>kservice.c\<close> on the byte memory of \<open>Klib_String\<close>. The
    loops on words and blocks of words have the effect of klib's loops on bytes; copying is an
    interpretation of \<open>byte_mover\<close>.
  \<^item> \<open>Rt_System\<close>: start-up (\<^verbatim>\<open>components.c\<close>), exit, detach, delete and control of threads (\<^verbatim>\<open>thread.c\<close>) and the
    idle thread's loop over the threads that have ended (\<^verbatim>\<open>idle.c\<close>), a \<open>partial_function\<close> proved to end.
  \<^item> \<open>Rt_Object\<close>: the registry of \<^verbatim>\<open>object.c\<close>: a list of objects per class, names compared with \<^verbatim>\<open>rt_strncmp\<close>.
  \<^item> \<open>Rt_Example\<close>: concrete kernel states for the witnesses.
  \<^noindent>
  C3, C17 and C20 to C40: start-up, which establishes the kernel invariant; the word routines; the list
  refinement, preservation of the invariant, the choice of the scheduler, starvation under yield,
  timers, the termination of waking all waiters, semaphores, priority inheritance and a null pointer in
  it, mailboxes, events, message queues, memory pools, and the heap: allocation, programs over it,
  freeing, resizing, aligned blocks and sizes that wrap around. Theorems without a number add the exit of
  threads and the registry.

  \<^bold>\<open>Not modelled.\<close> Host input and output (SDL drawing, \<^verbatim>\<open>dlopen\<close>, signals, the parsing of the command
  line), log lines and host timing; the skeleton interpreters for other instruction sets; the Verilog
  processor and its test bench; inline assembly and exception entry of the abstract machine; the parts
  of RT-Thread this board does not configure (signals, several processors, memheap, slab, Smart) and its
  components (file systems, network, shell, drivers). The
  formatting and console functions of the kernel are left out, and so are the expiry loops of its timers:
  the board has no timer interrupt and nothing calls \<^verbatim>\<open>rt_tick_increase\<close>, so its tick stays 0. Stack checks and hooks of RT-Thread only print
  or call out and are left out.

  \<^bold>\<open>Plan.\<close> The device interface of RT-Thread, then the formatting functions of \<^verbatim>\<open>kservice.c\<close>.
\<close>

section \<open>NEMU: the whole simulator\<close>

text \<open>
  C1: A session of NEMU keeps its invariant. For every well-formed build configuration, whatever the
  options, the image, the host and the user's commands are, if \<^verbatim>\<open>main\<close> returns then the simulator
  is in a state where memory and device windows are set up, register 0 is 0 and the register file has
  its size, and the commit ring and the breakpoint table are well-formed.
\<close>

theorem session_keeps_invariant:
  assumes "wf_mem_config c" and "wf_dev_config c"
    and "nemu_main c R h opts rnd ok scs file_of lines r = Inr (bad, s, r')"
  shows "nemu_inv c s"
proof -
  obtain n s0 where "init_monitor c opts rnd ok scs (initial_nemu c) = Inr (n, s0)"
    and "sdb_mainloop c R h (opt_sdb opts) file_of lines (s0, r) = Inr (s, r')"
    using assms(3) by (auto simp: nemu_main_def bindR_eq_Inr)
  then show ?thesis using sdb_mainloop_inv init_monitor_inv [OF assms(1,2)] by metis
qed

theorem session_keeps_invariant_witness:
  "\<exists>s. nemu_main npc_config no_ref quiet_host default_options 0 True [] (\<lambda>_. None) [] () = Inr (False, s, ()) \<and>
     nemu_inv npc_config s"
proof -
  obtain s where s: "nemu_main npc_config no_ref quiet_host default_options 0 True [] (\<lambda>_. None) [] () = Inr (False, s, ())"
    using builtin_image_run by blast
  then show ?thesis using session_keeps_invariant [OF npc_config_wf s] by blast
qed



section \<open>NEMU: instruction decoding and execution\<close>

text \<open>
  C4: The ordered search through the 55 instruction patterns of \<^verbatim>\<open>decode_exec\<close> against the decoder of
  the RISC-V manual, for RV32IM with CSR instructions, fences and the machine-mode instructions. For every
  32-bit word that the manual decodes to an instruction other than FENCE, FENCE.I and WFI the search finds
  this instruction and its operand format; FENCE, FENCE.I, WFI and the words that are no instruction of the
  manual are found to be invalid.
\<close>

theorem instruction_table_decodes_rv32im:
  "decode_match instpat_table w = Inr (Some (case rv_manual w of Rv n \<Rightarrow> (n, rv_format n) | _ \<Rightarrow> (I_inv, TYPE_N))) \<and>
   rv_manual w \<noteq> Rv I_inv"
  by (intro conjI decode_match_rv_manual rv_manual_not_inv)

text \<open>
  C5: The compiled pattern test means what the pattern string says: for every well-formed pattern,
  \<^verbatim>\<open>pattern_decode\<close> succeeds and the mask-and-compare test holds of exactly the words whose bits
  agree with every \<^verbatim>\<open>0\<close> and \<^verbatim>\<open>1\<close> of the string.
\<close>

theorem pattern_test_decides_pattern:
  assumes "pattern_valid str"
  shows "\<exists>kms. pattern_decode str = Inr kms \<and> instpat_matches inst kms = instpat_spec str inst"
  using pattern_decode_matches_spec [OF assms] by blast

theorem pattern_test_decides_pattern_witness:
  "\<exists>kms. pattern_decode ''0000000 ????? ????? 000 ????? 01100 11'' = Inr kms \<and>
     instpat_matches 0x00b50533 kms = instpat_spec ''0000000 ????? ????? 000 ????? 01100 11'' 0x00b50533"
  by (rule pattern_test_decides_pattern) (simp add: pattern_valid_def)

text \<open>
  C6: Executing one instruction, whichever it is, keeps the register file well-formed with
  register 0 equal to 0, and changes nothing but the CPU, the run state, host bytes and device state:
  the memory map, the instruction count, the commit ring and the breakpoints stay as they are.
\<close>

theorem instruction_keeps_registers_and_frame:
  assumes "machine_ready c s" and "regs_ok c s" and "isa_exec_once c d s = Inr (d', s')"
  shows "regs_ok c s' \<and> isa_frame s s' \<and> machine_ready c s'"
  using isa_exec_once_frame [OF assms(1,3,2)] machine_ready_isa assms(1) by auto

theorem instruction_keeps_registers_and_frame_witness:
  "\<exists>d' s'. isa_exec_once npc_config \<lparr>d_pc = 0x40, snpc = 0x40, dnpc = 0, d_exception = False,
       d_exception_cause = 0, d_inst = 0\<rparr> npc_fresh = Inr (d', s') \<and> regs_ok npc_config s'"
proof -
  let ?d = "\<lparr>d_pc = 0x40, snpc = 0x40, dnpc = 0, d_exception = False, d_exception_cause = 0, d_inst = 0\<rparr>"
  obtain d' s' where "isa_exec_once npc_config ?d npc_fresh = Inr (d', s')"
    using npc_fresh_no_access by (simp add: isa_exec_once_def Let_def raise_sync_exception_def isa_raise_intr_def)
  then show ?thesis
    using instruction_keeps_registers_and_frame [OF npc_fresh_ready(1,5)] by blast
qed

text \<open>
  C7: Multiplication and division agree with the manual on all operands: signed division and remainder,
  division by zero and the overflow case included, quotient times divisor plus remainder giving the
  dividend back, and the three high multiplications as the upper half of the exact 64-bit product of
  the operands taken as signed, as signed and unsigned, and as unsigned.
\<close>

theorem multiplication_and_division_correct:
  "div_val a b = (if b = 0 then -1 else word_of_int (sint a sdiv sint b)) \<and>
   rem_val a b = (if b = 0 then a else word_of_int (sint a smod sint b)) \<and>
   div_val a b * b + rem_val a b = a \<and>
   mulh_val a b = word_of_int ((sint a * sint b) div 2 ^ 32) \<and>
   mulhsu_val a b = word_of_int ((sint a * uint b) div 2 ^ 32) \<and>
   mulhu_val a b = word_of_int ((uint a * uint b) div 2 ^ 32)"
  by (intro conjI div_val_spec rem_val_spec div_rem_identity mulh_spec mulhsu_spec mulhu_spec)

text \<open>
  C8: Branch and jump offsets round-trip: an even 13-bit signed offset, scattered over an instruction
  word as the B format prescribes, is read back by \<^verbatim>\<open>immB\<close>, whatever the other fields of the word
  hold; the same for the even 21-bit offsets of the J format and \<^verbatim>\<open>immJ\<close>.
\<close>

theorem branch_and_jump_offsets_roundtrip:
  assumes "\<not> bit k 0"
  shows "(fits 13 k \<and> r AND 0xfe000f80 = 0 \<longrightarrow> immB (encB k OR r) = k) \<and>
    (fits 21 k \<and> r AND 0xfffff000 = 0 \<longrightarrow> immJ (encJ k OR r) = k)"
  using immB_encB [OF _ assms] immJ_encJ [OF _ assms] by blast

theorem branch_and_jump_offsets_roundtrip_witness: "immB (encB (-8) OR 0x00b50063) = -8 \<and> immJ (encJ (-8) OR 0x000000ef) = -8"
  using branch_and_jump_offsets_roundtrip [of "-8" "0x00b50063"] branch_and_jump_offsets_roundtrip [of "-8" "0x000000ef"]
  by (simp add: fits_def)

text \<open>
  C9: A load or store whose address is not allowed enters the trap handler precisely: the next
  instruction is at \<^verbatim>\<open>mtvec\<close>, \<^verbatim>\<open>mepc\<close> is the address of the access instruction and
  \<^verbatim>\<open>mcause\<close> its cause, and no register, memory byte or device is touched.
\<close>

theorem access_fault_is_precise:
  assumes "\<not> vaddr_access_ok c s addr len"
  shows "exec_load c len ext rd addr d s =
      Inr (d\<lparr>d_exception := True, d_exception_cause := 5, dnpc := mtvec (cpu s)\<rparr>,
           s\<lparr>cpu := (cpu s)\<lparr>mepc := d_pc d, mcause := 5\<rparr>\<rparr>) \<and>
    exec_store c len addr v d s =
      Inr (d\<lparr>d_exception := True, d_exception_cause := 7, dnpc := mtvec (cpu s)\<rparr>,
           s\<lparr>cpu := (cpu s)\<lparr>mepc := d_pc d, mcause := 7\<rparr>\<rparr>)"
  by (intro conjI exec_access_fault [OF assms])

theorem access_fault_is_precise_witness:
  "\<exists>d' s'. exec_load npc_config 4 id 1 0x40 \<lparr>d_pc = 0x80000000, snpc = 0x80000004, dnpc = 0x80000004,
      d_exception = False, d_exception_cause = 0, d_inst = 0\<rparr> npc_fresh = Inr (d', s') \<and> mepc (cpu s') = 0x80000000"
  using access_fault_is_precise [OF npc_fresh_no_access] by simp

section \<open>NEMU: memory and devices\<close>

text \<open>
  C10: Guest memory is a memory: after a store, and any later stores to other addresses, a load of
  the same address and size returns the stored value, truncated to that size.
\<close>

theorem guest_memory_read_over_writes:
  assumes "mem_ready c s" and "pmem_write c a len v s = Inr s1"
    and "guest_ram.run_writes (pmem_write c) ws s1 = Inr s2"
    and "len \<in> {1, 2, 4}" and "guest_ram.all_disjoint_from a len ws"
  shows "pmem_read c s2 a len = Inr (take_bit (8 * nat len) v)"
  by (rule pm.read_written [OF assms])

theorem guest_memory_read_over_writes_witness:
  "\<exists>s1 s2. pmem_write npc_config 0x80000100 4 0xdeadbeef npc_fresh = Inr s1 \<and>
     pmem_write npc_config 0x80000104 1 0xff s1 = Inr s2 \<and> pmem_read npc_config s2 0x80000100 4 = Inr 0xdeadbeef"
proof -
  have r: "mem_ready npc_config npc_fresh" by (rule npc_fresh_ready)
  have f: "find_mem_region t (0x80000000 + of_nat k) n = Some npc_pmem" if "mem_regions t = mem_regions npc_fresh" "k + n \<le> 0x1000000" "0 < n" for t k n
    using npc_region(1) [of t k n] r that by (simp add: mem_ready_def)
  obtain s1 where s1: "pmem_write npc_config 0x80000100 4 0xdeadbeef npc_fresh = Inr s1"
    using pmem_write_ok [OF r, where len = 4 and a = "0x80000100" and r = npc_pmem] f [OF refl, of 256 4] by (auto simp: size_t_of_def is_ok_iff)
  have r1: "mem_ready npc_config s1" by (rule pm.wr_inv [OF r s1])
  have m1: "mem_regions s1 = mem_regions npc_fresh" using pmem_write_regions [OF s1] .
  obtain s2 where s2: "pmem_write npc_config 0x80000104 1 0xff s1 = Inr s2"
    using pmem_write_ok [OF r1, where len = 1 and a = "0x80000104" and r = npc_pmem] f [OF m1, of 260 1] by (auto simp: size_t_of_def is_ok_iff)
  have "pmem_read npc_config s2 0x80000100 4 = Inr (take_bit (8 * nat 4) 0xdeadbeef)"
    by (rule guest_memory_read_over_writes [OF r s1, of "[(0x80000104, 1, 0xff)]"])
      (simp_all add: pm.run_writes.simps s2 pm.all_disjoint_from_def addr_disjoint_def)
  then show ?thesis using s1 s2 by simp
qed

text \<open>
  C11: What \<^verbatim>\<open>vaddr_access_ok\<close> is worth. On a machine with the NPC devices only, take an access of one, two or
  four bytes that it allows and that does not run over the top of the address space. Reading succeeds.
  Writing succeeds too, to memory and to devices, except at the boot ROM: there the check lets the write
  through and it stops NEMU at the assertion of \<^verbatim>\<open>pmem_write\<close>.
\<close>

theorem checked_access_succeeds:
  assumes "machine_ready c s" and "CONFIG_DEVICE c" and "\<not> CONFIG_HAS_SERIAL c" and "\<not> CONFIG_HAS_TIMER c"
    and "len \<in> {1, 2, 4}" and "uint a + len < 2 ^ 32" and "vaddr_access_ok c s a len"
  shows "is_ok (vaddr_read c a len s) \<and>
    (if in_mrom a then vaddr_write c a len v s = Inl (Assert_fail ''write to non-writable memory region'')
     else is_ok (vaddr_write c a len v s))"
  by (intro conjI checked_access_ok(1) [OF assms] checked_write [OF assms])

theorem checked_access_succeeds_witness:
  "is_ok (vaddr_read npc_config 0x0200bff8 4 npc_fresh) \<and> is_ok (vaddr_write npc_config 0x10000000 1 65 npc_fresh)"
proof
  show "is_ok (vaddr_read npc_config 0x0200bff8 4 npc_fresh)"
    by (rule checked_access_succeeds [OF npc_fresh_ready(1), THEN conjunct1]) (simp_all add: npc_config_def vaddr_access_ok_def)
  have "\<not> in_mrom 0x10000000" by (simp add: in_mrom_def)
  then show "is_ok (vaddr_write npc_config 0x10000000 1 65 npc_fresh)"
    using checked_access_succeeds [OF npc_fresh_ready(1), of 1 "0x10000000" 65] by (simp add: npc_config_def vaddr_access_ok_def)
qed

text \<open>
  C12: The end of an access is computed modulo \<^verbatim>\<open>2^32\<close>, so the word at the top of the address
  space passes \<^verbatim>\<open>vaddr_access_ok\<close> although nothing is mapped there, and reading it stops NEMU
  at an assertion instead of raising the guest's access fault.
\<close>

theorem top_of_address_space_not_checked:
  assumes "find_mapid_loop (maps s) 0xfffffffc = None" and "\<not> paddr_is_backed s 0xfffffffc 4" and "CONFIG_DEVICE c"
  shows "vaddr_access_ok c s 0xfffffffc 4 \<and>
    vaddr_read c 0xfffffffc 4 s = Inl (Assert_fail ''address is out of bound'')"
  by (intro conjI access_wraps [OF assms])

theorem top_of_address_space_not_checked_witness:
  "vaddr_read npc_config 0xfffffffc 4 npc_fresh = Inl (Assert_fail ''address is out of bound'')"
proof (rule top_of_address_space_not_checked [THEN conjunct2])
  have m: "mem_regions npc_fresh = mem_regions_ready npc_config" "maps npc_fresh = npc_maps"
    by (simp_all add: npc_fresh_def npc_mem_only_def restart_def)
  show "find_mapid_loop (maps npc_fresh) 0xfffffffc = None" by (simp add: m npc_maps_def map_inside_def)
  show "\<not> paddr_is_backed npc_fresh 0xfffffffc 4"
    by (simp add: paddr_is_backed_def find_mem_region_def m mem_npc range_in_region_def)
  show "CONFIG_DEVICE npc_config" by (simp add: npc_sel)
qed

text \<open>
  C13: Device set-up: when \<^verbatim>\<open>init_device\<close> succeeds, every registered window lies in the device
  space together with the registers its handler uses, no two windows overlap, the windows of the NPC
  UART and CLINT are there, and an address in a window is routed to that window.
\<close>

theorem device_setup:
  assumes "wf_dev_config c" and "maps s = []" and "init_device c ok scs s = Inr s'"
  shows "io_inv s' \<and> npc_windows s' \<and>
    (m \<in> set (maps s') \<and> map_inside m a \<longrightarrow> fst (fetch_mmio_map c a s') = Some m)"
proof -
  have inv: "io_inv s'" "npc_windows s'"
    using init_device_inv [OF assms] init_device_windows [OF assms(3)] by auto
  moreover have "fst (fetch_mmio_map c a s') = Some m" if "m \<in> set (maps s')" "map_inside m a"
    using find_mapid_unique [OF inv(1) that] by (simp add: fetch_mmio_map_def find_mapid_by_addr_def)
  ultimately show ?thesis by blast
qed

theorem device_setup_witness:
  "\<exists>s'. init_device npc_config True [] npc_mem_only = Inr s' \<and> npc_windows s'"
proof -
  have m: "mem_regions npc_mem_only = mem_regions_ready npc_config" "maps npc_mem_only = []"
    by (simp_all add: npc_mem_only_def initial_nemu_def)
  show ?thesis using device_setup [OF npc_config_wf(2) m(2) init_device_npc [OF m]] init_device_npc [OF m] by blast
qed

text \<open>
  The NPC's device registers, on a native build. A byte store to the base of the UART succeeds and
  appends exactly that byte to the output; the two words of the CLINT's time register read as the low
  and high half of the number of retired instructions, whatever was stored to them before.
\<close>

theorem npc_device_registers:
  assumes "io_inv s" and "npc_windows s" and "\<not> CONFIG_TARGET_SHARE c"
  shows "(\<exists>s'. mmio_write c NPC_UART_BASE 1 v s = Inr s' \<and> outs s' = outs s @ [Putc (ucast v)]) \<and>
    (\<exists>s'. mmio_read c (NPC_CLINT_BASE + NPC_CLINT_MTIME) 4 s = Inr (ucast (g_nr_guest_inst s), s')) \<and>
    (\<exists>s'. mmio_read c (NPC_CLINT_BASE + NPC_CLINT_MTIME + 4) 4 s =
      Inr (ucast (drop_bit 32 (g_nr_guest_inst s)), s'))"
  by (intro conjI uart_transmits [OF assms] mtime_reads_instruction_count [OF assms])

theorem npc_device_registers_witness:
  "\<exists>s'. mmio_write npc_config NPC_UART_BASE 1 0x41 npc_fresh = Inr s' \<and> outs s' = outs npc_fresh @ [Putc (ucast (0x41 :: u32))]"
  by (rule npc_device_registers [OF npc_fresh_ready(2,3), THEN conjunct1]) (simp add: npc_sel)

text \<open>
  The keyboard queue is a queue of 1023 keys: starting empty, any keys up to that number are
  accepted and come out in the order they went in.
\<close>

theorem key_queue_is_fifo:
  assumes "key_inv s" and "key_items s = []" and "length ks \<le> KEY_QUEUE_LEN - 1"
  shows "\<exists>s'. bounded_fifo.enq_all key_enqueue ks s = Inr s' \<and>
    fst (bounded_fifo.deq_n key_dequeue (length ks) s') = ks"
  by (rule kq.fifo_order [OF assms])

theorem key_queue_is_fifo_witness:
  "\<exists>s'. bounded_fifo.enq_all key_enqueue [1, 2, 3] npc_fresh = Inr s' \<and>
     fst (bounded_fifo.deq_n key_dequeue (length [1 :: u32, 2, 3]) s') = [1, 2, 3]"
proof (rule key_queue_is_fifo)
  have k: "key_f npc_fresh = 0" "key_r npc_fresh = 0" "key_queue npc_fresh = replicate 1024 0"
    by (simp_all add: npc_fresh_def npc_mem_only_def restart_def initial_nemu_def)
  show "key_inv npc_fresh" by (simp add: key_inv_def k KEY_QUEUE_LEN_def)
  show "key_items npc_fresh = []" by (simp add: key_items_def key_count_def k KEY_QUEUE_LEN_def)
  show "length [1 :: u32, 2, 3] \<le> KEY_QUEUE_LEN - 1" by (simp add: KEY_QUEUE_LEN_def)
qed

section \<open>NEMU: the main loop\<close>

text \<open>
  The instruction limit is never exceeded: if no more instructions were retired than the
  limit allows, the same holds after any run.
\<close>

theorem instruction_limit_respected:
  assumes "nemu_inv c s" and "under_limit s" and "cpu_exec c R h n (s, r) = Inr (s', r')"
  shows "under_limit s'"
  by (rule cpu_exec_limit [OF assms])

theorem instruction_limit_respected_witness:
  "\<exists>s'. cpu_exec npc_config no_ref quiet_host (-1) (npc_fresh, ()) = Inr (s', ()) \<and> under_limit s'"
proof -
  obtain s' where s': "cpu_exec npc_config no_ref quiet_host (-1) (npc_fresh, ()) = Inr (s', ())"
    using builtin_cpu_exec by blast
  have "under_limit npc_fresh"
    by (simp add: under_limit_def npc_fresh_def npc_mem_only_def restart_def initial_nemu_def)
  then show ?thesis using instruction_limit_respected [OF npc_fresh_inv _ s'] s' by blast
qed

text \<open>
  C14: The commit ring is the recent history: after recording any events it holds the latest 64
  of them, oldest first, and \<^verbatim>\<open>commit_event_copy_last\<close> returns the last of these.
\<close>

theorem commit_ring_is_history:
  assumes "ring_inv s"
  shows "ring_events (bounded_history.push_all commit_event_record evs s) =
      bounded_history.last_n COMMIT_EVENT_RING_SIZE (ring_events s @ evs) \<and>
    commit_event_copy_last n s = drop (commit_ring_count s - n) (ring_events s) \<and>
    commit_event_get_last s = (if ring_events s = [] then None else Some (last (ring_events s)))"
  by (intro conjI cr.hist_push_all [OF assms] copy_last_events [OF assms] get_last_event [OF assms])

theorem commit_ring_is_history_witness:
  "ring_events (bounded_history.push_all commit_event_record (replicate 100 zero_event) npc_fresh) =
     bounded_history.last_n COMMIT_EVENT_RING_SIZE (ring_events npc_fresh @ replicate 100 zero_event)"
  by (rule commit_ring_is_history [OF npc_fresh_ready(6), THEN conjunct1])

text \<open>
  Comparing commit events decides whether two simulators retired the same instruction:
  \<^verbatim>\<open>commit_event_compare\<close> returns true exactly when the events agree in address, instruction, next
  address, exception (with its cause) and register write-back (with its register and value), and a
  difference is reported exactly otherwise.
\<close>

theorem event_comparison_decides_view:
  "fst (commit_event_compare ref dut) = (event_view ref = event_view dut) \<and>
   (df_kind (snd (commit_event_compare ref dut)) = COMMIT_DIFF_NONE) = fst (commit_event_compare ref dut)"
  by (intro conjI commit_event_compare_iff commit_event_compare_kind)

text \<open>
  The breakpoint table is a set of addresses: deleting a breakpoint removes exactly its address,
  although the last entry takes its place, and the table stays free of duplicates.
\<close>

theorem delete_break_removes_address:
  assumes "bp_inv s" and "a \<noteq> []"
  shows "bp_inv (cmd_delete_break (Some a) s) \<and>
    set (breakpoints (cmd_delete_break (Some a) s)) = set (breakpoints s) - {ucast (strtoull a)}"
  using cmd_delete_break_set [OF assms] by auto

theorem delete_break_removes_address_witness:
  "bp_inv (cmd_delete_break (Some ''0x80000000'') (npc_fresh\<lparr>breakpoints := [0x80000000, 4]\<rparr>))"
  by (rule delete_break_removes_address [THEN conjunct1]) (simp_all add: bp_inv_def NR_BREAKPOINTS_def)

section \<open>The guest library\<close>

text \<open>
  C15: 64-bit division on the 32-bit guest. For all operands \<^verbatim>\<open>__udivmoddi4\<close> returns the quotient and
  the remainder, and only a zero divisor reaches the division instruction with a zero divisor;
  \<^verbatim>\<open>__divdi3\<close> and \<^verbatim>\<open>__moddi3\<close> are the division of C, which rounds towards zero, wrapping in the one
  case that overflows, and \<^verbatim>\<open>__divmoddi4\<close> returns both.
\<close>

theorem long_division_correct:
  "udivmoddi4 a b = (if b = 0 then Inl (Bad_access ''division by zero'') else Inr (a div b, a mod b)) \<and>
   (b \<noteq> 0 \<longrightarrow> divdi3 a b = Inr (word_of_int (sint a sdiv sint b)) \<and> moddi3 a b = Inr (word_of_int (sint a smod sint b)) \<and>
     divmoddi4 a b = Inr (word_of_int (sint a sdiv sint b), word_of_int (sint a smod sint b)))"
  using udivmoddi4_spec divdi3_spec moddi3_spec divmoddi4_spec by blast

theorem long_division_correct_witness: "divdi3 (-7) 2 = Inr (-3) \<and> moddi3 (-7) 2 = Inr (-1)"
proof -
  have s: "sint (-7 :: u64) = -7" "sint (2 :: u64) = 2" by simp_all
  have d: "(-7 :: int) sdiv 2 = -3" "(-7 :: int) smod 2 = -1" by (simp_all add: sdiv_int_eq smod_int_eq)
  show ?thesis using long_division_correct [of "-7" 2] unfolding s d by simp
qed

text \<open>
  C16: \<^verbatim>\<open>memmove\<close> moves. After it the destination holds what the source held before, however the two
  ranges overlap, and no other byte changes.
\<close>

theorem memmove_copies_overlapping:
  assumes "unat dst + unat n \<le> 2 ^ 32" and "unat src + unat n \<le> 2 ^ 32"
  shows "memmove m dst src n = (dst, \<lambda>a. if unat (a - dst) < unat n then m (src + (a - dst)) else m a)"
  using memmove_moves [OF assms] by (simp add: moved_def)

theorem memmove_copies_overlapping_witness:
  "memmove ucast 0x80000001 0x80000000 5 = (0x80000001, \<lambda>a. if unat (a - 0x80000001) < unat (5 :: u32) then ucast (0x80000000 + (a - 0x80000001)) else ucast a)"
  by (rule memmove_copies_overlapping) simp_all

text \<open>
  \<^verbatim>\<open>strcmp\<close> returns on strings, its result is zero exactly for equal strings and negative exactly
  when the first comes first in the order of unsigned characters.
\<close>

theorem strcmp_decides_order:
  assumes "cstr m p xs" and "cstr m q ys"
  shows "\<exists>r. strcmp m p q = Some r \<and> (r = 0 \<longleftrightarrow> xs = ys) \<and> (r < 0 \<longleftrightarrow> ord_class.lexordp xs ys)"
  by (rule strcmp_orders [OF assms])

theorem strcmp_decides_order_witness:
  "\<exists>r. strcmp (\<lambda>a. if a = 0x100 then 97 else 0) 0x100 0 = Some r \<and> (r = 0 \<longleftrightarrow> [97] = ([] :: u8 list)) \<and>
     (r < 0 \<longleftrightarrow> ord_class.lexordp [97] ([] :: u8 list))"
  by (rule strcmp_decides_order) simp_all

text \<open>
  Blocks of the guest's \<^verbatim>\<open>malloc\<close> are inside the heap and pairwise disjoint, as long as no request
  is larger than the address of the heap (a larger one wraps the pointer around).
\<close>

theorem malloc_blocks_disjoint:
  assumes "\<And>n. n \<in> set ns \<Longrightarrow> unat n + 3 \<le> unat hs" and "hs \<le> he"
  shows "(\<forall>b \<in> set (malloc_seq hs he ns 0). block b \<subseteq> {unat hs ..< unat he})
    \<and> sorted_wrt (\<lambda>b c. block b \<inter> block c = {}) (malloc_seq hs he ns 0)"
  using malloc_disjoint [of ns hs 0 he] assms by simp

theorem malloc_blocks_disjoint_witness:
  "sorted_wrt (\<lambda>b c. block b \<inter> block c = {}) (malloc_seq 0x80100000 0x88000000 [10, 4096, 3] 0)"
  by (rule malloc_blocks_disjoint [THEN conjunct2]) auto

text \<open>
  C18: \<^verbatim>\<open>vsnprintf\<close> stays in its buffer. For a format that prints the text \<open>cs\<close> it returns the length of
  \<open>cs\<close>, stores the first \<open>n - 1\<close> characters of it and a terminating NUL, and changes no other byte.
\<close>

theorem vsnprintf_stays_in_buffer:
  assumes "prints fmt ap cs" and "length cs < 2 ^ 32" and "n \<noteq> 0"
  shows "vsnprintf out n fmt ap m = Inr (of_nat (length cs),
    \<lambda>a. let j = unat (a - out); k = min (length cs) (unat n - 1) in
         if j < k then cs ! j else if j = k then 0 else m a)"
  by (rule vsnprintf_truncates [OF assms])

theorem vsnprintf_stays_in_buffer_witness:
  "vsnprintf 0x80000000 2 [104, 105] [] (\<lambda>_. 1) = Inr (of_nat (length [104, 105 :: u8]),
    \<lambda>a. let j = unat (a - 0x80000000); k = min (length [104, 105 :: u8]) (unat (2 :: u32) - 1) in
         if j < k then [104, 105] ! j else if j = k then 0 else 1)"
  by (rule vsnprintf_stays_in_buffer) (simp_all add: prints_def writes_def printf_backend.simps)

text \<open>
  C19: Printing an \<^verbatim>\<open>int\<close> with \<^verbatim>\<open>"%d"\<close> and reading it back with \<^verbatim>\<open>atoi\<close> gives the number again, for every
  number but the smallest, whose digits overflow the parser.
\<close>

theorem printed_int_reads_back:
  assumes "x \<noteq> 0x80000000"
  shows "\<exists>cs. printf_c [37, 100] [Va_word x] m = Inr (of_nat (length cs), cs) \<and> atoi cs = Inr (sint x)"
  by (rule printf_atoi [OF assms])

theorem printed_int_reads_back_witness:
  "\<exists>cs. printf_c [37, 100] [Va_word (-42)] (\<lambda>_. 0) = Inr (of_nat (length cs), cs) \<and> atoi cs = Inr (-42)"
  using printed_int_reads_back [of "-42" "\<lambda>_. 0"] by simp

section \<open>The RT-Thread kernel\<close>

text \<open>
  C20: The circular lists of \<^verbatim>\<open>rtservice.h\<close> are sequences. On a store that represents a family of
  sequences, inserting after a head prepends, inserting before it appends, removing an element takes
  it out of whichever sequence it is on, and a head is empty exactly when its sequence is.
\<close>

theorem linked_lists_are_sequences:
  assumes "represents s L"
  shows "(\<not> placed L x \<longrightarrow> represents (rt_list_insert_after (Head h) (Elem x) s) (L(h := x # L h)) \<and>
      represents (rt_list_insert_before (Head h) (Elem x) s) (L(h := L h @ [x]))) \<and>
    represents (rt_list_remove (Elem x) s) (\<lambda>h. removeAll x (L h)) \<and>
    (rt_list_isempty (Head h) s \<longleftrightarrow> L h = []) \<and>
    rt_list_len (Head h) s = Some (of_nat (length (L h)))"
  using insert_after_refines [OF assms] insert_before_refines [OF assms] remove_refines [OF assms] isempty_refines [OF assms]
    len_refines [OF assms]
  by (auto simp: list_insert_after_def list_insert_before_def list_remove_def)

theorem linked_lists_are_sequences_witness:
  "represents (rt_list_insert_after (Head True) (Elem (7 :: nat)) \<lparr>next_of = id, prev_of = id\<rparr>) ((\<lambda>_ :: bool. [])(True := [7]))"
  using linked_lists_are_sequences [OF init_represents, of "7 :: nat" True] by (simp add: placed_def)

text \<open>
  C21: The thread operations keep the kernel well-formed. Called from a running thread, starting a
  thread, the expiry of a thread's timer and a change of priority succeed and keep every thread on the
  list its state asks for, with the ready bitmap exact.
\<close>

theorem thread_operations_keep_kernel_well_formed:
  assumes "sched_inv {} k" and "thread_context c k"
  shows "(mstat k t = RT_THREAD_INIT \<longrightarrow> (\<exists>k'. rt_thread_startup t k = Inr (RT_EOK, k') \<and> sched_inv {} k' \<and> runs_highest k')) \<and>
    (bit (mstat k t) 2 \<longrightarrow> (\<exists>k'. thread_timeout t k = Inr k' \<and> sched_inv {} k' \<and> runs_highest k' \<and>
       mstat k' t \<in> {RT_THREAD_READY, RT_THREAD_RUNNING} \<and> th_error (k_thread k' t) = - RT_ETIMEOUT)) \<and>
    (unat p < 32 \<longrightarrow> (\<exists>k'. change_priority t p k = Inr k' \<and> sched_inv {} k' \<and> prio_of k' t = p))"
proof -
  have c: "k_current k = Some c" "mstat k c = RT_THREAD_RUNNING" "k_lock k = 0" "k_irq k = 0" using assms(2) by (auto simp: thread_context_def)
  have "t \<noteq> c" if "mstat k t = RT_THREAD_INIT \<or> bit (mstat k t) 2 \<or> mstat k t = RT_THREAD_READY"
    using that c(2) ready_not_waiting by auto
  then have ne: "k_current k \<noteq> Some t" if "mstat k t = RT_THREAD_INIT \<or> bit (mstat k t) 2 \<or> mstat k t = RT_THREAD_READY"
    using that c(1) by auto
  then show ?thesis
    using rt_thread_startup_correct [OF assms(1), of t] thread_timeout_wakes [OF assms(1) c(1), of t] change_priority_correct [OF assms(1), of p t] c
    by auto
qed

theorem thread_operations_keep_kernel_well_formed_witness:
  "\<exists>k'. rt_thread_startup 9 example_kernel = Inr (RT_EOK, k') \<and> sched_inv {} k' \<and> runs_highest k'"
  using thread_operations_keep_kernel_well_formed [OF example_inv example_context, of 9 0] by (simp add: stat_defs)

text \<open>
  C22: \<^verbatim>\<open>rt_schedule\<close> runs the most urgent thread. From a well-formed kernel, outside interrupts, it
  succeeds, keeps the kernel well-formed and does nothing while the scheduler is locked; otherwise the
  thread that is current afterwards is running, and no ready thread has a smaller priority number.
\<close>

theorem schedule_runs_highest_priority:
  assumes "sched_inv {} k" and "k_current k = Some c" and "k_irq k = 0"
  shows "\<exists>k'. rt_schedule k = Inr k' \<and> sched_inv {} k' \<and>
    (k_lock k \<noteq> 0 \<longrightarrow> k' = k) \<and>
    (k_lock k = 0 \<and> (mstat k c = RT_THREAD_RUNNING \<or> (\<exists>u. mstat k u = RT_THREAD_READY)) \<longrightarrow>
      (\<exists>t. k_current k' = Some t \<and> mstat k' t = RT_THREAD_RUNNING \<and>
        (\<forall>u. mstat k' u = RT_THREAD_READY \<longrightarrow> prio_of k' t \<le> prio_of k' u)))"
  using rt_schedule_correct [OF assms] by (simp add: runs_highest_def)

theorem schedule_runs_highest_priority_witness: "\<exists>k'. rt_schedule example_kernel = Inr k' \<and> sched_inv {} k'"
  using schedule_runs_highest_priority [OF example_inv example_current(1,3)] by blast

text \<open>
  C23: Yielding is not round robin. When three threads or more share the highest priority, the running
  thread and the first of the queue swap at every \<^verbatim>\<open>rt_thread_yield\<close>, and the others never become current,
  however often the running threads yield.
\<close>

theorem yielding_starves_third_thread:
  assumes "contended c (t # ts) k"
  shows "\<exists>k'. yields n k = Inr k' \<and> (contended c (t # ts) k' \<or> contended t (c # ts) k') \<and> (\<forall>u \<in> set ts. k_current k' \<noteq> Some u)"
  by (rule yield_starves [OF assms])

theorem yielding_starves_third_thread_witness:
  "\<exists>k'. yields 1000 example_kernel = Inr k' \<and> k_current k' \<noteq> Some 3"
  using yielding_starves_third_thread [OF example_contended, of 1000] by auto

text \<open>
  C24: Starting a timer keeps the list of hard timers in the order of expiry, also across the wrap-around of the
  tick: seen from any tick \<open>b\<close> from which all the timers lie less than half the range ahead.
\<close>

theorem timer_list_stays_ordered:
  assumes "timers_ordered b k" and "unat (k_tick k - b) + unat (tm_init_tick (k_timer k i)) < half"
  shows "timers_ordered b (timer_enlist i k)"
  by (rule timer_enlist_ordered [OF assms])

theorem timer_list_stays_ordered_witness:
  "timers_ordered 0xfffffff0 (timer_enlist (Tm_user 1) example_kernel)"
  by (rule timer_list_stays_ordered) (simp_all add: timers_ordered_def example_kernel_def example_at_def half_def)

text \<open>
  A thread that sleeps gives the processor to the most urgent ready thread, is suspended, and its
  timer is on the list with the tick at which the sleep ends.
\<close>

theorem sleep_suspends_until_tick:
  assumes "sched_inv {} k" and "thread_context c k" and "hard_timer k (Tm_thread c)" and "0 < tick" and "tick < RT_TICK_MAX div 2"
    and "mstat k u = RT_THREAD_READY"
  shows "\<exists>k'. rt_thread_sleep tick k = Inr (None, k') \<and> sched_inv {} k' \<and> runs_highest k' \<and> k_current k' \<noteq> Some c \<and>
    bit (mstat k' c) 2 \<and> Tm_thread c \<in> set (k_timers k') \<and> tm_timeout_tick (k_timer k' (Tm_thread c)) = k_tick k + tick"
  using rt_thread_sleep_blocks [OF assms(1) _ _ _ _ assms(3-6)] assms(2) by (auto simp: thread_context_def)

theorem sleep_suspends_until_tick_witness:
  "\<exists>k'. rt_thread_sleep 100 example_kernel = Inr (None, k') \<and> sched_inv {} k' \<and> Tm_thread 1 \<in> set (k_timers k')"
proof -
  have "(100 :: u32) < RT_TICK_MAX div 2" by (simp add: RT_TICK_MAX_def)
  then show ?thesis using sleep_suspends_until_tick [OF example_inv example_context example_hard, of 100 4] by (auto simp: stat_defs)
qed

text \<open>
  C25: Resuming all the waiters of an object (on reset, detach and delete) terminates. Afterwards nobody
  is on the list, and every thread that was is ready with the error \<^verbatim>\<open>-RT_ERROR\<close>.
\<close>

theorem resume_all_terminates:
  assumes "sched_inv {} k" and "is_wait_list h" and "thread_context c k"
  shows "\<exists>k'. ipc_list_resume_all h k = Some (Inr k') \<and> sched_inv {} k' \<and> k_list k' h = [] \<and>
    (\<forall>t \<in> set (k_list k h). mstat k' t = RT_THREAD_READY \<and> th_error (k_thread k' t) = - RT_ERROR)"
  using ipc_list_resume_all_ends [OF assms(1,2), of c] assms(3) by (auto simp: thread_context_def)

theorem resume_all_terminates_witness:
  "\<exists>k'. ipc_list_resume_all (L_suspend (O_sem 0)) example_kernel = Some (Inr k') \<and> mstat k' 5 = RT_THREAD_READY"
proof -
  have "5 \<in> set (k_list example_kernel (L_suspend (O_sem 0)))" by (simp add: example_list)
  then show ?thesis
    using resume_all_terminates [OF example_inv _ example_context, of "L_suspend (O_sem 0)"] by (auto simp: is_wait_list_def)
qed

text \<open>
  C26: Taking a semaphore. With a token it takes one; without, a zero timeout returns at once; otherwise
  the thread is suspended at its place among the waiters and the most urgent ready thread runs. Nobody
  ever waits for a semaphore that has tokens.
\<close>

theorem semaphore_take:
  assumes "kernel_ok k" and "thread_context c k" and "mstat k u = RT_THREAD_READY"
    and "0 < sint timeout \<longrightarrow> timeout < RT_TICK_MAX div 2 \<and> hard_timer k (Tm_thread c)"
  shows "\<exists>r k'. rt_sem_take_flag s timeout sf k = Inr (r, k') \<and> kernel_ok k' \<and>
    (if 0 < sem_value (k_sem k s) then r = Some RT_EOK \<and> unat (sem_value (k_sem k' s)) + 1 = unat (sem_value (k_sem k s))
     else if timeout = 0 then r = Some (- RT_ETIMEOUT) \<and> k' = k
     else r = None \<and> runs_highest k' \<and> k_current k' \<noteq> Some c \<and>
       k_list k' (sem_waiters s) = queued k (sem_flag (k_sem k s)) c (k_list k (sem_waiters s)))"
proof -
  consider "0 < sem_value (k_sem k s)" | "sem_value (k_sem k s) = 0" "timeout = 0" | "sem_value (k_sem k s) = 0" "timeout \<noteq> 0"
    by (auto simp: word_gt_0)
  then show ?thesis
  proof cases
    case 1
    then show ?thesis using rt_sem_take_token [OF assms(1), of s timeout sf] by auto
  next
    case 2
    then show ?thesis using assms(1) rt_sem_take_empty [of k s sf] by simp
  next
    case 3
    then show ?thesis using rt_sem_take_blocks [OF assms(1,2) 3 assms(4,3), of sf] by auto
  qed
qed

theorem semaphore_take_witness:
  "\<exists>r k'. rt_sem_take_flag 1 (-1) RT_UNINTERRUPTIBLE example_kernel = Inr (r, k') \<and> kernel_ok k'"
  using semaphore_take [OF example_ok example_context, of 4 "-1" 1 RT_UNINTERRUPTIBLE] by (auto simp: stat_defs)

text \<open>
  C27: Releasing a semaphore that has waiters hands the token to the first of them: it leaves the list,
  becomes ready (or running), and its \<^verbatim>\<open>rt_sem_take\<close> returns \<^verbatim>\<open>RT_EOK\<close>; the count is unchanged.
\<close>

theorem semaphore_release_hands_over:
  assumes "kernel_ok k" and "thread_context c k" and "k_list k (sem_waiters s) = t # ts"
  shows "\<exists>k'. rt_sem_release s k = Inr (RT_EOK, k') \<and> kernel_ok k' \<and> runs_highest k' \<and> k_list k' (sem_waiters s) = ts \<and>
    k_sem k' = k_sem k \<and> mstat k' t \<in> {RT_THREAD_READY, RT_THREAD_RUNNING} \<and> rt_sem_take_end t k' = (RT_EOK, k')"
  by (rule rt_sem_release_wakes [OF assms])

theorem semaphore_release_hands_over_witness:
  "\<exists>k'. rt_sem_release 0 example_kernel = Inr (RT_EOK, k') \<and> kernel_ok k' \<and> rt_sem_take_end 5 k' = (RT_EOK, k')"
  using semaphore_release_hands_over [OF example_ok example_context, of 0 5 "[]"] by (auto simp: sem_waiters_def example_list)

text \<open>
  C28: Taking a mutex that another thread has passes the caller's priority on. The caller waits, ordered
  by priority; the owner, whatever it waits for, and so on along the chain of owners (which may be a
  cycle of a deadlock), runs at least as urgently as the caller. The call returns, nobody's priority
  drops, and again every thread has exactly the most urgent of its own priority, the ceilings of its
  mutexes and the priorities of those who wait for them.
\<close>

theorem mutex_take_inherits_priority:
  assumes "mutex_inv k" and "thread_context c k" and "mx_owner (k_mutex k m) = Some ow" and "ow \<noteq> c" and "timeout \<noteq> 0"
    and "0 < sint timeout \<longrightarrow> timeout < RT_TICK_MAX div 2 \<and> hard_timer k (Tm_thread c)" and "mstat k u = RT_THREAD_READY"
  shows "\<exists>k'. rt_mutex_take_flag m timeout sf k = Some (Inr (None, k')) \<and> mutex_inv k' \<and> runs_highest k' \<and> k_current k' \<noteq> Some c \<and>
    set (k_list k' (mutex_waiters m)) = insert c (set (k_list k (mutex_waiters m))) \<and> mx_owner (k_mutex k' m) = Some ow \<and>
    prio_of k' ow \<le> prio_of k c \<and> (\<forall>t. prio_of k' t \<le> prio_of k t)"
  by (rule rt_mutex_take_blocks [OF assms])

theorem mutex_take_inherits_priority_witness:
  "\<exists>k'. rt_mutex_take_flag 0 (-1) RT_UNINTERRUPTIBLE mutex_example = Some (Inr (None, k')) \<and> mutex_inv k' \<and> prio_of k' 4 \<le> 10"
proof -
  have "prio_of mutex_example 1 = 10" "mstat mutex_example 2 = RT_THREAD_READY" by (simp_all add: mutex_example_def stat_defs)
  then show ?thesis
    using mutex_take_inherits_priority [OF mutex_example_inv(1,2,3), of "-1" 2 RT_UNINTERRUPTIBLE] by auto
qed

text \<open>
  A mutex that is taken and released. Taking a free mutex makes the caller its owner, with the
  ceiling applied; the owner takes it again up to 255 times; giving it back the last time with nobody
  waiting leaves it free.
\<close>

theorem mutex_owner_protocol:
  assumes "mutex_inv k" and "thread_context c k"
  shows "(mx_owner (k_mutex k m) = None \<longrightarrow> (\<exists>k'. rt_mutex_take_flag m timeout sf k = Some (Inr (Some RT_EOK, k')) \<and> mutex_inv k' \<and>
      mx_owner (k_mutex k' m) = Some c \<and> mx_hold (k_mutex k' m) = 1 \<and> prio_of k' c = min (prio_of k c) (mx_ceiling_priority (k_mutex k m)))) \<and>
    (mx_owner (k_mutex k m) = Some c \<longrightarrow>
      (\<exists>k'. rt_mutex_take_flag m timeout sf k = Some (Inr (Some (if mx_hold (k_mutex k m) < 255 then RT_EOK else - RT_EFULL), k')) \<and>
         mutex_inv k' \<and> mx_owner (k_mutex k' m) = Some c \<and>
         mx_hold (k_mutex k' m) = (if mx_hold (k_mutex k m) < 255 then mx_hold (k_mutex k m) + 1 else mx_hold (k_mutex k m))) \<and>
      (1 < mx_hold (k_mutex k m) \<longrightarrow> (\<exists>k'. rt_mutex_release m k = Inr (RT_EOK, k') \<and> mutex_inv k' \<and> mx_owner (k_mutex k' m) = Some c \<and>
         mx_hold (k_mutex k' m) = mx_hold (k_mutex k m) - 1)) \<and>
      (mx_hold (k_mutex k m) = 1 \<and> k_list k (mutex_waiters m) = [] \<longrightarrow>
         (\<exists>k'. rt_mutex_release m k = Inr (RT_EOK, k') \<and> mutex_inv k' \<and> mx_owner (k_mutex k' m) = None)))"
  using rt_mutex_take_free [OF assms, of m timeout sf] rt_mutex_nested [OF assms, of m] rt_mutex_release_free [OF assms, of m] by blast

theorem mutex_owner_protocol_witness:
  "\<exists>k'. rt_mutex_take_flag 1 0 RT_UNINTERRUPTIBLE mutex_example = Some (Inr (Some RT_EOK, k')) \<and> mutex_inv k' \<and> mx_owner (k_mutex k' 1) = Some 1"
proof -
  have "mx_owner (k_mutex mutex_example 1) = None" by (simp add: mutex_example_def example_kernel_def example_at_def)
  then show ?thesis using mutex_owner_protocol [OF mutex_example_inv(1,2), of 1 0 RT_UNINTERRUPTIBLE] by blast
qed

text \<open>
  C29: The last release of a mutex (its hold count is 1) that others wait for hands it to the first
  waiter: it is the owner with hold count 1 when it becomes ready, the mutex invariant is kept (so every thread,
  the caller too, has exactly the priority it inherits) and the most urgent thread runs. The priority of the
  new owner must lie within the ceiling of the mutex, which the code does not apply here.
\<close>

theorem mutex_release_hands_over:
  assumes "mutex_inv k" and "thread_context c k" and "mx_owner (k_mutex k m) = Some c" and "mx_hold (k_mutex k m) = 1"
    and "k_list k (mutex_waiters m) = t # ts" and "prio_of k t \<le> mx_ceiling_priority (k_mutex k m)"
  shows "\<exists>k'. rt_mutex_release m k = Inr (RT_EOK, k') \<and> mutex_inv k' \<and> runs_highest k' \<and> mx_owner (k_mutex k' m) = Some t \<and>
    mx_hold (k_mutex k' m) = 1 \<and> k_list k' (mutex_waiters m) = ts \<and> mstat k' t \<in> {RT_THREAD_READY, RT_THREAD_RUNNING} \<and>
    th_error (k_thread k' t) = th_error (k_thread k t)"
  by (rule rt_mutex_release_hands_over [OF assms])

theorem mutex_release_hands_over_witness:
  "\<exists>k'. rt_mutex_release 1 (held_example 255) = Inr (RT_EOK, k') \<and> mutex_inv k' \<and> mx_owner (k_mutex k' 1) = Some 5"
proof -
  have "k_list (held_example 255) (mutex_waiters 1) = [5]" "prio_of (held_example 255) 5 \<le> mx_ceiling_priority (k_mutex (held_example 255) 1)"
    unfolding held_example_simps by simp_all
  from mutex_release_hands_over [OF held_example_inv held_example_simps(7,4,5) this] show ?thesis by blast
qed

text \<open>
  C30: A waiter that times out may dereference a null owner. When the only waiter of a mutex times out
  and is less urgent than the owner, it stays on the ready list while the owner releases the mutex,
  which leaves it without owner; the end of the waiter's \<^verbatim>\<open>rt_mutex_take\<close> then reads
  \<^verbatim>\<open>mutex->owner\<close>'s priority through the null pointer.
\<close>

theorem timed_out_waiter_reads_null_owner:
  assumes "mutex_inv k" and "thread_context c k" and "mx_owner (k_mutex k m) = Some c" and "mx_hold (k_mutex k m) = 1"
    and "k_list k (mutex_waiters m) = [t]" and "\<And>u. u = t \<or> mstat k u = RT_THREAD_READY \<Longrightarrow> prio_of k c < prio_of k u"
  shows "\<exists>k1 k2. thread_timeout t k = Inr k1 \<and> k_current k1 = Some c \<and> rt_mutex_release m k1 = Inr (RT_EOK, k2) \<and>
    rt_mutex_take_end m t k2 = Some (Inl (Bad_access ''mutex->owner''))"
  by (rule timed_out_waiter_without_owner [OF assms])

theorem timed_out_waiter_reads_null_owner_witness:
  "\<exists>k1 k2. thread_timeout 5 (held_example 5) = Inr k1 \<and> rt_mutex_release 1 k1 = Inr (RT_EOK, k2) \<and>
    rt_mutex_take_end 1 5 k2 = Some (Inl (Bad_access ''mutex->owner''))"
proof -
  have "prio_of (held_example 5) 1 < prio_of (held_example 5) u" if "u = 5 \<or> mstat (held_example 5) u = RT_THREAD_READY" for u
    using that by (auto simp: held_example_simps stat_defs min_def split: if_splits)
  then show ?thesis
    using timed_out_waiter_reads_null_owner [OF held_example_inv [of 5] held_example_simps(7,4,5), where t = 5] by (auto simp: held_example_simps)
qed

text \<open>
  C31: A mailbox is a bounded queue. With room, sending appends the value and \<^verbatim>\<open>rt_mb_urgent\<close> puts it in
  front; both wake the first receiver. A full mailbox refuses both, \<^verbatim>\<open>rt_mb_send_wait\<close> with no time to wait,
  and nothing changes. Receiving with mail returns the first value and removes it; from an empty mailbox with
  no time to wait it is refused. The number of values is the entry count, which is at most the size.
\<close>

theorem mailbox_is_bounded_queue:
  assumes "sched_inv {} k" and "thread_context c k" and "mb_inv (mb_of k b)"
  shows "(mb_entry (mb_of k b) \<noteq> mb_size (mb_of k b) \<longrightarrow>
      (\<exists>k'. rt_mb_send_wait_flag b v timeout sf k = Inr (Done RT_EOK, k') \<and> mb_put b k k' (mb_items (mb_of k b) @ [v])) \<and>
      (\<exists>k'. rt_mb_urgent b v k = Inr (RT_EOK, k') \<and> mb_put b k k' (v # mb_items (mb_of k b)))) \<and>
    (mb_entry (mb_of k b) = mb_size (mb_of k b) \<longrightarrow>
      rt_mb_send_wait_flag b v 0 sf k = Inr (Done (- RT_EFULL), k) \<and> rt_mb_urgent b v k = Inr (- RT_EFULL, k)) \<and>
    (mb_entry (mb_of k b) \<noteq> 0 \<longrightarrow>
      (\<exists>k'. rt_mb_recv_flag b timeout sf k = Inr (Done (RT_EOK, Some (hd (mb_items (mb_of k b)))), k') \<and> sched_inv {} k' \<and>
         mb_inv (mb_of k' b) \<and> mb_items (mb_of k' b) = tl (mb_items (mb_of k b)))) \<and>
    (mb_entry (mb_of k b) = 0 \<longrightarrow> rt_mb_recv_flag b 0 sf k = Inr (Done (- RT_ETIMEOUT, None), k)) \<and>
    length (mb_items (mb_of k b)) = unat (mb_entry (mb_of k b)) \<and> mb_entry (mb_of k b) \<le> mb_size (mb_of k b)"
proof -
  have "mb_entry (mb_of k b) \<le> mb_size (mb_of k b)" using assms(3) by (simp add: mb_inv_def)
  then show ?thesis
    using rt_mb_send_puts [OF assms, of v timeout sf] rt_mb_urgent_puts [OF assms, of v] rt_mb_send_full(1) [OF assms(2), of b v sf]
      rt_mb_urgent_full [of k b v] mb_recv_gets [OF assms, of timeout sf] rt_mb_recv_with_mail [OF assms(2), of b timeout sf]
      rt_mb_recv_empty(1) [OF assms(2), of b sf] mb_items_length [of "mb_of k b"]
    by metis
qed

theorem mailbox_is_bounded_queue_witness:
  "(\<exists>k'. rt_mb_send_wait_flag 0 7 0 RT_UNINTERRUPTIBLE example_kernel = Inr (Done RT_EOK, k') \<and> mb_items (mb_of k' 0) = [7]) \<and>
   (\<exists>k'. rt_mb_urgent 0 7 example_kernel = Inr (RT_EOK, k') \<and> mb_items (mb_of k' 0) = [7])"
proof -
  have b: "mb_inv (mb_of example_kernel 0)" "mb_items (mb_of example_kernel 0) = []" "mb_entry (mb_of example_kernel 0) \<noteq> mb_size (mb_of example_kernel 0)"
    by (simp_all add: mb_inv_def mb_items_def example_kernel_def example_ipc_def)
  show ?thesis using mailbox_is_bounded_queue [OF example_inv example_context b(1), of 7 0 RT_UNINTERRUPTIBLE] b(2,3) by (auto simp: mb_put_def)
qed

text \<open>
  Sending to an empty mailbox on which threads wait hands the value over: the first receiver is
  woken, and whatever its remaining time, its \<^verbatim>\<open>rt_mb_recv\<close> returns the value that was sent.
\<close>

theorem mailbox_hands_value_over:
  assumes "sched_inv {} k" and "thread_context c k" and "mb_inv (mb_of k b)" and "mb_entry (mb_of k b) = 0"
    and "k_list k (mb_receivers b) = r # rs" and "k_list k (mb_senders b) = []"
  shows "\<exists>k'. rt_mb_send_wait_flag b v timeout sf k = Inr (Done RT_EOK, k') \<and> sched_inv {} k' \<and> runs_highest k' \<and>
    mstat k' r \<in> {RT_THREAD_READY, RT_THREAD_RUNNING} \<and> k_list k' (mb_receivers b) = rs \<and>
    (\<exists>k2. rt_mb_recv_end b rest tick sf' r k' = Inr (Done (RT_EOK, Some v), k2) \<and> mb_items (mb_of k2 b) = [])"
  by (rule mb_hand_off [OF assms])

theorem mailbox_hands_value_over_witness:
  "\<exists>k'. rt_mb_send_wait_flag 0 7 0 RT_UNINTERRUPTIBLE (example_at (mb_receivers 0) None 20) = Inr (Done RT_EOK, k') \<and>
    (\<exists>k2. rt_mb_recv_end 0 0 0 RT_UNINTERRUPTIBLE 5 k' = Inr (Done (RT_EOK, Some 7), k2))"
proof -
  let ?k = "example_at (mb_receivers 0) None 20"
  have b: "mb_inv (mb_of ?k 0)" "mb_entry (mb_of ?k 0) = 0" by (simp_all add: mb_inv_def example_ipc_def)
  have l: "k_list ?k (mb_receivers 0) = [5]" "k_list ?k (mb_senders 0) = []"
    by (simp_all add: example_at_list mb_receivers_def mb_senders_def)
  have i: "sched_inv {} ?k" by (rule example_at_inv) (simp_all add: is_wait_list_def mb_receivers_def)
  show ?thesis using mailbox_hands_value_over [OF i example_at_context b l] by blast
qed

text \<open>
  C32: Sending an event serves exactly the satisfied waiters. They are served in their order, each from
  the flags the ones before have left; each is ready and its \<^verbatim>\<open>rt_event_recv\<close> returns \<^verbatim>\<open>RT_EOK\<close> with the
  flags it got; the others still wait and what is left does not satisfy any of them.
\<close>

theorem event_send_serves_waiters:
  assumes "sched_inv {} k" and "thread_context c k" and "flags \<noteq> 0"
    and "\<And>t. t \<in> set (k_list k (event_waiters e)) \<Longrightarrow> event_valid (th_event_info (k_thread k t))"
    and "event_deliver (wanted k) (k_list k (event_waiters e)) (ev_set (ev_of k e) OR flags) = (ds, rest)"
  shows "\<exists>k'. rt_event_send e flags k = Inr (RT_EOK, k') \<and> sched_inv {} k' \<and> (ds \<noteq> [] \<longrightarrow> runs_highest k') \<and>
    ev_set (ev_of k' e) = rest \<and> k_list k' (event_waiters e) = filter (\<lambda>t. t \<notin> fst ` set ds) (k_list k (event_waiters e)) \<and>
    (\<forall>(t, got) \<in> set ds. mstat k' t \<in> {RT_THREAD_READY, RT_THREAD_RUNNING} \<and> rt_event_recv_end t k' = (RT_EOK, Some got)) \<and>
    (\<forall>t \<in> set (k_list k' (event_waiters e)). wanted k' t = wanted k t \<and>
       event_test (th_event_info (k_thread k t)) (th_event_set (k_thread k t)) rest \<noteq> Some True)"
  by (rule rt_event_send_delivers [OF assms(1-3), where e = e, unfolded assms(5) unserved_def fst_conv snd_conv]) (rule assms(4))

theorem event_send_serves_waiters_witness:
  "\<exists>k'. rt_event_send 0 6 (upd_thread 5 (\<lambda>th. th\<lparr>th_event_set := 3, th_event_info := 6\<rparr>) (example_at (event_waiters 0) None 20)) = Inr (RT_EOK, k') \<and>
    rt_event_recv_end 5 k' = (RT_EOK, Some 2) \<and> ev_set (ev_of k' 0) = 4"
proof -
  let ?k = "upd_thread 5 (\<lambda>th. th\<lparr>th_event_set := 3, th_event_info := 6\<rparr>) (example_at (event_waiters 0) None 20)"
  have i: "sched_inv {} ?k" "thread_context 1 ?k"
    using example_at_inv [of "event_waiters 0" 20 None] example_at_context [of "event_waiters 0" None 20] by (simp_all add: thread_context_def)
  have l: "k_list ?k (event_waiters 0) = [5]" by (simp add: example_at_list)
  have w: "th_event_set (k_thread ?k 5) = 3" "th_event_info (k_thread ?k 5) = 6" "ev_set (ev_of ?k 0) = 0" by (simp_all add: example_ipc_def)
  have v: "event_valid (th_event_info (k_thread ?k t))" if "t \<in> set (k_list ?k (event_waiters 0))" for t
    using that unfolding l by (simp add: w event_valid_def RT_EVENT_FLAG_AND_def RT_EVENT_FLAG_OR_def)
  have d: "event_deliver (wanted ?k) (k_list ?k (event_waiters 0)) (ev_set (ev_of ?k 0) OR 6) =
      ([(5, 2)], 4)"
    unfolding l event_deliver.simps w
    by (simp add: event_test_def RT_EVENT_FLAG_AND_def RT_EVENT_FLAG_OR_def RT_EVENT_FLAG_CLEAR_def)
  have "(6 :: u32) \<noteq> 0" by simp
  from event_send_serves_waiters [OF i this v d] show ?thesis by auto
qed

section \<open>The system heap\<close>

text \<open>
  C35: Allocating from the small memory heap, for every size but 0 and the seven largest, which wrap when
  they are rounded up (\<open>huge_request_gets_short_block\<close> is about those). It never fails an assertion and always
  returns. If some free block is long enough for the rounded request and a header, the result is a block of at least the
  requested size, aligned, inside the heap and apart from every block in use, whose contents do not
  change; otherwise it is null and nothing changes.
\<close>

theorem heap_allocation_safe:
  assumes "heap_ok s" and "sz \<noteq> 0" and "unat sz + 7 < 2 ^ 32"
  shows "if \<exists>b \<in> set (heap_layout s). \<not> snd b \<and> rounded sz + 16 \<le> fst b then
      \<exists>a l s'. rt_smem_alloc self sz s = Some (Inr (at s a, s')) \<and> at s a \<noteq> 0 \<and> heap_ok s' \<and> live s' = insert (a, l) (live s) \<and>
        (a, l) \<notin> live s \<and> disjoint_from (a, l) (live s) \<and> 8 dvd a \<and> unat sz \<le> l \<and> a + l \<le> unat (sm_mem_size_aligned s) + 16 \<and>
        same_data (live s) s s'
    else rt_smem_alloc self sz s = Some (Inr (0, s))"
proof (cases "\<exists>b \<in> set (heap_layout s). \<not> snd b \<and> rounded sz + 16 \<le> fst b")
  case True
  then show ?thesis using heap_alloc(2) [OF assms True, of self] by (simp only: if_True)
next
  case False
  then have "\<forall>b \<in> set (heap_layout s). snd b \<or> fst b < rounded sz + 16" by (meson not_le)
  then show ?thesis using heap_alloc(1) [OF assms, of self] False by (simp only: if_False)
qed

theorem heap_allocation_safe_witness:
  "(\<exists>a s'. rt_smem_alloc None 100 example_heap = Some (Inr (at example_heap a, s')) \<and> heap_ok s' \<and> 8 dvd a) \<and>
   rt_smem_alloc None 1025 example_heap = Some (Inr (0, example_heap))"
proof -
  have "rounded 100 = 104" "rounded 1025 = 1032" by (simp_all add: rounded_def)
  then show ?thesis
    using heap_allocation_safe [OF example_heap_ok(1), of 100 None] heap_allocation_safe [OF example_heap_ok(1), of 1025 None]
    unfolding example_heap_ok(2) by auto
qed

text \<open>
  C36: Programs over the heap. Whatever blocks a program allocates and frees, in any order, the blocks in
  use stay apart from each other, and a block it does not free is in use at the end with the contents
  it had.
\<close>

theorem heap_programs_keep_blocks:
  assumes "heap_ok s"
  shows "heap_ok (heap_run smem_alloc smem_release live ops s) \<and> separate (live (heap_run smem_alloc smem_release live ops s)) \<and>
    (\<forall>b m. (b, m) \<in> live s \<and> Op_free b \<notin> set ops \<longrightarrow> (b, m) \<in> live (heap_run smem_alloc smem_release live ops s) \<and>
       (\<forall>j \<in> {b ..< b + m}. sm_mem (heap_run smem_alloc smem_release live ops s) (at (heap_run smem_alloc smem_release live ops s) j) = sm_mem s (at s j)))"
  using smem.run_ok [OF assms live_separate [OF assms], of ops] smem.run_keeps [OF assms, of _ _ ops] by blast

theorem heap_programs_keep_blocks_witness:
  "heap_ok (heap_run smem_alloc smem_release live [Op_alloc 10, Op_alloc 20, Op_free 16, Op_alloc 4] example_heap) \<and>
   separate (live (heap_run smem_alloc smem_release live [Op_alloc 10, Op_alloc 20, Op_free 16, Op_alloc 4] example_heap))"
  using heap_programs_keep_blocks [OF example_heap_ok(1), of "[Op_alloc 10, Op_alloc 20, Op_free 16, Op_alloc 4]"] by (elim conjE) (intro conjI)

text \<open>
  C37: Freeing gives the memory back: after a block has been allocated and freed again, the heap has the
  same blocks as before, the free ones joined as they were, the same amount in use and the same first free
  block.
\<close>

theorem heap_alloc_free_roundtrip:
  assumes "heap_ok s" and "sz \<noteq> 0" and "unat sz + 7 < 2 ^ 32" and "rt_smem_alloc self sz s = Some (Inr (r, s1))" and "r \<noteq> 0"
  shows "\<exists>s2. rt_smem_free r s1 = Inr s2 \<and> heap_ok s2 \<and> heap_layout s2 = heap_layout s \<and> sm_used s2 = sm_used s \<and> sm_lfree s2 = sm_lfree s"
  by (rule alloc_free_roundtrip [OF assms])

theorem heap_alloc_free_roundtrip_witness:
  "\<exists>r s1 s2. rt_smem_alloc None 100 example_heap = Some (Inr (r, s1)) \<and> rt_smem_free r s1 = Inr s2 \<and> heap_layout s2 = [(1040, False)]"
proof -
  obtain s a where s: "rt_smem_alloc None 100 example_heap = Some (Inr (at example_heap a, s))" "at example_heap a \<noteq> 0"
    using example_heap_block [of 100] by auto
  show ?thesis using heap_alloc_free_roundtrip [OF example_heap_ok(1) _ _ s] s(1) example_heap_ok(2) by auto
qed

text \<open>
  C40: A request for one of the seven largest sizes is not refused. Its size is rounded up modulo \<^verbatim>\<open>2^32\<close>, and
  \<^verbatim>\<open>rt_smem_alloc\<close> returns a block that is shorter than what was asked for.
\<close>

theorem huge_request_gets_short_block:
  assumes "heap_ok s" and "2 ^ 32 \<le> unat sz + 7" and "\<exists>b \<in> set (heap_layout s). \<not> snd b \<and> 32 \<le> fst b"
  shows "\<exists>a l s'. rt_smem_alloc self sz s = Some (Inr (at s a, s')) \<and> at s a \<noteq> 0 \<and> live s' = insert (a, l) (live s) \<and> (a, l) \<notin> live s \<and> l < unat sz"
proof -
  have r: "rounded 1 = 16" by (simp add: rounded_def)
  obtain a l s' where s': "rt_smem_alloc self 1 s = Some (Inr (at s a, s'))" "at s a \<noteq> 0" "live s' = insert (a, l) (live s)" "(a, l) \<notin> live s"
    "a + l \<le> unat (sm_mem_size_aligned s) + 16"
    using heap_alloc(2) [OF assms(1), where sz = 1 and self = self] assms(3) unfolding r by auto
  note R = heap_repD [OF heap_okD(2) [OF assms(1)]]
  have "l < unat sz" using s'(5) R(1,5) assms(2) by linarith
  then show ?thesis using s' alloc_size_wraps [OF assms(2), where self = self and s = s] by auto
qed

theorem huge_request_gets_short_block_witness:
  "\<exists>a l s'. rt_smem_alloc None 0xffffffff example_heap = Some (Inr (at example_heap a, s')) \<and> live s' = {(a, l)} \<and> l < 0xffffffff"
  using huge_request_gets_short_block [OF example_heap_ok(1), where sz = "0xffffffff" and self = None] unfolding example_heap_ok(2,3) by auto

text \<open>
  C38: Resizing, for every size and for a block in use or the null pointer. The size 0, and the seven largest,
  which are rounded to 0, free the block and return null. For the other sizes: with the size it has, the
  call returns the block. A block that gets shorter by more than a small block stays in place and its tail
  becomes free. One that gets longer, or shorter by less, moves with its contents if there is room; if there
  is not (also when it gets shorter), or the size exceeds the heap, the result is null and nothing changes. The
  other blocks keep their contents. With the null pointer the call allocates, or returns null for the
  largest sizes.
\<close>

theorem realloc_keeps_contents:
  assumes "heap_ok s" and "(a, l) \<in> live s"
  shows "(newsize = 0 \<or> 2 ^ 32 \<le> unat newsize + 7 \<longrightarrow>
     (\<exists>s'. rt_smem_realloc self (at s a) newsize s = Some (Inr (0, s')) \<and> heap_ok s' \<and> live s' = live s - {(a, l)} \<and> same_data (live s') s s')) \<and>
    (newsize \<noteq> 0 \<and> unat newsize + 7 < 2 ^ 32 \<longrightarrow>
     (aligned8 newsize = l \<longrightarrow> rt_smem_realloc self (at s a) newsize s = Some (Inr (at s a, s))) \<and>
     (aligned8 newsize + 28 < l \<longrightarrow> (\<exists>s'. rt_smem_realloc self (at s a) newsize s = Some (Inr (at s a, s')) \<and> heap_ok s' \<and>
        live s' = insert (a, aligned8 newsize) (live s - {(a, l)}) \<and> same_data (live s') s s')) \<and>
     (aligned8 newsize \<noteq> l \<and> l \<le> aligned8 newsize + 28 \<and> aligned8 newsize \<le> unat (sm_mem_size_aligned s) \<and>
        (\<exists>b \<in> set (heap_layout s). \<not> snd b \<and> rounded newsize + 16 \<le> fst b) \<longrightarrow>
      (\<exists>d m s'. rt_smem_realloc self (at s a) newsize s = Some (Inr (at s d, s')) \<and> at s d \<noteq> 0 \<and> heap_ok s' \<and>
        live s' = insert (d, m) (live s - {(a, l)}) \<and> unat newsize \<le> m \<and> disjoint_from (d, m) (live s) \<and>
        (\<forall>j < min l (aligned8 newsize). sm_mem s' (at s (d + j)) = sm_mem s (at s (a + j))) \<and> same_data (live s - {(a, l)}) s s')) \<and>
     (unat (sm_mem_size_aligned s) < aligned8 newsize \<or>
        aligned8 newsize \<noteq> l \<and> l \<le> aligned8 newsize + 28 \<and> (\<forall>b \<in> set (heap_layout s). snd b \<or> fst b < rounded newsize + 16) \<longrightarrow>
      rt_smem_realloc self (at s a) newsize s = Some (Inr (0, s)))) \<and>
    rt_smem_realloc self 0 newsize s = (if unat newsize + 7 < 2 ^ 32 then rt_smem_alloc self newsize s else Some (Inr (0, s)))"
  using realloc_frees [OF assms, of newsize self] realloc_unchanged [OF assms, of newsize self] realloc_shrinks [OF assms, of newsize self]
    realloc_moves [OF assms, of newsize self] realloc_null [of newsize self s] realloc_null_wraps [of newsize self s]
  by (intro conjI impI) (simp_all add: not_less, blast)

theorem realloc_keeps_contents_witness:
  "\<exists>s a l s'. (a, l) \<in> live s \<and> rt_smem_realloc None (at s a) 8 s = Some (Inr (at s a, s')) \<and> heap_ok s' \<and> live s' = insert (a, 8) (live s - {(a, l)})"
proof -
  obtain s a l where s: "heap_ok s" "(a, l) \<in> live s" "100 \<le> l" using example_heap_block [of 100] by auto
  have "aligned8 8 = 8" by (simp add: aligned8_def)
  then show ?thesis using realloc_keeps_contents [OF s(1,2), of 8 None] s(2,3) by auto
qed

text \<open>
  C39: Aligned blocks. For an alignment that is a power of two and at least 4, a size whose sum with it does
  not overflow, and a heap that has room for the sum, \<^verbatim>\<open>rt_malloc_align\<close> returns an aligned address with room for
  the requested bytes inside a new block, with a word before it that \<^verbatim>\<open>rt_free_align\<close> uses to find the block:
  freeing the address in the heap the call leaves, whenever the heap lock is free, gives exactly this block
  back. The heap lock is free again after each of the two calls. \<open>malloc_align_wraps\<close> is what happens when the sum
  overflows.
\<close>

theorem malloc_align_roundtrip:
  assumes "heap_ok h" and "heap_ready k" and "2 \<le> n" and "unat align = 2 ^ n" and "unat sz + 2 ^ n + 11 < 2 ^ 32"
    and "\<exists>b \<in> set (heap_layout h). \<not> snd b \<and> rounded (up4 sz + align) + 16 \<le> fst b"
  shows "\<exists>a l p k' h'. rt_malloc_align name sz align (k, h) = Some (Inr (Some p, k', h')) \<and> heap_done k k' \<and> heap_ok h' \<and>
    live h' = insert (a, l) (live h) \<and> disjoint_from (a, l) (live h) \<and> same_data (live h) h h' \<and>
    2 ^ n dvd unat p \<and> unat (at h a) < unat p \<and> unat p + unat sz \<le> unat (at h a) + l \<and>
    (\<forall>k2. heap_ready k2 \<longrightarrow> (\<exists>k3 h3. rt_free_align p (k2, h') = Some (Inr (Some (), k3, h3)) \<and> heap_done k2 k3 \<and> heap_ok h3 \<and>
       live h3 = live h \<and> same_data (live h) h h3))"
  by (rule rt_malloc_align_ok [OF assms])

theorem malloc_align_roundtrip_witness:
  "\<exists>p k' h'. rt_malloc_align (\<lambda>_. [65]) 100 64 (held_example 255, example_heap) = Some (Inr (Some p, k', h')) \<and> 64 dvd unat p \<and> mutex_inv k'"
proof -
  have "mx_owner (k_mutex (held_example 255) heap_mutex) = None" by (simp add: held_example_def heap_mutex_def)
  then have "heap_ready (held_example 255)"
    using held_example_inv [of 255] held_example_simps(7) [of 255] unfolding heap_ready_def by blast
  moreover have c: "k_current (held_example 255) \<noteq> None" using held_example_simps(7) [of 255] by (simp add: thread_context_def)
  moreover have "unat (64 :: u32) = 2 ^ 6" by simp
  moreover have "rounded (up4 100 + 64) = 168" by (simp add: rounded_def up4_def)
  ultimately show ?thesis
    using malloc_align_roundtrip [OF example_heap_ok(1), of "held_example 255" 6 64 100 "\<lambda>_. [65]"] unfolding example_heap_ok(2) heap_done_def by auto
qed

section \<open>Message queues and memory pools\<close>

text \<open>
  C33: A message queue is a bounded queue of messages. A message that fits is appended, or put in front by
  \<^verbatim>\<open>rt_mq_urgent\<close>, and its bytes arrive (a shorter message is followed by what the block held before);
  one that is too long is refused, and so is any message when every block is in use. Receiving returns the
  first message; an empty queue times out at once without a time limit.
\<close>

theorem message_queue_is_fifo:
  assumes "sched_inv {} k" and "thread_context c k" and "mq_inv (mq_of k b)" and "sz \<noteq> 0"
  shows "(mq_entry (mq_of k b) \<noteq> mq_max_msgs (mq_of k b) \<and> unat sz \<le> unat (mq_msg_size (mq_of k b)) \<and> unat sz \<le> length buffer \<longrightarrow>
      (\<exists>k' m. rt_mq_send_wait_flag b buffer sz timeout sf k = Inr (Done RT_EOK, k') \<and> sched_inv {} k' \<and> mq_inv (mq_of k' b) \<and>
         arrives buffer sz (mq_of k b) m \<and> mq_items (mq_of k' b) = mq_items (mq_of k b) @ [m]) \<and>
      (\<exists>k' m. rt_mq_urgent b buffer sz k = Inr (RT_EOK, k') \<and> sched_inv {} k' \<and> mq_inv (mq_of k' b) \<and>
         arrives buffer sz (mq_of k b) m \<and> mq_items (mq_of k' b) = m # mq_items (mq_of k b))) \<and>
    (unat (mq_msg_size (mq_of k b)) < unat sz \<longrightarrow> rt_mq_send_wait_flag b buffer sz timeout sf k = Inr (Done (- RT_ERROR), k)) \<and>
    (mq_entry (mq_of k b) = mq_max_msgs (mq_of k b) \<and> unat sz \<le> unat (mq_msg_size (mq_of k b)) \<longrightarrow>
      rt_mq_send_wait_flag b buffer sz 0 sf k = Inr (Done (- RT_EFULL), k)) \<and>
    (mq_entry (mq_of k b) \<noteq> 0 \<longrightarrow>
      (\<exists>k'. mq_recv_loop b sz timeout sf k = Inr (Done (RT_EOK, Some (take (unat sz) (hd (mq_items (mq_of k b))))), k') \<and>
         sched_inv {} k' \<and> mq_inv (mq_of k' b) \<and> mq_items (mq_of k' b) = tl (mq_items (mq_of k b)))) \<and>
    (mq_entry (mq_of k b) = 0 \<longrightarrow> rt_mq_recv_flag b sz 0 sf k = Inr (Done (- RT_ETIMEOUT, None), k)) \<and>
    length (mq_items (mq_of k b)) = unat (mq_entry (mq_of k b)) \<and> mq_entry (mq_of k b) \<le> mq_max_msgs (mq_of k b)"
proof -
  obtain ms fs where r: "mq_rep (mq_of k b) ms fs" using assms(3) by (auto simp: mq_inv_def)
  note R = room_iff(1,4,5) [OF r]
  note S = rt_mq_send_refused(1,2) [OF assms(2,4), where b = b and buffer = buffer and sf = sf]
  show ?thesis
  proof (intro conjI impI, goal_cases)
    case 1
    then show ?case using rt_mq_send_stores(1) [OF assms(1-3), of sz buffer timeout sf] assms(4) by blast
  next
    case 2
    then show ?case using rt_mq_send_stores(2) [OF assms(1-3), of sz buffer] assms(4) by blast
  next
    case 3
    then show ?case using S(1) by blast
  next
    case 4
    then show ?case using S(2) R(1) by simp
  next
    case 5
    then show ?case using mq_recv_gets [OF assms(1-3), of sz timeout sf] by blast
  next
    case 6
    then show ?case using rt_mq_recv_empty(1) [OF assms(2) _ assms(4), of b sf] by blast
  qed (rule R)+
qed

theorem message_queue_is_fifo_witness:
  "\<exists>k k'. rt_mq_send_wait_flag 0 [1, 2] 2 0 RT_UNINTERRUPTIBLE k = Inr (Done RT_EOK, k') \<and> mq_items (mq_of k' 0) \<noteq> []"
proof -
  let ?q = "\<lparr>mq_msg_pool = 0x100, mq_msg_size = 4, mq_max_msgs = 1, mq_entry = 0, mq_head = None, mq_tail = None, mq_free = Some 0x100,
    mq_next = (\<lambda>_. None), mq_body = (\<lambda>_. [0, 0, 0, 0]), mq_flag = RT_IPC_FLAG_FIFO\<rparr>"
  define k where "k = upd_mq 0 (\<lambda>_. ?q) example_kernel"
  have "mq_rep ?q [] [0x100]" by (simp add: mq_rep_def)
  then have q: "mq_inv (mq_of k 0)" "mq_entry (mq_of k 0) \<noteq> mq_max_msgs (mq_of k 0)" "mq_msg_size (mq_of k 0) = 4" by (auto simp: mq_inv_def k_def)
  have k: "sched_inv {} k" "thread_context 1 k" using example_inv example_context by (simp_all add: k_def)
  obtain k' m where "rt_mq_send_wait_flag 0 [1, 2] 2 0 RT_UNINTERRUPTIBLE k = Inr (Done RT_EOK, k')"
      "mq_items (mq_of k' 0) = mq_items (mq_of k 0) @ [m]"
    using message_queue_is_fifo [OF k q(1), of 2 "[1, 2]" 0 RT_UNINTERRUPTIBLE] q(2,3) by auto
  then show ?thesis by (intro exI [of _ k] exI [of _ k']) simp
qed

text \<open>
  C34: A memory pool gives out each block once. With a free block, allocation returns the first one, which
  was not in use; freeing it at once, when no thread waits, restores the kernel exactly. Without, it returns null when it may not
  wait. Freeing a block in use makes it the first free block and wakes a waiting thread.
\<close>

theorem memory_pool_blocks:
  assumes "sched_inv {} k" and "thread_context c k" and "mp_rep m k fs us"
  shows "(\<forall>a fs'. fs = a # fs' \<longrightarrow> a \<notin> us \<and>
      (\<exists>k'. rt_mp_alloc m time k = Inr (Done (a + 4), k') \<and> mp_rep m k' fs' (insert a us) \<and> sched_inv {} k' \<and>
         (a + 4 \<noteq> 0 \<and> k_list k (mp_waiters m) = [] \<longrightarrow> rt_mp_free (a + 4) k' = Inr k))) \<and>
    (fs = [] \<longrightarrow> rt_mp_alloc m 0 k = Inr (Done 0, set_error c (- RT_ETIMEOUT) k)) \<and>
    (\<forall>a \<in> us. a + 4 \<noteq> 0 \<longrightarrow> (\<exists>k1 k'. rt_mp_free (a + 4) k = Inr k' \<and> mp_rep m k' (a # fs) (us - {a}) \<and> sched_inv {} k' \<and>
       k_list k1 = k_list k \<and> woken_if (mp_waiters m) k1 k'))"
proof (intro conjI allI impI ballI, goal_cases)
  case (1 a fs')
  then show ?case using assms(3) by (simp add: mp_rep_def)
next
  case (2 a fs')
  obtain k' where k': "rt_mp_alloc m time k = Inr (Done (a + 4), k')" "mp_rep m k' fs' (insert a us)" "sched_inv {} k' = sched_inv {} k"
    using mp_take_ok [of m k a fs' us time "{}"] assms(3) 2 by blast
  have "rt_mp_free (a + 4) k' = Inr k" if "a + 4 \<noteq> 0" "k_list k (mp_waiters m) = []"
    using mp_roundtrip [of m k a fs' us time] assms(3) 2 that k'(1) by auto
  then show ?case using k' assms(1) by blast
next
  case 3
  then show ?case using mp_alloc_none assms(2,3) by blast
next
  case (4 a)
  then show ?case using rt_mp_free_ok [OF assms 4] by blast
qed

theorem memory_pool_blocks_witness:
  "\<exists>k k'. rt_mp_alloc 0 0 k = Inr (Done 0x104, k') \<and> mp_rep 0 k' [] {0x100} \<and> rt_mp_free 0x104 k' = Inr k"
proof -
  let ?k = "set_block 0x100 (B_next None) (upd_mp 0 (\<lambda>mp. mp\<lparr>mp_block_list := Some 0x100, mp_block_total_count := 1, mp_block_free_count := 1\<rparr>) example_kernel)"
  have r: "mp_rep 0 ?k [0x100] {}" by (simp add: mp_rep_def)
  have k: "sched_inv {} ?k" "thread_context 1 ?k" using example_inv example_context by simp_all
  have "k_list ?k (mp_waiters 0) = []" by (simp add: example_list mp_waiters_def)
  then show ?thesis using memory_pool_blocks [OF k r, of 0] by auto
qed

section \<open>Threads from start-up to exit\<close>

text \<open>
  C3: Start-up establishes what the operations keep. From a kernel that has started no thread, whatever its
  ready table holds, with stacks for the timer thread and the idle thread and memory for that of main,
  \<^verbatim>\<open>rtthread_startup\<close> ends with a well-formed kernel that runs its most urgent thread, the timer thread, with
  the main thread and the idle thread ready and the scheduler unlocked.
\<close>

theorem startup_establishes_kernel:
  assumes "unstarted k" and "timer_stack \<noteq> 0" and "idle_stack \<noteq> 0" and "alloc RT_MAIN_THREAD_STACK_SIZE \<noteq> None"
    and "main \<noteq> timer_thread" and "idle \<noteq> timer_thread" and "main \<noteq> idle"
  shows "\<exists>k'. rtthread_startup main idle alloc timer_stack idle_stack k = Inr k' \<and> sched_inv {} k' \<and> runs_highest k' \<and> k_current k' = Some timer_thread \<and>
    mstat k' main = RT_THREAD_READY \<and> mstat k' idle = RT_THREAD_READY \<and> k_lock k' = 0 \<and> k_irq k' = k_irq k \<and>
    prio_of k' main = RT_MAIN_THREAD_PRIORITY \<and> prio_of k' idle = 31"
  using assms by (intro rtthread_startup_ok)

theorem startup_establishes_kernel_witness:
  "\<exists>k k'. rtthread_startup 1 2 (\<lambda>_. Some 0x80100000) 0x80200000 0x80300000 k = Inr k' \<and> sched_inv {} k' \<and> k_current k' = Some 0"
proof -
  let ?k = "example_kernel\<lparr>k_current := None, k_list := \<lambda>_. [], k_linked := \<lambda>_. False, k_thread := \<lambda>_. example_thread 20 0\<rparr>"
  have "unstarted ?k" by (simp add: unstarted_def mstat_def example_thread_def stat_defs)
  from startup_establishes_kernel [OF this, where timer_stack = "0x80200000" and idle_stack = "0x80300000" and alloc = "\<lambda>_. Some 0x80100000" and main = 1 and idle = 2] show ?thesis
    by (auto simp: timer_thread_def)
qed

text \<open>
  A thread that exits is closed for good and taken apart once. The kernel stays well-formed and
  runs another thread; the closed thread is first on the defunct list, and when the idle thread comes to
  \<^verbatim>\<open>rt_defunct_execute\<close> that loop ends with an empty list, having freed the closed threads that were
  allocated, each once. Mutexes of the thread are not released: their owner is the closed thread.
\<close>

theorem exited_thread_is_reaped:
  assumes "sched_inv {} k" and "thread_context c k" and "k_lock k = 0" and "mstat k u = RT_THREAD_READY"
    and "cleanup_ok cleanup" and "\<not> is_systemobject c"
  shows "\<exists>k' k''. rt_thread_exit k = Inr k' \<and> sched_inv {} k' \<and> runs_highest k' \<and> k_current k' \<noteq> Some c \<and> mstat k' c = RT_THREAD_CLOSE \<and>
    k_mutex k' = k_mutex k \<and> rt_defunct_execute is_systemobject cleanup k' =
      Some (Inr (c # filter (\<lambda>t. \<not> is_systemobject t) (k_list k L_defunct), k'')) \<and>
    sched_inv {} k'' \<and> k_list k'' L_defunct = [] \<and> c \<notin> set (k_list k L_defunct) \<and> distinct (k_list k L_defunct)"
proof -
  have c: "k_current k = Some c" "mstat k c = RT_THREAD_RUNNING" "k_irq k = 0" using assms(2) by (simp_all add: thread_context_def)
  obtain k' where k': "rt_thread_exit k = Inr k'" "sched_inv {} k'" "runs_highest k'" "k_current k' \<noteq> Some c" "mstat k' c = RT_THREAD_CLOSE"
      "k_list k' L_defunct = c # k_list k L_defunct" "k_mutex k' = k_mutex k"
    using thread_exit_closes [OF assms(1) c assms(3,4)] by blast
  obtain k'' where "rt_defunct_execute is_systemobject cleanup k' = Some (Inr (filter (\<lambda>t. \<not> is_systemobject t) (k_list k' L_defunct), k''))"
      "sched_inv {} k''" "k_list k'' L_defunct = []" using rt_defunct_execute_frees [OF k'(2) assms(5)] by blast
  moreover have "c \<notin> set (k_list k L_defunct)" using defunct_stat [OF assms(1), of c] c(2) by auto
  moreover have "distinct (k_list k L_defunct)" using sched_invD(2) [OF assms(1)] by (simp add: links_ok_def lists_ok_def)
  ultimately show ?thesis using k' assms(6) by auto
qed

theorem exited_thread_is_reaped_witness:
  "\<exists>k' k''. rt_thread_exit example_kernel = Inr k' \<and> rt_defunct_execute (\<lambda>_. False) (\<lambda>_. None) k' = Some (Inr ([1], k'')) \<and> sched_inv {} k''"
proof -
  have k: "k_lock example_kernel = 0" "mstat example_kernel 2 = RT_THREAD_READY" "k_list example_kernel L_defunct = []"
    by (simp_all add: example_list stat_defs)
  have "cleanup_ok (\<lambda>_. None)" by (simp add: cleanup_ok_def)
  from exited_thread_is_reaped [OF example_inv example_context k(1,2) this, of "\<lambda>_. False"] show ?thesis by (auto simp: k(3))
qed

text \<open>
  C17: The memory routines of the kernel that work on words and blocks of words, \<^verbatim>\<open>rt_memcpy\<close> and
  \<^verbatim>\<open>rt_memset\<close>, have exactly the effect of the byte loops of klib for all addresses and lengths, overlapping
  regions included; comparison and the string routines agree with klib too, also in when they do not return.
\<close>

theorem word_routines_equal_bytewise:
  "rt_memcpy m d s n = memcpy m d s n \<and> rt_memset m d c n = memset m d c n \<and> rt_memcmp m d s n = memcmp m d s n \<and>
   rt_strncpy m d s n = strncpy m d s n \<and> rt_strcpy m d s = strcpy m d s \<and> rt_strlen m s = strlen m s \<and> rt_strcmp m d s = strcmp m d s"
  by (simp only: rt_memcpy_eq rt_memset_eq rt_memcmp_eq rt_strncpy_eq rt_strcpy_eq rt_strlen_eq rt_strcmp_eq simp_thms)

text \<open>
  The registry of kernel objects. Initialising an object of a class makes it the one that
  \<^verbatim>\<open>rt_object_find\<close> returns for its name, with its class in the type byte, and changes no other class and no
  memory outside the name and the type of the object; detaching it gives the lists back as they were,
  and no search finds it any more.
\<close>

theorem registered_object_is_found:
  assumes "rt_object_get_information c r = Some i" and "objects c r = Inr l" and "ob \<notin> set l" and "name \<noteq> 0" and "name_apart ob name"
  shows "\<exists>r'. rt_object_init ob c name r = Inr r' \<and> rt_object_find name c r' = Inr (Some ob) \<and> objects c r' = Inr (ob # l) \<and>
    rt_object_is_systemobject ob r' \<and> rt_object_get_type ob r' = class_code c \<and> (\<forall>c'. c' \<noteq> c \<longrightarrow> objects c' r' = objects c' r) \<and>
    (\<forall>a. 25 \<le> unat (a - ob) \<longrightarrow> r_mem r' a = r_mem r a) \<and>
    objects c (rt_object_detach ob r') = Inr l \<and> (\<forall>name' c'. rt_object_find name' c' (rt_object_detach ob r') \<noteq> Inr (Some ob))"
proof -
  obtain r' where r': "rt_object_init ob c name r = Inr r'" "rt_object_find name c r' = Inr (Some ob)" "objects c r' = Inr (ob # l)"
      "\<forall>c'. c' \<noteq> c \<longrightarrow> objects c' r' = objects c' r" "r_mem r' (ob + off_type) = class_code c OR RT_Object_Class_Static"
      "\<forall>a. 25 \<le> unat (a - ob) \<longrightarrow> r_mem r' a = r_mem r a"
    using rt_object_init_registers [OF assms] by blast
  have "rt_object_is_systemobject ob r' \<and> rt_object_get_type ob r' = class_code c"
    unfolding rt_object_is_systemobject_def rt_object_get_type_def r'(5) by (cases c) (simp_all add: RT_Object_Class_Static_def)
  moreover have "objects c (rt_object_detach ob r') = Inr l"
    using rt_object_detach_unregisters(1) [OF r'(3), of ob] assms(3) by simp
  ultimately show ?thesis using r' rt_object_detach_unregisters(2) by blast
qed

theorem registered_object_is_found_witness:
  "\<exists>r r'. rt_object_init 0x1000 RT_Object_Class_Semaphore 0x2000 r = Inr r' \<and> rt_object_find 0x2000 RT_Object_Class_Semaphore r' = Inr (Some 0x1000)"
proof -
  let ?r = "\<lparr>r_mem = \<lambda>_. 0, r_container = object_container (\<lambda>_. 64)\<rparr>"
  have i: "rt_object_get_information RT_Object_Class_Semaphore ?r = Some 1" by (simp add: rt_object_get_information_def object_container_def)
  then have l: "objects RT_Object_Class_Semaphore ?r = Inr []" by (simp add: objects_def objects_at_def object_container_def)
  have "name_apart 0x1000 0x2000" by (rule name_apartI) simp_all
  then show ?thesis using registered_object_is_found [OF i l, of "0x1000" "0x2000"] by auto
qed

end
